(* ===== verification/Prelude.thy ===== *)
theory Prelude
  imports Main "HOL-Library.Word" "HOL-Library.Monad_Syntax"
begin

text \<open>
  Shared vocabulary of the development.

  \<^item> Machine integers are \<open>'w word\<close>; the synonyms \<open>u8\<close> \<dots> \<open>u64\<close> name the widths of the C
    sources (\<open>uint8_t\<close> \<dots> \<open>uint64_t\<close>, \<open>unsigned long\<close> and \<open>size_t\<close> on an LP64 target).
  \<^item> A C array is a list. Every access goes through \<open>mem_load\<close>, \<open>mem_store\<close>,
    \<open>mem_read\<close> (the source side of \<open>memcpy\<close>) and \<open>mem_write\<close> (its target side); all return
    \<open>None\<close> outside the bounds of the array, which is where C has undefined behaviour. An
    operation of the model that returns \<open>None\<close> therefore stands for a run with an
    out-of-bounds access, and a theorem that it returns \<open>Some\<close> is a memory-safety theorem.
  \<^item> \<open>mem_simps\<close> collects the facts that evaluate these accesses, \<open>word_nat\<close> the facts that
    move word arithmetic to \<open>nat\<close>.
\<close>

unbundle bit_operations_syntax

type_synonym u8 = "8 word"
type_synonym u16 = "16 word"
type_synonym u32 = "32 word"
type_synonym u64 = "64 word"
type_synonym bytes = "u8 list"

named_theorems mem_simps \<open>evaluation of bounds-checked array accesses\<close>
named_theorems word_nat \<open>unsigned word arithmetic as arithmetic on nat\<close>

subsection \<open>Arrays with bounds-checked access\<close>

definition mem_load :: "'a list \<Rightarrow> nat \<Rightarrow> 'a option" where
  "mem_load xs i = (if i < length xs then Some (xs ! i) else None)"

definition mem_store :: "'a list \<Rightarrow> nat \<Rightarrow> 'a \<Rightarrow> 'a list option" where
  "mem_store xs i v = (if i < length xs then Some (xs[i := v]) else None)"

definition mem_read :: "'a list \<Rightarrow> nat \<Rightarrow> nat \<Rightarrow> 'a list option" where
  "mem_read xs off n = (if off + n \<le> length xs then Some (take n (drop off xs)) else None)"

definition mem_write :: "'a list \<Rightarrow> nat \<Rightarrow> 'a list \<Rightarrow> 'a list option" where
  "mem_write xs off ys =
     (if off + length ys \<le> length xs
      then Some (take off xs @ ys @ drop (off + length ys) xs) else None)"

text \<open>Accesses with an \<open>int\<close> index; a negative one is out of bounds.\<close>

definition mem_load_int :: "'a list \<Rightarrow> int \<Rightarrow> 'a option" where
  "mem_load_int xs i = (if i < 0 then None else mem_load xs (nat i))"

definition mem_store_int :: "'a list \<Rightarrow> int \<Rightarrow> 'a \<Rightarrow> 'a list option" where
  "mem_store_int xs i v = (if i < 0 then None else mem_store xs (nat i) v)"

lemma mem_load_Some [mem_simps]: "i < length xs \<Longrightarrow> mem_load xs i = Some (xs ! i)"
  by (simp add: mem_load_def)

lemma mem_load_None [mem_simps]: "length xs \<le> i \<Longrightarrow> mem_load xs i = None"
  by (simp add: mem_load_def)

lemma mem_store_Some [mem_simps]: "i < length xs \<Longrightarrow> mem_store xs i v = Some (xs[i := v])"
  by (simp add: mem_store_def)

lemma mem_store_None [mem_simps]: "length xs \<le> i \<Longrightarrow> mem_store xs i v = None"
  by (simp add: mem_store_def)

lemma mem_read_Some [mem_simps]:
  "off + n \<le> length xs \<Longrightarrow> mem_read xs off n = Some (take n (drop off xs))"
  by (simp add: mem_read_def)

lemma mem_write_Some [mem_simps]:
  "off + length ys \<le> length xs \<Longrightarrow>
   mem_write xs off ys = Some (take off xs @ ys @ drop (off + length ys) xs)"
  by (simp add: mem_write_def)

lemma mem_write_append:
  "n = length xs \<Longrightarrow> length zs \<le> length ys \<Longrightarrow>
   mem_write (xs @ ys) n zs = Some (xs @ zs @ drop (length zs) ys)"
  by (simp add: mem_write_def)

lemma mem_write_length: "mem_write xs off ys = Some zs \<Longrightarrow> length zs = length xs"
  by (auto simp: mem_write_def split: if_splits)

lemma mem_store_length: "mem_store xs i v = Some zs \<Longrightarrow> length zs = length xs"
  by (auto simp: mem_store_def split: if_splits)

lemma nth_patch:
  "off + length ys \<le> length xs \<Longrightarrow> j < length xs \<Longrightarrow>
   (take off xs @ ys @ drop (off + length ys) xs) ! j =
     (if off \<le> j \<and> j < off + length ys then ys ! (j - off) else xs ! j)"
  by (auto simp: nth_append min_def)

subsection \<open>Words and natural numbers\<close>

lemma unat_add_small [word_nat]:
  "unat (a :: 'a::len word) + unat b < 2 ^ LENGTH('a) \<Longrightarrow> unat (a + b) = unat a + unat b"
  by (simp add: unat_add_lem [symmetric])

lemma unat_sub_small [word_nat]:
  "unat b \<le> unat (a :: 'a::len word) \<Longrightarrow> unat (a - b) = unat a - unat b"
  by (simp add: unat_sub word_le_nat_alt)

lemma word_le_unat [word_nat]: "(a :: 'a::len word) \<le> b \<longleftrightarrow> unat a \<le> unat b"
  by (rule word_le_nat_alt)

lemma word_less_unat [word_nat]: "(a :: 'a::len word) < b \<longleftrightarrow> unat a < unat b"
  by (rule word_less_nat_alt)

lemma uint_le_diff_unat:
  "uint (a :: 'a::len word) \<le> uint (b :: 'b::len word) - uint (c :: 'c::len word)
   \<longleftrightarrow> unat a + unat c \<le> unat b"
  unfolding uint_nat by linarith

lemma unat_lt16: "unat (x :: u16) < 65536"
  using unsigned_less [of x] by simp

lemma unat_lt8: "unat (x :: u8) < 256"
  using unsigned_less [of x] by simp

lemma unat_lt32: "unat (x :: u32) < 4294967296"
  using unsigned_less [of x] by simp

lemma xor_cancel: "(a :: 'a::len word) XOR c = b XOR c \<longleftrightarrow> a = b"
  by (metis xor.assoc xor_self_eq xor.right_neutral)

lemma xor_cancel_left: "(c :: 'a::len word) XOR a = c XOR b \<longleftrightarrow> a = b"
  by (metis xor.assoc xor_self_eq xor.left_neutral)

lemma xor_zero_iff: "(a :: 'a::len word) XOR b = 0 \<longleftrightarrow> a = b"
  by (metis xor_cancel xor_self_eq)

lemma unat_scast_nonneg: "unat (sz :: u32) < 2 ^ 31 \<Longrightarrow> unat (scast sz :: u64) = unat sz"
proof -
  assume a: "unat sz < 2 ^ 31"
  then have "\<not> bit sz 31"
    by (simp add: bit_iff_odd_drop_bit drop_bit_eq_div word_arith_nat_div unat_div bit_unsigned_iff
      word_unat_eq_iff odd_iff_mod_2_eq_one flip: bit_unsigned_iff)
  then have "(scast sz :: u64) = ucast sz"
    using not_bit_length [of sz] bit_imp_le_length [of sz]
    by (intro bit_eqI) (auto simp: bit_simps min_def le_less Suc_le_eq dest: bit_imp_le_length)
  then show ?thesis using a by (simp add: unsigned_ucast_eq take_bit_nat_eq_self)
qed

text \<open>Equality of bytes bit by bit, and bytes that fit in six bits.\<close>

lemma byte_bit_high: "8 \<le> n \<Longrightarrow> \<not> bit (a :: u8) n"
  using bit_imp_le_length [of a n] by auto

lemma byte_eqI:
  fixes a b :: u8
  assumes "bit a 0 = bit b 0" "bit a 1 = bit b 1" "bit a 2 = bit b 2" "bit a 3 = bit b 3"
    "bit a 4 = bit b 4" "bit a 5 = bit b 5" "bit a 6 = bit b 6" "bit a 7 = bit b 7"
  shows "a = b"
proof (rule bit_word_eqI)
  fix n assume "n < LENGTH(8)"
  then have "n = 0 \<or> n = 1 \<or> n = 2 \<or> n = 3 \<or> n = 4 \<or> n = 5 \<or> n = 6 \<or> n = 7" by auto
  then show "bit a n = bit b n" using assms by (elim disjE) simp_all
qed

lemma byte_less_64:
  assumes "\<not> bit (i :: u8) 6" "\<not> bit i 7" shows "unat i < 64"
proof -
  have "i = take_bit 6 i" using assms by (intro byte_eqI) (simp_all add: bit_simps)
  then have "unat i = take_bit 6 (unat i)" by (metis unsigned_take_bit_eq)
  then show ?thesis using take_bit_nat_less_exp [of 6 "unat i"] by simp
qed

text \<open>Words of 32 bits in memory, least significant byte first.\<close>

definition le32_bytes :: "u32 \<Rightarrow> bytes" where
  "le32_bytes v = [ucast v, ucast (drop_bit 8 v), ucast (drop_bit 16 v), ucast (drop_bit 24 v)]"

definition le32_word :: "u8 \<Rightarrow> u8 \<Rightarrow> u8 \<Rightarrow> u8 \<Rightarrow> u32" where
  "le32_word a b c d =
     ucast a OR push_bit 8 (ucast b) OR push_bit 16 (ucast c) OR push_bit 24 (ucast d)"

lemma length_le32_bytes [simp]: "length (le32_bytes v) = 4"
  by (simp add: le32_bytes_def)

lemma le32_bytes_word: "le32_bytes (le32_word a b c d) = [a, b, c, d]"
  unfolding le32_bytes_def le32_word_def list.inject
  by (intro conjI bit_eqI refl) (auto simp: bit_simps dest: bit_imp_le_length)

lemma le32_word_bytes:
  "le32_word (ucast v) (ucast (drop_bit 8 v)) (ucast (drop_bit 16 v)) (ucast (drop_bit 24 v)) = v"
proof (rule bit_word_eqI)
  fix n assume n: "n < LENGTH(32)"
  consider "n < 8" | "8 \<le> n" "n < 16" | "16 \<le> n" "n < 24" | "24 \<le> n" by linarith
  then show "bit (le32_word (ucast v) (ucast (drop_bit 8 v)) (ucast (drop_bit 16 v))
    (ucast (drop_bit 24 v))) n = bit v n"
    using n by cases (auto simp: le32_word_def bit_simps)
qed

text \<open>Rotations written with shifts.\<close>

lemma push_drop_rotl:
  assumes "0 < k" "k < 32"
  shows "push_bit k w OR drop_bit (32 - k) w = word_rotl k (w :: u32)"
proof (rule bit_word_eqI)
  fix n assume "n < LENGTH(32)"
  moreover from this assms have "(n + (32 - k)) mod 32 = (if n < k then n + (32 - k) else n - k)"
    by (auto simp: mod_if)
  ultimately show "bit (push_bit k w OR drop_bit (32 - k) w) n = bit (word_rotl k w) n"
    using assms by (auto simp: bit_simps add.commute [of n] dest: bit_imp_le_length)
qed

lemma drop_push_rotr:
  assumes "0 < k" "k < 32"
  shows "drop_bit k w OR push_bit (32 - k) w = word_rotr k (w :: u32)"
proof (rule bit_word_eqI)
  fix n assume "n < LENGTH(32)"
  moreover from this assms have "(n + k) mod 32 = (if n + k < 32 then n + k else n - (32 - k))"
    by (auto simp: mod_if)
  ultimately show "bit (drop_bit k w OR push_bit (32 - k) w) n = bit (word_rotr k w) n"
    using assms by (auto simp: bit_simps add.commute [of n] dest: bit_imp_le_length)
qed

text \<open>Evaluation of a fold state by state: the next state is normalised before the fold goes on.\<close>

lemma foldl_eval: "f s k = t \<Longrightarrow> foldl f s (k # ks) = foldl f t ks"
  by simp

subsection \<open>Arrays of words as bit sets\<close>

definition arr_bit :: "'a::len word list \<Rightarrow> nat \<Rightarrow> bool" where
  "arr_bit xs c = bit (xs ! (c div LENGTH('a))) (c mod LENGTH('a))"

definition arr_elems :: "'a::len word list \<Rightarrow> nat set" where
  "arr_elems xs = {c. c < LENGTH('a) * length xs \<and> arr_bit xs c}"

lemma arr_bit_at: "k < LENGTH('a::len) \<Longrightarrow> arr_bit xs (i * LENGTH('a) + k) = bit ((xs :: 'a word list) ! i) k"
  by (simp add: arr_bit_def)

lemma div_length: "c < LENGTH('a::len) * n \<Longrightarrow> c div LENGTH('a) < n"
  by (simp add: less_mult_imp_div_less mult.commute)

lemma arr_bit_update:
  "i < length xs \<Longrightarrow> arr_bit ((xs :: 'a::len word list)[i := v]) c =
     (if c div LENGTH('a) = i then bit v (c mod LENGTH('a)) else arr_bit xs c)"
  by (simp add: arr_bit_def nth_list_update)

lemma same_word: "c div w = i div w \<Longrightarrow> c mod w = i mod w \<longleftrightarrow> c = (i :: nat)"
  by (metis div_mult_mod_eq)

lemma arr_bit_set:
  "i div LENGTH('a::len) < length xs \<Longrightarrow>
   arr_bit (xs[i div LENGTH('a) := (xs ! (i div LENGTH('a)) :: 'a word) OR 2 ^ (i mod LENGTH('a))]) c = (c = i \<or> arr_bit xs c)"
  "i div LENGTH('a) < length xs \<Longrightarrow>
   arr_bit (xs[i div LENGTH('a) := (xs ! (i div LENGTH('a)) :: 'a word) AND NOT (2 ^ (i mod LENGTH('a)))]) c = (c \<noteq> i \<and> arr_bit xs c)"
  "i div LENGTH('a) < length xs \<Longrightarrow>
   arr_bit (xs[i div LENGTH('a) := (xs ! (i div LENGTH('a)) :: 'a word) XOR 2 ^ (i mod LENGTH('a))]) c = ((c = i) \<noteq> arr_bit xs c)"
proof -
  have e: "bit (2 ^ (i mod LENGTH('a)) :: 'a word) (c mod LENGTH('a)) = (c mod LENGTH('a) = i mod LENGTH('a))"
    by (simp add: bit_simps)
  show "i div LENGTH('a) < length xs \<Longrightarrow> arr_bit (xs[i div LENGTH('a) := (xs ! (i div LENGTH('a)) :: 'a word) OR 2 ^ (i mod LENGTH('a))]) c = (c = i \<or> arr_bit xs c)"
    using same_word [of c "LENGTH('a)" i] by (auto simp: arr_bit_update bit_or_iff e) (auto simp: arr_bit_def)
  show "i div LENGTH('a) < length xs \<Longrightarrow> arr_bit (xs[i div LENGTH('a) := (xs ! (i div LENGTH('a)) :: 'a word) AND NOT (2 ^ (i mod LENGTH('a)))]) c = (c \<noteq> i \<and> arr_bit xs c)"
    using same_word [of c "LENGTH('a)" i] by (auto simp: arr_bit_update bit_and_iff bit_not_iff_eq e) (auto simp: arr_bit_def dest: bit_imp_le_length)
  show "i div LENGTH('a) < length xs \<Longrightarrow> arr_bit (xs[i div LENGTH('a) := (xs ! (i div LENGTH('a)) :: 'a word) XOR 2 ^ (i mod LENGTH('a))]) c = ((c = i) \<noteq> arr_bit xs c)"
    using same_word [of c "LENGTH('a)" i] by (auto simp: arr_bit_update bit_xor_iff e) (auto simp: arr_bit_def)
qed

text \<open>The error numbers of the C library that the sources return, negated, to their callers.\<close>

definition ENOMEM :: int where "ENOMEM = 12"
definition EINVAL :: int where "EINVAL = 22"
definition ETIMEDOUT :: int where "ETIMEDOUT = 110"

end
