(* ===== verification/Ring_Buffer.thy ===== *)
theory Ring_Buffer
  imports Prelude
begin

text \<open>
  Facts about circular buffers shared by the byte queue (\<open>src/queue.c\<close>) and the log buffer
  (\<open>src/logbuffer.c\<close>): reading \<open>k\<close> elements of an array from position \<open>h\<close> with wrap-around
  (\<open>ring_list\<close>), and what such a reading returns after a store at the tail, after a block
  written in at most two pieces, and after the reading position moves.
\<close>

definition ring_list :: "'a list \<Rightarrow> nat \<Rightarrow> nat \<Rightarrow> 'a list" where
  "ring_list xs h k = map (\<lambda>i. xs ! ((h + i) mod length xs)) [0..<k]"

text \<open>A block write that wraps: the two pieces the C code copies with two \<open>memcpy\<close> calls.\<close>

definition ring_write :: "'a list \<Rightarrow> nat \<Rightarrow> 'a list \<Rightarrow> 'a list" where
  "ring_write xs t ds =
     (let n = length xs; r = n - t in
      if length ds < r then take t xs @ ds @ drop (t + length ds) xs
      else drop r ds @ take (t - (length ds - r)) (drop (length ds - r) xs) @ take r ds)"

lemma length_ring_list [simp]: "length (ring_list xs h k) = k"
  by (simp add: ring_list_def)

lemma ring_list_0 [simp]: "ring_list xs h 0 = []"
  by (simp add: ring_list_def)

lemma nth_ring_list [simp]: "i < k \<Longrightarrow> ring_list xs h k ! i = xs ! ((h + i) mod length xs)"
  by (simp add: ring_list_def)

lemma ring_list_contiguous:
  "h + k \<le> length xs \<Longrightarrow> ring_list xs h k = take k (drop h xs)"
  by (rule nth_equalityI) auto

lemma ring_list_drop:
  "m \<le> k \<Longrightarrow> ring_list xs ((h + m) mod length xs) (k - m) = drop m (ring_list xs h k)"
  by (rule nth_equalityI) (auto simp: mod_add_left_eq add.assoc)

lemma ring_list_hd: "0 < k \<Longrightarrow> h < length xs \<Longrightarrow> hd (ring_list xs h k) = xs ! h"
  by (simp add: ring_list_def hd_map)

lemma mod_inj_window_le:
  assumes "(h + i) mod n = (h + j) mod n" "i \<le> j" "j < (n::nat)"
  shows "i = j"
proof -
  have "n dvd (h + j) - (h + i)"
    using assms mod_eq_dvd_iff_nat [of "h + i" "h + j" n] by simp
  then have "n dvd j - i" by simp
  with assms(3) have "j - i = 0"
    by (meson dvd_imp_le less_imp_diff_less not_le gr0I)
  with assms(2) show ?thesis by simp
qed

lemma mod_inj_window:
  assumes "(h + i) mod n = (h + j) mod n" "i < n" "j < (n::nat)"
  shows "i = j"
  using assms mod_inj_window_le [of h i n j] mod_inj_window_le [of h j n i]
  by (cases "i \<le> j") auto

lemma ring_list_snoc:
  assumes "k < length xs"
  shows "ring_list (xs[(h + k) mod length xs := v]) h (Suc k) = ring_list xs h k @ [v]"
proof (rule nth_equalityI)
  fix i assume "i < length (ring_list (xs[(h + k) mod length xs := v]) h (Suc k))"
  then have i: "i < Suc k" by simp
  have "0 < length xs" using assms by (rule le_less_trans [OF le0])
  then have lt: "(h + j) mod length xs < length xs" for j by simp
  show "ring_list (xs[(h + k) mod length xs := v]) h (Suc k) ! i = (ring_list xs h k @ [v]) ! i"
  proof (cases "i = k")
    case True
    with lt show ?thesis by (simp add: nth_append)
  next
    case False
    with i have "i < k" by simp
    moreover have "(h + k) mod length xs \<noteq> (h + i) mod length xs"
      using mod_inj_window [of h k "length xs" i] assms \<open>i < k\<close> by auto
    ultimately show ?thesis by (simp add: nth_append)
  qed
qed simp

lemma length_ring_write [simp]:
  "t < length xs \<Longrightarrow> length ds \<le> length xs \<Longrightarrow> length (ring_write xs t ds) = length xs"
  by (auto simp: ring_write_def Let_def)

lemma ring_write_short:
  assumes "t < length xs" "length ds < length xs - t" "j < length xs"
  shows "ring_write xs t ds ! j =
    (if t \<le> j \<and> j < t + length ds then ds ! (j - t) else xs ! j)"
  using assms nth_patch [of t ds xs j] by (simp add: ring_write_def Let_def)

lemma ring_write_wrap:
  assumes t: "t < length xs" and d: "length xs - t \<le> length ds" "length ds \<le> length xs"
    and j: "j < length xs"
  shows "ring_write xs t ds ! j =
    (if j < length ds - (length xs - t) then ds ! (length xs - t + j)
     else if t \<le> j then ds ! (j - t) else xs ! j)"
proof -
  let ?r = "length xs - t" and ?m = "length ds - (length xs - t)"
  have w: "ring_write xs t ds = drop ?r ds @ take (t - ?m) (drop ?m xs) @ take ?r ds"
    using d by (simp add: ring_write_def Let_def)
  have len: "length (take (t - ?m) (drop ?m xs)) = t - ?m" using t d by simp
  consider "j < ?m" | "?m \<le> j" "j < t" | "?m \<le> j" "t \<le> j" by linarith
  then show ?thesis
  proof cases
    case 1
    then show ?thesis by (simp add: w nth_append)
  next
    case 2
    then have "\<not> j < length (drop ?r ds)" "j - ?m < t - ?m" "?m + (j - ?m) = j" by auto
    with 2 len t show ?thesis by (simp add: w nth_append)
  next
    case 3
    then have "\<not> j < length (drop ?r ds)" "\<not> j - ?m < t - ?m" "j - ?m - (t - ?m) = j - t"
      "j - t < ?r" using t d j by auto
    with 3 len t show ?thesis by (simp add: w nth_append)
  qed
qed

text \<open>Element \<open>(t + i) mod n\<close> of the result, for each position counted from the write position.\<close>

lemma nth_ring_write:
  assumes t: "t < length xs" and d: "length ds \<le> length xs" and i: "i < length xs"
  shows "ring_write xs t ds ! ((t + i) mod length xs) =
    (if i < length ds then ds ! i else xs ! ((t + i) mod length xs))"
proof (cases "t + i < length xs")
  case True
  then have m: "(t + i) mod length xs = t + i" by simp
  show ?thesis
  proof (cases "length ds < length xs - t")
    case s: True
    show ?thesis using ring_write_short [OF t s True] by (simp add: m)
  next
    case False
    then have le: "length xs - t \<le> length ds" by simp
    then have "i < length ds" "\<not> t + i < length ds - (length xs - t)" using True t d by linarith+
    with ring_write_wrap [OF t le d True] show ?thesis by (simp add: m)
  qed
next
  case False
  let ?j = "t + i - length xs"
  have m: "(t + i) mod length xs = ?j" and j: "?j < length xs" "\<not> t \<le> ?j" "?j < t"
    and e: "length xs - t + ?j = i"
    using False t i by (auto simp: mod_if)
  show ?thesis
  proof (cases "length ds < length xs - t")
    case s: True
    then have "\<not> i < length ds" using False by linarith
    with ring_write_short [OF t s j(1)] j show ?thesis by (simp add: m)
  next
    case wr: False
    then have le: "length xs - t \<le> length ds" by simp
    have "?j < length ds - (length xs - t) \<longleftrightarrow> i < length ds" using False t le by linarith
    with ring_write_wrap [OF t le d j(1)] j e show ?thesis by (simp add: m)
  qed
qed

lemma ring_list_append:
  assumes h: "h < length xs" and k: "k + length ds \<le> length xs"
  shows "ring_list (ring_write xs ((h + k) mod length xs) ds) h (k + length ds)
       = ring_list xs h k @ ds"
proof (rule nth_equalityI)
  let ?n = "length xs" and ?t = "(h + k) mod length xs"
  have n: "0 < ?n" using h by auto
  have t: "?t < ?n" and d: "length ds \<le> ?n" using n k by auto
  note [simp] = length_ring_write [OF t d]
  fix i assume "i < length (ring_list (ring_write xs ?t ds) h (k + length ds))"
  then have i: "i < k + length ds" by simp
  show "ring_list (ring_write xs ?t ds) h (k + length ds) ! i = (ring_list xs h k @ ds) ! i"
  proof (cases "i < k")
    case True
    let ?j = "?n - k + i"
    have "(?t + ?j) mod ?n = (h + k + ?j) mod ?n" by (rule mod_add_left_eq)
    also have "h + k + ?j = h + i + ?n" using k by simp
    finally have "(?t + ?j) mod ?n = (h + i + ?n) mod ?n" .
    then have pos: "(?t + ?j) mod ?n = (h + i) mod ?n" by simp
    have "?j < ?n" "\<not> ?j < length ds" using True k by auto
    then have "ring_write xs ?t ds ! ((h + i) mod ?n) = xs ! ((h + i) mod ?n)"
      using nth_ring_write [OF t d, of ?j] by (simp add: pos)
    with True i show ?thesis by (simp add: nth_append)
  next
    case False
    then have "(h + i) mod ?n = (?t + (i - k)) mod ?n"
      using mod_add_left_eq [of "h + k" ?n "i - k"] by simp
    moreover have "i - k < length ds" "i - k < ?n" using False i k by auto
    ultimately show ?thesis
      using nth_ring_write [OF t d, of "i - k"] False i by (simp add: nth_append)
  qed
qed simp

text \<open>The code writes a block with one \<open>memcpy\<close>, or with two when it wraps: both are the ring
  write, and both stay in bounds.\<close>

lemma two_copies:
  assumes t: "t < length b" and n: "n \<le> length b" and d: "off + n \<le> length ds"
  shows "(if n < length b - t
          then mem_read ds off n \<bind> mem_write b t
          else do { d1 \<leftarrow> mem_read ds off (length b - t);
                    b1 \<leftarrow> mem_write b t d1;
                    d2 \<leftarrow> mem_read ds (off + (length b - t)) (n - (length b - t));
                    mem_write b1 0 d2 })
       = Some (ring_write b t (take n (drop off ds)))"
proof (cases "n < length b - t")
  case True
  then show ?thesis using d by (simp add: mem_simps ring_write_def Let_def min_absorb2)
next
  case False
  let ?r = "length b - t" and ?ds = "drop off ds"
  from False have r: "?r \<le> n" by simp
  have b1: "mem_write b t (take ?r ?ds) = Some (take t b @ take ?r ?ds)"
    using t r d by (simp add: mem_simps)
  have d2: "take (n - ?r) (drop (off + ?r) ds) = drop ?r (take n ?ds)"
    by (simp add: drop_take add.commute)
  have "mem_write (take t b @ take ?r ?ds) 0 (drop ?r (take n ?ds))
      = Some (drop ?r (take n ?ds) @ take (t - (n - ?r)) (drop (n - ?r) b) @ take ?r ?ds)"
    using t r n d by (simp add: mem_simps drop_take)
  moreover have ln: "length (take n ?ds) = n" using d by simp
  ultimately show ?thesis
    using False b1 d2 r d unfolding ring_write_def Let_def ln
    by (simp add: mem_read_Some min_absorb1)
qed

end
