(* ===== verification/Interfaces.thy ===== *)
theory Interfaces
  imports Prelude
begin

text \<open>
  The contracts that components of the library promise to their callers, as locales. Each is
  interpreted, in the theory of the component that provides it, on the definitions translated
  from the C sources.

  \<^item> \<open>bounded_fifo\<close>: a first-in first-out buffer with a fixed capacity whose \<open>put\<close> refuses when
    full and whose \<open>get\<close> refuses when empty. The laws speak about a list abstraction; the lemmas
    lift them to whole sequences of calls.
  \<^item> \<open>message_digest\<close>: a digest computed from a running state. \<open>absorbed s xs\<close> says that the state
    \<open>s\<close> has taken in the message prefix \<open>xs\<close>; \<open>fits\<close> bounds the messages and \<open>piece\<close> the single
    pieces that the implementation can count. The lemma says that the way a message is cut into
    pieces does not matter.
  \<^item> \<open>round_cipher\<close>: one round and its inverse; running the inverse rounds with the keys in
    reverse order undoes the rounds.
  \<^item> \<open>mem_codec\<close>: a word of a fixed width stored in a byte array at an offset; the lemmas are the
    read-over-write laws, also for two fields with different codecs.
  \<^item> \<open>linked_seq\<close>: an intrusive linked list as the list of its nodes; nodes are pushed in front and unlinked
    anywhere. The lemmas are about pushing and unlinking many nodes.
  \<^item> \<open>object_pool\<close>: a store of equal objects that are taken and given back. \<open>inv s live\<close> says that the
    objects \<open>live\<close> are taken; \<open>room\<close> bounds how many more calls can succeed. The lemmas are about sequences of calls.
  \<^item> \<open>bitset\<close>: a bitmap with operations on single bits as a set of bit numbers; the lemmas say what
    a whole sequence of updates leaves.
\<close>

text \<open>Calling \<open>put\<close> on every element of a list and \<open>get\<close> a given number of times.\<close>

fun put_all :: "('q \<Rightarrow> 'a \<Rightarrow> (bool \<times> 'q) option) \<Rightarrow> 'q \<Rightarrow> 'a list \<Rightarrow> 'q option" where
  "put_all put q [] = Some q"
| "put_all put q (x # xs) = (case put q x of Some (True, q') \<Rightarrow> put_all put q' xs | _ \<Rightarrow> None)"

fun get_n :: "('q \<Rightarrow> ('a option \<times> 'q) option) \<Rightarrow> 'q \<Rightarrow> nat \<Rightarrow> ('a list \<times> 'q) option" where
  "get_n get q 0 = Some ([], q)"
| "get_n get q (Suc n) =
     (case get q of
        Some (Some x, q') \<Rightarrow> map_option (\<lambda>(xs, r). (x # xs, r)) (get_n get q' n)
      | _ \<Rightarrow> None)"

text \<open>Feeding a list of message pieces to a digest.\<close>

fun feed_all :: "('s \<Rightarrow> 'a list \<Rightarrow> 's option) \<Rightarrow> 's \<Rightarrow> 'a list list \<Rightarrow> 's option" where
  "feed_all upd s [] = Some s"
| "feed_all upd s (c # cs) = (case upd s c of None \<Rightarrow> None | Some s' \<Rightarrow> feed_all upd s' cs)"

locale bounded_fifo =
  fixes invar :: "'q \<Rightarrow> bool"
    and contents :: "'q \<Rightarrow> 'a list"
    and capacity :: "'q \<Rightarrow> nat"
    and put :: "'q \<Rightarrow> 'a \<Rightarrow> (bool \<times> 'q) option"
    and get :: "'q \<Rightarrow> ('a option \<times> 'q) option"
  assumes within_capacity: "invar q \<Longrightarrow> length (contents q) \<le> capacity q"
    and put_room: "invar q \<Longrightarrow> length (contents q) < capacity q \<Longrightarrow>
      \<exists>q'. put q x = Some (True, q') \<and> invar q' \<and> contents q' = contents q @ [x]
           \<and> capacity q' = capacity q"
    and put_full: "invar q \<Longrightarrow> length (contents q) = capacity q \<Longrightarrow> put q x = Some (False, q)"
    and get_some: "invar q \<Longrightarrow> contents q = x # xs \<Longrightarrow>
      \<exists>q'. get q = Some (Some x, q') \<and> invar q' \<and> contents q' = xs \<and> capacity q' = capacity q"
    and get_none: "invar q \<Longrightarrow> contents q = [] \<Longrightarrow> get q = Some (None, q)"
begin

lemma put_all_contents:
  "invar q \<Longrightarrow> length (contents q) + length xs \<le> capacity q \<Longrightarrow>
   \<exists>q'. put_all put q xs = Some q' \<and> invar q' \<and> contents q' = contents q @ xs
        \<and> capacity q' = capacity q"
proof (induction xs arbitrary: q)
  case Nil
  then show ?case by simp
next
  case (Cons x xs)
  from Cons.prems obtain q1 where q1: "put q x = Some (True, q1)" "invar q1"
      "contents q1 = contents q @ [x]" "capacity q1 = capacity q"
    using put_room [of q x] by auto
  with Cons.prems have "length (contents q1) + length xs \<le> capacity q1" by simp
  from Cons.IH [OF q1(2) this] q1 show ?case by auto
qed

lemma get_n_contents:
  "invar q \<Longrightarrow> n \<le> length (contents q) \<Longrightarrow>
   \<exists>q'. get_n get q n = Some (take n (contents q), q') \<and> invar q'
        \<and> contents q' = drop n (contents q) \<and> capacity q' = capacity q"
proof (induction n arbitrary: q)
  case 0
  then show ?case by simp
next
  case (Suc n)
  then obtain x xs where c: "contents q = x # xs" by (cases "contents q") auto
  from get_some [OF Suc.prems(1) c] obtain q1 where q1: "get q = Some (Some x, q1)" "invar q1"
      "contents q1 = xs" "capacity q1 = capacity q" by auto
  with Suc.prems c have "n \<le> length (contents q1)" by simp
  from Suc.IH [OF q1(2) this] q1 c show ?case by auto
qed

text \<open>First in, first out: what is put into an empty buffer comes out in the same order.\<close>

lemma fifo_order:
  assumes "invar q" "contents q = []" "length xs \<le> capacity q"
  shows "\<exists>q1 q2. put_all put q xs = Some q1 \<and> get_n get q1 (length xs) = Some (xs, q2)
          \<and> invar q2 \<and> contents q2 = [] \<and> capacity q2 = capacity q"
proof -
  from assms obtain q1 where q1: "put_all put q xs = Some q1" "invar q1" "contents q1 = xs"
      "capacity q1 = capacity q"
    using put_all_contents [of q xs] by auto
  then show ?thesis using get_n_contents [of q1 "length xs"] by auto
qed

end

locale message_digest =
  fixes absorbed :: "'s \<Rightarrow> 'a list \<Rightarrow> bool"
    and fits :: "'a list \<Rightarrow> bool"
    and piece :: "'a list \<Rightarrow> bool"
    and upd :: "'s \<Rightarrow> 'a list \<Rightarrow> 's option"
    and final :: "'s \<Rightarrow> 'd"
    and digest :: "'a list \<Rightarrow> 'd"
  assumes fits_prefix: "fits (xs @ ys) \<Longrightarrow> fits xs"
    and upd_absorbs: "absorbed s xs \<Longrightarrow> fits (xs @ ys) \<Longrightarrow> piece ys \<Longrightarrow>
      \<exists>s'. upd s ys = Some s' \<and> absorbed s' (xs @ ys)"
    and final_digest: "absorbed s xs \<Longrightarrow> fits xs \<Longrightarrow> final s = digest xs"
begin

lemma absorb_chunks:
  "absorbed s xs \<Longrightarrow> fits (xs @ concat cs) \<Longrightarrow> list_all piece cs \<Longrightarrow>
   \<exists>s'. feed_all upd s cs = Some s' \<and> absorbed s' (xs @ concat cs)"
proof (induction cs arbitrary: s xs)
  case Nil
  then show ?case by simp
next
  case (Cons c cs)
  from Cons.prems(2) have "fits (xs @ c)"
    using fits_prefix [of "xs @ c" "concat cs"] by simp
  from upd_absorbs [OF Cons.prems(1) this] Cons.prems(3) obtain s1 where
    s1: "upd s c = Some s1" "absorbed s1 (xs @ c)" by auto
  from Cons.IH [OF s1(2)] Cons.prems(2,3) s1(1) show ?case by simp
qed

lemma chunking_irrelevant:
  assumes "absorbed s []" "fits (concat cs)" "list_all piece cs"
  shows "\<exists>s'. feed_all upd s cs = Some s' \<and> final s' = digest (concat cs)"
  using absorb_chunks [OF assms(1), of cs] assms(2,3) final_digest by fastforce

end

locale round_cipher =
  fixes rnd :: "'b \<Rightarrow> 'k \<Rightarrow> 'b"
    and unrnd :: "'b \<Rightarrow> 'k \<Rightarrow> 'b"
  assumes unrnd_rnd: "unrnd (rnd b k) k = b"
    and rnd_unrnd: "rnd (unrnd b k) k = b"
begin

lemma unrounds_rounds: "foldl unrnd (foldl rnd b ks) (rev ks) = b"
  by (induction ks arbitrary: b) (simp_all add: unrnd_rnd)

lemma rounds_unrounds: "foldl rnd (foldl unrnd b (rev ks)) ks = b"
  by (induction ks arbitrary: b rule: rev_induct) (simp_all add: rnd_unrnd)

lemma rounds_inj: "foldl rnd a ks = foldl rnd b ks \<Longrightarrow> a = b"
  by (metis unrounds_rounds)

end

locale mem_codec =
  fixes width :: nat
    and enc :: "'w \<Rightarrow> bytes"
    and dec :: "bytes \<Rightarrow> 'w"
    and val :: "'w \<Rightarrow> 'w"
    and get :: "bytes \<Rightarrow> nat \<Rightarrow> 'w option"
    and set :: "bytes \<Rightarrow> nat \<Rightarrow> 'w \<Rightarrow> bytes option"
  assumes length_enc: "length (enc v) = width"
    and dec_enc: "dec (enc v) = val v"
    and enc_dec: "length bs = width \<Longrightarrow> enc (dec bs) = bs"
    and get_dec: "get p off = map_option dec (mem_read p off width)"
    and set_enc: "set p off v = mem_write p off (enc v)"
begin

lemma set_in_range: "off + width \<le> length p \<Longrightarrow> \<exists>q. set p off v = Some q \<and> length q = length p"
  by (auto simp: set_enc mem_simps length_enc)

lemma set_out_of_range: "length p < off + width \<Longrightarrow> set p off v = None \<and> get p off = None"
  by (auto simp: set_enc get_dec mem_write_def mem_read_def length_enc)

lemma get_set: "set p off v = Some q \<Longrightarrow> get q off = Some (val v)"
  by (auto simp: set_enc get_dec mem_write_def mem_read_def length_enc dec_enc min_def split: if_splits)

lemma set_then_get:
  "off + width \<le> length p \<Longrightarrow>
   \<exists>q. set p off v = Some q \<and> length q = length p \<and> get q off = Some (val v)"
  using set_in_range [of off p v] get_set by blast

text \<open>A write leaves every range disjoint from it unchanged.\<close>

lemma read_set_other:
  assumes "set p off v = Some q" "off' + n \<le> off \<or> off + width \<le> off'"
  shows "mem_read q off' n = mem_read p off' n"
proof -
  from assms(1) have q: "q = take off p @ enc v @ drop (off + width) p" "off + width \<le> length p"
    by (auto simp: set_enc mem_write_def length_enc split: if_splits)
  then have "length q = length p" by (simp add: length_enc)
  moreover have "take n (drop off' q) = take n (drop off' p)" if "off' + n \<le> length p"
  proof (rule nth_equalityI)
    fix i assume "i < length (take n (drop off' q))"
    then have "i < n" by simp
    then show "take n (drop off' q) ! i = take n (drop off' p) ! i"
      using that assms(2) q nth_patch [of off "enc v" p "off' + i"] \<open>length q = length p\<close>
      by (auto simp: length_enc)
  qed (simp add: \<open>length q = length p\<close>)
  ultimately show ?thesis by (simp add: mem_read_def)
qed

lemma set_get:
  assumes "get p off = Some v" shows "set p off v = Some p"
proof -
  from assms have r: "off + width \<le> length p" and v: "v = dec (take width (drop off p))"
    by (auto simp: get_dec mem_read_def split: if_splits)
  then have "enc v = take width (drop off p)" by (simp add: enc_dec)
  then show ?thesis
    using r by (simp add: set_enc mem_simps) (metis append_take_drop_id drop_drop add.commute)
qed

end

locale two_codecs = c1: mem_codec width1 enc1 dec1 val1 get1 set1 + c2: mem_codec width2 enc2 dec2 val2 get2 set2
  for width1 enc1 dec1 val1 get1 set1 width2 enc2 dec2 val2 get2 set2
begin

text \<open>Two fields that do not overlap keep their values independently.\<close>

lemma fields_independent:
  assumes "off1 + width1 \<le> off2 \<or> off2 + width2 \<le> off1"
    and "set1 p off1 v = Some q" "set2 q off2 w = Some r"
  shows "get1 r off1 = Some (val1 v) \<and> get2 r off2 = Some (val2 w)"
  using assms c1.get_set [OF assms(2)] c2.get_set [OF assms(3)] c2.read_set_other [OF assms(3), of off1 width1]
  by (auto simp: c1.get_dec)

end

text \<open>Updates of single bits, and what a sequence of them means for a set.\<close>

datatype bit_update = Set_Bit nat | Clear_Bit nat

fun bit_number :: "bit_update \<Rightarrow> nat" where
  "bit_number (Set_Bit i) = i"
| "bit_number (Clear_Bit i) = i"

fun update_set :: "nat set \<Rightarrow> bit_update \<Rightarrow> nat set" where
  "update_set S (Set_Bit i) = insert i S"
| "update_set S (Clear_Bit i) = S - {i}"

fun run_updates :: "(nat \<Rightarrow> 'm \<Rightarrow> 'm option) \<Rightarrow> (nat \<Rightarrow> 'm \<Rightarrow> 'm option) \<Rightarrow> 'm \<Rightarrow> bit_update list \<Rightarrow> 'm option" where
  "run_updates ins del m [] = Some m"
| "run_updates ins del m (u # us) =
     (case (case u of Set_Bit i \<Rightarrow> ins i m | Clear_Bit i \<Rightarrow> del i m) of
        None \<Rightarrow> None | Some m' \<Rightarrow> run_updates ins del m' us)"

locale bitset =
  fixes cap :: "'m \<Rightarrow> nat"
    and elems :: "'m \<Rightarrow> nat set"
    and get :: "nat \<Rightarrow> 'm \<Rightarrow> bool option"
    and ins :: "nat \<Rightarrow> 'm \<Rightarrow> 'm option"
    and del :: "nat \<Rightarrow> 'm \<Rightarrow> 'm option"
  assumes elems_cap: "elems m \<subseteq> {..<cap m}"
    and get_elems: "i < cap m \<Longrightarrow> get i m = Some (i \<in> elems m)"
    and ins_elems: "i < cap m \<Longrightarrow> \<exists>m'. ins i m = Some m' \<and> elems m' = insert i (elems m) \<and> cap m' = cap m"
    and del_elems: "i < cap m \<Longrightarrow> \<exists>m'. del i m = Some m' \<and> elems m' = elems m - {i} \<and> cap m' = cap m"
begin

lemma run_updates_elems:
  "list_all (\<lambda>u. bit_number u < cap m) us \<Longrightarrow>
   \<exists>m'. run_updates ins del m us = Some m' \<and> elems m' = foldl update_set (elems m) us \<and> cap m' = cap m"
proof (induction us arbitrary: m)
  case (Cons u us)
  from Cons.prems obtain m1 where m1: "(case u of Set_Bit i \<Rightarrow> ins i m | Clear_Bit i \<Rightarrow> del i m) = Some m1"
    "elems m1 = update_set (elems m) u" "cap m1 = cap m"
    using ins_elems [of "bit_number u" m] del_elems [of "bit_number u" m] by (cases u) auto
  with Cons.prems Cons.IH [of m1] show ?case by auto
qed simp

text \<open>The last update of a bit decides what a later \<open>get\<close> returns.\<close>

lemma update_set_other: "list_all (\<lambda>u. bit_number u \<noteq> i) us \<Longrightarrow> i \<in> foldl update_set S us \<longleftrightarrow> i \<in> S"
proof (induction us arbitrary: S)
  case (Cons u us)
  then show ?case by (cases u) auto
qed simp

lemma last_update_wins:
  assumes "list_all (\<lambda>u. bit_number u < cap m) (us @ u # vs)" "list_all (\<lambda>v. bit_number v \<noteq> bit_number u) vs"
  shows "\<exists>m'. run_updates ins del m (us @ u # vs) = Some m' \<and> get (bit_number u) m' = Some (u = Set_Bit (bit_number u))"
proof -
  from run_updates_elems [OF assms(1)] obtain m' where m': "run_updates ins del m (us @ u # vs) = Some m'"
    "elems m' = foldl update_set (elems m) (us @ u # vs)" "cap m' = cap m" by blast
  moreover have "bit_number u \<in> elems m' \<longleftrightarrow> u = Set_Bit (bit_number u)"
    using update_set_other [OF assms(2)] m'(2) by (cases u) auto
  ultimately show ?thesis using get_elems [of "bit_number u" m'] assms(1) by simp
qed

end


text \<open>Intrusive linked lists: running one operation over a list of nodes.\<close>

fun each_node :: "('a \<Rightarrow> 'h \<Rightarrow> 'h option) \<Rightarrow> 'a list \<Rightarrow> 'h \<Rightarrow> 'h option" where
  "each_node f [] h = Some h"
| "each_node f (e # es) h = (case f e h of None \<Rightarrow> None | Some h' \<Rightarrow> each_node f es h')"

locale linked_seq =
  fixes holds :: "'h \<Rightarrow> 'a list \<Rightarrow> bool"
    and avail :: "'h \<Rightarrow> 'a \<Rightarrow> bool"
    and push :: "'a \<Rightarrow> 'h \<Rightarrow> 'h option"
    and unlink :: "'a \<Rightarrow> 'h \<Rightarrow> 'h option"
  assumes holds_distinct: "holds h xs \<Longrightarrow> distinct xs"
    and push_holds: "holds h xs \<Longrightarrow> avail h e \<Longrightarrow> e \<notin> set xs \<Longrightarrow>
      \<exists>h'. push e h = Some h' \<and> holds h' (e # xs) \<and> (\<forall>p. avail h' p = avail h p)"
    and unlink_holds: "holds h (ys @ e # zs) \<Longrightarrow>
      \<exists>h'. unlink e h = Some h' \<and> holds h' (ys @ zs) \<and> (\<forall>p. avail h' p = avail h p)"
begin

lemma push_many:
  "holds h xs \<Longrightarrow> list_all (avail h) es \<Longrightarrow> distinct es \<Longrightarrow> set es \<inter> set xs = {} \<Longrightarrow>
   \<exists>h'. each_node push es h = Some h' \<and> holds h' (rev es @ xs) \<and> (\<forall>p. avail h' p = avail h p)"
proof (induction es arbitrary: h xs)
  case (Cons e es)
  from Cons.prems push_holds [of h xs e] obtain h1 where h1: "push e h = Some h1" "holds h1 (e # xs)"
    "\<forall>p. avail h1 p = avail h p" by auto
  with Cons.prems have "list_all (avail h1) es" by (simp add: list_all_iff)
  from Cons.IH [OF h1(2) this] Cons.prems h1 show ?case by auto
qed simp

lemma unlink_many:
  "holds h xs \<Longrightarrow> distinct es \<Longrightarrow> set es \<subseteq> set xs \<Longrightarrow>
   \<exists>h'. each_node unlink es h = Some h' \<and> holds h' (filter (\<lambda>x. x \<notin> set es) xs)"
proof (induction es arbitrary: h xs)
  case (Cons e es)
  then obtain ys zs where xs: "xs = ys @ e # zs" by (auto dest: split_list)
  have d: "distinct xs" using holds_distinct Cons.prems(1) by blast
  from unlink_holds [of h ys e zs] Cons.prems(1) xs obtain h1 where h1: "unlink e h = Some h1" "holds h1 (ys @ zs)" by auto
  have "set es \<subseteq> set (ys @ zs)" using Cons.prems(2,3) xs by auto
  from Cons.IH [OF h1(2) _ this] Cons.prems(2) obtain h2 where h2: "each_node unlink es h1 = Some h2"
    "holds h2 (filter (\<lambda>x. x \<notin> set es) (ys @ zs))" by auto
  have "filter (\<lambda>x. x \<notin> set es) (ys @ zs) = filter (\<lambda>x. x \<notin> set (e # es)) xs"
    using d xs by (auto intro!: arg_cong2 [of _ _ _ _ "(@)"] filter_cong)
  then show ?case using h1 h2 by simp
qed simp

text \<open>Nodes that are pushed and unlinked again, in any order, leave the list as it was.\<close>

lemma push_unlink_many:
  assumes "holds h xs" "list_all (avail h) es" "distinct es" "set es \<inter> set xs = {}" "distinct fs" "set fs = set es"
  shows "\<exists>h1 h2. each_node push es h = Some h1 \<and> each_node unlink fs h1 = Some h2 \<and> holds h2 xs"
proof -
  from push_many [OF assms(1-4)] obtain h1 where h1: "each_node push es h = Some h1" "holds h1 (rev es @ xs)" by blast
  have "filter (\<lambda>x. x \<notin> set fs) (rev es @ xs) = xs"
    using assms(4,6) by (auto simp: filter_id_conv filter_empty_conv)
  then show ?thesis using unlink_many [OF h1(2) assms(5)] assms(6) h1(1) by auto
qed

end


text \<open>
  A program that takes objects from a pool, writes to those it holds and gives them back. Objects are named by the order in which they are
  taken among those still held.
\<close>

datatype 'v pool_call = Take | Give nat | Put nat 'v

fun run_pool :: "('s \<Rightarrow> ('a \<times> 's) option) \<Rightarrow> ('a \<Rightarrow> 's \<Rightarrow> 's option) \<Rightarrow> ('a \<Rightarrow> 'v \<Rightarrow> 's \<Rightarrow> 's) \<Rightarrow>
    'v pool_call list \<Rightarrow> 'a list \<Rightarrow> 's \<Rightarrow> ('a list \<times> 's) option" where
  "run_pool tk gv wr [] live s = Some (live, s)"
| "run_pool tk gv wr (Take # cs) live s =
     (case tk s of None \<Rightarrow> None | Some (p, s') \<Rightarrow> run_pool tk gv wr cs (p # live) s')"
| "run_pool tk gv wr (Give i # cs) live s =
     (if i < length live
      then (case gv (live ! i) s of None \<Rightarrow> None | Some s' \<Rightarrow> run_pool tk gv wr cs (remove1 (live ! i) live) s')
      else run_pool tk gv wr cs live s)"
| "run_pool tk gv wr (Put i v # cs) live s =
     run_pool tk gv wr cs live (if i < length live then wr (live ! i) v s else s)"

locale object_pool =
  fixes inv :: "'s \<Rightarrow> 'a list \<Rightarrow> bool"
    and room :: "'s \<Rightarrow> nat"
    and tk :: "'s \<Rightarrow> ('a \<times> 's) option"
    and gv :: "'a \<Rightarrow> 's \<Rightarrow> 's option"
    and wr :: "'a \<Rightarrow> 'v \<Rightarrow> 's \<Rightarrow> 's"
  assumes inv_distinct: "inv s live \<Longrightarrow> distinct live"
    and take_new: "inv s live \<Longrightarrow> 0 < room s \<Longrightarrow>
      \<exists>p s'. tk s = Some (p, s') \<and> p \<notin> set live \<and> inv s' (p # live) \<and> room s \<le> Suc (room s')"
    and give_back: "inv s live \<Longrightarrow> p \<in> set live \<Longrightarrow>
      \<exists>s'. gv p s = Some s' \<and> inv s' (remove1 p live) \<and> room s' = room s \<and> (\<exists>s2. tk s' = Some (p, s2))"
    and write_live: "inv s live \<Longrightarrow> p \<in> set live \<Longrightarrow> inv (wr p v s) live \<and> room (wr p v s) = room s"
begin

lemma run_pool_inv:
  "inv s live \<Longrightarrow> length cs \<le> room s \<Longrightarrow>
   \<exists>live' s'. run_pool tk gv wr cs live s = Some (live', s') \<and> inv s' live' \<and> distinct live'"
proof (induction cs arbitrary: s live)
  case Nil
  then show ?case using inv_distinct by auto
next
  case (Cons c cs)
  show ?case
  proof (cases c)
    case Take
    from take_new [OF Cons.prems(1)] Cons.prems(2) obtain p s' where p: "tk s = Some (p, s')" "inv s' (p # live)"
      "room s \<le> Suc (room s')" by auto
    with Cons.IH [OF p(2)] Cons.prems(2) Take show ?thesis by auto
  next
    case (Give i)
    show ?thesis
    proof (cases "i < length live")
      case True
      from give_back [OF Cons.prems(1) nth_mem [OF True]] obtain s' where s': "gv (live ! i) s = Some s'"
        "inv s' (remove1 (live ! i) live)" "room s' = room s" by blast
      with Cons.IH [OF s'(2)] Cons.prems(2) Give True show ?thesis by auto
    next
      case False
      with Cons Give show ?thesis by auto
    qed
  next
    case (Put i v)
    show ?thesis
    proof (cases "i < length live")
      case True
      from write_live [OF Cons.prems(1) nth_mem [OF True], of v] Cons Put True show ?thesis by auto
    next
      case False
      with Cons Put show ?thesis by auto
    qed
  qed
qed

end

end
