(* ===== verification/Ring_Queue.thy ===== *)
theory Ring_Queue
  imports Ring_Buffer Interfaces
begin

text \<open>
  The byte queue of \<open>src/queue.c\<close> and \<open>src/queue.h\<close>, with the critical sections of
  \<open>src/libcpu/arm/os_cpu.h\<close>. The counters keep their C width (\<open>uint16_t\<close>), so the sum
  \<open>head + num_items\<close> wraps at 65536; \<open>queue_wf\<close> bounds the size so that it does not, and
  \<open>queue_append_tail_wraps\<close> shows what happens without that bound. Every operation works on a
  pair of the processor's interrupt mask and the queue.

  The state is abstracted to the list of queued bytes (\<open>queue_contents\<close>): the operations are
  shown to implement a bounded first-in first-out buffer and to restore the interrupt mask on
  every path.
\<close>

subsection \<open>State\<close>

record queue_t =
  q_num_items :: u16
  q_head :: u16
  q_size :: u16
  q_buff :: bytes

type_synonym queue_env = "u32 \<times> queue_t"

definition QUEUE_INIT :: "bytes \<Rightarrow> u16 \<Rightarrow> queue_t" where
  "QUEUE_INIT b sz = \<lparr>q_num_items = 0, q_head = 0, q_size = sz, q_buff = b\<rparr>"

text \<open>\<open>cpu_sr = OS_CPU_SR_Save()\<close> reads PRIMASK and disables interrupts;
  \<open>OS_CPU_SR_Restore(cpu_sr)\<close> writes it back.\<close>

definition OS_ENTER_CRITICAL :: "u32 \<Rightarrow> u32 \<times> u32" where
  "OS_ENTER_CRITICAL primask = (primask, 1)"

definition OS_EXIT_CRITICAL :: "u32 \<Rightarrow> u32 \<Rightarrow> u32" where
  "OS_EXIT_CRITICAL cpu_sr primask = cpu_sr"

subsection \<open>Operations\<close>

definition queue_clear :: "queue_env \<Rightarrow> bool \<times> queue_env" where
  "queue_clear e =
     (let (primask, q) = e; (cpu_sr, pm) = OS_ENTER_CRITICAL primask;
          q1 = q\<lparr>q_num_items := 0\<rparr>; q2 = q1\<lparr>q_head := 0\<rparr>
      in (True, (OS_EXIT_CRITICAL cpu_sr pm, q2)))"

definition queue_append :: "queue_env \<Rightarrow> u8 \<Rightarrow> (bool \<times> queue_env) option" where
  "queue_append e item =
     (let (primask, q) = e; (cpu_sr, pm) = OS_ENTER_CRITICAL primask;
          tail = q_head q + q_num_items q;
          tail = (if tail \<ge> q_size q then tail - q_size q else tail)
      in if q_num_items q < q_size q then
           let q1 = q\<lparr>q_num_items := q_num_items q + 1\<rparr> in
           do { b \<leftarrow> mem_store (q_buff q1) (unat tail) item;
                Some (True, (OS_EXIT_CRITICAL cpu_sr pm, q1\<lparr>q_buff := b\<rparr>)) }
         else Some (False, (OS_EXIT_CRITICAL cpu_sr pm, q)))"

text \<open>The result is \<open>Some x\<close> for a call that stores \<open>x\<close> into \<open>*item\<close> and returns true, \<open>None\<close> for a
  call that leaves \<open>*item\<close> alone and returns false.\<close>

definition queue_get :: "queue_env \<Rightarrow> (u8 option \<times> queue_env) option" where
  "queue_get e =
     (let (primask, q) = e; (cpu_sr, pm) = OS_ENTER_CRITICAL primask
      in if q_num_items q = 0 then Some (None, (OS_EXIT_CRITICAL cpu_sr pm, q))
         else do {
           item \<leftarrow> mem_load (q_buff q) (unat (q_head q));
           let q1 = q\<lparr>q_head := q_head q + 1\<rparr>;
           let q2 = (if q_head q1 \<ge> q_size q1 then q1\<lparr>q_head := 0\<rparr> else q1);
           let q3 = q2\<lparr>q_num_items := q_num_items q2 - 1\<rparr>;
           Some (Some item, (OS_EXIT_CRITICAL cpu_sr pm, q3)) })"

definition queue_num_items :: "queue_t \<Rightarrow> u16" where
  "queue_num_items q = q_num_items q"

definition queue_num_available :: "queue_t \<Rightarrow> u16" where
  "queue_num_available q = q_size q - q_num_items q"

text \<open>The guard compares an \<open>uint16_t\<close> with an \<open>int\<close> difference, hence the integers.\<close>

definition queue_enqueue :: "queue_env \<Rightarrow> bytes \<Rightarrow> u16 \<Rightarrow> (u16 \<times> queue_env) option" where
  "queue_enqueue e data sz =
     (let (primask, q) = e; (cpu_sr, pm) = OS_ENTER_CRITICAL primask
      in if uint sz \<le> uint (q_size q) - uint (q_num_items q) then
           let tail = q_head q + q_num_items q;
               tail = (if tail \<ge> q_size q then tail - q_size q else tail);
               temp = q_size q - tail
           in do {
             b \<leftarrow> (if sz < temp then do {
                      d \<leftarrow> mem_read data 0 (unat sz);
                      mem_write (q_buff q) (unat tail) d }
                  else do {
                      d1 \<leftarrow> mem_read data 0 (unat temp);
                      b1 \<leftarrow> mem_write (q_buff q) (unat tail) d1;
                      d2 \<leftarrow> mem_read data (unat temp) (unat sz - unat temp);
                      mem_write b1 0 d2 });
             Some (sz, (OS_EXIT_CRITICAL cpu_sr pm,
                          q\<lparr>q_buff := b, q_num_items := q_num_items q + sz\<rparr>)) }
         else Some (0, (OS_EXIT_CRITICAL cpu_sr pm, q)))"

definition queue_peek_consequent ::
    "queue_env \<Rightarrow> bytes \<Rightarrow> u16 \<Rightarrow> (u16 \<times> bytes \<times> queue_env) option" where
  "queue_peek_consequent e data sz =
     (let (primask, q) = e; (cpu_sr, pm) = OS_ENTER_CRITICAL primask;
          sz = (if sz > q_num_items q then q_num_items q else sz);
          tail = q_head q + q_num_items q;
          sz = (if tail > q_size q then
                    let temp = q_size q - q_head q in (if sz > temp then temp else sz)
                  else sz)
      in do {
           d \<leftarrow> mem_read (q_buff q) (unat (q_head q)) (unat sz);
           data' \<leftarrow> mem_write data 0 d;
           Some (sz, data', (OS_EXIT_CRITICAL cpu_sr pm, q)) })"

text \<open>The pointer stored into \<open>*data\<close> is \<open>&buff[head]\<close>; the model returns its index.\<close>

definition queue_peek_noncopy :: "queue_env \<Rightarrow> u16 \<times> nat \<times> queue_env" where
  "queue_peek_noncopy e =
     (let (primask, q) = e; (cpu_sr, pm) = OS_ENTER_CRITICAL primask;
          tail = q_head q + q_num_items q;
          sz = (if tail > q_size q then q_size q - q_head q else q_num_items q)
      in (sz, unat (q_head q), (OS_EXIT_CRITICAL cpu_sr pm, q)))"

definition queue_release :: "queue_env \<Rightarrow> u16 \<Rightarrow> u16 \<times> queue_env" where
  "queue_release e sz =
     (let (primask, q) = e; (cpu_sr, pm) = OS_ENTER_CRITICAL primask;
          sz = (if sz > q_num_items q then q_num_items q else sz);
          q1 = q\<lparr>q_head := q_head q + sz\<rparr>;
          q2 = (if q_head q1 \<ge> q_size q1 then q1\<lparr>q_head := q_head q1 - q_size q1\<rparr> else q1);
          q3 = q2\<lparr>q_num_items := q_num_items q2 - sz\<rparr>
      in (sz, (OS_EXIT_CRITICAL cpu_sr pm, q3)))"

subsection \<open>Invariant and abstraction\<close>

definition queue_wf :: "queue_t \<Rightarrow> bool" where
  "queue_wf q \<longleftrightarrow> length (q_buff q) = unat (q_size q) \<and> q_head q < q_size q
     \<and> q_num_items q \<le> q_size q \<and> unat (q_size q) \<le> 2 ^ 15"

definition queue_contents :: "queue_t \<Rightarrow> bytes" where
  "queue_contents q = ring_list (q_buff q) (unat (q_head q)) (unat (q_num_items q))"

lemmas queue_op_defs = queue_clear_def queue_append_def queue_get_def queue_enqueue_def
  queue_peek_consequent_def queue_peek_noncopy_def queue_release_def
  OS_ENTER_CRITICAL_def OS_EXIT_CRITICAL_def

lemma length_queue_contents [simp]: "length (queue_contents q) = unat (q_num_items q)"
  by (simp add: queue_contents_def)

lemma queue_wfD:
  assumes "queue_wf q"
  shows "length (q_buff q) = unat (q_size q)" "unat (q_head q) < unat (q_size q)"
    "unat (q_num_items q) \<le> unat (q_size q)" "unat (q_size q) \<le> 32768"
  using assms by (auto simp: queue_wf_def word_nat)

text \<open>The tail index computed by the three operations that use it.\<close>

lemma queue_tail:
  assumes "queue_wf q"
  shows "unat (let t = q_head q + q_num_items q in if t \<ge> q_size q then t - q_size q else t)
       = (unat (q_head q) + unat (q_num_items q)) mod length (q_buff q)"
proof -
  note w = queue_wfD [OF assms]
  have s: "unat (q_head q + q_num_items q) = unat (q_head q) + unat (q_num_items q)"
    using w by (simp add: unat_add_small)
  show ?thesis
  proof (cases "q_size q \<le> q_head q + q_num_items q")
    case True
    then have le: "unat (q_size q) \<le> unat (q_head q + q_num_items q)" by (simp add: word_nat)
    with w s True show ?thesis by (simp add: unat_sub_small mod_if)
  next
    case False
    then have "unat (q_head q) + unat (q_num_items q) < unat (q_size q)" using s by (simp add: word_nat)
    with w s False show ?thesis by simp
  qed
qed

lemma queue_wf_init:
  "0 < sz \<Longrightarrow> unat sz \<le> 2 ^ 15 \<Longrightarrow> length b = unat sz \<Longrightarrow>
   queue_wf (QUEUE_INIT b sz) \<and> queue_contents (QUEUE_INIT b sz) = []"
  by (simp add: queue_wf_def QUEUE_INIT_def queue_contents_def)

subsection \<open>Single bytes: the bounded FIFO contract\<close>

lemma queue_append_room:
  assumes w: "queue_wf q" and room: "q_num_items q < q_size q"
  shows "\<exists>q'. queue_append (pm, q) x = Some (True, (pm, q')) \<and> queue_wf q'
     \<and> queue_contents q' = queue_contents q @ [x] \<and> q_size q' = q_size q"
proof -
  note D = queue_wfD [OF w]
  let ?t = "(unat (q_head q) + unat (q_num_items q)) mod length (q_buff q)"
  let ?q = "q\<lparr>q_num_items := q_num_items q + 1, q_buff := (q_buff q)[?t := x]\<rparr>"
  have lt: "unat (q_num_items q) < length (q_buff q)" using room D by (simp add: word_nat)
  then have t: "?t < length (q_buff q)" by (intro mod_less_divisor) linarith
  have n: "unat (q_num_items q + 1) = Suc (unat (q_num_items q))"
    using lt D unat_add_small [of "q_num_items q" 1] by simp
  have call: "queue_append (pm, q) x = Some (True, (pm, ?q))"
    using room t queue_tail [OF w]
    by (simp add: queue_op_defs Let_def mem_store_Some)
  have wf: "queue_wf ?q"
    using w room n D lt by (simp add: queue_wf_def word_nat)
  have "queue_contents ?q = queue_contents q @ [x]"
    using ring_list_snoc [OF lt, of "unat (q_head q)" x] n by (simp add: queue_contents_def)
  with call wf show ?thesis by auto
qed

lemma queue_append_full:
  "queue_wf q \<Longrightarrow> unat (q_num_items q) = unat (q_size q) \<Longrightarrow>
   queue_append (pm, q) x = Some (False, (pm, q))"
  by (simp add: queue_op_defs Let_def word_nat)

text \<open>\<open>queue_release\<close> is the general form of moving the head, \<open>queue_get\<close> the case of one byte.\<close>

lemma queue_release_spec:
  assumes w: "queue_wf q"
  shows "\<exists>q'. queue_release (pm, q) sz = (min sz (q_num_items q), (pm, q')) \<and> queue_wf q'
     \<and> queue_contents q' = drop (unat sz) (queue_contents q) \<and> q_size q' = q_size q"
proof -
  note D = queue_wfD [OF w]
  define k where "k = min sz (q_num_items q)"
  have k: "(if sz > q_num_items q then q_num_items q else sz) = k" by (auto simp: k_def min_def)
  have kn: "unat k \<le> unat (q_num_items q)" by (auto simp: k_def min_def word_nat)
  define h where "h = (let t = q_head q + k in if q_size q \<le> t then t - q_size q else t)"
  have s: "unat (q_head q + k) = unat (q_head q) + unat k"
    using D kn by (simp add: unat_add_small)
  have h: "unat h = (unat (q_head q) + unat k) mod length (q_buff q)"
  proof (cases "q_size q \<le> q_head q + k")
    case True
    with s D kn show ?thesis by (simp add: h_def word_nat unat_sub_small mod_if)
  next
    case False
    with s D show ?thesis by (simp add: h_def word_nat)
  qed
  let ?q = "q\<lparr>q_head := h, q_num_items := q_num_items q - k\<rparr>"
  have call: "queue_release (pm, q) sz = (k, (pm, ?q))"
    by (simp add: queue_op_defs Let_def k h_def)
  have n: "unat (q_num_items q - k) = unat (q_num_items q) - unat k"
    using kn by (rule unat_sub_small)
  have hl: "unat h < unat (q_size q)" using D h by (simp add: mod_less_divisor)
  have wf: "queue_wf ?q" using w D hl n by (simp add: queue_wf_def word_nat)
  have dr: "drop (unat sz) (queue_contents q) = drop (unat k) (queue_contents q)"
    by (auto simp: k_def min_def word_nat)
  have "queue_contents ?q = drop (unat k) (queue_contents q)"
    unfolding queue_contents_def using ring_list_drop [OF kn, of "q_buff q" "unat (q_head q)"] h n
    by simp
  with call wf dr show ?thesis by (auto simp: k_def)
qed

lemma queue_get_release:
  assumes w: "queue_wf q" and ne: "q_num_items q \<noteq> 0"
  shows "queue_get (pm, q) = Some (Some (hd (queue_contents q)), snd (queue_release (pm, q) 1))"
proof -
  note D = queue_wfD [OF w]
  have n: "0 < unat (q_num_items q)" using ne by (simp add: unat_gt_0)
  then have one: "\<not> q_num_items q < 1" by (simp add: word_nat)
  have hd: "hd (queue_contents q) = q_buff q ! unat (q_head q)"
    using ring_list_hd [OF n, of "unat (q_head q)" "q_buff q"] D by (simp add: queue_contents_def)
  have z: "q_head q + 1 - q_size q = 0" if "q_size q \<le> q_head q + 1"
  proof -
    have "unat (q_head q + 1) = Suc (unat (q_head q))"
      using D unat_add_small [of "q_head q" 1] by simp
    with that D have "q_head q + 1 = q_size q"
      by (simp add: word_unat_eq_iff word_le_unat)
    then show ?thesis by simp
  qed
  show ?thesis
    using ne one D z by (simp add: queue_op_defs Let_def mem_load_Some hd not_less)
qed

lemma queue_get_spec:
  assumes w: "queue_wf q" and c: "queue_contents q = x # xs"
  shows "\<exists>q'. queue_get (pm, q) = Some (Some x, (pm, q')) \<and> queue_wf q'
     \<and> queue_contents q' = xs \<and> q_size q' = q_size q"
proof -
  have "q_num_items q \<noteq> 0" using c by (auto simp: queue_contents_def)
  then show ?thesis
    using queue_get_release [OF w] queue_release_spec [OF w, of pm 1] c by auto
qed

lemma queue_get_empty:
  "queue_contents q = [] \<Longrightarrow> queue_get (pm, q) = Some (None, (pm, q))"
  using length_queue_contents [of q] by (simp add: queue_op_defs Let_def unat_eq_0)

text \<open>The queue together with the interrupt mask is a bounded FIFO; that the mask is part of the
  state makes every law a statement that the critical section is left as it was entered.\<close>

definition qe_wf :: "u32 \<Rightarrow> queue_env \<Rightarrow> bool" where
  "qe_wf pm e \<longleftrightarrow> fst e = pm \<and> queue_wf (snd e)"

interpretation rq: bounded_fifo "qe_wf pm" "\<lambda>e. queue_contents (snd e)"
    "\<lambda>e. unat (q_size (snd e))" queue_append queue_get for pm
proof unfold_locales
  fix e :: queue_env and x :: u8
  assume e: "qe_wf pm e"
  obtain q where q: "e = (pm, q)" "queue_wf q" using e by (cases e) (auto simp: qe_wf_def)
  show "length (queue_contents (snd e)) \<le> unat (q_size (snd e))"
    using q by (simp add: queue_wf_def word_nat)
  show "\<exists>q'. queue_append e x = Some (True, q') \<and> qe_wf pm q'
      \<and> queue_contents (snd q') = queue_contents (snd e) @ [x]
      \<and> unat (q_size (snd q')) = unat (q_size (snd e))"
    if "length (queue_contents (snd e)) < unat (q_size (snd e))"
    using that q queue_append_room [OF q(2), of pm x] by (auto simp: qe_wf_def word_nat)
  show "queue_append e x = Some (False, e)"
    if "length (queue_contents (snd e)) = unat (q_size (snd e))"
    using that q by (simp add: queue_append_full)
  show "\<exists>q'. queue_get e = Some (Some x, q') \<and> qe_wf pm q' \<and> queue_contents (snd q') = xs
      \<and> unat (q_size (snd q')) = unat (q_size (snd e))"
    if "queue_contents (snd e) = x # xs" for xs
    using queue_get_spec [OF q(2), of x xs pm] that q by (auto simp: qe_wf_def)
  show "queue_get e = Some (None, e)" if "queue_contents (snd e) = []"
    using that q by (simp add: queue_get_empty)
qed

subsection \<open>Blocks of bytes\<close>

lemma queue_enqueue_room:
  assumes w: "queue_wf q" and room: "unat sz \<le> unat (q_size q) - unat (q_num_items q)"
    and d: "unat sz \<le> length ds"
  shows "\<exists>q'. queue_enqueue (pm, q) ds sz = Some (sz, (pm, q')) \<and> queue_wf q'
     \<and> queue_contents q' = queue_contents q @ take (unat sz) ds \<and> q_size q' = q_size q"
proof -
  note D = queue_wfD [OF w]
  define tl where "tl = (let t = q_head q + q_num_items q in if q_size q \<le> t then t - q_size q else t)"
  let ?t = "(unat (q_head q) + unat (q_num_items q)) mod length (q_buff q)"
  let ?b = "ring_write (q_buff q) ?t (take (unat sz) ds)"
  let ?q = "q\<lparr>q_buff := ?b, q_num_items := q_num_items q + sz\<rparr>"
  have tl: "unat tl = ?t" using queue_tail [OF w] by (simp add: tl_def)
  have tlt: "?t < length (q_buff q)" using D by (intro mod_less_divisor) linarith
  have temp: "unat (q_size q - tl) = length (q_buff q) - ?t"
    using D tl tlt by (simp add: unat_sub_small)
  have g: "uint sz \<le> uint (q_size q) - uint (q_num_items q)"
    using room D by (simp add: uint_le_diff_unat)
  have lt: "sz < q_size q - tl \<longleftrightarrow> unat sz < length (q_buff q) - ?t"
    by (simp add: word_nat temp)
  have sz: "unat sz \<le> length (q_buff q)" using room D by simp
  have call: "queue_enqueue (pm, q) ds sz = Some (sz, (pm, ?q))"
    using g two_copies [OF tlt sz, of 0 ds] d
    by (simp add: queue_op_defs Let_def tl_def [unfolded Let_def, symmetric] tl temp lt
        del: Option.bind_assoc split: if_splits)
  have n: "unat (q_num_items q + sz) = unat (q_num_items q) + unat sz"
    using room D by (simp add: unat_add_small)
  have wf: "queue_wf ?q" using w D n room tlt sz by (simp add: queue_wf_def word_nat)
  have len: "length (take (unat sz) ds) = unat sz" using d by simp
  have h: "unat (q_head q) < length (q_buff q)"
    and k: "unat (q_num_items q) + length (take (unat sz) ds) \<le> length (q_buff q)"
    using D room by (simp_all add: len)
  have "queue_contents ?q = queue_contents q @ take (unat sz) ds"
    using ring_list_append [OF h k] n unfolding len by (simp add: queue_contents_def)
  with call wf show ?thesis by auto
qed

lemma queue_enqueue_refused:
  assumes "queue_wf q" "unat (q_size q) - unat (q_num_items q) < unat sz"
  shows "queue_enqueue (pm, q) ds sz = Some (0, (pm, q))"
proof -
  have "\<not> uint sz \<le> uint (q_size q) - uint (q_num_items q)"
    using assms queue_wfD [OF assms(1)] by (simp add: uint_le_diff_unat)
  then show ?thesis by (simp add: queue_op_defs Let_def)
qed

text \<open>How much both peek operations offer: the part of the contents before the buffer's end.\<close>

definition queue_run :: "queue_t \<Rightarrow> nat" where
  "queue_run q = min (unat (q_num_items q)) (unat (q_size q) - unat (q_head q))"

lemma queue_peek_size:
  assumes w: "queue_wf q"
  shows "unat (if q_head q + q_num_items q > q_size q then q_size q - q_head q else q_num_items q)
       = queue_run q"
proof -
  note D = queue_wfD [OF w]
  have "unat (q_head q + q_num_items q) = unat (q_head q) + unat (q_num_items q)"
    using D by (simp add: unat_add_small)
  then show ?thesis using D by (auto simp: queue_run_def word_nat unat_sub_small)
qed

lemma queue_run_prefix:
  assumes "queue_wf q" "k \<le> queue_run q"
  shows "take k (drop (unat (q_head q)) (q_buff q)) = take k (queue_contents q)"
    "unat (q_head q) + k \<le> length (q_buff q)"
proof -
  note D = queue_wfD [OF assms(1)]
  show le: "unat (q_head q) + k \<le> length (q_buff q)"
    using D assms(2) unfolding queue_run_def by linarith
  have "k \<le> unat (q_num_items q)" using assms(2) by (simp add: queue_run_def)
  then show "take k (drop (unat (q_head q)) (q_buff q)) = take k (queue_contents q)"
    using le D by (intro nth_equalityI) (auto simp: queue_contents_def)
qed

lemma queue_peek_consequent_spec:
  assumes w: "queue_wf q" and room: "unat sz \<le> length data"
  shows "\<exists>n. queue_peek_consequent (pm, q) data sz
      = Some (n, take (unat n) (queue_contents q) @ drop (unat n) data, (pm, q))
    \<and> unat n = min (unat sz) (queue_run q)"
proof -
  note D = queue_wfD [OF w]
  define m where "m = (if sz > q_num_items q then q_num_items q else sz)"
  define n where "n = (if q_head q + q_num_items q > q_size q
     then (if m > q_size q - q_head q then q_size q - q_head q else m) else m)"
  have s: "unat (q_head q + q_num_items q) = unat (q_head q) + unat (q_num_items q)"
    using D by (simp add: unat_add_small)
  have um: "unat m = min (unat sz) (unat (q_num_items q))" by (auto simp: m_def word_nat)
  have un: "unat n = min (unat sz) (queue_run q)"
    using D um s by (auto simp: n_def queue_run_def word_nat unat_sub_small)
  then have k: "unat n \<le> queue_run q" by simp
  have call: "queue_peek_consequent (pm, q) data sz =
      do { d \<leftarrow> mem_read (q_buff q) (unat (q_head q)) (unat n);
           data' \<leftarrow> mem_write data 0 d; Some (n, data', (pm, q)) }"
    by (simp add: queue_op_defs Let_def n_def m_def)
  have len: "unat n \<le> unat (q_num_items q)" "unat n \<le> length data"
    using k un room by (auto simp: queue_run_def)
  have "queue_peek_consequent (pm, q) data sz
      = Some (n, take (unat n) (queue_contents q) @ drop (unat n) data, (pm, q))"
    unfolding call using queue_run_prefix [OF w k] len by (simp add: mem_simps min_absorb2)
  with un show ?thesis by blast
qed

lemma queue_peek_noncopy_spec:
  assumes w: "queue_wf q"
  shows "\<exists>n. queue_peek_noncopy (pm, q) = (n, unat (q_head q), (pm, q)) \<and> unat n = queue_run q"
  using queue_peek_size [OF w] by (simp add: queue_op_defs Let_def)

lemma queue_run_pos:
  "queue_wf q \<Longrightarrow> queue_contents q \<noteq> [] \<Longrightarrow> 0 < queue_run q"
  using queue_wfD [of q] length_queue_contents [of q]
  by (cases "unat (q_num_items q)") (auto simp: queue_run_def simp del: length_queue_contents)

subsection \<open>Properties\<close>

text \<open>
  C10. The byte queue is first-in first-out: bytes appended one by one to an empty queue, as many
  as it has room for, are all accepted and come out of \<open>queue_get\<close> in the same order; no access
  is out of bounds, the queue is well formed and empty afterwards and the interrupt mask is
  the one before the calls.
\<close>

theorem queue_fifo_order:
  assumes "queue_wf q" "queue_contents q = []" "length xs \<le> unat (q_size q)"
  shows "\<exists>e q'. put_all queue_append (pm, q) xs = Some e
     \<and> get_n queue_get e (length xs) = Some (xs, (pm, q')) \<and> queue_wf q' \<and> queue_contents q' = []"
proof -
  have "qe_wf pm (pm, q)" using assms by (simp add: qe_wf_def)
  from rq.fifo_order [OF this, of xs] assms obtain e e' where
    "put_all queue_append (pm, q) xs = Some e" "get_n queue_get e (length xs) = Some (xs, e')"
    "qe_wf pm e'" "queue_contents (snd e') = []" by auto
  then show ?thesis by (cases e') (auto simp: qe_wf_def)
qed

theorem queue_fifo_order_witness:
  "\<exists>e q'. put_all queue_append (7, QUEUE_INIT [0, 0, 0] 3) [10, 20, 30] = Some e
     \<and> get_n queue_get e (length [10, 20, 30 :: u8]) = Some ([10, 20, 30], (7, q'))
     \<and> queue_wf q' \<and> queue_contents q' = []"
  by (rule queue_fifo_order) (simp_all add: queue_wf_def queue_contents_def QUEUE_INIT_def)

text \<open>
  C12. \<open>queue_enqueue\<close> is all or nothing. When the block fits into the free space the call returns
  its size and the block is appended to the contents, also when it wraps around the end of the
  buffer; otherwise the call returns 0 and changes nothing. Both branches stay in bounds and
  restore the interrupt mask.
\<close>

theorem queue_enqueue_correct:
  assumes "queue_wf q" "unat sz \<le> length ds"
  shows "if unat (q_num_items q) + unat sz \<le> unat (q_size q)
     then \<exists>q'. queue_enqueue (pm, q) ds sz = Some (sz, (pm, q')) \<and> queue_wf q'
            \<and> queue_contents q' = queue_contents q @ take (unat sz) ds
     else queue_enqueue (pm, q) ds sz = Some (0, (pm, q))"
proof (cases "unat (q_num_items q) + unat sz \<le> unat (q_size q)")
  case True
  then have "unat sz \<le> unat (q_size q) - unat (q_num_items q)" by simp
  from queue_enqueue_room [OF assms(1) this assms(2), of pm] True show ?thesis by auto
next
  case False
  then have "unat (q_size q) - unat (q_num_items q) < unat sz"
    using queue_wfD [OF assms(1)] by simp
  from queue_enqueue_refused [OF assms(1) this] False show ?thesis by simp
qed

theorem queue_enqueue_correct_witness:
  "\<exists>q'. queue_enqueue (0, \<lparr>q_num_items = 1, q_head = 2, q_size = 4, q_buff = [1, 2, 3, 4]\<rparr>)
      [7, 8, 9] 3 = Some (3, (0, q')) \<and> queue_wf q' \<and> queue_contents q' = [3, 7, 8, 9]"
  using queue_enqueue_correct [of "\<lparr>q_num_items = 1, q_head = 2, q_size = 4, q_buff = [1, 2, 3, 4]\<rparr>"
      3 "[7, 8, 9]" 0]
  by (simp add: queue_wf_def queue_contents_def ring_list_def)

text \<open>
  C15. Peeking and releasing. \<open>queue_peek_noncopy\<close> yields an index and a length such that the
  stored bytes there are a prefix of the contents, a non-empty one when the queue is not empty;
  releasing that many bytes removes exactly that prefix. \<open>queue_peek_consequent\<close> copies the same
  prefix, cut to the requested size.
\<close>

theorem queue_peek_then_release:
  assumes "queue_wf q" "unat sz \<le> length data"
  shows "\<exists>n off q' m. queue_peek_noncopy (pm, q) = (n, off, (pm, q))
     \<and> take (unat n) (drop off (q_buff q)) = take (unat n) (queue_contents q)
     \<and> (queue_contents q \<noteq> [] \<longrightarrow> 0 < n)
     \<and> queue_release (pm, q) n = (n, (pm, q')) \<and> queue_wf q'
     \<and> queue_contents q' = drop (unat n) (queue_contents q)
     \<and> queue_peek_consequent (pm, q) data sz
         = Some (m, take (unat m) (queue_contents q) @ drop (unat m) data, (pm, q))
     \<and> unat m = min (unat sz) (unat n)"
proof -
  note w = assms(1)
  from queue_peek_noncopy_spec [OF w, of pm] obtain n where
    n: "queue_peek_noncopy (pm, q) = (n, unat (q_head q), (pm, q))" "unat n = queue_run q" by auto
  from queue_release_spec [OF w, of pm n] obtain q' where
    q': "queue_release (pm, q) n = (min n (q_num_items q), (pm, q'))" "queue_wf q'"
      "queue_contents q' = drop (unat n) (queue_contents q)" by auto
  have "min n (q_num_items q) = n" using n(2) by (simp add: min_def word_nat queue_run_def)
  moreover have "queue_contents q \<noteq> [] \<longrightarrow> 0 < n"
    using queue_run_pos [OF w] n(2) by (simp add: word_nat)
  moreover obtain m where "queue_peek_consequent (pm, q) data sz
      = Some (m, take (unat m) (queue_contents q) @ drop (unat m) data, (pm, q))"
    "unat m = min (unat sz) (unat n)"
    using queue_peek_consequent_spec [OF assms, of pm] n(2) by auto
  ultimately show ?thesis using n q' queue_run_prefix(1) [OF w, of "unat n"] by auto
qed

abbreviation demo_queue :: queue_t where
  "demo_queue \<equiv> \<lparr>q_num_items = 3, q_head = 2, q_size = 4, q_buff = [1, 2, 3, 4]\<rparr>"

theorem queue_peek_then_release_witness:
  "\<exists>n off q' m. queue_peek_noncopy (1, demo_queue) = (n, off, (1, demo_queue))
     \<and> take (unat n) (drop off (q_buff demo_queue)) = take (unat n) (queue_contents demo_queue)
     \<and> (queue_contents demo_queue \<noteq> [] \<longrightarrow> 0 < n)
     \<and> queue_release (1, demo_queue) n = (n, (1, q')) \<and> queue_wf q'
     \<and> queue_contents q' = drop (unat n) (queue_contents demo_queue)
     \<and> queue_peek_consequent (1, demo_queue) [0] 1
         = Some (m, take (unat m) (queue_contents demo_queue) @ drop (unat m) [0], (1, demo_queue))
     \<and> unat m = min (unat (1 :: u16)) (unat n)"
  by (rule queue_peek_then_release) (simp_all add: queue_wf_def)

text \<open>Reachable states: any sequence of calls from an initialised queue.\<close>

inductive queue_step :: "queue_env \<Rightarrow> queue_env \<Rightarrow> bool" where
  step_clear: "queue_clear e = (r, e') \<Longrightarrow> queue_step e e'"
| step_append: "queue_append e x = Some (r, e') \<Longrightarrow> queue_step e e'"
| step_get: "queue_get e = Some (r, e') \<Longrightarrow> queue_step e e'"
| step_enqueue: "unat sz \<le> length ds \<Longrightarrow> queue_enqueue e ds sz = Some (r, e') \<Longrightarrow> queue_step e e'"
| step_peek: "unat sz \<le> length ds \<Longrightarrow> queue_peek_consequent e ds sz = Some (r, ds', e') \<Longrightarrow>
    queue_step e e'"
| step_peek_noncopy: "queue_peek_noncopy e = (r, i, e') \<Longrightarrow> queue_step e e'"
| step_release: "queue_release e sz = (r, e') \<Longrightarrow> queue_step e e'"

inductive_cases queue_stepE [elim!]: "queue_step e e'"

inductive queue_reach :: "queue_env \<Rightarrow> queue_env \<Rightarrow> bool" where
  reach_init: "queue_reach e e"
| reach_step: "queue_reach e e' \<Longrightarrow> queue_step e' e'' \<Longrightarrow> queue_reach e e''"

lemma queue_step_wf:
  assumes "queue_step (pm, q) e'" "queue_wf q"
  shows "fst e' = pm \<and> queue_wf (snd e') \<and> q_size (snd e') = q_size q"
  using assms(1)
proof (cases rule: queue_step.cases)
  case (step_clear r)
  then show ?thesis
    using assms(2) by (auto simp: queue_op_defs Let_def queue_wf_def word_nat)
next
  case (step_append x r)
  then show ?thesis
    using queue_append_room [OF assms(2), of pm x] queue_append_full [OF assms(2), of pm x]
      queue_wfD(3) [OF assms(2)] assms(2)
    by (cases "q_num_items q < q_size q") (auto simp: word_nat)
next
  case (step_get r)
  show ?thesis
  proof (cases "queue_contents q")
    case Nil
    with step_get queue_get_empty [of q pm] assms(2) show ?thesis by auto
  next
    case (Cons x xs)
    with step_get queue_get_spec [OF assms(2) Cons, of pm] show ?thesis by auto
  qed
next
  case (step_enqueue sz ds r)
  then show ?thesis
    using queue_enqueue_room [OF assms(2), of sz ds pm] queue_enqueue_refused [OF assms(2), of sz pm ds]
      assms(2)
    by (cases "unat sz \<le> unat (q_size q) - unat (q_num_items q)") auto
next
  case (step_peek sz ds r ds')
  then show ?thesis
    using queue_peek_consequent_spec [OF assms(2) step_peek(1), of pm] assms(2) by auto
next
  case (step_peek_noncopy r i)
  then show ?thesis using queue_peek_noncopy_spec [OF assms(2), of pm] assms(2) by auto
next
  case (step_release sz r)
  then show ?thesis using queue_release_spec [OF assms(2), of pm sz] by auto
qed

text \<open>
  C18. Every state reached from a freshly initialised queue of 1 to 32768 bytes by any sequence of
  calls is well formed (head inside the buffer, no more items than bytes, buffer of the declared
  size), and the interrupt mask is that of the start: no call leaves interrupts disabled.
\<close>

theorem queue_reachable_wf:
  assumes "queue_reach (pm, QUEUE_INIT b sz) e" "0 < sz" "unat sz \<le> 2 ^ 15" "length b = unat sz"
  shows "fst e = pm \<and> queue_wf (snd e) \<and> q_size (snd e) = sz"
  using assms(1)
proof (induction "(pm, QUEUE_INIT b sz)" e rule: queue_reach.induct)
  case reach_init
  then show ?case using queue_wf_init [OF assms(2-4)] by (simp add: QUEUE_INIT_def)
next
  case (reach_step e' e'')
  then show ?case using queue_step_wf [of pm "snd e'" e''] by (cases e') auto
qed

theorem queue_reachable_wf_witness:
  "fst (snd (queue_clear (5, QUEUE_INIT [0, 0] 2))) = 5
   \<and> queue_wf (snd (snd (queue_clear (5, QUEUE_INIT [0, 0] 2))))
   \<and> q_size (snd (snd (queue_clear (5, QUEUE_INIT [0, 0] 2)))) = 2"
proof (rule queue_reachable_wf)
  show "queue_reach (5, QUEUE_INIT [0, 0] 2) (snd (queue_clear (5, QUEUE_INIT [0, 0] 2)))"
    by (rule reach_step [OF reach_init step_clear]) (simp add: prod_eq_iff)
qed simp_all

text \<open>
  Without the bound of 32768 bytes the 16-bit sum \<open>head + num_items\<close> wraps: appending to a
  queue of 40000 bytes with head 39999 and 30000 items writes byte 4463 of the buffer, which
  holds a byte that is still queued, instead of the free byte 29999; the byte appended is not
  the last byte of the contents.
\<close>

theorem queue_append_tail_wraps:
  assumes "length b = 40000" "q = \<lparr>q_num_items = 30000, q_head = 39999, q_size = 40000, q_buff = b\<rparr>"
  shows "\<exists>q'. queue_append (pm, q) x = Some (True, (pm, q')) \<and> q_buff q' = b[4463 := x]
     \<and> queue_contents q ! 4464 = b ! 4463 \<and> queue_contents q' ! 4464 = x
     \<and> last (queue_contents q') = b ! 29999"
  using assms by (simp add: queue_op_defs Let_def mem_store_def queue_contents_def ring_list_def
      last_map)

theorem queue_append_tail_wraps_witness:
  "\<exists>q'. queue_append (0, \<lparr>q_num_items = 30000, q_head = 39999, q_size = 40000,
                           q_buff = replicate 40000 0\<rparr>) 1 = Some (True, (0, q'))
     \<and> q_buff q' = (replicate 40000 0)[4463 := 1]"
  using queue_append_tail_wraps [OF length_replicate refl, of 0 0 1] by blast

end
