(* ===== verification/Log_Buffer.thy ===== *)
theory Log_Buffer
  imports Ring_Buffer
begin

text \<open>
  The circular log buffer of \<open>src/logbuffer.c\<close>, which overwrites the oldest data when it is full.
  \<open>lb_mem\<close> is \<open>None\<close> for a null pointer. An \<open>int\<close> argument enters as its 32-bit pattern, because
  the code compares it with the unsigned \<open>mem_size\<close> after the usual conversion to \<open>uint32_t\<close>.
  The library call \<open>malloc\<close> is a parameter. The abstraction \<open>logbuffer_contents\<close> is the list of
  retained bytes, oldest first; the main result is that it always equals the last \<open>mem_size\<close>
  bytes of everything that was written.
\<close>

subsection \<open>State and operations\<close>

record logbuffer =
  lb_mem :: "bytes option"
  lb_mem_size :: u32
  lb_tail :: u32
  lb_round_flag :: int

definition logbuffer_init :: "(nat \<Rightarrow> bytes option) \<Rightarrow> u32 \<Rightarrow> int \<times> logbuffer" where
  "logbuffer_init malloc sz =
     (let p = \<lparr>lb_mem = None, lb_mem_size = 0, lb_tail = 0, lb_round_flag = 0\<rparr>;
          p = p\<lparr>lb_mem := malloc (unat (scast sz :: u64))\<rparr>;
          p = p\<lparr>lb_mem_size := sz\<rparr>
      in (0, p))"

text \<open>The library's \<open>free\<close> acts on the heap \<open>'h\<close>.\<close>

definition logbuffer_deinit :: "(bytes option \<Rightarrow> 'h \<Rightarrow> 'h) \<Rightarrow> logbuffer \<Rightarrow> 'h \<Rightarrow> 'h" where
  "logbuffer_deinit free p h = free (lb_mem p) h"

definition logbuffer_puts :: "logbuffer \<Rightarrow> bytes \<Rightarrow> u32 \<Rightarrow> (u32 \<times> logbuffer) option" where
  "logbuffer_puts p dat len = do {
     mem \<leftarrow> lb_mem p;
     let ms = lb_mem_size p;
     let off = (if len > ms then len - ms else 0);
     let len = (if len > ms then ms else len);
     mem' \<leftarrow> (if ms - lb_tail p > len then do {
               d \<leftarrow> mem_read dat (unat off) (unat len);
               mem_write mem (unat (lb_tail p)) d }
             else do {
               d1 \<leftarrow> mem_read dat (unat off) (unat (ms - lb_tail p));
               m1 \<leftarrow> mem_write mem (unat (lb_tail p)) d1;
               d2 \<leftarrow> mem_read dat (unat off + unat (ms - lb_tail p))
                              (unat (len - (ms - lb_tail p)));
               mem_write m1 0 d2 });
     let p1 = p\<lparr>lb_mem := Some mem', lb_tail := lb_tail p + len\<rparr>;
     let p2 = (if lb_tail p1 \<ge> ms
               then p1\<lparr>lb_tail := lb_tail p1 - ms, lb_round_flag := 1\<rparr> else p1);
     Some (len, p2) }"

text \<open>The declared size \<open>buf_size\<close> of the target is never read by the code; \<open>buf\<close> is the target
  array itself.\<close>

definition logbuffer_gets :: "logbuffer \<Rightarrow> bytes \<Rightarrow> u32 \<Rightarrow> (u32 \<times> bytes) option" where
  "logbuffer_gets p buf buf_size = do {
     mem \<leftarrow> lb_mem p;
     let ms = lb_mem_size p;
     let tail = lb_tail p;
     if lb_round_flag p \<noteq> 0 then do {
       d1 \<leftarrow> mem_read mem (unat tail) (unat (ms - tail));
       b1 \<leftarrow> mem_write buf 0 d1;
       d2 \<leftarrow> mem_read mem 0 (unat tail);
       b2 \<leftarrow> mem_write b1 (unat (ms - tail)) d2;
       Some (ms, b2) }
     else do {
       d \<leftarrow> mem_read mem 0 (unat tail);
       b \<leftarrow> mem_write buf 0 d;
       Some (tail, b) } }"

text \<open>The blocks passed to \<open>write(fd, \<dots>)\<close>, in order; the code ignores what \<open>write\<close> returns.\<close>

definition logbuffer_gets_to_fd :: "logbuffer \<Rightarrow> (u32 \<times> bytes list) option" where
  "logbuffer_gets_to_fd p = do {
     mem \<leftarrow> lb_mem p;
     let ms = lb_mem_size p;
     let tail = lb_tail p;
     if lb_round_flag p \<noteq> 0 then do {
       d1 \<leftarrow> mem_read mem (unat tail) (unat (ms - tail));
       d2 \<leftarrow> mem_read mem 0 (unat tail);
       Some (ms, [d1, d2]) }
     else do {
       d \<leftarrow> mem_read mem 0 (unat tail);
       Some (tail, [d]) } }"

subsection \<open>Invariant and abstraction\<close>

definition logbuffer_wf :: "logbuffer \<Rightarrow> bool" where
  "logbuffer_wf p \<longleftrightarrow>
     (case lb_mem p of None \<Rightarrow> False | Some mem \<Rightarrow>
        length mem = unat (lb_mem_size p) \<and> lb_tail p < lb_mem_size p
        \<and> unat (lb_mem_size p) \<le> 2 ^ 31)"

definition logbuffer_contents :: "logbuffer \<Rightarrow> bytes" where
  "logbuffer_contents p =
     (let mem = the (lb_mem p); tail = unat (lb_tail p) in
      if lb_round_flag p \<noteq> 0 then drop tail mem @ take tail mem else take tail mem)"

definition lastn :: "nat \<Rightarrow> 'a list \<Rightarrow> 'a list" where
  "lastn n xs = drop (length xs - n) xs"

lemma lastn_all [simp]: "length xs \<le> n \<Longrightarrow> lastn n xs = xs"
  by (simp add: lastn_def)

lemma length_lastn [simp]: "length (lastn n xs) = min n (length xs)"
  by (simp add: lastn_def)

lemma lastn_append_lastn: "lastn n (lastn n xs @ ys) = lastn n (xs @ ys)"
  by (cases "length xs \<le> n") (simp_all add: lastn_def add.commute)

lemma lastn_lastn_snd: "lastn n (xs @ lastn n ys) = lastn n (xs @ ys)"
  by (cases "length ys \<le> n") (simp_all add: lastn_def)

lemma logbuffer_wfE:
  assumes "logbuffer_wf p"
  obtains mem where "lb_mem p = Some mem" "length mem = unat (lb_mem_size p)"
    "unat (lb_tail p) < length mem" "length mem \<le> 2147483648"
  using assms by (auto simp: logbuffer_wf_def word_nat split: option.splits)

lemma ring_list_full: "t < length xs \<Longrightarrow> ring_list xs t (length xs) = drop t xs @ take t xs"
  by (rule nth_equalityI) (auto simp: nth_append mod_if add.commute)

text \<open>A block written over a full ring drops as many of the oldest elements as it is long.\<close>

lemma ring_overwrite:
  assumes t: "t < length xs" and d: "length ds \<le> length xs"
  shows "ring_list (ring_write xs t ds) ((t + length ds) mod length xs) (length xs)
       = drop (length ds) (drop t xs @ take t xs) @ ds"
proof -
  let ?n = "length xs" and ?h = "(t + length ds) mod length xs"
  have h: "?h < ?n" using t by (intro mod_less_divisor) linarith
  have "(?h + (?n - length ds)) mod ?n = (t + length ds + (?n - length ds)) mod ?n"
    by (rule mod_add_left_eq)
  then have e: "(?h + (?n - length ds)) mod ?n = t" using t d by simp
  have "ring_list (ring_write xs t ds) ?h (?n - length ds + length ds)
      = ring_list xs ?h (?n - length ds) @ ds"
    using ring_list_append [OF h, of "?n - length ds" ds] d e by simp
  moreover have "ring_list xs ?h (?n - length ds) = drop (length ds) (ring_list xs t ?n)"
    using ring_list_drop [OF d] .
  ultimately show ?thesis using d ring_list_full [OF t] by simp
qed

lemma overwrite_lastn:
  assumes "t < length xs" "length ds \<le> length xs"
  shows "drop (length ds) (drop t xs @ take t xs) @ ds = lastn (length xs) ((drop t xs @ take t xs) @ ds)"
    "length xs - t \<le> length ds \<Longrightarrow>
     drop (length ds) (drop t xs @ take t xs) @ ds = lastn (length xs) (take t xs @ ds)"
  using assms by (simp_all add: lastn_def min_absorb2 add.commute)

lemma logbuffer_puts_mem:
  assumes wf: "logbuffer_wf p" and mem: "lb_mem p = Some mem"
    and d: "unat len \<le> length dat"
  shows "\<exists>p'. logbuffer_puts p dat len = Some (min len (lb_mem_size p), p')
    \<and> lb_mem p' = Some (ring_write mem (unat (lb_tail p)) (lastn (length mem) (take (unat len) dat)))
    \<and> lb_mem_size p' = lb_mem_size p
    \<and> unat (lb_tail p') = (unat (lb_tail p) + min (unat len) (length mem)) mod length mem
    \<and> lb_round_flag p' = (if length mem \<le> unat (lb_tail p) + unat len then 1 else lb_round_flag p)"
proof -
  from wf mem have D: "length mem = unat (lb_mem_size p)" "unat (lb_tail p) < length mem"
    "length mem \<le> 2147483648" by (auto elim!: logbuffer_wfE)
  define l where "l = (if len > lb_mem_size p then lb_mem_size p else len)"
  define off where "off = (if len > lb_mem_size p then len - lb_mem_size p else 0)"
  have ul: "unat l = min (unat len) (length mem)" and uo: "unat off = unat len - length mem"
    using D by (auto simp: l_def off_def word_nat unat_sub_small)
  have lm: "l = min len (lb_mem_size p)" by (auto simp: l_def min_def)
  have r: "unat (lb_mem_size p - lb_tail p) = length mem - unat (lb_tail p)"
    using D by (simp add: unat_sub_small)
  have gt: "lb_mem_size p - lb_tail p > l \<longleftrightarrow> unat l < length mem - unat (lb_tail p)"
    by (simp add: word_nat r)
  have e2: "unat (l - (lb_mem_size p - lb_tail p)) = unat l - (length mem - unat (lb_tail p))"
    if "\<not> unat l < length mem - unat (lb_tail p)"
    using that r by (simp add: unat_sub_small)
  have blk: "take (unat l) (drop (unat off) dat) = lastn (length mem) (take (unat len) dat)"
    using d by (simp add: lastn_def ul uo drop_take min_def)
  have in_bounds: "unat off + unat l \<le> length dat" using d by (simp add: ul uo)
  let ?m = "ring_write mem (unat (lb_tail p)) (lastn (length mem) (take (unat len) dat))"
  define p1 where "p1 = p\<lparr>lb_mem := Some ?m, lb_tail := lb_tail p + l\<rparr>"
  define p2 where "p2 = (if lb_tail p1 \<ge> lb_mem_size p
     then p1\<lparr>lb_tail := lb_tail p1 - lb_mem_size p, lb_round_flag := 1\<rparr> else p1)"
  have ulb: "unat l \<le> length mem" using ul by simp
  have copy: "(if lb_mem_size p - lb_tail p > l then do {
               d \<leftarrow> mem_read dat (unat off) (unat l);
               mem_write mem (unat (lb_tail p)) d }
             else do {
               d1 \<leftarrow> mem_read dat (unat off) (unat (lb_mem_size p - lb_tail p));
               m1 \<leftarrow> mem_write mem (unat (lb_tail p)) d1;
               d2 \<leftarrow> mem_read dat (unat off + unat (lb_mem_size p - lb_tail p))
                              (unat (l - (lb_mem_size p - lb_tail p)));
               mem_write m1 0 d2 }) = Some ?m"
    using two_copies [OF D(2) ulb in_bounds] e2 unfolding blk gt r by (simp cong: if_cong)
  have call: "logbuffer_puts p dat len = Some (l, p2)"
    unfolding logbuffer_puts_def mem Let_def bind.bind_lunit l_def [symmetric] off_def [symmetric] copy
    by (simp add: p2_def p1_def)
  have t: "unat (lb_tail p + l) = unat (lb_tail p) + unat l"
    using D ul by (simp add: unat_add_small)
  have wrap: "lb_mem_size p \<le> lb_tail p + l \<longleftrightarrow> length mem \<le> unat (lb_tail p) + unat len"
    using D by (auto simp: word_le_unat t ul)
  have "unat (lb_tail p2) = (unat (lb_tail p) + min (unat len) (length mem)) mod length mem"
  proof (cases "lb_mem_size p \<le> lb_tail p + l")
    case True
    then have "length mem \<le> unat (lb_tail p) + unat l" using t D by (simp add: word_le_unat)
    with True D t ul show ?thesis by (simp add: p2_def p1_def unat_sub_small mod_if)
  next
    case False
    then have "unat (lb_tail p) + unat l < length mem" using t D by (simp add: word_le_unat)
    with False t ul show ?thesis by (simp add: p2_def p1_def)
  qed
  then show ?thesis using call wrap lm by (auto simp: p2_def p1_def)
qed

lemma logbuffer_puts_spec:
  assumes wf: "logbuffer_wf p" and d: "unat len \<le> length dat"
  shows "\<exists>p'. logbuffer_puts p dat len = Some (min len (lb_mem_size p), p') \<and> logbuffer_wf p'
    \<and> lb_mem_size p' = lb_mem_size p
    \<and> logbuffer_contents p'
        = lastn (unat (lb_mem_size p)) (logbuffer_contents p @ take (unat len) dat)"
proof -
  from wf obtain mem where mem: "lb_mem p = Some mem" "length mem = unat (lb_mem_size p)"
    "unat (lb_tail p) < length mem" "length mem \<le> 2147483648" by (rule logbuffer_wfE)
  let ?n = "length mem" and ?t = "unat (lb_tail p)"
  let ?ds = "lastn ?n (take (unat len) dat)"
  have len: "length ?ds = min (unat len) ?n" using d by simp
  from logbuffer_puts_mem [OF wf mem(1) d] obtain p' where
    p': "logbuffer_puts p dat len = Some (min len (lb_mem_size p), p')"
      "lb_mem p' = Some (ring_write mem ?t ?ds)" "lb_mem_size p' = lb_mem_size p"
      "unat (lb_tail p') = (?t + length ?ds) mod ?n"
      "lb_round_flag p' = (if ?n \<le> ?t + unat len then 1 else lb_round_flag p)"
    unfolding len by blast
  have tl: "unat (lb_tail p') < ?n" unfolding p'(4) using mem(3) by (intro mod_less_divisor) linarith
  have lw: "length (ring_write mem ?t ?ds) = ?n" using mem(3) by simp
  have wf': "logbuffer_wf p'"
    using p' tl lw mem by (simp add: logbuffer_wf_def word_nat)
  have "logbuffer_contents p' = lastn ?n (logbuffer_contents p @ ?ds)"
  proof (cases "lb_round_flag p' = 0")
    case True
    then have nw: "?t + unat len < ?n" and r: "lb_round_flag p = 0"
      using p'(5) by (auto split: if_splits)
    then have l: "length ?ds = unat len" "?t + length ?ds < ?n" "length ?ds < ?n - ?t"
      using len by auto
    have "take (?t + length ?ds) (ring_write mem ?t ?ds) = take ?t mem @ ?ds"
      using l mem(3) by (simp add: ring_write_def Let_def del: length_lastn)
    with True r p' l show ?thesis
      by (simp add: logbuffer_contents_def mem(1) Let_def)
  next
    case False
    have "ring_list (ring_write mem ?t ?ds) ((?t + length ?ds) mod ?n) ?n
        = drop (length ?ds) (drop ?t mem @ take ?t mem) @ ?ds"
      using ring_overwrite [OF mem(3), of ?ds] by simp
    then have c: "logbuffer_contents p' = drop (length ?ds) (drop ?t mem @ take ?t mem) @ ?ds"
      using False p' lw tl ring_list_full [of "unat (lb_tail p')" "ring_write mem ?t ?ds"]
      by (simp add: logbuffer_contents_def Let_def)
    show ?thesis
    proof (cases "lb_round_flag p = 0")
      case True
      then have "?n \<le> ?t + unat len" using False p'(5) by (auto split: if_splits)
      then have w: "?n - ?t \<le> length ?ds" "length ?ds \<le> ?n" using len mem(3) by auto
      with True overwrite_lastn(2) [OF mem(3) w(2,1)] c mem(1) show ?thesis
        by (simp add: logbuffer_contents_def [of p] Let_def)
    next
      case r: False
      with overwrite_lastn(1) [OF mem(3), of ?ds] c mem(1) show ?thesis
        by (simp add: logbuffer_contents_def [of p] Let_def)
    qed
  qed
  then have "logbuffer_contents p' = lastn ?n (logbuffer_contents p @ take (unat len) dat)"
    by (simp add: lastn_lastn_snd)
  with p' wf' mem(2) show ?thesis by auto
qed

lemma length_logbuffer_contents:
  "logbuffer_wf p \<Longrightarrow> length (logbuffer_contents p)
     = (if lb_round_flag p \<noteq> 0 then unat (lb_mem_size p) else unat (lb_tail p))"
  by (auto simp: logbuffer_contents_def Let_def elim!: logbuffer_wfE)

text \<open>Both readers return the contents; \<open>logbuffer_gets\<close> needs a target at least that long.\<close>

lemma logbuffer_gets_spec:
  assumes wf: "logbuffer_wf p" and buf: "length (logbuffer_contents p) \<le> length buf"
  shows "logbuffer_gets p buf bs = Some (if lb_round_flag p \<noteq> 0 then lb_mem_size p else lb_tail p,
      logbuffer_contents p @ drop (length (logbuffer_contents p)) buf)"
proof -
  from wf obtain mem where mem: "lb_mem p = Some mem" "length mem = unat (lb_mem_size p)"
    "unat (lb_tail p) < length mem" "length mem \<le> 2147483648" by (rule logbuffer_wfE)
  have r: "unat (lb_mem_size p - lb_tail p) = length mem - unat (lb_tail p)"
    using mem by (simp add: unat_sub_small)
  show ?thesis
    using mem(1,3) buf
    by (cases "lb_round_flag p = 0")
      (simp_all add: logbuffer_gets_def logbuffer_contents_def Let_def r mem_simps)
qed

lemma logbuffer_gets_overflow:
  assumes wf: "logbuffer_wf p" and buf: "length buf < length (logbuffer_contents p)"
  shows "logbuffer_gets p buf bs = None"
proof -
  from wf obtain mem where mem: "lb_mem p = Some mem" "length mem = unat (lb_mem_size p)"
    "unat (lb_tail p) < length mem" "length mem \<le> 2147483648" by (rule logbuffer_wfE)
  have r: "unat (lb_mem_size p - lb_tail p) = length mem - unat (lb_tail p)"
    using mem by (simp add: unat_sub_small)
  show ?thesis
    using mem(1,3) buf
    by (cases "lb_round_flag p = 0")
      (simp_all add: logbuffer_gets_def logbuffer_contents_def Let_def r mem_read_def mem_write_def)
qed

lemma logbuffer_gets_to_fd_spec:
  assumes wf: "logbuffer_wf p"
  shows "\<exists>blocks. logbuffer_gets_to_fd p
      = Some (if lb_round_flag p \<noteq> 0 then lb_mem_size p else lb_tail p, blocks)
    \<and> concat blocks = logbuffer_contents p"
proof -
  from wf obtain mem where mem: "lb_mem p = Some mem" "length mem = unat (lb_mem_size p)"
    "unat (lb_tail p) < length mem" "length mem \<le> 2147483648" by (rule logbuffer_wfE)
  have r: "unat (lb_mem_size p - lb_tail p) = length mem - unat (lb_tail p)"
    using mem by (simp add: unat_sub_small)
  show ?thesis
    using mem(1,3) by (simp add: logbuffer_gets_to_fd_def logbuffer_contents_def Let_def r mem_simps)
qed

lemma logbuffer_init_spec:
  assumes "malloc (unat sz) = Some mem" "length mem = unat sz" "0 < sz" "unat sz < 2 ^ 31"
  shows "logbuffer_wf (snd (logbuffer_init malloc sz))
    \<and> logbuffer_contents (snd (logbuffer_init malloc sz)) = []
    \<and> lb_mem_size (snd (logbuffer_init malloc sz)) = sz"
  using assms by (simp add: logbuffer_init_def logbuffer_wf_def logbuffer_contents_def Let_def unat_scast_nonneg)

subsection \<open>Properties\<close>

text \<open>A sequence of complete writes.\<close>

fun logbuffer_puts_all :: "logbuffer \<Rightarrow> bytes list \<Rightarrow> logbuffer option" where
  "logbuffer_puts_all p [] = Some p"
| "logbuffer_puts_all p (d # ds) =
     (case logbuffer_puts p d (word_of_nat (length d)) of
        None \<Rightarrow> None | Some (_, p') \<Rightarrow> logbuffer_puts_all p' ds)"

lemma logbuffer_puts_all_spec:
  "logbuffer_wf p \<Longrightarrow> \<forall>d\<in>set ds. length d < 2 ^ 31 \<Longrightarrow>
   \<exists>p'. logbuffer_puts_all p ds = Some p' \<and> logbuffer_wf p' \<and> lb_mem_size p' = lb_mem_size p
     \<and> logbuffer_contents p'
         = lastn (unat (lb_mem_size p)) (lastn (unat (lb_mem_size p)) (logbuffer_contents p) @ concat ds)"
proof (induction ds arbitrary: p)
  case Nil
  then show ?case
    using length_logbuffer_contents [of p] by (auto simp: logbuffer_wf_def word_nat split: option.splits)
next
  case (Cons d ds)
  have l: "unat (word_of_nat (length d) :: u32) = length d"
    using Cons.prems(2) by (simp add: unat_of_nat)
  from logbuffer_puts_spec [OF Cons.prems(1), of "word_of_nat (length d)" d] l obtain p1 r where
    p1: "logbuffer_puts p d (word_of_nat (length d)) = Some (r, p1)" "logbuffer_wf p1"
      "lb_mem_size p1 = lb_mem_size p"
      "logbuffer_contents p1 = lastn (unat (lb_mem_size p)) (logbuffer_contents p @ d)" by auto
  from Cons.IH [OF p1(2)] Cons.prems(2) p1 show ?case
    by (auto simp: lastn_append_lastn)
qed

text \<open>
  C21. The log buffer keeps the newest data: after any sequence of writes to a freshly initialised
  buffer of \<open>sz\<close> bytes (of which \<open>malloc\<close> returned all), the retained bytes are the last \<open>sz\<close> bytes
  of everything written, in order. No write leaves the buffer's memory, and reading into a
  large enough array returns exactly these bytes and their number.
\<close>

theorem logbuffer_keeps_last:
  assumes "malloc (unat sz) = Some mem" "length mem = unat sz" "0 < sz" "unat sz < 2 ^ 31"
    and "\<forall>d\<in>set ds. length d < 2 ^ 31" and "unat sz \<le> length buf"
  shows "\<exists>p n. logbuffer_puts_all (snd (logbuffer_init malloc sz)) ds = Some p
    \<and> logbuffer_contents p = lastn (unat sz) (concat ds)
    \<and> logbuffer_gets p buf bs = Some (n, lastn (unat sz) (concat ds) @ drop (unat n) buf)
    \<and> unat n = min (unat sz) (length (concat ds))"
proof -
  let ?p = "snd (logbuffer_init malloc sz)"
  from logbuffer_init_spec [of malloc sz mem] assms(1-4) have i: "logbuffer_wf ?p" "logbuffer_contents ?p = []"
    "lb_mem_size ?p = sz" by auto
  from logbuffer_puts_all_spec [OF i(1) assms(5)] i obtain p where
    p: "logbuffer_puts_all ?p ds = Some p" "logbuffer_wf p" "lb_mem_size p = sz"
      "logbuffer_contents p = lastn (unat sz) (concat ds)" by auto
  define n where "n = (if lb_round_flag p \<noteq> 0 then lb_mem_size p else lb_tail p)"
  have n: "unat n = length (logbuffer_contents p)"
    using length_logbuffer_contents [OF p(2)] by (simp add: n_def)
  then have len: "unat n = min (unat sz) (length (concat ds))" by (simp add: p(4))
  have "logbuffer_gets p buf bs = Some (n, lastn (unat sz) (concat ds) @ drop (unat n) buf)"
    using logbuffer_gets_spec [OF p(2), of buf bs] assms(6) len n
    unfolding n_def [symmetric] p(4) by simp
  with p len show ?thesis by blast
qed

theorem logbuffer_keeps_last_witness:
  "\<exists>p n. logbuffer_puts_all (snd (logbuffer_init (\<lambda>k. Some (replicate k 0)) 4)) [[1, 2, 3], [4, 5, 6]] = Some p
    \<and> logbuffer_contents p = lastn (unat (4 :: u32)) (concat [[1, 2, 3], [4, 5, 6]])
    \<and> logbuffer_gets p [9, 9, 9, 9, 9] 5
        = Some (n, lastn (unat (4 :: u32)) (concat [[1, 2, 3], [4, 5, 6]]) @ drop (unat n) [9, 9, 9, 9, 9])
    \<and> unat n = min (unat (4 :: u32)) (length (concat [[1, 2, 3], [4, 5, 6 :: u8]]))"
  by (rule logbuffer_keeps_last [where mem = "replicate 4 0"]) simp_all

text \<open>
  \<open>logbuffer_gets\<close> does not honour the size of the target: for every value of \<open>buf_size\<close> it writes
  the whole contents, so with a target shorter than the retained data it writes out of bounds.
\<close>

theorem logbuffer_gets_ignores_size:
  assumes "logbuffer_wf p" "length buf < length (logbuffer_contents p)"
    "unat buf_size = length buf"
  shows "logbuffer_gets p buf buf_size = None"
  using assms by (simp add: logbuffer_gets_overflow)

theorem logbuffer_gets_ignores_size_witness:
  "logbuffer_gets \<lparr>lb_mem = Some [1, 2, 3], lb_mem_size = 3, lb_tail = 2, lb_round_flag = 0\<rparr> [0] 1 = None"
  by (rule logbuffer_gets_ignores_size) (simp_all add: logbuffer_wf_def logbuffer_contents_def)

end
