(* ===== verification/Crc16.thy ===== *)
theory Crc16
  imports Interfaces
begin

text \<open>
  The CRC-16 of \<open>src/crc.c\<close> (polynomial 0x1021, most significant bit first, no final xor),
  computed byte by byte from a table. A pointer is the list of the bytes from it to the end of
  its array; the loop returns \<open>None\<close> when it would read past that end.

  The table is shown to be the one of the bit-serial definition, so the routine equals a plain
  shift register; on top of that come the facts a user of a checksum relies on: it can be
  computed piecewise, a message followed by its checksum has checksum 0, and any change confined
  to two neighbouring bytes changes it.
\<close>

definition crc_table :: "u16 list" where
  "crc_table =
    [0x0000, 0x1021, 0x2042, 0x3063, 0x4084, 0x50a5, 0x60c6, 0x70e7,
     0x8108, 0x9129, 0xa14a, 0xb16b, 0xc18c, 0xd1ad, 0xe1ce, 0xf1ef,
     0x1231, 0x0210, 0x3273, 0x2252, 0x52b5, 0x4294, 0x72f7, 0x62d6,
     0x9339, 0x8318, 0xb37b, 0xa35a, 0xd3bd, 0xc39c, 0xf3ff, 0xe3de,
     0x2462, 0x3443, 0x0420, 0x1401, 0x64e6, 0x74c7, 0x44a4, 0x5485,
     0xa56a, 0xb54b, 0x8528, 0x9509, 0xe5ee, 0xf5cf, 0xc5ac, 0xd58d,
     0x3653, 0x2672, 0x1611, 0x0630, 0x76d7, 0x66f6, 0x5695, 0x46b4,
     0xb75b, 0xa77a, 0x9719, 0x8738, 0xf7df, 0xe7fe, 0xd79d, 0xc7bc,
     0x48c4, 0x58e5, 0x6886, 0x78a7, 0x0840, 0x1861, 0x2802, 0x3823,
     0xc9cc, 0xd9ed, 0xe98e, 0xf9af, 0x8948, 0x9969, 0xa90a, 0xb92b,
     0x5af5, 0x4ad4, 0x7ab7, 0x6a96, 0x1a71, 0x0a50, 0x3a33, 0x2a12,
     0xdbfd, 0xcbdc, 0xfbbf, 0xeb9e, 0x9b79, 0x8b58, 0xbb3b, 0xab1a,
     0x6ca6, 0x7c87, 0x4ce4, 0x5cc5, 0x2c22, 0x3c03, 0x0c60, 0x1c41,
     0xedae, 0xfd8f, 0xcdec, 0xddcd, 0xad2a, 0xbd0b, 0x8d68, 0x9d49,
     0x7e97, 0x6eb6, 0x5ed5, 0x4ef4, 0x3e13, 0x2e32, 0x1e51, 0x0e70,
     0xff9f, 0xefbe, 0xdfdd, 0xcffc, 0xbf1b, 0xaf3a, 0x9f59, 0x8f78,
     0x9188, 0x81a9, 0xb1ca, 0xa1eb, 0xd10c, 0xc12d, 0xf14e, 0xe16f,
     0x1080, 0x00a1, 0x30c2, 0x20e3, 0x5004, 0x4025, 0x7046, 0x6067,
     0x83b9, 0x9398, 0xa3fb, 0xb3da, 0xc33d, 0xd31c, 0xe37f, 0xf35e,
     0x02b1, 0x1290, 0x22f3, 0x32d2, 0x4235, 0x5214, 0x6277, 0x7256,
     0xb5ea, 0xa5cb, 0x95a8, 0x8589, 0xf56e, 0xe54f, 0xd52c, 0xc50d,
     0x34e2, 0x24c3, 0x14a0, 0x0481, 0x7466, 0x6447, 0x5424, 0x4405,
     0xa7db, 0xb7fa, 0x8799, 0x97b8, 0xe75f, 0xf77e, 0xc71d, 0xd73c,
     0x26d3, 0x36f2, 0x0691, 0x16b0, 0x6657, 0x7676, 0x4615, 0x5634,
     0xd94c, 0xc96d, 0xf90e, 0xe92f, 0x99c8, 0x89e9, 0xb98a, 0xa9ab,
     0x5844, 0x4865, 0x7806, 0x6827, 0x18c0, 0x08e1, 0x3882, 0x28a3,
     0xcb7d, 0xdb5c, 0xeb3f, 0xfb1e, 0x8bf9, 0x9bd8, 0xabbb, 0xbb9a,
     0x4a75, 0x5a54, 0x6a37, 0x7a16, 0x0af1, 0x1ad0, 0x2ab3, 0x3a92,
     0xfd2e, 0xed0f, 0xdd6c, 0xcd4d, 0xbdaa, 0xad8b, 0x9de8, 0x8dc9,
     0x7c26, 0x6c07, 0x5c64, 0x4c45, 0x3ca2, 0x2c83, 0x1ce0, 0x0cc1,
     0xef1f, 0xff3e, 0xcf5d, 0xdf7c, 0xaf9b, 0xbfba, 0x8fd9, 0x9ff8,
     0x6e17, 0x7e36, 0x4e55, 0x5e74, 0x2e93, 0x3eb2, 0x0ed1, 0x1ef0]"

text \<open>One iteration of the loops of \<open>crc_16bits_compute\<close> and \<open>crc_16bits_update\<close>.\<close>

definition crc_step :: "u16 \<Rightarrow> u8 \<Rightarrow> u16" where
  "crc_step crc b =
     (let dat = ucast (drop_bit 8 crc) :: u8;
          crc = push_bit 8 crc
      in crc XOR crc_table ! unat (dat XOR b))"

fun crc_loop :: "u16 \<Rightarrow> bytes \<Rightarrow> nat \<Rightarrow> u16 option" where
  "crc_loop crc ptr 0 = Some crc"
| "crc_loop crc ptr (Suc n) =
     (case ptr of [] \<Rightarrow> None | b # rest \<Rightarrow> crc_loop (crc_step crc b) rest n)"

definition crc_16bits_compute :: "bytes \<Rightarrow> u32 \<Rightarrow> u16 option" where
  "crc_16bits_compute ptr len = crc_loop 0 ptr (unat len)"

definition crc_16bits_update :: "u16 \<Rightarrow> bytes \<Rightarrow> u32 \<Rightarrow> u16 option" where
  "crc_16bits_update init ptr len = crc_loop init ptr (unat len)"

subsection \<open>The bit-serial reference\<close>

text \<open>One shift of the register, and the eight shifts that consume a byte.\<close>

definition crc_bit :: "u16 \<Rightarrow> u16" where
  "crc_bit c = (if bit c 15 then push_bit 1 c XOR 0x1021 else push_bit 1 c)"

definition crc_bit8 :: "u16 \<Rightarrow> u16" where
  "crc_bit8 c = crc_bit (crc_bit (crc_bit (crc_bit (crc_bit (crc_bit (crc_bit (crc_bit c)))))))"

definition crc_ref_byte :: "u16 \<Rightarrow> u8 \<Rightarrow> u16" where
  "crc_ref_byte c b = crc_bit8 (c XOR push_bit 8 (ucast b))"

lemma length_crc_table: "length crc_table = 256"
  by (simp add: crc_table_def)

lemma crc_table_reference:
  "map (\<lambda>i. crc_bit8 (push_bit 8 (word_of_nat i))) [0..<256] = crc_table"
  by (simp add: upt_rec crc_table_def) (simp add: crc_bit8_def crc_bit_def)

lemma crc_table_nth: "crc_table ! unat (i :: u8) = crc_bit8 (push_bit 8 (ucast i))"
proof -
  have "crc_table ! unat i = crc_bit8 (push_bit 8 (word_of_nat (unat i)))"
    unfolding crc_table_reference [symmetric] using unat_lt8 [of i] by simp
  then show ?thesis by simp
qed

lemma crc_bit_xor: "crc_bit (a XOR b) = crc_bit a XOR crc_bit b"
  by (auto simp: crc_bit_def bit_xor_iff push_bit_xor ac_simps)

lemma crc_bit8_xor: "crc_bit8 (a XOR b) = crc_bit8 a XOR crc_bit8 b"
  by (simp add: crc_bit8_def crc_bit_xor)

text \<open>Eight shifts of a register whose upper byte is 0 never meet a set top bit.\<close>

lemma crc_bit8_low:
  assumes "\<And>n. 8 \<le> n \<Longrightarrow> \<not> bit c n"
  shows "crc_bit8 c = push_bit 8 c"
proof -
  have "crc_bit (push_bit k c) = push_bit (Suc k) c" if "k < 8" for k
    using assms [of "15 - k"] that by (simp add: crc_bit_def bit_push_bit_iff)
  from this [of 0] this [of 1] this [of 2] this [of 3] this [of 4] this [of 5] this [of 6] this [of 7]
  show ?thesis by (simp add: crc_bit8_def numeral_eq_Suc)
qed

lemma split_crc: "(c :: u16) = take_bit 8 c XOR push_bit 8 (ucast (ucast (drop_bit 8 c) :: u8))"
  by (rule bit_eqI) (auto simp: bit_simps)

text \<open>The table-driven step equals the bit-serial one.\<close>

lemma crc_step_eq_ref: "crc_step c b = crc_ref_byte c b"
proof -
  let ?hi = "ucast (drop_bit 8 c) :: u8" and ?lo = "take_bit 8 c :: u16"
  have "c XOR push_bit 8 (ucast b) = ?lo XOR push_bit 8 (ucast (?hi XOR b))"
    by (rule bit_eqI) (auto simp: bit_simps)
  then have "crc_ref_byte c b = crc_bit8 ?lo XOR crc_bit8 (push_bit 8 (ucast (?hi XOR b)))"
    by (simp add: crc_ref_byte_def crc_bit8_xor)
  also have "crc_bit8 ?lo = push_bit 8 ?lo"
    by (rule crc_bit8_low) (simp add: bit_take_bit_iff)
  also have "push_bit 8 ?lo = push_bit 8 c"
    by (rule bit_eqI) (auto simp: bit_simps)
  finally show ?thesis by (simp add: crc_step_def Let_def crc_table_nth)
qed

subsection \<open>Running checksums\<close>

lemma crc_loop_foldl:
  "n \<le> length ptr \<Longrightarrow> crc_loop c ptr n = Some (foldl crc_step c (take n ptr))"
proof (induction n arbitrary: c ptr)
  case (Suc n)
  then show ?case by (cases ptr) auto
qed simp

lemma crc_loop_short: "length ptr < n \<Longrightarrow> crc_loop c ptr n = None"
proof (induction n arbitrary: c ptr)
  case (Suc n)
  then show ?case by (cases ptr) auto
qed simp

text \<open>A call that passes a whole array of bytes.\<close>

definition crc_update_bytes :: "u16 \<Rightarrow> bytes \<Rightarrow> u16 option" where
  "crc_update_bytes c xs = crc_16bits_update c xs (word_of_nat (length xs))"

lemma crc_update_bytes_eq:
  "length xs < 2 ^ 32 \<Longrightarrow> crc_update_bytes c xs = Some (foldl crc_step c xs)"
  by (simp add: crc_update_bytes_def crc_16bits_update_def crc_loop_foldl unat_of_nat)

interpretation crc: message_digest "\<lambda>s xs. s = foldl crc_step init xs"
    "\<lambda>xs. True" "\<lambda>xs. length xs < 2 ^ 32" crc_update_bytes "\<lambda>s. s" "foldl crc_step init" for init
  by unfold_locales (auto simp: crc_update_bytes_eq)

subsection \<open>Error detection\<close>

text \<open>The lower byte of a table entry determines its index.\<close>

lemma crc_table_low_nonzero: "\<forall>v\<in>set (tl crc_table). take_bit 8 v \<noteq> 0"
  by (simp add: crc_table_def)

lemma crc_bit8_low_zero:
  assumes "take_bit 8 (crc_bit8 (push_bit 8 (ucast (i :: u8)))) = 0"
  shows "i = 0"
proof (rule ccontr)
  assume "i \<noteq> 0"
  then obtain k where k: "unat i = Suc k" using unat_eq_0 [of i] by (cases "unat i") auto
  then have "k < length (tl crc_table)" using unat_lt8 [of i] by (simp add: length_crc_table)
  then have "tl crc_table ! k \<in> set (tl crc_table)" by simp
  moreover have "tl crc_table ! k = crc_table ! unat i"
    using \<open>k < length (tl crc_table)\<close> by (simp add: nth_tl k)
  ultimately show False
    using crc_table_low_nonzero assms by (simp add: crc_table_nth)
qed

lemma low_inj:
  assumes "take_bit 8 (crc_table ! unat (i :: u8)) = take_bit 8 (crc_table ! unat j)"
  shows "i = j"
proof -
  have "take_bit 8 (crc_table ! unat i XOR crc_table ! unat j) = 0"
    using assms by (simp add: take_bit_xor)
  then have "take_bit 8 (crc_bit8 (push_bit 8 (ucast (i XOR j)))) = 0"
    by (simp add: crc_table_nth unsigned_xor_eq push_bit_xor flip: crc_bit8_xor)
  then have "i XOR j = 0" by (rule crc_bit8_low_zero)
  then show ?thesis by (metis xor.assoc xor_self_eq xor.left_neutral)
qed

lemma push8_low: "take_bit 8 (push_bit 8 (s :: u16)) = 0"
  by (rule bit_eqI) (auto simp: bit_simps)

lemma push8_eqD:
  assumes "push_bit 8 (s :: u16) = push_bit 8 t"
  shows "take_bit 8 s = take_bit 8 t"
proof -
  have "take_bit 8 x = drop_bit 8 (push_bit 8 x)" for x :: u16
    by (rule bit_eqI) (auto simp: bit_simps)
  then show ?thesis using assms by simp
qed

lemma crc_step_eqD:
  assumes "crc_step s x = crc_step t y"
  shows "(ucast (drop_bit 8 s) :: u8) XOR x = ucast (drop_bit 8 t) XOR y"
    and "take_bit 8 s = take_bit 8 t"
proof -
  have low: "take_bit 8 (crc_step s x) = take_bit 8 (crc_table ! unat (ucast (drop_bit 8 s) XOR x))" for s x
    by (simp add: crc_step_def Let_def take_bit_xor push8_low)
  show i: "(ucast (drop_bit 8 s) :: u8) XOR x = ucast (drop_bit 8 t) XOR y"
    by (rule low_inj) (use assms low [of s x] low [of t y] in simp)
  have "push_bit 8 s = push_bit 8 t"
    using assms unfolding crc_step_def Let_def i xor_cancel .
  then show "take_bit 8 s = take_bit 8 t" by (rule push8_eqD)
qed

lemma crc_step_inj_state:
  assumes "crc_step s x = crc_step t x" shows "s = t"
proof -
  from crc_step_eqD [OF assms] have "(ucast (drop_bit 8 s) :: u8) = ucast (drop_bit 8 t)"
    and "take_bit 8 s = take_bit 8 t" by (simp_all add: xor_cancel)
  then show ?thesis by (metis split_crc)
qed

lemma foldl_crc_inj: "foldl crc_step s xs = foldl crc_step t xs \<Longrightarrow> s = t"
  by (induction xs arbitrary: s t) (auto dest: crc_step_inj_state)

lemma crc_two_bytes:
  assumes "crc_step (crc_step c x) y = crc_step (crc_step c x') y'"
  shows "x = x' \<and> y = y'"
proof -
  have "take_bit 8 (crc_step c x) = take_bit 8 (crc_step c x')"
    using crc_step_eqD(2) [OF assms] .
  then have "take_bit 8 (crc_table ! unat (ucast (drop_bit 8 c) XOR x)) =
             take_bit 8 (crc_table ! unat (ucast (drop_bit 8 c) XOR x'))"
    by (simp add: crc_step_def Let_def take_bit_xor push8_low)
  then have "x = x'" by (metis low_inj xor_cancel_left)
  then show ?thesis using crc_step_eqD(1) [OF assms] by (simp add: xor_cancel_left)
qed

text \<open>Feeding the register its own two bytes, upper byte first, clears it.\<close>

lemma crc_step_self: "crc_step c (ucast (drop_bit 8 c)) = push_bit 8 c"
  by (simp add: crc_step_def Let_def crc_table_def)

lemma crc_self_zero: "crc_step (crc_step c (ucast (drop_bit 8 c))) (ucast c) = 0"
proof -
  have "ucast (drop_bit 8 (push_bit 8 c)) = (ucast c :: u8)"
    by (rule bit_eqI) (auto simp: bit_simps)
  then have "crc_step (push_bit 8 c) (ucast c) = push_bit 8 (push_bit 8 c)"
    by (metis crc_step_self)
  also have "\<dots> = 0" by (rule bit_eqI) (auto simp: bit_simps)
  finally show ?thesis by (simp add: crc_step_self)
qed

subsection \<open>Properties of the checksum routines\<close>

lemma crc_update_full:
  "unat len = length xs \<Longrightarrow> crc_16bits_update init (xs @ rest) len = Some (foldl crc_step init xs)"
  by (simp add: crc_16bits_update_def crc_loop_foldl)

lemma crc_compute_full:
  "unat len = length xs \<Longrightarrow> crc_16bits_compute (xs @ rest) len = Some (foldl crc_step 0 xs)"
  by (simp add: crc_16bits_compute_def crc_loop_foldl)

text \<open>
  C23. For every start value, every array and every length the table-driven routines compute
  exactly the bit-serial CRC (polynomial 0x1021, most significant bit first) of the first \<open>len\<close>
  bytes if the array is that long and read out of bounds otherwise; \<open>crc_16bits_compute\<close> is
  \<open>crc_16bits_update\<close> started at 0.
\<close>

theorem crc_is_bit_serial:
  "crc_16bits_update init ptr len =
     (if unat len \<le> length ptr then Some (foldl crc_ref_byte init (take (unat len) ptr)) else None)
   \<and> crc_16bits_compute ptr len = crc_16bits_update 0 ptr len"
proof -
  have "crc_step = crc_ref_byte" by (intro ext) (rule crc_step_eq_ref)
  then show ?thesis
    using crc_loop_foldl [of "unat len" ptr init] crc_loop_short [of ptr "unat len" init]
    by (simp add: crc_16bits_update_def crc_16bits_compute_def)
qed

text \<open>
  A message shorter than 4 GiB may be cut into pieces in any way and fed piece by piece to
  \<open>crc_16bits_update\<close>, starting from 0: the result is \<open>crc_16bits_compute\<close> of the whole message.
\<close>

theorem crc_piecewise:
  assumes "length (concat pieces) < 2 ^ 32"
  shows "feed_all crc_update_bytes 0 pieces =
         crc_16bits_compute (concat pieces) (word_of_nat (length (concat pieces)))"
proof -
  have "length p \<le> length (concat pieces)" if "p \<in> set pieces" for p
    using that by (induction pieces) auto
  with assms have "list_all (\<lambda>xs. length xs < 2 ^ 32) pieces"
    by (auto simp: list_all_iff intro: le_less_trans simp del: length_concat)
  from crc.chunking_irrelevant [of 0 0 pieces, OF _ TrueI this] have
    "feed_all crc_update_bytes 0 pieces = Some (foldl crc_step 0 (concat pieces))" by auto
  also have "\<dots> = crc_16bits_compute (concat pieces @ []) (word_of_nat (length (concat pieces)))"
    using assms by (intro crc_compute_full [symmetric]) (simp add: unat_of_nat del: length_concat)
  finally show ?thesis by simp
qed

theorem crc_piecewise_witness:
  "feed_all crc_update_bytes 0 [[0x31, 0x32], [], [0x33]] =
   crc_16bits_compute (concat [[0x31, 0x32], [], [0x33]])
     (word_of_nat (length (concat [[0x31, 0x32], [], [0x33 :: u8]])))"
  by (rule crc_piecewise) simp

text \<open>
  The receiver's check: if \<open>c\<close> is the checksum of a message, then the message followed by the
  two bytes of \<open>c\<close>, upper byte first, has checksum 0; and no other pair of trailing bytes passes.
\<close>

theorem crc_append_check:
  assumes "crc_16bits_compute xs n = Some c" "unat n = length xs" "unat m = length xs + 2"
  shows "crc_16bits_compute (xs @ [hi, lo]) m = Some 0 \<longleftrightarrow>
         hi = ucast (drop_bit 8 c) \<and> lo = ucast c"
proof -
  from assms(1,2) crc_compute_full [of n xs "[]"] have c: "c = foldl crc_step 0 xs" by simp
  have "crc_16bits_compute ((xs @ [hi, lo]) @ []) m = Some (crc_step (crc_step c hi) lo)"
    using assms(3) c by (subst crc_compute_full) auto
  moreover have "crc_step (crc_step c hi) lo = 0 \<longleftrightarrow> hi = ucast (drop_bit 8 c) \<and> lo = ucast c"
    using crc_self_zero [of c] crc_two_bytes [of c hi lo "ucast (drop_bit 8 c)" "ucast c"] by auto
  ultimately show ?thesis by simp
qed

theorem crc_append_check_witness:
  "crc_16bits_compute ([0x31] @ [0x26, 0x72]) 3 = Some 0 \<longleftrightarrow>
   (0x26 :: u8) = ucast (drop_bit 8 (0x2672 :: u16)) \<and> (0x72 :: u8) = ucast (0x2672 :: u16)"
  by (rule crc_append_check [of "[0x31]" 1])
     (simp_all add: crc_16bits_compute_def numeral_eq_Suc [of num.One] crc_step_def crc_table_def)

text \<open>
  Error detection: two messages of the same length that differ only inside two neighbouring
  bytes (so in particular by any burst of up to 9 bits) have different checksums, whatever the
  start value.
\<close>

theorem crc_detects_two_bytes:
  assumes "unat n = length (pre @ [x, y] @ post)" and "(x, y) \<noteq> (x', y')"
  shows "crc_16bits_update init (pre @ [x, y] @ post) n \<noteq>
         crc_16bits_update init (pre @ [x', y'] @ post) n"
proof
  assume eq: "crc_16bits_update init (pre @ [x, y] @ post) n =
    crc_16bits_update init (pre @ [x', y'] @ post) n"
  let ?c = "foldl crc_step init pre"
  from assms(1) eq have "foldl crc_step (crc_step (crc_step ?c x) y) post =
      foldl crc_step (crc_step (crc_step ?c x') y') post"
    using crc_update_full [of n "pre @ [x, y] @ post" init "[]"]
      crc_update_full [of n "pre @ [x', y'] @ post" init "[]"] by simp
  then have "crc_step (crc_step ?c x) y = crc_step (crc_step ?c x') y'" by (rule foldl_crc_inj)
  then have "x = x' \<and> y = y'" by (rule crc_two_bytes)
  with assms(2) show False by simp
qed

theorem crc_detects_two_bytes_witness:
  "crc_16bits_update 7 ([1] @ [2, 3] @ [4]) 4 \<noteq> crc_16bits_update 7 ([1] @ [3, 2] @ [4]) 4"
  by (rule crc_detects_two_bytes) simp_all

end
