(* ===== verification/Speck64.thy ===== *)
theory Speck64
  imports Interfaces
begin

text \<open>
  The block cipher Speck64/96 of \<open>src/speck.c\<close>. Pointers are byte arrays with an offset, loads and
  stores are bounds checked; the two local words that the C code passes by reference to
  \<open>speck64_round\<close> are a pair. The shift amounts of \<open>rol32\<close> and \<open>ror32\<close> are 3 and 8 at every call,
  inside the range 1..31 where the C shifts are defined and where both are rotations.
\<close>

subsection \<open>The cipher\<close>

definition SPECK64_96_NROUNDS :: nat where
  "SPECK64_96_NROUNDS = 26"

record speck64_t =
  round_keys :: "u32 list"

definition rol32 :: "u32 \<Rightarrow> u8 \<Rightarrow> u32" where
  "rol32 w shift = push_bit (unat shift) w OR drop_bit (unat ((- shift) AND 31)) w"

definition ror32 :: "u32 \<Rightarrow> u8 \<Rightarrow> u32" where
  "ror32 w shift = drop_bit (unat shift) w OR push_bit (32 - unat shift) w"

definition get_unaligned_le32 :: "bytes \<Rightarrow> nat \<Rightarrow> u32 option" where
  "get_unaligned_le32 p off = do {
     p0 \<leftarrow> mem_load p off;
     p1 \<leftarrow> mem_load p (off + 1);
     p2 \<leftarrow> mem_load p (off + 2);
     p3 \<leftarrow> mem_load p (off + 3);
     Some (ucast p0 OR push_bit 8 (ucast p1) OR push_bit 16 (ucast p2) OR push_bit 24 (ucast p3)) }"

definition put_unaligned_le32 :: "u32 \<Rightarrow> bytes \<Rightarrow> nat \<Rightarrow> bytes option" where
  "put_unaligned_le32 val p off = do {
     p \<leftarrow> mem_store p off (ucast (val AND 0xff));
     p \<leftarrow> mem_store p (off + 1) (ucast (drop_bit 8 val AND 0xff));
     p \<leftarrow> mem_store p (off + 2) (ucast (drop_bit 16 val AND 0xff));
     mem_store p (off + 3) (ucast (drop_bit 24 val)) }"

definition speck64_round :: "u32 \<times> u32 \<Rightarrow> u32 \<Rightarrow> u32 \<times> u32" where
  "speck64_round xy k =
     (let (x, y) = xy;
          x = ror32 x 8;
          x = x + y;
          x = x XOR k;
          y = rol32 y 3;
          y = y XOR x
      in (x, y))"

definition speck64_unround :: "u32 \<times> u32 \<Rightarrow> u32 \<Rightarrow> u32 \<times> u32" where
  "speck64_unround xy k =
     (let (x, y) = xy;
          y = y XOR x;
          y = ror32 y 3;
          x = x XOR k;
          x = x - y;
          x = rol32 x 8
      in (x, y))"

text \<open>The two loops of \<open>crypto_speck64_cal\<close>: \<open>i\<close> counts up from 0, and down from 25 while it is not
  negative (here \<open>Suc i\<close> is the counter plus one).\<close>

function speck64_enc_loop :: "u32 list \<Rightarrow> nat \<Rightarrow> u32 \<times> u32 \<Rightarrow> (u32 \<times> u32) option" where
  "speck64_enc_loop keys i xy =
     (if i < SPECK64_96_NROUNDS then do {
        k \<leftarrow> mem_load keys i;
        speck64_enc_loop keys (i + 1) (speck64_round xy k) }
      else Some xy)"
  by pat_completeness auto
termination by (relation "measure (\<lambda>(_, i, _). SPECK64_96_NROUNDS - i)") auto

declare speck64_enc_loop.simps [simp del]

fun speck64_dec_loop :: "u32 list \<Rightarrow> nat \<Rightarrow> u32 \<times> u32 \<Rightarrow> (u32 \<times> u32) option" where
  "speck64_dec_loop keys 0 xy = Some xy"
| "speck64_dec_loop keys (Suc i) xy = do {
     k \<leftarrow> mem_load keys i;
     speck64_dec_loop keys i (speck64_unround xy k) }"

definition crypto_speck64_cal :: "speck64_t \<Rightarrow> bool \<Rightarrow> bytes \<Rightarrow> bytes \<Rightarrow> bytes option" where
  "crypto_speck64_cal ctx is_encrypt out inp = do {
     y \<leftarrow> get_unaligned_le32 inp 0;
     x \<leftarrow> get_unaligned_le32 inp 4;
     xy \<leftarrow> (if is_encrypt then speck64_enc_loop (round_keys ctx) 0 (x, y)
           else speck64_dec_loop (round_keys ctx) SPECK64_96_NROUNDS (x, y));
     out \<leftarrow> put_unaligned_le32 (snd xy) out 0;
     put_unaligned_le32 (fst xy) out 4 }"

function speck64_key_loop :: "u32 list \<Rightarrow> u32 list \<Rightarrow> u32 \<Rightarrow> nat \<Rightarrow> u32 list option" where
  "speck64_key_loop keys l k i =
     (if i < SPECK64_96_NROUNDS then do {
        keys \<leftarrow> mem_store keys i k;
        x \<leftarrow> mem_load l (i mod 2);
        let (x, k) = speck64_round (x, k) (word_of_nat i);
        l \<leftarrow> mem_store l (i mod 2) x;
        speck64_key_loop keys l k (i + 1) }
      else Some keys)"
  by pat_completeness auto
termination by (relation "measure (\<lambda>(_, _, _, i). SPECK64_96_NROUNDS - i)") auto

declare speck64_key_loop.simps [simp del]

definition crypto_speck64_setkey :: "speck64_t \<Rightarrow> bytes \<Rightarrow> speck64_t option" where
  "crypto_speck64_setkey ctx key = do {
     k \<leftarrow> get_unaligned_le32 key 0;
     l0 \<leftarrow> get_unaligned_le32 key 4;
     l1 \<leftarrow> get_unaligned_le32 key 8;
     keys \<leftarrow> speck64_key_loop (round_keys ctx) [l0, l1] k 0;
     Some (ctx\<lparr>round_keys := keys\<rparr>) }"

subsection \<open>Rotations\<close>

lemma rol32_rotl: "rol32 w 3 = word_rotl 3 w" "rol32 w 8 = word_rotl 8 w"
  using push_drop_rotl [of 3 w] push_drop_rotl [of 8 w] by (simp_all add: rol32_def)

lemma ror32_rotr: "ror32 w 3 = word_rotr 3 w" "ror32 w 8 = word_rotr 8 w"
  using drop_push_rotr [of 3 w] drop_push_rotr [of 8 w] by (simp_all add: ror32_def)

lemmas rotations = rol32_rotl ror32_rotr

lemma speck64_unround_round: "speck64_unround (speck64_round xy k) k = xy"
  by (simp add: speck64_unround_def speck64_round_def Let_def rotations xor.assoc split: prod.splits)

lemma speck64_round_unround: "speck64_round (speck64_unround xy k) k = xy"
  by (simp add: speck64_unround_def speck64_round_def Let_def rotations xor.assoc split: prod.splits)

interpretation speck: round_cipher speck64_round speck64_unround
  by unfold_locales (rule speck64_unround_round speck64_round_unround)+

subsection \<open>Little-endian words in memory\<close>

lemma get_unaligned_le32_nth:
  "off + 4 \<le> length p \<Longrightarrow> get_unaligned_le32 p off =
     Some (le32_word (p ! off) (p ! (off + 1)) (p ! (off + 2)) (p ! (off + 3)))"
  by (simp add: get_unaligned_le32_def le32_word_def mem_simps)

lemma ucast_and_ff: "(ucast (v AND 0xff :: u32) :: u8) = ucast v"
proof -
  have "v AND 0xff = take_bit 8 v" by (simp add: take_bit_eq_mask mask_eq_exp_minus_1)
  then show ?thesis by (simp add: bit_eqI bit_simps)
qed

lemma four_stores:
  "off + 4 \<le> length p \<Longrightarrow> p[off := a, off + 1 := b, off + 2 := c, off + 3 := d] =
     take off p @ [a, b, c, d] @ drop (off + 4) p"
  by (rule nth_equalityI) (auto simp: nth_list_update nth_append nth_Cons' min_def)

lemma put_unaligned_le32_eq:
  "off + 4 \<le> length p \<Longrightarrow>
   put_unaligned_le32 v p off = Some (take off p @ le32_bytes v @ drop (off + 4) p)"
  using four_stores [of off p]
  by (simp add: put_unaligned_le32_def le32_bytes_def mem_simps ucast_and_ff)

lemma put_unaligned_le32_None:
  "length p < off + 4 \<Longrightarrow> put_unaligned_le32 v p off = None"
  by (auto simp: put_unaligned_le32_def mem_store_def bind_eq_None_conv split: if_splits)

subsection \<open>The loops as folds\<close>

lemma speck64_enc_loop_foldl:
  assumes "length keys = SPECK64_96_NROUNDS" "i \<le> SPECK64_96_NROUNDS"
  shows "speck64_enc_loop keys i xy = Some (foldl speck64_round xy (drop i keys))"
  using assms
proof (induction keys i xy rule: speck64_enc_loop.induct)
  case (1 keys i xy)
  show ?case
  proof (cases "i < SPECK64_96_NROUNDS")
    case True
    with 1 show ?thesis
      by (subst speck64_enc_loop.simps) (simp add: mem_simps Cons_nth_drop_Suc [symmetric])
  next
    case False
    with 1 show ?thesis by (subst speck64_enc_loop.simps) simp
  qed
qed

lemma speck64_dec_loop_foldl:
  "i \<le> length keys \<Longrightarrow>
   speck64_dec_loop keys i xy = Some (foldl speck64_unround xy (rev (take i keys)))"
  by (induction i arbitrary: xy) (simp_all add: mem_simps take_Suc_conv_app_nth)

subsection \<open>Encryption and decryption\<close>

definition speck_block :: "u32 \<times> u32 \<Rightarrow> bytes" where
  "speck_block xy = le32_bytes (snd xy) @ le32_bytes (fst xy)"

definition speck_words :: "bytes \<Rightarrow> u32 \<times> u32" where
  "speck_words p = (le32_word (p ! 4) (p ! 5) (p ! 6) (p ! 7), le32_word (p ! 0) (p ! 1) (p ! 2) (p ! 3))"

lemma speck_words_block: "speck_words (speck_block xy @ rest) = xy"
  by (simp add: speck_words_def speck_block_def le32_bytes_def le32_word_bytes)

lemma speck_block_words: "8 \<le> length p \<Longrightarrow> speck_block (speck_words p) = take 8 p"
  by (rule nth_equalityI)
     (auto simp: speck_block_def speck_words_def le32_bytes_word nth_Cons' less_Suc_eq numeral_eq_Suc)

lemma length_speck_block [simp]: "length (speck_block xy) = 8"
  by (simp add: speck_block_def)

lemma crypto_speck64_cal_eq:
  assumes "length (round_keys ctx) = SPECK64_96_NROUNDS" "8 \<le> length inp" "8 \<le> length out"
  shows "crypto_speck64_cal ctx e out inp = Some (speck_block
    (if e then foldl speck64_round (speck_words inp) (round_keys ctx)
     else foldl speck64_unround (speck_words inp) (rev (round_keys ctx))) @ drop 8 out)"
  using assms
  by (simp add: crypto_speck64_cal_def get_unaligned_le32_nth put_unaligned_le32_eq speck_block_def
      speck64_enc_loop_foldl speck64_dec_loop_foldl speck_words_def numeral_2_eq_2)

subsection \<open>The key schedule\<close>

text \<open>The published recurrence of the round keys \<open>k\<^sub>i\<close> and the auxiliary words \<open>l\<^sub>i\<close>.\<close>

fun speck_k :: "u32 \<Rightarrow> u32 \<Rightarrow> u32 \<Rightarrow> nat \<Rightarrow> u32"
  and speck_l :: "u32 \<Rightarrow> u32 \<Rightarrow> u32 \<Rightarrow> nat \<Rightarrow> u32" where
  "speck_k k0 l0 l1 0 = k0"
| "speck_k k0 l0 l1 (Suc i) = word_rotl 3 (speck_k k0 l0 l1 i) XOR
     ((speck_k k0 l0 l1 i + word_rotr 8 (speck_l k0 l0 l1 i)) XOR word_of_nat i)"
| "speck_l k0 l0 l1 0 = l0"
| "speck_l k0 l0 l1 (Suc 0) = l1"
| "speck_l k0 l0 l1 (Suc (Suc i)) =
     (speck_k k0 l0 l1 i + word_rotr 8 (speck_l k0 l0 l1 i)) XOR word_of_nat i"

lemma speck64_round_schedule:
  "speck64_round (speck_l k0 l0 l1 i, speck_k k0 l0 l1 i) (word_of_nat i) =
     (speck_l k0 l0 l1 (Suc (Suc i)), speck_k k0 l0 l1 (Suc i))"
  by (simp add: speck64_round_def Let_def rotations add.commute)

lemma speck64_key_loop_schedule:
  assumes "length keys = SPECK64_96_NROUNDS" "i \<le> SPECK64_96_NROUNDS"
    and "take i keys = map (speck_k k0 l0 l1) [0..<i]"
    and "length l = 2" "l ! (i mod 2) = speck_l k0 l0 l1 i" "l ! (Suc i mod 2) = speck_l k0 l0 l1 (Suc i)"
    and "k = speck_k k0 l0 l1 i"
  shows "speck64_key_loop keys l k i = Some (map (speck_k k0 l0 l1) [0..<SPECK64_96_NROUNDS])"
  using assms
proof (induction keys l k i rule: speck64_key_loop.induct)
  case (1 keys l k i)
  show ?case
  proof (cases "i < SPECK64_96_NROUNDS")
    case False
    with 1 show ?thesis by (subst speck64_key_loop.simps) simp
  next
    case True
    let ?l = "l[i mod 2 := speck_l k0 l0 l1 (Suc (Suc i))]" and ?keys = "keys[i := k]"
    have p: "i mod 2 \<noteq> Suc i mod 2" "i mod 2 < 2" "Suc (Suc i) mod 2 = i mod 2" by presburger+
    have "take (Suc i) ?keys = map (speck_k k0 l0 l1) [0..<Suc i]"
      using 1 True by (simp add: take_Suc_conv_app_nth del: speck_k.simps)
    then have "speck64_key_loop ?keys ?l (speck_k k0 l0 l1 (Suc i)) (i + 1) =
        Some (map (speck_k k0 l0 l1) [0..<SPECK64_96_NROUNDS])"
      using 1 True p by (intro "1.IH" [OF True]) 
        (auto simp: mem_simps speck64_round_schedule simp del: speck_k.simps speck_l.simps)
    then show ?thesis
      using 1 True p(2) by (subst speck64_key_loop.simps)
        (simp add: mem_simps speck64_round_schedule del: speck_k.simps speck_l.simps)
  qed
qed

subsection \<open>The published test vector\<close>

lemma speck64_key_loop_step:
  assumes "i < SPECK64_96_NROUNDS" "length keys = SPECK64_96_NROUNDS" "length l = 2"
    and "speck64_round (l ! (i mod 2), k) (word_of_nat i) = r"
  shows "speck64_key_loop keys l k i =
     speck64_key_loop (keys[i := k]) (l[i mod 2 := fst r]) (snd r) (i + 1)"
  using assms by (subst speck64_key_loop.simps) (simp add: mem_simps Let_def split: prod.splits)

lemma speck64_key_loop_done:
  "SPECK64_96_NROUNDS \<le> i \<Longrightarrow> speck64_key_loop keys l k i = Some keys"
  by (subst speck64_key_loop.simps) simp

definition test_vector_keys :: "u32 list" where
  "test_vector_keys =
    [0x03020100, 0x131d0309, 0xbbd80d53, 0x1a2370c1, 0xe45d26dd, 0x63cb3f1c,
     0x27597d5a, 0x205175b4, 0xdb01db9f, 0x9812aac8, 0x16796373, 0xff72647b,
     0xccda7364, 0xd6f4b7c9, 0x2589bf5a, 0x39741c59, 0x85a6aa9c, 0x208eb076,
     0x71a9351e, 0x8eff59e3, 0x498ff996, 0x15ec7c21, 0x0f49104a, 0xd8ea21bc,
     0xdcdb415c, 0x2fa7e901]"

lemma length_test_vector_keys: "length test_vector_keys = SPECK64_96_NROUNDS"
  by (simp add: test_vector_keys_def SPECK64_96_NROUNDS_def)

text \<open>Evaluation on literals: \<open>take_bit 32\<close> keeps the intermediate numerals below \<open>2 ^ 32\<close>.\<close>

lemma speck64_round_eval:
  assumes "take_bit 32 ((drop_bit 8 x OR push_bit 24 x) + y) XOR k = x'"
    and "take_bit 32 (push_bit 3 y OR drop_bit 29 y) XOR x' = y'"
  shows "speck64_round (x, y) k = (x', y')"
  using assms by (simp add: speck64_round_def Let_def rol32_def ror32_def take_bit_word_eq_self)

lemma test_vector_schedule:
  "speck64_key_loop (replicate 26 0) [0x0b0a0908, 0x13121110] 0x03020100 0 = Some test_vector_keys"
  by (simp add: speck64_key_loop_step speck64_key_loop_done SPECK64_96_NROUNDS_def
      speck64_round_eval test_vector_keys_def)
     (simp add: numeral_eq_Suc replicate_Suc)

lemma test_vector_encrypt:
  "foldl speck64_round (0x74614620, 0x736e6165) test_vector_keys = (0x9f7952ec, 0x4175946c)"
  by (simp add: foldl_eval speck64_round_eval test_vector_keys_def del: foldl_Cons)

subsection \<open>Properties\<close>

text \<open>
  C26. Decryption undoes encryption and encryption undoes decryption, for every context with 26
  round keys and every block: both calls stay inside the arrays, write exactly the first eight
  bytes of the target, and the second call restores the block given to the first.
\<close>

theorem speck_cal_inverse:
  assumes "length (round_keys ctx) = SPECK64_96_NROUNDS"
    and "8 \<le> length inp" "8 \<le> length out" "8 \<le> length out'"
  shows "\<exists>c. crypto_speck64_cal ctx e out inp = Some c \<and> drop 8 c = drop 8 out
           \<and> crypto_speck64_cal ctx (\<not> e) out' c = Some (take 8 inp @ drop 8 out')"
  using assms
  by (cases e) (simp_all add: crypto_speck64_cal_eq speck_words_block speck.unrounds_rounds
    speck.rounds_unrounds speck_block_words)

theorem speck_cal_inverse_witness:
  "\<exists>c. crypto_speck64_cal \<lparr>round_keys = replicate 26 7\<rparr> True (replicate 9 0) [1, 2, 3, 4, 5, 6, 7, 8] = Some c
     \<and> drop 8 c = drop 8 (replicate 9 0)
     \<and> crypto_speck64_cal \<lparr>round_keys = replicate 26 7\<rparr> (\<not> True) (replicate 8 0) c
         = Some (take 8 [1, 2, 3, 4, 5, 6, 7, 8] @ drop 8 (replicate 8 0))"
  by (rule speck_cal_inverse) (simp_all add: SPECK64_96_NROUNDS_def)

text \<open>
  \<open>crypto_speck64_setkey\<close> computes the published key schedule: round key \<open>i\<close> is \<open>k\<^sub>i\<close> of the
  recurrence started from the three little-endian words of the 12-byte key, although the code
  keeps only two of the words \<open>l\<^sub>i\<close> at a time.
\<close>

theorem speck_setkey_schedule:
  assumes "length (round_keys ctx) = SPECK64_96_NROUNDS" "12 \<le> length key"
  shows "crypto_speck64_setkey ctx key = Some (ctx\<lparr>round_keys := map (speck_k
     (le32_word (key ! 0) (key ! 1) (key ! 2) (key ! 3))
     (le32_word (key ! 4) (key ! 5) (key ! 6) (key ! 7))
     (le32_word (key ! 8) (key ! 9) (key ! 10) (key ! 11))) [0..<SPECK64_96_NROUNDS]\<rparr>)"
  using assms
  by (simp add: crypto_speck64_setkey_def get_unaligned_le32_nth numeral_2_eq_2
      speck64_key_loop_schedule)

theorem speck_setkey_schedule_witness:
  "crypto_speck64_setkey \<lparr>round_keys = replicate 26 0\<rparr> [0, 1, 2, 3, 8, 9, 10, 11, 16, 17, 18, 19] =
   Some (\<lparr>round_keys = replicate 26 0\<rparr>\<lparr>round_keys := map (speck_k
     (le32_word ([0, 1, 2, 3, 8, 9, 10, 11, 16, 17, 18, 19] ! 0) ([0, 1, 2, 3, 8, 9, 10, 11, 16, 17, 18, 19] ! 1)
       ([0, 1, 2, 3, 8, 9, 10, 11, 16, 17, 18, 19] ! 2) ([0, 1, 2, 3, 8, 9, 10, 11, 16, 17, 18, 19] ! 3))
     (le32_word ([0, 1, 2, 3, 8, 9, 10, 11, 16, 17, 18, 19] ! 4) ([0, 1, 2, 3, 8, 9, 10, 11, 16, 17, 18, 19] ! 5)
       ([0, 1, 2, 3, 8, 9, 10, 11, 16, 17, 18, 19] ! 6) ([0, 1, 2, 3, 8, 9, 10, 11, 16, 17, 18, 19] ! 7))
     (le32_word ([0, 1, 2, 3, 8, 9, 10, 11, 16, 17, 18, 19] ! 8) ([0, 1, 2, 3, 8, 9, 10, 11, 16, 17, 18, 19] ! 9)
       ([0, 1, 2, 3, 8, 9, 10, 11, 16, 17, 18, 19] ! 10) ([0, 1, 2, 3, 8, 9, 10, 11, 16, 17, 18, 19] ! 11)))
     [0..<SPECK64_96_NROUNDS]\<rparr>)"
  by (rule speck_setkey_schedule) (simp_all add: SPECK64_96_NROUNDS_def)

text \<open>
  The published test vector of Speck64/96: with the key 13121110 0b0a0908 03020100 the plain
  text 74614620 736e6165 encrypts to 9f7952ec 4175946c (words of the publication; in memory all
  words are little-endian and the second word of a block comes first).
\<close>

theorem speck64_96_test_vector:
  "crypto_speck64_setkey \<lparr>round_keys = replicate 26 0\<rparr> [0, 1, 2, 3, 8, 9, 10, 11, 16, 17, 18, 19]
     \<bind> (\<lambda>ctx. crypto_speck64_cal ctx True (replicate 8 0)
               [0x65, 0x61, 0x6e, 0x73, 0x20, 0x46, 0x61, 0x74])
   = Some [0x6c, 0x94, 0x75, 0x41, 0xec, 0x52, 0x79, 0x9f]"
proof -
  let ?ctx = "\<lparr>round_keys = replicate 26 0\<rparr>" and ?key = "[0, 1, 2, 3, 8, 9, 10, 11, 16, 17, 18, 19]"
  have "crypto_speck64_setkey ?ctx ?key = Some \<lparr>round_keys = test_vector_keys\<rparr>"
    by (simp add: crypto_speck64_setkey_def get_unaligned_le32_nth le32_word_def test_vector_schedule)
  then show ?thesis
    by (simp add: crypto_speck64_cal_eq speck_words_def le32_word_def test_vector_encrypt
      speck_block_def le32_bytes_def length_test_vector_keys)
qed

end
