(* ===== verification/Base64.thy ===== *)
theory Base64
  imports Interfaces
begin

text \<open>
  The Base64 encoder and decoder of \<open>src/b64.c\<close>. \<open>b64_malloc\<close> and \<open>b64_realloc\<close> (macros for the
  allocator, which a build may replace) are parameters: they act on a heap state \<open>'h\<close> and return a
  block as the list of its bytes, or \<open>None\<close> for a null pointer. Uninitialised local arrays enter as
  arguments, so the theorems hold for every initial content. The outer \<open>option\<close> of a result is
  \<open>None\<close> for undefined behaviour (an access out of bounds or through a null pointer, or an
  overflow of the \<open>int\<close> index \<open>j\<close>); the inner one is \<open>None\<close> when the C function returns \<open>NULL\<close>.
\<close>

type_synonym 'h mallocT = "'h \<Rightarrow> nat \<Rightarrow> bytes option \<times> 'h"
type_synonym 'h reallocT = "'h \<Rightarrow> bytes \<Rightarrow> nat \<Rightarrow> bytes option \<times> 'h"

subsection \<open>Table and character classes\<close>

definition b64_table :: bytes where
  "b64_table = map (\<lambda>c. of_char c)
    (''ABCDEFGHIJKLMNOPQRSTUVWXYZ'' @ ''abcdefghijklmnopqrstuvwxyz'' @ ''0123456789+/'')"

text \<open>\<open>isalnum\<close> of the C locale.\<close>

definition isalnum :: "u8 \<Rightarrow> bool" where
  "isalnum c \<longleftrightarrow> 48 \<le> c \<and> c \<le> 57 \<or> 65 \<le> c \<and> c \<le> 90 \<or> 97 \<le> c \<and> c \<le> 122"

text \<open>The conditions of the two \<open>break\<close> statements of the decoder.\<close>

definition b64_stop :: "u8 \<Rightarrow> bool" where
  "b64_stop c \<longleftrightarrow> c = 0x3d \<or> \<not> (isalnum c \<or> c = 0x2b \<or> c = 0x2f)"

subsection \<open>Encoder\<close>

text \<open>The four indices computed from \<open>tmp\<close> (lines 171--174 and 198--201).\<close>

definition b64_enc_buf :: "bytes \<Rightarrow> bytes option" where
  "b64_enc_buf tmp = do {
     t0 \<leftarrow> mem_load tmp 0;
     t1 \<leftarrow> mem_load tmp 1;
     t2 \<leftarrow> mem_load tmp 2;
     Some [drop_bit 2 (t0 AND 0xfc),
           push_bit 4 (t0 AND 0x03) + drop_bit 4 (t1 AND 0xf0),
           push_bit 2 (t1 AND 0x0f) + drop_bit 6 (t2 AND 0xc0),
           t2 AND 0x3f] }"

text \<open>The loop \<open>enc[size++] = b64_table[buf[i]]\<close> for \<open>i\<close> from \<open>i\<close> with \<open>k\<close> iterations left.\<close>

fun b64_enc_write :: "bytes \<Rightarrow> nat \<Rightarrow> nat \<Rightarrow> bytes \<Rightarrow> nat \<Rightarrow> (bytes \<times> nat) option" where
  "b64_enc_write buf i 0 enc sz = Some (enc, sz)"
| "b64_enc_write buf i (Suc k) enc sz = do {
     b \<leftarrow> mem_load buf i;
     c \<leftarrow> mem_load b64_table (unat b);
     enc \<leftarrow> mem_store enc sz c;
     b64_enc_write buf (i + 1) k enc (sz + 1) }"

fun b64_enc_loop :: "'h reallocT \<Rightarrow> bytes \<Rightarrow> nat \<Rightarrow> nat \<Rightarrow> bytes \<Rightarrow> bytes \<Rightarrow> nat \<Rightarrow> 'h
    \<Rightarrow> (nat \<times> bytes \<times> bytes \<times> nat \<times> 'h) option" where
  "b64_enc_loop realloc src 0 i tmp enc sz h = Some (i, tmp, enc, sz, h)"
| "b64_enc_loop realloc src (Suc len) i tmp enc sz h = (case src of [] \<Rightarrow> None | c # src \<Rightarrow> do {
     tmp \<leftarrow> mem_store tmp i c;
     let i = i + 1;
     if i = 3 then do {
       buf \<leftarrow> b64_enc_buf tmp;
       let (p, h) = realloc h enc (sz + 4);
       enc \<leftarrow> p;
       (enc, sz) \<leftarrow> b64_enc_write buf 0 4 enc sz;
       b64_enc_loop realloc src len 0 tmp enc sz h }
     else b64_enc_loop realloc src len i tmp enc sz h })"

text \<open>Filling \<open>tmp\<close> with zeros from index \<open>j\<close>.\<close>

fun b64_zero_fill :: "bytes \<Rightarrow> nat \<Rightarrow> nat \<Rightarrow> bytes option" where
  "b64_zero_fill tmp j 0 = Some tmp"
| "b64_zero_fill tmp j (Suc k) = do { tmp \<leftarrow> mem_store tmp j 0; b64_zero_fill tmp (j + 1) k }"

text \<open>The two loops that write the remainder, growing the block by one byte each time.\<close>

fun b64_enc_rest :: "'h reallocT \<Rightarrow> bytes \<Rightarrow> nat \<Rightarrow> nat \<Rightarrow> bytes \<Rightarrow> nat \<Rightarrow> 'h \<Rightarrow> (bytes \<times> nat \<times> 'h) option" where
  "b64_enc_rest realloc buf j 0 enc sz h = Some (enc, sz, h)"
| "b64_enc_rest realloc buf j (Suc k) enc sz h = do {
     let (p, h) = realloc h enc (sz + 1);
     enc \<leftarrow> p;
     b \<leftarrow> mem_load buf j;
     c \<leftarrow> mem_load b64_table (unat b);
     enc \<leftarrow> mem_store enc sz c;
     b64_enc_rest realloc buf (j + 1) k enc (sz + 1) h }"

fun b64_enc_pad :: "'h reallocT \<Rightarrow> nat \<Rightarrow> bytes \<Rightarrow> nat \<Rightarrow> 'h \<Rightarrow> (bytes \<times> nat \<times> 'h) option" where
  "b64_enc_pad realloc 0 enc sz h = Some (enc, sz, h)"
| "b64_enc_pad realloc (Suc k) enc sz h = do {
     let (p, h) = realloc h enc (sz + 1);
     enc \<leftarrow> p;
     enc \<leftarrow> mem_store enc sz 0x3d;
     b64_enc_pad realloc k enc (sz + 1) h }"

definition b64_encode :: "'h mallocT \<Rightarrow> 'h reallocT \<Rightarrow> bytes \<Rightarrow> bytes \<Rightarrow> u64 \<Rightarrow> 'h
    \<Rightarrow> (bytes option \<times> 'h) option" where
  "b64_encode malloc realloc tmp src len h =
    (case malloc h 1 of (None, h) \<Rightarrow> Some (None, h) | (Some enc, h) \<Rightarrow> do {
       (i, tmp, enc, sz, h) \<leftarrow> b64_enc_loop realloc src (unat len) 0 tmp enc 0 h;
       (enc, sz, h) \<leftarrow>
         (if i > 0 then do {
            tmp \<leftarrow> b64_zero_fill tmp i (3 - i);
            buf \<leftarrow> b64_enc_buf tmp;
            (enc, sz, h) \<leftarrow> b64_enc_rest realloc buf 0 (i + 1) enc sz h;
            b64_enc_pad realloc (3 - i) enc sz h }
          else Some (enc, sz, h));
       let (p, h) = realloc h enc (sz + 1);
       enc \<leftarrow> p;
       enc \<leftarrow> mem_store enc sz 0;
       Some (Some enc, h) })"

subsection \<open>Decoder\<close>

text \<open>The table search: the index of the first entry equal to \<open>c\<close>, or \<open>c\<close> itself if there is none.\<close>

fun b64_find :: "u8 \<Rightarrow> nat \<Rightarrow> bytes \<Rightarrow> u8" where
  "b64_find c l [] = c"
| "b64_find c l (t # ts) = (if c = t then word_of_nat l else b64_find c (l + 1) ts)"

definition b64_translate :: "bytes \<Rightarrow> bytes" where
  "b64_translate tmp = map (\<lambda>c. b64_find c 0 b64_table) tmp"

definition b64_dec_buf :: "bytes \<Rightarrow> bytes option" where
  "b64_dec_buf tmp = do {
     t0 \<leftarrow> mem_load tmp 0;
     t1 \<leftarrow> mem_load tmp 1;
     t2 \<leftarrow> mem_load tmp 2;
     t3 \<leftarrow> mem_load tmp 3;
     Some [push_bit 2 t0 + drop_bit 4 (t1 AND 0x30),
           push_bit 4 (t1 AND 0xf) + drop_bit 2 (t2 AND 0x3c),
           push_bit 6 (t2 AND 0x3) + t3] }"

text \<open>The loop \<open>dec[size++] = buf[i]\<close>.\<close>

fun b64_dec_write :: "bytes \<Rightarrow> nat \<Rightarrow> nat \<Rightarrow> bytes \<Rightarrow> nat \<Rightarrow> (bytes \<times> nat) option" where
  "b64_dec_write buf i 0 dec sz = Some (dec, sz)"
| "b64_dec_write buf i (Suc k) dec sz = do {
     b \<leftarrow> mem_load buf i;
     dec \<leftarrow> mem_store dec sz b;
     b64_dec_write buf (i + 1) k dec (sz + 1) }"

text \<open>The main loop; the result \<open>Inl h\<close> is the early \<open>return NULL\<close>.\<close>

fun b64_dec_loop :: "'h reallocT \<Rightarrow> bytes \<Rightarrow> nat \<Rightarrow> nat \<Rightarrow> nat \<Rightarrow> bytes \<Rightarrow> bytes \<Rightarrow> nat \<Rightarrow> 'h
    \<Rightarrow> ('h + nat \<times> bytes \<times> bytes \<times> nat \<times> 'h) option" where
  "b64_dec_loop realloc src 0 i j tmp dec sz h = Some (Inr (i, tmp, dec, sz, h))"
| "b64_dec_loop realloc src (Suc len) i j tmp dec sz h = do {
     c \<leftarrow> mem_load src j;
     if b64_stop c then Some (Inr (i, tmp, dec, sz, h))
     else do {
       tmp \<leftarrow> mem_store tmp i c;
       let i = i + 1;
       j \<leftarrow> (if j < 2147483647 then Some (j + 1) else None);
       if i = 4 then do {
         let tmp = b64_translate tmp;
         buf \<leftarrow> b64_dec_buf tmp;
         case realloc h dec (sz + 3) of
           (None, h) \<Rightarrow> Some (Inl h)
         | (Some dec, h) \<Rightarrow> do {
             (dec, sz) \<leftarrow> b64_dec_write buf 0 3 dec sz;
             b64_dec_loop realloc src len 0 j tmp dec sz h } }
       else b64_dec_loop realloc src len i j tmp dec sz h } }"

text \<open>The result pairs the block with the value stored to \<open>*decsize\<close>; \<open>b64_decode\<close> passes a null
  pointer there and drops it.\<close>

definition b64_decode_ex :: "'h mallocT \<Rightarrow> 'h reallocT \<Rightarrow> bytes \<Rightarrow> bytes \<Rightarrow> u64 \<Rightarrow> 'h
    \<Rightarrow> ((bytes \<times> u64) option \<times> 'h) option" where
  "b64_decode_ex malloc realloc tmp src len h =
    (case malloc h 1 of (None, h) \<Rightarrow> Some (None, h) | (Some dec, h) \<Rightarrow> do {
       r \<leftarrow> b64_dec_loop realloc src (unat len) 0 0 tmp dec 0 h;
       case r of Inl h \<Rightarrow> Some (None, h) | Inr (i, tmp, dec, sz, h) \<Rightarrow> do {
       r \<leftarrow>
         (if i > 0 then do {
            tmp \<leftarrow> b64_zero_fill tmp i (4 - i);
            let tmp = b64_translate tmp;
            buf \<leftarrow> b64_dec_buf tmp;
            case realloc h dec (sz + (i - 1)) of
              (None, h) \<Rightarrow> Some (Inl h)
            | (Some dec, h) \<Rightarrow> do {
                (dec, sz) \<leftarrow> b64_dec_write buf 0 (i - 1) dec sz;
                Some (Inr (dec, sz, h)) } }
          else Some (Inr (dec, sz, h)));
       case r of Inl h \<Rightarrow> Some (None, h) | Inr (dec, sz, h) \<Rightarrow>
       (case realloc h dec (sz + 1) of
          (None, h) \<Rightarrow> Some (None, h)
        | (Some dec, h) \<Rightarrow> do {
            dec \<leftarrow> mem_store dec sz 0;
            Some (Some (dec, word_of_nat sz), h) }) } })"

definition b64_decode :: "'h mallocT \<Rightarrow> 'h reallocT \<Rightarrow> bytes \<Rightarrow> bytes \<Rightarrow> u64 \<Rightarrow> 'h
    \<Rightarrow> (bytes option \<times> 'h) option" where
  "b64_decode malloc realloc tmp src len h =
     map_option (\<lambda>(r, h). (map_option fst r, h)) (b64_decode_ex malloc realloc tmp src len h)"

subsection \<open>Allocation that does not fail\<close>

text \<open>The documented behaviour of a successful \<open>malloc\<close> and \<open>realloc\<close> with a non-zero size.\<close>

definition malloc_succeeds :: "'h mallocT \<Rightarrow> bool" where
  "malloc_succeeds malloc \<longleftrightarrow>
     (\<forall>h n. 0 < n \<longrightarrow> (\<exists>b h'. malloc h n = (Some b, h') \<and> length b = n))"

definition realloc_succeeds :: "'h reallocT \<Rightarrow> bool" where
  "realloc_succeeds realloc \<longleftrightarrow>
     (\<forall>h old n. 0 < n \<longrightarrow> (\<exists>b h'. realloc h old n = (Some b, h') \<and> length b = n
        \<and> take (min n (length old)) b = take n old))"

text \<open>\<open>block_has p out\<close>: the block starts with the bytes \<open>out\<close> that were written so far.\<close>

definition block_has :: "bytes \<Rightarrow> bytes \<Rightarrow> bool" where
  "block_has p out \<longleftrightarrow> take (length out) p = out"

lemma block_has_length: "block_has p out \<Longrightarrow> length out \<le> length p"
  unfolding block_has_def by (metis length_take min.cobounded1)

lemma block_has_Nil [simp]: "block_has p []"
  by (simp add: block_has_def)

lemma block_store:
  assumes "block_has p out" "length out < length p"
  shows "mem_store p (length out) c = Some (p[length out := c])"
    and "block_has (p[length out := c]) (out @ [c])"
  using assms by (simp_all add: mem_simps block_has_def take_Suc_conv_app_nth)

lemma block_grow:
  assumes "realloc_succeeds realloc" "block_has p out" "0 < length out + k"
  obtains p' h' where "realloc h p (length out + k) = (Some p', h')" "block_has p' out"
    "length p' = length out + k"
proof -
  from assms(1,3) obtain p' h' where r: "realloc h p (length out + k) = (Some p', h')"
    "length p' = length out + k"
    "take (min (length out + k) (length p)) p' = take (length out + k) p"
    unfolding realloc_succeeds_def by metis
  from r(3) have "take (length out) (take (min (length out + k) (length p)) p')
      = take (length out) (take (length out + k) p)" by simp
  with block_has_length [OF assms(2)] assms(2) have "block_has p' out"
    by (simp add: block_has_def)
  with r that show thesis by blast
qed

subsection \<open>Indices and characters\<close>

definition b64_idx :: "u8 \<Rightarrow> u8 \<Rightarrow> u8 \<Rightarrow> bytes" where
  "b64_idx a b c =
     [drop_bit 2 (a AND 0xfc), push_bit 4 (a AND 0x03) + drop_bit 4 (b AND 0xf0),
      push_bit 2 (b AND 0x0f) + drop_bit 6 (c AND 0xc0), c AND 0x3f]"

definition b64_chr :: "u8 \<Rightarrow> u8" where
  "b64_chr i = b64_table ! unat i"

fun b64_indices :: "bytes \<Rightarrow> bytes" where
  "b64_indices [] = []"
| "b64_indices [a] = take 2 (b64_idx a 0 0)"
| "b64_indices [a, b] = take 3 (b64_idx a b 0)"
| "b64_indices (a # b # c # xs) = b64_idx a b c @ b64_indices xs"

lemma length_b64_table [simp]: "length b64_table = 64"
  by (simp add: b64_table_def)

lemma b64_enc_buf_eq: "b64_enc_buf [a, b, c] = Some (b64_idx a b c)"
  by (simp add: b64_enc_buf_def b64_idx_def mem_load_def)

lemma b64_idx_or:
  "b64_idx a b c = [drop_bit 2 a, push_bit 4 (take_bit 2 a) OR drop_bit 4 b,
     push_bit 2 (take_bit 4 b) OR drop_bit 6 c, take_bit 6 c]"
proof -
  have "drop_bit 2 (a AND 0xfc) = drop_bit 2 a" "c AND 0x3f = take_bit 6 c"
    by (rule byte_eqI; simp add: bit_simps byte_bit_high)+
  moreover have "push_bit 4 (a AND 0x03) AND drop_bit 4 (b AND 0xf0) = 0"
    "push_bit 2 (b AND 0x0f) AND drop_bit 6 (c AND 0xc0) = 0"
    by (rule byte_eqI; simp add: bit_simps byte_bit_high)+
  moreover have "push_bit 4 (a AND 0x03) OR drop_bit 4 (b AND 0xf0) = push_bit 4 (take_bit 2 a) OR drop_bit 4 b"
    "push_bit 2 (b AND 0x0f) OR drop_bit 6 (c AND 0xc0) = push_bit 2 (take_bit 4 b) OR drop_bit 6 c"
    by (rule byte_eqI; simp add: bit_simps byte_bit_high)+
  ultimately show ?thesis by (simp add: b64_idx_def disjunctive_add_eq_or)
qed

lemma b64_idx_less: "\<forall>i\<in>set (b64_idx a b c). unat i < 64"
  by (auto simp: b64_idx_or intro!: byte_less_64) (simp_all add: bit_simps byte_bit_high)

lemma b64_chr_load: "unat i < 64 \<Longrightarrow> mem_load b64_table (unat i) = Some (b64_chr i)"
  by (simp add: mem_simps b64_chr_def)

lemma b64_enc_write_eq:
  "block_has p out \<Longrightarrow> length out + k \<le> length p \<Longrightarrow> i + k \<le> length buf \<Longrightarrow>
   \<forall>b\<in>set buf. unat b < 64 \<Longrightarrow>
   \<exists>p'. b64_enc_write buf i k p (length out) = Some (p', length out + k)
     \<and> block_has p' (out @ map b64_chr (take k (drop i buf)))"
proof (induction k arbitrary: p out i)
  case (Suc k)
  let ?c = "b64_chr (buf ! i)"
  have st: "mem_store p (length out) ?c = Some (p[length out := ?c])"
    "block_has (p[length out := ?c]) (out @ [?c])"
    using Suc.prems block_store [of p out ?c] by simp_all
  from Suc.IH [OF st(2), of "i + 1"] Suc.prems obtain p' where
    "b64_enc_write buf (i + 1) k (p[length out := ?c]) (Suc (length out)) = Some (p', length out + Suc k)"
    "block_has p' ((out @ [?c]) @ map b64_chr (take k (drop (i + 1) buf)))" by auto
  moreover have "unat (buf ! i) < 64" using Suc.prems by simp
  ultimately show ?case
    using Suc.prems st by (simp add: mem_load_Some [of i] b64_chr_load flip: Cons_nth_drop_Suc)
qed simp

lemma b64_enc_rest_eq:
  "realloc_succeeds realloc \<Longrightarrow> block_has p out \<Longrightarrow> j + k \<le> length buf \<Longrightarrow>
   \<forall>b\<in>set buf. unat b < 64 \<Longrightarrow>
   \<exists>p' h'. b64_enc_rest realloc buf j k p (length out) h = Some (p', length out + k, h')
     \<and> block_has p' (out @ map b64_chr (take k (drop j buf)))"
proof (induction k arbitrary: p out j h)
  case (Suc k)
  let ?c = "b64_chr (buf ! j)"
  obtain q h1 where q: "realloc h p (length out + 1) = (Some q, h1)" "block_has q out"
    "length q = length out + 1"
    using block_grow [OF Suc.prems(1,2), of 1 h] by auto
  have st: "mem_store q (length out) ?c = Some (q[length out := ?c])"
    "block_has (q[length out := ?c]) (out @ [?c])"
    using q block_store [of q out ?c] by simp_all
  from Suc.IH [OF Suc.prems(1) st(2), of "j + 1" h1] Suc.prems obtain p' h' where
    "b64_enc_rest realloc buf (j + 1) k (q[length out := ?c]) (Suc (length out)) h1
       = Some (p', length out + Suc k, h')"
    "block_has p' ((out @ [?c]) @ map b64_chr (take k (drop (j + 1) buf)))" by auto
  moreover have "unat (buf ! j) < 64" using Suc.prems by simp
  ultimately show ?case
    using Suc.prems q st by (simp add: mem_load_Some [of j] b64_chr_load flip: Cons_nth_drop_Suc)
qed simp

lemma b64_enc_pad_eq:
  "realloc_succeeds realloc \<Longrightarrow> block_has p out \<Longrightarrow>
   \<exists>p' h'. b64_enc_pad realloc k p (length out) h = Some (p', length out + k, h')
     \<and> block_has p' (out @ replicate k 0x3d)"
proof (induction k arbitrary: p out h)
  case (Suc k)
  obtain q h1 where q: "realloc h p (length out + 1) = (Some q, h1)" "block_has q out"
    "length q = length out + 1"
    using block_grow [OF Suc.prems(1,2), of 1 h] by auto
  have st: "mem_store q (length out) 0x3d = Some (q[length out := 0x3d])"
    "block_has (q[length out := 0x3d]) (out @ [0x3d])"
    using q block_store [of q out "0x3d"] by simp_all
  from Suc.IH [OF Suc.prems(1) st(2), of h1] q st show ?case by auto
qed simp

lemma b64_zero_fill_eq:
  "j + k \<le> length tmp \<Longrightarrow>
   b64_zero_fill tmp j k = Some (take j tmp @ replicate k 0 @ drop (j + k) tmp)"
proof (induction k arbitrary: tmp j)
  case (Suc k)
  then show ?case
    by (simp add: mem_simps take_Suc_conv_app_nth replicate_app_Cons_same)
qed simp

lemma length3: "length xs = 3 \<longleftrightarrow> (\<exists>a b c. xs = [a, b, c])"
  by (auto simp: numeral_eq_Suc length_Suc_conv)

text \<open>The main loop encodes every complete group of three bytes and leaves the rest in \<open>tmp\<close>.\<close>

fun b64_full :: "bytes \<Rightarrow> bytes" where
  "b64_full (a # b # c # xs) = b64_idx a b c @ b64_full xs"
| "b64_full _ = []"

fun b64_left :: "bytes \<Rightarrow> bytes" where
  "b64_left (a # b # c # xs) = b64_left xs"
| "b64_left xs = xs"

lemma b64_enc_group:
  assumes "realloc_succeeds realloc" "block_has p out" "length tmp = 3"
  obtains p' h' where "b64_enc_loop realloc (a # b # c # src) (Suc (Suc (Suc n))) 0 tmp p (length out) h
      = b64_enc_loop realloc src n 0 [a, b, c] p' (length out + 4) h'"
    "block_has p' (out @ map b64_chr (b64_idx a b c))"
proof -
  obtain q h1 where q: "realloc h p (length out + 4) = (Some q, h1)" "block_has q out"
    "length q = length out + 4"
    using block_grow [OF assms(1,2), of 4 h] by auto
  from b64_enc_write_eq [OF q(2), of 4 0 "b64_idx a b c"] q(3) b64_idx_less obtain p' where
    w: "b64_enc_write (b64_idx a b c) 0 4 q (length out) = Some (p', length out + 4)"
      "block_has p' (out @ map b64_chr (b64_idx a b c))"
    by (auto simp: b64_idx_def)
  from assms(3) obtain x y z where "tmp = [x, y, z]" by (auto simp: length3)
  then show thesis using that [of p' h1] w q(1) by (simp add: mem_store_def b64_enc_buf_eq)
qed

lemma b64_enc_loop_eq:
  "realloc_succeeds realloc \<Longrightarrow> block_has p out \<Longrightarrow> length tmp = 3 \<Longrightarrow>
   \<exists>p' tmp' h'. b64_enc_loop realloc (xs @ rest) (length xs) 0 tmp p (length out) h
       = Some (length (b64_left xs), tmp', p', length out + length (b64_full xs), h')
     \<and> block_has p' (out @ map b64_chr (b64_full xs))
     \<and> length tmp' = 3 \<and> take (length (b64_left xs)) tmp' = b64_left xs"
proof (induction xs arbitrary: p out tmp h rule: b64_full.induct)
  case (1 a b c xs)
  obtain p1 h1 where g: "b64_enc_loop realloc (a # b # c # xs @ rest) (Suc (Suc (Suc (length xs)))) 0 tmp p (length out) h
      = b64_enc_loop realloc (xs @ rest) (length xs) 0 [a, b, c] p1 (length out + 4) h1"
    "block_has p1 (out @ map b64_chr (b64_idx a b c))"
    using b64_enc_group [OF 1(2-4)] by metis
  have "length (b64_idx a b c) = 4" by (simp add: b64_idx_def)
  with "1.IH" [OF 1(2) g(2), of "[a, b, c]" h1] g(1) show ?case by (auto simp: add.assoc)
qed (auto simp: length3 mem_store_def)

lemma b64_left_cases:
  obtains "b64_left xs = []" "length xs mod 3 = 0" "b64_indices xs = b64_full xs"
  | a where "b64_left xs = [a]" "length xs mod 3 = 1" "b64_indices xs = b64_full xs @ take 2 (b64_idx a 0 0)"
  | a b where "b64_left xs = [a, b]" "length xs mod 3 = 2" "b64_indices xs = b64_full xs @ take 3 (b64_idx a b 0)"
proof -
  have "(b64_left xs = [] \<and> length xs mod 3 = 0 \<and> b64_indices xs = b64_full xs) \<or>
    (\<exists>a. b64_left xs = [a] \<and> length xs mod 3 = 1 \<and> b64_indices xs = b64_full xs @ take 2 (b64_idx a 0 0)) \<or>
    (\<exists>a b. b64_left xs = [a, b] \<and> length xs mod 3 = 2 \<and> b64_indices xs = b64_full xs @ take 3 (b64_idx a b 0))"
    by (induction xs rule: b64_full.induct) (auto simp: mod_Suc)
  then show thesis by (elim disjE exE conjE) (rule that; assumption)+
qed

definition b64_pad :: "bytes \<Rightarrow> nat" where
  "b64_pad xs = (3 - length xs mod 3) mod 3"

lemma b64_finish:
  assumes "realloc_succeeds realloc" "block_has p out"
  obtains q h' where "realloc h p (length out + 1) = (Some q, h')" "length out < length q"
    "mem_store q (length out) 0 = Some (out @ [0])"
proof -
  obtain q h1 where q: "realloc h p (length out + 1) = (Some q, h1)" "block_has q out"
    "length q = length out + 1"
    using block_grow [OF assms, of 1 h] by auto
  moreover from this have "q[length out := 0] = out @ [0]"
    using block_store(2) [of q out 0] by (simp add: block_has_def)
  ultimately show thesis using that block_store(1) [of q out 0] by auto
qed

lemma b64_enc_tail:
  assumes r: "realloc_succeeds realloc" and p: "block_has p out" "length tmp = 3"
    and t: "take i tmp = l" "i = length l" "i = 1 \<or> i = 2"
  shows "\<exists>p' h'. (do {
            tmp \<leftarrow> b64_zero_fill tmp i (3 - i);
            buf \<leftarrow> b64_enc_buf tmp;
            (enc, sz, h) \<leftarrow> b64_enc_rest realloc buf 0 (i + 1) p (length out) h;
            b64_enc_pad realloc (3 - i) enc sz h }) = Some (p', length out + 4, h')
       \<and> block_has p' (out @ map b64_chr (b64_indices l) @ replicate (3 - i) 0x3d)"
proof -
  define a where "a = l ! 0"
  define b where "b = (if i = 1 then 0 else l ! 1)"
  have z: "b64_zero_fill tmp i (3 - i) = Some [a, b, 0]"
    using p(2) t by (auto simp: b64_zero_fill_eq a_def b_def length3 numeral_2_eq_2 mem_store_def)
  have idx: "b64_indices l = take (i + 1) (b64_idx a b 0)"
    using t(2,3) by (auto simp: a_def b_def numeral_2_eq_2 numeral_3_eq_3 length_Suc_conv)
  have k: "i + 1 \<le> length (b64_idx a b 0)" using t(3) by (auto simp: b64_idx_def)
  then obtain p1 h1 where
    p1: "b64_enc_rest realloc (b64_idx a b 0) 0 (i + 1) p (length out) h = Some (p1, length out + (i + 1), h1)"
      "block_has p1 (out @ map b64_chr (take (i + 1) (b64_idx a b 0)))"
    using b64_enc_rest_eq [OF r p(1), of 0 "i + 1" "b64_idx a b 0" h] b64_idx_less by auto
  from b64_enc_pad_eq [OF r p1(2), of "3 - i" h1] k obtain p2 h2 where
    "b64_enc_pad realloc (3 - i) p1 (length out + (i + 1)) h1 = Some (p2, length out + (i + 1) + (3 - i), h2)"
    "block_has p2 ((out @ map b64_chr (take (i + 1) (b64_idx a b 0))) @ replicate (3 - i) 0x3d)"
    by (auto simp: min.absorb2)
  with z idx p1(1) t(3) show ?thesis by (auto simp: b64_enc_buf_eq)
qed

definition b64_text :: "bytes \<Rightarrow> bytes" where
  "b64_text xs = map b64_chr (b64_indices xs) @ replicate (b64_pad xs) 0x3d"

lemma b64_enc_remainder:
  assumes r: "realloc_succeeds realloc" and p: "block_has p (map b64_chr (b64_full xs))" "length tmp = 3"
    and t: "take (length (b64_left xs)) tmp = b64_left xs" and i: "i = length (b64_left xs)"
  shows "\<exists>p' h'. (if i > 0 then do {
            tmp \<leftarrow> b64_zero_fill tmp i (3 - i);
            buf \<leftarrow> b64_enc_buf tmp;
            (enc, sz, h) \<leftarrow> b64_enc_rest realloc buf 0 (i + 1) p (length (b64_full xs)) h;
            b64_enc_pad realloc (3 - i) enc sz h }
          else Some (p, length (b64_full xs), h)) = Some (p', length (b64_text xs), h')
       \<and> block_has p' (b64_text xs)"
proof (cases "i = 0")
  case True
  then show ?thesis
    using p(1) i by (cases xs rule: b64_left_cases) (simp_all add: b64_text_def b64_pad_def)
next
  case False
  then have i12: "i = 1 \<or> i = 2" and pos: "(0 < i) = True"
    and tx: "map b64_chr (b64_full xs) @ map b64_chr (b64_indices (b64_left xs)) @ replicate (3 - i) 0x3d
      = b64_text xs"
    and len: "length (b64_full xs) + 4 = length (b64_text xs)"
    using i by (cases xs rule: b64_left_cases; simp add: b64_text_def b64_pad_def b64_idx_def)+
  have "take i tmp = b64_left xs" using t i by simp
  from b64_enc_tail [OF r p this i i12, of h] show ?thesis
    unfolding pos tx if_True length_map len .
qed

lemma b64_encode_eq:
  assumes "malloc_succeeds malloc" "realloc_succeeds realloc" "length tmp = 3"
    and "unat len = length xs"
  shows "\<exists>h'. b64_encode malloc realloc tmp (xs @ rest) len h = Some (Some (b64_text xs @ [0]), h')"
proof -
  from assms(1) obtain p0 h0 where m: "malloc h 1 = (Some p0, h0)"
    unfolding malloc_succeeds_def by (metis zero_less_one)
  from b64_enc_loop_eq [OF assms(2) block_has_Nil assms(3), of xs rest p0 h0] obtain p1 tmp1 h1 where
    l: "b64_enc_loop realloc (xs @ rest) (length xs) 0 tmp p0 0 h0
         = Some (length (b64_left xs), tmp1, p1, length (b64_full xs), h1)"
      "block_has p1 (map b64_chr (b64_full xs))" "length tmp1 = 3"
      "take (length (b64_left xs)) tmp1 = b64_left xs" by auto
  from b64_enc_remainder [OF assms(2) l(2-4) refl, of h1] obtain p2 h2 where
    rem: "(if length (b64_left xs) > 0 then do {
            tmp \<leftarrow> b64_zero_fill tmp1 (length (b64_left xs)) (3 - length (b64_left xs));
            buf \<leftarrow> b64_enc_buf tmp;
            (enc, sz, h) \<leftarrow> b64_enc_rest realloc buf 0 (length (b64_left xs) + 1) p1 (length (b64_full xs)) h1;
            b64_enc_pad realloc (3 - length (b64_left xs)) enc sz h }
          else Some (p1, length (b64_full xs), h1)) = Some (p2, length (b64_text xs), h2)"
      "block_has p2 (b64_text xs)" by blast
  obtain q h3 where q: "realloc h2 p2 (length (b64_text xs) + 1) = (Some q, h3)"
    "mem_store q (length (b64_text xs)) 0 = Some (b64_text xs @ [0])"
    using b64_finish [OF assms(2) rem(2), of h2] by blast
  show ?thesis
    unfolding b64_encode_def m assms(4) prod.case option.case l(1) bind.bind_lunit rem(1) Let_def q
    by simp
qed

subsection \<open>Bit-level reference\<close>

text \<open>The encoding as RFC 4648 describes it: the bits of the message, most significant first, are
  cut into groups of six, the last one filled with zeros.\<close>

definition byte_bits :: "u8 \<Rightarrow> bool list" where
  "byte_bits b = map (bit b) [7, 6, 5, 4, 3, 2, 1, 0]"

function sextets :: "bool list \<Rightarrow> bytes" where
  "sextets bs = (if bs = [] then []
     else horner_sum of_bool 2 (rev (take 6 (bs @ replicate 5 False))) # sextets (drop 6 bs))"
  by pat_completeness auto
termination by (relation "measure length") auto

declare sextets.simps [simp del]

lemma sextets_Nil [simp]: "sextets [] = []"
  by (simp add: sextets.simps)

lemma sextets_group: "sextets (a # b # c # d # e # f # bs) =
    horner_sum of_bool 2 [f, e, d, c, b, a] # sextets bs"
  by (simp add: sextets.simps)

lemma sextets_short:
  "sextets [a, b] = [horner_sum of_bool 2 [False, False, False, False, b, a]]"
  "sextets [a, b, c, d] = [horner_sum of_bool 2 [False, False, d, c, b, a]]"
  by (simp_all add: sextets.simps numeral_eq_Suc)

text \<open>The alphabet of RFC 4648: upper case, lower case, digits, plus and slash.\<close>

definition rfc4648_char :: "u8 \<Rightarrow> u8" where
  "rfc4648_char v =
     (if v < 26 then 65 + v else if v < 52 then 97 + (v - 26) else if v < 62 then 48 + (v - 52) else if v = 62 then 0x2b else 0x2f)"

lemma b64_table_rfc4648: "b64_table = map (\<lambda>i. rfc4648_char (word_of_nat i)) [0..<64]"
  by (simp add: b64_table_def upt_rec rfc4648_char_def of_char_def)

lemma b64_chr_rfc4648: "unat v < 64 \<Longrightarrow> b64_chr v = rfc4648_char v"
  by (simp add: b64_chr_def b64_table_rfc4648)

lemma b64_indices_bits: "b64_indices xs = sextets (concat (map byte_bits xs))"
proof (induction xs rule: b64_indices.induct)
  case (2 a)
  show ?case
    by (simp add: byte_bits_def sextets_group sextets_short b64_idx_or del: horner_sum_simps)
       (intro conjI byte_eqI; simp add: bit_simps byte_bit_high)
next
  case (3 a b)
  show ?case
    by (simp add: byte_bits_def sextets_group sextets_short b64_idx_or del: horner_sum_simps)
       (intro conjI byte_eqI; simp add: bit_simps byte_bit_high)
next
  case (4 a b c xs)
  then show ?case
    by (simp add: byte_bits_def sextets_group b64_idx_or del: horner_sum_simps)
       (intro conjI byte_eqI; simp add: bit_simps byte_bit_high)
qed simp

subsection \<open>Decoding\<close>

definition b64_out :: "u8 \<Rightarrow> u8 \<Rightarrow> u8 \<Rightarrow> u8 \<Rightarrow> bytes" where
  "b64_out a b c d = [push_bit 2 a + drop_bit 4 (b AND 0x30),
     push_bit 4 (b AND 0xf) + drop_bit 2 (c AND 0x3c), push_bit 6 (c AND 0x3) + d]"

lemma length_b64_out [simp]: "length (b64_out a b c d) = 3"
  by (simp add: b64_out_def)

definition b64_val :: "u8 \<Rightarrow> u8" where
  "b64_val c = b64_find c 0 b64_table"

fun b64_bytes :: "bytes \<Rightarrow> bytes" where
  "b64_bytes (a # b # c # d # vs) = b64_out a b c d @ b64_bytes vs"
| "b64_bytes [a, b, c] = take 2 (b64_out a b c 0)"
| "b64_bytes [a, b] = take 1 (b64_out a b 0 0)"
| "b64_bytes _ = []"

lemma b64_val_table: "map b64_val b64_table = map word_of_nat [0..<64]"
  by (simp add: b64_val_def b64_table_def upt_rec)

lemma b64_table_chars: "list_all (\<lambda>c. \<not> b64_stop c) b64_table"
  by (simp add: b64_stop_def isalnum_def b64_table_def)

lemma b64_val_chr: "unat i < 64 \<Longrightarrow> b64_val (b64_chr i) = i"
proof -
  assume i: "unat i < 64"
  then have "b64_val (b64_chr i) = map b64_val b64_table ! unat i" by (simp add: b64_chr_def)
  also have "\<dots> = i" using i unfolding b64_val_table by simp
  finally show ?thesis .
qed

lemma b64_chr_continues: "unat i < 64 \<Longrightarrow> \<not> b64_stop (b64_chr i)"
  using b64_table_chars by (simp add: list_all_length b64_chr_def)

lemma b64_val_0: "b64_val 0 = 0"
  by (simp add: b64_val_def b64_table_def)

text \<open>Decoding the six-bit groups of three bytes gives back the bytes.\<close>

lemma b64_out_idx:
  fixes a b c :: u8
  defines "i \<equiv> drop_bit 2 a" and "j \<equiv> push_bit 4 (take_bit 2 a) OR drop_bit 4 b"
    and "k \<equiv> push_bit 2 (take_bit 4 b) OR drop_bit 6 c" and "l \<equiv> take_bit 6 c"
  shows "push_bit 2 i + drop_bit 4 (j AND 0x30) = a"
    and "push_bit 4 (j AND 0xf) + drop_bit 2 (k AND 0x3c) = b"
    and "push_bit 6 (k AND 0x3) + l = c"
proof -
  have "push_bit 2 i AND drop_bit 4 (j AND 0x30) = 0" "push_bit 4 (j AND 0xf) AND drop_bit 2 (k AND 0x3c) = 0"
    "push_bit 6 (k AND 0x3) AND l = 0"
    by (rule byte_eqI; simp add: i_def j_def k_def l_def bit_simps byte_bit_high)+
  moreover have "push_bit 2 i OR drop_bit 4 (j AND 0x30) = a" "push_bit 4 (j AND 0xf) OR drop_bit 2 (k AND 0x3c) = b"
    "push_bit 6 (k AND 0x3) OR l = c"
    by (rule byte_eqI; simp add: i_def j_def k_def l_def bit_simps byte_bit_high)+
  ultimately show "push_bit 2 i + drop_bit 4 (j AND 0x30) = a"
    "push_bit 4 (j AND 0xf) + drop_bit 2 (k AND 0x3c) = b" "push_bit 6 (k AND 0x3) + l = c"
    by (simp_all only: disjunctive_add_eq_or)
qed

lemma b64_bytes_indices: "b64_bytes (b64_indices xs) = xs"
proof (induction xs rule: b64_indices.induct)
  case (2 a)
  show ?case using b64_out_idx(1) [of a 0] by (simp add: b64_idx_or b64_out_def)
next
  case (3 a b)
  show ?case using b64_out_idx(1,2) [of a b] b64_out_idx(2) [of a b 0]
    by (simp add: b64_idx_or b64_out_def)
next
  case (4 a b c xs)
  then show ?case using b64_out_idx(1) [of a b] b64_out_idx(2) [of a b c] b64_out_idx(3) [of b c]
    by (simp add: b64_idx_or b64_out_def)
qed simp

lemma b64_indices_less: "i \<in> set (b64_indices xs) \<Longrightarrow> unat i < 64"
  by (induction xs rule: b64_indices.induct) (use b64_idx_less in \<open>auto dest!: in_set_takeD\<close>)

lemma b64_dec_buf_eq: "b64_dec_buf [a, b, c, d] = Some (b64_out a b c d)"
  by (simp add: b64_dec_buf_def b64_out_def mem_load_def)

lemma b64_dec_write_eq:
  "block_has p out \<Longrightarrow> length out + k \<le> length p \<Longrightarrow> i + k \<le> length buf \<Longrightarrow>
   \<exists>p'. b64_dec_write buf i k p (length out) = Some (p', length out + k)
     \<and> block_has p' (out @ take k (drop i buf))"
proof (induction k arbitrary: p out i)
  case (Suc k)
  let ?c = "buf ! i"
  have st: "mem_store p (length out) ?c = Some (p[length out := ?c])"
    "block_has (p[length out := ?c]) (out @ [?c])"
    using Suc.prems block_store [of p out ?c] by simp_all
  from Suc.IH [OF st(2), of "i + 1"] Suc.prems obtain p' where
    "b64_dec_write buf (i + 1) k (p[length out := ?c]) (Suc (length out)) = Some (p', length out + Suc k)"
    "block_has p' ((out @ [?c]) @ take k (drop (i + 1) buf))" by auto
  then show ?case
    using Suc.prems st by (simp add: mem_load_Some [of i] flip: Cons_nth_drop_Suc)
qed simp

text \<open>Groups of four characters and what is left.\<close>

fun b64_quads :: "bytes \<Rightarrow> bytes" where
  "b64_quads (a # b # c # d # cs) = b64_out (b64_val a) (b64_val b) (b64_val c) (b64_val d) @ b64_quads cs"
| "b64_quads _ = []"

fun b64_rest4 :: "bytes \<Rightarrow> bytes" where
  "b64_rest4 (a # b # c # d # cs) = b64_rest4 cs"
| "b64_rest4 cs = cs"

lemma b64_bytes_quads:
  "b64_bytes (map b64_val cs) = b64_quads cs @ b64_bytes (map b64_val (b64_rest4 cs))"
  by (induction cs rule: b64_quads.induct) simp_all

lemma b64_rest4_less: "length (b64_rest4 cs) < 4"
  by (induction cs rule: b64_rest4.induct) simp_all

lemma length4: "length xs = 4 \<longleftrightarrow> (\<exists>a b c d. xs = [a, b, c, d])"
  by (auto simp: numeral_eq_Suc length_Suc_conv)

lemma b64_dec_step:
  assumes "src ! j = c" "j < length src" "\<not> b64_stop c" "j < 2147483647" "i < 3" "length tmp = 4"
  shows "b64_dec_loop realloc src (Suc n) i j tmp p sz h =
         b64_dec_loop realloc src n (i + 1) (j + 1) (tmp[i := c]) p sz h"
  using assms by (simp add: mem_simps)

lemma b64_dec_group:
  assumes "realloc_succeeds realloc" "block_has p out" "length tmp = 4"
    and "drop j src = a # b # c # d # rest" "j + 4 \<le> 2147483647"
    and "\<not> b64_stop a" "\<not> b64_stop b" "\<not> b64_stop c" "\<not> b64_stop d"
  obtains tmp' p' h' where "b64_dec_loop realloc src (Suc (Suc (Suc (Suc n)))) 0 j tmp p (length out) h
      = b64_dec_loop realloc src n 0 (j + 4) tmp' p' (length out + 3) h'"
    "length tmp' = 4" "block_has p' (out @ b64_out (b64_val a) (b64_val b) (b64_val c) (b64_val d))"
proof -
  have len: "j + 3 < length src"
    using arg_cong [OF assms(4), of length] by simp
  have nth: "src ! j = a" "src ! (j + 1) = b" "src ! (j + 2) = c" "src ! (j + 3) = d"
    using assms(4) nth_drop [of j src 0] nth_drop [of j src 1] nth_drop [of j src 2] nth_drop [of j src 3] len
    by (simp_all add: numeral_eq_Suc)
  let ?o = "b64_out (b64_val a) (b64_val b) (b64_val c) (b64_val d)"
  obtain q h1 where q: "realloc h p (length out + 3) = (Some q, h1)" "block_has q out"
    "length q = length out + 3"
    using block_grow [OF assms(1,2), of 3 h] by auto
  from b64_dec_write_eq [OF q(2), of 3 0 ?o] q(3) obtain p' where
    w: "b64_dec_write ?o 0 3 q (length out) = Some (p', length out + 3)" "block_has p' (out @ ?o)"
    by (auto simp: b64_out_def)
  from assms(3) obtain w x y z where tmp: "tmp = [w, x, y, z]" by (auto simp: length4)
  have "b64_dec_loop realloc src (Suc (Suc (Suc (Suc n)))) 0 j tmp p (length out) h
      = b64_dec_loop realloc src (Suc n) 3 (j + 3) [a, b, c, z] p (length out) h"
    using assms len nth tmp by (simp add: b64_dec_step numeral_3_eq_3 del: b64_dec_loop.simps) 
  also have "\<dots> = b64_dec_loop realloc src n 0 (j + 4) [b64_val a, b64_val b, b64_val c, b64_val d]
      p' (length out + 3) h1"
    using assms len nth q(1) w(1)
    by (simp add: mem_load_def mem_store_def b64_translate_def b64_dec_buf_eq add.commute [of j] flip: b64_val_def)
  finally show thesis using that w(2) by simp
qed

text \<open>\<open>cs\<close> is the whole run of alphabet characters that the loop reads: either the length is
  exhausted after it or the next character stops the loop.\<close>

definition b64_run :: "bytes \<Rightarrow> bytes \<Rightarrow> nat \<Rightarrow> bool" where
  "b64_run cs rest n \<longleftrightarrow> list_all (\<lambda>c. \<not> b64_stop c) cs \<and>
     (n = length cs \<or> length cs < n \<and> rest \<noteq> [] \<and> b64_stop (hd rest))"

lemma b64_run_Cons:
  "b64_run (c # cs) rest n \<Longrightarrow> \<not> b64_stop c \<and> (\<exists>m. n = Suc m \<and> b64_run cs rest m)"
  by (cases n) (auto simp: b64_run_def)

lemma b64_dec_last:
  assumes "b64_run [] rest n" "drop j src = rest"
  shows "b64_dec_loop realloc src n i j tmp p sz h = Some (Inr (i, tmp, p, sz, h))"
proof (cases n)
  case (Suc m)
  with assms obtain c rs where "rest = c # rs" "b64_stop c" by (cases rest) (auto simp: b64_run_def)
  moreover from this assms(2) have "src ! j = c" "j < length src"
    by (metis nth_via_drop, metis drop_eq_Nil leI list.distinct(1))
  ultimately show ?thesis using Suc by (simp add: mem_simps)
qed simp

lemma b64_dec_left:
  assumes "b64_run cs rest n" "drop j src = cs @ rest" "length cs + i < 4" "j + length cs \<le> 2147483647"
    "length tmp = 4"
  shows "\<exists>tmp'. b64_dec_loop realloc src n i j tmp p sz h = Some (Inr (i + length cs, tmp', p, sz, h))
     \<and> length tmp' = 4 \<and> take (i + length cs) tmp' = take i tmp @ cs"
  using assms
proof (induction cs arbitrary: i j n tmp)
  case Nil
  then show ?case by (simp add: b64_dec_last)
next
  case (Cons c cs)
  from Cons.prems(1) obtain m where m: "\<not> b64_stop c" "n = Suc m" "b64_run cs rest m"
    using b64_run_Cons by blast
  from Cons.prems(2) have j: "src ! j = c" "j < length src" "drop (Suc j) src = cs @ rest"
    by (auto simp: nth_via_drop drop_Suc drop_tl) (metis drop_eq_Nil leI list.distinct(1))
  have "b64_dec_loop realloc src (Suc m) i j tmp p sz h =
      b64_dec_loop realloc src m (Suc i) (Suc j) (tmp[i := c]) p sz h"
    using b64_dec_step [of src j c i tmp realloc m p sz h] j m Cons.prems by simp
  moreover have "take (Suc i) (tmp[i := c]) = take i tmp @ [c]"
    using Cons.prems by (simp add: take_Suc_conv_app_nth)
  ultimately show ?case
    using Cons.IH [of m "Suc j" "Suc i" "tmp[i := c]"] Cons.prems j(3) m by auto
qed

lemma b64_dec_loop_eq:
  "realloc_succeeds realloc \<Longrightarrow> block_has p out \<Longrightarrow> length tmp = 4 \<Longrightarrow> b64_run cs rest n \<Longrightarrow>
   drop j src = cs @ rest \<Longrightarrow> j + length cs \<le> 2147483647 \<Longrightarrow>
   \<exists>p' tmp' h'. b64_dec_loop realloc src n 0 j tmp p (length out) h
       = Some (Inr (length (b64_rest4 cs), tmp', p', length out + length (b64_quads cs), h'))
     \<and> block_has p' (out @ b64_quads cs)
     \<and> length tmp' = 4 \<and> take (length (b64_rest4 cs)) tmp' = b64_rest4 cs"
proof (induction cs arbitrary: p out tmp j n h rule: b64_quads.induct)
  case (1 a b c d cs)
  from 1(5) obtain m where m: "\<not> b64_stop a" "\<not> b64_stop b" "\<not> b64_stop c" "\<not> b64_stop d"
    "n = Suc (Suc (Suc (Suc m)))" "b64_run cs rest m"
    by (blast dest!: b64_run_Cons)
  let ?o = "b64_out (b64_val a) (b64_val b) (b64_val c) (b64_val d)"
  from 1(6,7) have j: "drop j src = a # b # c # d # (cs @ rest)" "j + 4 \<le> 2147483647" by simp_all
  obtain tmp1 p1 h1 where g: "b64_dec_loop realloc src n 0 j tmp p (length out) h
      = b64_dec_loop realloc src m 0 (j + 4) tmp1 p1 (length out + 3) h1" "length tmp1 = 4"
    "block_has p1 (out @ ?o)"
    using b64_dec_group [OF 1(2-4) j m(1-4), of m h] m(5) by metis
  have d: "drop (j + 4) src = cs @ rest"
    using arg_cong [OF j(1), of "drop 4"] unfolding drop_drop add.commute [of 4] by simp
  have "length ?o = 3" by (simp add: b64_out_def)
  then show ?case
    using "1.IH" [OF 1(2) g(3,2) m(6) d, of h1] 1(7) g(1) by (auto simp: add.assoc)
qed (use b64_dec_left [of _ rest _ _ src 0] in \<open>fastforce+\<close>)

lemma b64_dec_remainder:
  assumes r: "realloc_succeeds realloc" and p: "block_has p out" "length tmp = 4"
    and t: "take i tmp = l" "i = length l" "i < 4" "i = 0 \<or> 0 < length out + (i - 1)"
  shows "\<exists>p' h'. (if i > 0 then do {
            tmp \<leftarrow> b64_zero_fill tmp i (4 - i);
            let tmp = b64_translate tmp;
            buf \<leftarrow> b64_dec_buf tmp;
            case realloc h p (length out + (i - 1)) of
              (None, h) \<Rightarrow> Some (Inl h)
            | (Some dec, h) \<Rightarrow> do {
                (dec, sz) \<leftarrow> b64_dec_write buf 0 (i - 1) dec (length out);
                Some (Inr (dec, sz, h)) } }
          else Some (Inr (p, length out, h)))
      = Some (Inr (p', length (out @ b64_bytes (map b64_val l)), h'))
       \<and> block_has p' (out @ b64_bytes (map b64_val l))"
proof (cases "i = 0")
  case True
  with p(1) t(2) show ?thesis by simp
next
  case False
  define vs where "vs = map b64_val (l @ replicate (4 - i) 0)"
  obtain a b c d where vs: "vs = [a, b, c, d]"
    using t(2,3) length4 [of vs] by (auto simp: vs_def)
  have z: "b64_zero_fill tmp i (4 - i) = Some (l @ replicate (4 - i) 0)"
    using p(2) t(1,3) by (simp add: b64_zero_fill_eq)
  have tr: "b64_translate (l @ replicate (4 - i) 0) = [a, b, c, d]"
    unfolding vs [symmetric] vs_def b64_translate_def b64_val_def ..
  have o: "take (i - 1) (b64_out a b c d) = b64_bytes (map b64_val l)"
  proof -
    consider x where "l = [x]" | x y where "l = [x, y]" | x y z where "l = [x, y, z]"
      using False t(2,3) by (auto simp: less_Suc_eq numeral_eq_Suc length_Suc_conv)
    then show ?thesis
      using vs t(2) by cases (simp_all add: vs_def b64_val_0 numeral_eq_Suc)
  qed
  from t(4) False have "0 < length out + (i - 1)" by simp
  from block_grow [OF r p(1) this, of h] obtain q h1 where
    q: "realloc h p (length out + (i - 1)) = (Some q, h1)"
    "block_has q out" "length q = length out + (i - 1)" by blast
  have "i - 1 \<le> 3" using t(3) by linarith
  with b64_dec_write_eq [OF q(2), of "i - 1" 0 "b64_out a b c d"] q(3) obtain p' where
    w: "b64_dec_write (b64_out a b c d) 0 (i - 1) q (length out) = Some (p', length out + (i - 1))"
    "block_has p' (out @ take (i - 1) (b64_out a b c d))"
    by auto
  have n: "length (out @ b64_bytes (map b64_val l)) = length out + (i - 1)"
    using t(3) by (simp flip: o)
  have pos: "(0 < i) = True" using False by simp
  show ?thesis
    unfolding pos if_True z bind.bind_lunit Let_def tr b64_dec_buf_eq q(1) prod.case option.case w(1) n
    using w(2) o by simp
qed

lemma b64_decode_ex_eq:
  assumes "malloc_succeeds malloc" "realloc_succeeds realloc" "length tmp = 4"
    and "b64_run cs rest (unat len)" "length cs \<noteq> 1" "length cs < 2 ^ 31"
  shows "\<exists>h'. b64_decode_ex malloc realloc tmp (cs @ rest) len h =
    Some (Some (b64_bytes (map b64_val cs) @ [0], word_of_nat (length (b64_bytes (map b64_val cs)))), h')"
proof -
  from assms(1) obtain p0 h0 where m: "malloc h 1 = (Some p0, h0)"
    unfolding malloc_succeeds_def by (metis zero_less_one)
  from b64_dec_loop_eq [OF assms(2) block_has_Nil assms(3,4), of 0 "cs @ rest" p0 h0] assms(6)
  obtain p1 tmp1 h1 where
    l: "b64_dec_loop realloc (cs @ rest) (unat len) 0 0 tmp p0 0 h0
         = Some (Inr (length (b64_rest4 cs), tmp1, p1, length (b64_quads cs), h1))"
      "block_has p1 (b64_quads cs)" "length tmp1 = 4"
      "take (length (b64_rest4 cs)) tmp1 = b64_rest4 cs" by auto
  have pos: "length (b64_rest4 cs) = 0 \<or> 0 < length (b64_quads cs) + (length (b64_rest4 cs) - 1)"
    using assms(5) by (cases cs rule: b64_quads.cases) (simp_all add: b64_out_def)
  let ?out = "b64_bytes (map b64_val cs)"
  obtain p2 h2 where
    rem: "(if length (b64_rest4 cs) > 0 then do {
            tmp \<leftarrow> b64_zero_fill tmp1 (length (b64_rest4 cs)) (4 - length (b64_rest4 cs));
            let tmp = b64_translate tmp;
            buf \<leftarrow> b64_dec_buf tmp;
            case realloc h1 p1 (length (b64_quads cs) + (length (b64_rest4 cs) - 1)) of
              (None, h) \<Rightarrow> Some (Inl h)
            | (Some dec, h) \<Rightarrow> do {
                (dec, sz) \<leftarrow> b64_dec_write buf 0 (length (b64_rest4 cs) - 1) dec (length (b64_quads cs));
                Some (Inr (dec, sz, h)) } }
          else Some (Inr (p1, length (b64_quads cs), h1))) = Some (Inr (p2, length ?out, h2))"
      "block_has p2 ?out"
    using b64_dec_remainder [OF assms(2) l(2,3,4) refl b64_rest4_less, of h1] pos
    unfolding b64_bytes_quads [of cs] by blast
  obtain q h3 where q: "realloc h2 p2 (length ?out + 1) = (Some q, h3)"
    "mem_store q (length ?out) 0 = Some (?out @ [0])"
    using b64_finish [OF assms(2) rem(2), of h2] by blast
  show ?thesis
    unfolding b64_decode_ex_def m prod.case option.case l(1) bind.bind_lunit sum.case rem(1) q
    by simp
qed

subsection \<open>Properties\<close>

text \<open>A simple heap that never runs out, used to instantiate the allocator.\<close>

definition plain_malloc :: "unit mallocT" where
  "plain_malloc h n = (Some (replicate n 0xa5), h)"

definition plain_realloc :: "unit reallocT" where
  "plain_realloc h old n = (Some (take n old @ replicate (n - length old) 0xa5), h)"

lemma plain_allocator: "malloc_succeeds plain_malloc" "realloc_succeeds plain_realloc"
  by (simp_all add: malloc_succeeds_def plain_malloc_def realloc_succeeds_def plain_realloc_def min_def)

text \<open>
  C33. With an allocator that does not fail, \<open>b64_encode\<close> returns the RFC 4648 encoding of its input
  followed by a zero byte: the message's bits, most significant first, in groups of six, each
  group printed with the alphabet of RFC 4648, and \<open>=\<close> up to a multiple of four characters. All accesses to
  the source, the local arrays, the table and the growing block are in bounds.
\<close>

theorem b64_encode_rfc4648:
  assumes "malloc_succeeds malloc" "realloc_succeeds realloc" "length tmp = 3" "unat len = length xs"
  shows "\<exists>h'. b64_encode malloc realloc tmp (xs @ rest) len h =
    Some (Some (map rfc4648_char (sextets (concat (map byte_bits xs)))
                @ replicate ((3 - length xs mod 3) mod 3) 0x3d @ [0]), h')"
proof -
  have "map b64_chr (b64_indices xs) = map rfc4648_char (sextets (concat (map byte_bits xs)))"
    unfolding b64_indices_bits [symmetric] using b64_indices_less b64_chr_rfc4648 by auto
  with b64_encode_eq [OF assms, of rest h] show ?thesis by (simp add: b64_text_def b64_pad_def)
qed

theorem b64_encode_rfc4648_witness:
  "\<exists>h'. b64_encode plain_malloc plain_realloc [1, 2, 3] ([0x66, 0x6f] @ [0x78]) 2 () =
    Some (Some (map rfc4648_char (sextets (concat (map byte_bits [0x66, 0x6f])))
                @ replicate ((3 - length [0x66, 0x6f :: u8] mod 3) mod 3) 0x3d @ [0]), h')"
  by (rule b64_encode_rfc4648) (simp_all add: plain_allocator)

text \<open>
  What \<open>b64_decode_ex\<close> computes: it reads the longest run of alphabet characters, up to \<open>len\<close> or
  the first other character, turns every four of them into three bytes and a rest of two or
  three into one or two bytes, appends a zero byte and reports the number of bytes before it;
  all accesses are in bounds. (A run of exactly one character is the subject of the next
  property.)
\<close>

theorem b64_decode_ex_correct:
  assumes "malloc_succeeds malloc" "realloc_succeeds realloc" "length tmp = 4"
    and "unat len \<le> length src" "cs = takeWhile (\<lambda>c. \<not> b64_stop c) (take (unat len) src)"
    and "length cs \<noteq> 1" "length cs < 2 ^ 31"
  shows "\<exists>h'. b64_decode_ex malloc realloc tmp src len h =
    Some (Some (b64_bytes (map b64_val cs) @ [0], word_of_nat (length (b64_bytes (map b64_val cs)))), h')"
proof -
  define rest where "rest = drop (length cs) src"
  have src: "src = cs @ rest"
    by (metis append_take_drop_id assms(5) rest_def takeWhile_eq_take takeWhile_dropWhile_id
      append_eq_conv_conj append.assoc)
  have "b64_run cs rest (unat len)"
  proof (cases "length cs = unat len")
    case False
    moreover have "length cs \<le> unat len"
      using assms(4,5) length_takeWhile_le [of _ "take (unat len) src"] by simp
    ultimately have "length cs < unat len" by simp
    then have "b64_stop (take (unat len) src ! length cs)"
      using nth_length_takeWhile [of "\<lambda>c. \<not> b64_stop c" "take (unat len) src"] assms(4,5) by simp
    then show ?thesis
      using \<open>length cs < unat len\<close> assms(4,5)
      by (auto simp: b64_run_def list_all_iff rest_def hd_drop_conv_nth dest: set_takeWhileD)
  qed (auto simp: b64_run_def list_all_iff assms(5) dest: set_takeWhileD)
  from b64_decode_ex_eq [OF assms(1-3) this assms(6,7), of h] show ?thesis
    unfolding src [symmetric] .
qed

theorem b64_decode_ex_correct_witness:
  "\<exists>h'. b64_decode_ex plain_malloc plain_realloc [9, 9, 9, 9] [0x5a, 0x6d, 0x38, 0x3d, 0] 4 () =
    Some (Some (b64_bytes (map b64_val [0x5a, 0x6d, 0x38]) @ [0],
      word_of_nat (length (b64_bytes (map b64_val [0x5a, 0x6d, 0x38])))), h')"
  by (rule b64_decode_ex_correct) (simp_all add: plain_allocator b64_stop_def isalnum_def)

lemma b64_text_run:
  assumes "n + 1 = length (b64_text xs @ [0]) \<or> n = length (b64_text xs @ [0])"
  shows "b64_run (map b64_chr (b64_indices xs)) (replicate (b64_pad xs) 0x3d @ [0]) n"
  using assms b64_chr_continues b64_indices_less
  by (cases "b64_pad xs") (auto simp: b64_run_def b64_text_def list_all_iff b64_stop_def isalnum_def)

lemma b64_val_indices: "map b64_val (map b64_chr (b64_indices xs)) = b64_indices xs"
  using b64_val_chr b64_indices_less by (auto intro!: map_idI)

lemma length_b64_indices: "length (b64_indices xs) \<noteq> 1" "length (b64_indices xs) \<le> 2 * length xs"
  by (cases xs rule: b64_indices.cases; simp add: b64_idx_def)
     (induction xs rule: b64_indices.induct; simp add: b64_idx_def)

text \<open>
  C31. Round trip: for every message of less than \<open>2 ^ 30\<close> bytes, decoding what \<open>b64_encode\<close> returned,
  with the length of the text with or without its terminating zero, gives back the message, its
  length and a terminating zero. Encoder and decoder may use different allocators.
\<close>

theorem b64_roundtrip:
  assumes "malloc_succeeds malloc" "realloc_succeeds realloc" "length tmp = 3" "unat len = length xs"
    and "malloc_succeeds malloc'" "realloc_succeeds realloc'" "length tmp' = 4" "length xs < 2 ^ 30"
  shows "\<exists>text h'. b64_encode malloc realloc tmp xs len h = Some (Some text, h') \<and>
    (\<forall>n g. unat n + 1 = length text \<or> unat n = length text \<longrightarrow>
      (\<exists>g'. b64_decode_ex malloc' realloc' tmp' text n g
             = Some (Some (xs @ [0], word_of_nat (length xs)), g')))"
proof -
  let ?text = "b64_text xs @ [0]"
  from b64_encode_eq [OF assms(1-4), of "[]" h] obtain h' where
    "b64_encode malloc realloc tmp xs len h = Some (Some ?text, h')" by auto
  moreover have "\<exists>g'. b64_decode_ex malloc' realloc' tmp' ?text n g
      = Some (Some (xs @ [0], word_of_nat (length xs)), g')"
    if "unat n + 1 = length ?text \<or> unat n = length ?text" for n g
    using b64_decode_ex_eq [OF assms(5-7) b64_text_run [OF that], of g] length_b64_indices [of xs] assms(8)
    by (simp add: b64_val_indices b64_bytes_indices b64_text_def del: map_map)
  ultimately show ?thesis by blast
qed

theorem b64_roundtrip_witness:
  "\<exists>text h'. b64_encode plain_malloc plain_realloc [0, 0, 0] [104, 105] 2 () = Some (Some text, h') \<and>
    (\<forall>n g. unat n + 1 = length text \<or> unat n = length text \<longrightarrow>
      (\<exists>g'. b64_decode_ex plain_malloc plain_realloc [0, 0, 0, 0] text n g
             = Some (Some ([104, 105] @ [0], word_of_nat (length [104, 105 :: u8])), g')))"
  by (rule b64_roundtrip) (simp_all add: plain_allocator)

text \<open>
  A text whose run of alphabet characters has length one is decoded by a call of \<open>realloc\<close> with
  size 0. With an allocator that answers such a call with a null pointer (as glibc does, having
  freed the block), \<open>b64_decode_ex\<close> returns \<open>NULL\<close>, its sign of exhausted memory.
\<close>

theorem b64_decode_single_char:
  assumes "malloc h 1 = (Some p, h1)" "realloc h1 p 0 = (None, h2)" "length tmp = 4"
    and "\<not> b64_stop c" "unat len = 1"
  shows "b64_decode_ex malloc realloc tmp (c # rest) len h = Some (None, h2)"
proof -
  from assms(3) obtain w x y z where "tmp = [w, x, y, z]" by (auto simp: length4)
  then have l: "b64_dec_loop realloc (c # rest) 1 0 0 tmp p 0 h1 = Some (Inr (1, [c, x, y, z], p, 0, h1))"
    using assms(4) by (simp add: mem_load_def mem_store_def)
  have z: "b64_zero_fill [c, x, y, z] 1 (4 - 1) = Some [c, 0, 0, 0]"
    by (simp add: mem_store_def numeral_3_eq_3)
  show ?thesis
    unfolding b64_decode_ex_def assms(1,5) prod.case option.case l bind.bind_lunit sum.case z
    by (simp add: b64_translate_def b64_dec_buf_eq assms(2))
qed

theorem b64_decode_single_char_witness:
  "b64_decode_ex plain_malloc (\<lambda>h p n. (if n = 0 then None else Some (take n p), h)) [0, 0, 0, 0]
     (65 # [66]) 1 () = Some (None, ())"
  by (rule b64_decode_single_char [where p = "[0xa5]"])
     (simp_all add: plain_malloc_def b64_stop_def isalnum_def)

end
