(* ===== verification/Md5_Sine.thy ===== *)
theory Md5_Sine
  imports Complex_Main Prelude
begin

text \<open>
  The constants of RFC 1321: the element \<open>T[i]\<close> of its table is the integer part of 4294967296 times \<open>abs(sin(i))\<close>, \<open>i\<close> in radians. Here the table is
  calculated from that definition, with fixed-point numbers of 128 binary digits whose errors are bounded.
\<close>

definition rfc_T :: "nat \<Rightarrow> u32" where
  "rfc_T i = word_of_int \<lfloor>4294967296 * \<bar>sin (real i)\<bar>\<rfloor>"

subsection \<open>The first values\<close>

lemma scaled_bound:
  fixes x q r k :: real
  shows "\<bar>x - q\<bar> \<le> r \<Longrightarrow> 0 \<le> k \<Longrightarrow> \<bar>k * q - v\<bar> + k * r \<le> 1 \<Longrightarrow> \<bar>k * x - v\<bar> \<le> 1"
proof -
  assume a: "\<bar>x - q\<bar> \<le> r" "0 \<le> k" "\<bar>k * q - v\<bar> + k * r \<le> 1"
  have "\<bar>k * x - k * q\<bar> = k * \<bar>x - q\<bar>" using a(2) by (simp add: abs_mult right_diff_distrib [symmetric])
  then have "\<bar>k * x - k * q\<bar> \<le> k * r" using mult_left_mono [OF a(1,2)] by simp
  with a(3) show ?thesis by linarith
qed

lemma sin_1: "\<bar>2 ^ 128 * sin 1 - real_of_int 286337738405724074564845076175058320434\<bar> \<le> 1"
proof (rule scaled_bound)
  show "\<bar>sin 1 - (\<Sum>m<40. sin_coeff m * 1 ^ m)\<bar> \<le> inverse (fact 40) * \<bar>1 :: real\<bar> ^ 40" by (rule Maclaurin_sin_bound)
qed (simp_all add: sin_coeff_def lessThan_nat_numeral fact_numeral)

lemma cos_1: "\<bar>2 ^ 128 * (2 * cos 1) - real_of_int 367710694987302884855369840570621196883\<bar> \<le> 1"
proof (rule scaled_bound)
  obtain t where t: "cos 1 = (\<Sum>m<41. cos_coeff m * 1 ^ m) + (cos (t + 1 / 2 * real 41 * pi) / fact 41) * 1 ^ 41"
    using Maclaurin_cos_expansion [of 1 41] by blast
  have "\<bar>cos (t + 1 / 2 * real 41 * pi)\<bar> / fact 41 \<le> 1 / fact 41" by (intro divide_right_mono abs_cos_le_one) simp
  with t show "\<bar>2 * cos 1 - 2 * (\<Sum>m<41. cos_coeff m * 1 ^ m)\<bar> \<le> 2 * (1 / fact 41 :: real)"
    by (simp add: abs_mult)
qed (simp_all add: cos_coeff_def lessThan_nat_numeral fact_numeral)

subsection \<open>The recurrence\<close>

text \<open>\<open>(a, b)\<close> approximates the sines of two successive numbers with the errors \<open>(d, e)\<close>.\<close>

definition next_sine :: "int \<times> int \<times> int \<times> int \<Rightarrow> int \<times> int \<times> int \<times> int" where
  "next_sine = (\<lambda>(a, b, d, e). (b, 367710694987302884855369840570621196883 * b div 2 ^ 128 - a, e, 2 * e + d + 2))"

fun sine_values :: "nat \<Rightarrow> int \<times> int \<times> int \<times> int \<Rightarrow> (int \<times> int) list" where
  "sine_values 0 v = []"
| "sine_values (Suc n) (a, b, d, e) = (b, e) # sine_values n (next_sine (a, b, d, e))"

definition near :: "real \<Rightarrow> int \<Rightarrow> int \<Rightarrow> bool" where
  "near x a d \<longleftrightarrow> \<bar>2 ^ 128 * x - a\<bar> \<le> d"

lemma sin_step: "sin (x + 2) = 2 * cos 1 * sin (x + 1) - sin (x :: real)"
  using sin_add [of "x + 1" 1] sin_diff [of "x + 1" 1] by (simp add: add.assoc add.commute)

lemma next_near:
  assumes "near (sin x) a d" "near (sin (x + 1)) b e" "next_sine (a, b, d, e) = (b, c, e, f)"
  shows "near (sin (x + 2)) c f"
proof -
  let ?c = "367710694987302884855369840570621196883 :: int"
  let ?K = "2 ^ 128 :: real"
  have c: "c = ?c * b div 2 ^ 128 - a" and f: "f = 2 * e + d + 2" using assms(3) by (simp_all add: next_sine_def)
  have ab: "\<bar>?K * sin x - a\<bar> \<le> d" "\<bar>?K * sin (x + 1) - b\<bar> \<le> e" using assms(1,2) by (simp_all add: near_def)
  have "\<bar>(?K * (2 * cos 1) - ?c) * sin (x + 1)\<bar> \<le> 1 * 1" unfolding abs_mult by (intro mult_mono cos_1 abs_sin_le_one) simp_all
  moreover have "\<bar>?c / ?K * (?K * sin (x + 1) - b)\<bar> \<le> 2 * e"
    using mult_mono [of "\<bar>?c / ?K\<bar>" 2 "\<bar>?K * sin (x + 1) - b\<bar>" e] ab(2) by (simp add: abs_mult)
  moreover have "\<bar>?c * b / ?K - real_of_int (?c * b div 2 ^ 128)\<bar> \<le> 1"
  proof -
    have "real_of_int (?c * b div 2 ^ 128) = \<lfloor>real_of_int (?c * b) / real_of_int (2 ^ 128)\<rfloor>" by (simp only: floor_divide_of_int_eq)
    then show ?thesis by (simp only: of_int_power of_int_numeral of_int_mult) linarith
  qed
  moreover have "?K * sin (x + 2) - c = (?K * (2 * cos 1) - ?c) * sin (x + 1) + ?c / ?K * (?K * sin (x + 1) - b)
      + (?c * b / ?K - real_of_int (?c * b div 2 ^ 128)) - (?K * sin x - a)"
    by (simp add: sin_step c field_simps)
  ultimately have "\<bar>?K * sin (x + 2) - c\<bar> \<le> 2 * real_of_int e + d + 2" using ab(1) by linarith
  then show ?thesis by (simp add: near_def f)
qed

lemma sine_values_near:
  "near (sin (real m)) a d \<Longrightarrow> near (sin (real m + 1)) b e \<Longrightarrow> i < n
   \<Longrightarrow> near (sin (real (Suc (m + i)))) (fst (sine_values n (a, b, d, e) ! i)) (snd (sine_values n (a, b, d, e) ! i))"
proof (induction n arbitrary: m a b d e i)
  case (Suc n)
  obtain c f where n: "next_sine (a, b, d, e) = (b, c, e, f)" by (simp add: next_sine_def)
  have "near (sin (real (Suc m) + 1)) c f" using next_near [OF Suc.prems(1,2) n] by (simp add: add.commute)
  moreover have "near (sin (real (Suc m))) b e" using Suc.prems(2) by (simp add: add.commute)
  ultimately show ?case using Suc.IH [of "Suc m" b e c f "i - 1"] Suc.prems n by (cases i) (simp_all add: add.commute)
qed simp

text \<open>The interval of a value lies between two integers.\<close>

definition settled :: "int \<times> int \<Rightarrow> int \<Rightarrow> bool" where
  "settled v t \<longleftrightarrow> (case v of (a, d) \<Rightarrow> t * 2 ^ 96 \<le> \<bar>a\<bar> - d \<and> \<bar>a\<bar> + d < (t + 1) * 2 ^ 96)"

lemma settled_floor:
  assumes "near x a d" "settled (a, d) t"
  shows "\<lfloor>4294967296 * \<bar>x\<bar>\<rfloor> = t"
proof -
  have "\<bar>\<bar>2 ^ 128 * x\<bar> - \<bar>real_of_int a\<bar>\<bar> \<le> d" using assms(1) unfolding near_def by linarith
  moreover have "\<bar>2 ^ 128 * x\<bar> = 2 ^ 96 * (4294967296 * \<bar>x\<bar>)" by (simp add: abs_mult)
  moreover have "real_of_int (t * 2 ^ 96) \<le> real_of_int (\<bar>a\<bar> - d)" "real_of_int (\<bar>a\<bar> + d) < real_of_int ((t + 1) * 2 ^ 96)"
    using assms(2) unfolding settled_def by (simp_all only: of_int_le_iff of_int_less_iff split_conv)
  ultimately have "t \<le> 4294967296 * \<bar>x\<bar>" "4294967296 * \<bar>x\<bar> < t + 1" by simp_all
  then show ?thesis by (intro floor_unique) simp_all
qed

lemma length_sine_values [simp]: "length (sine_values n v) = n"
  by (induction n v rule: sine_values.induct) (simp_all add: next_sine_def)

lemma sine_table:
  assumes "list_all2 settled (sine_values 64 (0, 286337738405724074564845076175058320434, 0, 1)) ts" "i < 64"
  shows "rfc_T (Suc i) = word_of_int (ts ! i)"
proof -
  obtain vs where vs: "vs = sine_values 64 (0, 286337738405724074564845076175058320434, 0, 1)" by blast
  have "near (sin (real (Suc (0 + i)))) (fst (vs ! i)) (snd (vs ! i))"
    unfolding vs using sin_1 assms(2) by (intro sine_values_near) (simp_all add: near_def)
  then have "near (sin (real (Suc i))) (fst (vs ! i)) (snd (vs ! i))" by (simp only: add_0)
  moreover have "settled (fst (vs ! i), snd (vs ! i)) (ts ! i)"
    using list_all2_nthD [OF assms(1), of i] assms(2) unfolding vs [symmetric] by (simp add: vs)
  ultimately show ?thesis unfolding rfc_T_def by (simp only: settled_floor)
qed

lemma next_value:
  "sine_values (numeral n) (a, b, d, e) = (b, e) # sine_values (pred_numeral n)
     (b, drop_bit 128 (367710694987302884855369840570621196883 * b) - a, e, 2 * e + d + 2)"
  by (simp add: numeral_eq_Suc next_sine_def drop_bit_eq_div)

lemma settled_pair: "settled (a, d) t \<longleftrightarrow> t * 79228162514264337593543950336 \<le> \<bar>a\<bar> - d \<and> \<bar>a\<bar> + d < (t + 1) * 79228162514264337593543950336"
  by (simp add: settled_def)

lemma sine_calculation: "list_all2 settled (sine_values 64 (0, 286337738405724074564845076175058320434, 0, 1))
    [0xd76aa478, 0xe8c7b756, 0x242070db, 0xc1bdceee, 0xf57c0faf, 0x4787c62a, 0xa8304613, 0xfd469501,
     0x698098d8, 0x8b44f7af, 0xffff5bb1, 0x895cd7be, 0x6b901122, 0xfd987193, 0xa679438e, 0x49b40821,
     0xf61e2562, 0xc040b340, 0x265e5a51, 0xe9b6c7aa, 0xd62f105d, 0x2441453, 0xd8a1e681, 0xe7d3fbc8,
     0x21e1cde6, 0xc33707d6, 0xf4d50d87, 0x455a14ed, 0xa9e3e905, 0xfcefa3f8, 0x676f02d9, 0x8d2a4c8a,
     0xfffa3942, 0x8771f681, 0x6d9d6122, 0xfde5380c, 0xa4beea44, 0x4bdecfa9, 0xf6bb4b60, 0xbebfbc70,
     0x289b7ec6, 0xeaa127fa, 0xd4ef3085, 0x4881d05, 0xd9d4d039, 0xe6db99e5, 0x1fa27cf8, 0xc4ac5665,
     0xf4292244, 0x432aff97, 0xab9423a7, 0xfc93a039, 0x655b59c3, 0x8f0ccc92, 0xffeff47d, 0x85845dd1,
     0x6fa87e4f, 0xfe2ce6e0, 0xa3014314, 0x4e0811a1, 0xf7537e82, 0xbd3af235, 0x2ad7d2bb, 0xeb86d391]"
  by (simp add: next_value settled_pair)

lemmas rfc_T_value = sine_table [OF sine_calculation]

end
