(* ===== verification/Md5.thy ===== *)
theory Md5
  imports Interfaces Md5_Sine
begin

text \<open>
  The MD5 message digest of \<open>src/md5.c\<close> on a little-endian machine (where \<open>SWAP\<close> is the identity)
  with 64-bit \<open>size_t\<close>. The source holds four variants of the compression of a block, selected
  by \<open>MD5SUM_SIZE_VS_SPEED\<close> (set to 2): \<open>md5_block0\<close> is the unrolled one, \<open>md5_block1\<close> the one with
  loops of four steps, \<open>md5_block2\<close> the one with four loops of 16 steps and \<open>md5_block3\<close> the single
  loop. They are shown to agree with each other and with the definition of RFC 1321; on top of
  that the buffering of \<open>md5_process_bytes\<close>, the padding of \<open>md5_finish_ctx\<close> and the reading loop
  of \<open>md5_stream\<close> are shown to compute the digest of the whole message however it is cut.
  A pointer into a byte array is the list of the bytes from it to the end of the array.
\<close>

subsection \<open>Tables and step functions\<close>

type_synonym md5_regs = "u32 \<times> u32 \<times> u32 \<times> u32"

record md5_ctx =
  md5_A :: u32
  md5_B :: u32
  md5_C :: u32
  md5_D :: u32
  md5_total0 :: u32
  md5_total1 :: u32
  md5_buflen :: u32
  md5_buf :: bytes

definition CYCLIC :: "u32 \<Rightarrow> nat \<Rightarrow> u32" where
  "CYCLIC w s = push_bit s w OR drop_bit (32 - s) w"

definition FF :: "u32 \<Rightarrow> u32 \<Rightarrow> u32 \<Rightarrow> u32" where
  "FF b c d = d XOR (b AND (c XOR d))"

definition FG :: "u32 \<Rightarrow> u32 \<Rightarrow> u32 \<Rightarrow> u32" where
  "FG b c d = FF d b c"

definition FH :: "u32 \<Rightarrow> u32 \<Rightarrow> u32 \<Rightarrow> u32" where
  "FH b c d = b XOR c XOR d"

definition FI :: "u32 \<Rightarrow> u32 \<Rightarrow> u32 \<Rightarrow> u32" where
  "FI b c d = c XOR (b OR NOT d)"

definition C_array :: "u32 list" where
  "C_array =
    [0xd76aa478, 0xe8c7b756, 0x242070db, 0xc1bdceee, 0xf57c0faf, 0x4787c62a, 0xa8304613, 0xfd469501,
     0x698098d8, 0x8b44f7af, 0xffff5bb1, 0x895cd7be, 0x6b901122, 0xfd987193, 0xa679438e, 0x49b40821,
     0xf61e2562, 0xc040b340, 0x265e5a51, 0xe9b6c7aa, 0xd62f105d, 0x2441453, 0xd8a1e681, 0xe7d3fbc8,
     0x21e1cde6, 0xc33707d6, 0xf4d50d87, 0x455a14ed, 0xa9e3e905, 0xfcefa3f8, 0x676f02d9, 0x8d2a4c8a,
     0xfffa3942, 0x8771f681, 0x6d9d6122, 0xfde5380c, 0xa4beea44, 0x4bdecfa9, 0xf6bb4b60, 0xbebfbc70,
     0x289b7ec6, 0xeaa127fa, 0xd4ef3085, 0x4881d05, 0xd9d4d039, 0xe6db99e5, 0x1fa27cf8, 0xc4ac5665,
     0xf4292244, 0x432aff97, 0xab9423a7, 0xfc93a039, 0x655b59c3, 0x8f0ccc92, 0xffeff47d, 0x85845dd1,
     0x6fa87e4f, 0xfe2ce6e0, 0xa3014314, 0x4e0811a1, 0xf7537e82, 0xbd3af235, 0x2ad7d2bb, 0xeb86d391]"

definition P_array :: "nat list" where
  "P_array =
    [0, 1, 2, 3, 4, 5, 6, 7, 8, 9, 10, 11, 12, 13, 14, 15,
     1, 6, 11, 0, 5, 10, 15, 4, 9, 14, 3, 8, 13, 2, 7, 12,
     5, 8, 11, 14, 1, 4, 7, 10, 13, 0, 3, 6, 9, 12, 15, 2,
     0, 7, 14, 5, 12, 3, 10, 1, 8, 15, 6, 13, 4, 11, 2, 9]"

definition S_array :: "nat list" where
  "S_array = [7, 12, 17, 22, 5, 9, 14, 20, 4, 11, 16, 23, 6, 10, 15, 21]"

text \<open>The body of the table-driven loops: \<open>temp = A + f(B,C,D) + w + T\<close>, rotated, plus \<open>B\<close>; then the
  registers move on.\<close>

definition md5_step :: "(u32 \<Rightarrow> u32 \<Rightarrow> u32 \<Rightarrow> u32) \<Rightarrow> u32 \<Rightarrow> nat \<Rightarrow> u32 \<Rightarrow> md5_regs \<Rightarrow> md5_regs" where
  "md5_step f w s T = (\<lambda>(A, B, C, D).
     let temp = A + f B C D + w + T;
         temp = CYCLIC temp s;
         temp = temp + B
     in (D, temp, B, C))"

subsection \<open>The four variants of a block\<close>

text \<open>Variant 3: one loop of 64 steps; \<open>ps\<close> advances by four every 16 steps.\<close>

definition md5_block3 :: "u32 list \<Rightarrow> md5_regs \<Rightarrow> md5_regs" where
  "md5_block3 cwp r = fold (\<lambda>i. md5_step
       (if i div 16 = 0 then FF else if i div 16 = 1 then FG else if i div 16 = 2 then FH else FI)
       (cwp ! (P_array ! i)) (S_array ! (4 * (i div 16) + i mod 4)) (C_array ! i)) [0..<64] r"

text \<open>Variant 2: four loops of 16 steps; \<open>pc\<close> and \<open>pp\<close> run on, \<open>ps\<close> advances by four between them.\<close>

definition md5_loop16 :: "(u32 \<Rightarrow> u32 \<Rightarrow> u32 \<Rightarrow> u32) \<Rightarrow> u32 list \<Rightarrow> nat \<Rightarrow> md5_regs \<Rightarrow> md5_regs" where
  "md5_loop16 f cwp rnd r = fold (\<lambda>i. md5_step f (cwp ! (P_array ! (16 * rnd + i)))
       (S_array ! (4 * rnd + i mod 4)) (C_array ! (16 * rnd + i))) [0..<16] r"

definition md5_block2 :: "u32 list \<Rightarrow> md5_regs \<Rightarrow> md5_regs" where
  "md5_block2 cwp r =
     md5_loop16 FI cwp 3 (md5_loop16 FH cwp 2 (md5_loop16 FG cwp 1 (md5_loop16 FF cwp 0 r)))"

text \<open>The macro \<open>OP\<close> of the other variants, by the register it updates.\<close>

definition md5_op :: "(u32 \<Rightarrow> u32 \<Rightarrow> u32 \<Rightarrow> u32) \<Rightarrow> u32 \<Rightarrow> u32 \<Rightarrow> u32 \<Rightarrow> u32 \<Rightarrow> u32 \<Rightarrow> nat \<Rightarrow> u32 \<Rightarrow> u32" where
  "md5_op f a b c d w s T = CYCLIC (a + (f b c d + w + T)) s + b"

definition OPA :: "(u32 \<Rightarrow> u32 \<Rightarrow> u32 \<Rightarrow> u32) \<Rightarrow> u32 \<Rightarrow> nat \<Rightarrow> u32 \<Rightarrow> md5_regs \<Rightarrow> md5_regs" where
  "OPA f w s T = (\<lambda>(A, B, C, D). (md5_op f A B C D w s T, B, C, D))"

definition OPD :: "(u32 \<Rightarrow> u32 \<Rightarrow> u32 \<Rightarrow> u32) \<Rightarrow> u32 \<Rightarrow> nat \<Rightarrow> u32 \<Rightarrow> md5_regs \<Rightarrow> md5_regs" where
  "OPD f w s T = (\<lambda>(A, B, C, D). (A, B, C, md5_op f D A B C w s T))"

definition OPC :: "(u32 \<Rightarrow> u32 \<Rightarrow> u32 \<Rightarrow> u32) \<Rightarrow> u32 \<Rightarrow> nat \<Rightarrow> u32 \<Rightarrow> md5_regs \<Rightarrow> md5_regs" where
  "OPC f w s T = (\<lambda>(A, B, C, D). (A, B, md5_op f C D A B w s T, D))"

definition OPB :: "(u32 \<Rightarrow> u32 \<Rightarrow> u32 \<Rightarrow> u32) \<Rightarrow> u32 \<Rightarrow> nat \<Rightarrow> u32 \<Rightarrow> md5_regs \<Rightarrow> md5_regs" where
  "OPB f w s T = (\<lambda>(A, B, C, D). (A, md5_op f B C D A w s T, C, D))"

text \<open>Variant 1: per round four times four steps.\<close>

definition md5_loop4 :: "(u32 \<Rightarrow> u32 \<Rightarrow> u32 \<Rightarrow> u32) \<Rightarrow> u32 list \<Rightarrow> nat \<Rightarrow> nat \<Rightarrow> nat \<Rightarrow> nat \<Rightarrow> nat \<Rightarrow> md5_regs \<Rightarrow> md5_regs" where
  "md5_loop4 f w rnd s1 s2 s3 s4 r = fold (\<lambda>i r.
     let k = 16 * rnd + 4 * i in
     OPB f (w ! (P_array ! (k + 3))) s4 (C_array ! (k + 3))
      (OPC f (w ! (P_array ! (k + 2))) s3 (C_array ! (k + 2))
        (OPD f (w ! (P_array ! (k + 1))) s2 (C_array ! (k + 1))
          (OPA f (w ! (P_array ! k)) s1 (C_array ! k) r)))) [0..<4] r"

definition md5_block1 :: "u32 list \<Rightarrow> md5_regs \<Rightarrow> md5_regs" where
  "md5_block1 w r =
     md5_loop4 FI w 3 6 10 15 21 (md5_loop4 FH w 2 4 11 16 23
      (md5_loop4 FG w 1 5 9 14 20 (md5_loop4 FF w 0 7 12 17 22 r)))"

text \<open>Variant 0: the 64 invocations of the macro, in order.\<close>

definition md5_block0 :: "u32 list \<Rightarrow> md5_regs \<Rightarrow> md5_regs" where
  "md5_block0 w r = foldl (\<lambda>r op. op r) r
      [OPA FF (w ! 0) 7 0xd76aa478, OPD FF (w ! 1) 12 0xe8c7b756,
       OPC FF (w ! 2) 17 0x242070db, OPB FF (w ! 3) 22 0xc1bdceee,
       OPA FF (w ! 4) 7 0xf57c0faf, OPD FF (w ! 5) 12 0x4787c62a,
       OPC FF (w ! 6) 17 0xa8304613, OPB FF (w ! 7) 22 0xfd469501,
       OPA FF (w ! 8) 7 0x698098d8, OPD FF (w ! 9) 12 0x8b44f7af,
       OPC FF (w ! 10) 17 0xffff5bb1, OPB FF (w ! 11) 22 0x895cd7be,
       OPA FF (w ! 12) 7 0x6b901122, OPD FF (w ! 13) 12 0xfd987193,
       OPC FF (w ! 14) 17 0xa679438e, OPB FF (w ! 15) 22 0x49b40821,
       OPA FG (w ! 1) 5 0xf61e2562, OPD FG (w ! 6) 9 0xc040b340,
       OPC FG (w ! 11) 14 0x265e5a51, OPB FG (w ! 0) 20 0xe9b6c7aa,
       OPA FG (w ! 5) 5 0xd62f105d, OPD FG (w ! 10) 9 0x02441453,
       OPC FG (w ! 15) 14 0xd8a1e681, OPB FG (w ! 4) 20 0xe7d3fbc8,
       OPA FG (w ! 9) 5 0x21e1cde6, OPD FG (w ! 14) 9 0xc33707d6,
       OPC FG (w ! 3) 14 0xf4d50d87, OPB FG (w ! 8) 20 0x455a14ed,
       OPA FG (w ! 13) 5 0xa9e3e905, OPD FG (w ! 2) 9 0xfcefa3f8,
       OPC FG (w ! 7) 14 0x676f02d9, OPB FG (w ! 12) 20 0x8d2a4c8a,
       OPA FH (w ! 5) 4 0xfffa3942, OPD FH (w ! 8) 11 0x8771f681,
       OPC FH (w ! 11) 16 0x6d9d6122, OPB FH (w ! 14) 23 0xfde5380c,
       OPA FH (w ! 1) 4 0xa4beea44, OPD FH (w ! 4) 11 0x4bdecfa9,
       OPC FH (w ! 7) 16 0xf6bb4b60, OPB FH (w ! 10) 23 0xbebfbc70,
       OPA FH (w ! 13) 4 0x289b7ec6, OPD FH (w ! 0) 11 0xeaa127fa,
       OPC FH (w ! 3) 16 0xd4ef3085, OPB FH (w ! 6) 23 0x04881d05,
       OPA FH (w ! 9) 4 0xd9d4d039, OPD FH (w ! 12) 11 0xe6db99e5,
       OPC FH (w ! 15) 16 0x1fa27cf8, OPB FH (w ! 2) 23 0xc4ac5665,
       OPA FI (w ! 0) 6 0xf4292244, OPD FI (w ! 7) 10 0x432aff97,
       OPC FI (w ! 14) 15 0xab9423a7, OPB FI (w ! 5) 21 0xfc93a039,
       OPA FI (w ! 12) 6 0x655b59c3, OPD FI (w ! 3) 10 0x8f0ccc92,
       OPC FI (w ! 10) 15 0xffeff47d, OPB FI (w ! 1) 21 0x85845dd1,
       OPA FI (w ! 8) 6 0x6fa87e4f, OPD FI (w ! 15) 10 0xfe2ce6e0,
       OPC FI (w ! 6) 15 0xa3014314, OPB FI (w ! 13) 21 0x4e0811a1,
       OPA FI (w ! 4) 6 0xf7537e82, OPD FI (w ! 11) 10 0xbd3af235,
       OPC FI (w ! 2) 15 0x2ad7d2bb, OPB FI (w ! 9) 21 0xeb86d391]"

subsection \<open>Context operations\<close>

definition md5_init_ctx :: "md5_ctx \<Rightarrow> md5_ctx" where
  "md5_init_ctx ctx = ctx\<lparr>md5_A := 0x67452301, md5_B := 0xefcdab89, md5_C := 0x98badcfe,
     md5_D := 0x10325476, md5_total0 := 0, md5_total1 := 0, md5_buflen := 0\<rparr>"

text \<open>Loading the sixteen words of a block.\<close>

definition md5_load16 :: "bytes \<Rightarrow> u32 list option" where
  "md5_load16 p = (if 64 \<le> length p
     then Some (map (\<lambda>i. le32_word (p ! (4 * i)) (p ! (4 * i + 1)) (p ! (4 * i + 2)) (p ! (4 * i + 3))) [0..<16])
     else None)"

text \<open>The loop \<open>while (words < endp)\<close>; \<open>n\<close> is \<open>endp - words\<close>, which drops by 16 and ends the loop at
  zero or below.\<close>

function md5_words_loop :: "bytes \<Rightarrow> nat \<Rightarrow> md5_regs \<Rightarrow> md5_regs option" where
  "md5_words_loop p n r =
     (if 0 < n then do {
        cwp \<leftarrow> md5_load16 p;
        let (A, B, C, D) = md5_block2 cwp r;
        let (As, Bs, Cs, Ds) = r;
        md5_words_loop (drop 64 p) (n - 16) (A + As, B + Bs, C + Cs, D + Ds) }
      else Some r)"
  by pat_completeness auto
termination by (relation "measure (\<lambda>(_, n, _). n)") auto

declare md5_words_loop.simps [simp del]

definition md5_process_block :: "bytes \<Rightarrow> u64 \<Rightarrow> md5_ctx \<Rightarrow> md5_ctx option" where
  "md5_process_block buffer len ctx = do {
     let nwords = len div 4;
     let ctx = ctx\<lparr>md5_total0 := md5_total0 ctx + ucast len\<rparr>;
     let ctx = (if (ucast (md5_total0 ctx) :: u64) < len
                then ctx\<lparr>md5_total1 := md5_total1 ctx + 1\<rparr> else ctx);
     (A, B, C, D) \<leftarrow> md5_words_loop buffer (unat nwords) (md5_A ctx, md5_B ctx, md5_C ctx, md5_D ctx);
     Some (ctx\<lparr>md5_A := A, md5_B := B, md5_C := C, md5_D := D\<rparr>) }"

text \<open>The two parts of \<open>md5_process_bytes\<close>: completing what is already buffered (lines 214--231), then
  whole blocks from the caller's array and the rest into the buffer (lines 233--244).\<close>

definition md5_fill :: "bytes \<Rightarrow> u64 \<Rightarrow> md5_ctx \<Rightarrow> (bytes \<times> u64 \<times> md5_ctx) option" where
  "md5_fill buffer len ctx =
     (if md5_buflen ctx \<noteq> 0 then do {
        let left_over = (ucast (md5_buflen ctx) :: u64);
        let add = (if 128 - left_over > len then len else 128 - left_over);
        d \<leftarrow> mem_read buffer 0 (unat add);
        b \<leftarrow> mem_write (md5_buf ctx) (unat left_over) d;
        let ctx = ctx\<lparr>md5_buf := b, md5_buflen := md5_buflen ctx + ucast add\<rparr>;
        ctx \<leftarrow>
          (if left_over + add > 64 then do {
             ctx \<leftarrow> md5_process_block (md5_buf ctx) ((left_over + add) AND NOT 63) ctx;
             t \<leftarrow> mem_read (md5_buf ctx) (unat ((left_over + add) AND NOT 63)) (unat ((left_over + add) AND 63));
             b \<leftarrow> mem_write (md5_buf ctx) 0 t;
             Some (ctx\<lparr>md5_buf := b, md5_buflen := ucast ((left_over + add) AND 63)\<rparr>) }
           else Some ctx);
        Some (drop (unat add) buffer, len - add, ctx) }
      else Some (buffer, len, ctx))"

definition md5_rest :: "bytes \<Rightarrow> u64 \<Rightarrow> md5_ctx \<Rightarrow> md5_ctx option" where
  "md5_rest buffer len ctx = do {
     (buffer, len, ctx) \<leftarrow>
       (if len > 64 then do {
          ctx \<leftarrow> md5_process_block buffer (len AND NOT 63) ctx;
          Some (drop (unat (len AND NOT 63)) buffer, len AND 63, ctx) }
        else Some (buffer, len, ctx));
     if len > 0 then do {
       d \<leftarrow> mem_read buffer 0 (unat len);
       b \<leftarrow> mem_write (md5_buf ctx) 0 d;
       Some (ctx\<lparr>md5_buf := b, md5_buflen := ucast len\<rparr>) }
     else Some ctx }"

definition md5_process_bytes :: "bytes \<Rightarrow> u64 \<Rightarrow> md5_ctx \<Rightarrow> md5_ctx option" where
  "md5_process_bytes buffer len ctx = do {
     (buffer, len, ctx) \<leftarrow> md5_fill buffer len ctx;
     md5_rest buffer len ctx }"

text \<open>\<open>md5_finish_ctx\<close> returns the 16 bytes it stores at \<open>resbuf\<close>; the stores at \<open>bytes + pad\<close> are the
  two little-endian halves of the bit count.\<close>

definition md5_finish_ctx :: "md5_ctx \<Rightarrow> (md5_ctx \<times> bytes) option" where
  "md5_finish_ctx ctx = do {
     let bytes = md5_buflen ctx;
     let ctx = ctx\<lparr>md5_total0 := md5_total0 ctx + bytes\<rparr>;
     let ctx = (if md5_total0 ctx < bytes then ctx\<lparr>md5_total1 := md5_total1 ctx + 1\<rparr> else ctx);
     let pad = (if bytes \<ge> 56 then 64 + 56 - bytes else 56 - bytes);
     b \<leftarrow> mem_write (md5_buf ctx) (unat bytes) (replicate (unat pad) 0);
     b \<leftarrow> mem_store b (unat bytes) 0x80;
     b \<leftarrow> mem_write b (unat bytes + unat pad) (le32_bytes (push_bit 3 (md5_total0 ctx)));
     b \<leftarrow> mem_write b (unat bytes + unat pad + 4)
            (le32_bytes (push_bit 3 (md5_total1 ctx) OR drop_bit 29 (md5_total0 ctx)));
     let ctx = ctx\<lparr>md5_buf := b\<rparr>;
     ctx \<leftarrow> md5_process_block (md5_buf ctx) (ucast bytes + ucast pad + 8) ctx;
     Some (ctx, le32_bytes (md5_A ctx) @ le32_bytes (md5_B ctx) @ le32_bytes (md5_C ctx) @ le32_bytes (md5_D ctx)) }"

text \<open>\<open>ctx\<close> is the uninitialised local variable.\<close>

definition md5_buffer :: "md5_ctx \<Rightarrow> bytes \<Rightarrow> u64 \<Rightarrow> bytes option" where
  "md5_buffer ctx buffer len = do {
     ctx \<leftarrow> md5_process_bytes buffer len (md5_init_ctx ctx);
     (ctx, res) \<leftarrow> md5_finish_ctx ctx;
     Some res }"

text \<open>A stream is the list of pieces that successive reads deliver (a read never returns bytes of two
  pieces, so short reads occur anywhere) and whether an error follows the last one.\<close>

record stdio =
  io_pieces :: "bytes list"
  io_fails :: bool

definition fread :: "nat \<Rightarrow> stdio \<Rightarrow> bytes \<times> stdio" where
  "fread n st = (case io_pieces st of [] \<Rightarrow> ([], st)
     | c # cs \<Rightarrow> if length c \<le> n then (c, st\<lparr>io_pieces := cs\<rparr>)
                else (take n c, st\<lparr>io_pieces := drop n c # cs\<rparr>))"

definition ferror :: "stdio \<Rightarrow> bool" where
  "ferror st \<longleftrightarrow> io_pieces st = [] \<and> io_fails st"

definition BLOCKSIZE :: nat where
  "BLOCKSIZE = 4096"

lemma fread_length: "length (fst (fread n st)) \<le> n"
  by (auto simp: fread_def split: list.splits)

text \<open>The inner loop: \<open>buffer\<close> is the filled part of the local array, so \<open>sum\<close> is its length; the
  second result says that the last \<open>fread\<close> returned 0.\<close>

function md5_read_block :: "bytes \<Rightarrow> stdio \<Rightarrow> bytes \<times> bool \<times> stdio" where
  "md5_read_block buffer st =
     (let (d, st) = fread (BLOCKSIZE - length buffer) st;
          buffer = buffer @ d
      in if length buffer < BLOCKSIZE \<and> d \<noteq> [] then md5_read_block buffer st
         else (buffer, d = [], st))"
  by pat_completeness auto
termination
  by (relation "measure (\<lambda>(b, _). BLOCKSIZE - length b)") (auto simp flip: length_greater_0_conv)

declare md5_read_block.simps [simp del]

lemma fread_data: "fread n st = (d, st') \<Longrightarrow> d @ concat (io_pieces st') = concat (io_pieces st)"
  by (auto simp: fread_def split: list.splits if_splits)

lemma md5_read_block_data:
  "md5_read_block buffer st = (b, eof, st') \<Longrightarrow> length buffer \<le> BLOCKSIZE \<Longrightarrow>
   b @ concat (io_pieces st') = buffer @ concat (io_pieces st) \<and> length b \<le> BLOCKSIZE
   \<and> (\<not> eof \<longrightarrow> length b = BLOCKSIZE)"
proof (induction buffer st rule: md5_read_block.induct)
  case (1 buffer st)
  obtain d st1 where f: "fread (BLOCKSIZE - length buffer) st = (d, st1)" by (cases "fread (BLOCKSIZE - length buffer) st")
  then have d: "d @ concat (io_pieces st1) = concat (io_pieces st)" "length (buffer @ d) \<le> BLOCKSIZE"
    using fread_data [OF f] fread_length [of "BLOCKSIZE - length buffer" st] 1(3) by simp_all
  show ?case
  proof (cases "length (buffer @ d) < BLOCKSIZE \<and> d \<noteq> []")
    case True
    from 1(2) True f have "md5_read_block (buffer @ d) st1 = (b, eof, st')"
      by (simp add: md5_read_block.simps [of buffer st] Let_def)
    with "1.IH" [OF f [symmetric] refl refl True] d show ?thesis by simp
  next
    case False
    with 1(2) f have "b = buffer @ d" "eof = (d = [])" "st' = st1"
      by (auto simp: md5_read_block.simps [of buffer st] Let_def)
    with False d show ?thesis by auto
  qed
qed

text \<open>The outer loop and the rest of \<open>md5_stream\<close>; the result is the return value and, unless it is
  1, the digest.\<close>

function md5_stream_loop :: "md5_ctx \<Rightarrow> stdio \<Rightarrow> (md5_ctx \<times> bytes) option option" where
  "md5_stream_loop ctx st =
     (let (buffer, eof, st) = md5_read_block [] st in
      if eof \<and> ferror st then Some None
      else if eof then Some (Some (ctx, buffer))
      else md5_process_block buffer (word_of_nat BLOCKSIZE) ctx \<bind> (\<lambda>ctx. md5_stream_loop ctx st))"
  by pat_completeness auto
termination
proof (relation "measure (\<lambda>(_, st). length (concat (io_pieces st)))", goal_cases)
  case (2 ctx st r b e eof st' ctx')
  then have "length b + length (concat (io_pieces st')) = length (concat (io_pieces st)) \<and> length b = BLOCKSIZE"
    using md5_read_block_data [of "[]" st b eof st'] by (metis append_Nil length_append list.size(3) zero_le)
  then show ?case by (simp add: BLOCKSIZE_def del: length_concat)
qed simp

declare md5_stream_loop.simps [simp del]

definition md5_stream :: "md5_ctx \<Rightarrow> stdio \<Rightarrow> (int \<times> bytes option) option" where
  "md5_stream ctx st = do {
     r \<leftarrow> md5_stream_loop (md5_init_ctx ctx) st;
     case r of None \<Rightarrow> Some (1, None)
     | Some (ctx, buffer) \<Rightarrow> do {
         ctx \<leftarrow> (if length buffer > 0 then md5_process_bytes buffer (word_of_nat (length buffer)) ctx else Some ctx);
         (ctx, res) \<leftarrow> md5_finish_ctx ctx;
         Some (0, Some res) } }"

subsection \<open>The variants agree\<close>

lemma four_ops_four_steps:
  "OPB f w4 s4 T4 (OPC f w3 s3 T3 (OPD f w2 s2 T2 (OPA f w1 s1 T1 r))) =
   md5_step f w4 s4 T4 (md5_step f w3 s3 T3 (md5_step f w2 s2 T2 (md5_step f w1 s1 T1 r)))"
  by (cases r) (simp add: OPA_def OPB_def OPC_def OPD_def md5_op_def md5_step_def Let_def add.assoc)

lemma upt16: "[0..<16] = [0, 1, 2, 3, 4, 5, 6, 7, 8, 9, 10, 11, 12, 13, 14, 15 :: nat]"
  by (simp add: upt_rec)

lemma upt4: "[0..<4] = [0, 1, 2, 3 :: nat]"
  by (simp add: upt_rec)

lemmas md5_loops = md5_loop4_def md5_loop16_def Let_def upt4 upt16 four_ops_four_steps

lemma md5_loop4_loop16:
  "md5_loop4 f w 0 7 12 17 22 r = md5_loop16 f w 0 r"
  "md5_loop4 f w 1 5 9 14 20 r = md5_loop16 f w 1 r"
  "md5_loop4 f w 2 4 11 16 23 r = md5_loop16 f w 2 r"
  "md5_loop4 f w 3 6 10 15 21 r = md5_loop16 f w 3 r"
  by (simp_all add: md5_loops S_array_def numeral_2_eq_2)

lemma md5_block1_block2: "md5_block1 w r = md5_block2 w r"
  unfolding md5_block1_def md5_block2_def md5_loop4_loop16 ..

lemma md5_block0_block1: "md5_block0 w r = md5_block1 w r"
  by (simp add: md5_block0_def md5_block1_def md5_loop4_def upt4 Let_def P_array_def C_array_def)

lemma fold_upt_shift: "fold f [k..<k + n] r = fold (\<lambda>i. f (k + i)) [0..<n] r"
proof -
  have "[k..<k + n] = map (\<lambda>i. k + i) [0..<n]"
    using map_add_upt [of k n] by (simp add: add.commute)
  then show ?thesis by (simp add: fold_map comp_def)
qed

lemma md5_block3_block2: "md5_block3 w r = md5_block2 w r"
proof -
  define g where "g i = md5_step
       (if i div 16 = 0 then FF else if i div 16 = 1 then FG else if i div 16 = 2 then FH else FI)
       (w ! (P_array ! i)) (S_array ! (4 * (i div 16) + i mod 4)) (C_array ! i)" for i
  have dm: "(16 + i) div 16 = 1" "(32 + i) div 16 = 2" "(48 + i) div 16 = 3" if "i < 16" for i :: nat
    using that div_mult_self4 [of 16 1 i] div_mult_self4 [of 16 2 i] div_mult_self4 [of 16 3 i] by simp_all
  have mm: "(16 + i) mod 4 = i mod 4" "(32 + i) mod 4 = i mod 4" "(48 + i) mod 4 = i mod 4" for i :: nat
    using mod_mult_self4 [of 4 4 i] mod_mult_self4 [of 4 8 i] mod_mult_self4 [of 4 12 i] by simp_all
  have rounds: "fold (\<lambda>i. g (0 + i)) [0..<16] = md5_loop16 FF w 0"
    "fold (\<lambda>i. g (16 + i)) [0..<16] = md5_loop16 FG w 1"
    "fold (\<lambda>i. g (32 + i)) [0..<16] = md5_loop16 FH w 2"
    "fold (\<lambda>i. g (48 + i)) [0..<16] = md5_loop16 FI w 3"
    unfolding md5_loop16_def g_def fun_eq_iff by (intro allI fold_cong; simp add: dm mm)+
  have u: "[0..<64] = [0..<0 + 16] @ [16..<16 + 16] @ [32..<32 + 16] @ [48..<48 + 16 :: nat]"
    by (simp add: upt_rec)
  have "md5_block3 w r = fold g [0..<64] r" by (simp add: md5_block3_def g_def [abs_def])
  then show ?thesis
    unfolding u fold_append comp_apply fold_upt_shift rounds md5_block2_def .
qed

text \<open>
  The auxiliary functions, word indices, shift amounts and step of RFC 1321; its constants are \<open>rfc_T\<close>, the integer parts of
  4294967296 times the absolute sines of 1 to 64.
\<close>

definition rfc_f :: "nat \<Rightarrow> u32 \<Rightarrow> u32 \<Rightarrow> u32 \<Rightarrow> u32" where
  "rfc_f i x y z =
     (if i < 16 then (x AND y) OR (NOT x AND z)
      else if i < 32 then (x AND z) OR (y AND NOT z)
      else if i < 48 then x XOR y XOR z
      else y XOR (x OR NOT z))"

definition rfc_k :: "nat \<Rightarrow> nat" where
  "rfc_k i =
     (if i < 16 then i else if i < 32 then (5 * i + 1) mod 16
      else if i < 48 then (3 * i + 5) mod 16 else (7 * i) mod 16)"

definition rfc_s :: "nat \<Rightarrow> nat" where
  "rfc_s i =
     (if i < 16 then [7, 12, 17, 22] else if i < 32 then [5, 9, 14, 20]
      else if i < 48 then [4, 11, 16, 23] else [6, 10, 15, 21]) ! (i mod 4)"

definition rfc_step :: "u32 list \<Rightarrow> nat \<Rightarrow> md5_regs \<Rightarrow> md5_regs" where
  "rfc_step X i = (\<lambda>(a, b, c, d).
     (d, b + word_rotl (rfc_s i) (a + rfc_f i b c d + X ! rfc_k i + rfc_T (Suc i)), b, c))"

definition rfc_block :: "u32 list \<Rightarrow> md5_regs \<Rightarrow> md5_regs" where
  "rfc_block X r = fold (rfc_step X) [0..<64] r"

lemma FF_rfc: "FF x y z = (x AND y) OR (NOT x AND z)"
  by (rule bit_eqI) (auto simp: FF_def bit_simps)

lemma FG_rfc: "FG x y z = (x AND z) OR (y AND NOT z)"
  by (rule bit_eqI) (auto simp: FG_def FF_def bit_simps)

lemma rfc_T_C_array: "i < 64 \<Longrightarrow> rfc_T (Suc i) = C_array ! i"
proof -
  assume i: "i < 64"
  obtain ts where ts: "list_all2 settled (sine_values 64 (0, 286337738405724074564845076175058320434, 0, 1)) ts" "map word_of_int ts = C_array"
    by (rule that [OF sine_calculation]) (simp add: C_array_def)
  moreover have "length ts = 64" using ts(1) by (simp add: list_all2_lengthD [symmetric])
  ultimately show ?thesis using sine_table [OF ts(1) i] i by (simp flip: ts(2))
qed

lemma rfc_tables: "map rfc_k [0..<64] = P_array"
  "map rfc_s [0..<64] = map (\<lambda>i. S_array ! (4 * (i div 16) + i mod 4)) [0..<64]"
  by (simp_all add: upt_rec rfc_k_def P_array_def rfc_s_def S_array_def)

lemma rfc_s_range: "0 < rfc_s i \<and> rfc_s i < 32"
proof -
  have "i mod 4 = 0 \<or> i mod 4 = 1 \<or> i mod 4 = 2 \<or> i mod 4 = 3" by presburger
  then show ?thesis by (auto simp: rfc_s_def)
qed

lemma md5_block3_rfc: "md5_block3 w r = rfc_block w r"
proof -
  have "md5_step (if i div 16 = 0 then FF else if i div 16 = 1 then FG else if i div 16 = 2 then FH else FI)
      (w ! (P_array ! i)) (S_array ! (4 * (i div 16) + i mod 4)) (C_array ! i) = rfc_step w i"
    if "i < 64" for i
  proof -
    have "P_array ! i = rfc_k i" using that arg_cong [OF rfc_tables(1), of "\<lambda>l. l ! i"] by simp
    moreover have "S_array ! (4 * (i div 16) + i mod 4) = rfc_s i"
      using that arg_cong [OF rfc_tables(2), of "\<lambda>l. l ! i"] by simp
    moreover have "CYCLIC x (rfc_s i) = word_rotl (rfc_s i) x" for x
      using rfc_s_range [of i] by (simp add: CYCLIC_def push_drop_rotl)
    moreover have "(if i div 16 = 0 then FF else if i div 16 = 1 then FG else if i div 16 = 2 then FH else FI)
        = rfc_f i"
      using that by (auto simp: rfc_f_def fun_eq_iff FF_rfc FG_rfc FH_def FI_def)
    ultimately show ?thesis
      using rfc_T_C_array [OF that] by (simp add: md5_step_def rfc_step_def Let_def fun_eq_iff add.commute)
  qed
  then show ?thesis unfolding md5_block3_def rfc_block_def by (intro fold_cong) auto
qed

subsection \<open>The digest of a message\<close>

text \<open>Compression of one 64-byte block, of a sequence of blocks, and the padded message.\<close>

definition block_words :: "bytes \<Rightarrow> u32 list" where
  "block_words p = map (\<lambda>i. le32_word (p ! (4 * i)) (p ! (4 * i + 1)) (p ! (4 * i + 2)) (p ! (4 * i + 3))) [0..<16]"

definition md5_compress :: "md5_regs \<Rightarrow> bytes \<Rightarrow> md5_regs" where
  "md5_compress r p = (case rfc_block (block_words p) r of (A, B, C, D) \<Rightarrow>
     (case r of (As, Bs, Cs, Ds) \<Rightarrow> (A + As, B + Bs, C + Cs, D + Ds)))"

function md5_compress_all :: "md5_regs \<Rightarrow> bytes \<Rightarrow> md5_regs" where
  "md5_compress_all r p =
     (if length p < 64 then r else md5_compress_all (md5_compress r (take 64 p)) (drop 64 p))"
  by pat_completeness auto
termination by (relation "measure (\<lambda>(_, p). length p)") auto

declare md5_compress_all.simps [simp del]

definition md5_start :: md5_regs where
  "md5_start = (0x67452301, 0xefcdab89, 0x98badcfe, 0x10325476)"

definition md5_pad :: "bytes \<Rightarrow> bytes" where
  "md5_pad xs = xs @ 0x80 # replicate ((119 - length xs mod 64) mod 64) 0
     @ le32_bytes (word_of_nat (8 * length xs)) @ le32_bytes (word_of_nat (8 * length xs div 2 ^ 32))"

definition regs_bytes :: "md5_regs \<Rightarrow> bytes" where
  "regs_bytes = (\<lambda>(A, B, C, D). le32_bytes A @ le32_bytes B @ le32_bytes C @ le32_bytes D)"

definition md5_digest :: "bytes \<Rightarrow> bytes" where
  "md5_digest xs = regs_bytes (md5_compress_all md5_start (md5_pad xs))"

lemma md5_compress_all_short [simp]: "length p < 64 \<Longrightarrow> md5_compress_all r p = r"
  by (simp add: md5_compress_all.simps)

lemma md5_compress_all_append:
  "length p mod 64 = 0 \<Longrightarrow> md5_compress_all r (p @ q) = md5_compress_all (md5_compress_all r p) q"
proof (induction r p rule: md5_compress_all.induct)
  case (1 r p)
  show ?case
  proof (cases "length p < 64")
    case True
    with 1(2) show ?thesis by simp
  next
    case False
    with 1(2) have "length (drop 64 p) mod 64 = 0" by (simp add: le_mod_geq)
    with 1(1) False show ?thesis
      by (simp add: md5_compress_all.simps [of r] )
  qed
qed

lemma md5_words_loop_eq:
  "64 * n \<le> length p \<Longrightarrow> md5_words_loop p (16 * n) r = Some (md5_compress_all r (take (64 * n) p))"
proof (induction n arbitrary: p r)
  case 0
  then show ?case by (simp add: md5_words_loop.simps)
next
  case (Suc n)
  obtain A B C D where r: "r = (A, B, C, D)" by (cases r)
  have w: "block_words (take 64 p) = block_words p"
    by (simp add: block_words_def)
  have "md5_load16 p = Some (block_words p)" using Suc.prems by (simp add: md5_load16_def block_words_def)
  moreover have "md5_block2 (block_words p) r = rfc_block (block_words p) r"
    by (metis md5_block3_block2 md5_block3_rfc)
  ultimately have "md5_words_loop p (16 * Suc n) r =
      md5_words_loop (drop 64 p) (16 * n) (md5_compress r (take 64 p))"
    by (subst md5_words_loop.simps) (simp add: md5_compress_def w r split: prod.splits)
  also have "\<dots> = Some (md5_compress_all (md5_compress r (take 64 p)) (take (64 * n) (drop 64 p)))"
    using Suc.prems by (intro Suc.IH) simp
  also have "md5_compress_all (md5_compress r (take 64 p)) (take (64 * n) (drop 64 p)) =
      md5_compress_all r (take (64 * Suc n) p)"
    using Suc.prems by (subst (2) md5_compress_all.simps) (simp add: take_drop min_def add.commute)
  finally show ?case .
qed

subsection \<open>Counting and masking\<close>

definition md5_regs_of :: "md5_ctx \<Rightarrow> md5_regs" where
  "md5_regs_of ctx = (md5_A ctx, md5_B ctx, md5_C ctx, md5_D ctx)"

definition md5_count :: "md5_ctx \<Rightarrow> nat" where
  "md5_count ctx = unat (md5_total0 ctx) + 2 ^ 32 * unat (md5_total1 ctx)"

lemma unat_ucast_up: "unat (ucast (x :: u32) :: u64) = unat x"
  using unat_lt32 [of x] by (simp add: unsigned_ucast_eq take_bit_nat_eq_self)

lemma unat_ucast_down: "unat (x :: u64) < 2 ^ 32 \<Longrightarrow> unat (ucast x :: u32) = unat x"
  by (simp add: unsigned_ucast_eq take_bit_nat_eq_self)

lemma unat_and_63: "unat (x AND 63 :: u64) = unat x mod 64"
proof -
  have "x AND 63 = take_bit 6 x" by (simp add: take_bit_eq_mask mask_eq_exp_minus_1)
  then show ?thesis by (simp add: take_bit_eq_mod unat_mod)
qed

lemma unat_and_not_63: "unat (x AND NOT 63 :: u64) = 64 * (unat x div 64)"
proof -
  have "(x AND NOT 63) AND (x AND 63) = 0" by (rule bit_eqI) (auto simp: bit_simps)
  moreover have "(x AND NOT 63) OR (x AND 63) = x" by (rule bit_eqI) (auto simp: bit_simps)
  ultimately have x: "(x AND NOT 63) + (x AND 63) = x" by (simp add: disjunctive_add_eq_or)
  then have "x AND NOT 63 = x - (x AND 63)" by (simp add: eq_diff_eq)
  then have "unat (x AND NOT 63) = unat x - unat (x AND 63)"
    using unat_sub [OF word_and_le2, of x 63] by metis
  then show ?thesis by (simp add: unat_and_63 minus_mod_eq_mult_div)
qed

lemmas unat_and_m64 = unat_and_not_63 [simplified]

lemma carry_count:
  fixes t0 t1 :: u32 and l :: nat
  assumes "l < 2 ^ 32" "unat t0 + 2 ^ 32 * unat t1 + l < 2 ^ 64"
  shows "unat (t0 + word_of_nat l) + 2 ^ 32 * unat (if unat (t0 + word_of_nat l) < l then t1 + 1 else t1)
       = unat t0 + 2 ^ 32 * unat t1 + l"
proof (cases "unat t0 + l < 2 ^ 32")
  case True
  with assms(1) have "unat (t0 + word_of_nat l) = unat t0 + l"
    by (simp add: unat_add_small unat_of_nat)
  with True show ?thesis by simp
next
  case False
  have "unat (t0 + word_of_nat l) = (unat t0 + l) mod 2 ^ 32"
    using assms(1) by (simp add: unat_word_ariths unat_of_nat)
  with False assms(1) unat_lt32 [of t0] have s: "unat (t0 + word_of_nat l) = unat t0 + l - 2 ^ 32"
    by (simp add: mod_if)
  with False assms(2) have "unat t1 + 1 < 2 ^ 32" by simp
  then have "unat (t1 + 1) = unat t1 + 1" by (simp add: unat_add_small)
  with s False assms(1) unat_lt32 [of t0] show ?thesis by simp
qed

lemma md5_process_block_eq:
  assumes len: "unat len = 64 * n" "64 * n \<le> length p" "64 * n < 2 ^ 32"
    and cnt: "md5_count ctx + 64 * n < 2 ^ 64"
  obtains ctx' where "md5_process_block p len ctx = Some ctx'"
    "md5_regs_of ctx' = md5_compress_all (md5_regs_of ctx) (take (64 * n) p)"
    "md5_count ctx' = md5_count ctx + 64 * n" "md5_buflen ctx' = md5_buflen ctx" "md5_buf ctx' = md5_buf ctx"
proof -
  obtain A B C D where regs: "md5_compress_all (md5_regs_of ctx) (take (64 * n) p) = (A, B, C, D)"
    by (metis prod_cases4)
  have u: "ucast len = (word_of_nat (64 * n) :: u32)"
    by (subst len(1) [symmetric]) simp
  have loop: "md5_words_loop p (unat (len div 4)) (md5_regs_of ctx) = Some (A, B, C, D)"
    using md5_words_loop_eq [of n p "md5_regs_of ctx"] len regs by (simp add: unat_div)
  let ?t0 = "md5_total0 ctx + word_of_nat (64 * n)"
  let ?t1 = "if unat ?t0 < 64 * n then md5_total1 ctx + 1 else md5_total1 ctx"
  let ?ctx = "ctx\<lparr>md5_A := A, md5_B := B, md5_C := C, md5_D := D, md5_total0 := ?t0, md5_total1 := ?t1\<rparr>"
  have "md5_process_block p len ctx = Some ?ctx"
    using loop len(1) u
    by (simp add: md5_process_block_def Let_def md5_regs_of_def word_less_nat_alt unat_ucast_up)
  moreover have "md5_count ?ctx = md5_count ctx + 64 * n"
    using carry_count [OF len(3), of "md5_total0 ctx" "md5_total1 ctx"] cnt by (simp add: md5_count_def)
  ultimately show thesis using that [of ?ctx] regs by (simp add: md5_regs_of_def)
qed

subsection \<open>Buffering\<close>

text \<open>\<open>md5_state ctx d p\<close>: the bytes \<open>d\<close> have been compressed and the bytes \<open>p\<close> wait in the buffer.\<close>

definition md5_state :: "md5_ctx \<Rightarrow> bytes \<Rightarrow> bytes \<Rightarrow> bool" where
  "md5_state ctx d p \<longleftrightarrow> length d mod 64 = 0 \<and> md5_regs_of ctx = md5_compress_all md5_start d
     \<and> md5_count ctx = length d \<and> length (md5_buf ctx) = 128
     \<and> unat (md5_buflen ctx) = length p \<and> length p \<le> 64 \<and> take (length p) (md5_buf ctx) = p"

definition md5_absorbed :: "md5_ctx \<Rightarrow> bytes \<Rightarrow> bool" where
  "md5_absorbed ctx xs \<longleftrightarrow> (\<exists>d p. xs = d @ p \<and> md5_state ctx d p)"

lemma md5_init_state: "length (md5_buf ctx) = 128 \<Longrightarrow> md5_state (md5_init_ctx ctx) [] []"
  by (simp add: md5_state_def md5_init_ctx_def md5_regs_of_def md5_start_def md5_count_def)

lemma md5_state_buffer:
  assumes "md5_state ctx d p" "length b = 128" "take (length q) b = q" "length q \<le> 64"
    "unat n = length q"
  shows "md5_state (ctx\<lparr>md5_buf := b, md5_buflen := n\<rparr>) d q"
  using assms by (simp add: md5_state_def md5_regs_of_def md5_count_def)

text \<open>Compressing \<open>n\<close> blocks from an array; the buffer fields keep their values.\<close>

lemma md5_state_blocks:
  assumes st: "length d mod 64 = 0" "md5_regs_of ctx = md5_compress_all md5_start d" "md5_count ctx = length d"
    and len: "unat len = 64 * n" "64 * n \<le> length a" "64 * n < 2 ^ 32" "length d + 64 * n < 2 ^ 64"
  obtains ctx' where "md5_process_block a len ctx = Some ctx'"
    "md5_regs_of ctx' = md5_compress_all md5_start (d @ take (64 * n) a)"
    "md5_count ctx' = length (d @ take (64 * n) a)" "length (d @ take (64 * n) a) mod 64 = 0"
    "md5_buflen ctx' = md5_buflen ctx" "md5_buf ctx' = md5_buf ctx"
proof -
  from md5_process_block_eq [OF len(1-3), of ctx] st(3) len(4) obtain ctx' where
    "md5_process_block a len ctx = Some ctx'"
    "md5_regs_of ctx' = md5_compress_all (md5_regs_of ctx) (take (64 * n) a)"
    "md5_count ctx' = md5_count ctx + 64 * n" "md5_buflen ctx' = md5_buflen ctx" "md5_buf ctx' = md5_buf ctx"
    by metis
  moreover have "length (d @ take (64 * n) a) mod 64 = 0" using st(1) len(2) by (simp add: min_def)
  ultimately show thesis
    using that st len(2) by (simp add: md5_compress_all_append min_def)
qed

lemma md5_rest_eq:
  assumes st: "md5_state ctx d p" and len: "unat len = length ys" and e: "ys = [] \<or> p = []"
    and sz: "length ys < 2 ^ 32" "length d + length p + length ys < 2 ^ 64"
  shows "\<exists>ctx'. md5_rest (ys @ rest) len ctx = Some ctx' \<and> md5_absorbed ctx' (d @ p @ ys)"
proof (cases "ys = []")
  case True
  with st len have "md5_rest (ys @ rest) len ctx = Some ctx"
    by (simp add: md5_rest_def word_less_nat_alt unat_eq_0)
  with st True show ?thesis by (auto simp: md5_absorbed_def)
next
  case False
  with e have p: "p = []" by simp
  define n where "n = (if length ys > 64 then length ys div 64 else 0)"
  define zs where "zs = drop (64 * n) ys"
  have n: "64 * n \<le> length ys" by (simp add: n_def)
  have zs: "length zs \<le> 64"
    using mod_less_divisor [of 64 "length ys"]
    by (auto simp: zs_def n_def minus_mult_div_eq_mod intro: less_imp_le)
  have st': "length d mod 64 = 0" "md5_regs_of ctx = md5_compress_all md5_start d" "md5_count ctx = length d"
    "length (md5_buf ctx) = 128"
    using st by (simp_all add: md5_state_def)
  let ?l = "if len > 64 then len AND 63 else len"
  have l: "unat ?l = length zs"
    using len n by (simp add: zs_def n_def unat_and_63 word_less_nat_alt minus_mult_div_eq_mod)
  obtain ctx1 where blocks: "(if len > 64 then do {
          ctx \<leftarrow> md5_process_block (ys @ rest) (len AND NOT 63) ctx;
          Some (drop (unat (len AND NOT 63)) (ys @ rest), len AND 63, ctx) }
        else Some (ys @ rest, len, ctx)) = Some (zs @ rest, ?l, ctx1)"
    and st1: "md5_regs_of ctx1 = md5_compress_all md5_start (d @ take (64 * n) ys)"
      "md5_count ctx1 = length (d @ take (64 * n) ys)" "length (d @ take (64 * n) ys) mod 64 = 0"
      "md5_buf ctx1 = md5_buf ctx" "md5_buflen ctx1 = md5_buflen ctx"
  proof (cases "len > 64")
    case True
    then have g: "length ys > 64" using len by (simp add: word_less_nat_alt)
    then have "unat (len AND NOT 63) = 64 * n" by (simp add: n_def unat_and_m64 len)
    moreover have "64 * n \<le> length (ys @ rest)" "64 * n < 2 ^ 32" "length d + 64 * n < 2 ^ 64"
      using n sz by simp_all
    ultimately obtain ctx1 where
      c: "md5_process_block (ys @ rest) (len AND NOT 63) ctx = Some ctx1"
        "md5_regs_of ctx1 = md5_compress_all md5_start (d @ take (64 * n) (ys @ rest))"
        "md5_count ctx1 = length (d @ take (64 * n) (ys @ rest))"
        "length (d @ take (64 * n) (ys @ rest)) mod 64 = 0"
        "md5_buflen ctx1 = md5_buflen ctx" "md5_buf ctx1 = md5_buf ctx"
      by (rule md5_state_blocks [OF st'(1-3)])
    moreover have "unat (len AND NOT 63) = 64 * n" using g by (simp add: n_def unat_and_m64 len)
    ultimately show thesis
      using True n by (intro that [of ctx1]) (simp_all add: zs_def)
  next
    case False
    then have "\<not> length ys > 64" using len by (simp add: word_less_nat_alt)
    then show thesis using that [of ctx] st' False by (simp add: n_def zs_def)
  qed
  have u: "unat (ucast ?l :: u32) = length zs" using l zs by (simp add: unat_ucast_down)
  have ys: "d @ p @ ys = (d @ take (64 * n) ys) @ zs" by (simp add: p zs_def)
  have st2: "md5_state ctx1 (d @ take (64 * n) ys) []"
    using st st1 p by (simp add: md5_state_def)
  show ?thesis
  proof (cases "zs = []")
    case True
    then have "?l = 0" using l unat_eq_0 [of ?l] by simp
    then have "md5_rest (ys @ rest) len ctx = Some ctx1"
      unfolding md5_rest_def blocks bind.bind_lunit by simp
    with st2 True ys show ?thesis unfolding md5_absorbed_def by blast
  next
    case False
    then have pos: "(0 < ?l) = True" using l by (simp add: word_less_nat_alt)
    let ?ctx = "ctx1\<lparr>md5_buf := zs @ drop (length zs) (md5_buf ctx1), md5_buflen := ucast ?l\<rparr>"
    have "md5_rest (ys @ rest) len ctx = Some ?ctx"
      unfolding md5_rest_def blocks bind.bind_lunit prod.case pos if_True l
      using zs st'(4) st1(4) by (simp add: mem_simps)
    moreover have "md5_state ?ctx (d @ take (64 * n) ys) zs"
      using zs st'(4) st1(4) u by (intro md5_state_buffer [OF st2]) auto
    ultimately show ?thesis using ys unfolding md5_absorbed_def by blast
  qed
qed

text \<open>Compressing the whole blocks of an overfull buffer and moving the rest to its front.\<close>

lemma md5_flush:
  assumes st: "md5_state ctx d p" and q: "unat s = length q" "length q \<le> 128" "length d + length q < 2 ^ 64"
    and b: "length b = 128" "take (length q) b = q"
  shows "\<exists>c. (do {
       ctx \<leftarrow> md5_process_block b (s AND NOT 63) (ctx\<lparr>md5_buf := b, md5_buflen := k\<rparr>);
       t \<leftarrow> mem_read (md5_buf ctx) (unat (s AND NOT 63)) (unat (s AND 63));
       b \<leftarrow> mem_write (md5_buf ctx) 0 t;
       Some (ctx\<lparr>md5_buf := b, md5_buflen := ucast (s AND 63)\<rparr>) }) = Some c
     \<and> md5_state c (d @ take (64 * (length q div 64)) q) (drop (64 * (length q div 64)) q)"
proof -
  let ?c1 = "ctx\<lparr>md5_buf := b, md5_buflen := k\<rparr>"
  define n where "n = length q div 64"
  define t where "t = drop (64 * n) q"
  have n: "unat (s AND NOT 63) = 64 * n" "unat (s AND 63) = length t"
    unfolding unat_and_not_63 unat_and_63 q(1) by (simp_all add: n_def t_def minus_mult_div_eq_mod)
  have tl: "length t < 64" by (simp add: t_def n_def minus_mult_div_eq_mod)
  have nq: "64 * n \<le> length q" by (simp add: n_def)
  have d: "length d mod 64 = 0" and c1: "md5_regs_of ?c1 = md5_compress_all md5_start d" "md5_count ?c1 = length d"
    using st by (simp_all add: md5_state_def md5_regs_of_def md5_count_def)
  have "64 * n \<le> length b" "64 * n < 2 ^ 32" "length d + 64 * n < 2 ^ 64"
    using nq q b by simp_all
  with n(1) obtain c2 where c2: "md5_process_block b (s AND NOT 63) ?c1 = Some c2"
    "md5_regs_of c2 = md5_compress_all md5_start (d @ take (64 * n) b)"
    "md5_count c2 = length (d @ take (64 * n) b)" "length (d @ take (64 * n) b) mod 64 = 0"
    "md5_buflen c2 = md5_buflen ?c1" "md5_buf c2 = md5_buf ?c1"
    by (rule md5_state_blocks [OF d c1])
  have tb: "take (64 * n) b = take (64 * n) q" using b(2) nq by (metis min.absorb1 take_take)
  have bt: "take (length t) (drop (64 * n) b) = t"
    using b(2) nq by (metis t_def take_drop add.commute length_drop le_add_diff_inverse)
  have rd: "mem_read (md5_buf c2) (64 * n) (length t) = Some t"
    using b q(2) nq bt by (simp add: c2(6) mem_simps t_def)
  have wr: "mem_write (md5_buf c2) 0 t = Some (t @ drop (length t) b)"
    using b tl by (simp add: c2(6) mem_simps)
  let ?c3 = "c2\<lparr>md5_buf := t @ drop (length t) b, md5_buflen := ucast (s AND 63)\<rparr>"
  have "md5_state ?c3 (d @ take (64 * n) q) t"
    using c2 tb b tl n(2) by (simp add: md5_state_def unat_ucast_down md5_regs_of_def md5_count_def)
  then show ?thesis
    unfolding c2(1) bind.bind_lunit n rd wr n_def [symmetric] t_def [symmetric] by blast
qed

lemma md5_fill_eq:
  assumes st: "md5_state ctx d p" and len: "unat len = length ys"
    and sz: "length ys < 2 ^ 32" "length d + length p + length ys < 2 ^ 64"
  shows "\<exists>ctx' d' p' zs len'. md5_fill (ys @ rest) len ctx = Some (zs @ rest, len', ctx')
    \<and> unat len' = length zs \<and> length zs \<le> length ys \<and> md5_state ctx' d' p'
    \<and> d @ p @ ys = d' @ p' @ zs \<and> (zs = [] \<or> p' = [])"
proof (cases "md5_buflen ctx = 0")
  case True
  with st have "p = []" by (simp add: md5_state_def)
  with True st len show ?thesis
    by (intro exI [of _ ctx] exI [of _ d] exI [of _ "[]"] exI [of _ ys] exI [of _ len])
       (simp add: md5_fill_def)
next
  case False
  have st': "length (md5_buf ctx) = 128" "unat (md5_buflen ctx) = length p" "length p \<le> 64"
    "take (length p) (md5_buf ctx) = p"
    using st by (simp_all add: md5_state_def)
  define lo where "lo = (ucast (md5_buflen ctx) :: u64)"
  define add where "add = (if 128 - lo > len then len else 128 - lo)"
  define a where "a = min (length ys) (128 - length p)"
  define q where "q = p @ take a ys"
  define b where "b = q @ drop (length q) (md5_buf ctx)"
  have lo: "unat lo = length p" by (simp add: lo_def unat_ucast_up st'(2))
  have "unat (128 - lo) = 128 - length p"
    using lo st'(3) by (subst unat_sub_small) auto
  then have add: "unat add = a" by (auto simp: add_def word_less_nat_alt len a_def)
  have a: "a \<le> length ys" "length p + a \<le> 128" using st'(3) by (auto simp: a_def)
  have q: "length q = length p + a" "length q \<le> 128" using a by (simp_all add: q_def)
  have sum: "unat (lo + add) = length q"
    using lo add a q by (subst unat_add_small) auto
  have b: "length b = 128" "take (length q) b = q" using q st'(1) by (simp_all add: b_def)
  have rd: "mem_read (ys @ rest) 0 (unat add) = Some (take a ys)"
    using a by (simp add: add mem_simps)
  have wr: "mem_write (md5_buf ctx) (unat lo) (take a ys) = Some b"
    using a st' q by (simp add: lo mem_simps b_def q_def)
  have ul: "unat (len - add) = length (drop a ys)"
    using add a len by (subst unat_sub_small) auto
  let ?k = "md5_buflen ctx + ucast add"
  have fill: "md5_fill (ys @ rest) len ctx = (if lo + add > 64 then do {
             ctx \<leftarrow> md5_process_block b ((lo + add) AND NOT 63) (ctx\<lparr>md5_buf := b, md5_buflen := ?k\<rparr>);
             t \<leftarrow> mem_read (md5_buf ctx) (unat ((lo + add) AND NOT 63)) (unat ((lo + add) AND 63));
             b \<leftarrow> mem_write (md5_buf ctx) 0 t;
             Some (ctx\<lparr>md5_buf := b, md5_buflen := ucast ((lo + add) AND 63)\<rparr>) }
           else Some (ctx\<lparr>md5_buf := b, md5_buflen := ?k\<rparr>)) \<bind> (\<lambda>ctx. Some (drop a ys @ rest, len - add, ctx))"
    using False a
    unfolding md5_fill_def Let_def lo_def [symmetric] add_def [symmetric] rd wr bind.bind_lunit by (simp add: add)
  show ?thesis
  proof (cases "length q > 64")
    case False
    then have ya: "a = length ys" using q by (auto simp: a_def)
    have "\<not> lo + add > 64" using False sum by (simp add: word_less_nat_alt)
    then have "md5_fill (ys @ rest) len ctx = Some (drop a ys @ rest, len - add, ctx\<lparr>md5_buf := b, md5_buflen := ?k\<rparr>)"
      unfolding fill by simp
    moreover have "unat ?k = length q"
      using q add False by (subst unat_add_small) (auto simp: st'(2) unat_ucast_down)
    then have "md5_state (ctx\<lparr>md5_buf := b, md5_buflen := ?k\<rparr>) d q"
      using b False by (intro md5_state_buffer [OF st]) auto
    moreover have "d @ p @ ys = d @ q @ drop a ys" by (simp add: q_def)
    ultimately show ?thesis using ul ya by (metis length_drop diff_le_self drop_all order_refl)
  next
    case True
    then have gt: "(64 < lo + add) = True" using sum by (simp add: word_less_nat_alt)
    have "length d + length q < 2 ^ 64" using sz q a by simp
    from md5_flush [OF st sum q(2) this b, of ?k] obtain c where
      c: "md5_fill (ys @ rest) len ctx = Some (drop a ys @ rest, len - add, c)"
        "md5_state c (d @ take (64 * (length q div 64)) q) (drop (64 * (length q div 64)) q)"
      unfolding fill gt if_True by (elim exE conjE) (simp only: bind.bind_lunit)
    moreover have "d @ p @ ys = (d @ take (64 * (length q div 64)) q) @ drop (64 * (length q div 64)) q @ drop a ys"
      by (metis append.assoc append_take_drop_id q_def)
    moreover have "drop a ys = [] \<or> drop (64 * (length q div 64)) q = []"
    proof (cases "a = length ys")
      case False
      then have "a = 128 - length p" by (simp add: a_def min_def split: if_splits)
      then have "length q = 128" using q st'(3) by simp
      then show ?thesis by simp
    qed simp
    ultimately show ?thesis
      using ul by (metis length_drop diff_le_self)
  qed
qed

lemma md5_process_bytes_absorbs:
  assumes "md5_absorbed ctx xs" "unat len = length ys" "length ys < 2 ^ 32" "length (xs @ ys) < 2 ^ 61"
  shows "\<exists>ctx'. md5_process_bytes (ys @ rest) len ctx = Some ctx' \<and> md5_absorbed ctx' (xs @ ys)"
proof -
  from assms(1) obtain d p where xs: "xs = d @ p" "md5_state ctx d p" by (auto simp: md5_absorbed_def)
  from md5_fill_eq [OF xs(2) assms(2,3), of rest] assms(4) xs(1) obtain ctx1 d1 p1 zs len1 where
    f: "md5_fill (ys @ rest) len ctx = Some (zs @ rest, len1, ctx1)" "unat len1 = length zs"
      "length zs \<le> length ys" "md5_state ctx1 d1 p1" "d @ p @ ys = d1 @ p1 @ zs" "zs = [] \<or> p1 = []"
    by auto
  have "length d1 + length p1 + length zs < 2 ^ 64"
    using arg_cong [OF f(5), of length] assms(4) xs(1) by simp
  moreover have "length zs < 2 ^ 32" using f(3) assms(3) by simp
  ultimately obtain ctx' where "md5_rest (zs @ rest) len1 ctx1 = Some ctx'" "md5_absorbed ctx' (d1 @ p1 @ zs)"
    using md5_rest_eq [OF f(4,2,6)] by blast
  with f(1,5) xs(1) show ?thesis by (simp add: md5_process_bytes_def)
qed

subsection \<open>Padding\<close>

lemma bit_count_words:
  fixes t0 t1 :: u32
  assumes "unat t0 + 2 ^ 32 * unat t1 = L"
  shows "push_bit 3 t0 = word_of_nat (8 * L)"
    and "push_bit 3 t1 OR drop_bit 29 t0 = word_of_nat (8 * L div 2 ^ 32)"
proof -
  have z: "(4294967296 :: u32) = 0" by simp
  have "word_of_nat L = t0 + 4294967296 * t1" using assms [symmetric] by simp
  then have L: "word_of_nat L = t0" unfolding z by simp
  then show "push_bit 3 t0 = word_of_nat (8 * L)" by (simp add: push_bit_eq_mult)
  have "8 * L div 2 ^ 32 = 8 * unat t1 + unat t0 div 2 ^ 29" using assms [symmetric] by simp
  then have "word_of_nat (8 * L div 2 ^ 32) = 8 * t1 + (word_of_nat (unat t0 div 2 ^ 29) :: u32)" by simp
  also have "word_of_nat (unat t0 div 2 ^ 29) = drop_bit 29 t0"
    using order.strict_trans1 [OF div_le_dividend unat_lt32, of t0 536870912]
    by (simp add: word_unat_eq_iff drop_bit_eq_div unat_of_nat unat_div)
  also have "8 * t1 + drop_bit 29 t0 = push_bit 3 t1 OR drop_bit 29 t0"
  proof -
    have "push_bit 3 t1 AND drop_bit 29 t0 = 0"
      by (rule bit_eqI) (auto simp: bit_simps dest!: bit_imp_le_length)
    then show ?thesis by (simp add: disjunctive_add_eq_or push_bit_eq_mult mult.commute)
  qed
  finally show "push_bit 3 t1 OR drop_bit 29 t0 = word_of_nat (8 * L div 2 ^ 32)" by simp
qed

text \<open>The buffer after the padding has been written.\<close>

lemma md5_pad_buffer:
  assumes "length p + m + 8 \<le> 128" "0 < m" "length b = 128" "take (length p) b = p"
    "length u = 4" "length v = 4"
  shows "\<exists>b'. (do {
      b \<leftarrow> mem_write b (length p) (replicate m 0);
      b \<leftarrow> mem_store b (length p) 0x80;
      b \<leftarrow> mem_write b (length p + m) u;
      mem_write b (length p + m + 4) v }) = Some b'
    \<and> length b' = 128 \<and> take (length p + m + 8) b' = p @ (0x80 # replicate (m - 1) 0) @ u @ v"
proof -
  obtain k where m: "m = Suc k" using assms(2) by (cases m) auto
  let ?t = "drop (length p + m) b" and ?h = "p @ 0x80 # replicate k 0"
  have 1: "mem_write b (length p) (replicate m 0) = Some (p @ replicate m 0 @ ?t)"
    using assms by (simp add: mem_simps)
  have 2: "mem_store (p @ replicate m 0 @ ?t) (length p) 0x80 = Some (?h @ ?t)"
    using assms by (simp add: mem_store_def m)
  have 3: "mem_write (?h @ ?t) (length p + m) u = Some ((?h @ u) @ drop 4 ?t)"
    using assms mem_write_append [of "length p + m" ?h u ?t] by (simp add: m)
  have 4: "mem_write ((?h @ u) @ drop 4 ?t) (length p + m + 4) v = Some ((?h @ u) @ v @ drop 8 ?t)"
    using assms mem_write_append [of "length p + m + 4" "?h @ u" v "drop 4 ?t"] by (simp add: m)
  have len: "length p + m + 8 = length ((?h @ u) @ v)" using assms by (simp add: m)
  have "take (length p + m + 8) ((?h @ u) @ v @ drop 8 ?t) = p @ (0x80 # replicate (m - 1) 0) @ u @ v"
    unfolding len by (simp add: m)
  then show ?thesis unfolding 1 2 3 4 bind.bind_lunit using assms by (simp add: m)
qed

lemma md5_finish_eq:
  assumes "md5_absorbed ctx xs" "length xs < 2 ^ 61"
  shows "\<exists>ctx'. md5_finish_ctx ctx = Some (ctx', md5_digest xs)"
proof -
  from assms(1) obtain d p where xs: "xs = d @ p" and st: "md5_state ctx d p" by (auto simp: md5_absorbed_def)
  have st': "length d mod 64 = 0" "md5_regs_of ctx = md5_compress_all md5_start d" "md5_count ctx = length d"
    "length (md5_buf ctx) = 128" "unat (md5_buflen ctx) = length p" "length p \<le> 64"
    "take (length p) (md5_buf ctx) = p"
    using st by (simp_all add: md5_state_def)
  let ?k = "md5_buflen ctx"
  define m where "m = (if length p \<ge> 56 then 120 - length p else 56 - length p)"
  define pad where "pad = (if ?k \<ge> 56 then 64 + 56 - ?k else 56 - ?k)"
  have pad: "unat pad = m"
    using st'(5,6) by (auto simp: pad_def m_def word_le_nat_alt unat_sub_small)
  define t0 where "t0 = md5_total0 ctx + ?k"
  define t1 where "t1 = (if t0 < ?k then md5_total1 ctx + 1 else md5_total1 ctx)"
  have "word_of_nat (length p) = ?k" by (simp flip: st'(5))
  with carry_count [of "length p" "md5_total0 ctx" "md5_total1 ctx"] st' assms(2) xs
  have cnt: "unat t0 + 2 ^ 32 * unat t1 = length xs"
    by (simp add: t0_def t1_def md5_count_def word_less_nat_alt)
  define u where "u = le32_bytes (push_bit 3 t0)"
  define v where "v = le32_bytes (push_bit 3 t1 OR drop_bit 29 t0)"
  have m: "length p + m + 8 \<le> 128" "0 < m" using st'(6) by (auto simp: m_def)
  obtain b where b: "(do {
      b \<leftarrow> mem_write (md5_buf ctx) (length p) (replicate m 0);
      b \<leftarrow> mem_store b (length p) 0x80;
      b \<leftarrow> mem_write b (length p + m) u;
      mem_write b (length p + m + 4) v }) = Some b"
    "length b = 128" "take (length p + m + 8) b = p @ (0x80 # replicate (m - 1) 0) @ u @ v"
    using md5_pad_buffer [OF m st'(4,7), of u v] by (auto simp: u_def v_def)
  define n where "n = (length p + m + 8) div 64"
  have n: "64 * n = length p + m + 8" using st'(6) by (auto simp: n_def m_def)
  let ?c = "ctx\<lparr>md5_total0 := t0, md5_total1 := t1, md5_buf := b\<rparr>"
  let ?len = "ucast ?k + ucast pad + 8 :: u64"
  have len: "unat ?len = 64 * n"
    using m(1) n pad st'(5) by (simp add: unat_add_small unat_ucast_up)
  have "md5_count ?c + 64 * n < 2 ^ 64" using cnt assms(2) m(1) n by (simp add: md5_count_def)
  with md5_process_block_eq [OF len, of b ?c] b(2) m(1) n obtain c' where
    c': "md5_process_block b ?len ?c = Some c'"
      "md5_regs_of c' = md5_compress_all (md5_regs_of ?c) (take (64 * n) b)" by auto
  have "length xs mod 64 = length p mod 64" using st'(1) xs by (metis length_append add.left_neutral mod_add_left_eq)
  then have "m - 1 = (119 - length xs mod 64) mod 64" using st'(6) by (auto simp: m_def mod_if)
  then have "md5_pad xs = d @ take (64 * n) b"
    using b(3) bit_count_words [OF cnt] by (simp add: md5_pad_def xs n u_def v_def)
  then have dig: "regs_bytes (md5_regs_of c') = md5_digest xs"
    using c'(2) st'(1,2) by (simp add: md5_digest_def md5_compress_all_append md5_regs_of_def)
  have "md5_finish_ctx ctx = (do {
      b \<leftarrow> mem_write (md5_buf ctx) (length p) (replicate m 0);
      b \<leftarrow> mem_store b (length p) 0x80;
      b \<leftarrow> mem_write b (length p + m) u;
      mem_write b (length p + m + 4) v }) \<bind> (\<lambda>b. md5_process_block b ?len
        (ctx\<lparr>md5_total0 := t0, md5_total1 := t1, md5_buf := b\<rparr>) \<bind>
        (\<lambda>c. Some (c, regs_bytes (md5_regs_of c))))"
    unfolding md5_finish_ctx_def Let_def pad_def [symmetric] t0_def [symmetric] pad st'(5)
    by (simp add: u_def v_def t1_def regs_bytes_def md5_regs_of_def t0_def)
  then show ?thesis unfolding b(1) bind.bind_lunit c'(1) dig by blast
qed

subsection \<open>Properties\<close>

definition md5_update :: "md5_ctx \<Rightarrow> bytes \<Rightarrow> md5_ctx option" where
  "md5_update ctx xs = md5_process_bytes xs (word_of_nat (length xs)) ctx"

lemma md5_update_absorbs:
  "md5_absorbed ctx xs \<Longrightarrow> length (xs @ ys) < 2 ^ 61 \<Longrightarrow> length ys < 2 ^ 32 \<Longrightarrow>
   \<exists>ctx'. md5_update ctx ys = Some ctx' \<and> md5_absorbed ctx' (xs @ ys)"
  using md5_process_bytes_absorbs [of ctx xs "word_of_nat (length ys)" ys "[]"]
  by (simp add: md5_update_def unat_of_nat)

interpretation md5: message_digest md5_absorbed "\<lambda>xs. length xs < 2 ^ 61" "\<lambda>xs. length xs < 2 ^ 32"
    md5_update "\<lambda>ctx. map_option snd (md5_finish_ctx ctx)" "\<lambda>xs. Some (md5_digest xs)"
  by unfold_locales (auto simp: md5_update_absorbs dest: md5_finish_eq)

text \<open>
  All four variants of the block transformation, selected by \<open>MD5SUM_SIZE_VS_SPEED\<close>, compute the
  same function, and it is the one of RFC 1321: its functions F, G, H, I, its word order, its
  shift amounts and its constants, the integer parts of 4294967296 times the sines.
\<close>

theorem md5_variants_agree:
  "md5_block0 w r = rfc_block w r \<and> md5_block1 w r = rfc_block w r
   \<and> md5_block2 w r = rfc_block w r \<and> md5_block3 w r = rfc_block w r"
  by (metis md5_block0_block1 md5_block1_block2 md5_block3_block2 md5_block3_rfc)

lemma md5_buffer_eq:
  assumes "length (md5_buf ctx) = 128" "unat len = length xs" "length xs < 2 ^ 32"
  shows "md5_buffer ctx (xs @ rest) len = Some (md5_digest xs)"
proof -
  have "md5_absorbed (md5_init_ctx ctx) []"
    using md5_init_state [OF assms(1)] by (auto simp: md5_absorbed_def)
  from md5_process_bytes_absorbs [OF this assms(2,3), of rest] assms(3) obtain ctx' where
    "md5_process_bytes (xs @ rest) len (md5_init_ctx ctx) = Some ctx'" "md5_absorbed ctx' xs" by auto
  with md5_finish_eq [of ctx' xs] assms(3) show ?thesis by (auto simp: md5_buffer_def)
qed

text \<open>
  C35. \<open>md5_buffer\<close> computes the MD5 digest: for every array of less than 4 GiB it stays inside its
  arrays and returns the digest of the padded message as RFC 1321 defines it, the constants being the sines.
\<close>

theorem md5_buffer_digest:
  assumes "length (md5_buf ctx) = 128" "unat len = length xs" "length xs < 2 ^ 32"
  shows "md5_buffer ctx (xs @ rest) len = Some (md5_digest xs)"
  using assms by (rule md5_buffer_eq)

theorem md5_buffer_digest_witness:
  "md5_buffer \<lparr>md5_A = 1, md5_B = 2, md5_C = 3, md5_D = 4, md5_total0 = 5, md5_total1 = 6, md5_buflen = 7,
     md5_buf = replicate 128 9\<rparr> ([97, 98] @ [99]) 2 = Some (md5_digest [97, 98])"
  by (rule md5_buffer_digest) simp_all

text \<open>
  C38. Buffering is invisible: however a message of less than \<open>2 ^ 61\<close> bytes is cut into pieces of less
  than 4 GiB, feeding the pieces to \<open>md5_process_bytes\<close> one after the other and finishing gives the
  digest of the whole message.
\<close>

theorem md5_piecewise:
  assumes "length (md5_buf ctx) = 128" "length (concat pieces) < 2 ^ 61"
    "list_all (\<lambda>p. length p < 2 ^ 32) pieces"
  shows "\<exists>ctx'. feed_all md5_update (md5_init_ctx ctx) pieces = Some ctx'
    \<and> map_option snd (md5_finish_ctx ctx') = Some (md5_digest (concat pieces))"
proof (rule md5.chunking_irrelevant [OF _ assms(2,3)])
  show "md5_absorbed (md5_init_ctx ctx) []"
    using md5_init_state [OF assms(1)] by (auto simp: md5_absorbed_def)
qed

theorem md5_piecewise_witness:
  "\<exists>ctx'. feed_all md5_update (md5_init_ctx \<lparr>md5_A = 0, md5_B = 0, md5_C = 0, md5_D = 0, md5_total0 = 0,
       md5_total1 = 0, md5_buflen = 0, md5_buf = replicate 128 0\<rparr>) [replicate 60 1, replicate 70 2] = Some ctx'
    \<and> map_option snd (md5_finish_ctx ctx') = Some (md5_digest (concat [replicate 60 1, replicate 70 2]))"
  by (rule md5_piecewise) simp_all

text \<open>Reading a stream without empty pieces: a block is short only at the end of the data.\<close>

lemma fread_nonempty:
  assumes "[] \<notin> set (io_pieces st)" "0 < n" "fread n st = (d, st')"
  shows "[] \<notin> set (io_pieces st')" "io_fails st' = io_fails st" "d = [] \<longleftrightarrow> io_pieces st = []"
    "d = [] \<Longrightarrow> st' = st"
  using assms by (auto simp: fread_def split: list.splits if_splits)

lemma md5_read_block_end:
  "md5_read_block buffer st = (b, eof, st') \<Longrightarrow> length buffer < BLOCKSIZE \<Longrightarrow> [] \<notin> set (io_pieces st) \<Longrightarrow>
   [] \<notin> set (io_pieces st') \<and> io_fails st' = io_fails st \<and> (eof \<longrightarrow> io_pieces st' = [])"
proof (induction buffer st rule: md5_read_block.induct)
  case (1 buffer st)
  obtain d st1 where f: "fread (BLOCKSIZE - length buffer) st = (d, st1)" by (cases "fread (BLOCKSIZE - length buffer) st")
  have "0 < BLOCKSIZE - length buffer" using 1(3) by simp
  note n = fread_nonempty [OF 1(4) this f]
  show ?case
  proof (cases "length (buffer @ d) < BLOCKSIZE \<and> d \<noteq> []")
    case True
    from 1(2) True f have "md5_read_block (buffer @ d) st1 = (b, eof, st')"
      by (simp add: md5_read_block.simps [of buffer st] Let_def)
    with "1.IH" [OF f [symmetric] refl refl True] n True show ?thesis by auto
  next
    case False
    with 1(2) f have "eof = (d = [])" "st' = st1"
      by (auto simp: md5_read_block.simps [of buffer st] Let_def)
    with n show ?thesis by auto
  qed
qed

lemma md5_stream_loop_eq:
  "md5_state ctx d [] \<Longrightarrow> [] \<notin> set (io_pieces st) \<Longrightarrow> length (d @ concat (io_pieces st)) < 2 ^ 61 \<Longrightarrow>
   if io_fails st then md5_stream_loop ctx st = Some None
   else \<exists>ctx' d' b. md5_stream_loop ctx st = Some (Some (ctx', b)) \<and> md5_state ctx' d' []
     \<and> d' @ b = d @ concat (io_pieces st) \<and> length b \<le> BLOCKSIZE"
proof (induction ctx st arbitrary: d rule: md5_stream_loop.induct)
  case (1 ctx st)
  obtain b eof st1 where r: "md5_read_block [] st = (b, eof, st1)" by (metis prod_cases3)
  from md5_read_block_data [OF r] have b: "b @ concat (io_pieces st1) = concat (io_pieces st)"
    "length b \<le> BLOCKSIZE" "\<not> eof \<Longrightarrow> length b = BLOCKSIZE" by simp_all
  from md5_read_block_end [OF r _ 1(3)] have e: "[] \<notin> set (io_pieces st1)" "io_fails st1 = io_fails st"
    "eof \<Longrightarrow> io_pieces st1 = []" by (auto simp: BLOCKSIZE_def)
  show ?case
  proof (cases eof)
    case True
    with e have "io_pieces st1 = []" by simp
    with True r e b 1(2) show ?thesis
      by (auto simp: md5_stream_loop.simps [of ctx st] ferror_def)
  next
    case False
    then have l: "length b = 64 * 64" using b(3) by (simp add: BLOCKSIZE_def)
    have w: "unat (word_of_nat BLOCKSIZE :: u64) = 64 * 64" by (simp add: BLOCKSIZE_def)
    have st: "length d mod 64 = 0" "md5_regs_of ctx = md5_compress_all md5_start d" "md5_count ctx = length d"
      using 1(2) by (simp_all add: md5_state_def)
    have s: "64 * 64 \<le> length b" "(64 * 64 :: nat) < 2 ^ 32" "length d + 64 * 64 < 2 ^ 64"
      using l 1(4) unfolding b(1) [symmetric] by simp_all
    obtain c where c: "md5_process_block b (word_of_nat BLOCKSIZE) ctx = Some c"
      "md5_regs_of c = md5_compress_all md5_start (d @ take (64 * 64) b)"
      "md5_count c = length (d @ take (64 * 64) b)" "length (d @ take (64 * 64) b) mod 64 = 0"
      "md5_buflen c = md5_buflen ctx" "md5_buf c = md5_buf ctx"
      by (rule md5_state_blocks [OF st w s])
    then have "md5_state c (d @ b) []" using 1(2) l by (simp add: md5_state_def)
    moreover have "length ((d @ b) @ concat (io_pieces st1)) < 2 ^ 61" using 1(4) b(1) by simp
    moreover have "md5_stream_loop ctx st = md5_stream_loop c st1"
      using r c(1) False by (simp add: md5_stream_loop.simps [of ctx st])
    ultimately show ?thesis
      using "1.IH" [OF r [symmetric] refl refl _ _ c(1), of "d @ b"] False e unfolding b(1) [symmetric] append.assoc
      by (cases "io_fails st") simp_all
  qed
qed

text \<open>
  \<open>md5_stream\<close> terminates on every stream and returns 0 with the digest of the whole contents, for
  every pattern of short reads; if the stream ends in an error it returns 1 and no digest.
\<close>

theorem md5_stream_digest:
  assumes "length (md5_buf ctx) = 128" "[] \<notin> set (io_pieces st)" "length (concat (io_pieces st)) < 2 ^ 61"
  shows "md5_stream ctx st =
    Some (if io_fails st then (1, None) else (0, Some (md5_digest (concat (io_pieces st)))))"
proof (cases "io_fails st")
  case True
  with md5_stream_loop_eq [OF md5_init_state [OF assms(1)] assms(2)] assms(3) show ?thesis
    by (simp add: md5_stream_def)
next
  case False
  with md5_stream_loop_eq [OF md5_init_state [OF assms(1)] assms(2)] assms(3) obtain c d b where
    l: "md5_stream_loop (md5_init_ctx ctx) st = Some (Some (c, b))" "md5_state c d []"
      "d @ b = concat (io_pieces st)" "length b \<le> BLOCKSIZE" by auto
  have "md5_absorbed c d" using l(2) by (auto simp: md5_absorbed_def)
  with md5_update_absorbs [of c d b] l(3,4) assms(3) obtain c' where
    "(if length b > 0 then md5_process_bytes b (word_of_nat (length b)) c else Some c) = Some c'"
    "md5_absorbed c' (concat (io_pieces st))"
    by (cases "b = []") (auto simp: md5_update_def BLOCKSIZE_def)
  moreover from this md5_finish_eq assms(3) obtain c'' where
    "md5_finish_ctx c' = Some (c'', md5_digest (concat (io_pieces st)))" by blast
  ultimately show ?thesis using False l(1) by (simp add: md5_stream_def)
qed

theorem md5_stream_digest_witness:
  "md5_stream \<lparr>md5_A = 0, md5_B = 0, md5_C = 0, md5_D = 0, md5_total0 = 0, md5_total1 = 0,
      md5_buflen = 0, md5_buf = replicate 128 0\<rparr> \<lparr>io_pieces = [replicate 4000 1, [2, 3]], io_fails = False\<rparr> =
   Some (if io_fails \<lparr>io_pieces = [replicate 4000 1, [2, 3]], io_fails = False\<rparr> then (1, None)
     else (0, Some (md5_digest (concat (io_pieces \<lparr>io_pieces = [replicate 4000 1, [2, 3]], io_fails = False\<rparr>)))))"
  by (rule md5_stream_digest) simp_all

subsection \<open>A test vector of RFC 1321\<close>

lemma fold_eval: "f k s = t \<Longrightarrow> fold f (k # ks) s = fold f ks t"
  by simp

definition eval_f :: "nat \<Rightarrow> u32 \<Rightarrow> u32 \<Rightarrow> u32 \<Rightarrow> u32" where
  "eval_f i b c d = (if i < 16 then d XOR (b AND (c XOR d)) else if i < 32 then c XOR (d AND (b XOR c))
     else if i < 48 then b XOR c XOR d else c XOR (b OR (d XOR 0xffffffff)))"

lemma NOT_xor_ones: "NOT d = d XOR (0xffffffff :: u32)"
proof -
  have "(0xffffffff :: u32) = - 1" by simp
  then show ?thesis by (simp only: bit_eq_iff bit_simps) auto
qed

lemma rfc_step_eval:
  assumes "i < 64" "eval_f i b c d = g" "take_bit 32 (a + g + X ! rfc_k i + C_array ! i) = x" "rfc_s i = s"
    "take_bit 32 (b + (push_bit s x OR drop_bit (32 - s) x)) = t"
  shows "rfc_step X i (a, b, c, d) = (d, t, b, c)"
proof -
  have "rfc_f i b c d = g"
    unfolding assms(2) [symmetric] rfc_f_def eval_f_def NOT_xor_ones [symmetric] FF_rfc [symmetric]
      FG_rfc [symmetric] FF_def FG_def ..
  then show ?thesis
    using assms rfc_s_range [of i] rfc_T_C_array [OF assms(1)]
    by (simp add: rfc_step_def push_drop_rotl take_bit_word_eq_self)
qed

lemma rfc_block_abc:
  "rfc_block [0x80636261, 0, 0, 0, 0, 0, 0, 0, 0, 0, 0, 0, 0, 0, 24, 0] md5_start =
   (0x310ade8f, 0xc08226b3, 0xe484b9d8, 0x624d8cb2)"
  by (simp add: rfc_block_def upt_rec md5_start_def del: fold_simps)
    (simp add: fold_eval rfc_step_eval eval_f_def rfc_k_def rfc_s_def C_array_def del: fold_simps)

lemma md5_pad_abc: "md5_pad [97, 98, 99] = [97, 98, 99, 0x80] @ replicate 52 0 @ [24, 0, 0, 0, 0, 0, 0, 0]"
  by (simp add: md5_pad_def le32_bytes_def)

lemma md5_compress_abc:
  "md5_compress_all md5_start (md5_pad [97, 98, 99]) = (0x98500190, 0xb04fd23c, 0x7d3f96d6, 0x727fe128)"
proof -
  have w: "block_words (md5_pad [97, 98, 99]) = [0x80636261, 0, 0, 0, 0, 0, 0, 0, 0, 0, 0, 0, 0, 0, 24, 0]"
    by (simp add: block_words_def md5_pad_abc upt_rec le32_word_def nth_append nth_Cons')
  have l: "length (md5_pad [97, 98, 99]) = 64" by (simp add: md5_pad_abc)
  then have "md5_compress_all md5_start (md5_pad [97, 98, 99]) = md5_compress md5_start (md5_pad [97, 98, 99])"
    by (subst md5_compress_all.simps) simp
  also have "\<dots> = (0x98500190, 0xb04fd23c, 0x7d3f96d6, 0x727fe128)"
    unfolding md5_compress_def w rfc_block_abc by (simp add: md5_start_def)
  finally show ?thesis .
qed

text \<open>
  The digest of \<open>abc\<close> that \<open>md5_buffer\<close> returns is the one in the test suite of RFC 1321,
  900150983cd24fb0d6963f7d28e17f72.
\<close>

theorem md5_abc:
  assumes "length (md5_buf ctx) = 128"
  shows "md5_buffer ctx [97, 98, 99] 3 =
    Some [0x90, 0x01, 0x50, 0x98, 0x3c, 0xd2, 0x4f, 0xb0, 0xd6, 0x96, 0x3f, 0x7d, 0x28, 0xe1, 0x7f, 0x72]"
proof -
  have "md5_buffer ctx ([97, 98, 99] @ []) 3 = Some (md5_digest [97, 98, 99])"
    using assms by (intro md5_buffer_eq) simp_all
  then show ?thesis by (simp add: md5_digest_def md5_compress_abc regs_bytes_def le32_bytes_def)
qed

theorem md5_abc_witness:
  "md5_buffer \<lparr>md5_A = 1, md5_B = 2, md5_C = 3, md5_D = 4, md5_total0 = 5, md5_total1 = 6, md5_buflen = 7,
     md5_buf = replicate 128 9\<rparr> [97, 98, 99] 3 =
    Some [0x90, 0x01, 0x50, 0x98, 0x3c, 0xd2, 0x4f, 0xb0, 0xd6, 0x96, 0x3f, 0x7d, 0x28, 0xe1, 0x7f, 0x72]"
  by (rule md5_abc) simp

subsection \<open>The byte counter\<close>

text \<open>
  The counter is a double word, but \<open>md5_process_block\<close> adds only the lower 32 bits of \<open>len\<close> and at
  most one carry: a single call with 8 GiB leaves the count at 4 GiB, so the length appended at
  the end, and with it the digest, is wrong for such a piece.
\<close>

theorem md5_count_huge_piece:
  assumes "unat len = 2 ^ 33" "2 ^ 33 \<le> length p"
  shows "\<exists>ctx'. md5_process_block p len (md5_init_ctx ctx) = Some ctx' \<and> md5_count ctx' = 2 ^ 32"
proof -
  have "unat (len div 4) = 16 * 134217728" using assms(1) by (simp add: unat_div)
  then obtain A B C D where "md5_words_loop p (unat (len div 4)) md5_start = Some (A, B, C, D)"
    using md5_words_loop_eq [of 134217728 p md5_start] assms(2)
    by (cases "md5_compress_all md5_start (take (64 * 134217728) p)") simp
  moreover have "(ucast len :: u32) = 0"
    using assms(1) by (simp add: word_unat_eq_iff unsigned_ucast_eq take_bit_eq_mod)
  ultimately show ?thesis
    using assms(1) by (simp add: md5_process_block_def Let_def md5_init_ctx_def md5_start_def md5_count_def
      word_less_nat_alt)
qed

theorem md5_count_huge_piece_witness:
  "\<exists>ctx'. md5_process_block (replicate (2 ^ 33) 0) (2 ^ 33) (md5_init_ctx \<lparr>md5_A = 0, md5_B = 0, md5_C = 0,
     md5_D = 0, md5_total0 = 0, md5_total1 = 0, md5_buflen = 0, md5_buf = replicate 128 0\<rparr>) = Some ctx'
     \<and> md5_count ctx' = 2 ^ 32"
  by (rule md5_count_huge_piece) simp_all

end
