(* ===== verification/App_Types.thy ===== *)
theory App_Types
  imports Interfaces
begin

text \<open>
  The macros of \<open>src/app_type.h\<close> on bits and byte order. A macro that assigns to its argument is a
  function that returns the new value; a macro that dereferences a pointer takes a byte array and
  an offset. The bit macros are taken at \<open>uint32_t\<close> operands (the constant \<open>1\<close> in \<open>BIT\<close> is an \<open>int\<close>,
  so bit numbers are below 32). Whether the machine is big-endian, the compile-time choice in
  lines 281--335, is the first argument \<open>big\<close> of the \<open>SYS\<close> macros.
\<close>

subsection \<open>Single bits and bit fields\<close>

definition BIT :: "nat \<Rightarrow> u32" where
  "BIT b = push_bit b 1"

definition BIT_ISSET :: "u32 \<Rightarrow> nat \<Rightarrow> u32" where
  "BIT_ISSET data b = data AND BIT b"

definition BIT_GET :: "u32 \<Rightarrow> nat \<Rightarrow> int" where
  "BIT_GET data b = (if BIT_ISSET data b \<noteq> 0 then 1 else 0)"

definition BIT_SET :: "u32 \<Rightarrow> nat \<Rightarrow> u32" where
  "BIT_SET data b = data OR BIT b"

definition BIT_CLR :: "u32 \<Rightarrow> nat \<Rightarrow> u32" where
  "BIT_CLR data b = data AND NOT (BIT b)"

definition BIT_TOGGLE :: "u32 \<Rightarrow> nat \<Rightarrow> u32" where
  "BIT_TOGGLE data b = data XOR BIT b"

definition BIT_SET_MASK :: "u32 \<Rightarrow> u32 \<Rightarrow> u32" where
  "BIT_SET_MASK data m = data OR m"

definition BIT_CLR_MASK :: "u32 \<Rightarrow> u32 \<Rightarrow> u32" where
  "BIT_CLR_MASK data m = data AND NOT m"

definition BIT_TOGGLE_MASK :: "u32 \<Rightarrow> u32 \<Rightarrow> u32" where
  "BIT_TOGGLE_MASK data m = data XOR NOT m"

definition SBF :: "u32 \<Rightarrow> nat \<Rightarrow> u32" where
  "SBF value field = push_bit field value"

definition BITS_MASK :: "nat \<Rightarrow> u32" where
  "BITS_MASK n = NOT (push_bit n (NOT 0))"

definition BITS_GET :: "u32 \<Rightarrow> nat \<Rightarrow> nat \<Rightarrow> u32" where
  "BITS_GET data start len = drop_bit start data AND BITS_MASK len"

definition BITS_SET :: "u32 \<Rightarrow> nat \<Rightarrow> nat \<Rightarrow> u32 \<Rightarrow> u32" where
  "BITS_SET data start len value =
     (data AND NOT (SBF (BITS_MASK len) start)) OR SBF (value AND BITS_MASK len) start"

subsection \<open>Reversing the bits of a word\<close>

definition BIT_REVERSE_U8 :: "u8 \<Rightarrow> u8" where
  "BIT_REVERSE_U8 v =
     (let v = (drop_bit 1 v AND 0x55) OR (push_bit 1 v AND 0xaa);
          v = (drop_bit 2 v AND 0x33) OR (push_bit 2 v AND 0xcc);
          v = (drop_bit 4 v AND 0x0f) OR (push_bit 4 v AND 0xf0)
      in v)"

definition BIT_REVERSE_U16 :: "u16 \<Rightarrow> u16" where
  "BIT_REVERSE_U16 v =
     (let v = (drop_bit 1 v AND 0x5555) OR (push_bit 1 v AND 0xaaaa);
          v = (drop_bit 2 v AND 0x3333) OR (push_bit 2 v AND 0xcccc);
          v = (drop_bit 4 v AND 0x0f0f) OR (push_bit 4 v AND 0xf0f0);
          v = (drop_bit 8 v AND 0x00ff) OR (push_bit 8 v AND 0xff00)
      in v)"

definition BIT_REVERSE_U32 :: "u32 \<Rightarrow> u32" where
  "BIT_REVERSE_U32 v =
     (let v = (drop_bit 1 v AND 0x55555555) OR (push_bit 1 v AND 0xaaaaaaaa);
          v = (drop_bit 2 v AND 0x33333333) OR (push_bit 2 v AND 0xcccccccc);
          v = (drop_bit 4 v AND 0x0f0f0f0f) OR (push_bit 4 v AND 0xf0f0f0f0);
          v = (drop_bit 8 v AND 0x00ff00ff) OR (push_bit 8 v AND 0xff00ff00);
          v = (drop_bit 16 v AND 0x0000ffff) OR (push_bit 16 v AND 0xffff0000)
      in v)"

definition BIT_REVERSE_U64 :: "u64 \<Rightarrow> u64" where
  "BIT_REVERSE_U64 v =
     (let v = (drop_bit 1 v AND 0x5555555555555555) OR (push_bit 1 v AND 0xaaaaaaaaaaaaaaaa);
          v = (drop_bit 2 v AND 0x3333333333333333) OR (push_bit 2 v AND 0xcccccccccccccccc);
          v = (drop_bit 4 v AND 0x0f0f0f0f0f0f0f0f) OR (push_bit 4 v AND 0xf0f0f0f0f0f0f0f0);
          v = (drop_bit 8 v AND 0x00ff00ff00ff00ff) OR (push_bit 8 v AND 0xff00ff00ff00ff00);
          v = (drop_bit 16 v AND 0x0000ffff0000ffff) OR (push_bit 16 v AND 0xffff0000ffff0000);
          v = (drop_bit 1 v AND 0x00000000ffffffff) OR (push_bit 1 v AND 0xffffffff00000000)
      in v)"

subsection \<open>Words in memory\<close>

text \<open>A sequence of byte assignments \<open>*((uint8_t *)(p) + k) = b\<close> for \<open>k = 0, 1, \<dots>\<close>, and the bytes read by
  the \<open>GET\<close> macros.\<close>

fun store_seq :: "bytes \<Rightarrow> nat \<Rightarrow> bytes \<Rightarrow> bytes option" where
  "store_seq p off [] = Some p"
| "store_seq p off (b # bs) = do { p \<leftarrow> mem_store p off b; store_seq p (off + 1) bs }"

fun load_seq :: "bytes \<Rightarrow> nat \<Rightarrow> nat \<Rightarrow> bytes option" where
  "load_seq p off 0 = Some []"
| "load_seq p off (Suc n) = do { b \<leftarrow> mem_load p off; bs \<leftarrow> load_seq p (off + 1) n; Some (b # bs) }"

definition GET_U16_MSBFIRST :: "bytes \<Rightarrow> nat \<Rightarrow> u16 option" where
  "GET_U16_MSBFIRST p off = do {
     b \<leftarrow> load_seq p off 2;
     Some (push_bit 8 (ucast (b ! 0)) OR push_bit 0 (ucast (b ! 1))) }"

definition GET_U24_MSBFIRST :: "bytes \<Rightarrow> nat \<Rightarrow> u32 option" where
  "GET_U24_MSBFIRST p off = do {
     b \<leftarrow> load_seq p off 3;
     Some (push_bit 16 (ucast (b ! 0)) OR push_bit 8 (ucast (b ! 1)) OR push_bit 0 (ucast (b ! 2))) }"

definition GET_U32_MSBFIRST :: "bytes \<Rightarrow> nat \<Rightarrow> u32 option" where
  "GET_U32_MSBFIRST p off = do {
     b \<leftarrow> load_seq p off 4;
     Some (push_bit 24 (ucast (b ! 0)) OR push_bit 16 (ucast (b ! 1)) OR push_bit 8 (ucast (b ! 2)) OR push_bit 0 (ucast (b ! 3))) }"

definition GET_U64_MSBFIRST :: "bytes \<Rightarrow> nat \<Rightarrow> u64 option" where
  "GET_U64_MSBFIRST p off = do {
     b \<leftarrow> load_seq p off 8;
     Some (push_bit 56 (ucast (b ! 0)) OR push_bit 48 (ucast (b ! 1)) OR push_bit 40 (ucast (b ! 2)) OR push_bit 32 (ucast (b ! 3)) OR push_bit 24 (ucast (b ! 4)) OR push_bit 16 (ucast (b ! 5)) OR push_bit 8 (ucast (b ! 6)) OR push_bit 0 (ucast (b ! 7))) }"

definition GET_U16_LSBFIRST :: "bytes \<Rightarrow> nat \<Rightarrow> u16 option" where
  "GET_U16_LSBFIRST p off = do {
     b \<leftarrow> load_seq p off 2;
     Some (push_bit 0 (ucast (b ! 0)) OR push_bit 8 (ucast (b ! 1))) }"

definition GET_U24_LSBFIRST :: "bytes \<Rightarrow> nat \<Rightarrow> u32 option" where
  "GET_U24_LSBFIRST p off = do {
     b \<leftarrow> load_seq p off 3;
     Some (push_bit 0 (ucast (b ! 0)) OR push_bit 8 (ucast (b ! 1)) OR push_bit 16 (ucast (b ! 2))) }"

definition GET_U32_LSBFIRST :: "bytes \<Rightarrow> nat \<Rightarrow> u32 option" where
  "GET_U32_LSBFIRST p off = do {
     b \<leftarrow> load_seq p off 4;
     Some (push_bit 0 (ucast (b ! 0)) OR push_bit 8 (ucast (b ! 1)) OR push_bit 16 (ucast (b ! 2)) OR push_bit 24 (ucast (b ! 3))) }"

definition GET_U64_LSBFIRST :: "bytes \<Rightarrow> nat \<Rightarrow> u64 option" where
  "GET_U64_LSBFIRST p off = do {
     b \<leftarrow> load_seq p off 8;
     Some (push_bit 0 (ucast (b ! 0)) OR push_bit 8 (ucast (b ! 1)) OR push_bit 16 (ucast (b ! 2)) OR push_bit 24 (ucast (b ! 3)) OR push_bit 32 (ucast (b ! 4)) OR push_bit 40 (ucast (b ! 5)) OR push_bit 48 (ucast (b ! 6)) OR push_bit 56 (ucast (b ! 7))) }"

definition SET_U16_MSBFIRST :: "bytes \<Rightarrow> nat \<Rightarrow> u16 \<Rightarrow> bytes option" where
  "SET_U16_MSBFIRST p off v = store_seq p off
     [ucast (drop_bit 8 v AND 0xff), ucast (drop_bit 0 v AND 0xff)]"

definition SET_U24_MSBFIRST :: "bytes \<Rightarrow> nat \<Rightarrow> u32 \<Rightarrow> bytes option" where
  "SET_U24_MSBFIRST p off v = store_seq p off
     [ucast (drop_bit 16 v AND 0xff), ucast (drop_bit 8 v AND 0xff), ucast (drop_bit 0 v AND 0xff)]"

definition SET_U32_MSBFIRST :: "bytes \<Rightarrow> nat \<Rightarrow> u32 \<Rightarrow> bytes option" where
  "SET_U32_MSBFIRST p off v = store_seq p off
     [ucast (drop_bit 24 v AND 0xff), ucast (drop_bit 16 v AND 0xff), ucast (drop_bit 8 v AND 0xff), ucast (drop_bit 0 v AND 0xff)]"

definition SET_U64_MSBFIRST :: "bytes \<Rightarrow> nat \<Rightarrow> u64 \<Rightarrow> bytes option" where
  "SET_U64_MSBFIRST p off v = store_seq p off
     [ucast (drop_bit 56 v AND 0xff), ucast (drop_bit 48 v AND 0xff), ucast (drop_bit 40 v AND 0xff), ucast (drop_bit 32 v AND 0xff), ucast (drop_bit 24 v AND 0xff), ucast (drop_bit 16 v AND 0xff), ucast (drop_bit 8 v AND 0xff), ucast (drop_bit 0 v AND 0xff)]"

definition SET_U16_LSBFIRST :: "bytes \<Rightarrow> nat \<Rightarrow> u16 \<Rightarrow> bytes option" where
  "SET_U16_LSBFIRST p off v = store_seq p off
     [ucast (drop_bit 0 v AND 0xff), ucast (drop_bit 8 v AND 0xff)]"

definition SET_U24_LSBFIRST :: "bytes \<Rightarrow> nat \<Rightarrow> u32 \<Rightarrow> bytes option" where
  "SET_U24_LSBFIRST p off v = store_seq p off
     [ucast (drop_bit 0 v AND 0xff), ucast (drop_bit 8 v AND 0xff), ucast (drop_bit 16 v AND 0xff)]"

definition SET_U32_LSBFIRST :: "bytes \<Rightarrow> nat \<Rightarrow> u32 \<Rightarrow> bytes option" where
  "SET_U32_LSBFIRST p off v = store_seq p off
     [ucast (drop_bit 0 v AND 0xff), ucast (drop_bit 8 v AND 0xff), ucast (drop_bit 16 v AND 0xff), ucast (drop_bit 24 v AND 0xff)]"

definition SET_U64_LSBFIRST :: "bytes \<Rightarrow> nat \<Rightarrow> u64 \<Rightarrow> bytes option" where
  "SET_U64_LSBFIRST p off v = store_seq p off
     [ucast (drop_bit 0 v AND 0xff), ucast (drop_bit 8 v AND 0xff), ucast (drop_bit 16 v AND 0xff), ucast (drop_bit 24 v AND 0xff), ucast (drop_bit 32 v AND 0xff), ucast (drop_bit 40 v AND 0xff), ucast (drop_bit 48 v AND 0xff), ucast (drop_bit 56 v AND 0xff)]"

text \<open>The names by byte order.\<close>

definition GET_LE_U16 :: "bytes \<Rightarrow> nat \<Rightarrow> u16 option" where
  "GET_LE_U16 = GET_U16_LSBFIRST"

definition GET_LE_U24 :: "bytes \<Rightarrow> nat \<Rightarrow> u32 option" where
  "GET_LE_U24 = GET_U24_LSBFIRST"

definition GET_LE_U32 :: "bytes \<Rightarrow> nat \<Rightarrow> u32 option" where
  "GET_LE_U32 = GET_U32_LSBFIRST"

definition GET_LE_U64 :: "bytes \<Rightarrow> nat \<Rightarrow> u64 option" where
  "GET_LE_U64 = GET_U64_LSBFIRST"

definition GET_BE_U16 :: "bytes \<Rightarrow> nat \<Rightarrow> u16 option" where
  "GET_BE_U16 = GET_U16_MSBFIRST"

definition GET_BE_U24 :: "bytes \<Rightarrow> nat \<Rightarrow> u32 option" where
  "GET_BE_U24 = GET_U24_MSBFIRST"

definition GET_BE_U32 :: "bytes \<Rightarrow> nat \<Rightarrow> u32 option" where
  "GET_BE_U32 = GET_U32_MSBFIRST"

definition GET_BE_U64 :: "bytes \<Rightarrow> nat \<Rightarrow> u64 option" where
  "GET_BE_U64 = GET_U64_MSBFIRST"

definition SET_LE_U16 :: "bytes \<Rightarrow> nat \<Rightarrow> u16 \<Rightarrow> bytes option" where
  "SET_LE_U16 = SET_U16_LSBFIRST"

definition SET_LE_U24 :: "bytes \<Rightarrow> nat \<Rightarrow> u32 \<Rightarrow> bytes option" where
  "SET_LE_U24 = SET_U24_LSBFIRST"

definition SET_LE_U32 :: "bytes \<Rightarrow> nat \<Rightarrow> u32 \<Rightarrow> bytes option" where
  "SET_LE_U32 = SET_U32_LSBFIRST"

definition SET_LE_U64 :: "bytes \<Rightarrow> nat \<Rightarrow> u64 \<Rightarrow> bytes option" where
  "SET_LE_U64 = SET_U64_LSBFIRST"

definition SET_BE_U16 :: "bytes \<Rightarrow> nat \<Rightarrow> u16 \<Rightarrow> bytes option" where
  "SET_BE_U16 = SET_U16_MSBFIRST"

definition SET_BE_U24 :: "bytes \<Rightarrow> nat \<Rightarrow> u32 \<Rightarrow> bytes option" where
  "SET_BE_U24 = SET_U24_MSBFIRST"

definition SET_BE_U32 :: "bytes \<Rightarrow> nat \<Rightarrow> u32 \<Rightarrow> bytes option" where
  "SET_BE_U32 = SET_U32_MSBFIRST"

definition SET_BE_U64 :: "bytes \<Rightarrow> nat \<Rightarrow> u64 \<Rightarrow> bytes option" where
  "SET_BE_U64 = SET_U64_MSBFIRST"

subsection \<open>Swapping the bytes of a word\<close>

definition SWAP_U16 :: "u16 \<Rightarrow> u16" where
  "SWAP_U16 v =
     drop_bit 8 (v AND 0xFF00) OR
     push_bit 8 (v AND 0x00FF)"

definition SWAP_U24 :: "u32 \<Rightarrow> u32" where
  "SWAP_U24 v =
     drop_bit 16 (v AND 0x00FF0000) OR
     push_bit 0 (v AND 0x0000FF00) OR
     push_bit 16 (v AND 0x000000FF)"

definition SWAP_U32 :: "u32 \<Rightarrow> u32" where
  "SWAP_U32 v =
     drop_bit 24 (v AND 0xFF000000) OR
     drop_bit 8 (v AND 0x00FF0000) OR
     push_bit 8 (v AND 0x0000FF00) OR
     push_bit 24 (v AND 0x000000FF)"

definition SWAP_U64 :: "u64 \<Rightarrow> u64" where
  "SWAP_U64 v =
     drop_bit 56 (v AND 0xFF00000000000000) OR
     drop_bit 40 (v AND 0x00FF000000000000) OR
     drop_bit 24 (v AND 0x0000FF0000000000) OR
     drop_bit 8 (v AND 0x000000FF00000000) OR
     push_bit 8 (v AND 0x00000000FF000000) OR
     push_bit 24 (v AND 0x0000000000FF0000) OR
     push_bit 40 (v AND 0x000000000000FF00) OR
     push_bit 56 (v AND 0x00000000000000FF)"

subsection \<open>Conversion between machine and fixed byte order\<close>

definition LE_TO_SYS_U16 :: "bool \<Rightarrow> u16 \<Rightarrow> u16" where
  "LE_TO_SYS_U16 big v = (if big then SWAP_U16 v else v)"

definition LE_TO_SYS_U24 :: "bool \<Rightarrow> u32 \<Rightarrow> u32" where
  "LE_TO_SYS_U24 big v = (if big then SWAP_U24 v else v)"

definition LE_TO_SYS_U32 :: "bool \<Rightarrow> u32 \<Rightarrow> u32" where
  "LE_TO_SYS_U32 big v = (if big then SWAP_U32 v else v)"

definition LE_TO_SYS_U64 :: "bool \<Rightarrow> u64 \<Rightarrow> u64" where
  "LE_TO_SYS_U64 big v = (if big then SWAP_U64 v else v)"

definition BE_TO_SYS_U16 :: "bool \<Rightarrow> u16 \<Rightarrow> u16" where
  "BE_TO_SYS_U16 big v = (if big then v else SWAP_U16 v)"

definition BE_TO_SYS_U24 :: "bool \<Rightarrow> u32 \<Rightarrow> u32" where
  "BE_TO_SYS_U24 big v = (if big then v else SWAP_U24 v)"

definition BE_TO_SYS_U32 :: "bool \<Rightarrow> u32 \<Rightarrow> u32" where
  "BE_TO_SYS_U32 big v = (if big then v else SWAP_U32 v)"

definition BE_TO_SYS_U64 :: "bool \<Rightarrow> u64 \<Rightarrow> u64" where
  "BE_TO_SYS_U64 big v = (if big then v else SWAP_U64 v)"

definition SYS_TO_LE_U16 :: "bool \<Rightarrow> u16 \<Rightarrow> u16" where
  "SYS_TO_LE_U16 big v = (if big then SWAP_U16 v else v)"

definition SYS_TO_LE_U24 :: "bool \<Rightarrow> u32 \<Rightarrow> u32" where
  "SYS_TO_LE_U24 big v = (if big then SWAP_U24 v else v)"

definition SYS_TO_LE_U32 :: "bool \<Rightarrow> u32 \<Rightarrow> u32" where
  "SYS_TO_LE_U32 big v = (if big then SWAP_U32 v else v)"

definition SYS_TO_LE_U64 :: "bool \<Rightarrow> u64 \<Rightarrow> u64" where
  "SYS_TO_LE_U64 big v = (if big then SWAP_U64 v else v)"

definition SYS_TO_BE_U16 :: "bool \<Rightarrow> u16 \<Rightarrow> u16" where
  "SYS_TO_BE_U16 big v = (if big then v else SWAP_U16 v)"

definition SYS_TO_BE_U24 :: "bool \<Rightarrow> u32 \<Rightarrow> u32" where
  "SYS_TO_BE_U24 big v = (if big then v else SWAP_U24 v)"

definition SYS_TO_BE_U32 :: "bool \<Rightarrow> u32 \<Rightarrow> u32" where
  "SYS_TO_BE_U32 big v = (if big then v else SWAP_U32 v)"

definition SYS_TO_BE_U64 :: "bool \<Rightarrow> u64 \<Rightarrow> u64" where
  "SYS_TO_BE_U64 big v = (if big then v else SWAP_U64 v)"

definition SET_SYS_U16 :: "bool \<Rightarrow> bytes \<Rightarrow> nat \<Rightarrow> u16 \<Rightarrow> bytes option" where
  "SET_SYS_U16 big = (if big then SET_BE_U16 else SET_LE_U16)"

definition SET_SYS_U24 :: "bool \<Rightarrow> bytes \<Rightarrow> nat \<Rightarrow> u32 \<Rightarrow> bytes option" where
  "SET_SYS_U24 big = (if big then SET_BE_U24 else SET_LE_U24)"

definition SET_SYS_U32 :: "bool \<Rightarrow> bytes \<Rightarrow> nat \<Rightarrow> u32 \<Rightarrow> bytes option" where
  "SET_SYS_U32 big = (if big then SET_BE_U32 else SET_LE_U32)"

definition SET_SYS_U64 :: "bool \<Rightarrow> bytes \<Rightarrow> nat \<Rightarrow> u64 \<Rightarrow> bytes option" where
  "SET_SYS_U64 big = (if big then SET_BE_U64 else SET_LE_U64)"

definition GET_SYS_U16 :: "bool \<Rightarrow> bytes \<Rightarrow> nat \<Rightarrow> u16 option" where
  "GET_SYS_U16 big = (if big then GET_BE_U16 else GET_LE_U16)"

definition GET_SYS_U24 :: "bool \<Rightarrow> bytes \<Rightarrow> nat \<Rightarrow> u32 option" where
  "GET_SYS_U24 big = (if big then GET_BE_U24 else GET_LE_U24)"

definition GET_SYS_U32 :: "bool \<Rightarrow> bytes \<Rightarrow> nat \<Rightarrow> u32 option" where
  "GET_SYS_U32 big = (if big then GET_BE_U32 else GET_LE_U32)"

definition GET_SYS_U64 :: "bool \<Rightarrow> bytes \<Rightarrow> nat \<Rightarrow> u64 option" where
  "GET_SYS_U64 big = (if big then GET_BE_U64 else GET_LE_U64)"

subsection \<open>Little- and big-endian encodings\<close>

definition enc_le :: "nat \<Rightarrow> 'a::len word \<Rightarrow> bytes" where
  "enc_le k v = map (\<lambda>i. ucast (drop_bit (8 * i) v)) [0..<k]"

definition enc_be :: "nat \<Rightarrow> 'a::len word \<Rightarrow> bytes" where
  "enc_be k v = rev (enc_le k v)"

fun dec_le :: "bytes \<Rightarrow> 'a::len word" where
  "dec_le [] = 0"
| "dec_le (b # bs) = ucast b OR push_bit 8 (dec_le bs)"

definition dec_be :: "bytes \<Rightarrow> 'a::len word" where
  "dec_be bs = dec_le (rev bs)"

lemma length_enc [simp]: "length (enc_le k v) = k" "length (enc_be k v) = k"
  by (simp_all add: enc_le_def enc_be_def)

lemma bit_dec_le:
  "bit (dec_le bs :: 'a::len word) n \<longleftrightarrow> n < LENGTH('a) \<and> n < 8 * length bs \<and> bit (bs ! (n div 8)) (n mod 8)"
proof (induction bs arbitrary: n)
  case (Cons b bs)
  show ?case
  proof (cases "n < 8")
    case False
    then obtain k where k: "n = k + 8" by (metis add.commute le_Suc_ex not_less)
    have "(k + 8) div 8 = Suc (k div 8)" by simp
    then show ?thesis by (auto simp: k bit_simps Cons.IH byte_bit_high)
  qed (auto simp: bit_simps)
qed simp

lemma dec_enc_le: "dec_le (enc_le k v) = take_bit (8 * k) v"
  by (rule bit_eqI) (auto simp: bit_dec_le enc_le_def bit_simps byte_bit_high dest: bit_imp_le_length)

lemma enc_dec_le:
  assumes "8 * length bs \<le> LENGTH('a::len)"
  shows "enc_le (length bs) (dec_le bs :: 'a word) = bs"
proof (rule nth_equalityI)
  fix i assume "i < length (enc_le (length bs) (dec_le bs :: 'a word))"
  then have i: "i < length bs" by simp
  show "enc_le (length bs) (dec_le bs :: 'a word) ! i = bs ! i"
  proof (rule bit_word_eqI)
    fix n assume "n < LENGTH(8)"
    then have n: "n < 8" by simp
    then have "8 * i + n < 8 * length bs" using i by simp
    with n i assms show "bit (enc_le (length bs) (dec_le bs :: 'a word) ! i) n = bit (bs ! i) n"
      by (simp add: enc_le_def bit_simps bit_dec_le)
  qed
qed simp

lemma dec_enc_be: "dec_be (enc_be k v) = take_bit (8 * k) v"
  by (simp add: dec_be_def enc_be_def dec_enc_le)

lemma enc_dec_be: "8 * length bs \<le> LENGTH('a::len) \<Longrightarrow> enc_be (length bs) (dec_be bs :: 'a word) = bs"
  using enc_dec_le [of "rev bs", where 'a = 'a] by (simp add: dec_be_def enc_be_def)

lemma mem_write_Cons:
  "bs \<noteq> [] \<Longrightarrow> mem_write p off (b # bs) = mem_store p off b \<bind> (\<lambda>p. mem_write p (off + 1) bs)"
  by (auto simp: mem_write_def mem_store_def take_Suc_conv_app_nth)

lemma mem_write_single: "mem_write p off [b] = mem_store p off b"
  by (auto simp: mem_write_def mem_store_def upd_conv_take_nth_drop)

lemma store_seq_write: "bs \<noteq> [] \<Longrightarrow> store_seq p off bs = mem_write p off bs"
proof (induction bs arbitrary: p off)
  case (Cons b bs)
  then show ?case
    by (cases bs) (auto simp: mem_write_single mem_write_Cons simp del: store_seq.simps(2)
      intro!: arg_cong2 [where f = Option.bind] simp: store_seq.simps(2) [of p])
qed simp

lemma load_seq_read: "0 < n \<Longrightarrow> load_seq p off n = mem_read p off n"
proof (induction n arbitrary: off)
  case (Suc n)
  show ?case
  proof (cases "n = 0")
    case True
    then show ?thesis by (auto simp: mem_load_def mem_read_def Cons_nth_drop_Suc [symmetric])
  next
    case False
    with Suc show ?thesis
      by (auto simp: mem_load_def mem_read_def Cons_nth_drop_Suc [symmetric])
  qed
qed simp

lemma ucast_and_byte:
  "(ucast (x AND 0xff :: u16) :: u8) = ucast x" "(ucast (y AND 0xff :: u32) :: u8) = ucast y"
  "(ucast (z AND 0xff :: u64) :: u8) = ucast z"
  by (rule byte_eqI; simp add: bit_simps)+

text \<open>The macros in terms of the encodings.\<close>

lemma upt_bytes:
  "[0..<2] = [0, 1 :: nat]" "[0..<3] = [0, 1, 2 :: nat]" "[0..<4] = [0, 1, 2, 3 :: nat]"
  "[0..<8] = [0, 1, 2, 3, 4, 5, 6, 7 :: nat]"
  by (simp_all add: upt_rec)

lemma get_via_dec:
  assumes "\<And>b. length b = k \<Longrightarrow> f b = dec b" "0 < k"
  shows "load_seq p off k \<bind> (\<lambda>b. Some (f b)) = map_option dec (mem_read p off k)"
  using assms by (auto simp: load_seq_read mem_read_def)

lemma SET_U16_LSBFIRST_enc: "SET_U16_LSBFIRST p off v = mem_write p off (enc_le 2 v)"
  by (simp add: SET_U16_LSBFIRST_def store_seq_write ucast_and_byte enc_le_def enc_be_def upt_bytes del: store_seq.simps)

lemma GET_U16_LSBFIRST_dec: "GET_U16_LSBFIRST p off = map_option dec_le (mem_read p off 2)"
  unfolding GET_U16_LSBFIRST_def
  by (rule get_via_dec) (auto simp: numeral_eq_Suc length_Suc_conv dec_be_def push_bit_or ac_simps)

lemma SET_U24_LSBFIRST_enc: "SET_U24_LSBFIRST p off v = mem_write p off (enc_le 3 v)"
  by (simp add: SET_U24_LSBFIRST_def store_seq_write ucast_and_byte enc_le_def enc_be_def upt_bytes del: store_seq.simps)

lemma GET_U24_LSBFIRST_dec: "GET_U24_LSBFIRST p off = map_option dec_le (mem_read p off 3)"
  unfolding GET_U24_LSBFIRST_def
  by (rule get_via_dec) (auto simp: numeral_eq_Suc length_Suc_conv dec_be_def push_bit_or ac_simps)

lemma SET_U32_LSBFIRST_enc: "SET_U32_LSBFIRST p off v = mem_write p off (enc_le 4 v)"
  by (simp add: SET_U32_LSBFIRST_def store_seq_write ucast_and_byte enc_le_def enc_be_def upt_bytes del: store_seq.simps)

lemma GET_U32_LSBFIRST_dec: "GET_U32_LSBFIRST p off = map_option dec_le (mem_read p off 4)"
  unfolding GET_U32_LSBFIRST_def
  by (rule get_via_dec) (auto simp: numeral_eq_Suc length_Suc_conv dec_be_def push_bit_or ac_simps)

lemma SET_U64_LSBFIRST_enc: "SET_U64_LSBFIRST p off v = mem_write p off (enc_le 8 v)"
  by (simp add: SET_U64_LSBFIRST_def store_seq_write ucast_and_byte enc_le_def enc_be_def upt_bytes del: store_seq.simps)

lemma GET_U64_LSBFIRST_dec: "GET_U64_LSBFIRST p off = map_option dec_le (mem_read p off 8)"
  unfolding GET_U64_LSBFIRST_def
  by (rule get_via_dec) (auto simp: numeral_eq_Suc length_Suc_conv dec_be_def push_bit_or ac_simps)

lemma SET_U16_MSBFIRST_enc: "SET_U16_MSBFIRST p off v = mem_write p off (enc_be 2 v)"
  by (simp add: SET_U16_MSBFIRST_def store_seq_write ucast_and_byte enc_le_def enc_be_def upt_bytes del: store_seq.simps)

lemma GET_U16_MSBFIRST_dec: "GET_U16_MSBFIRST p off = map_option dec_be (mem_read p off 2)"
  unfolding GET_U16_MSBFIRST_def
  by (rule get_via_dec) (auto simp: numeral_eq_Suc length_Suc_conv dec_be_def push_bit_or ac_simps)

lemma SET_U24_MSBFIRST_enc: "SET_U24_MSBFIRST p off v = mem_write p off (enc_be 3 v)"
  by (simp add: SET_U24_MSBFIRST_def store_seq_write ucast_and_byte enc_le_def enc_be_def upt_bytes del: store_seq.simps)

lemma GET_U24_MSBFIRST_dec: "GET_U24_MSBFIRST p off = map_option dec_be (mem_read p off 3)"
  unfolding GET_U24_MSBFIRST_def
  by (rule get_via_dec) (auto simp: numeral_eq_Suc length_Suc_conv dec_be_def push_bit_or ac_simps)

lemma SET_U32_MSBFIRST_enc: "SET_U32_MSBFIRST p off v = mem_write p off (enc_be 4 v)"
  by (simp add: SET_U32_MSBFIRST_def store_seq_write ucast_and_byte enc_le_def enc_be_def upt_bytes del: store_seq.simps)

lemma GET_U32_MSBFIRST_dec: "GET_U32_MSBFIRST p off = map_option dec_be (mem_read p off 4)"
  unfolding GET_U32_MSBFIRST_def
  by (rule get_via_dec) (auto simp: numeral_eq_Suc length_Suc_conv dec_be_def push_bit_or ac_simps)

lemma SET_U64_MSBFIRST_enc: "SET_U64_MSBFIRST p off v = mem_write p off (enc_be 8 v)"
  by (simp add: SET_U64_MSBFIRST_def store_seq_write ucast_and_byte enc_le_def enc_be_def upt_bytes del: store_seq.simps)

lemma GET_U64_MSBFIRST_dec: "GET_U64_MSBFIRST p off = map_option dec_be (mem_read p off 8)"
  unfolding GET_U64_MSBFIRST_def
  by (rule get_via_dec) (auto simp: numeral_eq_Suc length_Suc_conv dec_be_def push_bit_or ac_simps)

lemma enc_dec_width:
  "length bs = k \<Longrightarrow> 8 * k \<le> LENGTH('a::len) \<Longrightarrow> enc_le k (dec_le bs :: 'a word) = bs"
  "length bs = k \<Longrightarrow> 8 * k \<le> LENGTH('a::len) \<Longrightarrow> enc_be k (dec_be bs :: 'a word) = bs"
  using enc_dec_le [of bs, where 'a = 'a] enc_dec_be [of bs, where 'a = 'a] by auto

lemmas codec_simps = dec_enc_le dec_enc_be enc_dec_width

interpretation le16: mem_codec 2 "enc_le 2" dec_le "take_bit 16"
    GET_U16_LSBFIRST SET_U16_LSBFIRST
  by unfold_locales (simp_all add: GET_U16_LSBFIRST_dec SET_U16_LSBFIRST_enc codec_simps)

interpretation le24: mem_codec 3 "enc_le 3" dec_le "take_bit 24"
    GET_U24_LSBFIRST SET_U24_LSBFIRST
  by unfold_locales (simp_all add: GET_U24_LSBFIRST_dec SET_U24_LSBFIRST_enc codec_simps)

interpretation le32: mem_codec 4 "enc_le 4" dec_le "take_bit 32"
    GET_U32_LSBFIRST SET_U32_LSBFIRST
  by unfold_locales (simp_all add: GET_U32_LSBFIRST_dec SET_U32_LSBFIRST_enc codec_simps)

interpretation le64: mem_codec 8 "enc_le 8" dec_le "take_bit 64"
    GET_U64_LSBFIRST SET_U64_LSBFIRST
  by unfold_locales (simp_all add: GET_U64_LSBFIRST_dec SET_U64_LSBFIRST_enc codec_simps)

interpretation be16: mem_codec 2 "enc_be 2" dec_be "take_bit 16"
    GET_U16_MSBFIRST SET_U16_MSBFIRST
  by unfold_locales (simp_all add: GET_U16_MSBFIRST_dec SET_U16_MSBFIRST_enc codec_simps)

interpretation be24: mem_codec 3 "enc_be 3" dec_be "take_bit 24"
    GET_U24_MSBFIRST SET_U24_MSBFIRST
  by unfold_locales (simp_all add: GET_U24_MSBFIRST_dec SET_U24_MSBFIRST_enc codec_simps)

interpretation be32: mem_codec 4 "enc_be 4" dec_be "take_bit 32"
    GET_U32_MSBFIRST SET_U32_MSBFIRST
  by unfold_locales (simp_all add: GET_U32_MSBFIRST_dec SET_U32_MSBFIRST_enc codec_simps)

interpretation be64: mem_codec 8 "enc_be 8" dec_be "take_bit 64"
    GET_U64_MSBFIRST SET_U64_MSBFIRST
  by unfold_locales (simp_all add: GET_U64_MSBFIRST_dec SET_U64_MSBFIRST_enc codec_simps)

text \<open>A record with a big-endian 16-bit and a little-endian 32-bit field, as an instance of two codecs.\<close>

interpretation be16_le32: two_codecs 2 "enc_be 2" dec_be "take_bit 16" GET_U16_MSBFIRST SET_U16_MSBFIRST
    4 "enc_le 4" dec_le "take_bit 32" GET_U32_LSBFIRST SET_U32_LSBFIRST
  by unfold_locales

subsection \<open>Byte swapping\<close>

lemma enc_SWAP:
  "enc_le 2 (SWAP_U16 a) = enc_be 2 a" "enc_le 3 (SWAP_U24 b) = enc_be 3 b"
  "enc_le 4 (SWAP_U32 c) = enc_be 4 c" "enc_le 8 (SWAP_U64 d) = enc_be 8 d"
  unfolding enc_le_def enc_be_def upt_bytes SWAP_U16_def SWAP_U24_def SWAP_U32_def SWAP_U64_def list.map rev.simps
    append.simps list.inject
  by (intro conjI byte_eqI; simp add: bit_simps)+

lemma enc_be_SWAP:
  "enc_be 2 (SWAP_U16 a) = enc_le 2 a" "enc_be 3 (SWAP_U24 b) = enc_le 3 b"
  "enc_be 4 (SWAP_U32 c) = enc_le 4 c" "enc_be 8 (SWAP_U64 d) = enc_le 8 d"
  by (simp_all add: enc_SWAP rev_swap enc_be_def)

lemma take_bit_SWAP_U24: "take_bit 24 (SWAP_U24 v) = SWAP_U24 v"
proof -
  have m: "(0x00FF0000 :: u32) = push_bit 16 (mask 8)" "(0x0000FF00 :: u32) = push_bit 8 (mask 8)"
    "(0x000000FF :: u32) = mask 8"
    by (simp_all add: mask_eq_exp_minus_1)
  show ?thesis unfolding SWAP_U24_def m by (rule bit_eqI) (auto simp: bit_simps)
qed

lemma SWAP_involution:
  "SWAP_U16 (SWAP_U16 a) = a" "SWAP_U24 (SWAP_U24 b) = take_bit 24 b"
  "SWAP_U32 (SWAP_U32 c) = c" "SWAP_U64 (SWAP_U64 d) = d"
proof -
  have "dec_le (enc_le 2 (SWAP_U16 (SWAP_U16 a))) = (dec_le (enc_le 2 a) :: u16)"
    "dec_le (enc_le 3 (SWAP_U24 (SWAP_U24 b))) = (dec_le (enc_le 3 b) :: u32)"
    "dec_le (enc_le 4 (SWAP_U32 (SWAP_U32 c))) = (dec_le (enc_le 4 c) :: u32)"
    "dec_le (enc_le 8 (SWAP_U64 (SWAP_U64 d))) = (dec_le (enc_le 8 d) :: u64)"
    unfolding enc_SWAP enc_be_SWAP by (rule refl)+
  then show "SWAP_U16 (SWAP_U16 a) = a" "SWAP_U24 (SWAP_U24 b) = take_bit 24 b"
    "SWAP_U32 (SWAP_U32 c) = c" "SWAP_U64 (SWAP_U64 d) = d"
    by (simp_all add: dec_enc_le take_bit_word_eq_self take_bit_SWAP_U24)
qed

subsection \<open>Bit reversal\<close>

lemma upt_bits: "[0..<8] = [0, 1, 2, 3, 4, 5, 6, 7 :: nat]"
  "[0..<16] = [0, 1, 2, 3, 4, 5, 6, 7, 8, 9, 10, 11, 12, 13, 14, 15 :: nat]"
  "[0..<32] = [0, 1, 2, 3, 4, 5, 6, 7, 8, 9, 10, 11, 12, 13, 14, 15,
     16, 17, 18, 19, 20, 21, 22, 23, 24, 25, 26, 27, 28, 29, 30, 31 :: nat]"
  by (simp_all add: upt_rec)

text \<open>One exchange of neighbouring groups of \<open>k\<close> bits, with the masks of the lower and upper groups.\<close>

definition swap_groups :: "nat \<Rightarrow> 'a::len word \<Rightarrow> 'a word \<Rightarrow> 'a word \<Rightarrow> 'a word" where
  "swap_groups k lo hi v = (drop_bit k v AND lo) OR (push_bit k v AND hi)"

lemma bit_swap_groups:
  "bit lo i \<Longrightarrow> \<not> bit hi i \<Longrightarrow> bit (swap_groups k lo hi v) i = bit v (k + i)"
  "\<not> bit lo i \<Longrightarrow> bit hi i \<Longrightarrow> k \<le> i \<Longrightarrow> bit (swap_groups k lo hi v) i = bit v (i - k)"
  by (auto simp: swap_groups_def bit_simps dest: bit_imp_le_length)

lemmas reverse_defs = BIT_REVERSE_U8_def BIT_REVERSE_U16_def BIT_REVERSE_U32_def Let_def swap_groups_def [symmetric]

lemma reverse_bits:
  "list_all (\<lambda>i. bit (BIT_REVERSE_U8 a) i = bit a (7 - i)) [0..<8]"
  "list_all (\<lambda>i. bit (BIT_REVERSE_U16 b) i = bit b (15 - i)) [0..<16]"
  "list_all (\<lambda>i. bit (BIT_REVERSE_U32 c) i = bit c (31 - i)) [0..<32]"
  unfolding upt_bits list.pred_inject reverse_defs by (simp_all add: bit_swap_groups numeral_2_eq_2 numeral_3_eq_3)

subsection \<open>Properties\<close>

text \<open>
  Reading back what was written: each of the eight pairs of \<open>SET\<close> and \<open>GET\<close> macros (16, 24, 32 and
  64 bits, most or least significant byte first) stores a word at any offset with room for eight
  bytes, leaves the length of the array alone and returns the stored value (its lower 24 bits for
  the 24-bit pair).
\<close>

theorem word_access_roundtrip:
  assumes "off + 8 \<le> length p"
  shows "(\<exists>q. SET_U16_MSBFIRST p off a = Some q \<and> length q = length p \<and> GET_U16_MSBFIRST q off = Some (a)) \<and>
   (\<exists>q. SET_U24_MSBFIRST p off b = Some q \<and> length q = length p \<and> GET_U24_MSBFIRST q off = Some (take_bit 24 b)) \<and>
   (\<exists>q. SET_U32_MSBFIRST p off c = Some q \<and> length q = length p \<and> GET_U32_MSBFIRST q off = Some (c)) \<and>
   (\<exists>q. SET_U64_MSBFIRST p off d = Some q \<and> length q = length p \<and> GET_U64_MSBFIRST q off = Some (d)) \<and>
   (\<exists>q. SET_U16_LSBFIRST p off a = Some q \<and> length q = length p \<and> GET_U16_LSBFIRST q off = Some (a)) \<and>
   (\<exists>q. SET_U24_LSBFIRST p off b = Some q \<and> length q = length p \<and> GET_U24_LSBFIRST q off = Some (take_bit 24 b)) \<and>
   (\<exists>q. SET_U32_LSBFIRST p off c = Some q \<and> length q = length p \<and> GET_U32_LSBFIRST q off = Some (c)) \<and>
   (\<exists>q. SET_U64_LSBFIRST p off d = Some q \<and> length q = length p \<and> GET_U64_LSBFIRST q off = Some (d))"
  using assms be16.set_then_get [of off p a] be24.set_then_get [of off p b] be32.set_then_get [of off p c]
    be64.set_then_get [of off p d] le16.set_then_get [of off p a] le24.set_then_get [of off p b]
    le32.set_then_get [of off p c] le64.set_then_get [of off p d]
  by (simp add: take_bit_word_eq_self)

theorem word_access_roundtrip_witness:
  "(\<exists>q. SET_U16_MSBFIRST (replicate 9 0) 1 1 = Some q \<and> length q = length (replicate 9 (0::u8)) \<and> GET_U16_MSBFIRST q 1 = Some 1) \<and>
   (\<exists>q. SET_U24_MSBFIRST (replicate 9 0) 1 2 = Some q \<and> length q = length (replicate 9 (0::u8)) \<and> GET_U24_MSBFIRST q 1 = Some (take_bit 24 2)) \<and>
   (\<exists>q. SET_U32_MSBFIRST (replicate 9 0) 1 3 = Some q \<and> length q = length (replicate 9 (0::u8)) \<and> GET_U32_MSBFIRST q 1 = Some 3) \<and>
   (\<exists>q. SET_U64_MSBFIRST (replicate 9 0) 1 4 = Some q \<and> length q = length (replicate 9 (0::u8)) \<and> GET_U64_MSBFIRST q 1 = Some 4) \<and>
   (\<exists>q. SET_U16_LSBFIRST (replicate 9 0) 1 1 = Some q \<and> length q = length (replicate 9 (0::u8)) \<and> GET_U16_LSBFIRST q 1 = Some 1) \<and>
   (\<exists>q. SET_U24_LSBFIRST (replicate 9 0) 1 2 = Some q \<and> length q = length (replicate 9 (0::u8)) \<and> GET_U24_LSBFIRST q 1 = Some (take_bit 24 2)) \<and>
   (\<exists>q. SET_U32_LSBFIRST (replicate 9 0) 1 3 = Some q \<and> length q = length (replicate 9 (0::u8)) \<and> GET_U32_LSBFIRST q 1 = Some 3) \<and>
   (\<exists>q. SET_U64_LSBFIRST (replicate 9 0) 1 4 = Some q \<and> length q = length (replicate 9 (0::u8)) \<and> GET_U64_LSBFIRST q 1 = Some 4)"
  by (rule word_access_roundtrip) simp

lemmas sys_defs = SET_SYS_U16_def GET_SYS_U16_def SET_LE_U16_def SET_BE_U16_def GET_LE_U16_def GET_BE_U16_def
  SYS_TO_LE_U16_def SYS_TO_BE_U16_def LE_TO_SYS_U16_def BE_TO_SYS_U16_def SET_SYS_U24_def
  GET_SYS_U24_def SET_LE_U24_def SET_BE_U24_def GET_LE_U24_def GET_BE_U24_def SYS_TO_LE_U24_def
  SYS_TO_BE_U24_def LE_TO_SYS_U24_def BE_TO_SYS_U24_def SET_SYS_U32_def GET_SYS_U32_def
  SET_LE_U32_def SET_BE_U32_def GET_LE_U32_def GET_BE_U32_def SYS_TO_LE_U32_def SYS_TO_BE_U32_def
  LE_TO_SYS_U32_def BE_TO_SYS_U32_def SET_SYS_U64_def GET_SYS_U64_def SET_LE_U64_def
  SET_BE_U64_def GET_LE_U64_def GET_BE_U64_def SYS_TO_LE_U64_def SYS_TO_BE_U64_def
  LE_TO_SYS_U64_def BE_TO_SYS_U64_def

lemmas access_codecs = SET_U16_LSBFIRST_enc GET_U16_LSBFIRST_dec SET_U16_MSBFIRST_enc GET_U16_MSBFIRST_dec
  SET_U24_LSBFIRST_enc GET_U24_LSBFIRST_dec SET_U24_MSBFIRST_enc GET_U24_MSBFIRST_dec
  SET_U32_LSBFIRST_enc GET_U32_LSBFIRST_dec SET_U32_MSBFIRST_enc GET_U32_MSBFIRST_dec
  SET_U64_LSBFIRST_enc GET_U64_LSBFIRST_dec SET_U64_MSBFIRST_enc GET_U64_MSBFIRST_dec

lemma dec_by_enc:
  fixes v w :: "'a::len word"
  assumes "length x = k" "8 * k \<le> LENGTH('a)" "take_bit (8 * k) v = v"
  shows "enc_be k v = enc_le k w \<Longrightarrow> w = dec_le x \<Longrightarrow> v = dec_be x"
    "enc_le k v = enc_be k w \<Longrightarrow> w = dec_be x \<Longrightarrow> v = dec_le x"
  using assms dec_enc_be [of k v] dec_enc_le [of k v] enc_dec_width [of x k, where 'a = 'a] by metis+

lemma dec_SWAP:
  "length x = 2 \<Longrightarrow> SWAP_U16 (dec_le x) = dec_be x" "length x = 3 \<Longrightarrow> SWAP_U24 (dec_le x) = dec_be x"
  "length x = 4 \<Longrightarrow> SWAP_U32 (dec_le x) = dec_be x" "length x = 8 \<Longrightarrow> SWAP_U64 (dec_le x) = dec_be x"
  "length x = 2 \<Longrightarrow> SWAP_U16 (dec_be x) = dec_le x" "length x = 3 \<Longrightarrow> SWAP_U24 (dec_be x) = dec_le x"
  "length x = 4 \<Longrightarrow> SWAP_U32 (dec_be x) = dec_le x" "length x = 8 \<Longrightarrow> SWAP_U64 (dec_be x) = dec_le x"
  by (rule dec_by_enc(1) [OF _ _ _ enc_be_SWAP(1)] dec_by_enc(1) [OF _ _ _ enc_be_SWAP(2)]
        dec_by_enc(1) [OF _ _ _ enc_be_SWAP(3)] dec_by_enc(1) [OF _ _ _ enc_be_SWAP(4)]
        dec_by_enc(2) [OF _ _ _ enc_SWAP(1)] dec_by_enc(2) [OF _ _ _ enc_SWAP(2)]
        dec_by_enc(2) [OF _ _ _ enc_SWAP(3)] dec_by_enc(2) [OF _ _ _ enc_SWAP(4)];
      simp add: take_bit_word_eq_self take_bit_SWAP_U24)+

lemma read_SWAP:
  "map_option SWAP_U16 (map_option dec_le (mem_read p off 2)) = map_option dec_be (mem_read p off 2)"
  "map_option SWAP_U24 (map_option dec_le (mem_read p off 3)) = map_option dec_be (mem_read p off 3)"
  "map_option SWAP_U32 (map_option dec_le (mem_read p off 4)) = map_option dec_be (mem_read p off 4)"
  "map_option SWAP_U64 (map_option dec_le (mem_read p off 8)) = map_option dec_be (mem_read p off 8)"
  "map_option SWAP_U16 (map_option dec_be (mem_read p off 2)) = map_option dec_le (mem_read p off 2)"
  "map_option SWAP_U24 (map_option dec_be (mem_read p off 3)) = map_option dec_le (mem_read p off 3)"
  "map_option SWAP_U32 (map_option dec_be (mem_read p off 4)) = map_option dec_le (mem_read p off 4)"
  "map_option SWAP_U64 (map_option dec_be (mem_read p off 8)) = map_option dec_le (mem_read p off 8)"
  by (simp_all add: mem_read_def dec_SWAP)

lemma to_sys_fun:
  "LE_TO_SYS_U16 big = (if big then SWAP_U16 else (\<lambda>v. v))" "BE_TO_SYS_U16 big = (if big then (\<lambda>v. v) else SWAP_U16)"
  "LE_TO_SYS_U24 big = (if big then SWAP_U24 else (\<lambda>v. v))" "BE_TO_SYS_U24 big = (if big then (\<lambda>v. v) else SWAP_U24)"
  "LE_TO_SYS_U32 big = (if big then SWAP_U32 else (\<lambda>v. v))" "BE_TO_SYS_U32 big = (if big then (\<lambda>v. v) else SWAP_U32)"
  "LE_TO_SYS_U64 big = (if big then SWAP_U64 else (\<lambda>v. v))" "BE_TO_SYS_U64 big = (if big then (\<lambda>v. v) else SWAP_U64)"
  by (simp_all add: fun_eq_iff sys_defs)

text \<open>
  The conversion macros do what their names say on either kind of machine: storing a converted
  word in the machine's own byte order gives the named byte order in memory, and converting a
  word read in the machine's own order gives the word of the named order.
\<close>

theorem sys_order_conversions:
  "SET_SYS_U16 big p off (SYS_TO_LE_U16 big a) = SET_LE_U16 p off a \<and>
   SET_SYS_U24 big p off (SYS_TO_LE_U24 big b) = SET_LE_U24 p off b \<and>
   SET_SYS_U32 big p off (SYS_TO_LE_U32 big c) = SET_LE_U32 p off c \<and>
   SET_SYS_U64 big p off (SYS_TO_LE_U64 big d) = SET_LE_U64 p off d \<and>
   SET_SYS_U16 big p off (SYS_TO_BE_U16 big a) = SET_BE_U16 p off a \<and>
   SET_SYS_U24 big p off (SYS_TO_BE_U24 big b) = SET_BE_U24 p off b \<and>
   SET_SYS_U32 big p off (SYS_TO_BE_U32 big c) = SET_BE_U32 p off c \<and>
   SET_SYS_U64 big p off (SYS_TO_BE_U64 big d) = SET_BE_U64 p off d \<and>
   map_option (LE_TO_SYS_U16 big) (GET_SYS_U16 big p off) = GET_LE_U16 p off \<and>
   map_option (LE_TO_SYS_U24 big) (GET_SYS_U24 big p off) = GET_LE_U24 p off \<and>
   map_option (LE_TO_SYS_U32 big) (GET_SYS_U32 big p off) = GET_LE_U32 p off \<and>
   map_option (LE_TO_SYS_U64 big) (GET_SYS_U64 big p off) = GET_LE_U64 p off \<and>
   map_option (BE_TO_SYS_U16 big) (GET_SYS_U16 big p off) = GET_BE_U16 p off \<and>
   map_option (BE_TO_SYS_U24 big) (GET_SYS_U24 big p off) = GET_BE_U24 p off \<and>
   map_option (BE_TO_SYS_U32 big) (GET_SYS_U32 big p off) = GET_BE_U32 p off \<and>
   map_option (BE_TO_SYS_U64 big) (GET_SYS_U64 big p off) = GET_BE_U64 p off"
  by (cases big; intro conjI)
     (simp_all add: to_sys_fun sys_defs access_codecs enc_SWAP enc_be_SWAP read_SWAP option.map_ident del: option.map_comp)

text \<open>
  The bit reversal macros for 8, 16 and 32 bits move bit \<open>i\<close> to the mirrored position.
\<close>

theorem bit_reverse_mirrors:
  "list_all (\<lambda>i. bit (BIT_REVERSE_U8 a) i = bit a (7 - i)) [0..<8] \<and>
   list_all (\<lambda>i. bit (BIT_REVERSE_U16 b) i = bit b (15 - i)) [0..<16] \<and>
   list_all (\<lambda>i. bit (BIT_REVERSE_U32 c) i = bit c (31 - i)) [0..<32]"
  by (intro conjI reverse_bits)

text \<open>The 64-bit macro shifts by 1 instead of 32 in its last line and is no reversal: bit 0 goes to
  bits 30 and 32 instead of bit 63.\<close>

theorem bit_reverse_u64_wrong: "BIT_REVERSE_U64 1 = 0x140000000"
  by (simp add: BIT_REVERSE_U64_def)

text \<open>\<open>BIT_TOGGLE_MASK\<close> toggles the bits outside the mask and leaves those inside alone.\<close>

theorem bit_toggle_mask_inverted:
  "i < 32 \<Longrightarrow> bit (BIT_TOGGLE_MASK d m) i = (if bit m i then bit d i else \<not> bit d i)"
  by (simp add: BIT_TOGGLE_MASK_def bit_simps)

lemma BITS_MASK_mask: "BITS_MASK n = mask n"
  by (rule bit_eqI) (auto simp: BITS_MASK_def bit_simps)

text \<open>
  Bit fields: after \<open>BITS_SET\<close> the field reads back as the lower \<open>len\<close> bits of the value and every
  bit outside the field is unchanged; setting, clearing and toggling a single bit change that bit
  only.
\<close>

theorem bit_fields:
  assumes "start + len \<le> 32" "k < 32"
  shows "BITS_GET (BITS_SET d start len v) start len = take_bit len v
    \<and> (\<forall>i. bit (BITS_SET d start len v) i = (if start \<le> i \<and> i < start + len then bit v (i - start) else bit d i))
    \<and> (\<forall>i. bit (BIT_SET d k) i = (i = k \<or> bit d i) \<and> bit (BIT_CLR d k) i = (i \<noteq> k \<and> bit d i)
         \<and> bit (BIT_TOGGLE d k) i = (if i = k then \<not> bit d i else bit d i))
    \<and> BIT_GET d k = of_bool (bit d k)"
proof (intro conjI allI impI)
  show "BITS_GET (BITS_SET d start len v) start len = take_bit len v"
    using assms(1) by (intro bit_eqI)
      (auto simp: BITS_GET_def BITS_SET_def SBF_def BITS_MASK_mask bit_simps)
  show "bit (BITS_SET d start len v) i = (if start \<le> i \<and> i < start + len then bit v (i - start) else bit d i)" for i
    using assms(1) by (auto simp: BITS_SET_def SBF_def BITS_MASK_mask bit_simps dest: bit_imp_le_length)
  show "bit (BIT_SET d k) i = (i = k \<or> bit d i)" "bit (BIT_CLR d k) i = (i \<noteq> k \<and> bit d i)"
    "bit (BIT_TOGGLE d k) i = (if i = k then \<not> bit d i else bit d i)" for i
    using assms(2) by (auto simp: BIT_SET_def BIT_CLR_def BIT_TOGGLE_def BIT_def bit_simps dest: bit_imp_le_length)
  show "BIT_GET d k = of_bool (bit d k)"
    using assms(2) by (simp add: BIT_GET_def BIT_ISSET_def BIT_def push_bit_of_1 and_exp_eq_0_iff_not_bit)
qed

theorem bit_fields_witness:
  "BITS_GET (BITS_SET 0xffff 4 8 0x5a) 4 8 = take_bit 8 0x5a
    \<and> (\<forall>i. bit (BITS_SET 0xffff 4 8 0x5a) i = (if 4 \<le> i \<and> i < 4 + 8 then bit (0x5a :: u32) (i - 4) else bit (0xffff :: u32) i))
    \<and> (\<forall>i. bit (BIT_SET 0xffff 17) i = (i = 17 \<or> bit (0xffff :: u32) i)
         \<and> bit (BIT_CLR 0xffff 17) i = (i \<noteq> 17 \<and> bit (0xffff :: u32) i)
         \<and> bit (BIT_TOGGLE 0xffff 17) i = (if i = 17 then \<not> bit (0xffff :: u32) i else bit (0xffff :: u32) i))
    \<and> BIT_GET 0xffff 17 = of_bool (bit (0xffff :: u32) 17)"
  by (rule bit_fields) simp_all

end
