(* ===== verification/Bcd.thy ===== *)
theory Bcd
  imports Prelude
begin

text \<open>
  The conversions between packed BCD (two hexadecimal digits per byte) and text of \<open>app_utils.c\<close>.

  Text is an array of \<open>int8_t\<close>, kept as \<open>u8\<close> and read as signed where the code does. Both loops
  count with a \<open>uint8_t\<close> while their bound is a 32-bit number; the counter wraps as in the source,
  and a loop that would run on forever leaves its arrays, which is the result \<open>None\<close>. The tests of
  \<open>ctype.h\<close> are those of the C locale; they are undefined for negative arguments other than \<open>EOF\<close>.
  The file helpers of the same source are in \<open>File_Tree\<close>.
\<close>

subsection \<open>Definitions\<close>

definition bcd2ascii :: bytes where
  "bcd2ascii = [0x30, 0x31, 0x32, 0x33, 0x34, 0x35, 0x36, 0x37, 0x38, 0x39, 0x61, 0x62, 0x63, 0x64, 0x65, 0x66]"

definition ascii2bcd1 :: bytes where
  "ascii2bcd1 = [0, 1, 2, 3, 4, 5, 6, 7, 8, 9]"

definition ascii2bcd2 :: bytes where
  "ascii2bcd2 = [0x0A, 0x0B, 0x0C, 0x0D, 0x0E, 0x0F]"

definition ascii2bcd3 :: bytes where
  "ascii2bcd3 = [0x0a, 0x0b, 0x0c, 0x0d, 0x0e, 0x0f]"

definition ctype_range :: "int \<Rightarrow> int \<Rightarrow> int \<Rightarrow> bool option" where
  "ctype_range lo hi c = (if c < -1 \<or> 255 < c then None else Some (lo \<le> c \<and> c \<le> hi))"

definition isupper :: "int \<Rightarrow> bool option" where
  "isupper = ctype_range 0x41 0x5A"

definition isdigit :: "int \<Rightarrow> bool option" where
  "isdigit = ctype_range 0x30 0x39"

definition islower :: "int \<Rightarrow> bool option" where
  "islower = ctype_range 0x61 0x7A"

text \<open>The chain of tests on one character: \<open>Some None\<close> when none applies, so that \<open>c\<close> is left alone.\<close>

definition asc_digit :: "u8 \<Rightarrow> u8 option option" where
  "asc_digit a = do {
     up \<leftarrow> isupper (sint a);
     if up then map_option Some (mem_load ascii2bcd2 (unat (a - 0x41)))
     else do {
       dg \<leftarrow> isdigit (sint a);
       if dg then map_option Some (mem_load ascii2bcd1 (unat (a - 0x30)))
       else do {
         lw \<leftarrow> islower (sint a);
         if lw then map_option Some (mem_load ascii2bcd3 (unat (a - 0x61)))
         else Some None } } }"

function asc2bcd_loop :: "bytes \<Rightarrow> nat \<Rightarrow> bytes \<Rightarrow> nat \<Rightarrow> u8 \<Rightarrow> u32 \<Rightarrow> u8 \<Rightarrow> bytes option" where
  "asc2bcd_loop bcd bp asc ap i len c =
     (if int (unat i) < sint len then do {
        a \<leftarrow> mem_load asc ap;
        first \<leftarrow> asc_digit a;
        let c1 = (case first of None \<Rightarrow> c | Some v \<Rightarrow> push_bit 4 v);
        b \<leftarrow> mem_load asc (ap + 1);
        second \<leftarrow> asc_digit b;
        let c2 = (case second of None \<Rightarrow> c1 | Some v \<Rightarrow> c1 OR v);
        bcd' \<leftarrow> mem_store bcd bp c2;
        asc2bcd_loop bcd' (bp + 1) asc (ap + 2) (i + 1) len c2 }
      else Some bcd)"
  by pat_completeness auto
termination
  by (relation "measure (\<lambda>(bcd, bp, asc, ap, i, len, c). length asc - ap)")
     (auto simp: mem_load_def split: if_splits)

declare asc2bcd_loop.simps [simp del]

definition asc2bcd :: "bytes \<Rightarrow> bytes \<Rightarrow> u32 \<Rightarrow> (u32 \<times> bytes) option" where
  "asc2bcd bcd asc len = map_option (Pair 0) (asc2bcd_loop bcd 0 asc 0 0 (signed_drop_bit 1 len) 0)"

function bcd2asc_loop :: "bytes \<Rightarrow> nat \<Rightarrow> bytes \<Rightarrow> nat \<Rightarrow> u8 \<Rightarrow> u32 \<Rightarrow> bytes option" where
  "bcd2asc_loop asc ptr bcd bp i len =
     (if unat i < unat len then do {
        b \<leftarrow> mem_load bcd bp;
        d1 \<leftarrow> mem_load bcd2ascii (unat (drop_bit 4 b));
        asc1 \<leftarrow> mem_store asc ptr d1;
        d2 \<leftarrow> mem_load bcd2ascii (unat (b AND 0x0f));
        asc2 \<leftarrow> mem_store asc1 (ptr + 1) d2;
        bcd2asc_loop asc2 (ptr + 2) bcd (bp + 1) (i + 1) len }
      else Some asc)"
  by pat_completeness auto
termination
  by (relation "measure (\<lambda>(asc, ptr, bcd, bp, i, len). length bcd - bp)")
     (auto simp: mem_load_def split: if_splits)

declare bcd2asc_loop.simps [simp del]

definition bcd2asc :: "bytes \<Rightarrow> bytes \<Rightarrow> u32 \<Rightarrow> bytes option" where
  "bcd2asc asc bcd len = bcd2asc_loop asc 0 bcd 0 0 len"

text \<open>Reference: the two digits of a byte, most significant first, and the text of a byte string.\<close>

definition hex_digits :: "u8 \<Rightarrow> bytes" where
  "hex_digits b = [bcd2ascii ! unat (drop_bit 4 b), bcd2ascii ! unat (b AND 0x0f)]"

definition hex_text :: "bytes \<Rightarrow> bytes" where
  "hex_text bs = concat (map hex_digits bs)"

text \<open>Reference for the other direction: the digits that have a value, their values, and the bytes packed
  from pairs of digits.\<close>

definition hex_chars :: bytes where
  "hex_chars = bcd2ascii @ [0x41, 0x42, 0x43, 0x44, 0x45, 0x46]"

definition hex_val :: "u8 \<Rightarrow> u8" where
  "hex_val a = (if a \<le> 0x39 then a - 0x30 else if a \<le> 0x46 then a - 0x37 else a - 0x57)"

fun pack_digits :: "bytes \<Rightarrow> bytes" where
  "pack_digits (a # b # t) = (push_bit 4 (hex_val a) OR hex_val b) # pack_digits t"
| "pack_digits _ = []"

subsection \<open>Digits and nibbles\<close>

lemma nibble_less: "unat (drop_bit 4 (b :: u8)) < 16" "unat ((b :: u8) AND 0x0f) < 16"
proof -
  show "unat (drop_bit 4 b) < 16"
    using unat_lt8 [of b] by (simp add: drop_bit_eq_div unat_div)
  have "(b :: u8) AND 0x0f \<le> 0x0f" by (rule word_and_le1)
  then show "unat (b AND 0x0f) < 16" by (simp add: word_le_nat_alt)
qed

lemma length_bcd2ascii [simp]: "length bcd2ascii = 16"
  by (simp add: bcd2ascii_def)

lemma hex_chars_digits: "list_all (\<lambda>a. asc_digit a = Some (Some (hex_val a))) hex_chars"
  unfolding hex_chars_def bcd2ascii_def append.simps list.pred_inject
  by (intro conjI TrueI)
     (simp_all add: asc_digit_def isupper_def isdigit_def islower_def ctype_range_def hex_val_def
       ascii2bcd1_def ascii2bcd2_def ascii2bcd3_def mem_load_def)

lemma asc_digit_hex: "a \<in> set hex_chars \<Longrightarrow> asc_digit a = Some (Some (hex_val a))"
  using hex_chars_digits by (simp add: list_all_iff)

lemma hex_val_ascii: "list_all (\<lambda>k. hex_val (bcd2ascii ! k) = of_nat k) [0..<16]"
  by (simp add: upt_rec hex_val_def bcd2ascii_def)

lemma hex_val_nth: "k < 16 \<Longrightarrow> hex_val (bcd2ascii ! k) = of_nat k"
  using hex_val_ascii by (simp add: list_all_iff)

lemma ascii_hex_chars: "k < 16 \<Longrightarrow> bcd2ascii ! k \<in> set hex_chars"
  by (simp add: hex_chars_def)

lemma hex_text_simps [simp]: "hex_text [] = []" "hex_text (b # bs) = hex_digits b @ hex_text bs"
  "length (hex_text bs) = 2 * length bs"
  by (induction bs) (simp_all add: hex_text_def hex_digits_def)

lemma set_hex_text: "set (hex_text bs) \<subseteq> set hex_chars"
  by (induction bs) (auto simp: hex_digits_def nibble_less ascii_hex_chars)

lemma pack_hex_text: "pack_digits (hex_text bs) = bs"
proof (induction bs)
  case (Cons b bs)
  have "push_bit 4 (drop_bit 4 b) OR (b AND 0x0f) = b"
    by (rule byte_eqI) (simp_all add: bit_simps)
  with Cons show ?case by (simp add: hex_digits_def hex_val_nth nibble_less)
qed simp

lemma length_pack_digits [simp]: "length (pack_digits t) = length t div 2"
  by (induction t rule: pack_digits.induct) simp_all

subsection \<open>The loops\<close>

lemma count_u8: "unat (i :: u8) + Suc n = m \<Longrightarrow> m \<le> 255 \<Longrightarrow> unat (i + 1) + n = m"
  by (simp add: word_nat)

lemma bcd2asc_loop_writes:
  "bp + n \<le> length bcd \<Longrightarrow> ptr + 2 * n \<le> length asc \<Longrightarrow> unat i + n = unat len \<Longrightarrow> unat len \<le> 255 \<Longrightarrow>
   bcd2asc_loop asc ptr bcd bp i len =
     Some (take ptr asc @ hex_text (take n (drop bp bcd)) @ drop (ptr + 2 * n) asc)"
proof (induction n arbitrary: asc ptr bp i)
  case 0
  then show ?case by (simp add: bcd2asc_loop.simps)
next
  case (Suc n)
  define asc' where "asc' = (asc[ptr := bcd2ascii ! unat (drop_bit 4 (bcd ! bp))])
    [ptr + 1 := bcd2ascii ! unat ((bcd ! bp) AND 0x0f)]"
  have len: "length asc' = length asc" by (simp add: asc'_def)
  have pre: "take (Suc (Suc ptr)) asc' = take ptr asc @ hex_digits (bcd ! bp)"
    "drop (Suc (Suc (ptr + 2 * n))) asc' = drop (ptr + 2 * Suc n) asc"
    using Suc.prems(2) unfolding asc'_def hex_digits_def by (simp_all add: take_update_swap take_Suc_conv_app_nth nth_append
       list_update_append numeral_2_eq_2)
  have "bcd2asc_loop asc ptr bcd bp i len = bcd2asc_loop asc' (ptr + 2) bcd (bp + 1) (i + 1) len"
    using Suc.prems by (subst bcd2asc_loop.simps) (simp add: mem_simps nibble_less asc'_def)
  also have "\<dots> = Some (take (ptr + 2) asc' @ hex_text (take n (drop (bp + 1) bcd)) @ drop (ptr + 2 + 2 * n) asc')"
    by (rule Suc.IH) (use Suc.prems len count_u8 [of i n "unat len"] in simp_all)
  finally show ?case
    using Suc.prems(1) by (simp add: pre take_Suc_conv_app_nth Cons_nth_drop_Suc [symmetric] hex_text_def del: drop_drop)
qed

lemma asc2bcd_loop_packs:
  "ap + 2 * n \<le> length asc \<Longrightarrow> bp + n \<le> length bcd \<Longrightarrow> unat i + n = nat (sint len) \<Longrightarrow> nat (sint len) \<le> 255 \<Longrightarrow>
   set (take (2 * n) (drop ap asc)) \<subseteq> set hex_chars \<Longrightarrow>
   asc2bcd_loop bcd bp asc ap i len c =
     Some (take bp bcd @ pack_digits (take (2 * n) (drop ap asc)) @ drop (bp + n) bcd)"
proof (induction n arbitrary: bcd bp ap i c)
  case 0
  then show ?case by (simp add: asc2bcd_loop.simps)
next
  case (Suc n)
  let ?a = "asc ! ap" let ?b = "asc ! Suc ap"
  have d: "take (2 * Suc n) (drop ap asc) = ?a # ?b # take (2 * n) (drop (ap + 2) asc)"
    using Suc.prems(1) by (simp add: Cons_nth_drop_Suc [symmetric] del: drop_drop)
  then have hex: "asc_digit ?a = Some (Some (hex_val ?a))" "asc_digit ?b = Some (Some (hex_val ?b))"
    using Suc.prems(5) asc_digit_hex by auto
  define v where "v = push_bit 4 (hex_val ?a) OR hex_val ?b"
  have "int (unat i) < sint len" using Suc.prems(3) by linarith
  then have "asc2bcd_loop bcd bp asc ap i len c = asc2bcd_loop (bcd[bp := v]) (bp + 1) asc (ap + 2) (i + 1) len v"
    using Suc.prems(1,2) by (subst asc2bcd_loop.simps) (simp add: mem_simps hex v_def Let_def)
  also have "\<dots> = Some (take (bp + 1) (bcd[bp := v]) @ pack_digits (take (2 * n) (drop (ap + 2) asc)) @ drop (bp + 1 + n) (bcd[bp := v]))"
    by (rule Suc.IH) (use Suc.prems d count_u8 [of i n "nat (sint len)"] in auto)
  finally show ?case
    using Suc.prems(2) unfolding d
    by (simp add: v_def [symmetric] take_Suc_conv_app_nth list_update_append take_update_swap)
qed

text \<open>A bound above 255 is never reached by the counters: the loops run until they leave an array.\<close>

lemma bcd2asc_loop_overrun: "255 < unat len \<Longrightarrow> bcd2asc_loop asc ptr bcd bp i len = None"
proof (induction asc ptr bcd bp i len rule: bcd2asc_loop.induct)
  case (1 asc ptr bcd bp i len)
  then show ?case
    using unat_lt8 [of i] by (subst bcd2asc_loop.simps) (auto split: Option.bind_splits)
qed

lemma asc2bcd_loop_overrun: "255 < sint len \<Longrightarrow> asc2bcd_loop bcd bp asc ap i len c = None"
proof (induction bcd bp asc ap i len c rule: asc2bcd_loop.induct)
  case (1 bcd bp asc ap i len c)
  have "int (unat i) < sint len" using 1(2) unat_lt8 [of i] by linarith
  with 1 show ?case by (subst asc2bcd_loop.simps) (auto simp: Let_def split: Option.bind_splits)
qed

subsection \<open>Properties\<close>

lemma sint_len_small: "unat (len :: u32) < 2 ^ 31 \<Longrightarrow> sint len = int (unat len)"
proof -
  assume "unat len < 2 ^ 31"
  then have "int (unat len) < 2 ^ 31" unfolding of_nat_less_numeral_power_cancel_iff .
  then have "signed_take_bit 31 (uint len) = uint len" by (intro signed_take_bit_int_eq_self) (simp_all add: order_trans [OF _ uint_ge_0])
  then show ?thesis by (simp add: sint_uint)
qed

text \<open>
  Packed BCD survives the way through text: for up to 255 bytes, \<open>bcd2asc\<close> writes the two
  lower-case digits of every byte, leaves the rest of the text buffer alone, and \<open>asc2bcd\<close> of that
  text writes the same bytes back, both without leaving their buffers.
\<close>

theorem bcd_roundtrip:
  assumes "unat len \<le> 255" "unat len \<le> length bcd" "2 * unat len \<le> length asc" "unat len \<le> length out"
  shows "bcd2asc asc bcd len = Some (hex_text (take (unat len) bcd) @ drop (2 * unat len) asc)
    \<and> asc2bcd out (hex_text (take (unat len) bcd) @ drop (2 * unat len) asc) (2 * len)
        = Some (0, take (unat len) bcd @ drop (unat len) out)"
proof
  show "bcd2asc asc bcd len = Some (hex_text (take (unat len) bcd) @ drop (2 * unat len) asc)"
    using bcd2asc_loop_writes [of 0 "unat len" bcd 0 asc 0 len] assms by (simp add: bcd2asc_def)
  let ?t = "hex_text (take (unat len) bcd) @ drop (2 * unat len) asc"
  have tk: "take (2 * unat len) ?t = hex_text (take (unat len) bcd)" using assms(2) by simp
  have "unat (2 * len) = 2 * unat len" using assms(1) by (simp add: unat_word_ariths)
  then have half: "sint (signed_drop_bit 1 (2 * len)) = int (unat len)"
    using assms(1) by (simp add: sint_signed_drop_bit_eq sint_len_small drop_bit_eq_div)
  have "asc2bcd_loop out 0 ?t 0 0 (signed_drop_bit 1 (2 * len)) 0
      = Some (take 0 out @ pack_digits (take (2 * unat len) (drop 0 ?t)) @ drop (0 + unat len) out)"
    by (rule asc2bcd_loop_packs) (use assms half tk set_hex_text in auto)
  then show "asc2bcd out ?t (2 * len) = Some (0, take (unat len) bcd @ drop (unat len) out)"
    unfolding drop_0 tk asc2bcd_def by (simp add: pack_hex_text)
qed

theorem bcd_roundtrip_witness:
  "bcd2asc (replicate 7 0) [0x12, 0xaf, 3] 2 = Some (hex_text (take (unat (2 :: u32)) [0x12, 0xaf, 3]) @ drop (2 * unat (2 :: u32)) (replicate 7 0))
    \<and> asc2bcd [9, 9] (hex_text (take (unat (2 :: u32)) [0x12, 0xaf, 3]) @ drop (2 * unat (2 :: u32)) (replicate 7 0)) (2 * 2)
        = Some (0, take (unat (2 :: u32)) [0x12, 0xaf, 3] @ drop (unat (2 :: u32)) [9, 9])"
  by (rule bcd_roundtrip) simp_all

text \<open>
  The counters are 8 bits wide: with more than 255 bytes neither loop can end, and for every
  choice of buffers, however large, it leaves them.
\<close>

theorem bcd_counter_overrun:
  "(255 < unat len \<longrightarrow> bcd2asc asc bcd len = None) \<and> (511 < sint len' \<longrightarrow> asc2bcd out txt' len' = None)"
  by (auto simp: bcd2asc_def asc2bcd_def bcd2asc_loop_overrun sint_signed_drop_bit_eq drop_bit_eq_div
    intro!: asc2bcd_loop_overrun)

text \<open>A letter past \<open>F\<close> passes \<open>isupper\<close> or \<open>islower\<close> and indexes past the end of the digit table.\<close>

theorem asc2bcd_bad_letter: "asc2bcd [0] [0x47, 0x30] 2 = None"
  by (simp add: asc2bcd_def asc2bcd_loop.simps asc_digit_def isupper_def ctype_range_def mem_load_def
    ascii2bcd2_def sint_signed_drop_bit_eq)

end
