(* ===== verification/Byte_Bitmap.thy ===== *)
theory Byte_Bitmap
  imports Interfaces "HOL-Library.Signed_Division"
begin

text \<open>
  The bitmap of bytes of \<open>bitmap.h\<close>. Sizes and bit numbers are C \<open>int\<close>s, modelled as \<open>int\<close>: \<open>/\<close> and
  \<open>%\<close> are the truncating \<open>sdiv\<close> and \<open>smod\<close>; negative indices, negative shift counts and a result
  beyond \<open>INT_MAX\<close> are undefined in C and give \<open>None\<close>. \<open>bitmap_foreach\<close> is the list of bits that its
  loop visits.
\<close>

subsection \<open>Definitions\<close>

definition bitmap_all_set :: "bytes \<Rightarrow> int \<Rightarrow> bool \<Rightarrow> bytes option" where
  "bitmap_all_set bitmap sz enable =
     (if sz < 0 then None else mem_write bitmap 0 (replicate (nat sz) (if enable then 0xFF else 0)))"

definition bit_shift :: "int \<Rightarrow> u8 option" where
  "bit_shift j = (if j < 0 then None else Some (push_bit (nat j) 1))"

definition bitmap_bit_set :: "bytes \<Rightarrow> int \<Rightarrow> bool \<Rightarrow> bytes option" where
  "bitmap_bit_set bitmap b enable = do {
     m \<leftarrow> bit_shift (b smod 8);
     v \<leftarrow> mem_load_int bitmap (b sdiv 8);
     if enable then mem_store_int bitmap (b sdiv 8) (v OR m)
     else mem_store_int bitmap (b sdiv 8) (v AND NOT m) }"

definition bitmap_bit_get :: "bytes \<Rightarrow> int \<Rightarrow> bool option" where
  "bitmap_bit_get bitmap b = do {
     m \<leftarrow> bit_shift (b smod 8);
     v \<leftarrow> mem_load_int bitmap (b sdiv 8);
     Some (v AND m \<noteq> 0) }"

text \<open>The inner loop gives the bit found, if any, and the final value of \<open>j\<close>.\<close>

function scan_byte :: "u8 \<Rightarrow> int \<Rightarrow> (int option \<times> int) option" where
  "scan_byte v j =
     (if j < 8 then do {
        m \<leftarrow> bit_shift j;
        if v AND m \<noteq> 0 then Some (Some j, j) else scan_byte v (j + 1) }
      else Some (None, j))"
  by pat_completeness auto
termination
  by (relation "measure (\<lambda>(v, j). nat (8 - j))") (auto simp: bit_shift_def)

declare scan_byte.simps [simp del]

function scan_bytes :: "bytes \<Rightarrow> int \<Rightarrow> int \<Rightarrow> int \<Rightarrow> int option" where
  "scan_bytes bitmap sz i j =
     (if i < sz then do {
        v \<leftarrow> mem_load_int bitmap i;
        if v = 0 then scan_bytes bitmap sz (i + 1) j
        else do {
          r \<leftarrow> scan_byte v j;
          case fst r of
            Some k \<Rightarrow> if i * 8 + k < 2 ^ 31 then Some (i * 8 + k) else None
          | None \<Rightarrow> scan_bytes bitmap sz (i + 1) (snd r) } }
      else Some (-1))"
  by pat_completeness auto
termination
  by (relation "measure (\<lambda>(bitmap, sz, i, j). nat (sz - i))") auto

declare scan_bytes.simps [simp del]

definition bitmap_next_enable_bit_get :: "bytes \<Rightarrow> int \<Rightarrow> int \<Rightarrow> int option" where
  "bitmap_next_enable_bit_get bitmap sz start_bit =
     scan_bytes bitmap sz (start_bit sdiv 8) (start_bit smod 8)"

subsection \<open>The search loops\<close>

lemma sdiv_smod_8: "int i sdiv 8 = int (i div 8)" "int i smod 8 = int (i mod 8)"
  by (cases "i = 0"; simp add: signed_divide_int_def signed_modulo_int_def sgn_if zdiv_int zmod_int)+

lemma and_shift: "(v :: u8) AND 2 ^ n = 0 \<longleftrightarrow> \<not> bit v n"
  by (rule and_exp_eq_0_iff_not_bit)

lemma scan_byte_step:
  "scan_byte v (int n) =
     (if n < 8 then if bit v n then Some (Some (int n), int n) else scan_byte v (int (Suc n)) else Some (None, int n))"
  by (subst scan_byte.simps) (simp add: bit_shift_def and_shift push_bit_of_1 add.commute)

lemma scan_byte_result:
  "n \<le> 8 \<Longrightarrow>
   (\<exists>k<8. scan_byte v (int n) = Some (Some (int k), int k) \<and> n \<le> k \<and> bit v k \<and> (\<forall>j. n \<le> j \<and> j < k \<longrightarrow> \<not> bit v j))
   \<or> scan_byte v (int n) = Some (None, 8) \<and> (\<forall>j\<ge>n. \<not> bit v j)"
proof (induction "8 - n" arbitrary: n)
  case 0
  then show ?case using scan_byte_step [of v n] by (simp add: byte_bit_high)
next
  case (Suc d)
  show ?case
  proof (cases "bit v n")
    case True
    then show ?thesis using Suc scan_byte_step [of v n] by auto
  next
    case False
    have "n < 8" using Suc by simp
    then have "scan_byte v (int n) = scan_byte v (int (Suc n))" using False scan_byte_step [of v n] by simp
    moreover have "Suc n \<le> j \<or> \<not> bit v j" if "n \<le> j" for j
      using False that by (cases "n = j") auto
    moreover have "d = 8 - Suc n" "Suc n \<le> 8" using Suc by auto
    ultimately show ?thesis using Suc.hyps(1) [of "Suc n"] by (metis Suc_leD)
  qed
qed

lemma scan_bytes_step:
  "i < sz \<Longrightarrow> sz \<le> length bm \<Longrightarrow> sz < 2 ^ 28 \<Longrightarrow> n \<le> 8 \<Longrightarrow>
   scan_bytes bm (int sz) (int i) (int n) =
     (if bm ! i = 0 then scan_bytes bm (int sz) (int (Suc i)) (int n)
      else case scan_byte (bm ! i) (int n) of Some (Some k, _) \<Rightarrow> Some (int i * 8 + k)
        | Some (None, j) \<Rightarrow> scan_bytes bm (int sz) (int (Suc i)) j)"
  using scan_byte_result [of n "bm ! i"] by (subst scan_bytes.simps) (auto simp: mem_load_int_def mem_simps add.commute)

lemma scan_bytes_end: "sz \<le> i \<Longrightarrow> scan_bytes bm (int sz) (int i) j = Some (-1)"
  by (subst scan_bytes.simps) simp

text \<open>Whatever is found is a set bit in the range searched.\<close>

lemma scan_bytes_sound:
  "sz \<le> length bm \<Longrightarrow> sz < 2 ^ 28 \<Longrightarrow> n \<le> 8 \<Longrightarrow>
   scan_bytes bm (int sz) (int i) (int n) = Some (-1)
   \<or> (\<exists>b. scan_bytes bm (int sz) (int i) (int n) = Some (int b) \<and> arr_bit bm b \<and> i * 8 + n \<le> b \<and> b < 8 * sz)"
proof (induction "sz - i" arbitrary: i n)
  case 0
  then show ?case by (simp add: scan_bytes_end)
next
  case (Suc d)
  from scan_byte_result [OF Suc.prems(3), of "bm ! i"] show ?case
  proof (elim disjE exE conjE)
    fix k assume k: "k < 8" "scan_byte (bm ! i) (int n) = Some (Some (int k), int k)" "n \<le> k" "bit (bm ! i) k"
    moreover from this have "bm ! i \<noteq> 0" by auto
    ultimately have "scan_bytes bm (int sz) (int i) (int n) = Some (int (i * 8 + k))"
      using Suc by (subst scan_bytes_step) auto
    then show ?thesis using k Suc.hyps(2) arr_bit_at [of k bm i] by (intro disjI2 exI [of _ "i * 8 + k"]) auto
  next
    assume none: "scan_byte (bm ! i) (int n) = Some (None, 8)"
    define n' where "n' = (if bm ! i = 0 then n else 8)"
    then have "scan_bytes bm (int sz) (int i) (int n) = scan_bytes bm (int sz) (int (Suc i)) (int n')"
      using Suc none by (subst scan_bytes_step) auto
    moreover have "d = sz - Suc i" "n' \<le> 8" "n \<le> n' " using Suc n'_def by auto
    ultimately show ?thesis using Suc.hyps(1) [of "Suc i" n'] Suc.prems by auto
  qed
qed

text \<open>Searching from the first bit of a byte misses nothing.\<close>

lemma scan_bytes_complete:
  "sz \<le> length bm \<Longrightarrow> sz < 2 ^ 28 \<Longrightarrow>
   (\<exists>b. scan_bytes bm (int sz) (int i) 0 = Some (int b) \<and> b < 8 * sz \<and> 8 * i \<le> b \<and> arr_bit bm b
      \<and> (\<forall>c. 8 * i \<le> c \<and> c < b \<longrightarrow> \<not> arr_bit bm c))
   \<or> scan_bytes bm (int sz) (int i) 0 = Some (-1) \<and> (\<forall>c. 8 * i \<le> c \<and> c < 8 * sz \<longrightarrow> \<not> arr_bit bm c)"
proof (induction "sz - i" arbitrary: i)
  case 0
  then show ?case using scan_bytes_end [of sz i bm 0] by auto
next
  case (Suc d)
  have step: "scan_bytes bm (int sz) (int i) 0 =
     (if bm ! i = 0 then scan_bytes bm (int sz) (int (Suc i)) 0
      else case scan_byte (bm ! i) 0 of Some (Some k, _) \<Rightarrow> Some (int i * 8 + k)
        | Some (None, j) \<Rightarrow> scan_bytes bm (int sz) (int (Suc i)) j)"
    using scan_bytes_step [of i sz bm 0] Suc by simp
  have at: "arr_bit bm c = bit (bm ! i) (c - 8 * i)" if "8 * i \<le> c" "c < 8 * i + 8" for c
    using arr_bit_at [of "c - 8 * i" bm i] that by (simp add: mult.commute)
  from scan_byte_result [of 0 "bm ! i", simplified] show ?case
  proof (elim disjE exE conjE)
    fix k assume k: "k < 8" "scan_byte (bm ! i) 0 = Some (Some (int k), int k)" "bit (bm ! i) k"
      "\<forall>j<k. \<not> bit (bm ! i) j"
    then have "bm ! i \<noteq> 0" by auto
    then have "scan_bytes bm (int sz) (int i) 0 = Some (int (i * 8 + k))" using step k(2) by simp
    moreover have "\<not> arr_bit bm c" if "8 * i \<le> c" "c < i * 8 + k" for c
      using at [of c] that k(1,4) by auto
    moreover have "arr_bit bm (i * 8 + k)" using at [of "i * 8 + k"] k by simp
    ultimately show ?thesis using k(1) Suc.hyps(2) by (intro disjI1 exI [of _ "i * 8 + k"]) auto
  next
    assume none: "\<forall>j. \<not> bit (bm ! i) j"
    then have z: "bm ! i = 0" by (auto intro: bit_eqI)
    have skip: "\<not> arr_bit bm c" if "8 * i \<le> c" "c < 8 * Suc i" for c using at [of c] that none by simp
    have "d = sz - Suc i" using Suc by simp
    from Suc.hyps(1) [OF this Suc.prems] show ?thesis
    proof (elim disjE exE conjE)
      fix b assume b: "scan_bytes bm (int sz) (int (Suc i)) 0 = Some (int b)" "b < 8 * sz" "8 * Suc i \<le> b" "arr_bit bm b"
        "\<forall>c. 8 * Suc i \<le> c \<and> c < b \<longrightarrow> \<not> arr_bit bm c"
      moreover have "\<not> arr_bit bm c" if "8 * i \<le> c" "c < b" for c
        using b(5) skip [of c] that by (cases "8 * Suc i \<le> c") auto
      ultimately show ?thesis using step z by (intro disjI1 exI [of _ b]) auto
    next
      assume b: "scan_bytes bm (int sz) (int (Suc i)) 0 = Some (-1)" "\<forall>c. 8 * Suc i \<le> c \<and> c < 8 * sz \<longrightarrow> \<not> arr_bit bm c"
      moreover have "\<not> arr_bit bm c" if "8 * i \<le> c" "c < 8 * sz" for c
        using b(2) skip [of c] that by (cases "8 * Suc i \<le> c") auto
      ultimately show ?thesis using step z by auto
    qed
  qed
qed

subsection \<open>The bitmap as a set\<close>

interpretation byte_bitset: bitset "\<lambda>bm. 8 * length bm" arr_elems "\<lambda>i bm. bitmap_bit_get bm (int i)"
  "\<lambda>i bm. bitmap_bit_set bm (int i) True" "\<lambda>i bm. bitmap_bit_set bm (int i) False"
proof
  fix i :: nat and m :: bytes
  show "arr_elems m \<subseteq> {..<8 * length m}" by (auto simp: arr_elems_def)
  assume i: "i < 8 * length m"
  then have d: "i div 8 < length m" by (simp add: less_mult_imp_div_less mult.commute)
  note sd = sdiv_smod_8 [of i]
  show "bitmap_bit_get m (int i) = Some (i \<in> arr_elems m)"
    using d i by (simp add: bitmap_bit_get_def bit_shift_def mem_load_int_def mem_simps sd arr_elems_def arr_bit_def
      push_bit_of_1 and_shift)
  show "\<exists>m'. bitmap_bit_set m (int i) True = Some m' \<and> arr_elems m' = insert i (arr_elems m) \<and> 8 * length m' = 8 * length m"
    using d i arr_bit_set(1) [of i m] by (auto simp: bitmap_bit_set_def bit_shift_def mem_load_int_def mem_store_int_def
      mem_simps sd arr_elems_def)
  show "\<exists>m'. bitmap_bit_set m (int i) False = Some m' \<and> arr_elems m' = arr_elems m - {i} \<and> 8 * length m' = 8 * length m"
    using d i arr_bit_set(2) [of i m] by (auto simp: bitmap_bit_set_def bit_shift_def mem_load_int_def mem_store_int_def
      mem_simps sd arr_elems_def)
qed

lemma all_set_elems:
  assumes "8 * sz \<le> 8 * length bm"
  shows "\<exists>bm'. bitmap_all_set bm (int sz) enable = Some bm' \<and> length bm' = length bm
    \<and> arr_elems bm' = (if enable then arr_elems bm \<union> {..<8 * sz} else arr_elems bm - {..<8 * sz})"
proof -
  let ?v = "if enable then 0xFF else 0 :: u8"
  let ?r = "replicate sz ?v @ drop sz bm"
  have "arr_bit ?r c = (if c < 8 * sz then enable else arr_bit bm c)" for c
  proof (cases "c < 8 * sz")
    case True
    then have "c div 8 < sz" by (simp add: less_mult_imp_div_less mult.commute)
    moreover have "bit (0xFF :: u8) (c mod 8)"
      using mask_eq_exp_minus_1 [of 8, where 'a = u8] bit_mask_iff [of 8 "c mod 8", where 'a = u8] by simp
    ultimately show ?thesis using True by (simp add: arr_bit_def nth_append)
  next
    case False
    then have "\<not> c div 8 < sz" by linarith
    then show ?thesis using False assms by (simp add: arr_bit_def nth_append)
  qed
  then show ?thesis
    using assms by (auto simp: bitmap_all_set_def mem_simps arr_elems_def)
qed

subsection \<open>Iteration\<close>

lemma scan_byte_bounds:
  "scan_byte v j = Some (r, j') \<Longrightarrow> j \<le> 8 \<Longrightarrow> j \<le> j' \<and> j' \<le> 8 \<and> (\<forall>k. r = Some k \<longrightarrow> j \<le> k \<and> k < 8)"
proof (induction v j rule: scan_byte.induct)
  case (1 v j)
  show ?case
  proof (cases "j < 8")
    case True
    then obtain m where m: "bit_shift j = Some m" using 1(2) by (subst (asm) scan_byte.simps) (auto split: Option.bind_splits)
    with 1 True show ?thesis by (subst (asm) (2) scan_byte.simps) (auto split: if_splits)
  qed (use 1(2,3) in \<open>auto simp: scan_byte.simps\<close>)
qed

lemma scan_bytes_bounds:
  "scan_bytes bm sz i j = Some c \<Longrightarrow> 0 \<le> c \<Longrightarrow> j \<le> 8 \<Longrightarrow> i * 8 + j \<le> c \<and> c < 8 * sz"
proof (induction bm sz i j rule: scan_bytes.induct)
  case (1 bm sz i j)
  have i: "i < sz" using 1(3,4) by (subst (asm) scan_bytes.simps) (auto split: if_splits)
  obtain v where v: "mem_load_int bm i = Some v"
    using 1(3) i by (subst (asm) scan_bytes.simps) (auto split: Option.bind_splits)
  show ?case
  proof (cases "v = 0")
    case True
    then show ?thesis using 1(1) [OF i v] 1(3-5) i v by (subst (asm) (2) scan_bytes.simps) auto
  next
    case False
    then obtain r j' where r: "scan_byte v j = Some (r, j')"
      using 1(3) i v by (subst (asm) scan_bytes.simps) (auto split: Option.bind_splits)
    then have "(case r of Some k \<Rightarrow> if i * 8 + k < 2 ^ 31 then Some (i * 8 + k) else None
        | None \<Rightarrow> scan_bytes bm sz (i + 1) j') = Some c"
      using 1(3) i v False by (subst (asm) scan_bytes.simps) (cases r; simp)
    then show ?thesis
      using scan_byte_bounds [OF r 1(5)] i 1(2) [OF i v False r] 1(4) by (auto split: option.splits if_splits)
  qed
qed

lemma next_bounds:
  assumes "bitmap_next_enable_bit_get bm sz b = Some c" "0 \<le> c"
  shows "b \<le> c \<and> c < 8 * sz"
  using scan_bytes_bounds [OF assms(1) [unfolded bitmap_next_enable_bit_get_def] assms(2)]
    smod_int_range [of 8 b] sdiv_mult_smod_eq [of b 8] by simp

text \<open>The bits that \<open>bitmap_foreach\<close> visits, starting at \<open>b\<close>.\<close>

function foreach_from :: "bytes \<Rightarrow> int \<Rightarrow> int \<Rightarrow> int list option" where
  "foreach_from bitmap sz b = do {
     c \<leftarrow> bitmap_next_enable_bit_get bitmap sz b;
     if 0 \<le> c then map_option (Cons c) (foreach_from bitmap sz (c + 1)) else Some [] }"
  by pat_completeness auto
termination
  by (relation "measure (\<lambda>(bitmap, sz, b). nat (8 * sz - b))") (use next_bounds in fastforce)+

declare foreach_from.simps [simp del]

definition bitmap_foreach :: "bytes \<Rightarrow> int \<Rightarrow> int list option" where
  "bitmap_foreach bitmap sz = foreach_from bitmap sz 0"

subsection \<open>Properties\<close>

text \<open>
  \<open>bitmap_next_enable_bit_get\<close> never leaves the bitmap, and what it returns is \<open>-1\<close> or a set bit
  of the bitmap at or after the start. When the start is the first bit of a byte, it returns the
  least such bit, and \<open>-1\<close> only when there is none.
\<close>

theorem bitmap_next_correct:
  assumes "sz \<le> length bm" "sz < 2 ^ 28"
  shows "(bitmap_next_enable_bit_get bm (int sz) (int start) = Some (-1)
     \<or> (\<exists>b \<in> arr_elems bm. bitmap_next_enable_bit_get bm (int sz) (int start) = Some (int b) \<and> start \<le> b \<and> b < 8 * sz))
   \<and> bitmap_next_enable_bit_get bm (int sz) (int (8 * i)) =
       Some (if {b \<in> arr_elems bm. 8 * i \<le> b \<and> b < 8 * sz} = {} then -1
             else int (Min {b \<in> arr_elems bm. 8 * i \<le> b \<and> b < 8 * sz}))"
proof
  have "start mod 8 \<le> 8" by (simp add: less_imp_le)
  from scan_bytes_sound [OF assms this, of "start div 8"] show
    "bitmap_next_enable_bit_get bm (int sz) (int start) = Some (-1)
     \<or> (\<exists>b \<in> arr_elems bm. bitmap_next_enable_bit_get bm (int sz) (int start) = Some (int b) \<and> start \<le> b \<and> b < 8 * sz)"
    using assms by (auto simp: bitmap_next_enable_bit_get_def sdiv_smod_8 arr_elems_def)
  let ?S = "{b \<in> arr_elems bm. 8 * i \<le> b \<and> b < 8 * sz}"
  have nx: "bitmap_next_enable_bit_get bm (int sz) (int (8 * i)) = scan_bytes bm (int sz) (int i) 0"
    unfolding bitmap_next_enable_bit_get_def sdiv_smod_8 by simp
  from scan_bytes_complete [OF assms, of i] show
    "bitmap_next_enable_bit_get bm (int sz) (int (8 * i)) = Some (if ?S = {} then -1 else int (Min ?S))"
    unfolding nx
  proof (elim disjE exE conjE)
    fix b assume b: "scan_bytes bm (int sz) (int i) 0 = Some (int b)" "b < 8 * sz" "8 * i \<le> b" "arr_bit bm b"
      "\<forall>c. 8 * i \<le> c \<and> c < b \<longrightarrow> \<not> arr_bit bm c"
    then have "b \<in> ?S" using assms(1) by (simp add: arr_elems_def)
    moreover from this have "Min ?S = b"
      using b(5) by (intro Min_eqI) (auto simp: arr_elems_def le_less_linear intro: leI)
    ultimately show "scan_bytes bm (int sz) (int i) 0 = Some (if ?S = {} then -1 else int (Min ?S))" using b(1) by auto
  qed (auto simp: arr_elems_def)
qed

theorem bitmap_next_correct_witness:
  "(bitmap_next_enable_bit_get [0, 4] (int 2) (int 3) = Some (-1)
     \<or> (\<exists>b \<in> arr_elems [0, 4 :: u8]. bitmap_next_enable_bit_get [0, 4] (int 2) (int 3) = Some (int b) \<and> 3 \<le> b \<and> b < 8 * 2))
   \<and> bitmap_next_enable_bit_get [0, 4] (int 2) (int (8 * 1)) =
       Some (if {b \<in> arr_elems [0, 4 :: u8]. 8 * 1 \<le> b \<and> b < 8 * 2} = {} then -1
             else int (Min {b \<in> arr_elems [0, 4 :: u8]. 8 * 1 \<le> b \<and> b < 8 * 2}))"
  by (rule bitmap_next_correct) simp_all

text \<open>
  The inner counter is not reset for the next byte, so a search that starts inside a byte skips
  bits: \<open>bitmap_foreach\<close> over two bytes with their first bits set visits the first bit only.
\<close>

theorem bitmap_foreach_misses_bits: "bitmap_foreach [1, 1] 2 = Some [0] \<and> arr_bit [1, 1 :: u8] 8"
proof
  have "bitmap_next_enable_bit_get [1, 1] 2 0 = Some 0" "bitmap_next_enable_bit_get [1, 1] 2 1 = Some (-1)"
    by (simp_all add: bitmap_next_enable_bit_get_def signed_divide_int_def signed_modulo_int_def scan_bytes.simps
      mem_load_int_def mem_load_def scan_byte.simps bit_shift_def)
  then show "bitmap_foreach [1, 1] 2 = Some [0]"
    by (simp add: bitmap_foreach_def foreach_from.simps)
  show "arr_bit [1, 1 :: u8] 8" by (simp add: arr_bit_def)
qed

end
