(* ===== verification/Bitops_Word.thy ===== *)
theory Bitops_Word
  imports Prelude
begin

text \<open>
  The operations of \<open>linux_bitops.h\<close> on single words: masks, first set bit, population counts and
  rotations, for an LP64 target (\<open>unsigned long\<close> and \<open>size_t\<close> have 64 bits).

  A \<open>size_t\<close> is a \<open>nat\<close> below \<open>2 ^ 64\<close>; sums and differences that can wrap are \<open>sz_add\<close> and \<open>sz_sub\<close>.
  Shifting by the width of the promoted operand or more is undefined in C and gives \<open>None\<close>, as does
  a left shift of a promoted \<open>int\<close> that overflows. \<open>bitops_ffs\<close> and \<open>hweight_long\<close> have two
  implementations in the source; the portable one is modelled and proved equal to what the
  compiler's builtin is documented to return.
\<close>

subsection \<open>Definitions\<close>

type_synonym size_t = nat

definition sz_add :: "size_t \<Rightarrow> size_t \<Rightarrow> size_t" where
  "sz_add a b = (a + b) mod 2 ^ 64"

definition sz_sub :: "size_t \<Rightarrow> size_t \<Rightarrow> size_t" where
  "sz_sub a b = nat ((int a - int b) mod 2 ^ 64)"

definition word_shl :: "'a::len word \<Rightarrow> size_t \<Rightarrow> 'a word option" where
  "word_shl x n = (if n < LENGTH('a) then Some (push_bit n x) else None)"

definition word_shr :: "'a::len word \<Rightarrow> size_t \<Rightarrow> 'a word option" where
  "word_shr x n = (if n < LENGTH('a) then Some (drop_bit n x) else None)"

definition int_shl :: "int \<Rightarrow> size_t \<Rightarrow> int option" where
  "int_shl x n = (if n < 32 \<and> x * 2 ^ n < 2 ^ 31 then Some (push_bit n x) else None)"

definition int_shr :: "int \<Rightarrow> size_t \<Rightarrow> int option" where
  "int_shr x n = (if n < 32 then Some (drop_bit n x) else None)"

text \<open>Macros.\<close>

definition BITOPS_DIV_CEIL :: "size_t \<Rightarrow> size_t \<Rightarrow> size_t" where
  "BITOPS_DIV_CEIL numerator denominator = sz_sub (sz_add numerator denominator) 1 div denominator"

definition BITS_PER_LONG :: size_t where
  "BITS_PER_LONG = 64"

definition BIT_long :: "size_t \<Rightarrow> u64 option" where
  "BIT_long x = word_shl 1 x"

definition BITS_TO_LONGS :: "size_t \<Rightarrow> size_t" where
  "BITS_TO_LONGS bits = BITOPS_DIV_CEIL bits BITS_PER_LONG"

definition GENMASK :: "size_t \<Rightarrow> size_t \<Rightarrow> u64 option" where
  "GENMASK h l = do { a \<leftarrow> word_shl 1 (sz_add (sz_sub h l) 1); word_shl (a - 1) l }"

definition BITMAP_FIRST_WORD_MASK :: "size_t \<Rightarrow> u64" where
  "BITMAP_FIRST_WORD_MASK start = push_bit (start mod BITS_PER_LONG) (NOT 0)"

definition BITMAP_LAST_WORD_MASK :: "size_t \<Rightarrow> u64" where
  "BITMAP_LAST_WORD_MASK bits = drop_bit (sz_sub 0 bits mod BITS_PER_LONG) (NOT 0)"

text \<open>First set bit, by halving.\<close>

function ffs_loop :: "u64 \<Rightarrow> u64 \<Rightarrow> size_t \<Rightarrow> size_t \<Rightarrow> size_t" where
  "ffs_loop t x shift i =
     (if shift \<noteq> 0 then
        (let (i, x) = (if t AND x = 0 then (i + shift, drop_bit shift x) else (i, x));
             shift = shift div 2;
             t = drop_bit shift t
         in ffs_loop t x shift i)
      else i)"
  by pat_completeness auto
termination
  by (relation "measure (\<lambda>(t, x, shift, i). shift)") auto

declare ffs_loop.simps [simp del]

definition bitops_ffs :: "u64 \<Rightarrow> size_t" where
  "bitops_ffs x = (if x = 0 then 0 else ffs_loop (drop_bit 32 (NOT 0)) x 32 1)"

definition bitops_ffz :: "u64 \<Rightarrow> size_t" where
  "bitops_ffz x = bitops_ffs (NOT x)"

text \<open>Population counts.\<close>

definition hweight8 :: "u8 \<Rightarrow> u32" where
  "hweight8 x =
     (let x = x - (drop_bit 1 x AND 0x55);
          x = (x AND 0x33) + (drop_bit 2 x AND 0x33);
          x = x + drop_bit 4 x
      in ucast (x AND 0x0f))"

definition hweight16 :: "u16 \<Rightarrow> u32" where
  "hweight16 x =
     (let x = x - (drop_bit 1 x AND 0x5555);
          x = (x AND 0x3333) + (drop_bit 2 x AND 0x3333);
          x = (x + drop_bit 4 x) AND 0x0f0f;
          x = x + drop_bit 8 x
      in ucast (x AND 0x1f))"

definition hweight32 :: "u32 \<Rightarrow> u32" where
  "hweight32 x =
     (let x = x - (drop_bit 1 x AND 0x55555555);
          x = (x AND 0x33333333) + (drop_bit 2 x AND 0x33333333);
          x = (x + drop_bit 4 x) AND 0x0f0f0f0f;
          x = x + drop_bit 8 x;
          x = x + drop_bit 16 x
      in x AND 0x3f)"

definition hweight64 :: "u64 \<Rightarrow> u32" where
  "hweight64 x =
     (let x = x - (drop_bit 1 x AND 0x5555555555555555);
          x = (x AND 0x3333333333333333) + (drop_bit 2 x AND 0x3333333333333333);
          x = (x + drop_bit 4 x) AND 0x0f0f0f0f0f0f0f0f;
          x = x + drop_bit 8 x;
          x = x + drop_bit 16 x;
          x = x + drop_bit 32 x
      in ucast (x AND 0x7f))"

definition hweight_long :: "u64 \<Rightarrow> u32" where
  "hweight_long x = hweight64 x"

text \<open>Rotations; bytes and half words are promoted to \<open>int\<close>.\<close>

definition bitops_rol8 :: "u8 \<Rightarrow> size_t \<Rightarrow> u8 option" where
  "bitops_rol8 x n = do { a \<leftarrow> int_shl (uint x) n; b \<leftarrow> int_shr (uint x) (sz_sub 8 n); Some (word_of_int (a OR b)) }"

definition bitops_rol16 :: "u16 \<Rightarrow> size_t \<Rightarrow> u16 option" where
  "bitops_rol16 x n = do { a \<leftarrow> int_shl (uint x) n; b \<leftarrow> int_shr (uint x) (sz_sub 16 n); Some (word_of_int (a OR b)) }"

definition bitops_rol32 :: "u32 \<Rightarrow> size_t \<Rightarrow> u32 option" where
  "bitops_rol32 x n = do { a \<leftarrow> word_shl x n; b \<leftarrow> word_shr x (sz_sub 32 n); Some (a OR b) }"

definition bitops_rol64 :: "u64 \<Rightarrow> size_t \<Rightarrow> u64 option" where
  "bitops_rol64 x n = do { a \<leftarrow> word_shl x n; b \<leftarrow> word_shr x (sz_sub 64 n); Some (a OR b) }"

definition bitops_rol_long :: "u64 \<Rightarrow> size_t \<Rightarrow> u64 option" where
  "bitops_rol_long x n = do { a \<leftarrow> word_shl x n; b \<leftarrow> word_shr x (sz_sub 64 n); Some (a OR b) }"

definition bitops_ror8 :: "u8 \<Rightarrow> size_t \<Rightarrow> u8 option" where
  "bitops_ror8 x n = do { a \<leftarrow> int_shr (uint x) n; b \<leftarrow> int_shl (uint x) (sz_sub 8 n); Some (word_of_int (a OR b)) }"

definition bitops_ror16 :: "u16 \<Rightarrow> size_t \<Rightarrow> u16 option" where
  "bitops_ror16 x n = do { a \<leftarrow> int_shr (uint x) n; b \<leftarrow> int_shl (uint x) (sz_sub 16 n); Some (word_of_int (a OR b)) }"

definition bitops_ror32 :: "u32 \<Rightarrow> size_t \<Rightarrow> u32 option" where
  "bitops_ror32 x n = do { a \<leftarrow> word_shr x n; b \<leftarrow> word_shl x (sz_sub 32 n); Some (a OR b) }"

definition bitops_ror64 :: "u64 \<Rightarrow> size_t \<Rightarrow> u64 option" where
  "bitops_ror64 x n = do { a \<leftarrow> word_shr x n; b \<leftarrow> word_shl x (sz_sub 64 n); Some (a OR b) }"

definition bitops_ror_long :: "u64 \<Rightarrow> size_t \<Rightarrow> u64 option" where
  "bitops_ror_long x n = do { a \<leftarrow> word_shr x n; b \<leftarrow> word_shl x (sz_sub 64 n); Some (a OR b) }"

text \<open>References: what \<open>__builtin_ffsl\<close> and \<open>__builtin_popcountl\<close> are documented to return.\<close>

definition builtin_ffsl :: "u64 \<Rightarrow> nat" where
  "builtin_ffsl x = (case find (bit x) [0..<64] of None \<Rightarrow> 0 | Some p \<Rightarrow> Suc p)"

definition pop_count :: "'a::len word \<Rightarrow> nat" where
  "pop_count x = length (filter (bit x) [0..<LENGTH('a)])"

subsection \<open>Sizes\<close>

lemma sz_add_small [simp]: "a + b < 2 ^ 64 \<Longrightarrow> sz_add a b = a + b"
  by (simp add: sz_add_def)

lemma sz_sub_small [simp]: "b \<le> a \<Longrightarrow> a < 2 ^ 64 \<Longrightarrow> sz_sub a b = a - b"
  by (simp add: sz_sub_def of_nat_diff nat_mod_distrib flip: of_nat_diff)

lemma sz_sub_wrap: "a < b \<Longrightarrow> b \<le> 2 ^ 64 \<Longrightarrow> sz_sub a b = 2 ^ 64 + a - b"
proof -
  assume "a < b" "b \<le> 2 ^ 64"
  then have "(int a - int b) mod 2 ^ 64 = int (2 ^ 64 + a - b)"
    using mod_add_self1 [of "2 ^ 64" "int a - int b"] mod_pos_pos_trivial [of "2 ^ 64 + int a - int b" "2 ^ 64"]
    by (simp add: of_nat_diff algebra_simps)
  then show ?thesis by (simp add: sz_sub_def)
qed

lemma BITS_TO_LONGS_small: "bits < 2 ^ 64 - 64 \<Longrightarrow> BITS_TO_LONGS bits = (bits + 63) div 64"
  by (simp add: BITS_TO_LONGS_def BITOPS_DIV_CEIL_def BITS_PER_LONG_def)

lemma neg_mod:
  assumes "0 < b" "b \<le> 64 * k" shows "(64 * k - b) mod 64 = 63 - (b - 1) mod (64 :: nat)"
proof -
  define q s where "q = (b - 1) div 64" and "s = (b - 1) mod 64"
  then have b: "b = 64 * q + s + 1" "s < 64" using assms(1) by simp_all
  then have "q < k" using assms(2) by linarith
  then obtain d where "k = q + 1 + d" using less_iff_Suc_add by auto
  then have "64 * k - b = 63 - s + 64 * d" using b by simp
  then have "(64 * k - b) mod 64 = (63 - s) mod 64" by (metis mod_mult_self2)
  then show ?thesis by (simp add: s_def)
qed

lemma neg_bits_mod: "0 < bits \<Longrightarrow> bits < 2 ^ 64 \<Longrightarrow> sz_sub 0 bits mod 64 = 63 - (bits - 1) mod 64"
  using neg_mod [of bits "2 ^ 58"] sz_sub_wrap [of 0 bits] by simp

subsection \<open>Masks\<close>

lemma bit_not0: "bit (NOT 0 :: u64) j \<longleftrightarrow> j < 64"
  by (simp add: bit_minus_1_iff)

lemma bit_FIRST: "bit (BITMAP_FIRST_WORD_MASK start) j \<longleftrightarrow> start mod 64 \<le> j \<and> j < 64"
  unfolding BITMAP_FIRST_WORD_MASK_def BITS_PER_LONG_def bit_push_bit_iff bit_not0 by auto

lemma bit_LAST: "0 < bits \<Longrightarrow> bits < 2 ^ 64 \<Longrightarrow> bit (BITMAP_LAST_WORD_MASK bits) j \<longleftrightarrow> j \<le> (bits - 1) mod 64"
  unfolding BITMAP_LAST_WORD_MASK_def BITS_PER_LONG_def bit_drop_bit_eq comp_def bit_not0
  by (simp add: neg_bits_mod) linarith

text \<open>In terms of bit numbers of a bitmap: the masks select the bits from \<open>start\<close> on in its word and the
  bits below \<open>bits\<close> in the last word.\<close>

lemma mod_le_in_word: "(c :: nat) div w = d div w \<Longrightarrow> c mod w \<le> d mod w \<longleftrightarrow> c \<le> d"
  by (metis add_le_cancel_left mult_div_mod_eq)

lemma bit_LAST_word:
  "0 < bits \<Longrightarrow> bits < 2 ^ 64 \<Longrightarrow> c div 64 = (bits - 1) div 64 \<Longrightarrow> bit (BITMAP_LAST_WORD_MASK bits) (c mod 64) \<longleftrightarrow> c < bits"
  using mod_le_in_word [of c 64 "bits - 1"] by (simp add: bit_LAST) linarith

lemma bit_FIRST_word: "c div 64 = start div 64 \<Longrightarrow> bit (BITMAP_FIRST_WORD_MASK start) (c mod 64) \<longleftrightarrow> start \<le> c"
  using mod_le_in_word [of start 64 c] by (simp add: bit_FIRST)

subsection \<open>First set bit\<close>

lemma ffs_loop_0 [simp]: "ffs_loop t x 0 i = i"
  by (simp add: ffs_loop.simps)

lemma and_mask_0: "mask n AND (x :: u64) = 0 \<longleftrightarrow> (\<forall>j<n. \<not> bit x j)"
  using bit_imp_le_length [of x] by (fastforce simp: bit_eq_iff bit_simps)

lemma ffs_loop_lsb:
  "k \<le> 5 \<Longrightarrow> bit x p \<Longrightarrow> \<forall>j<p. \<not> bit x j \<Longrightarrow> p < 2 * 2 ^ k \<Longrightarrow> ffs_loop (mask (2 ^ k)) x (2 ^ k) i = i + p"
proof (induction k arbitrary: x p i)
  case 0
  then have "p = 0 \<or> p = 1" by auto
  with 0 show ?case
    using ffs_loop.simps [of "mask 1" x 1 i] and_mask_0 [of 1 x] by auto
next
  case (Suc k)
  have t: "drop_bit (2 ^ k) (mask (2 ^ Suc k)) = (mask (2 ^ k) :: u64)"
  proof (rule bit_eqI)
    have "(2 :: nat) ^ k \<le> 2 ^ 4" using Suc.prems(1) by (intro power_increasing) simp_all
    then show "bit (drop_bit (2 ^ k) (mask (2 ^ Suc k)) :: u64) j = bit (mask (2 ^ k) :: u64) j" for j
      by (auto simp: bit_simps)
  qed
  show ?case
  proof (cases "p < 2 ^ Suc k")
    case True
    then have "mask (2 ^ Suc k) AND x \<noteq> 0" using Suc.prems(2) and_mask_0 by blast
    then have "ffs_loop (mask (2 ^ Suc k)) x (2 ^ Suc k) i = ffs_loop (mask (2 ^ k)) x (2 ^ k) i"
      using t by (subst ffs_loop.simps) (simp add: Let_def)
    with Suc True show ?thesis by simp
  next
    case False
    then have "mask (2 ^ Suc k) AND x = 0" using Suc.prems(3) and_mask_0 by simp
    then have "ffs_loop (mask (2 ^ Suc k)) x (2 ^ Suc k) i = ffs_loop (mask (2 ^ k)) (drop_bit (2 ^ Suc k) x) (2 ^ k) (i + 2 ^ Suc k)"
      using t by (subst ffs_loop.simps) (simp add: Let_def)
    also have "\<dots> = i + 2 ^ Suc k + (p - 2 ^ Suc k)"
      using Suc.prems False by (intro Suc.IH) (auto simp: bit_simps)
    finally show ?thesis using False by simp
  qed
qed

lemma bitops_ffs_lsb: "bit x p \<Longrightarrow> \<forall>j<p. \<not> bit x j \<Longrightarrow> bitops_ffs x = Suc p"
proof -
  assume p: "bit x p" "\<forall>j<p. \<not> bit x j"
  then have "p < 64" using bit_imp_le_length by fastforce
  moreover have "drop_bit 32 (NOT 0) = (mask 32 :: u64)" by (simp add: mask_eq_exp_minus_1)
  moreover have "x \<noteq> 0" using p(1) by auto
  ultimately show ?thesis
    using ffs_loop_lsb [of 5 x p 1] p by (simp add: bitops_ffs_def)
qed

lemma word_lsb:
  assumes "(x :: u64) \<noteq> 0" shows "\<exists>p<64. bit x p \<and> (\<forall>j<p. \<not> bit x j)"
proof -
  define p where "p = (LEAST n. bit x n)"
  obtain n where "bit x n" using assms by (auto simp: bit_eq_iff)
  then have "bit x p" unfolding p_def by (rule LeastI)
  moreover have "\<forall>j<p. \<not> bit x j" unfolding p_def by (auto dest: not_less_Least)
  moreover have "p < 64" using bit_imp_le_length [OF \<open>bit x p\<close>] by simp
  ultimately show ?thesis by blast
qed

lemma find_upt_least: "P p \<Longrightarrow> \<forall>j<p. \<not> P j \<Longrightarrow> p < n \<Longrightarrow> find P [0..<n] = Some p"
  by (auto simp: find_Some_iff intro!: exI [of _ p])

lemma find_upt_none: "\<forall>j<n. \<not> P j \<Longrightarrow> find P [0..<n] = None"
  by (auto simp: find_None_iff)

lemma bitops_ffs_builtin: "bitops_ffs x = builtin_ffsl x"
proof (cases "x = 0")
  case True
  then show ?thesis by (simp add: bitops_ffs_def builtin_ffsl_def find_upt_none)
next
  case False
  then obtain p where "p < 64" "bit x p" "\<forall>j<p. \<not> bit x j" using word_lsb by blast
  then show ?thesis by (simp add: bitops_ffs_lsb builtin_ffsl_def find_upt_least)
qed

subsection \<open>Population counts: lanes\<close>

text \<open>
  The counts work on all groups of bits of the word at once. A word is a number with digits of \<open>w\<close>
  bits (\<open>lanes w\<close>); the masked steps act on each digit alone, and the sums add digits that are too
  small for a carry between them.
\<close>

fun lanes :: "nat \<Rightarrow> nat list \<Rightarrow> nat" where
  "lanes w [] = 0"
| "lanes w (p # ps) = p + 2 ^ w * lanes w ps"

fun digits :: "nat \<Rightarrow> nat \<Rightarrow> nat list" where
  "digits 0 u = []"
| "digits (Suc n) u = (u mod 16) # digits n (u div 16)"

lemma length_digits [simp]: "length (digits n u) = n"
  by (induction n arbitrary: u) simp_all

lemma digits_less: "list_all (\<lambda>p. p < 16) (digits n u)"
  by (induction n arbitrary: u) simp_all

lemma lanes_digits: "u < 16 ^ n \<Longrightarrow> lanes 4 (digits n u) = u"
  by (induction n arbitrary: u) (simp_all add: less_mult_imp_div_less mult.commute)

lemma lanes_bound: "list_all (\<lambda>p. p < 2 ^ w) ps \<Longrightarrow> lanes w ps < 2 ^ (w * length ps)"
proof (induction ps)
  case (Cons p ps)
  then have "lanes w ps + 1 \<le> 2 ^ (w * length ps)" "p < 2 ^ w" by simp_all
  then have "p + 2 ^ w * lanes w ps < 2 ^ w * (lanes w ps + 1)" by simp
  also have "\<dots> \<le> 2 ^ w * 2 ^ (w * length ps)" using \<open>lanes w ps + 1 \<le> _\<close> by (rule mult_le_mono2)
  finally show ?case by (simp add: power_add)
qed simp

lemma lane_bit:
  assumes "p < 2 ^ w"
  shows "bit (p + 2 ^ w * a) n \<longleftrightarrow> (if n < w then bit p n else bit (a :: nat) (n - w))"
proof -
  have "take_bit w (p + 2 ^ w * a) = p" "drop_bit w (p + 2 ^ w * a) = a"
    using assms by (simp_all add: take_bit_eq_mod drop_bit_eq_div)
  then show ?thesis
    using bit_take_bit_iff [of w "p + 2 ^ w * a" n] bit_drop_bit_eq [of w "p + 2 ^ w * a"]
    by (metis comp_apply le_add_diff_inverse not_le)
qed

lemma nat_and_less: "(m :: nat) < 2 ^ w \<Longrightarrow> p AND m < 2 ^ w"
proof -
  assume "m < 2 ^ w"
  then have "take_bit w (p AND m) = p AND m" by (simp add: take_bit_and take_bit_nat_eq_self)
       (metis and.assoc take_bit_and take_bit_eq_mask take_bit_nat_eq_self)
  then show ?thesis using take_bit_nat_less_exp [of w "p AND m"] by simp
qed

lemma lane_and:
  assumes "p < 2 ^ w" "m < 2 ^ (w - k)" "k \<le> w"
  shows "drop_bit k (p + 2 ^ w * a) AND (m + 2 ^ w * b) = (drop_bit k p AND m) + 2 ^ w * (drop_bit k a AND (b :: nat))"
proof (rule bit_eqI)
  fix n
  have m: "m < 2 ^ w" using assms(2,3) by (meson less_le_trans power_increasing diff_le_self one_le_numeral)
  have "drop_bit k p AND m < 2 ^ w" using nat_and_less [OF m] .
  note bs = lane_bit [OF assms(1)] lane_bit [OF m] lane_bit [OF this]
  have "\<not> bit m n" if "w - k \<le> n"
    using that assms(2) by (metis bit_take_bit_iff leD take_bit_nat_eq_self_iff)
  then show "bit (drop_bit k (p + 2 ^ w * a) AND (m + 2 ^ w * b)) n =
      bit ((drop_bit k p AND m) + 2 ^ w * (drop_bit k a AND b)) n"
    using assms(3) by (auto simp: bit_and_iff bit_drop_bit_eq bs)
qed

lemma lanes_and:
  "list_all (\<lambda>p. p < 2 ^ w) ps \<Longrightarrow> list_all (\<lambda>m. m < 2 ^ (w - k)) ms \<Longrightarrow> k \<le> w \<Longrightarrow> length ms = length ps \<Longrightarrow>
   drop_bit k (lanes w ps) AND lanes w ms = lanes w (map2 (\<lambda>p m. drop_bit k p AND m) ps ms)"
proof (induction ps arbitrary: ms)
  case (Cons p ps)
  then show ?case by (cases ms) (simp_all add: lane_and)
qed simp

lemma drop_lanes: "list_all (\<lambda>p. p < 2 ^ w) ps \<Longrightarrow> drop_bit (w * k) (lanes w ps) = lanes w (drop k ps)"
proof (induction ps arbitrary: k)
  case (Cons p ps)
  show ?case
  proof (cases k)
    case (Suc j)
    have "drop_bit (w * k) (lanes w (p # ps)) = drop_bit (w * j) (drop_bit w (lanes w (p # ps)))"
      by (simp add: Suc add.commute)
    also have "drop_bit w (lanes w (p # ps)) = lanes w ps" using Cons.prems by (simp add: drop_bit_eq_div)
    finally show ?thesis using Cons Suc by simp
  qed simp
qed simp

lemma lanes_add: "length qs \<le> length ps \<Longrightarrow> lanes w ps + lanes w qs = lanes w (map2 (+) ps (qs @ replicate (length ps - length qs) 0))"
proof (induction ps arbitrary: qs)
  case (Cons p ps)
  show ?case
  proof (cases qs)
    case Nil
    have "map2 (+) ps (replicate (length ps) 0) = ps" by (induction ps) simp_all
    then show ?thesis using Nil by simp
  next
    case (Cons q qs')
    then show ?thesis using Cons.IH [of qs'] Cons.prems by (simp flip: distrib_left)
  qed
qed simp

lemma lanes_add_drop:
  "list_all (\<lambda>p. p < 2 ^ w) ps \<Longrightarrow> k \<le> length ps \<Longrightarrow>
   lanes w ps + drop_bit (w * k) (lanes w ps) = lanes w (map2 (+) ps (drop k ps @ replicate k 0))"
  using lanes_add [of "drop k ps" ps w] by (simp add: drop_lanes)

subsection \<open>Population counts: the steps\<close>

definition nibble_count :: "nat \<Rightarrow> nat" where
  "nibble_count p = length (filter (bit p) [0..<4])"

lemma list_all_upt: "list_all P [0..<n] \<Longrightarrow> i < n \<Longrightarrow> P i"
  by (simp add: list_all_iff)

lemma nibble_steps:
  "list_all (\<lambda>p. (drop_bit 1 p AND 5) \<le> p \<and> p - (drop_bit 1 p AND 5) < 16 \<and>
     ((p - (drop_bit 1 p AND 5)) AND 3) + (drop_bit 2 (p - (drop_bit 1 p AND 5)) AND 3) = nibble_count p \<and> nibble_count p \<le> 4)
   [0..<16]"
  by code_simp

lemma nibble_step:
  "p < 16 \<Longrightarrow> (drop_bit 1 p AND 5) \<le> p \<and> p - (drop_bit 1 p AND 5) < 16 \<and>
     ((p - (drop_bit 1 p AND 5)) AND 3) + (drop_bit 2 (p - (drop_bit 1 p AND 5)) AND 3) = nibble_count p \<and> nibble_count p \<le> 4"
  by (rule list_all_upt [OF nibble_steps])

lemma lanes_map_add: "lanes w (map f ps) + lanes w (map g ps) = lanes w (map (\<lambda>p. f p + g p) ps)"
  by (induction ps) (simp_all flip: distrib_left)

lemma lanes_map_diff:
  assumes "list_all (\<lambda>p. f p \<le> g p) ps"
  shows "lanes w (map g ps) = lanes w (map f ps) + lanes w (map (\<lambda>p. g p - f p) ps)"
proof -
  have "map (\<lambda>p. f p + (g p - f p)) ps = map g ps" using assms by (auto simp: list_all_iff)
  then show ?thesis unfolding lanes_map_add by (simp only:)
qed

lemma map2_replicate: "n = length ps \<Longrightarrow> map2 f ps (replicate n m) = map (\<lambda>p. f p m) ps"
  by (induction ps arbitrary: n) auto

lemma lanes_and_const:
  assumes "list_all (\<lambda>p. p < 2 ^ w) ps" "m < 2 ^ (w - k)" "k \<le> w" "n = length ps"
  shows "drop_bit k (lanes w ps) AND lanes w (replicate n m) = lanes w (map (\<lambda>p. drop_bit k p AND m) ps)"
  using lanes_and [of w ps k "replicate n m"] assms map2_replicate [OF assms(4), of "\<lambda>p m. drop_bit k p AND m"]
  by (simp add: list_all_iff)

lemma unat_drop_bit: "unat (drop_bit k (x :: 'a::len word)) = drop_bit k (unat x)"
  using unsigned_less [of x] by (simp add: unsigned_drop_bit_eq take_bit_nat_eq_self)

text \<open>After the first two steps every group of four bits holds its own count.\<close>

lemma nibble_counts:
  fixes x :: "'a::len word"
  assumes n: "LENGTH('a) = 4 * n"
  defines "m5 \<equiv> of_nat (lanes 4 (replicate n 5)) :: 'a word" and "m3 \<equiv> of_nat (lanes 4 (replicate n 3)) :: 'a word"
  shows "unat (((x - (drop_bit 1 x AND m5)) AND m3) + (drop_bit 2 (x - (drop_bit 1 x AND m5)) AND m3))
    = lanes 4 (map nibble_count (digits n (unat x)))"
proof -
  let ?ps = "digits n (unat x)" and ?d = "\<lambda>p. p - (drop_bit 1 p AND 5)"
  have ps: "list_all (\<lambda>p. p < 2 ^ 4) ?ps" using digits_less [of n "unat x"] by simp
  then have ds: "list_all (\<lambda>p. p < 2 ^ 4) (map ?d ?ps)" by (auto simp: list_all_iff)
  have bnd: "lanes 4 (map f ?ps) < 2 ^ LENGTH('a)" if "list_all (\<lambda>p. f p < 2 ^ 4) ?ps" for f
    using lanes_bound [of 4 "map f ?ps"] that n by (simp add: list.pred_map comp_def)
  have "unat x < 16 ^ n" using unsigned_less [of x] n by (simp add: power_mult)
  then have x: "unat x = lanes 4 (map (\<lambda>p. p) ?ps)" by (simp add: lanes_digits)
  have m: "unat m5 = lanes 4 (replicate n 5)" "unat m3 = lanes 4 (replicate n 3)"
    unfolding m5_def m3_def using lanes_bound [of 4 "replicate n 5"] lanes_bound [of 4 "replicate n 3"] n
    by (simp_all add: list_all_iff unsigned_of_nat take_bit_nat_eq_self)
  have "unat (drop_bit 1 x AND m5) = drop_bit 1 (lanes 4 ?ps) AND lanes 4 (replicate n 5)"
    using x m(1) by (simp add: unsigned_and_eq unat_drop_bit)
  also have "\<dots> = lanes 4 (map (\<lambda>p. drop_bit 1 p AND 5) ?ps)"
    using ps by (intro lanes_and_const) simp_all
  finally have s1: "unat (drop_bit 1 x AND m5) = lanes 4 (map (\<lambda>p. drop_bit 1 p AND 5) ?ps)" .
  have "lanes 4 (map (\<lambda>p. p) ?ps) = lanes 4 (map (\<lambda>p. drop_bit 1 p AND 5) ?ps) + lanes 4 (map ?d ?ps)"
    using ps nibble_step by (intro lanes_map_diff) (auto simp: list_all_iff)
  then have "unat x = unat (drop_bit 1 x AND m5) + lanes 4 (map ?d ?ps)" using s1 x by linarith
  then have x1: "unat (x - (drop_bit 1 x AND m5)) = lanes 4 (map ?d ?ps)" by (simp add: unat_sub_small)
  define y where "y = x - (drop_bit 1 x AND m5)"
  have s2: "unat (drop_bit k y AND m3) = lanes 4 (map (\<lambda>p. drop_bit k (?d p) AND 3) ?ps)" if "k \<le> 2" for k
  proof -
    have "unat (drop_bit k y AND m3) = drop_bit k (lanes 4 (map ?d ?ps)) AND lanes 4 (replicate n 3)"
      using x1 m(2) by (simp add: y_def unsigned_and_eq unat_drop_bit)
    also have "\<dots> = lanes 4 (map (\<lambda>p. drop_bit k p AND 3) (map ?d ?ps))"
    proof (rule lanes_and_const [OF ds])
      have "(2 :: nat) ^ 2 \<le> 2 ^ (4 - k)" using that by (intro power_increasing) auto
      then show "3 < (2 :: nat) ^ (4 - k)" by simp
    qed (use that in simp_all)
    finally show ?thesis by (simp add: comp_def)
  qed
  have "lanes 4 (map (\<lambda>p. drop_bit 0 (?d p) AND 3) ?ps) + lanes 4 (map (\<lambda>p. drop_bit 2 (?d p) AND 3) ?ps) = lanes 4 (map nibble_count ?ps)"
    unfolding lanes_map_add using ps nibble_step by (intro arg_cong [of _ _ "lanes 4"] map_cong) (auto simp: list_all_iff)
  moreover have "lanes 4 (map nibble_count ?ps) < 2 ^ LENGTH('a)"
    using ps nibble_step by (intro bnd) (fastforce simp: list_all_iff)
  ultimately have "unat ((drop_bit 0 y AND m3) + (drop_bit 2 y AND m3)) = lanes 4 (map nibble_count ?ps)"
    using s2 [of 0] s2 [of 2] by (subst unat_add_small) simp_all
  then show ?thesis by (simp add: y_def)
qed

lemma filter_bit_nibble:
  "length (filter (bit (u :: nat)) [0..<4 * n]) = sum_list (map nibble_count (digits n u))"
proof (induction n arbitrary: u)
  case (Suc n)
  have "[0..<4 * Suc n] = [0..<4] @ map (\<lambda>i. i + 4) [0..<4 * n]"
    using upt_add_eq_append [of 0 4 "4 * n"] by (simp add: map_add_upt add.commute)
  moreover have "filter (bit u) [0..<4] = filter (bit (u mod 16)) [0..<4]"
    using bit_take_bit_iff [of 4 u] by (intro filter_cong) (simp_all add: take_bit_eq_mod)
  moreover have "bit u (i + 4) = bit (u div 16) i" for i
    using bit_drop_bit_eq [of 4 u] by (simp add: drop_bit_eq_div fun_eq_iff add.commute)
  ultimately show ?case
    using Suc.IH [of "u div 16"] by (simp add: nibble_count_def filter_map comp_def)
qed simp

lemma pop_count_nibbles:
  "LENGTH('a) = 4 * n \<Longrightarrow> pop_count (x :: 'a::len word) = sum_list (map nibble_count (digits n (unat x)))"
proof -
  assume n: "LENGTH('a) = 4 * n"
  have "filter (bit x) [0..<LENGTH('a)] = filter (bit (unat x)) [0..<4 * n]"
    unfolding n by (intro filter_cong) (auto simp: bit_unsigned_iff)
  then show ?thesis by (simp add: pop_count_def filter_bit_nibble)
qed

text \<open>The third step adds the counts of the two halves of every byte.\<close>

fun pair_sums :: "nat list \<Rightarrow> nat list" where
  "pair_sums (a # b # cs) = (a + b) # pair_sums cs"
| "pair_sums _ = []"

lemma and_low_mask: "(x :: nat) AND 15 = x mod 16" "x AND 31 = x mod 32" "x AND 63 = x mod 64" "x AND 127 = x mod 128"
  using take_bit_eq_mask [of 4 x] take_bit_eq_mask [of 5 x] take_bit_eq_mask [of 6 x] take_bit_eq_mask [of 7 x]
  by (simp_all add: take_bit_eq_mod mask_eq_exp_minus_1)

lemma nibble_pairs:
  "list_all (\<lambda>c. c \<le> 4) cs \<Longrightarrow> length cs = 2 * n \<Longrightarrow>
   (lanes 4 cs + drop_bit 4 (lanes 4 cs)) AND lanes 8 (replicate n 15) = lanes 8 (pair_sums cs)"
proof (induction cs arbitrary: n rule: pair_sums.induct)
  case (1 a b cs)
  then obtain k where n: "n = Suc k" by (cases n) auto
  let ?L = "lanes 4 cs"
  define r where "r = ?L mod 16"
  have "r \<le> 4" using 1(2) unfolding r_def by (cases cs) auto
  have "?L = r + 16 * drop_bit 4 ?L" by (simp add: r_def drop_bit_eq_div)
  moreover have "drop_bit 4 (lanes 4 (a # b # cs)) = b + 16 * ?L"
    using 1(2) div_mult_self4 [of 16 "b + 16 * ?L" a] by (simp add: drop_bit_eq_div)
  ultimately have S: "lanes 4 (a # b # cs) + drop_bit 4 (lanes 4 (a # b # cs))
      = (a + b + 16 * (b + r)) + 2 ^ 8 * (?L + drop_bit 4 ?L)" by simp
  moreover have "a + b + 16 * (b + r) < 2 ^ 8" using 1(2) \<open>r \<le> 4\<close> by simp
  moreover have "(a + b + 16 * (b + r)) AND 15 = a + b"
    using 1(2) unfolding and_low_mask mod_mult_self2 by simp
  moreover have "(?L + drop_bit 4 ?L) AND lanes 8 (replicate k 15) = lanes 8 (pair_sums cs)"
    using 1 n by simp
  ultimately show ?case
    using lane_and [of "a + b + 16 * (b + r)" 8 15 0 "?L + drop_bit 4 ?L" "lanes 8 (replicate k 15)"]
    unfolding S n replicate_Suc lanes.simps(2) [of 8] pair_sums.simps by (simp only: drop_bit_0) simp
qed auto

lemma pair_sums_bound: "list_all (\<lambda>c. c \<le> 4) cs \<Longrightarrow> list_all (\<lambda>d. d \<le> 8) (pair_sums cs)"
  by (induction cs rule: pair_sums.induct) auto

lemma pair_sums_sum: "length cs = 2 * n \<Longrightarrow> sum_list (pair_sums cs) = sum_list cs \<and> length (pair_sums cs) = n"
proof (induction cs arbitrary: n rule: pair_sums.induct)
  case (1 a b cs)
  then obtain k where "n = Suc k" by (cases n) auto
  with 1 show ?case by simp
qed auto

lemma map2_add_bound:
  assumes "list_all (\<lambda>p. p \<le> m) ps"
  shows "list_all (\<lambda>p. p \<le> m + m) (map2 (+) ps (drop k ps @ replicate k (0 :: nat)))"
proof -
  have "q \<le> m" if "q \<in> set (drop k ps @ replicate k 0)" for q
    using assms that by (auto simp: list_all_iff dest: in_set_dropD split: if_splits)
  then have "a \<le> m \<and> b \<le> m" if "(a, b) \<in> set (zip ps (drop k ps @ replicate k 0))" for a b
    using assms set_zip_leftD [OF that] set_zip_rightD [OF that] by (simp add: list_all_iff)
  then show ?thesis by (fastforce simp: list_all_iff)
qed

text \<open>All bytes of the word hold their own counts after the third step.\<close>

lemma byte_counts:
  fixes x y :: "'a::len word"
  assumes n: "LENGTH('a) = 8 * n"
    and y: "unat y = lanes 4 (map nibble_count (digits (2 * n) (unat x)))"
  shows "\<exists>ds. unat ((y + drop_bit 4 y) AND of_nat (lanes 8 (replicate n 15))) = lanes 8 ds
    \<and> length ds = n \<and> sum_list ds = pop_count x \<and> list_all (\<lambda>d. d \<le> 8) ds"
proof -
  define cs where "cs = map nibble_count (digits (2 * n) (unat x))"
  have cs: "list_all (\<lambda>c. c \<le> 4) cs" "length cs = 2 * n"
    using digits_less [of "2 * n" "unat x"] nibble_step by (auto simp: cs_def list_all_iff)
  have m: "unat (of_nat (lanes 8 (replicate n 15)) :: 'a word) = lanes 8 (replicate n 15)"
    using lanes_bound [of 8 "replicate n 15"] n by (simp add: list_all_iff unsigned_of_nat take_bit_nat_eq_self)
  have small: "list_all (\<lambda>p. p < 2 ^ 4) cs" using cs(1) by (auto simp: list_all_iff)
  have "unat y + unat (drop_bit 4 y) < 2 ^ LENGTH('a)"
  proof (cases n)
    case 0
    then show ?thesis using n by simp
  next
    case (Suc k)
    let ?ds = "map2 (+) cs (drop 1 cs @ replicate 1 0)"
    have "lanes 4 cs + drop_bit (4 * 1) (lanes 4 cs) = lanes 4 ?ds"
      using small cs(2) Suc by (intro lanes_add_drop) simp_all
    moreover have "list_all (\<lambda>p. p < 2 ^ 4) ?ds"
      using map2_add_bound [OF cs(1), of 1] by (auto simp: list_all_iff)
    ultimately show ?thesis using lanes_bound [of 4 ?ds] cs(2) n y by (simp add: unat_drop_bit cs_def [symmetric])
  qed
  then have "unat ((y + drop_bit 4 y) AND of_nat (lanes 8 (replicate n 15))) = lanes 8 (pair_sums cs)"
    using nibble_pairs [OF cs] y m by (simp add: unsigned_and_eq unat_add_small unat_drop_bit cs_def [symmetric])
  moreover have "sum_list cs = pop_count x" using pop_count_nibbles [of "2 * n" x] n by (simp add: cs_def)
  ultimately show ?thesis using pair_sums_sum [OF cs(2)] pair_sums_bound [OF cs(1)] by auto
qed

text \<open>The sum of \<open>k\<close> neighbouring lanes, from lane \<open>i\<close> on; every further step doubles \<open>k\<close>.\<close>

definition lane_sum :: "nat list \<Rightarrow> nat \<Rightarrow> nat \<Rightarrow> nat" where
  "lane_sum ds k i = (\<Sum>j<k. if i + j < length ds then ds ! (i + j) else 0)"

lemma lane_sum_1: "map (lane_sum ds 1) [0..<length ds] = ds"
  by (rule nth_equalityI) (simp_all add: lane_sum_def)

lemma lane_sum_double: "lane_sum ds (k + m) i = lane_sum ds k i + lane_sum ds m (i + k)"
  by (induction m) (simp_all add: lane_sum_def add_ac)

lemma lane_sum_out: "length ds \<le> i \<Longrightarrow> lane_sum ds k i = 0"
  by (simp add: lane_sum_def)

lemma lane_sum_bound: "list_all (\<lambda>d. d \<le> 8) ds \<Longrightarrow> lane_sum ds k i \<le> 8 * k"
  unfolding lane_sum_def by (rule order_trans [OF sum_bounded_above [of _ _ 8]]) (auto simp: list_all_iff)

lemma lane_sum_all: "lane_sum ds (length ds) 0 = sum_list ds"
  by (simp add: lane_sum_def sum_list_sum_nth atLeast0LessThan)

lemma lane_sums:
  fixes z :: "'a::len word"
  assumes "unat z = lanes 8 (map (lane_sum ds k) [0..<n])" "list_all (\<lambda>d. d \<le> 8) ds"
    "length ds = n" "16 * k < 256" "k \<le> n" "8 * n = LENGTH('a)"
  shows "unat (z + drop_bit (8 * k) z) = lanes 8 (map (lane_sum ds (2 * k)) [0..<n])"
proof -
  let ?l = "map (lane_sum ds k) [0..<n]" and ?m = "map (lane_sum ds (2 * k)) [0..<n]"
  have "lane_sum ds k i < 256" "lane_sum ds (2 * k) i < 256" for i
    using lane_sum_bound [OF assms(2), of k i] lane_sum_bound [OF assms(2), of "2 * k" i] assms(4) by linarith+
  then have l: "list_all (\<lambda>p. p < 2 ^ 8) ?l" "list_all (\<lambda>p. p < 2 ^ 8) ?m" by (simp_all add: list_all_iff)
  have "map2 (+) ?l (drop k ?l @ replicate k 0) = ?m"
    using assms(3,5) lane_sum_double [of ds k k] lane_sum_out [of ds _ k]
    by (intro nth_equalityI) (auto simp: nth_append mult_2 add.commute)
  then have "lanes 8 ?l + drop_bit (8 * k) (lanes 8 ?l) = lanes 8 ?m"
    using lanes_add_drop [OF l(1), of k] assms(5) by simp
  moreover have "lanes 8 ?m < 2 ^ LENGTH('a)" using lanes_bound [OF l(2)] assms(6) by simp
  ultimately show ?thesis using assms(1) by (simp add: unat_add_small unat_drop_bit)
qed

lemma low_lane:
  fixes z :: "'a::len word"
  assumes "unat z = lanes 8 (map (lane_sum ds n) [0..<n])" "list_all (\<lambda>d. d \<le> 8) ds"
    "length ds = n" "0 < n" "8 * n < 2 ^ m" "m \<le> 8"
  shows "unat (z AND mask m) = sum_list ds"
proof -
  have s: "lane_sum ds n 0 = sum_list ds" using lane_sum_all [of ds] assms(3) by simp
  have "2 ^ m * 2 ^ (8 - m) = (256 :: nat)" using assms(6) by (simp flip: power_add)
  then have r: "lanes 8 (map (lane_sum ds n) [0..<n]) =
      sum_list ds + 2 ^ m * (2 ^ (8 - m) * lanes 8 (map (lane_sum ds n) [1..<n]))"
    using assms(4) s by (simp add: upt_conv_Cons flip: mult.assoc)
  have "unat (z AND mask m) = take_bit m (unat z)" by (metis take_bit_eq_mask unsigned_take_bit_eq)
  also have "\<dots> = sum_list ds mod 2 ^ m" unfolding assms(1) r take_bit_eq_mod by simp
  also have "\<dots> = sum_list ds" using lane_sum_bound [OF assms(2), of n 0] assms(5) s by simp
  finally show ?thesis .
qed

lemma pop_count_le: "pop_count (x :: 'a::len word) \<le> LENGTH('a)"
  using length_filter_le [of "bit x" "[0..<LENGTH('a)]"] by (simp add: pop_count_def)

lemma lanes_replicate: "lanes w (replicate (numeral k) m) = m + 2 ^ w * lanes w (replicate (pred_numeral k) m)"
  by (simp add: numeral_eq_Suc)

lemma mask_lanes:
  "of_nat (lanes 4 (replicate 4 5)) = (0x5555 :: u16)" "of_nat (lanes 4 (replicate 4 3)) = (0x3333 :: u16)"
  "of_nat (lanes 8 (replicate 2 15)) = (0x0f0f :: u16)"
  "of_nat (lanes 4 (replicate 8 5)) = (0x55555555 :: u32)" "of_nat (lanes 4 (replicate 8 3)) = (0x33333333 :: u32)"
  "of_nat (lanes 8 (replicate 4 15)) = (0x0f0f0f0f :: u32)"
  "of_nat (lanes 4 (replicate 16 5)) = (0x5555555555555555 :: u64)" "of_nat (lanes 4 (replicate 16 3)) = (0x3333333333333333 :: u64)"
  "of_nat (lanes 8 (replicate 8 15)) = (0x0f0f0f0f0f0f0f0f :: u64)"
  by (simp_all add: lanes_replicate)

lemma hweight8_pop: "unat (hweight8 x) = pop_count x"
proof -
  define y where "y = ((x - (drop_bit 1 x AND 0x55)) AND 0x33) + (drop_bit 2 (x - (drop_bit 1 x AND 0x55)) AND 0x33)"
  have "unat y = lanes 4 (map nibble_count (digits 2 (unat x)))"
    using nibble_counts [of 2 x] by (simp add: y_def numeral_2_eq_2)
  then obtain ds where ds: "unat ((y + drop_bit 4 y) AND of_nat (lanes 8 (replicate 1 15))) = lanes 8 ds"
      "length ds = 1" "sum_list ds = pop_count x" "list_all (\<lambda>d. d \<le> 8) ds"
    using byte_counts [of 1 y x] by auto
  from ds(2) obtain d where "ds = [d]" by (auto simp: length_Suc_conv)
  with ds have "unat ((y + drop_bit 4 y) AND 0x0f) = pop_count x" by simp
  then show ?thesis
    using pop_count_le [of x] by (simp add: hweight8_def Let_def y_def unsigned_ucast_eq take_bit_nat_eq_self)
qed

lemma hweight16_pop: "unat (hweight16 x) = pop_count x"
proof -
  define y where "y = ((x - (drop_bit 1 x AND 0x5555)) AND 0x3333) + (drop_bit 2 (x - (drop_bit 1 x AND 0x5555)) AND 0x3333)"
  define z where "z = (y + drop_bit 4 y) AND 0x0f0f"
  define z1 where "z1 = z + drop_bit 8 z"
  have "unat y = lanes 4 (map nibble_count (digits 4 (unat x)))"
    using nibble_counts [of 4 x] unfolding mask_lanes y_def by simp
  then obtain ds where ds: "unat z = lanes 8 ds" "length ds = 2" "sum_list ds = pop_count x" "list_all (\<lambda>d. d \<le> 8) ds"
    using byte_counts [of 2 y x] unfolding mask_lanes z_def by auto
  have "unat z = lanes 8 (map (lane_sum ds 1) [0..<2])" using ds(1,2) lane_sum_1 [of ds] by simp
  from lane_sums [OF this ds(4)] have "unat z1 = lanes 8 (map (lane_sum ds 2) [0..<2])"
    using ds(2) by (simp add: z1_def)
  from low_lane [OF this ds(4), of 5] have "unat (z1 AND 0x1f) = pop_count x"
    using ds(2,3) by (simp add: mask_eq_exp_minus_1)
  then show ?thesis
    using pop_count_le [of x] by (simp add: hweight16_def Let_def y_def z_def z1_def unsigned_ucast_eq take_bit_nat_eq_self)
qed

lemma hweight32_pop: "unat (hweight32 x) = pop_count x"
proof -
  define y where "y = ((x - (drop_bit 1 x AND 0x55555555)) AND 0x33333333) + (drop_bit 2 (x - (drop_bit 1 x AND 0x55555555)) AND 0x33333333)"
  define z where "z = (y + drop_bit 4 y) AND 0x0f0f0f0f"
  define z1 where "z1 = z + drop_bit 8 z"
  define z2 where "z2 = z1 + drop_bit 16 z1"
  have "unat y = lanes 4 (map nibble_count (digits 8 (unat x)))"
    using nibble_counts [of 8 x] unfolding mask_lanes y_def by simp
  then obtain ds where ds: "unat z = lanes 8 ds" "length ds = 4" "sum_list ds = pop_count x" "list_all (\<lambda>d. d \<le> 8) ds"
    using byte_counts [of 4 y x] unfolding mask_lanes z_def by auto
  have "unat z = lanes 8 (map (lane_sum ds 1) [0..<4])" using ds(1,2) lane_sum_1 [of ds] by simp
  from lane_sums [OF this ds(4)] have "unat z1 = lanes 8 (map (lane_sum ds 2) [0..<4])"
    using ds(2) by (simp add: z1_def)
  from lane_sums [OF this ds(4)] have "unat z2 = lanes 8 (map (lane_sum ds 4) [0..<4])"
    using ds(2) by (simp add: z2_def)
  from low_lane [OF this ds(4), of 6] have "unat (z2 AND 0x3f) = pop_count x"
    using ds(2,3) by (simp add: mask_eq_exp_minus_1)
  then show ?thesis
    using pop_count_le [of x] by (simp add: hweight32_def Let_def y_def z_def z1_def z2_def unsigned_ucast_eq take_bit_nat_eq_self)
qed

lemma hweight64_pop: "unat (hweight64 x) = pop_count x"
proof -
  define y where "y = ((x - (drop_bit 1 x AND 0x5555555555555555)) AND 0x3333333333333333) + (drop_bit 2 (x - (drop_bit 1 x AND 0x5555555555555555)) AND 0x3333333333333333)"
  define z where "z = (y + drop_bit 4 y) AND 0x0f0f0f0f0f0f0f0f"
  define z1 where "z1 = z + drop_bit 8 z"
  define z2 where "z2 = z1 + drop_bit 16 z1"
  define z3 where "z3 = z2 + drop_bit 32 z2"
  have "unat y = lanes 4 (map nibble_count (digits 16 (unat x)))"
    using nibble_counts [of 16 x] unfolding mask_lanes y_def by simp
  then obtain ds where ds: "unat z = lanes 8 ds" "length ds = 8" "sum_list ds = pop_count x" "list_all (\<lambda>d. d \<le> 8) ds"
    using byte_counts [of 8 y x] unfolding mask_lanes z_def by auto
  have "unat z = lanes 8 (map (lane_sum ds 1) [0..<8])" using ds(1,2) lane_sum_1 [of ds] by simp
  from lane_sums [OF this ds(4)] have "unat z1 = lanes 8 (map (lane_sum ds 2) [0..<8])"
    using ds(2) by (simp add: z1_def)
  from lane_sums [OF this ds(4)] have "unat z2 = lanes 8 (map (lane_sum ds 4) [0..<8])"
    using ds(2) by (simp add: z2_def)
  from lane_sums [OF this ds(4)] have "unat z3 = lanes 8 (map (lane_sum ds 8) [0..<8])"
    using ds(2) by (simp add: z3_def)
  from low_lane [OF this ds(4), of 7] have "unat (z3 AND 0x7f) = pop_count x"
    using ds(2,3) by (simp add: mask_eq_exp_minus_1)
  then show ?thesis
    using pop_count_le [of x] by (simp add: hweight64_def Let_def y_def z_def z1_def z2_def z3_def unsigned_ucast_eq take_bit_nat_eq_self)
qed

subsection \<open>Rotations\<close>

lemma rotl_shifts: "0 < n \<Longrightarrow> n < LENGTH('a::len) \<Longrightarrow> push_bit n x OR drop_bit (LENGTH('a) - n) x = word_rotl n (x :: 'a word)"
proof (rule bit_word_eqI)
  fix j assume n: "0 < n" "n < LENGTH('a)" and j: "j < LENGTH('a)"
  then have "(j + (LENGTH('a) - n)) mod LENGTH('a) = (if j < n then j + (LENGTH('a) - n) else j - n)"
    by (auto simp: mod_if)
  then show "bit (push_bit n x OR drop_bit (LENGTH('a) - n) x) j = bit (word_rotl n x) j"
    using n j by (auto simp: bit_simps add.commute [of j] dest: bit_imp_le_length)
qed

lemma rotr_shifts: "0 < n \<Longrightarrow> n < LENGTH('a::len) \<Longrightarrow> drop_bit n x OR push_bit (LENGTH('a) - n) x = word_rotr n (x :: 'a word)"
proof (rule bit_word_eqI)
  fix j assume n: "0 < n" "n < LENGTH('a)" and j: "j < LENGTH('a)"
  then have "(j + n) mod LENGTH('a) = (if j + n < LENGTH('a) then j + n else j - (LENGTH('a) - n))"
    by (auto simp: mod_if)
  then show "bit (drop_bit n x OR push_bit (LENGTH('a) - n) x) j = bit (word_rotr n x) j"
    using n j by (auto simp: bit_simps add.commute [of j] dest: bit_imp_le_length)
qed

text \<open>A byte or half word promoted to \<open>int\<close>, shifted, combined and converted back.\<close>

lemma word_of_int_shifts:
  "word_of_int (push_bit n (uint x) OR drop_bit m (uint x)) = push_bit n x OR drop_bit m (x :: 'a::len word)"
  "word_of_int (drop_bit m (uint x) OR push_bit n (uint x)) = drop_bit m x OR push_bit n (x :: 'a::len word)"
  by (rule bit_word_eqI; auto simp: bit_simps)+

lemma int_shl_small: "n \<le> 15 \<Longrightarrow> uint (x :: 'a::len word) < 2 ^ 16 \<Longrightarrow> int_shl (uint x) n = Some (push_bit n (uint x))"
proof -
  assume "n \<le> 15" "uint x < 2 ^ 16"
  moreover from this have "(2 :: int) ^ n \<le> 2 ^ 15" by (intro power_increasing) simp_all
  ultimately have "uint x * 2 ^ n < 2 ^ 16 * 2 ^ 15"
    by (intro mult_less_le_imp_less) auto
  then show ?thesis using \<open>n \<le> 15\<close> by (simp add: int_shl_def)
qed

lemma uint_bounds: "uint (x :: u8) < 2 ^ 16" "uint (y :: u16) < 2 ^ 16"
  using uint_lt2p [of x] uint_lt2p [of y] by simp_all

lemmas rot_defs = bitops_rol8_def bitops_rol16_def bitops_rol32_def bitops_rol64_def bitops_rol_long_def
  bitops_ror8_def bitops_ror16_def bitops_ror32_def bitops_ror64_def bitops_ror_long_def

subsection \<open>Properties\<close>

text \<open>
  C27. The portable implementations agree with the builtins that the other configuration uses:
  \<open>bitops_ffs\<close> returns one more than the position of the lowest set bit, \<open>bitops_ffz\<close> of the lowest
  clear bit, and every \<open>hweight\<close> function the number of set bits.
\<close>

theorem ffs_hweight_builtin:
  "bitops_ffs x = builtin_ffsl x \<and> bitops_ffz x = builtin_ffsl (NOT x) \<and> unat (hweight8 a) = pop_count a \<and>
   unat (hweight16 b) = pop_count b \<and> unat (hweight32 c) = pop_count c \<and> unat (hweight64 x) = pop_count x \<and>
   unat (hweight_long x) = pop_count x"
  by (simp add: bitops_ffs_builtin bitops_ffz_def hweight8_pop hweight16_pop hweight32_pop hweight64_pop hweight_long_def)

text \<open>
  For a count strictly between zero and the width the rotations rotate and stay defined;
  rotating by zero is the identity for bytes and half words, but shifts a word of 32 or 64 bits by its
  width, which is undefined.
\<close>

theorem rotations:
  assumes "0 < i" "i < 8" "0 < j" "j < 16" "0 < k" "k < 32" "0 < l" "l < 64"
  shows "bitops_rol8 a i = Some (word_rotl i a) \<and> bitops_ror8 a i = Some (word_rotr i a) \<and>
    bitops_rol16 b j = Some (word_rotl j b) \<and> bitops_ror16 b j = Some (word_rotr j b) \<and>
    bitops_rol32 c k = Some (word_rotl k c) \<and> bitops_ror32 c k = Some (word_rotr k c) \<and>
    bitops_rol64 d l = Some (word_rotl l d) \<and> bitops_ror64 d l = Some (word_rotr l d) \<and>
    bitops_rol_long d l = Some (word_rotl l d) \<and> bitops_ror_long d l = Some (word_rotr l d) \<and>
    bitops_rol8 a 0 = Some a \<and> bitops_ror8 a 0 = Some a \<and> bitops_rol32 c 0 = None \<and> bitops_ror64 d 0 = None"
proof -
  have "8 - i < (32 :: nat)" "16 - j < (32 :: nat)" by simp_all
  moreover have "word_of_int (uint a OR drop_bit 8 (uint a)) = a" "word_of_int (uint a OR push_bit 8 (uint a)) = a"
    by (rule bit_word_eqI; auto simp: bit_simps byte_bit_high)+
  ultimately show ?thesis
    using assms rotl_shifts [of i a] rotr_shifts [of i a] rotl_shifts [of j b] rotr_shifts [of j b]
      rotl_shifts [of k c] rotr_shifts [of k c] rotl_shifts [of l d] rotr_shifts [of l d]
      uint_bounds(1) [of a] uint_bounds(2) [of b]
    by (simp add: rot_defs word_of_int_shifts int_shl_small int_shr_def word_shl_def word_shr_def)
qed

theorem rotations_witness:
  "bitops_rol8 0x81 3 = Some (word_rotl 3 0x81) \<and> bitops_ror8 0x81 3 = Some (word_rotr 3 0x81) \<and>
    bitops_rol16 5 3 = Some (word_rotl 3 5) \<and> bitops_ror16 5 3 = Some (word_rotr 3 5) \<and>
    bitops_rol32 6 3 = Some (word_rotl 3 6) \<and> bitops_ror32 6 3 = Some (word_rotr 3 6) \<and>
    bitops_rol64 7 3 = Some (word_rotl 3 7) \<and> bitops_ror64 7 3 = Some (word_rotr 3 7) \<and>
    bitops_rol_long 7 3 = Some (word_rotl 3 7) \<and> bitops_ror_long 7 3 = Some (word_rotr 3 7) \<and>
    bitops_rol8 0x81 0 = Some 0x81 \<and> bitops_ror8 0x81 0 = Some 0x81 \<and> bitops_rol32 6 0 = None \<and> bitops_ror64 7 0 = None"
  by (rule rotations) simp_all

end
