(* ===== verification/Bitops_Map.thy ===== *)
theory Bitops_Map
  imports Bitops_Word Interfaces
begin

text \<open>
  The bitmaps of \<open>linux_bitops.h\<close>: arrays of \<open>unsigned long\<close>, modelled as lists of 64-bit words.

  The number of bits and all indices are \<open>size_t\<close>; the differences that wrap for an empty bitmap
  (\<open>l - 1\<close> with \<open>l = 0\<close>) are written with \<open>sz_sub\<close>. Every array access is bounds-checked. The loops that
  differ only in the word operation share a definition that takes the operation as an argument;
  source and destination of the two- and three-argument operations are different arrays. The
  iteration macros are the lists of the bits their loops visit.
\<close>

subsection \<open>Definitions\<close>

type_synonym bitmap = "u64 list"

definition bitmap_zero :: "bitmap \<Rightarrow> size_t \<Rightarrow> bitmap option" where
  "bitmap_zero bm bits = mem_write bm 0 (replicate (BITS_TO_LONGS bits) 0)"

definition bitmap_fill :: "bitmap \<Rightarrow> size_t \<Rightarrow> bitmap option" where
  "bitmap_fill bm bits =
     (let l = BITS_TO_LONGS bits in do {
        bm \<leftarrow> (if 1 < l then mem_write bm 0 (replicate (l - 1) (NOT 0)) else Some bm);
        mem_store bm (sz_sub l 1) (BITMAP_LAST_WORD_MASK bits) })"

definition set_bit_long :: "size_t \<Rightarrow> bitmap \<Rightarrow> bitmap option" where
  "set_bit_long n bm =
     (let l = n div BITS_PER_LONG; b = n mod BITS_PER_LONG in do {
        v \<leftarrow> mem_load bm l; mem_store bm l (v OR push_bit b 1) })"

definition clear_bit :: "size_t \<Rightarrow> bitmap \<Rightarrow> bitmap option" where
  "clear_bit n bm =
     (let l = n div BITS_PER_LONG; b = n mod BITS_PER_LONG in do {
        v \<leftarrow> mem_load bm l; mem_store bm l (v AND NOT (push_bit b 1)) })"

definition change_bit :: "size_t \<Rightarrow> bitmap \<Rightarrow> bitmap option" where
  "change_bit n bm =
     (let l = n div BITS_PER_LONG; b = n mod BITS_PER_LONG in do {
        v \<leftarrow> mem_load bm l; mem_store bm l (v XOR push_bit b 1) })"

definition test_bit :: "size_t \<Rightarrow> bitmap \<Rightarrow> bool option" where
  "test_bit n bm =
     (let l = n div BITS_PER_LONG; b = n mod BITS_PER_LONG in do {
        v \<leftarrow> mem_load bm l; Some (v AND push_bit b 1 \<noteq> 0) })"

definition test_and_set_bit :: "size_t \<Rightarrow> bitmap \<Rightarrow> (bool \<times> bitmap) option" where
  "test_and_set_bit n bm =
     (let l = n div BITS_PER_LONG; b = n mod BITS_PER_LONG in do {
        v \<leftarrow> mem_load bm l; bm' \<leftarrow> mem_store bm l (v OR push_bit b 1);
        Some (v AND push_bit b 1 \<noteq> 0, bm') })"

definition test_and_clear_bit :: "size_t \<Rightarrow> bitmap \<Rightarrow> (bool \<times> bitmap) option" where
  "test_and_clear_bit n bm =
     (let l = n div BITS_PER_LONG; b = n mod BITS_PER_LONG in do {
        v \<leftarrow> mem_load bm l; bm' \<leftarrow> mem_store bm l (v AND NOT (push_bit b 1));
        Some (v AND push_bit b 1 \<noteq> 0, bm') })"

definition test_and_change_bit :: "size_t \<Rightarrow> bitmap \<Rightarrow> (bool \<times> bitmap) option" where
  "test_and_change_bit n bm =
     (let l = n div BITS_PER_LONG; b = n mod BITS_PER_LONG in do {
        v \<leftarrow> mem_load bm l; bm' \<leftarrow> mem_store bm l (v XOR push_bit b 1);
        Some (v AND push_bit b 1 \<noteq> 0, bm') })"

text \<open>Ranges: the loop over the words before the last one, with \<open>f\<close> combining a word and a mask.\<close>

function range_words :: "(u64 \<Rightarrow> u64 \<Rightarrow> u64) \<Rightarrow> bitmap \<Rightarrow> size_t \<Rightarrow> size_t \<Rightarrow> size_t \<Rightarrow> u64 \<Rightarrow> size_t \<Rightarrow> (bitmap \<times> size_t \<times> u64) option" where
  "range_words f bm i l bits m mask_bits =
     (if i < l then do {
        v \<leftarrow> mem_load bm i;
        bm \<leftarrow> mem_store bm i (f v m);
        range_words f bm (i + 1) l (sz_sub bits mask_bits) (NOT 0) BITS_PER_LONG }
      else Some (bm, bits, m))"
  by pat_completeness auto
termination
  by (relation "measure (\<lambda>(f, bm, i, l, bits, m, mask_bits). l - i)") auto

declare range_words.simps [simp del]

definition bitmap_range :: "(u64 \<Rightarrow> u64 \<Rightarrow> u64) \<Rightarrow> bitmap \<Rightarrow> size_t \<Rightarrow> size_t \<Rightarrow> bitmap option" where
  "bitmap_range f bm start bits =
     (let end = sz_add start bits; l = end div BITS_PER_LONG in do {
        (bm, bits, m) \<leftarrow> range_words f bm (start div BITS_PER_LONG) l bits (BITMAP_FIRST_WORD_MASK start)
          (BITS_PER_LONG - start mod BITS_PER_LONG);
        if bits \<noteq> 0 then do { v \<leftarrow> mem_load bm l; mem_store bm l (f v (m AND BITMAP_LAST_WORD_MASK end)) }
        else Some bm })"

definition bitmap_set :: "bitmap \<Rightarrow> size_t \<Rightarrow> size_t \<Rightarrow> bitmap option" where
  "bitmap_set = bitmap_range (\<lambda>v m. v OR m)"

definition bitmap_clear :: "bitmap \<Rightarrow> size_t \<Rightarrow> size_t \<Rightarrow> bitmap option" where
  "bitmap_clear = bitmap_range (\<lambda>v m. v AND NOT m)"

text \<open>Searching: \<open>t\<close> is the current word and \<open>long_lower\<close> the number of its first bit.\<close>

function find_word :: "(u64 \<Rightarrow> u64) \<Rightarrow> bitmap \<Rightarrow> size_t \<Rightarrow> size_t \<Rightarrow> u64 \<Rightarrow> size_t \<Rightarrow> (u64 \<times> size_t) option" where
  "find_word f bm i l t long_lower =
     (if t = 0 \<and> i < l then do {
        v \<leftarrow> mem_load bm i;
        find_word f bm (i + 1) l (f v) (long_lower + BITS_PER_LONG) }
      else Some (t, long_lower))"
  by pat_completeness auto
termination
  by (relation "measure (\<lambda>(f, bm, i, l, t, long_lower). l - i)") auto

declare find_word.simps [simp del]

definition find_from :: "(u64 \<Rightarrow> u64) \<Rightarrow> (u64 \<Rightarrow> u64) \<Rightarrow> bitmap \<Rightarrow> size_t \<Rightarrow> size_t \<Rightarrow> size_t option" where
  "find_from first f bm bits start =
     (let l = BITS_TO_LONGS bits; first_long = start div BITS_PER_LONG;
          long_lower = start - start mod BITS_PER_LONG
      in if bits \<le> start then Some bits
         else do {
           v \<leftarrow> mem_load bm first_long;
           (t, long_lower) \<leftarrow> find_word f bm (first_long + 1) l (first v) long_lower;
           if t = 0 then Some bits
           else let pos = long_lower + bitops_ffs t - 1 in Some (if bits \<le> pos then bits else pos) })"

definition find_next_bit :: "bitmap \<Rightarrow> size_t \<Rightarrow> size_t \<Rightarrow> size_t option" where
  "find_next_bit bm bits start = find_from (\<lambda>v. v AND BITMAP_FIRST_WORD_MASK start) (\<lambda>v. v) bm bits start"

definition find_next_zero_bit :: "bitmap \<Rightarrow> size_t \<Rightarrow> size_t \<Rightarrow> size_t option" where
  "find_next_zero_bit bm bits start =
     find_from (\<lambda>v. (v OR NOT (BITMAP_FIRST_WORD_MASK start)) XOR NOT 0) (\<lambda>v. v XOR NOT 0) bm bits start"

definition find_first_bit :: "bitmap \<Rightarrow> size_t \<Rightarrow> size_t option" where
  "find_first_bit bm bits = find_next_bit bm bits 0"

definition find_first_zero_bit :: "bitmap \<Rightarrow> size_t \<Rightarrow> size_t option" where
  "find_first_zero_bit bm bits = find_next_zero_bit bm bits 0"

text \<open>Counting and comparing.\<close>

function weight_words :: "bitmap \<Rightarrow> size_t \<Rightarrow> size_t \<Rightarrow> size_t \<Rightarrow> size_t option" where
  "weight_words bm i n s =
     (if i < n then do { v \<leftarrow> mem_load bm i; weight_words bm (i + 1) n (s + unat (hweight_long v)) } else Some s)"
  by pat_completeness auto
termination
  by (relation "measure (\<lambda>(bm, i, n, s). n - i)") auto

declare weight_words.simps [simp del]

definition bitmap_weight :: "bitmap \<Rightarrow> size_t \<Rightarrow> size_t option" where
  "bitmap_weight bm bits =
     (let l = BITS_TO_LONGS bits in do {
        s \<leftarrow> weight_words bm 0 (sz_sub l 1) 0;
        v \<leftarrow> mem_load bm (sz_sub l 1);
        Some (s + unat (hweight_long (v AND BITMAP_LAST_WORD_MASK bits))) })"

definition bitmap_equal :: "bitmap \<Rightarrow> bitmap \<Rightarrow> size_t \<Rightarrow> bool option" where
  "bitmap_equal bm1 bm2 bits =
     (let l = BITS_TO_LONGS bits in do {
        same \<leftarrow> (if 1 < l then do { a \<leftarrow> mem_read bm1 0 (l - 1); b \<leftarrow> mem_read bm2 0 (l - 1); Some (a = b) } else Some True);
        if \<not> same then Some False
        else do {
          a \<leftarrow> mem_load bm1 (sz_sub l 1);
          b \<leftarrow> mem_load bm2 (sz_sub l 1);
          Some ((a XOR b) AND BITMAP_LAST_WORD_MASK bits = 0) } })"

text \<open>The loops that stop at the first word for which a test holds.\<close>

function some_word :: "(u64 \<Rightarrow> u64 \<Rightarrow> bool) \<Rightarrow> bitmap \<Rightarrow> bitmap \<Rightarrow> size_t \<Rightarrow> size_t \<Rightarrow> bool option" where
  "some_word p bm1 bm2 i n =
     (if i < n then do {
        a \<leftarrow> mem_load bm1 i; b \<leftarrow> mem_load bm2 i;
        if p a b then Some True else some_word p bm1 bm2 (i + 1) n }
      else Some False)"
  by pat_completeness auto
termination
  by (relation "measure (\<lambda>(p, bm1, bm2, i, n). n - i)") auto

declare some_word.simps [simp del]

definition bitmap_intersects :: "bitmap \<Rightarrow> bitmap \<Rightarrow> size_t \<Rightarrow> bool option" where
  "bitmap_intersects bm1 bm2 bits =
     (let l = BITS_TO_LONGS bits in do {
        found \<leftarrow> some_word (\<lambda>a b. a AND b \<noteq> 0) bm1 bm2 0 (sz_sub l 1);
        if found then Some True
        else do {
          a \<leftarrow> mem_load bm1 (sz_sub l 1); b \<leftarrow> mem_load bm2 (sz_sub l 1);
          Some (a AND b AND BITMAP_LAST_WORD_MASK bits \<noteq> 0) } })"

definition bitmap_subset :: "bitmap \<Rightarrow> bitmap \<Rightarrow> size_t \<Rightarrow> bool option" where
  "bitmap_subset sub super bits =
     (let l = BITS_TO_LONGS bits in do {
        found \<leftarrow> some_word (\<lambda>a b. a AND NOT b \<noteq> 0) sub super 0 (sz_sub l 1);
        if found then Some False
        else do {
          a \<leftarrow> mem_load sub (sz_sub l 1); b \<leftarrow> mem_load super (sz_sub l 1);
          Some (a AND NOT b AND BITMAP_LAST_WORD_MASK bits = 0) } })"

definition bitmap_empty :: "bitmap \<Rightarrow> size_t \<Rightarrow> bool option" where
  "bitmap_empty bm bits =
     (let l = BITS_TO_LONGS bits in do {
        found \<leftarrow> some_word (\<lambda>a _. a \<noteq> 0) bm bm 0 (sz_sub l 1);
        if found then Some False
        else do { a \<leftarrow> mem_load bm (sz_sub l 1); Some (a AND BITMAP_LAST_WORD_MASK bits = 0) } })"

definition bitmap_full :: "bitmap \<Rightarrow> size_t \<Rightarrow> bool option" where
  "bitmap_full bm bits =
     (let l = BITS_TO_LONGS bits in do {
        found \<leftarrow> some_word (\<lambda>a _. NOT a \<noteq> 0) bm bm 0 (sz_sub l 1);
        if found then Some False
        else do { a \<leftarrow> mem_load bm (sz_sub l 1); Some (NOT a AND BITMAP_LAST_WORD_MASK bits = 0) } })"

text \<open>Writing word by word, upwards and downwards.\<close>

function store_up :: "(size_t \<Rightarrow> u64 option) \<Rightarrow> bitmap \<Rightarrow> size_t \<Rightarrow> size_t \<Rightarrow> bitmap option" where
  "store_up g bm i n =
     (if i < n then do { v \<leftarrow> g i; bm \<leftarrow> mem_store bm i v; store_up g bm (i + 1) n } else Some bm)"
  by pat_completeness auto
termination
  by (relation "measure (\<lambda>(g, bm, i, n). n - i)") auto

declare store_up.simps [simp del]

fun store_down :: "(size_t \<Rightarrow> u64 option) \<Rightarrow> bitmap \<Rightarrow> size_t \<Rightarrow> size_t \<Rightarrow> bitmap option" where
  "store_down g bm off 0 = Some bm"
| "store_down g bm off (Suc i) =
     do { v \<leftarrow> g (Suc i); bm \<leftarrow> mem_store bm (Suc i + off) v; store_down g bm off i }"

definition load2 :: "(u64 \<Rightarrow> u64 \<Rightarrow> u64) \<Rightarrow> bitmap \<Rightarrow> bitmap \<Rightarrow> size_t \<Rightarrow> u64 option" where
  "load2 f src1 src2 i = do { a \<leftarrow> mem_load src1 i; b \<leftarrow> mem_load src2 i; Some (f a b) }"

definition bitmap_copy :: "bitmap \<Rightarrow> bitmap \<Rightarrow> size_t \<Rightarrow> bitmap option" where
  "bitmap_copy bm src bits = do { ws \<leftarrow> mem_read src 0 (BITS_TO_LONGS bits); mem_write bm 0 ws }"

definition bitmap_or :: "bitmap \<Rightarrow> bitmap \<Rightarrow> bitmap \<Rightarrow> size_t \<Rightarrow> bitmap option" where
  "bitmap_or bm src1 src2 bits = store_up (load2 (\<lambda>a b. a OR b) src1 src2) bm 0 (BITS_TO_LONGS bits)"

definition bitmap_and :: "bitmap \<Rightarrow> bitmap \<Rightarrow> bitmap \<Rightarrow> size_t \<Rightarrow> bitmap option" where
  "bitmap_and bm src1 src2 bits = store_up (load2 (\<lambda>a b. a AND b) src1 src2) bm 0 (BITS_TO_LONGS bits)"

definition bitmap_andnot :: "bitmap \<Rightarrow> bitmap \<Rightarrow> bitmap \<Rightarrow> size_t \<Rightarrow> bitmap option" where
  "bitmap_andnot bm src1 src2 bits =
     (let i = sz_sub (BITS_TO_LONGS bits) 1 in do {
        bm \<leftarrow> store_up (load2 (\<lambda>a b. a AND NOT b) src1 src2) bm 0 i;
        v \<leftarrow> load2 (\<lambda>a b. a AND NOT b) src1 src2 i;
        mem_store bm i (v AND BITMAP_LAST_WORD_MASK bits) })"

definition bitmap_xor :: "bitmap \<Rightarrow> bitmap \<Rightarrow> bitmap \<Rightarrow> size_t \<Rightarrow> bitmap option" where
  "bitmap_xor bm src1 src2 bits = store_up (load2 (\<lambda>a b. a XOR b) src1 src2) bm 0 (BITS_TO_LONGS bits)"

definition bitmap_complement :: "bitmap \<Rightarrow> bitmap \<Rightarrow> size_t \<Rightarrow> bitmap option" where
  "bitmap_complement bm src bits =
     (let i = sz_sub (BITS_TO_LONGS bits) 1 in do {
        bm \<leftarrow> store_up (\<lambda>i. map_option NOT (mem_load src i)) bm 0 i;
        v \<leftarrow> mem_load src i;
        mem_store bm i (NOT v AND BITMAP_LAST_WORD_MASK bits) })"

definition bitmap_shift_right :: "bitmap \<Rightarrow> bitmap \<Rightarrow> size_t \<Rightarrow> size_t \<Rightarrow> bitmap option" where
  "bitmap_shift_right bm src n bits =
     (let l = BITS_TO_LONGS bits; n_bytes = n div BITS_PER_LONG; n_bits = n mod BITS_PER_LONG; l1 = sz_sub l 1
      in if bits < n then bitmap_zero bm bits
         else do {
           bm \<leftarrow> (if n_bits = 0 then do {
               bm \<leftarrow> store_up (\<lambda>i. mem_load src (i + n_bytes)) bm 0 (l1 - n_bytes);
               v \<leftarrow> mem_load src l1;
               mem_store bm (sz_sub l1 n_bytes) (v AND BITMAP_LAST_WORD_MASK bits) }
             else do {
               bm \<leftarrow> store_up (\<lambda>i. do {
                   low \<leftarrow> mem_load src (i + n_bytes);
                   high \<leftarrow> mem_load src (i + n_bytes + 1);
                   let high = (if i + n_bytes + 1 = l1 then high AND BITMAP_LAST_WORD_MASK bits else high);
                   Some (push_bit (BITS_PER_LONG - n_bits) high OR drop_bit n_bits low) }) bm 0 (l1 - n_bytes);
               v \<leftarrow> mem_load src l1;
               mem_store bm (sz_sub (sz_sub l n_bytes) 1) (drop_bit n_bits (v AND BITMAP_LAST_WORD_MASK bits)) });
           if n_bytes = 0 then Some bm else mem_write bm (sz_sub l n_bytes) (replicate n_bytes 0) })"

definition bitmap_shift_left :: "bitmap \<Rightarrow> bitmap \<Rightarrow> size_t \<Rightarrow> size_t \<Rightarrow> bitmap option" where
  "bitmap_shift_left bm src n bits =
     (let l = BITS_TO_LONGS bits; n_bytes = n div BITS_PER_LONG; n_bits = n mod BITS_PER_LONG; l1 = sz_sub l 1;
          load_high = (\<lambda>i. map_option (\<lambda>high. if i = l1 then high AND BITMAP_LAST_WORD_MASK bits else high) (mem_load src i))
      in if bits \<le> n then bitmap_zero bm bits
         else do {
           bm \<leftarrow> (if n_bits = 0 then do {
               bm \<leftarrow> store_down load_high bm n_bytes (sz_sub (sz_sub l n_bytes) 1);
               high \<leftarrow> load_high 0;
               mem_store bm n_bytes high }
             else do {
               bm \<leftarrow> store_down (\<lambda>i. do {
                   low \<leftarrow> mem_load src (i - 1);
                   high \<leftarrow> load_high i;
                   Some (push_bit n_bits high OR drop_bit (BITS_PER_LONG - n_bits) low) }) bm n_bytes (sz_sub (sz_sub l n_bytes) 1);
               high \<leftarrow> load_high 0;
               mem_store bm n_bytes (push_bit n_bits high) });
           if n_bytes = 0 then Some bm else mem_write bm 0 (replicate n_bytes 0) })"

subsection \<open>Sizes and words\<close>

text \<open>The bitmaps for which the operations are meant: at least one bit, and room for all of them.\<close>

definition map_ok :: "bitmap \<Rightarrow> size_t \<Rightarrow> bool" where
  "map_ok bm bits \<longleftrightarrow> 0 < bits \<and> bits \<le> 64 * length bm \<and> 64 * length bm < 2 ^ 64"

definition map_elems :: "bitmap \<Rightarrow> size_t \<Rightarrow> nat set" where
  "map_elems bm bits = {c. c < bits \<and> arr_bit bm c}"

lemma map_ok_sizes:
  assumes "map_ok bm bits"
  shows "bits < 2 ^ 64" "BITS_TO_LONGS bits = Suc ((bits - 1) div 64)" "sz_sub (BITS_TO_LONGS bits) 1 = (bits - 1) div 64"
    "(bits - 1) div 64 < length bm" "(bits - 1) div 64 < 2 ^ 58"
proof -
  from assms have b: "0 < bits" "bits \<le> 64 * length bm" "64 * length bm < 64 * 2 ^ 58" by (simp_all add: map_ok_def)
  then have "length bm < 2 ^ 58" by simp
  then have "64 * length bm \<le> 64 * (2 ^ 58 - 1)" by (intro mult_le_mono2) simp
  with b have lt: "bits \<le> 2 ^ 64 - 64" by simp
  then show "bits < 2 ^ 64" by simp
  show q: "(bits - 1) div 64 < length bm" using b by (simp add: less_mult_imp_div_less mult.commute)
  then show q2: "(bits - 1) div 64 < 2 ^ 58" using \<open>length bm < 2 ^ 58\<close> by simp
  have "bits + 64 - 1 = (bits - 1) + 64" using b(1) by simp
  then have "(bits + 64 - 1) div 64 = Suc ((bits - 1) div 64)" by (simp only: div_add_self2)
  moreover have "sz_sub (sz_add bits 64) 1 = bits + 64 - 1"
    using lt b(1) by (cases "bits = 2 ^ 64 - 64") (simp_all add: sz_add_def sz_sub_wrap)
  ultimately show l: "BITS_TO_LONGS bits = Suc ((bits - 1) div 64)"
    unfolding BITS_TO_LONGS_def BITOPS_DIV_CEIL_def BITS_PER_LONG_def by (simp del: diff_Suc_1)
  show "sz_sub (BITS_TO_LONGS bits) 1 = (bits - 1) div 64" using q2 unfolding l by (subst sz_sub_small) simp_all
qed

lemma word_of_bit: "c < bits \<Longrightarrow> c div 64 \<le> (bits - 1) div (64 :: nat)"
  by (rule div_le_mono) simp

lemma word_less: "c < bits \<Longrightarrow> c div 64 < length bm" if "map_ok bm bits" for c
  using word_of_bit [of c bits] map_ok_sizes(4) [OF that] by linarith

lemma word_before_last: "c div 64 < (bits - 1) div (64 :: nat) \<Longrightarrow> c < bits"
  using div_le_mono [of "bits - 1" c 64] by (cases "c < bits") simp_all

lemma bits_le_words: "bits \<le> 64 * Suc ((bits - 1) div 64)"
proof -
  have "bits - 1 = 64 * ((bits - 1) div 64) + (bits - 1) mod 64" "(bits - 1) mod 64 < 64" by simp_all
  then show ?thesis unfolding mult_Suc_right by linarith
qed

text \<open>A statement about all bits is one about the words before the last and one about the last.\<close>

lemma all_bits:
  assumes "0 < (bits :: nat)"
  shows "(\<forall>c<bits. Q (c div 64) (c mod 64)) \<longleftrightarrow>
    (\<forall>j<(bits - 1) div 64. \<forall>k<64. Q j k) \<and> (\<forall>k\<le>(bits - 1) mod 64. Q ((bits - 1) div 64) k)"
    (is "?L \<longleftrightarrow> ?R")
proof
  assume L: ?L
  show ?R
  proof (intro conjI allI impI)
    fix j k assume jk: "j < (bits - 1) div 64" "k < (64 :: nat)"
    have "64 * j + 64 \<le> 64 * ((bits - 1) div 64)" using jk(1) by simp
    also have "\<dots> \<le> bits - 1" by simp
    finally have "64 * j + k < bits" using jk(2) assms by linarith
    with L show "Q j k" using jk(2) by force
  next
    fix k assume k: "k \<le> (bits - 1) mod 64"
    have "64 * ((bits - 1) div 64) + (bits - 1) mod 64 = bits - 1" by simp
    with k have "64 * ((bits - 1) div 64) + k < bits" using assms by linarith
    moreover have "k < 64" using k mod_less_divisor [of 64 "bits - 1"] by linarith
    ultimately show "Q ((bits - 1) div 64) k" using L by force
  qed
next
  assume R: ?R
  show ?L
  proof (intro allI impI)
    fix c assume c: "c < bits"
    show "Q (c div 64) (c mod 64)"
    proof (cases "c div 64 = (bits - 1) div 64")
      case True
      then have "c mod 64 \<le> (bits - 1) mod 64" using mod_le_in_word [OF True] c by simp
      then show ?thesis using R True by simp
    next
      case False
      then show ?thesis using R word_of_bit [OF c] by simp
    qed
  qed
qed

lemma word_zero: "(w :: u64) = 0 \<longleftrightarrow> (\<forall>k<64. \<not> bit w k)"
  by (auto intro: bit_word_eqI)

lemma last_zero:
  "0 < bits \<Longrightarrow> bits < 2 ^ 64 \<Longrightarrow> w AND BITMAP_LAST_WORD_MASK bits = 0 \<longleftrightarrow> (\<forall>k\<le>(bits - 1) mod 64. \<not> bit w k)"
  using order_le_less_trans [OF _ mod_less_divisor [of 64 "bits - 1"]] by (auto simp: word_zero bit_and_iff bit_LAST)

subsection \<open>The loops\<close>

lemma store_up_result:
  "\<forall>j. i \<le> j \<and> j < n \<longrightarrow> g j = Some (h j) \<Longrightarrow> n \<le> length bm \<Longrightarrow>
   \<exists>bm'. store_up g bm i n = Some bm' \<and> length bm' = length bm \<and>
     (\<forall>j. bm' ! j = (if i \<le> j \<and> j < n then h j else bm ! j))"
proof (induction "n - i" arbitrary: i bm)
  case 0
  then show ?case by (auto simp: store_up.simps)
next
  case (Suc d)
  then have "i < n" by simp
  with Suc.prems have step: "store_up g bm i n = store_up g (bm[i := h i]) (i + 1) n"
    by (subst store_up.simps) (simp add: mem_simps)
  have "\<exists>bm'. store_up g (bm[i := h i]) (i + 1) n = Some bm' \<and> length bm' = length (bm[i := h i]) \<and>
     (\<forall>j. bm' ! j = (if i + 1 \<le> j \<and> j < n then h j else bm[i := h i] ! j))"
    by (rule Suc.hyps(1)) (use Suc.hyps(2) Suc.prems in auto)
  then obtain bm' where "store_up g (bm[i := h i]) (i + 1) n = Some bm'" "length bm' = length bm"
    "\<forall>j. bm' ! j = (if i + 1 \<le> j \<and> j < n then h j else bm[i := h i] ! j)" by auto
  moreover have "i < length bm" using Suc by linarith
  ultimately show ?case using step Suc.hyps(2) by (auto simp: nth_list_update)
qed

lemma store_down_result:
  "\<forall>j. 0 < j \<and> j \<le> i \<longrightarrow> g j = Some (h j) \<Longrightarrow> i + off < length bm \<Longrightarrow>
   \<exists>bm'. store_down g bm off i = Some bm' \<and> length bm' = length bm \<and>
     (\<forall>j. bm' ! j = (if off < j \<and> j \<le> i + off then h (j - off) else bm ! j))"
proof (induction i arbitrary: bm)
  case (Suc i)
  then have step: "store_down g bm off (Suc i) = store_down g (bm[Suc i + off := h (Suc i)]) off i"
    by (simp add: mem_simps)
  have "\<exists>bm'. store_down g (bm[Suc i + off := h (Suc i)]) off i = Some bm' \<and> length bm' = length bm \<and>
     (\<forall>j. bm' ! j = (if off < j \<and> j \<le> i + off then h (j - off) else bm[Suc i + off := h (Suc i)] ! j))"
    using Suc.IH [of "bm[Suc i + off := h (Suc i)]"] Suc.prems by auto
  then show ?case using step Suc.prems(2) by (auto simp: nth_list_update le_Suc_eq)
qed auto

lemma some_word_result:
  "n \<le> length bm1 \<Longrightarrow> n \<le> length bm2 \<Longrightarrow> some_word p bm1 bm2 i n = Some (\<exists>j. i \<le> j \<and> j < n \<and> p (bm1 ! j) (bm2 ! j))"
proof (induction "n - i" arbitrary: i)
  case 0
  then show ?case by (simp add: some_word.simps)
next
  case (Suc d)
  have i: "i < n" using Suc.hyps(2) by simp
  then have "some_word p bm1 bm2 i n = (if p (bm1 ! i) (bm2 ! i) then Some True else some_word p bm1 bm2 (i + 1) n)"
    using Suc by (subst some_word.simps) (simp add: mem_simps)
  moreover have "some_word p bm1 bm2 (i + 1) n = Some (\<exists>j. i + 1 \<le> j \<and> j < n \<and> p (bm1 ! j) (bm2 ! j))"
    using Suc by simp
  moreover have "(\<exists>j. i \<le> j \<and> j < n \<and> P j) \<longleftrightarrow> P i \<or> (\<exists>j. i + 1 \<le> j \<and> j < n \<and> P j)" for P
    using i by (metis Suc_eq_plus1 Suc_leD le_refl not_less_eq_eq order_antisym)
  ultimately show ?case by simp
qed

subsection \<open>Set algebra\<close>

text \<open>All operations that write a new bitmap keep its length; what they leave is described word by word.\<close>

lemma load2_Some: "i < length a \<Longrightarrow> i < length b \<Longrightarrow> load2 f a b i = Some (f (a ! i) (b ! i))"
  by (simp add: load2_def mem_simps)

lemma elems_by_words:
  assumes "map_ok bm bits" "\<And>c. c < bits \<Longrightarrow> bit (bm' ! (c div 64)) (c mod 64) = P c"
  shows "map_elems bm' bits = {c. c < bits \<and> P c}"
  using assms(2) by (auto simp: map_elems_def arr_bit_def)

lemma map2_words:
  assumes "map_ok bm bits" "map_ok a bits" "map_ok b bits"
  shows "\<exists>bm'. store_up (load2 f a b) bm 0 (BITS_TO_LONGS bits) = Some bm' \<and> length bm' = length bm \<and>
    (\<forall>j\<le>(bits - 1) div 64. bm' ! j = f (a ! j) (b ! j))"
  using store_up_result [of 0 "BITS_TO_LONGS bits" "load2 f a b" "\<lambda>j. f (a ! j) (b ! j)" bm]
    assms [THEN map_ok_sizes(4)] map_ok_sizes(2) [OF assms(1)]
  by (fastforce simp: load2_Some less_Suc_eq_le)

text \<open>The operations that treat the last word separately.\<close>

lemma masked_last:
  assumes "map_ok bm bits" "\<forall>j\<le>(bits - 1) div 64. g j = Some (h j)"
  shows "\<exists>bm1. store_up g bm 0 (sz_sub (BITS_TO_LONGS bits) 1) = Some bm1 \<and> length bm1 = length bm \<and>
    (\<exists>bm'. mem_store bm1 (sz_sub (BITS_TO_LONGS bits) 1) (h ((bits - 1) div 64) AND BITMAP_LAST_WORD_MASK bits) = Some bm'
       \<and> length bm' = length bm \<and> map_elems bm' bits = {c. c < bits \<and> bit (h (c div 64)) (c mod 64)}
       \<and> map_elems bm' (64 * Suc ((bits - 1) div 64)) = map_elems bm' bits)"
proof -
  note sz = map_ok_sizes [OF assms(1)]
  let ?q = "(bits - 1) div 64"
  obtain bm1 where bm1: "store_up g bm 0 ?q = Some bm1" "length bm1 = length bm" "\<forall>j. bm1 ! j = (if j < ?q then h j else bm ! j)"
    using store_up_result [of 0 ?q g h bm] assms(2) sz(4) by auto
  let ?bm' = "bm1[?q := h ?q AND BITMAP_LAST_WORD_MASK bits]"
  have pos: "0 < bits" using assms(1) by (simp add: map_ok_def)
  have word: "bit (?bm' ! (c div 64)) (c mod 64) \<longleftrightarrow> bit (h (c div 64)) (c mod 64) \<and> c < bits" if "c div 64 \<le> ?q" for c
  proof (cases "c div 64 = ?q")
    case True
    then show ?thesis using bm1(2) sz(4) bit_LAST_word [OF pos sz(1) True] by (simp add: bit_and_iff)
  next
    case False
    with that have less: "c div 64 < ?q" by (rule le_neq_implies_less)
    then have "c < bits" by (rule word_before_last)
    then show ?thesis using False less bm1(3) by simp
  qed
  have "map_elems ?bm' bits = {c. c < bits \<and> bit (h (c div 64)) (c mod 64)}"
    using word word_of_bit by (auto simp: map_elems_def arr_bit_def)
  moreover have "map_elems ?bm' (64 * Suc ?q) = map_elems ?bm' bits"
  proof -
    have "c div 64 \<le> ?q" if "c < 64 * Suc ?q" for c using that less_mult_imp_div_less [of c "Suc ?q" 64] by (simp add: mult.commute)
    moreover have "bits \<le> 64 * Suc ?q" by (rule bits_le_words)
    ultimately show ?thesis using word by (auto simp: map_elems_def arr_bit_def)
  qed
  ultimately show ?thesis using bm1 sz(3,4) by (auto simp: mem_simps)
qed

text \<open>An operation succeeds, keeps the length of its bitmap and leaves the set \<open>S\<close> in its first \<open>bits\<close> bits.\<close>

definition yields :: "bitmap option \<Rightarrow> bitmap \<Rightarrow> size_t \<Rightarrow> nat set \<Rightarrow> bool" where
  "yields r bm bits S \<longleftrightarrow> (\<exists>bm'. r = Some bm' \<and> length bm' = length bm \<and> map_elems bm' bits = S)"

lemma pointwise_yields:
  assumes "map_ok bm bits" "map_ok a bits" "map_ok b bits"
    and f: "\<And>v w k. k < 64 \<Longrightarrow> bit (f v w) k = F (bit v k) (bit w k)"
  shows "yields (store_up (load2 f a b) bm 0 (BITS_TO_LONGS bits)) bm bits {c. c < bits \<and> F (arr_bit a c) (arr_bit b c)}"
proof -
  obtain bm' where bm': "store_up (load2 f a b) bm 0 (BITS_TO_LONGS bits) = Some bm'" "length bm' = length bm"
    "\<forall>j\<le>(bits - 1) div 64. bm' ! j = f (a ! j) (b ! j)"
    using map2_words [OF assms(1-3)] by blast
  then have "arr_bit bm' c = F (arr_bit a c) (arr_bit b c)" if "c < bits" for c
    using word_of_bit [OF that] by (simp add: arr_bit_def f)
  then show ?thesis using bm'(1,2) by (auto simp: yields_def map_elems_def)
qed

lemma masked_yields:
  assumes "map_ok bm bits" "\<forall>j\<le>(bits - 1) div 64. g j = Some (h j)"
  shows "yields (store_up g bm 0 (sz_sub (BITS_TO_LONGS bits) 1) \<bind>
      (\<lambda>bm1. mem_store bm1 (sz_sub (BITS_TO_LONGS bits) 1) (h ((bits - 1) div 64) AND BITMAP_LAST_WORD_MASK bits)))
    bm bits {c. c < bits \<and> bit (h (c div 64)) (c mod 64)}"
  using masked_last [OF assms] by (auto simp: yields_def)

lemma or_yields: "map_ok bm bits \<Longrightarrow> map_ok a bits \<Longrightarrow> map_ok b bits \<Longrightarrow>
  yields (bitmap_or bm a b bits) bm bits (map_elems a bits \<union> map_elems b bits)"
  using pointwise_yields [of bm bits a b "\<lambda>a b. a OR b" "(\<or>)"]
  by (simp add: bitmap_or_def bit_or_iff map_elems_def Collect_disj_eq [symmetric] conj_disj_distribL)

lemma and_yields: "map_ok bm bits \<Longrightarrow> map_ok a bits \<Longrightarrow> map_ok b bits \<Longrightarrow>
  yields (bitmap_and bm a b bits) bm bits (map_elems a bits \<inter> map_elems b bits)"
  using pointwise_yields [of bm bits a b "\<lambda>a b. a AND b" "(\<and>)"]
  by (simp add: bitmap_and_def bit_and_iff map_elems_def Collect_conj_eq [symmetric] conj_ac)

lemma xor_yields: "map_ok bm bits \<Longrightarrow> map_ok a bits \<Longrightarrow> map_ok b bits \<Longrightarrow>
  yields (bitmap_xor bm a b bits) bm bits ((map_elems a bits - map_elems b bits) \<union> (map_elems b bits - map_elems a bits))"
proof -
  have "{c. c < bits \<and> arr_bit a c \<noteq> arr_bit b c} = (map_elems a bits - map_elems b bits) \<union> (map_elems b bits - map_elems a bits)"
    by (auto simp: map_elems_def)
  then show "map_ok bm bits \<Longrightarrow> map_ok a bits \<Longrightarrow> map_ok b bits \<Longrightarrow> ?thesis"
    using pointwise_yields [of bm bits a b "\<lambda>a b. a XOR b" "(\<noteq>)"] by (simp add: bitmap_xor_def bit_xor_iff)
qed

lemma andnot_yields:
  assumes "map_ok bm bits" "map_ok a bits" "map_ok b bits"
  shows "yields (bitmap_andnot bm a b bits) bm bits (map_elems a bits - map_elems b bits)"
proof -
  let ?h = "\<lambda>j. a ! j AND NOT (b ! j)"
  have g: "\<forall>j\<le>(bits - 1) div 64. load2 (\<lambda>a b. a AND NOT b) a b j = Some (?h j)"
    using assms [THEN map_ok_sizes(4)] by (auto simp: load2_Some)
  have "{c. c < bits \<and> bit (?h (c div 64)) (c mod 64)} = map_elems a bits - map_elems b bits"
    by (auto simp: map_elems_def arr_bit_def bit_simps)
  then show ?thesis
    using masked_yields [OF assms(1) g] g map_ok_sizes(3) [OF assms(1)] by (simp add: bitmap_andnot_def Let_def)
qed

lemma complement_yields:
  assumes "map_ok bm bits" "map_ok a bits"
  shows "yields (bitmap_complement bm a bits) bm bits ({..<bits} - map_elems a bits)"
proof -
  let ?h = "\<lambda>j. NOT (a ! j)"
  have g: "\<forall>j\<le>(bits - 1) div 64. map_option NOT (mem_load a j) = Some (?h j)"
    using assms [THEN map_ok_sizes(4)] by (auto simp: mem_simps)
  have "{c. c < bits \<and> bit (?h (c div 64)) (c mod 64)} = {..<bits} - map_elems a bits"
    by (auto simp: map_elems_def arr_bit_def bit_simps)
  then show ?thesis
    using masked_yields [OF assms(1) g] map_ok_sizes(3,4) [OF assms(1)] map_ok_sizes(4) [OF assms(2)]
    by (simp add: bitmap_complement_def mem_simps Let_def)
qed

lemma copy_yields:
  assumes "map_ok bm bits" "map_ok a bits" shows "yields (bitmap_copy bm a bits) bm bits (map_elems a bits)"
proof -
  let ?l = "BITS_TO_LONGS bits"
  have l: "?l \<le> length bm" "?l \<le> length a" using assms [THEN map_ok_sizes(4)] map_ok_sizes(2) [OF assms(1)] by simp_all
  have "(take ?l a @ drop ?l bm) ! (c div 64) = a ! (c div 64)" if "c < bits" for c
    using word_of_bit [OF that] l map_ok_sizes(2) [OF assms(1)] by (simp add: nth_append less_Suc_eq_le)
  then have "map_elems (take ?l a @ drop ?l bm) bits = map_elems a bits" by (auto simp: map_elems_def arr_bit_def)
  then show ?thesis using l by (simp add: yields_def bitmap_copy_def mem_simps)
qed

lemma zero_yields:
  assumes "map_ok bm bits" shows "yields (bitmap_zero bm bits) bm bits {}"
proof -
  let ?l = "BITS_TO_LONGS bits"
  have l: "?l \<le> length bm" using map_ok_sizes(2,4) [OF assms] by simp
  have "(replicate ?l 0 @ drop ?l bm) ! (c div 64) = 0" if "c < bits" for c
  proof -
    have "c div 64 < ?l" using word_of_bit [OF that] unfolding map_ok_sizes(2) [OF assms] by (rule le_imp_less_Suc)
    then show ?thesis by (simp add: nth_append)
  qed
  then have "map_elems (replicate ?l 0 @ drop ?l bm) bits = {}" by (auto simp: map_elems_def arr_bit_def)
  then show ?thesis using l by (simp add: yields_def bitmap_zero_def mem_simps)
qed

lemma fill_yields:
  assumes "map_ok bm bits" shows "yields (bitmap_fill bm bits) bm bits {..<bits}"
proof -
  note sz = map_ok_sizes [OF assms]
  let ?q = "(bits - 1) div 64"
  have pos: "0 < bits" using assms by (simp add: map_ok_def)
  define bm' where "bm' = (replicate ?q (NOT 0) @ drop ?q bm)[?q := BITMAP_LAST_WORD_MASK bits]"
  have fill: "bitmap_fill bm bits = Some bm'" "length bm' = length bm"
    using sz(2-4) by (auto simp: bitmap_fill_def bm'_def mem_simps Let_def)
  have "bit (bm' ! (c div 64)) (c mod 64)" if c: "c < bits" for c
  proof (cases "c div 64 = ?q")
    case True
    then show ?thesis using bit_LAST_word [OF pos sz(1) True] c sz(4) by (simp add: bm'_def)
  next
    case False
    with word_of_bit [OF c] have "c div 64 < ?q" by (rule le_neq_implies_less)
    then show ?thesis using False by (simp add: bm'_def nth_append bit_not0 del: bit.conj_cancel_right)
  qed
  then have "map_elems bm' bits = {..<bits}" by (auto simp: map_elems_def arr_bit_def)
  then show ?thesis using fill by (simp add: yields_def)
qed

subsection \<open>Queries\<close>

lemma query_none:
  assumes "map_ok bm bits"
  shows "(\<forall>j<(bits - 1) div 64. w j = 0) \<and> w ((bits - 1) div 64) AND BITMAP_LAST_WORD_MASK bits = 0
    \<longleftrightarrow> (\<forall>c<bits. \<not> bit (w (c div 64)) (c mod 64))"
proof -
  have pos: "0 < bits" using assms by (simp add: map_ok_def)
  show ?thesis
    unfolding last_zero [OF pos map_ok_sizes(1) [OF assms]] unfolding word_zero using all_bits [OF pos, of "\<lambda>j k. \<not> bit (w j) k"] by simp
qed

lemma query_words:
  assumes "map_ok a bits" "map_ok b bits"
  shows "some_word p a b 0 (sz_sub (BITS_TO_LONGS bits) 1) = Some (\<exists>j<(bits - 1) div 64. p (a ! j) (b ! j))"
    "mem_load a (sz_sub (BITS_TO_LONGS bits) 1) = Some (a ! ((bits - 1) div 64))"
    "mem_load b (sz_sub (BITS_TO_LONGS bits) 1) = Some (b ! ((bits - 1) div 64))"
  using some_word_result [of "(bits - 1) div 64" a b p 0] map_ok_sizes(3,4) [OF assms(1)] map_ok_sizes(4) [OF assms(2)]
  by (simp_all add: mem_simps)

lemma intersects_elems:
  assumes "map_ok a bits" "map_ok b bits"
  shows "bitmap_intersects a b bits = Some (map_elems a bits \<inter> map_elems b bits \<noteq> {})"
proof -
  have "map_elems a bits \<inter> map_elems b bits = {} \<longleftrightarrow> (\<forall>c<bits. \<not> bit (a ! (c div 64) AND b ! (c div 64)) (c mod 64))"
    by (auto simp: map_elems_def arr_bit_def bit_and_iff)
  then show ?thesis
    unfolding query_none [OF assms(1), of "\<lambda>j. a ! j AND b ! j", symmetric]
    by (auto simp: bitmap_intersects_def Let_def query_words [OF assms, unfolded One_nat_def] and.assoc)
qed

lemma subset_elems:
  assumes "map_ok a bits" "map_ok b bits"
  shows "bitmap_subset a b bits = Some (map_elems a bits \<subseteq> map_elems b bits)"
proof -
  have "map_elems a bits \<subseteq> map_elems b bits \<longleftrightarrow> (\<forall>c<bits. \<not> bit (a ! (c div 64) AND NOT (b ! (c div 64))) (c mod 64))"
    by (auto simp: map_elems_def arr_bit_def bit_simps)
  then show ?thesis
    unfolding query_none [OF assms(1), of "\<lambda>j. a ! j AND NOT (b ! j)", symmetric]
    by (auto simp: bitmap_subset_def Let_def query_words [OF assms, unfolded One_nat_def] and.assoc)
qed

lemma empty_elems:
  assumes "map_ok a bits" shows "bitmap_empty a bits = Some (map_elems a bits = {})"
proof -
  have "map_elems a bits = {} \<longleftrightarrow> (\<forall>c<bits. \<not> bit (a ! (c div 64)) (c mod 64))"
    by (auto simp: map_elems_def arr_bit_def)
  then show ?thesis
    unfolding query_none [OF assms, symmetric]
    by (auto simp: bitmap_empty_def Let_def query_words [OF assms assms, unfolded One_nat_def])
qed

lemma full_elems:
  assumes "map_ok a bits" shows "bitmap_full a bits = Some (map_elems a bits = {..<bits})"
proof -
  have "map_elems a bits = {..<bits} \<longleftrightarrow> (\<forall>c<bits. \<not> bit (NOT (a ! (c div 64))) (c mod 64))"
    by (auto simp: map_elems_def arr_bit_def bit_simps)
  then show ?thesis
    unfolding query_none [OF assms, of "\<lambda>j. NOT (a ! j)", symmetric]
    by (auto simp: bitmap_full_def Let_def query_words [OF assms assms, unfolded One_nat_def])
qed

lemma equal_elems:
  assumes "map_ok a bits" "map_ok b bits"
  shows "bitmap_equal a b bits = Some (map_elems a bits = map_elems b bits)"
proof -
  let ?q = "(bits - 1) div 64"
  note sz = map_ok_sizes [OF assms(1)] map_ok_sizes(4) [OF assms(2)]
  have "map_elems a bits = map_elems b bits \<longleftrightarrow> (\<forall>c<bits. \<not> bit (a ! (c div 64) XOR b ! (c div 64)) (c mod 64))"
    by (auto simp: map_elems_def arr_bit_def bit_simps set_eq_iff)
  moreover have "take ?q a = take ?q b \<longleftrightarrow> (\<forall>j<?q. a ! j XOR b ! j = 0)"
    using sz(4,6) by (auto simp: list_eq_iff_nth_eq xor_zero_iff)
  ultimately show ?thesis
    unfolding query_none [OF assms(1), of "\<lambda>j. a ! j XOR b ! j", symmetric]
    using sz by (auto simp: bitmap_equal_def Let_def query_words(2,3) [OF assms, unfolded One_nat_def] mem_simps)
qed

lemma pop_count_card: "pop_count (w :: 'a::len word) = card {k. k < LENGTH('a) \<and> bit w k}"
proof -
  have "pop_count w = card (set (filter (bit w) [0..<LENGTH('a)]))"
    unfolding pop_count_def by (rule distinct_card [symmetric]) simp
  also have "set (filter (bit w) [0..<LENGTH('a)]) = {k. k < LENGTH('a) \<and> bit w k}" by auto
  finally show ?thesis .
qed

lemma weight_words_sum:
  "n \<le> length bm \<Longrightarrow> i \<le> n \<Longrightarrow> weight_words bm i n s = Some (s + (\<Sum>j\<in>{i..<n}. pop_count (bm ! j)))"
proof (induction "n - i" arbitrary: i s)
  case 0
  then show ?case by (simp add: weight_words.simps)
next
  case (Suc d)
  then have i: "i < n" by simp
  then have "weight_words bm i n s = weight_words bm (Suc i) n (s + pop_count (bm ! i))"
    using Suc.prems by (subst weight_words.simps) (simp add: mem_simps hweight_long_def hweight64_pop)
  then show ?case using Suc.hyps(1) [of "Suc i"] Suc.hyps(2) Suc.prems i by (simp add: sum.atLeast_Suc_lessThan)
qed

lemma card_words:
  "card {c. c < 64 * n \<and> bit (w (c div 64)) (c mod 64)} = (\<Sum>j<n. pop_count (w j :: u64))"
proof (induction n)
  case (Suc n)
  let ?A = "{c. c < 64 * n \<and> bit (w (c div 64)) (c mod 64)}" and ?K = "{k. k < 64 \<and> bit (w n) k}"
  have "{c. c < 64 * Suc n \<and> bit (w (c div 64)) (c mod 64)} = ?A \<union> (\<lambda>k. 64 * n + k) ` ?K" (is "?L = ?R")
  proof
    show "?L \<subseteq> ?R"
    proof
      fix c assume c: "c \<in> ?L"
      show "c \<in> ?R"
      proof (cases "c < 64 * n")
        case False
        then have "c = 64 * n + (c - 64 * n)" "c - 64 * n < 64" using c by auto
        then have "c div 64 = n" "c mod 64 = c - 64 * n" by (metis div_mult_self4 div_less add.right_neutral zero_neq_numeral, metis mod_mult_self4 mod_less)
        then have "c - 64 * n \<in> ?K" using c \<open>c - 64 * n < 64\<close> by simp
        with \<open>c = _\<close> show ?thesis by (intro UnI2 image_eqI)
      qed (use c in simp)
    qed
  qed auto
  moreover have "card ((\<lambda>k. 64 * n + k) ` ?K) = card ?K" by (rule card_image) (simp add: inj_on_def)
  moreover have "?A \<inter> (\<lambda>k. 64 * n + k) ` ?K = {}" by auto
  ultimately show ?case using Suc pop_count_card [of "w n"] by (simp add: card_Un_disjoint)
qed simp

lemma weight_card:
  assumes "map_ok bm bits" shows "bitmap_weight bm bits = Some (card (map_elems bm bits))"
proof -
  note sz = map_ok_sizes [OF assms]
  have pos: "0 < bits" using assms by (simp add: map_ok_def)
  define q where "q = (bits - 1) div 64"
  define w where "w j = (if j = q then bm ! q AND BITMAP_LAST_WORD_MASK bits else bm ! j)" for j
  have "map_elems bm bits = {c. c < 64 * Suc q \<and> bit (w (c div 64)) (c mod 64)}"
  proof (intro set_eqI iffI)
    fix c assume "c \<in> map_elems bm bits"
    then show "c \<in> {c. c < 64 * Suc q \<and> bit (w (c div 64)) (c mod 64)}"
      using bits_le_words [of bits] bit_LAST_word [OF pos sz(1), of c] by (auto simp: map_elems_def arr_bit_def w_def q_def bit_and_iff)
  next
    fix c assume c: "c \<in> {c. c < 64 * Suc q \<and> bit (w (c div 64)) (c mod 64)}"
    then have "c div 64 < Suc q" by (intro less_mult_imp_div_less) (simp add: mult.commute)
    then have "c div 64 = q \<or> c div 64 < q" by (rule less_SucE) simp_all
    then show "c \<in> map_elems bm bits"
    proof
      assume e: "c div 64 = q"
      then show ?thesis using c bit_LAST_word [OF pos sz(1), of c] by (simp add: map_elems_def arr_bit_def w_def q_def bit_and_iff)
    next
      assume e: "c div 64 < q"
      then have "c < bits" unfolding q_def by (rule word_before_last)
      then show ?thesis using c e by (simp add: map_elems_def arr_bit_def w_def)
    qed
  qed
  then have "card (map_elems bm bits) = (\<Sum>j<q. pop_count (w j)) + pop_count (w q)"
    by (simp only: card_words sum.lessThan_Suc)
  moreover have "(\<Sum>j<q. pop_count (w j)) = (\<Sum>j\<in>{0..<q}. pop_count (bm ! j))"
    by (rule sum.cong) (auto simp: w_def)
  moreover have "sz_sub (BITS_TO_LONGS bits) (Suc 0) = q" "q < length bm" using sz(3,4) by (simp_all add: q_def)
  ultimately show ?thesis
    using weight_words_sum [of q bm 0 0] hweight64_pop
    by (simp add: bitmap_weight_def Let_def mem_simps hweight_long_def w_def)
qed

subsection \<open>Searching\<close>

text \<open>Reference: the first position from \<open>start\<close> on with property \<open>P\<close>, or \<open>bits\<close>.\<close>

definition next_pos :: "(nat \<Rightarrow> bool) \<Rightarrow> nat \<Rightarrow> nat \<Rightarrow> nat" where
  "next_pos P bits start = (case find P [start..<bits] of None \<Rightarrow> bits | Some c \<Rightarrow> c)"

lemma next_pos_none:
  assumes "\<forall>d. start \<le> d \<and> d < bits \<longrightarrow> \<not> P d" shows "next_pos P bits start = bits"
proof -
  have "find P [start..<bits] = None" using assms by (simp add: find_None_iff)
  then show ?thesis by (simp add: next_pos_def)
qed

lemma next_pos_found:
  assumes "P c" "start \<le> c" "c < bits" "\<forall>d. start \<le> d \<and> d < c \<longrightarrow> \<not> P d" shows "next_pos P bits start = c"
proof -
  have "find P [start..<bits] = Some c"
    unfolding find_Some_iff using assms by (intro exI [of _ "c - start"]) auto
  then show ?thesis by (simp add: next_pos_def)
qed

lemma find_word_result:
  "\<forall>k. i < k \<and> k < l \<longrightarrow> g k = f (bm ! k) \<Longrightarrow> l \<le> length bm \<Longrightarrow> i < l \<Longrightarrow>
   \<exists>j. i \<le> j \<and> j < l \<and> find_word f bm (i + 1) l (g i) (64 * i) = Some (g j, 64 * j) \<and>
     (\<forall>k. i \<le> k \<and> k < j \<longrightarrow> g k = 0) \<and> (g j = 0 \<longrightarrow> Suc j = l)"
proof (induction "l - i" arbitrary: i)
  case (Suc d)
  show ?case
  proof (cases "g i = 0 \<and> Suc i < l")
    case False
    then have "find_word f bm (i + 1) l (g i) (64 * i) = Some (g i, 64 * i)" by (subst find_word.simps) auto
    then show ?thesis using False Suc.prems(3) by (intro exI [of _ i]) auto
  next
    case True
    then have "find_word f bm (i + 1) l (g i) (64 * i) = find_word f bm (Suc i + 1) l (g (Suc i)) (64 * Suc i)"
      using Suc.prems by (subst find_word.simps) (simp add: mem_simps BITS_PER_LONG_def add.commute)
    moreover obtain j where "Suc i \<le> j" "j < l" "find_word f bm (Suc i + 1) l (g (Suc i)) (64 * Suc i) = Some (g j, 64 * j)"
      "\<forall>k. Suc i \<le> k \<and> k < j \<longrightarrow> g k = 0" "g j = 0 \<longrightarrow> Suc j = l"
    proof -
      have "d = l - Suc i" "\<forall>k. Suc i < k \<and> k < l \<longrightarrow> g k = f (bm ! k)" using Suc.hyps(2) Suc.prems(1) by auto
      from Suc.hyps(1) [OF this Suc.prems(2)] True that show thesis by blast
    qed
    moreover have "g k = 0" if "i \<le> k" "k < j" for k
      using that True \<open>\<forall>k. Suc i \<le> k \<and> k < j \<longrightarrow> g k = 0\<close> by (cases "k = i") auto
    ultimately show ?thesis by (intro exI [of _ j]) auto
  qed
qed simp

lemma find_from_result:
  assumes ok: "map_ok bm bits" and start: "start < bits"
    and first: "\<And>k. bit (first (bm ! (start div 64))) k \<longleftrightarrow> start mod 64 \<le> k \<and> k < 64 \<and> bit (f (bm ! (start div 64))) k"
    and P: "\<And>c. c < bits \<Longrightarrow> bit (f (bm ! (c div 64))) (c mod 64) = P c"
  shows "find_from first f bm bits start = Some (next_pos P bits start)"
proof -
  note sz = map_ok_sizes [OF ok]
  define i where "i = start div 64"
  define l where "l = BITS_TO_LONGS bits"
  define g where "g k = (if k = i then first (bm ! i) else f (bm ! k))" for k
  have il: "i < l" "l \<le> length bm" using word_of_bit [OF start] sz(2,4) by (simp_all add: i_def l_def)
  obtain j where j: "i \<le> j" "j < l" "find_word f bm (i + 1) l (g i) (64 * i) = Some (g j, 64 * j)"
    "\<forall>k. i \<le> k \<and> k < j \<longrightarrow> g k = 0" "g j = 0 \<longrightarrow> Suc j = l"
    using find_word_result [of i l g f bm] il by (auto simp: g_def)
  have "start - start mod 64 = 64 * i" by (simp add: i_def minus_mod_eq_mult_div)
  then have run: "find_from first f bm bits start =
      Some (if g j = 0 then bits else if bits \<le> 64 * j + bitops_ffs (g j) - 1 then bits else 64 * j + bitops_ffs (g j) - 1)"
    using start il j(3) unfolding find_from_def BITS_PER_LONG_def l_def [symmetric] i_def [symmetric]
    by (simp add: Let_def mem_simps g_def)
  have Pg: "P c \<longleftrightarrow> bit (g (c div 64)) (c mod 64)" if "start \<le> c" "c < bits" for c
    using P [OF that(2)] first [of "c mod 64"] mod_le_in_word [of start 64 c] that(1) by (auto simp: g_def i_def)
  have low: "i \<le> c div 64" if "start \<le> c" for c unfolding i_def using that by (rule div_le_mono)
  show ?thesis
  proof (cases "g j = 0")
    case True
    have "\<not> P d" if d: "start \<le> d" "d < bits" for d
    proof -
      have "d div 64 < Suc j" using word_of_bit [OF d(2)] j(5) True sz(2) by (simp add: l_def)
      then have "g (d div 64) = 0" using j(4) low [OF d(1)] True by (auto elim: less_SucE)
      then show ?thesis using Pg [OF d] by simp
    qed
    then show ?thesis using run True by (simp add: next_pos_none)
  next
    case False
    then obtain p where p: "p < 64" "bit (g j) p" "\<forall>k<p. \<not> bit (g j) k" using word_lsb by blast
    let ?c = "64 * j + p"
    have c: "?c div 64 = j" "?c mod 64 = p" using p(1) by simp_all
    have ffs: "64 * j + bitops_ffs (g j) - 1 = ?c" using bitops_ffs_lsb [OF p(2,3)] by simp
    have ge: "start \<le> ?c"
    proof (cases "j = i")
      case True
      then have "start mod 64 \<le> ?c mod 64" using p first [of p] unfolding c by (simp add: g_def i_def)
      then show ?thesis using mod_le_in_word [of start 64 ?c] True c(1) by (simp add: i_def)
    next
      case False
      then have "i < ?c div 64" using j(1) c(1) by simp
      then show ?thesis unfolding i_def by (metis div_le_mono leD nat_le_linear)
    qed
    have none: "\<not> P d" if d: "start \<le> d" "d < ?c" "d < bits" for d
    proof (cases "d div 64 = j")
      case True
      then have "d mod 64 < p" using mod_le_in_word [of ?c 64 d] c d(2) by (simp add: not_le [symmetric])
      then show ?thesis using Pg [OF d(1,3)] True p(3) by simp
    next
      case False
      moreover have "d div 64 \<le> ?c div 64" using d(2) by (intro div_le_mono) simp
      ultimately have "d div 64 < j" unfolding c by simp
      then show ?thesis using Pg [OF d(1,3)] j(4) low [OF d(1)] by simp
    qed
    show ?thesis
    proof (cases "bits \<le> ?c")
      case True
      then have "next_pos P bits start = bits" using none by (intro next_pos_none) auto
      then show ?thesis using run False ffs True by simp
    next
      case c_less: False
      then have "P ?c" using Pg [OF ge] p(2) c by simp
      then have "next_pos P bits start = ?c" using ge none c_less by (intro next_pos_found) auto
      then show ?thesis using run False ffs c_less by simp
    qed
  qed
qed

lemma next_pos_end: "bits \<le> start \<Longrightarrow> next_pos P bits start = bits"
  by (simp add: next_pos_def)

lemma find_next_bit_result:
  assumes "map_ok bm bits" shows "find_next_bit bm bits start = Some (next_pos (arr_bit bm) bits start)"
proof (cases "start < bits")
  case True
  show ?thesis unfolding find_next_bit_def
    by (rule find_from_result [OF assms True]) (auto simp: bit_and_iff bit_FIRST arr_bit_def)
qed (simp add: find_next_bit_def find_from_def Let_def next_pos_end)

lemma find_next_zero_bit_result:
  assumes "map_ok bm bits" shows "find_next_zero_bit bm bits start = Some (next_pos (\<lambda>c. \<not> arr_bit bm c) bits start)"
proof (cases "start < bits")
  case True
  show ?thesis unfolding find_next_zero_bit_def
  proof (rule find_from_result [OF assms True])
    fix k show "bit ((bm ! (start div 64) OR NOT (BITMAP_FIRST_WORD_MASK start)) XOR NOT 0) k
      \<longleftrightarrow> start mod 64 \<le> k \<and> k < 64 \<and> bit (bm ! (start div 64) XOR NOT 0) k"
      by (cases "k < 64") (auto simp: bit_xor_iff bit_or_iff bit_and_iff bit_not_iff_eq bit_FIRST dest: bit_imp_le_length)
  qed (simp add: arr_bit_def bit_xor_iff bit_not_iff_eq not_le)
qed (simp add: find_next_zero_bit_def find_from_def Let_def next_pos_end)

text \<open>A position that is found is not before the start, whatever the bitmap.\<close>

lemma find_word_mono:
  "find_word f bm i l t lower = Some (t', lower') \<Longrightarrow> t' = t \<and> lower' = lower \<or> lower + 64 \<le> lower'"
proof (induction f bm i l t lower rule: find_word.induct)
  case (1 f bm i l t lower)
  then show ?case
    by (subst (asm) (2) find_word.simps) (fastforce simp: BITS_PER_LONG_def split: if_splits Option.bind_splits)
qed

lemma find_from_ge:
  assumes "find_from first f bm bits start = Some c" "c < bits"
    and "\<And>v k. bit (first v) k \<Longrightarrow> start mod 64 \<le> k"
  shows "start \<le> c"
proof -
  have "start < bits" using assms(1,2) by (auto simp: find_from_def Let_def split: if_splits)
  then obtain v t lower where v: "mem_load bm (start div 64) = Some v"
      "find_word f bm (start div 64 + 1) (BITS_TO_LONGS bits) (first v) (start - start mod 64) = Some (t, lower)"
      "t \<noteq> 0" "c = lower + bitops_ffs t - 1"
    using assms(1,2) by (auto simp: find_from_def BITS_PER_LONG_def Let_def split: if_splits Option.bind_splits)
  obtain p where p: "bit t p" "bitops_ffs t = Suc p" using word_lsb [OF v(3)] bitops_ffs_lsb by blast
  from find_word_mono [OF v(2)] show ?thesis
  proof
    assume "t = first v \<and> lower = start - start mod 64"
    then show ?thesis using assms(3) [of v p] p v(4) by simp
  next
    assume "start - start mod 64 + 64 \<le> lower"
    then show ?thesis using p v(4) mod_less_divisor [of 64 start] by linarith
  qed
qed

lemma find_next_ge:
  "find_next_bit bm bits start = Some c \<Longrightarrow> c < bits \<Longrightarrow> start \<le> c"
  "find_next_zero_bit bm bits start = Some c \<Longrightarrow> c < bits \<Longrightarrow> start \<le> c"
  unfolding find_next_bit_def find_next_zero_bit_def
  by (erule (1) find_from_ge; auto simp: bit_simps bit_FIRST)+

text \<open>The bits that the iteration macros visit from bit \<open>b\<close> on.\<close>

function for_each_set_from :: "bitmap \<Rightarrow> size_t \<Rightarrow> size_t \<Rightarrow> size_t list option" where
  "for_each_set_from bm bits b =
     (if b < bits then do { c \<leftarrow> find_next_bit bm bits (b + 1); map_option (Cons b) (for_each_set_from bm bits c) } else Some [])"
  by pat_completeness auto
termination
  by (relation "measure (\<lambda>(bm, bits, b). bits - b)") (use find_next_ge(1) in \<open>force simp: not_less\<close>)+

function for_each_clear_from :: "bitmap \<Rightarrow> size_t \<Rightarrow> size_t \<Rightarrow> size_t list option" where
  "for_each_clear_from bm bits b =
     (if b < bits then do { c \<leftarrow> find_next_zero_bit bm bits (b + 1); map_option (Cons b) (for_each_clear_from bm bits c) } else Some [])"
  by pat_completeness auto
termination
  by (relation "measure (\<lambda>(bm, bits, b). bits - b)") (use find_next_ge(2) in \<open>force simp: not_less\<close>)+

declare for_each_set_from.simps [simp del] for_each_clear_from.simps [simp del]

definition for_each_set_bit :: "bitmap \<Rightarrow> size_t \<Rightarrow> size_t list option" where
  "for_each_set_bit bm bits = do { b \<leftarrow> find_first_bit bm bits; for_each_set_from bm bits b }"

definition for_each_clear_bit :: "bitmap \<Rightarrow> size_t \<Rightarrow> size_t list option" where
  "for_each_clear_bit bm bits = do { b \<leftarrow> find_first_zero_bit bm bits; for_each_clear_from bm bits b }"

lemma next_pos_cases:
  obtains (none) "next_pos P bits start = bits" "filter P [start..<bits] = []"
  | (found) c where "next_pos P bits start = c" "start \<le> c" "c < bits" "filter P [start..<bits] = c # filter P [Suc c..<bits]"
proof (cases "\<exists>d. start \<le> d \<and> d < bits \<and> P d")
  case False
  then show ?thesis using none next_pos_none [of start bits P] by (simp add: filter_empty_conv)
next
  case True
  define c where "c = (LEAST d. start \<le> d \<and> d < bits \<and> P d)"
  have c: "start \<le> c \<and> c < bits \<and> P c" unfolding c_def by (rule LeastI_ex [OF True])
  have less: "\<not> P d" if "start \<le> d" "d < c" for d using that c not_less_Least [of d] unfolding c_def by fastforce
  have "[start..<bits] = [start..<c] @ c # [Suc c..<bits]"
    using c upt_add_eq_append [of start c "bits - c"] upt_conv_Cons [of c bits] by simp
  then have "filter P [start..<bits] = c # filter P [Suc c..<bits]" using c less by (simp add: filter_empty_conv)
  then show ?thesis using found [of c] c less next_pos_found [of P c start bits] by simp
qed

lemma for_each_set_from_result:
  "map_ok bm bits \<Longrightarrow> for_each_set_from bm bits (next_pos (arr_bit bm) bits s) = Some (filter (arr_bit bm) [s..<bits])"
proof (induction "bits - s" arbitrary: s rule: less_induct)
  case less
  show ?case
  proof (cases rule: next_pos_cases [of "arr_bit bm" bits s])
    case none
    then show ?thesis by (simp add: for_each_set_from.simps)
  next
    case (found c)
    then show ?thesis using less.hyps [of "Suc c"] less.prems
      by (subst for_each_set_from.simps) (simp add: find_next_bit_result)
  qed
qed

lemma for_each_clear_from_result:
  "map_ok bm bits \<Longrightarrow> for_each_clear_from bm bits (next_pos (\<lambda>c. \<not> arr_bit bm c) bits s) = Some (filter (\<lambda>c. \<not> arr_bit bm c) [s..<bits])"
proof (induction "bits - s" arbitrary: s rule: less_induct)
  case less
  show ?case
  proof (cases rule: next_pos_cases [of "\<lambda>c. \<not> arr_bit bm c" bits s])
    case none
    then show ?thesis by (simp add: for_each_clear_from.simps)
  next
    case (found c)
    then show ?thesis using less.hyps [of "Suc c"] less.prems
      by (subst for_each_clear_from.simps) (simp add: find_next_zero_bit_result)
  qed
qed

subsection \<open>Single bits\<close>

lemma and_bit_zero: "(v :: u64) AND 2 ^ k = 0 \<longleftrightarrow> \<not> bit v k"
  by (rule and_exp_eq_0_iff_not_bit)

lemma single_bit_ops:
  assumes "n < 64 * length bm"
  defines "b \<equiv> arr_bit bm n"
  shows "\<exists>s c x. set_bit_long n bm = Some s \<and> clear_bit n bm = Some c \<and> change_bit n bm = Some x
    \<and> test_bit n bm = Some b \<and> test_and_set_bit n bm = Some (b, s) \<and> test_and_clear_bit n bm = Some (b, c)
    \<and> test_and_change_bit n bm = Some (b, x) \<and> length s = length bm \<and> length c = length bm \<and> length x = length bm
    \<and> arr_bit s = (arr_bit bm)(n := True) \<and> arr_bit c = (arr_bit bm)(n := False) \<and> arr_bit x = (arr_bit bm)(n := \<not> b)"
proof -
  have d: "n div 64 < length bm" using assms(1) by (simp add: less_mult_imp_div_less mult.commute)
  let ?s = "bm[n div 64 := bm ! (n div 64) OR 2 ^ (n mod 64)]" and ?c = "bm[n div 64 := bm ! (n div 64) AND NOT (2 ^ (n mod 64))]"
    and ?x = "bm[n div 64 := bm ! (n div 64) XOR 2 ^ (n mod 64)]"
  have "b = bit (bm ! (n div 64)) (n mod 64)" by (simp add: b_def arr_bit_def)
  with d have "set_bit_long n bm = Some ?s" "clear_bit n bm = Some ?c" "change_bit n bm = Some ?x" "test_bit n bm = Some b"
    "test_and_set_bit n bm = Some (b, ?s)" "test_and_clear_bit n bm = Some (b, ?c)" "test_and_change_bit n bm = Some (b, ?x)"
    by (simp_all add: set_bit_long_def clear_bit_def change_bit_def test_bit_def test_and_set_bit_def test_and_clear_bit_def
      test_and_change_bit_def BITS_PER_LONG_def mem_simps and_bit_zero Let_def)
  moreover have "arr_bit ?s = (arr_bit bm)(n := True)" "arr_bit ?c = (arr_bit bm)(n := False)" "arr_bit ?x = (arr_bit bm)(n := \<not> b)"
    using arr_bit_set [of n bm] d by (auto simp: fun_eq_iff b_def)
  ultimately show ?thesis by simp
qed

interpretation long_bitset: bitset "\<lambda>bm. 64 * length bm" arr_elems test_bit set_bit_long clear_bit
proof
  fix n and bm :: bitmap
  show "arr_elems bm \<subseteq> {..<64 * length bm}" by (auto simp: arr_elems_def)
  assume n: "n < 64 * length bm"
  from single_bit_ops [OF this] show "test_bit n bm = Some (n \<in> arr_elems bm)"
    "\<exists>m'. set_bit_long n bm = Some m' \<and> arr_elems m' = insert n (arr_elems bm) \<and> 64 * length m' = 64 * length bm"
    "\<exists>m'. clear_bit n bm = Some m' \<and> arr_elems m' = arr_elems bm - {n} \<and> 64 * length m' = 64 * length bm"
    using n by (auto simp: arr_elems_def)
qed

subsection \<open>Ranges\<close>

text \<open>The part of word \<open>j\<close> that lies at or after bit \<open>s\<close>.\<close>

definition from_mask :: "nat \<Rightarrow> nat \<Rightarrow> u64" where
  "from_mask s j = (if s \<le> 64 * j then NOT 0 else push_bit (s - 64 * j) (NOT 0))"

lemma bit_from_mask: "bit (from_mask s j) k \<longleftrightarrow> s \<le> 64 * j + k \<and> k < 64"
  unfolding from_mask_def by (auto simp: bit_push_bit_iff bit_not0 simp del: bit.compl_zero)

lemma FIRST_from_mask: "BITMAP_FIRST_WORD_MASK s = from_mask s (s div 64)"
  by (rule bit_eqI) (auto simp: bit_FIRST bit_from_mask modulo_nat_def)

lemma from_mask_next: "s div 64 \<le> i \<Longrightarrow> NOT 0 = from_mask s (Suc i)"
proof -
  assume "s div 64 \<le> i"
  then have "s < Suc i * 64" using div_less_iff_less_mult [of 64 s "Suc i"] by simp
  then show ?thesis by (simp add: from_mask_def)
qed

lemma range_words_result:
  "start div 64 \<le> i \<Longrightarrow> i \<le> end div 64 \<Longrightarrow> end < 2 ^ 64 \<Longrightarrow> start \<le> end \<Longrightarrow> end div 64 \<le> length bm \<Longrightarrow>
   \<exists>bm'. range_words f bm i (end div 64) (end - max start (64 * i)) (from_mask start i) (64 * Suc i - max start (64 * i))
       = Some (bm', end - max start (64 * (end div 64)), from_mask start (end div 64))
     \<and> length bm' = length bm \<and> (\<forall>j. bm' ! j = (if i \<le> j \<and> j < end div 64 then f (bm ! j) (from_mask start j) else bm ! j))"
proof (induction "end div 64 - i" arbitrary: i bm)
  case 0
  then have "i = end div 64" by simp
  then show ?case by (auto simp: range_words.simps)
next
  case (Suc d)
  let ?l = "end div 64" and ?bm = "bm[i := f (bm ! i) (from_mask start i)]"
  have i: "i < ?l" "i < length bm" using Suc by linarith+
  have s: "start < 64 * Suc i" using Suc.prems(1) div_less_iff_less_mult [of 64 start "Suc i"] by (simp add: mult.commute)
  have e: "64 * Suc i \<le> end" using i(1) by (metis Suc_leI mult_le_mono2 times_div_less_eq_dividend order_trans)
  have "sz_sub (end - max start (64 * i)) (64 * Suc i - max start (64 * i)) = end - max start (64 * Suc i)"
    using s e Suc.prems(3) by (subst sz_sub_small) auto
  then have "range_words f bm i ?l (end - max start (64 * i)) (from_mask start i) (64 * Suc i - max start (64 * i))
      = range_words f ?bm (Suc i) ?l (end - max start (64 * Suc i)) (from_mask start (Suc i)) (64 * Suc (Suc i) - max start (64 * Suc i))"
    using i s from_mask_next [OF Suc.prems(1)] by (subst range_words.simps) (simp add: mem_simps BITS_PER_LONG_def max_def)
  moreover have "\<exists>bm'. range_words f ?bm (Suc i) ?l (end - max start (64 * Suc i)) (from_mask start (Suc i)) (64 * Suc (Suc i) - max start (64 * Suc i))
       = Some (bm', end - max start (64 * ?l), from_mask start ?l)
     \<and> length bm' = length ?bm \<and> (\<forall>j. bm' ! j = (if Suc i \<le> j \<and> j < ?l then f (?bm ! j) (from_mask start j) else ?bm ! j))"
    by (rule Suc.hyps(1)) (use Suc.hyps(2) Suc.prems i in auto)
  ultimately show ?case using i by (auto simp: nth_list_update)
qed

lemma bitmap_range_result:
  assumes len: "start + bits \<le> 64 * length bm" "64 * length bm < 2 ^ 64"
    and f: "\<And>v m k. k < 64 \<Longrightarrow> bit (f v m) k = (if bit m k then B else bit v k)"
  shows "\<exists>bm'. bitmap_range f bm start bits = Some bm' \<and> length bm' = length bm \<and>
    arr_bit bm' = (\<lambda>c. if start \<le> c \<and> c < start + bits then B else arr_bit bm c)"
proof -
  define e l where "e = start + bits" and "l = e div 64"
  have e: "e < 2 ^ 64" "start \<le> e" "l \<le> length bm" "e \<le> 64 * length bm"
    using len unfolding e_def l_def by (auto simp: div_le_mono intro!: div_le_mono [THEN order_trans, of _ "64 * length bm"])
  have first: "start div 64 \<le> l" unfolding l_def using e(2) by (rule div_le_mono)
  have m: "max start (64 * (start div 64)) = start" by simp
  have "64 * Suc (start div 64) - start = 64 - start mod 64" by (simp add: modulo_nat_def)
  then obtain bm1 where bm1: "range_words f bm (start div 64) l bits (BITMAP_FIRST_WORD_MASK start) (64 - start mod 64)
      = Some (bm1, e - max start (64 * l), from_mask start l)" "length bm1 = length bm"
      "\<And>j. bm1 ! j = (if start div 64 \<le> j \<and> j < l then f (bm ! j) (from_mask start j) else bm ! j)"
    using range_words_result [of start "start div 64" e bm f] first e unfolding l_def m FIRST_from_mask by (auto simp: e_def)
  have low: "arr_bit bm1 c = (if start \<le> c then B else arr_bit bm c)" if "c div 64 < l" for c
  proof (cases "start div 64 \<le> c div 64")
    case True
    then show ?thesis using that bm1(3) by (simp add: arr_bit_def f bit_from_mask)
  next
    case False
    then have "\<not> start \<le> c" using div_le_mono by blast
    then show ?thesis using False bm1(3) by (simp add: arr_bit_def)
  qed
  have below: "c div 64 < l \<Longrightarrow> c < e" for c unfolding l_def by (metis div_le_mono leD leI)
  have high: "arr_bit bm1 c = arr_bit bm c" if "l \<le> c div 64" for c using that bm1(3) by (simp add: arr_bit_def)
  show ?thesis
  proof (cases "e - max start (64 * l) = 0")
    case True
    then have "arr_bit bm1 c = (if start \<le> c \<and> c < start + bits then B else arr_bit bm c)" for c
      using low [of c] below [of c] high [of c] mult_div_mod_eq [of 64 c] by (cases "c div 64 < l") (auto simp: e_def not_less)
    then have "arr_bit bm1 = (\<lambda>c. if start \<le> c \<and> c < start + bits then B else arr_bit bm c)" by (rule ext)
    moreover have "bitmap_range f bm start bits = Some bm1"
      using bm1(1) True e(1) by (simp add: bitmap_range_def BITS_PER_LONG_def Let_def e_def l_def)
    ultimately show ?thesis using bm1(2) by blast
  next
    case False
    then have el: "64 * l < e" by linarith
    have el2: "e < 64 * Suc l" using mult_div_mod_eq [of 64 e] mod_less_divisor [of 64 e] by (simp add: l_def)
    have l: "l < length bm" "(e - 1) div 64 = l" using el el2 e(4) by (auto intro!: div_nat_eqI)
    let ?bm = "bm1[l := f (bm ! l) (from_mask start l AND BITMAP_LAST_WORD_MASK e)]"
    have "arr_bit ?bm c = (if start \<le> c \<and> c < start + bits then B else arr_bit bm c)" for c
    proof (cases "c div 64 = l")
      case True
      then have "bit (BITMAP_LAST_WORD_MASK e) (c mod 64) \<longleftrightarrow> c < e"
        using l(2) e(1) el by (intro bit_LAST_word) auto
      then show ?thesis
        using True l(1) bm1(2) mult_div_mod_eq [of 64 c]
        by (auto simp: arr_bit_update f bit_and_iff bit_from_mask arr_bit_def e_def)
    next
      case False
      then have upd: "arr_bit ?bm c = arr_bit bm1 c" using l(1) bm1(2) by (simp add: arr_bit_update)
      show ?thesis
      proof (cases "c div 64 < l")
        case True
        then show ?thesis using upd low below e_def by simp
      next
        case less: False
        then have "Suc l \<le> c div 64" using False by simp
        then have "64 * Suc l \<le> c" using mult_div_mod_eq [of 64 c] by (metis mult_le_mono2 le_add1 order_trans)
        then show ?thesis using upd high [of c] less el2 e_def by auto
      qed
    qed
    then have "arr_bit ?bm = (\<lambda>c. if start \<le> c \<and> c < start + bits then B else arr_bit bm c)" by (rule ext)
    moreover have "bitmap_range f bm start bits = Some ?bm"
    proof -
      have "sz_add start bits = e" using e(1) by (simp add: e_def)
      moreover have "mem_load bm1 l = Some (bm ! l)" using bm1(2,3) l(1) by (simp add: mem_simps)
      ultimately show ?thesis
        using bm1(1,2) False l(1) unfolding bitmap_range_def BITS_PER_LONG_def
        by (simp add: Let_def l_def [symmetric] mem_simps del: diff_is_0_eq)
    qed
    moreover have "length ?bm = length bm" using bm1(2) by simp
    ultimately show ?thesis by blast
  qed
qed

lemma set_clear_range:
  assumes "start + bits \<le> 64 * length bm" "64 * length bm < 2 ^ 64"
  shows "\<exists>bm'. bitmap_set bm start bits = Some bm' \<and> length bm' = length bm \<and> arr_elems bm' = arr_elems bm \<union> {start..<start + bits}"
    "\<exists>bm'. bitmap_clear bm start bits = Some bm' \<and> length bm' = length bm \<and> arr_elems bm' = arr_elems bm - {start..<start + bits}"
proof -
  obtain s where s: "bitmap_set bm start bits = Some s" "length s = length bm"
      "arr_bit s = (\<lambda>c. if start \<le> c \<and> c < start + bits then True else arr_bit bm c)"
  proof -
    have "\<exists>s. bitmap_range (\<lambda>v m. v OR m) bm start bits = Some s \<and> length s = length bm \<and>
        arr_bit s = (\<lambda>c. if start \<le> c \<and> c < start + bits then True else arr_bit bm c)"
      by (rule bitmap_range_result [OF assms]) (auto simp: bit_or_iff)
    then show thesis using that by (auto simp: bitmap_set_def)
  qed
  then have "arr_elems s = arr_elems bm \<union> {start..<start + bits}" using assms(1) by (auto simp: arr_elems_def)
  with s show "\<exists>bm'. bitmap_set bm start bits = Some bm' \<and> length bm' = length bm \<and> arr_elems bm' = arr_elems bm \<union> {start..<start + bits}"
    by blast
  obtain c where c: "bitmap_clear bm start bits = Some c" "length c = length bm"
      "arr_bit c = (\<lambda>i. if start \<le> i \<and> i < start + bits then False else arr_bit bm i)"
  proof -
    have "\<exists>s. bitmap_range (\<lambda>v m. v AND NOT m) bm start bits = Some s \<and> length s = length bm \<and>
        arr_bit s = (\<lambda>c. if start \<le> c \<and> c < start + bits then False else arr_bit bm c)"
      by (rule bitmap_range_result [OF assms]) (auto simp: bit_and_iff bit_not_iff_eq)
    then show thesis using that by (auto simp: bitmap_clear_def)
  qed
  then have "arr_elems c = arr_elems bm - {start..<start + bits}" by (auto simp: arr_elems_def)
  with c show "\<exists>bm'. bitmap_clear bm start bits = Some bm' \<and> length bm' = length bm \<and> arr_elems bm' = arr_elems bm - {start..<start + bits}"
    by blast
qed

end
