(* ===== verification/Bitops_Shift.thy ===== *)
theory Bitops_Shift
  imports Bitops_Map
begin

text \<open>
  Correctness of the bitmap operations of \<open>linux_bitops.h\<close>: the two shifts, described by the words they
  leave, and the properties of the whole component.
\<close>

subsection \<open>Shifts\<close>

lemma add_div_mod:
  "d mod 64 + n mod 64 < 64 \<Longrightarrow> (d + n) div 64 = d div 64 + n div (64 :: nat) \<and> (d + n) mod 64 = d mod 64 + n mod 64"
  "64 \<le> d mod 64 + n mod 64 \<Longrightarrow> (d + n) div 64 = Suc (d div 64 + n div (64 :: nat)) \<and> (d + n) mod 64 = d mod 64 + n mod 64 - 64"
proof -
  have "d + n = (64 * (d div 64) + d mod 64) + (64 * (n div 64) + n mod 64)" by (simp only: mult_div_mod_eq)
  then have e: "d + n = 64 * (d div 64 + n div 64) + (d mod 64 + n mod 64)" by (simp only: distrib_left ac_simps)
  have "d mod 64 < 64" "n mod 64 < 64" by simp_all
  note lt = this
  show "d mod 64 + n mod 64 < 64 \<Longrightarrow> (d + n) div 64 = d div 64 + n div 64 \<and> (d + n) mod 64 = d mod 64 + n mod 64"
    by (metis e div_mult_self4 div_less add.right_neutral mod_mult_self4 mod_less zero_neq_numeral)
  assume c: "64 \<le> d mod 64 + n mod 64"
  have e2: "d + n = 64 * Suc (d div 64 + n div 64) + (d mod 64 + n mod 64 - 64)" using e c by simp
  have "d mod 64 + n mod 64 - 64 < 64" using lt by linarith
  then show "(d + n) div 64 = Suc (d div 64 + n div 64) \<and> (d + n) mod 64 = d mod 64 + n mod 64 - 64"
    by (metis e2 div_mult_self4 div_less add.right_neutral mod_mult_self4 mod_less zero_neq_numeral)
qed

text \<open>Word \<open>j\<close> of the source with the bits outside the bitmap cleared.\<close>

definition clean_word :: "bitmap \<Rightarrow> size_t \<Rightarrow> nat \<Rightarrow> u64" where
  "clean_word src bits j = (if j < (bits - 1) div 64 then src ! j
     else if j = (bits - 1) div 64 then src ! j AND BITMAP_LAST_WORD_MASK bits else 0)"

lemma bit_clean_word:
  assumes "map_ok src bits"
  shows "bit (clean_word src bits (d div 64)) (d mod 64) \<longleftrightarrow> d \<in> map_elems src bits"
proof -
  have pos: "0 < bits" using assms by (simp add: map_ok_def)
  consider "d div 64 < (bits - 1) div 64" | "d div 64 = (bits - 1) div 64" | "(bits - 1) div 64 < d div 64" by (rule linorder_cases)
  then show ?thesis
  proof cases
    case 1
    then show ?thesis using word_before_last [OF 1] by (simp add: clean_word_def map_elems_def arr_bit_def)
  next
    case 2
    then show ?thesis using bit_LAST_word [OF pos map_ok_sizes(1) [OF assms] 2] by (auto simp: clean_word_def map_elems_def arr_bit_def bit_and_iff)
  next
    case 3
    then have "\<not> d < bits" using word_of_bit by (meson leD)
    then show ?thesis using 3 by (simp add: clean_word_def map_elems_def)
  qed
qed

text \<open>What the shifted words hold.\<close>

definition right_word :: "bitmap \<Rightarrow> size_t \<Rightarrow> nat \<Rightarrow> nat \<Rightarrow> u64" where
  "right_word src bits n j = (if n mod 64 = 0 then clean_word src bits (j + n div 64)
     else push_bit (64 - n mod 64) (clean_word src bits (j + n div 64 + 1)) OR drop_bit (n mod 64) (clean_word src bits (j + n div 64)))"

lemma bit_right_word:
  assumes "map_ok src bits"
  shows "bit (right_word src bits n (c div 64)) (c mod 64) \<longleftrightarrow> c + n \<in> map_elems src bits"
proof (cases "c mod 64 + n mod 64 < 64")
  case True
  then show ?thesis
    using add_div_mod(1) [OF True] bit_clean_word [OF assms, of "c + n"]
    by (auto simp: right_word_def bit_or_iff bit_push_bit_iff bit_drop_bit_eq add.commute)
next
  case False
  then have c: "64 \<le> c mod 64 + n mod 64" by simp
  moreover have "\<not> bit (clean_word src bits (c div 64 + n div 64)) (n mod 64 + c mod 64)"
    using c bit_imp_le_length [of "clean_word src bits (c div 64 + n div 64)" "n mod 64 + c mod 64"] by auto
  moreover have "64 - n mod 64 \<le> c mod 64" using c by (simp add: le_diff_conv)
  ultimately show ?thesis
    using add_div_mod(2) [OF c] bit_clean_word [OF assms, of "c + n"]
    by (auto simp: right_word_def bit_or_iff bit_push_bit_iff bit_drop_bit_eq)
qed

lemma shift_right_words:
  assumes "map_ok bm bits" "map_ok src bits" "n < bits"
  shows "\<exists>bm'. bitmap_shift_right bm src n bits = Some bm' \<and> length bm' = length bm \<and>
    (\<forall>j\<le>(bits - 1) div 64. bm' ! j = right_word src bits n j)"
proof -
  define q nb k where "q = (bits - 1) div 64" and "nb = n div 64" and "k = n mod 64"
  note sz = map_ok_sizes [OF assms(1), folded q_def]
  have cw: "clean_word src bits j = (if j < q then src ! j else if j = q then src ! j AND BITMAP_LAST_WORD_MASK bits else 0)" for j
    unfolding clean_word_def q_def by (rule refl)
  have rw: "right_word src bits n j = (if k = 0 then clean_word src bits (j + nb)
      else push_bit (64 - k) (clean_word src bits (j + nb + 1)) OR drop_bit k (clean_word src bits (j + nb)))" for j
    unfolding right_word_def nb_def k_def by (rule refl)
  have src: "q < length src" using map_ok_sizes(4) [OF assms(2)] by (simp add: q_def)
  have nb: "nb \<le> q" unfolding nb_def q_def using assms(3) by (rule word_of_bit)
  have sub: "sz_sub (BITS_TO_LONGS bits) (Suc 0) = q" "sz_sub q nb = q - nb" "sz_sub (BITS_TO_LONGS bits) nb = Suc q - nb"
    "sz_sub (Suc q - nb) (Suc 0) = q - nb"
    using sz(2,3,5) nb by (simp_all add: sz_sub_small)
  define g where "g = (\<lambda>i. if k = 0 then mem_load src (i + nb) else do {
      low \<leftarrow> mem_load src (i + nb); high \<leftarrow> mem_load src (i + nb + 1);
      let high = (if i + nb + 1 = q then high AND BITMAP_LAST_WORD_MASK bits else high);
      Some (push_bit (64 - k) high OR drop_bit k low) })"
  have "\<forall>i. 0 \<le> i \<and> i < q - nb \<longrightarrow> g i = Some (right_word src bits n i)"
    using src by (auto simp: g_def mem_simps rw cw Let_def)
  then obtain bm1 where bm1: "store_up g bm 0 (q - nb) = Some bm1" "length bm1 = length bm"
      "\<forall>j. bm1 ! j = (if j < q - nb then right_word src bits n j else bm ! j)"
    using store_up_result [of 0 "q - nb" g "right_word src bits n" bm] sz(4) diff_le_self [of q nb] by auto
  define bm2 where "bm2 = bm1[q - nb := right_word src bits n (q - nb)]"
  define bm' where "bm' = (if nb = 0 then bm2 else take (Suc q - nb) bm2 @ replicate nb 0 @ drop (Suc q) bm2)"
  have last: "right_word src bits n (q - nb) = drop_bit k (src ! q AND BITMAP_LAST_WORD_MASK bits)"
    using nb by (simp add: rw cw)
  have "bitmap_shift_right bm src n bits = Some bm'"
    using assms(3) sz(4) src nb bm1(1,2) last
    unfolding bitmap_shift_right_def BITS_PER_LONG_def nb_def [symmetric] k_def [symmetric] Let_def One_nat_def sub
    by (cases "k = 0"; cases "nb = 0") (simp_all add: mem_simps bm'_def bm2_def g_def Let_def mem_write_def)
  moreover have "length bm' = length bm" using bm1(2) sz(4) nb by (simp add: bm'_def bm2_def)
  moreover have "bm' ! j = right_word src bits n j" if j: "j \<le> q" for j
  proof (cases "j \<le> q - nb")
    case True
    then show ?thesis using bm1 sz(4) nb by (auto simp: bm'_def bm2_def nth_append nth_list_update)
  next
    case False
    then have "q < j + nb" by simp
    then have "right_word src bits n j = 0"
      by (simp add: rw cw)
    moreover have "\<not> j < Suc q - nb" "j - (Suc q - nb) < nb" "nb \<noteq> 0" using False j nb by linarith+
    moreover have "length (take (Suc q - nb) bm2) = Suc q - nb" using bm1(2) sz(4) by (simp add: bm2_def)
    ultimately show ?thesis by (simp only: bm'_def nth_append if_False length_replicate if_True nth_replicate)
  qed
  ultimately show ?thesis unfolding q_def by blast
qed

definition left_word :: "bitmap \<Rightarrow> size_t \<Rightarrow> nat \<Rightarrow> nat \<Rightarrow> u64" where
  "left_word src bits n j = (if j < n div 64 then 0
     else if n mod 64 = 0 \<or> j = n div 64 then push_bit (n mod 64) (clean_word src bits (j - n div 64))
     else push_bit (n mod 64) (clean_word src bits (j - n div 64)) OR drop_bit (64 - n mod 64) (src ! (j - n div 64 - 1)))"

lemma bit_left_word:
  assumes "map_ok src bits" "c < bits"
  shows "bit (left_word src bits n (c div 64)) (c mod 64) \<longleftrightarrow> n \<le> c \<and> c - n \<in> map_elems src bits"
proof (cases "n \<le> c")
  case False
  then have "c div 64 < n div 64 \<or> c div 64 = n div 64 \<and> c mod 64 < n mod 64"
    using div_le_mono [of c n 64] mod_le_in_word [of n 64 c] by (metis le_neq_implies_less nat_le_linear not_le)
  then show ?thesis using False by (auto simp: left_word_def bit_push_bit_iff)
next
  case True
  define d where "d = c - n"
  have c: "c = d + n" and db: "d < bits" using True assms(2) by (simp_all add: d_def)
  have src: "bit (src ! (d div 64)) (d mod 64) \<longleftrightarrow> d \<in> map_elems src bits" using db by (simp add: map_elems_def arr_bit_def)
  show ?thesis
  proof (cases "d mod 64 + n mod 64 < 64")
    case nc: True
    have "\<not> bit (src ! (d div 64 - 1)) (64 + d mod 64)" using bit_imp_le_length [of "src ! (d div 64 - 1)" "64 + d mod 64"] by auto
    moreover have "64 - n mod 64 + (d mod 64 + n mod 64) = 64 + d mod 64" using nc by linarith
    ultimately show ?thesis
      using add_div_mod(1) [OF nc] bit_clean_word [OF assms(1), of d] c nc
      by (auto simp: left_word_def bit_or_iff bit_push_bit_iff bit_drop_bit_eq)
  next
    case False
    then have cr: "64 \<le> d mod 64 + n mod 64" by simp
    have lt: "d mod 64 < 64" "n mod 64 < 64" by simp_all
    then have "0 < n mod 64" "d mod 64 + n mod 64 - 64 < n mod 64" "64 - n mod 64 + (d mod 64 + n mod 64 - 64) = d mod 64"
      using cr by linarith+
    then show ?thesis
      using add_div_mod(2) [OF cr] src c by (auto simp: left_word_def bit_or_iff bit_push_bit_iff bit_drop_bit_eq)
  qed
qed

lemma shift_left_words:
  assumes "map_ok bm bits" "map_ok src bits" "n < bits"
  shows "\<exists>bm'. bitmap_shift_left bm src n bits = Some bm' \<and> length bm' = length bm \<and>
    (\<forall>j\<le>(bits - 1) div 64. bm' ! j = left_word src bits n j)"
proof -
  define q nb k where "q = (bits - 1) div 64" and "nb = n div 64" and "k = n mod 64"
  note sz = map_ok_sizes [OF assms(1), folded q_def]
  have cw: "clean_word src bits j = (if j < q then src ! j else if j = q then src ! j AND BITMAP_LAST_WORD_MASK bits else 0)" for j
    unfolding clean_word_def q_def by (rule refl)
  have lw: "left_word src bits n j = (if j < nb then 0 else if k = 0 \<or> j = nb then push_bit k (clean_word src bits (j - nb))
      else push_bit k (clean_word src bits (j - nb)) OR drop_bit (64 - k) (src ! (j - nb - 1)))" for j
    unfolding left_word_def nb_def k_def by (rule refl)
  have src: "q < length src" using map_ok_sizes(4) [OF assms(2)] by (simp add: q_def)
  have nb: "nb \<le> q" unfolding nb_def q_def using assms(3) by (rule word_of_bit)
  have sub: "sz_sub (BITS_TO_LONGS bits) (Suc 0) = q" "sz_sub (BITS_TO_LONGS bits) nb = Suc q - nb" "sz_sub (Suc q - nb) (Suc 0) = q - nb"
    using sz(2,3,5) nb by (simp_all add: sz_sub_small)
  define lh where "lh = (\<lambda>i. map_option (\<lambda>high. if i = q then high AND BITMAP_LAST_WORD_MASK bits else high) (mem_load src i))"
  have lh: "lh i = Some (clean_word src bits i)" if "i \<le> q" for i using that src by (simp add: lh_def cw mem_simps)
  define g where "g = (if k = 0 then lh else (\<lambda>i. do { low \<leftarrow> mem_load src (i - 1); high \<leftarrow> lh i;
      Some (push_bit k high OR drop_bit (64 - k) low) }))"
  have "\<forall>i. 0 < i \<and> i \<le> q - nb \<longrightarrow> g i = Some (left_word src bits n (i + nb))"
    using src nb by (auto simp: g_def lh lw mem_simps)
  then obtain bm1 where bm1: "store_down g bm nb (q - nb) = Some bm1" "length bm1 = length bm"
      "\<forall>j. bm1 ! j = (if nb < j \<and> j \<le> q - nb + nb then left_word src bits n (j - nb + nb) else bm ! j)"
    using store_down_result [of "q - nb" g "\<lambda>i. left_word src bits n (i + nb)" nb bm] sz(4) nb by auto
  define bm2 where "bm2 = bm1[nb := left_word src bits n nb]"
  define bm' where "bm' = (if nb = 0 then bm2 else replicate nb 0 @ drop nb bm2)"
  have low: "left_word src bits n nb = push_bit k (if q = 0 then src ! 0 AND BITMAP_LAST_WORD_MASK bits else src ! 0)"
    by (simp add: lw cw)
  have "mem_load src 0 = Some (src ! 0)" using src by (cases src) (simp_all add: mem_load_def)
  moreover have "mem_store bm1 nb v = Some (bm1[nb := v])" for v using bm1(2) sz(4) nb by (simp add: mem_store_def)
  ultimately have "bitmap_shift_left bm src n bits = Some bm'"
    using assms(3) sz(4) nb bm1(1,2) low
    unfolding bitmap_shift_left_def BITS_PER_LONG_def nb_def [symmetric] k_def [symmetric] Let_def One_nat_def sub
    by (cases "k = 0"; cases "nb = 0") (simp_all add: mem_simps bm'_def bm2_def g_def lh_def mem_write_def)
  moreover have "length bm' = length bm" using bm1(2) sz(4) nb by (simp add: bm'_def bm2_def)
  moreover have "bm' ! j = left_word src bits n j" if j: "j \<le> q" for j
  proof (cases "j < nb")
    case True
    then show ?thesis by (simp add: bm'_def nth_append lw)
  next
    case False
    then have "bm2 ! j = left_word src bits n j"
      using j nb bm1(2,3) sz(4) by (cases "j = nb") (simp_all add: bm2_def)
    moreover have "length bm2 = length bm" using bm1(2) by (simp add: bm2_def)
    ultimately show ?thesis using False sz(4) j by (cases "nb = 0") (simp_all add: bm'_def nth_append)
  qed
  ultimately show ?thesis unfolding q_def by blast
qed

lemma shift_yields:
  assumes "map_ok bm bits" "map_ok src bits" "n < bits"
  shows "yields (bitmap_shift_right bm src n bits) bm bits {c. c + n \<in> map_elems src bits}"
    "yields (bitmap_shift_left bm src n bits) bm bits {c \<in> (\<lambda>c. c + n) ` map_elems src bits. c < bits}"
proof -
  obtain r where r: "bitmap_shift_right bm src n bits = Some r" "length r = length bm" "\<forall>j\<le>(bits - 1) div 64. r ! j = right_word src bits n j"
    using shift_right_words [OF assms] by blast
  have "arr_bit r c \<longleftrightarrow> c + n \<in> map_elems src bits" if "c < bits" for c
    using r(3) word_of_bit [OF that] bit_right_word [OF assms(2), of n c] by (simp add: arr_bit_def)
  then have "map_elems r bits = {c. c + n \<in> map_elems src bits}" by (auto simp: map_elems_def)
  with r show "yields (bitmap_shift_right bm src n bits) bm bits {c. c + n \<in> map_elems src bits}" by (simp add: yields_def)
  obtain s where s: "bitmap_shift_left bm src n bits = Some s" "length s = length bm" "\<forall>j\<le>(bits - 1) div 64. s ! j = left_word src bits n j"
    using shift_left_words [OF assms] by blast
  have "arr_bit s c \<longleftrightarrow> n \<le> c \<and> c - n \<in> map_elems src bits" if "c < bits" for c
    using s(3) word_of_bit [OF that] bit_left_word [OF assms(2) that, of n] by (simp add: arr_bit_def)
  then have "map_elems s bits = {c \<in> (\<lambda>c. c + n) ` map_elems src bits. c < bits}" by (auto simp: map_elems_def image_iff) (metis le_add_diff_inverse2)
  with s show "yields (bitmap_shift_left bm src n bits) bm bits {c \<in> (\<lambda>c. c + n) ` map_elems src bits. c < bits}" by (simp add: yields_def)
qed

subsection \<open>Properties\<close>

text \<open>
  C16. The bitmap operations implement sets of bit numbers below \<open>bits\<close>: clearing, filling, copying, union,
  intersection, difference, symmetric difference and complement succeed without leaving their
  arrays, keep the length of the destination and leave exactly the set they stand for.
\<close>

theorem bitmap_algebra:
  assumes "map_ok bm bits" "map_ok a bits" "map_ok b bits"
  shows "yields (bitmap_zero bm bits) bm bits {} \<and> yields (bitmap_fill bm bits) bm bits {..<bits} \<and>
    yields (bitmap_copy bm a bits) bm bits (map_elems a bits) \<and>
    yields (bitmap_or bm a b bits) bm bits (map_elems a bits \<union> map_elems b bits) \<and>
    yields (bitmap_and bm a b bits) bm bits (map_elems a bits \<inter> map_elems b bits) \<and>
    yields (bitmap_andnot bm a b bits) bm bits (map_elems a bits - map_elems b bits) \<and>
    yields (bitmap_xor bm a b bits) bm bits ((map_elems a bits - map_elems b bits) \<union> (map_elems b bits - map_elems a bits)) \<and>
    yields (bitmap_complement bm a bits) bm bits ({..<bits} - map_elems a bits)"
  using assms by (intro conjI zero_yields fill_yields copy_yields or_yields and_yields andnot_yields xor_yields complement_yields)

theorem bitmap_algebra_witness:
  "yields (bitmap_zero [7, 7] 70) [7, 7] 70 {} \<and> yields (bitmap_fill [7, 7] 70) [7, 7] 70 {..<70} \<and>
    yields (bitmap_copy [7, 7] [1, 2] 70) [7, 7] 70 (map_elems [1, 2] 70) \<and>
    yields (bitmap_or [7, 7] [1, 2] [3, 4] 70) [7, 7] 70 (map_elems [1, 2] 70 \<union> map_elems [3, 4] 70) \<and>
    yields (bitmap_and [7, 7] [1, 2] [3, 4] 70) [7, 7] 70 (map_elems [1, 2] 70 \<inter> map_elems [3, 4] 70) \<and>
    yields (bitmap_andnot [7, 7] [1, 2] [3, 4] 70) [7, 7] 70 (map_elems [1, 2] 70 - map_elems [3, 4] 70) \<and>
    yields (bitmap_xor [7, 7] [1, 2] [3, 4] 70) [7, 7] 70 ((map_elems [1, 2] 70 - map_elems [3, 4] 70) \<union> (map_elems [3, 4] 70 - map_elems [1, 2] 70)) \<and>
    yields (bitmap_complement [7, 7] [1, 2] 70) [7, 7] 70 ({..<70} - map_elems [1, 2] 70)"
  by (rule bitmap_algebra) (simp_all add: map_ok_def)

text \<open>
  C24. The queries answer the corresponding questions about sets: equality, intersection, inclusion,
  emptiness, fullness and the number of elements. Bits outside the bitmap do not matter.
\<close>

theorem bitmap_queries:
  assumes "map_ok a bits" "map_ok b bits"
  shows "bitmap_equal a b bits = Some (map_elems a bits = map_elems b bits) \<and>
    bitmap_intersects a b bits = Some (map_elems a bits \<inter> map_elems b bits \<noteq> {}) \<and>
    bitmap_subset a b bits = Some (map_elems a bits \<subseteq> map_elems b bits) \<and>
    bitmap_empty a bits = Some (map_elems a bits = {}) \<and>
    bitmap_full a bits = Some (map_elems a bits = {..<bits}) \<and>
    bitmap_weight a bits = Some (card (map_elems a bits))"
  using assms by (intro conjI equal_elems intersects_elems subset_elems empty_elems full_elems weight_card)

theorem bitmap_queries_witness:
  "bitmap_equal [1, 2] [3, 4] 70 = Some (map_elems [1, 2] 70 = map_elems [3, 4] 70) \<and>
    bitmap_intersects [1, 2] [3, 4] 70 = Some (map_elems [1, 2] 70 \<inter> map_elems [3, 4] 70 \<noteq> {}) \<and>
    bitmap_subset [1, 2] [3, 4] 70 = Some (map_elems [1, 2] 70 \<subseteq> map_elems [3, 4] 70) \<and>
    bitmap_empty [1, 2] 70 = Some (map_elems [1, 2] 70 = {}) \<and>
    bitmap_full [1, 2] 70 = Some (map_elems [1, 2] 70 = {..<70}) \<and>
    bitmap_weight [1, 2] 70 = Some (card (map_elems [1, 2] 70))"
  by (rule bitmap_queries) (simp_all add: map_ok_def)

text \<open>
  C19. Searching and iterating: \<open>find_next_bit\<close> and \<open>find_next_zero_bit\<close> return the first set or clear bit
  from the start on, and the number of bits when there is none; the loops of \<open>for_each_set_bit\<close> and
  \<open>for_each_clear_bit\<close> end and visit exactly the set or clear bits, in increasing order.
\<close>

theorem bitmap_search:
  assumes "map_ok bm bits"
  shows "find_next_bit bm bits start = Some (next_pos (arr_bit bm) bits start) \<and>
    find_next_zero_bit bm bits start = Some (next_pos (\<lambda>c. \<not> arr_bit bm c) bits start) \<and>
    for_each_set_bit bm bits = Some (filter (arr_bit bm) [0..<bits]) \<and>
    for_each_clear_bit bm bits = Some (filter (\<lambda>c. \<not> arr_bit bm c) [0..<bits])"
  using assms by (simp add: find_next_bit_result find_next_zero_bit_result for_each_set_bit_def for_each_clear_bit_def
    find_first_bit_def find_first_zero_bit_def for_each_set_from_result for_each_clear_from_result)

theorem bitmap_search_witness:
  "find_next_bit [1, 2] 70 3 = Some (next_pos (arr_bit [1, 2 :: u64]) 70 3) \<and>
    find_next_zero_bit [1, 2] 70 3 = Some (next_pos (\<lambda>c. \<not> arr_bit [1, 2 :: u64] c) 70 3) \<and>
    for_each_set_bit [1, 2] 70 = Some (filter (arr_bit [1, 2 :: u64]) [0..<70]) \<and>
    for_each_clear_bit [1, 2] 70 = Some (filter (\<lambda>c. \<not> arr_bit [1, 2 :: u64] c) [0..<70])"
  by (rule bitmap_search) (simp add: map_ok_def)

text \<open>
  C22. Ranges and shifts: \<open>bitmap_set\<close> and \<open>bitmap_clear\<close> add and remove the range of bits and nothing else,
  within the array; the shifts by less than the size of the bitmap move every bit by \<open>n\<close> places and
  drop those that leave the bitmap.
\<close>

theorem bitmap_ranges_shifts:
  assumes "start + len \<le> 64 * length m" "64 * length m < 2 ^ 64"
    and "map_ok bm bits" "map_ok src bits" "n < bits"
  shows "(\<exists>r. bitmap_set m start len = Some r \<and> length r = length m \<and> arr_elems r = arr_elems m \<union> {start..<start + len}) \<and>
    (\<exists>r. bitmap_clear m start len = Some r \<and> length r = length m \<and> arr_elems r = arr_elems m - {start..<start + len}) \<and>
    yields (bitmap_shift_right bm src n bits) bm bits {c. c + n \<in> map_elems src bits} \<and>
    yields (bitmap_shift_left bm src n bits) bm bits {c \<in> (\<lambda>c. c + n) ` map_elems src bits. c < bits}"
  using assms by (intro conjI set_clear_range shift_yields)

theorem bitmap_ranges_shifts_witness:
  "(\<exists>r. bitmap_set [0, 0] 60 20 = Some r \<and> length r = length [0, 0 :: u64] \<and> arr_elems r = arr_elems [0, 0 :: u64] \<union> {60..<60 + 20}) \<and>
    (\<exists>r. bitmap_clear [0, 0] 60 20 = Some r \<and> length r = length [0, 0 :: u64] \<and> arr_elems r = arr_elems [0, 0 :: u64] - {60..<60 + 20}) \<and>
    yields (bitmap_shift_right [0, 0] [1, 2] 65 70) [0, 0] 70 {c. c + 65 \<in> map_elems [1, 2] 70} \<and>
    yields (bitmap_shift_left [0, 0] [1, 2] 65 70) [0, 0] 70 {c \<in> (\<lambda>c. c + 65) ` map_elems [1, 2] 70. c < 70}"
  by (rule bitmap_ranges_shifts) (simp_all add: map_ok_def)

text \<open>
  A right shift by exactly the size of a bitmap of whole words computes the index \<open>-1\<close> and leaves the
  array, where the left shift by the same amount clears the bitmap; every operation that computes \<open>l - 1\<close> leaves the
  array when the bitmap has no bits.
\<close>

theorem bitmap_shift_right_all: "bitmap_shift_right [0] [0] 64 64 = None \<and> bitmap_shift_left [0] [0] 64 64 = Some [0]"
  by (simp add: bitmap_shift_right_def bitmap_shift_left_def Let_def BITS_PER_LONG_def BITS_TO_LONGS_def BITOPS_DIV_CEIL_def
    sz_sub_wrap store_up.simps mem_load_def mem_store_def bitmap_zero_def mem_write_def)

theorem bitmap_no_bits: "bitmap_fill [0] 0 = None \<and> bitmap_complement [] [] 0 = None"
  by (simp add: bitmap_fill_def bitmap_complement_def Let_def BITS_PER_LONG_def BITS_TO_LONGS_def BITOPS_DIV_CEIL_def
    sz_sub_wrap store_up.simps mem_load_def mem_store_def)

end
