(* ===== verification/Kernel_List.thy ===== *)
theory Kernel_List
  imports Interfaces
begin

text \<open>
  The doubly linked lists of \<open>linux_list.h\<close>.

  Memory is one map per field from addresses to values, as in Burstall's model; an address outside the
  domain is not a \<open>list_head\<close>, and a step through it (a null or poisoned pointer) makes the operation return \<open>None\<close>. The
  assignments of every function happen in the order of the source, so aliasing between the
  arguments (a list with one element, a list spliced after its own head) is what the source makes
  of it. The iteration macros are loops with a body that may change the memory; they
  need not end on a broken list and are partial functions. \<open>container_of\<close> subtracts the offset of
  the member.
\<close>

subsection \<open>Definitions\<close>

type_synonym addr = u64

record list_mem =
  nx :: "addr \<rightharpoonup> addr"
  pv :: "addr \<rightharpoonup> addr"

definition LIST_POISON1 :: addr where "LIST_POISON1 = 0x00100100"
definition LIST_POISON2 :: addr where "LIST_POISON2 = 0x00200200"

definition set_next :: "addr \<Rightarrow> addr \<Rightarrow> list_mem \<Rightarrow> list_mem option" where
  "set_next p v h = (if p \<in> dom (nx h) then Some (h\<lparr>nx := (nx h)(p \<mapsto> v)\<rparr>) else None)"

definition set_prev :: "addr \<Rightarrow> addr \<Rightarrow> list_mem \<Rightarrow> list_mem option" where
  "set_prev p v h = (if p \<in> dom (pv h) then Some (h\<lparr>pv := (pv h)(p \<mapsto> v)\<rparr>) else None)"

definition container_of :: "addr \<Rightarrow> addr \<Rightarrow> addr" where
  "container_of ptr off = (if ptr \<noteq> 0 then ptr - off else 0)"

definition INIT_LIST_HEAD :: "addr \<Rightarrow> list_mem \<Rightarrow> list_mem option" where
  "INIT_LIST_HEAD list h = do { h \<leftarrow> set_next list list h; set_prev list list h }"

definition raw_list_add :: "addr \<Rightarrow> addr \<Rightarrow> addr \<Rightarrow> list_mem \<Rightarrow> list_mem option" where
  "raw_list_add new1 prev next h = do {
     h \<leftarrow> set_prev next new1 h;
     h \<leftarrow> set_next new1 next h;
     h \<leftarrow> set_prev new1 prev h;
     set_next prev new1 h }"

definition list_add :: "addr \<Rightarrow> addr \<Rightarrow> list_mem \<Rightarrow> list_mem option" where
  "list_add new1 head h = do { n \<leftarrow> nx h head; raw_list_add new1 head n h }"

definition list_add_tail :: "addr \<Rightarrow> addr \<Rightarrow> list_mem \<Rightarrow> list_mem option" where
  "list_add_tail new1 head h = do { p \<leftarrow> pv h head; raw_list_add new1 p head h }"

definition raw_list_del :: "addr \<Rightarrow> addr \<Rightarrow> list_mem \<Rightarrow> list_mem option" where
  "raw_list_del prev next h = do { h \<leftarrow> set_prev next prev h; set_next prev next h }"

definition list_del_entry :: "addr \<Rightarrow> list_mem \<Rightarrow> list_mem option" where
  "list_del_entry entry h = do { p \<leftarrow> pv h entry; n \<leftarrow> nx h entry; raw_list_del p n h }"

definition list_del :: "addr \<Rightarrow> list_mem \<Rightarrow> list_mem option" where
  "list_del entry h = do {
     p \<leftarrow> pv h entry; n \<leftarrow> nx h entry;
     h \<leftarrow> raw_list_del p n h;
     h \<leftarrow> set_next entry LIST_POISON1 h;
     set_prev entry LIST_POISON2 h }"

definition list_replace :: "addr \<Rightarrow> addr \<Rightarrow> list_mem \<Rightarrow> list_mem option" where
  "list_replace old new1 h = do {
     n \<leftarrow> nx h old;
     h \<leftarrow> set_next new1 n h;
     n \<leftarrow> nx h new1; h \<leftarrow> set_prev n new1 h;
     p \<leftarrow> pv h old; h \<leftarrow> set_prev new1 p h;
     p \<leftarrow> pv h new1; set_next p new1 h }"

definition list_replace_init :: "addr \<Rightarrow> addr \<Rightarrow> list_mem \<Rightarrow> list_mem option" where
  "list_replace_init old new1 h = do { h \<leftarrow> list_replace old new1 h; INIT_LIST_HEAD old h }"

definition list_del_init :: "addr \<Rightarrow> list_mem \<Rightarrow> list_mem option" where
  "list_del_init entry h = do { h \<leftarrow> list_del_entry entry h; INIT_LIST_HEAD entry h }"

definition list_move :: "addr \<Rightarrow> addr \<Rightarrow> list_mem \<Rightarrow> list_mem option" where
  "list_move list head h = do { h \<leftarrow> list_del_entry list h; list_add list head h }"

definition list_move_tail :: "addr \<Rightarrow> addr \<Rightarrow> list_mem \<Rightarrow> list_mem option" where
  "list_move_tail list head h = do { h \<leftarrow> list_del_entry list h; list_add_tail list head h }"

definition list_is_last :: "addr \<Rightarrow> addr \<Rightarrow> list_mem \<Rightarrow> bool option" where
  "list_is_last list head h = do { n \<leftarrow> nx h list; Some (n = head) }"

definition list_empty :: "addr \<Rightarrow> list_mem \<Rightarrow> bool option" where
  "list_empty head h = do { n \<leftarrow> nx h head; Some (n = head) }"

definition list_empty_careful :: "addr \<Rightarrow> list_mem \<Rightarrow> bool option" where
  "list_empty_careful head h = do {
     next \<leftarrow> nx h head;
     if next = head then do { p \<leftarrow> pv h head; Some (next = p) } else Some False }"

definition list_rotate_left :: "addr \<Rightarrow> list_mem \<Rightarrow> list_mem option" where
  "list_rotate_left head h = do {
     e \<leftarrow> list_empty head h;
     if \<not> e then do { first \<leftarrow> nx h head; list_move_tail first head h } else Some h }"

definition list_is_singular :: "addr \<Rightarrow> list_mem \<Rightarrow> bool option" where
  "list_is_singular head h = do {
     e \<leftarrow> list_empty head h;
     if \<not> e then do { n \<leftarrow> nx h head; p \<leftarrow> pv h head; Some (n = p) } else Some False }"

definition raw_list_cut_position :: "addr \<Rightarrow> addr \<Rightarrow> addr \<Rightarrow> list_mem \<Rightarrow> list_mem option" where
  "raw_list_cut_position list head entry h = do {
     new_first \<leftarrow> nx h entry;
     n \<leftarrow> nx h head; h \<leftarrow> set_next list n h;
     n \<leftarrow> nx h list; h \<leftarrow> set_prev n list h;
     h \<leftarrow> set_prev list entry h;
     h \<leftarrow> set_next entry list h;
     h \<leftarrow> set_next head new_first h;
     set_prev new_first head h }"

definition list_cut_position :: "addr \<Rightarrow> addr \<Rightarrow> addr \<Rightarrow> list_mem \<Rightarrow> list_mem option" where
  "list_cut_position list head entry h = do {
     e \<leftarrow> list_empty head h;
     if e then Some h
     else do {
       s \<leftarrow> list_is_singular head h;
       n \<leftarrow> nx h head;
       if s \<and> (n \<noteq> entry \<and> head \<noteq> entry) then Some h
       else if entry = head then INIT_LIST_HEAD list h
       else raw_list_cut_position list head entry h } }"

definition raw_list_splice :: "addr \<Rightarrow> addr \<Rightarrow> addr \<Rightarrow> list_mem \<Rightarrow> list_mem option" where
  "raw_list_splice list prev next h = do {
     first \<leftarrow> nx h list;
     last \<leftarrow> pv h list;
     h \<leftarrow> set_prev first prev h;
     h \<leftarrow> set_next prev first h;
     h \<leftarrow> set_next last next h;
     set_prev next last h }"

definition list_splice :: "addr \<Rightarrow> addr \<Rightarrow> list_mem \<Rightarrow> list_mem option" where
  "list_splice list head h = do {
     e \<leftarrow> list_empty list h;
     if \<not> e then do { n \<leftarrow> nx h head; raw_list_splice list head n h } else Some h }"

definition list_splice_tail :: "addr \<Rightarrow> addr \<Rightarrow> list_mem \<Rightarrow> list_mem option" where
  "list_splice_tail list head h = do {
     e \<leftarrow> list_empty list h;
     if \<not> e then do { p \<leftarrow> pv h head; raw_list_splice list p head h } else Some h }"

definition list_splice_init :: "addr \<Rightarrow> addr \<Rightarrow> list_mem \<Rightarrow> list_mem option" where
  "list_splice_init list head h = do {
     e \<leftarrow> list_empty list h;
     if \<not> e then do { n \<leftarrow> nx h head; h \<leftarrow> raw_list_splice list head n h; INIT_LIST_HEAD list h } else Some h }"

definition list_splice_tail_init :: "addr \<Rightarrow> addr \<Rightarrow> list_mem \<Rightarrow> list_mem option" where
  "list_splice_tail_init list head h = do {
     e \<leftarrow> list_empty list h;
     if \<not> e then do { p \<leftarrow> pv h head; h \<leftarrow> raw_list_splice list p head h; INIT_LIST_HEAD list h } else Some h }"

text \<open>Entries: the address of the structure that holds the list node at offset \<open>off\<close>.\<close>

definition list_entry :: "addr \<Rightarrow> addr \<Rightarrow> addr" where
  "list_entry ptr off = container_of ptr off"

definition list_first_entry :: "addr \<Rightarrow> addr \<Rightarrow> list_mem \<Rightarrow> addr option" where
  "list_first_entry ptr off h = map_option (\<lambda>n. list_entry n off) (nx h ptr)"

definition list_last_entry :: "addr \<Rightarrow> addr \<Rightarrow> list_mem \<Rightarrow> addr option" where
  "list_last_entry ptr off h = map_option (\<lambda>p. list_entry p off) (pv h ptr)"

definition list_first_entry_or_null :: "addr \<Rightarrow> addr \<Rightarrow> list_mem \<Rightarrow> addr option" where
  "list_first_entry_or_null ptr off h = do {
     e \<leftarrow> list_empty ptr h; if \<not> e then list_first_entry ptr off h else Some 0 }"

definition list_next_entry :: "addr \<Rightarrow> addr \<Rightarrow> list_mem \<Rightarrow> addr option" where
  "list_next_entry pos off h = map_option (\<lambda>n. list_entry n off) (nx h (pos + off))"

definition list_prev_entry :: "addr \<Rightarrow> addr \<Rightarrow> list_mem \<Rightarrow> addr option" where
  "list_prev_entry pos off h = map_option (\<lambda>p. list_entry p off) (pv h (pos + off))"

definition list_prepare_entry :: "addr \<Rightarrow> addr \<Rightarrow> addr \<Rightarrow> addr" where
  "list_prepare_entry pos head off = (if pos \<noteq> 0 then pos else list_entry head off)"

definition list_safe_reset_next :: "addr \<Rightarrow> addr \<Rightarrow> list_mem \<Rightarrow> addr option" where
  "list_safe_reset_next pos off h = list_next_entry pos off h"

text \<open>
  Loops: \<open>stop\<close> is the negated loop condition, \<open>step\<close> the advance, which reads the memory after the body. The
  safe variants advance the second cursor \<open>n\<close>, read before the body.
\<close>

partial_function (option) each_loop ::
  "(addr \<Rightarrow> bool) \<Rightarrow> (addr \<Rightarrow> list_mem \<Rightarrow> addr option) \<Rightarrow> (addr \<Rightarrow> 's \<Rightarrow> list_mem \<Rightarrow> ('s \<times> list_mem) option) \<Rightarrow>
   addr \<Rightarrow> 's \<Rightarrow> list_mem \<Rightarrow> ('s \<times> list_mem) option" where
  "each_loop stop step body pos s h =
     (if stop pos then Some (s, h)
      else Option.bind (body pos s h) (\<lambda>sh. Option.bind (step pos (snd sh)) (\<lambda>pos'.
             each_loop stop step body pos' (fst sh) (snd sh))))"

partial_function (option) each_loop_safe ::
  "(addr \<Rightarrow> bool) \<Rightarrow> (addr \<Rightarrow> list_mem \<Rightarrow> addr option) \<Rightarrow> (addr \<Rightarrow> 's \<Rightarrow> list_mem \<Rightarrow> ('s \<times> list_mem) option) \<Rightarrow>
   addr \<Rightarrow> addr \<Rightarrow> 's \<Rightarrow> list_mem \<Rightarrow> ('s \<times> list_mem) option" where
  "each_loop_safe stop step body pos n s h =
     (if stop pos then Some (s, h)
      else Option.bind (body pos s h) (\<lambda>sh. Option.bind (step n (snd sh)) (\<lambda>n'.
             each_loop_safe stop step body n n' (fst sh) (snd sh))))"

definition list_for_each :: "(addr \<Rightarrow> 's \<Rightarrow> list_mem \<Rightarrow> ('s \<times> list_mem) option) \<Rightarrow> addr \<Rightarrow> 's \<Rightarrow> list_mem \<Rightarrow> ('s \<times> list_mem) option" where
  "list_for_each body head s h = do { pos \<leftarrow> nx h head; each_loop (\<lambda>pos. pos = head) (\<lambda>pos h. nx h pos) body pos s h }"


definition list_for_each_safe :: "(addr \<Rightarrow> 's \<Rightarrow> list_mem \<Rightarrow> ('s \<times> list_mem) option) \<Rightarrow> addr \<Rightarrow> 's \<Rightarrow> list_mem \<Rightarrow> ('s \<times> list_mem) option" where
  "list_for_each_safe body head s h = do {
     pos \<leftarrow> nx h head; n \<leftarrow> nx h pos; each_loop_safe (\<lambda>pos. pos = head) (\<lambda>pos h. nx h pos) body pos n s h }"




definition list_for_each_entry_continue :: "(addr \<Rightarrow> 's \<Rightarrow> list_mem \<Rightarrow> ('s \<times> list_mem) option) \<Rightarrow> addr \<Rightarrow> addr \<Rightarrow> addr \<Rightarrow> 's \<Rightarrow> list_mem \<Rightarrow> ('s \<times> list_mem) option" where
  "list_for_each_entry_continue body off head pos s h = do {
     pos \<leftarrow> list_next_entry pos off h;
     each_loop (\<lambda>pos. pos + off = head) (\<lambda>pos h. list_next_entry pos off h) body pos s h }"







subsection \<open>Lists in memory\<close>

text \<open>
  \<open>seg N P a xs b\<close>: from \<open>a\<close> the next pointers lead through \<open>xs\<close> to \<open>b\<close>, and the previous pointers lead back. A
  list with head \<open>hdr\<close> is such a segment from the head to itself.
\<close>

fun seg :: "(addr \<rightharpoonup> addr) \<Rightarrow> (addr \<rightharpoonup> addr) \<Rightarrow> addr \<Rightarrow> addr list \<Rightarrow> addr \<Rightarrow> bool" where
  "seg N P a [] b \<longleftrightarrow> N a = Some b \<and> P b = Some a"
| "seg N P a (x # xs) b \<longleftrightarrow> N a = Some x \<and> P x = Some a \<and> seg N P x xs b"

definition dlist :: "list_mem \<Rightarrow> addr \<Rightarrow> addr list \<Rightarrow> bool" where
  "dlist h hdr xs \<longleftrightarrow> distinct (hdr # xs) \<and> seg (nx h) (pv h) hdr xs hdr"

text \<open>Everything outside \<open>A\<close> is untouched, and no memory appears or disappears.\<close>

definition frame :: "addr set \<Rightarrow> list_mem \<Rightarrow> list_mem \<Rightarrow> bool" where
  "frame A h h' \<longleftrightarrow> (\<forall>p. p \<notin> A \<longrightarrow> nx h' p = nx h p \<and> pv h' p = pv h p) \<and>
     dom (nx h') = dom (nx h) \<and> dom (pv h') = dom (pv h)"

definition node :: "list_mem \<Rightarrow> addr \<Rightarrow> bool" where
  "node h p \<longleftrightarrow> p \<in> dom (nx h) \<and> p \<in> dom (pv h)"

lemma seg_append: "seg N P a (xs @ y # ys) b \<longleftrightarrow> seg N P a xs y \<and> seg N P y ys b"
  by (induction xs arbitrary: a) auto

lemma seg_upd [simp]:
  "p \<notin> insert a (set xs) \<Longrightarrow> seg (N(p \<mapsto> v)) P a xs b = seg N P a xs b"
  "p \<notin> insert b (set xs) \<Longrightarrow> seg N (P(p \<mapsto> v)) a xs b = seg N P a xs b"
  by (induction xs arbitrary: a) auto

lemma seg_cong:
  "\<forall>p \<in> insert a (set xs). N' p = N p \<Longrightarrow> \<forall>p \<in> insert b (set xs). P' p = P p \<Longrightarrow> seg N' P' a xs b = seg N P a xs b"
  by (induction xs arbitrary: a) auto

lemma seg_nodes: "seg N P a xs b \<Longrightarrow> insert a (set xs) \<subseteq> dom N \<and> insert b (set xs) \<subseteq> dom P"
  by (induction xs arbitrary: a) auto

lemma dlist_node: "dlist h hdr xs \<Longrightarrow> p \<in> insert hdr (set xs) \<Longrightarrow> node h p"
  using seg_nodes [of "nx h" "pv h" hdr xs hdr] by (auto simp: dlist_def node_def)

lemma dlist_frame: "dlist h hdr xs \<Longrightarrow> frame A h h' \<Longrightarrow> A \<inter> insert hdr (set xs) = {} \<Longrightarrow> dlist h' hdr xs"
  unfolding dlist_def frame_def by (subst seg_cong [of hdr xs _ "nx h" hdr _ "pv h"]) auto

lemma node_frame: "frame A h h' \<Longrightarrow> node h' p = node h p"
  by (auto simp: frame_def node_def)

lemma frame_trans: "frame A h h' \<Longrightarrow> frame B h' h'' \<Longrightarrow> A \<union> B \<subseteq> C \<Longrightarrow> frame C h h''"
  unfolding frame_def by (metis Un_iff subsetD)

lemma frame_refl: "frame A h h"
  by (simp add: frame_def)

lemmas mem_defs = set_next_def set_prev_def

lemma dlist_ends:
  assumes "dlist h hdr xs"
  shows "nx h hdr = Some (case xs of [] \<Rightarrow> hdr | x # _ \<Rightarrow> x)" "pv h hdr = Some (if xs = [] then hdr else last xs)"
proof -
  show "nx h hdr = Some (case xs of [] \<Rightarrow> hdr | x # _ \<Rightarrow> x)" using assms by (cases xs) (auto simp: dlist_def)
  show "pv h hdr = Some (if xs = [] then hdr else last xs)"
    using assms by (cases xs rule: rev_cases) (auto simp: dlist_def seg_append)
qed

subsection \<open>Insertion\<close>

lemma add_dlist:
  assumes "dlist h hdr xs" "node h e" "e \<notin> insert hdr (set xs)"
  shows "\<exists>h'. list_add e hdr h = Some h' \<and> dlist h' hdr (e # xs) \<and> frame (insert e (insert hdr (set xs))) h h'"
proof (cases xs)
  case Nil
  with assms show ?thesis
    by (auto simp: dlist_def node_def list_add_def raw_list_add_def mem_defs frame_def)
next
  case (Cons y ys)
  with assms dlist_node [OF assms(1), of y] dlist_node [OF assms(1), of hdr] show ?thesis
    by (auto simp: dlist_def node_def list_add_def raw_list_add_def mem_defs frame_def)
qed

lemma add_tail_dlist:
  assumes "dlist h hdr xs" "node h e" "e \<notin> insert hdr (set xs)"
  shows "\<exists>h'. list_add_tail e hdr h = Some h' \<and> dlist h' hdr (xs @ [e]) \<and> frame (insert e (insert hdr (set xs))) h h'"
proof (cases xs rule: rev_cases)
  case Nil
  with assms show ?thesis
    by (auto simp: dlist_def node_def list_add_tail_def raw_list_add_def mem_defs frame_def)
next
  case (snoc ys y)
  with assms dlist_node [OF assms(1), of y] dlist_node [OF assms(1), of hdr] show ?thesis
    by (auto simp: dlist_def node_def list_add_tail_def raw_list_add_def mem_defs frame_def seg_append)
qed


subsection \<open>Removal and replacement\<close>

text \<open>Links around one element of a list, and the deletion of the element between them.\<close>

lemma dlist_links:
  assumes "dlist h hdr (ys @ e # zs)"
  shows "pv h e = Some (last (hdr # ys))" "nx h e = Some (hd (zs @ [hdr]))"
proof -
  show "pv h e = Some (last (hdr # ys))"
    using assms by (cases ys rule: rev_cases) (auto simp: dlist_def seg_append)
  show "nx h e = Some (hd (zs @ [hdr]))"
    using assms by (cases zs) (auto simp: dlist_def seg_append)
qed

lemma raw_del_dlist:
  assumes "dlist h hdr (ys @ e # zs)"
  shows "\<exists>h'. raw_list_del (last (hdr # ys)) (hd (zs @ [hdr])) h = Some h' \<and> dlist h' hdr (ys @ zs)
    \<and> frame (insert hdr (set ys \<union> set zs)) h h'"
  using assms seg_nodes [of "nx h" "pv h" hdr "ys @ e # zs" hdr]
  by (cases ys rule: rev_cases; cases zs)
    (auto simp: dlist_def seg_append raw_list_del_def mem_defs frame_def)

lemma del_entry_dlist:
  assumes "dlist h hdr (ys @ e # zs)"
  shows "\<exists>h'. list_del_entry e h = Some h' \<and> dlist h' hdr (ys @ zs) \<and> frame (insert hdr (set ys \<union> set zs)) h h'"
  using raw_del_dlist [OF assms] by (simp add: list_del_entry_def dlist_links [OF assms])

text \<open>Writing the links of a node outside a list does not change the list.\<close>

lemma set_links_frame:
  assumes "node h e"
  shows "\<exists>h'. Option.bind (set_next e v h) (set_prev e w) = Some h' \<and> frame {e} h h' \<and> nx h' e = Some v \<and> pv h' e = Some w"
  using assms by (auto simp: mem_defs node_def frame_def)

lemma del_dlist:
  assumes "dlist h hdr (ys @ e # zs)"
  shows "\<exists>h'. list_del e h = Some h' \<and> dlist h' hdr (ys @ zs) \<and> node h' e
    \<and> nx h' e = Some LIST_POISON1 \<and> pv h' e = Some LIST_POISON2
    \<and> frame (insert hdr (set (ys @ e # zs))) h h'"
proof -
  from del_entry_dlist [OF assms] obtain h1 where h1: "list_del_entry e h = Some h1" "dlist h1 hdr (ys @ zs)"
    "frame (insert hdr (set ys \<union> set zs)) h h1" by blast
  have e: "node h1 e" using h1(3) dlist_node [OF assms, of e] node_frame by auto
  from set_links_frame [OF this, of LIST_POISON1 LIST_POISON2] obtain h2 where h2:
    "Option.bind (set_next e LIST_POISON1 h1) (set_prev e LIST_POISON2) = Some h2"
    "frame {e} h1 h2" "nx h2 e = Some LIST_POISON1" "pv h2 e = Some LIST_POISON2" by blast
  have "list_del e h = Some h2"
    using h1(1) h2(1) by (auto simp: list_del_def list_del_entry_def dlist_links [OF assms] split: Option.bind_splits)
  moreover have "dlist h2 hdr (ys @ zs)"
    using dlist_frame [OF h1(2) h2(2)] assms by (auto simp: dlist_def)
  moreover have "frame (insert hdr (set (ys @ e # zs))) h h2"
    by (rule frame_trans [OF h1(3) h2(2)]) auto
  ultimately show ?thesis using h2 e node_frame [OF h2(2), of e] by blast
qed

text \<open>An initialised node is an empty list.\<close>

lemma init_dlist:
  assumes "node h e"
  shows "\<exists>h'. INIT_LIST_HEAD e h = Some h' \<and> dlist h' e [] \<and> frame {e} h h'"
  using set_links_frame [OF assms, of e e] by (auto simp: INIT_LIST_HEAD_def dlist_def)

lemma del_init_dlist:
  assumes "dlist h hdr (ys @ e # zs)"
  shows "\<exists>h'. list_del_init e h = Some h' \<and> dlist h' hdr (ys @ zs) \<and> dlist h' e []
    \<and> frame (insert hdr (set (ys @ e # zs))) h h'"
proof -
  from del_entry_dlist [OF assms] obtain h1 where h1: "list_del_entry e h = Some h1" "dlist h1 hdr (ys @ zs)"
    "frame (insert hdr (set ys \<union> set zs)) h h1" by blast
  have e: "node h1 e" using h1(3) dlist_node [OF assms, of e] node_frame by auto
  from init_dlist [OF this] obtain h2 where h2: "INIT_LIST_HEAD e h1 = Some h2" "dlist h2 e []" "frame {e} h1 h2" by blast
  have "dlist h2 hdr (ys @ zs)"
    using dlist_frame [OF h1(2) h2(3)] assms by (auto simp: dlist_def)
  moreover have "frame (insert hdr (set (ys @ e # zs))) h h2"
    by (rule frame_trans [OF h1(3) h2(3)]) auto
  ultimately show ?thesis using h1 h2 by (auto simp: list_del_init_def)
qed

lemma replace_dlist:
  assumes "dlist h hdr (ys @ e # zs)" "node h e'" "e' \<notin> insert hdr (set (ys @ e # zs))"
  shows "\<exists>h'. list_replace e e' h = Some h' \<and> dlist h' hdr (ys @ e' # zs)
    \<and> frame (insert hdr (insert e' (set ys \<union> set zs))) h h'"
  using assms seg_nodes [of "nx h" "pv h" hdr "ys @ e # zs" hdr]
  by (cases ys rule: rev_cases; cases zs)
    (auto simp: dlist_def seg_append list_replace_def mem_defs frame_def node_def)

lemma replace_init_dlist:
  assumes "dlist h hdr (ys @ e # zs)" "node h e'" "e' \<notin> insert hdr (set (ys @ e # zs))"
  shows "\<exists>h'. list_replace_init e e' h = Some h' \<and> dlist h' hdr (ys @ e' # zs) \<and> dlist h' e []
    \<and> frame (insert hdr (insert e' (set (ys @ e # zs)))) h h'"
proof -
  from replace_dlist [OF assms] obtain h1 where h1: "list_replace e e' h = Some h1" "dlist h1 hdr (ys @ e' # zs)"
    "frame (insert hdr (insert e' (set ys \<union> set zs))) h h1" by blast
  have e: "node h1 e" using h1(3) dlist_node [OF assms(1), of e] node_frame by auto
  from init_dlist [OF this] obtain h2 where h2: "INIT_LIST_HEAD e h1 = Some h2" "dlist h2 e []" "frame {e} h1 h2" by blast
  have "dlist h2 hdr (ys @ e' # zs)"
    using dlist_frame [OF h1(2) h2(3)] assms by (auto simp: dlist_def)
  moreover have "frame (insert hdr (insert e' (set (ys @ e # zs)))) h h2"
    by (rule frame_trans [OF h1(3) h2(3)]) auto
  ultimately show ?thesis using h1 h2 by (auto simp: list_replace_init_def)
qed


subsection \<open>Moves, rotation and queries\<close>

text \<open>
  A move takes the element out of the list it is in and puts it in front or at the end of the target, which is the
  same list or a disjoint one.
\<close>

lemma detach_same:
  assumes "dlist h hdr (ys @ e # zs)"
  shows "\<exists>h'. list_del_entry e h = Some h' \<and> dlist h' hdr (ys @ zs) \<and> node h' e \<and> e \<notin> insert hdr (set (ys @ zs))
    \<and> frame (insert hdr (set (ys @ e # zs))) h h'"
proof -
  from del_entry_dlist [OF assms] obtain h1 where h1: "list_del_entry e h = Some h1" "dlist h1 hdr (ys @ zs)"
    "frame (insert hdr (set ys \<union> set zs)) h h1" by blast
  have "node h1 e" using h1(3) dlist_node [OF assms, of e] node_frame by auto
  moreover have "e \<notin> insert hdr (set (ys @ zs))" using assms by (auto simp: dlist_def)
  moreover have "frame (insert hdr (set (ys @ e # zs))) h h1" by (rule frame_trans [OF h1(3) frame_refl [of "{}"]]) auto
  ultimately show ?thesis using h1 by blast
qed

lemma move_same:
  assumes "dlist h hdr (ys @ e # zs)"
  shows "\<exists>h'. list_move e hdr h = Some h' \<and> dlist h' hdr (e # ys @ zs) \<and> frame (insert hdr (set (ys @ e # zs))) h h'"
    "\<exists>h'. list_move_tail e hdr h = Some h' \<and> dlist h' hdr (ys @ zs @ [e]) \<and> frame (insert hdr (set (ys @ e # zs))) h h'"
proof -
  from detach_same [OF assms] obtain h1 where h1: "list_del_entry e h = Some h1" "dlist h1 hdr (ys @ zs)"
    "node h1 e" "e \<notin> insert hdr (set (ys @ zs))" "frame (insert hdr (set (ys @ e # zs))) h h1" by blast
  from add_dlist [OF h1(2-4)] obtain h2 where h2: "list_add e hdr h1 = Some h2" "dlist h2 hdr (e # ys @ zs)"
    "frame (insert e (insert hdr (set (ys @ zs)))) h1 h2" by blast
  have "frame (insert hdr (set (ys @ e # zs))) h h2" by (rule frame_trans [OF h1(5) h2(3)]) auto
  then show "\<exists>h'. list_move e hdr h = Some h' \<and> dlist h' hdr (e # ys @ zs) \<and> frame (insert hdr (set (ys @ e # zs))) h h'"
    using h1 h2 by (auto simp: list_move_def)
  from add_tail_dlist [OF h1(2-4)] obtain h3 where h3: "list_add_tail e hdr h1 = Some h3" "dlist h3 hdr ((ys @ zs) @ [e])"
    "frame (insert e (insert hdr (set (ys @ zs)))) h1 h3" by blast
  have "frame (insert hdr (set (ys @ e # zs))) h h3" by (rule frame_trans [OF h1(5) h3(3)]) auto
  then show "\<exists>h'. list_move_tail e hdr h = Some h' \<and> dlist h' hdr (ys @ zs @ [e]) \<and> frame (insert hdr (set (ys @ e # zs))) h h'"
    using h1 h3 by (auto simp: list_move_tail_def)
qed

lemma move_other:
  assumes "dlist h hdr (ys @ e # zs)" "dlist h hdr' xs" "insert hdr (set (ys @ e # zs)) \<inter> insert hdr' (set xs) = {}"
  shows "\<exists>h'. list_move e hdr' h = Some h' \<and> dlist h' hdr (ys @ zs) \<and> dlist h' hdr' (e # xs)"
    "\<exists>h'. list_move_tail e hdr' h = Some h' \<and> dlist h' hdr (ys @ zs) \<and> dlist h' hdr' (xs @ [e])"
proof -
  from detach_same [OF assms(1)] obtain h1 where h1: "list_del_entry e h = Some h1" "dlist h1 hdr (ys @ zs)"
    "node h1 e" "e \<notin> insert hdr (set (ys @ zs))" "frame (insert hdr (set (ys @ e # zs))) h h1" by blast
  have d': "dlist h1 hdr' xs" by (rule dlist_frame [OF assms(2) h1(5)]) (use assms(3) in auto)
  have e: "e \<notin> insert hdr' (set xs)" using assms(3) by auto
  from add_dlist [OF d' h1(3) e] obtain h2 where h2: "list_add e hdr' h1 = Some h2" "dlist h2 hdr' (e # xs)"
    "frame (insert e (insert hdr' (set xs))) h1 h2" by blast
  have "dlist h2 hdr (ys @ zs)" by (rule dlist_frame [OF h1(2) h2(3)]) (use assms(3) h1(4) in auto)
  then show "\<exists>h'. list_move e hdr' h = Some h' \<and> dlist h' hdr (ys @ zs) \<and> dlist h' hdr' (e # xs)"
    using h1 h2 by (auto simp: list_move_def)
  from add_tail_dlist [OF d' h1(3) e] obtain h3 where h3: "list_add_tail e hdr' h1 = Some h3" "dlist h3 hdr' (xs @ [e])"
    "frame (insert e (insert hdr' (set xs))) h1 h3" by blast
  have "dlist h3 hdr (ys @ zs)" by (rule dlist_frame [OF h1(2) h3(3)]) (use assms(3) h1(4) in auto)
  then show "\<exists>h'. list_move_tail e hdr' h = Some h' \<and> dlist h' hdr (ys @ zs) \<and> dlist h' hdr' (xs @ [e])"
    using h1 h3 by (auto simp: list_move_tail_def)
qed

lemma empty_dlist:
  assumes "dlist h hdr xs"
  shows "list_empty hdr h = Some (xs = [])" "list_empty_careful hdr h = Some (xs = [])"
    "list_is_singular hdr h = Some (length xs = 1)"
proof -
  show e: "list_empty hdr h = Some (xs = [])"
    using assms by (cases xs) (auto simp: list_empty_def dlist_ends [OF assms] dlist_def)
  show "list_empty_careful hdr h = Some (xs = [])"
    using assms by (cases xs) (auto simp: list_empty_careful_def dlist_ends [OF assms] dlist_def)
  show "list_is_singular hdr h = Some (length xs = 1)"
  proof (cases xs)
    case (Cons y ys)
    with assms show ?thesis
      by (cases ys rule: rev_cases) (auto simp: list_is_singular_def e dlist_ends [OF assms] dlist_def)
  qed (simp add: list_is_singular_def e)
qed

lemma is_last_dlist:
  assumes "dlist h hdr (ys @ e # zs)"
  shows "list_is_last e hdr h = Some (zs = [])"
  using assms by (cases zs) (auto simp: list_is_last_def dlist_links(2) [OF assms] dlist_def)

lemma rotate_left_dlist:
  assumes "dlist h hdr xs"
  shows "\<exists>h'. list_rotate_left hdr h = Some h' \<and> dlist h' hdr (rotate1 xs) \<and> frame (insert hdr (set xs)) h h'"
proof (cases xs)
  case Nil
  with assms show ?thesis by (simp add: list_rotate_left_def empty_dlist(1) [OF assms] frame_refl)
next
  case (Cons y ys)
  with assms move_same(2) [of h hdr "[]" y ys] show ?thesis
    by (auto simp: list_rotate_left_def empty_dlist(1) [OF assms] dlist_ends(1) [OF assms])
qed

subsection \<open>Cutting and splicing\<close>

lemma cut_dlist:
  assumes "dlist h hdr (ys @ e # zs)" "node h l" "l \<notin> insert hdr (set (ys @ e # zs))"
  shows "\<exists>h'. list_cut_position l hdr e h = Some h' \<and> dlist h' l (ys @ [e]) \<and> dlist h' hdr zs
    \<and> frame (insert l (insert hdr (set (ys @ e # zs)))) h h'"
proof -
  have eh: "e \<noteq> hdr" using assms(1) by (auto simp: dlist_def)
  have "\<exists>h'. raw_list_cut_position l hdr e h = Some h' \<and> dlist h' l (ys @ [e]) \<and> dlist h' hdr zs
    \<and> frame (insert l (insert hdr (set (ys @ e # zs)))) h h'"
    using assms seg_nodes [of "nx h" "pv h" hdr "ys @ e # zs" hdr]
    by (cases ys; cases zs) (auto simp: dlist_def seg_append raw_list_cut_position_def mem_defs frame_def node_def)
  moreover have "\<not> (length (ys @ e # zs) = 1 \<and> (case ys @ e # zs of [] \<Rightarrow> hdr | x # _ \<Rightarrow> x) \<noteq> e)"
    by (cases ys) auto
  ultimately show ?thesis
    using eh by (auto simp: list_cut_position_def empty_dlist [OF assms(1)] dlist_ends(1) [OF assms(1)])
qed

text \<open>Cutting at the head itself gives an empty list; a list with one other element is left alone, and so is an empty list.\<close>

lemma cut_head_dlist:
  assumes "dlist h hdr xs" "xs \<noteq> []" "node h l" "l \<notin> insert hdr (set xs)"
  shows "\<exists>h'. list_cut_position l hdr hdr h = Some h' \<and> dlist h' l [] \<and> dlist h' hdr xs"
proof -
  from init_dlist [OF assms(3)] obtain h1 where h1: "INIT_LIST_HEAD l h = Some h1" "dlist h1 l []" "frame {l} h h1" by blast
  have "dlist h1 hdr xs" by (rule dlist_frame [OF assms(1) h1(3)]) (use assms(4) in auto)
  with h1 assms(2) show ?thesis
    by (auto simp: list_cut_position_def empty_dlist [OF assms(1)] dlist_ends(1) [OF assms(1)])
qed

lemma cut_unchanged:
  assumes "dlist h hdr xs" "xs = [] \<or> length xs = 1 \<and> e \<notin> insert hdr (set xs)"
  shows "list_cut_position l hdr e h = Some h"
  using assms(2) by (auto simp: list_cut_position_def empty_dlist [OF assms(1)] dlist_ends(1) [OF assms(1)] length_Suc_conv)

text \<open>
  Splicing links the elements of one list between two neighbours of another one; the head of the first list keeps
  its old links.
\<close>

lemma raw_splice_dlist:
  assumes "dlist h l (x # xs)" "dlist h hdr (ys @ zs)" "insert l (set (x # xs)) \<inter> insert hdr (set (ys @ zs)) = {}"
  shows "\<exists>h'. raw_list_splice l (last (hdr # ys)) (hd (zs @ [hdr])) h = Some h' \<and> dlist h' hdr (ys @ x # xs @ zs)
    \<and> nx h' l = nx h l \<and> pv h' l = pv h l \<and> frame (insert hdr (set (x # xs @ ys @ zs))) h h'"
  using assms seg_nodes [of "nx h" "pv h" hdr "ys @ zs" hdr] seg_nodes [of "nx h" "pv h" l "x # xs" l]
  by (cases ys rule: rev_cases; cases zs; cases xs rule: rev_cases)
    (auto simp: dlist_def seg_append raw_list_splice_def mem_defs frame_def)

lemma splice_ends:
  assumes "dlist h hdr xs"
  shows "nx h hdr = Some (hd (xs @ [hdr]))" "pv h hdr = Some (last (hdr # xs))"
  using dlist_ends [OF assms] by (cases xs; auto)+

lemma splice_dlist:
  assumes "dlist h l xs" "dlist h hdr ys" "insert l (set xs) \<inter> insert hdr (set ys) = {}"
  shows "\<exists>h'. list_splice l hdr h = Some h' \<and> dlist h' hdr (xs @ ys) \<and> frame (insert hdr (set (xs @ ys))) h h'"
    "\<exists>h'. list_splice_tail l hdr h = Some h' \<and> dlist h' hdr (ys @ xs) \<and> frame (insert hdr (set (xs @ ys))) h h'"
proof -
  have "(\<exists>h'. list_splice l hdr h = Some h' \<and> dlist h' hdr (xs @ ys) \<and> frame (insert hdr (set (xs @ ys))) h h') \<and>
    (\<exists>h'. list_splice_tail l hdr h = Some h' \<and> dlist h' hdr (ys @ xs) \<and> frame (insert hdr (set (xs @ ys))) h h')"
  proof (cases xs)
    case Nil
    with assms show ?thesis
      by (simp add: list_splice_def list_splice_tail_def empty_dlist(1) [OF assms(1)] frame_refl)
  next
    case (Cons z zs)
    from raw_splice_dlist [of h l z zs hdr "[]" ys] raw_splice_dlist [of h l z zs hdr ys "[]"] assms Cons
    show ?thesis
      by (auto simp: list_splice_def list_splice_tail_def empty_dlist(1) [OF assms(1)] splice_ends [OF assms(2)] Un_commute Un_left_commute)
  qed
  then show "\<exists>h'. list_splice l hdr h = Some h' \<and> dlist h' hdr (xs @ ys) \<and> frame (insert hdr (set (xs @ ys))) h h'"
    "\<exists>h'. list_splice_tail l hdr h = Some h' \<and> dlist h' hdr (ys @ xs) \<and> frame (insert hdr (set (xs @ ys))) h h'"
    by blast+
qed

lemma splice_init_eq:
  "list_splice_init l hdr h = (case list_empty l h of None \<Rightarrow> None | Some e \<Rightarrow>
     if e then Some h else Option.bind (list_splice l hdr h) (INIT_LIST_HEAD l))"
  "list_splice_tail_init l hdr h = (case list_empty l h of None \<Rightarrow> None | Some e \<Rightarrow>
     if e then Some h else Option.bind (list_splice_tail l hdr h) (INIT_LIST_HEAD l))"
  by (auto simp: list_splice_init_def list_splice_tail_init_def list_splice_def list_splice_tail_def split: Option.bind_splits option.splits)

lemma splice_init_dlist:
  assumes "dlist h l xs" "dlist h hdr ys" "insert l (set xs) \<inter> insert hdr (set ys) = {}"
  shows "\<exists>h'. list_splice_init l hdr h = Some h' \<and> dlist h' hdr (xs @ ys) \<and> dlist h' l []
      \<and> frame (insert l (insert hdr (set (xs @ ys)))) h h'"
    "\<exists>h'. list_splice_tail_init l hdr h = Some h' \<and> dlist h' hdr (ys @ xs) \<and> dlist h' l []
      \<and> frame (insert l (insert hdr (set (xs @ ys)))) h h'"
proof -
  have *: "\<exists>h2. INIT_LIST_HEAD l h1 = Some h2 \<and> dlist h2 hdr zs \<and> dlist h2 l [] \<and> frame (insert l (insert hdr (set (xs @ ys)))) h h2"
    if h1: "dlist h1 hdr zs" "frame (insert hdr (set (xs @ ys))) h h1" "set zs = set xs \<union> set ys" for h1 zs
  proof -
    have "node h1 l" using node_frame [OF h1(2)] dlist_node [OF assms(1)] by simp
    from init_dlist [OF this] obtain h2 where h2: "INIT_LIST_HEAD l h1 = Some h2" "dlist h2 l []" "frame {l} h1 h2" by blast
    have "dlist h2 hdr zs"
      by (rule dlist_frame [OF h1(1) h2(3)]) (use assms h1(3) in \<open>auto simp: dlist_def\<close>)
    moreover have "frame (insert l (insert hdr (set (xs @ ys)))) h h2" by (rule frame_trans [OF h1(2) h2(3)]) auto
    ultimately show ?thesis using h2 by blast
  qed
  show "\<exists>h'. list_splice_init l hdr h = Some h' \<and> dlist h' hdr (xs @ ys) \<and> dlist h' l []
      \<and> frame (insert l (insert hdr (set (xs @ ys)))) h h'"
    using splice_dlist(1) [OF assms] * [of _ "xs @ ys"] assms(1,2)
    by (auto simp: splice_init_eq empty_dlist(1) [OF assms(1)] frame_refl)
  show "\<exists>h'. list_splice_tail_init l hdr h = Some h' \<and> dlist h' hdr (ys @ xs) \<and> dlist h' l []
      \<and> frame (insert l (insert hdr (set (xs @ ys)))) h h'"
    using splice_dlist(2) [OF assms] * [of _ "ys @ xs"] assms(1,2)
    by (auto simp: splice_init_eq empty_dlist(1) [OF assms(1)] frame_refl Un_commute)
qed


subsection \<open>Iteration\<close>

text \<open>
  What a loop does on a list depends on its body. A body \<open>reads\<close> when it leaves the memory alone and folds \<open>f\<close> over
  its state; \<open>visits\<close> is the body that collects the addresses it sees.
\<close>

definition reads :: "(addr \<Rightarrow> 's \<Rightarrow> 's) \<Rightarrow> addr \<Rightarrow> 's \<Rightarrow> list_mem \<Rightarrow> ('s \<times> list_mem) option" where
  "reads f pos s h = Some (f pos s, h)"

definition drops :: "(addr \<Rightarrow> addr) \<Rightarrow> addr \<Rightarrow> unit \<Rightarrow> list_mem \<Rightarrow> (unit \<times> list_mem) option" where
  "drops link pos u h = do { h' \<leftarrow> list_del (link pos) h; Some ((), h') }"

lemma seg_rev: "seg N P a xs b \<longleftrightarrow> seg P N b (rev xs) a"
proof (induction xs arbitrary: a)
  case (Cons x xs)
  then show ?case by (auto simp: seg_append)
qed auto

text \<open>
  A loop that walks a chain \<open>xs\<close> of pointers folds its body over it. \<open>ent\<close> is the address of the entry of a link, \<open>link\<close>
  the way back, and \<open>step\<close> follows the map \<open>N\<close>.
\<close>

lemma each_loop_chain:
  assumes step: "\<forall>p q. N p = Some q \<longrightarrow> step (ent p) h = Some (ent q)"
    and stop: "\<forall>p \<in> set xs. \<not> stop (ent p)" "stop (ent b)"
    and chain: "seg N P a xs b"
  shows "\<exists>p. N a = Some p \<and> each_loop stop step (reads f) (ent p) s h = Some (fold f (map ent xs) s, h)"
  using chain stop(1)
proof (induction xs arbitrary: a s)
  case Nil
  then show ?case by (subst each_loop.simps) (simp add: stop(2))
next
  case (Cons x xs)
  from Cons.prems Cons.IH [of x "f (ent x) s"] obtain p where p: "N x = Some p"
    "each_loop stop step (reads f) (ent p) (f (ent x) s) h = Some (fold f (map ent xs) (f (ent x) s), h)" by auto
  with Cons.prems step p(1) show ?case by (subst each_loop.simps) (simp add: reads_def)
qed

lemma each_loop_safe_chain:
  assumes step: "\<forall>p q. N p = Some q \<longrightarrow> step (ent p) h = Some (ent q)"
    and stop: "\<forall>p \<in> set xs. \<not> stop (ent p)" "stop (ent b)"
    and chain: "seg N P a xs b" and wrap: "N b = Some c"
  shows "\<exists>p q. N a = Some p \<and> N p = Some q
    \<and> each_loop_safe stop step (reads f) (ent p) (ent q) s h = Some (fold f (map ent xs) s, h)"
  using chain stop(1)
proof (induction xs arbitrary: a s)
  case Nil
  then show ?case by (subst each_loop_safe.simps) (simp add: stop(2) wrap)
next
  case (Cons x xs)
  from Cons.prems Cons.IH [of x "f (ent x) s"] obtain p q where p: "N x = Some p" "N p = Some q"
    "each_loop_safe stop step (reads f) (ent p) (ent q) (f (ent x) s) h = Some (fold f (map ent xs) (f (ent x) s), h)" by auto
  with Cons.prems step p(2) show ?case by (subst each_loop_safe.simps) (simp add: reads_def)
qed

text \<open>Node addresses are not null, so entries and links translate into each other.\<close>

definition no_null :: "list_mem \<Rightarrow> bool" where
  "no_null h \<longleftrightarrow> 0 \<notin> dom (nx h) \<union> dom (pv h)"

lemma entry_link: "p \<noteq> 0 \<Longrightarrow> list_entry p off + off = p"
  by (simp add: list_entry_def container_of_def)



text \<open>The same for the loops over entries. They start at an entry, so the variants that continue inside a list are covered too.\<close>

lemma null_free:
  assumes "no_null h" shows "nx h p = Some q \<Longrightarrow> p \<noteq> 0" "pv h p = Some q \<Longrightarrow> p \<noteq> 0"
  using assms by (auto simp: no_null_def dom_def)

lemma entry_steps:
  assumes "no_null h"
  shows "\<forall>p q. nx h p = Some q \<longrightarrow> list_next_entry (list_entry p off) off h = Some (list_entry q off)"
    "\<forall>p q. pv h p = Some q \<longrightarrow> list_prev_entry (list_entry p off) off h = Some (list_entry q off)"
  by (auto simp: list_next_entry_def list_prev_entry_def entry_link null_free [OF assms])

lemma entry_stop:
  assumes "no_null h" "dlist h hdr xs"
  shows "\<forall>p \<in> set xs. list_entry p off + off \<noteq> hdr" "list_entry hdr off + off = hdr"
proof -
  have nz: "p \<noteq> 0" if "p \<in> insert hdr (set xs)" for p
    using dlist_node [OF assms(2) that] assms(1) by (auto simp: node_def no_null_def)
  then show "list_entry hdr off + off = hdr" by (simp add: entry_link)
  show "\<forall>p \<in> set xs. list_entry p off + off \<noteq> hdr"
    using nz assms(2) by (metis dlist_def distinct.simps(2) entry_link insertCI)
qed

lemma entry_loops:
  assumes "no_null h" "dlist h hdr (ys @ zs)"
  shows "\<exists>p. nx h (last (hdr # ys)) = Some p \<and>
      each_loop (\<lambda>pos. pos + off = hdr) (\<lambda>pos h. list_next_entry pos off h) (reads f) (list_entry p off) s h
        = Some (fold f (map (\<lambda>p. list_entry p off) zs) s, h)" (is ?next)
    "\<exists>p. pv h (hd (zs @ [hdr])) = Some p \<and>
      each_loop (\<lambda>pos. pos + off = hdr) (\<lambda>pos h. list_prev_entry pos off h) (reads f) (list_entry p off) s h
        = Some (fold f (map (\<lambda>p. list_entry p off) (rev ys)) s, h)" (is ?prev)
    "\<exists>p q. nx h (last (hdr # ys)) = Some p \<and> nx h p = Some q \<and>
      each_loop_safe (\<lambda>pos. pos + off = hdr) (\<lambda>pos h. list_next_entry pos off h) (reads f) (list_entry p off) (list_entry q off) s h
        = Some (fold f (map (\<lambda>p. list_entry p off) zs) s, h)" (is ?safe)
    "\<exists>p q. pv h (hd (zs @ [hdr])) = Some p \<and> pv h p = Some q \<and>
      each_loop_safe (\<lambda>pos. pos + off = hdr) (\<lambda>pos h. list_prev_entry pos off h) (reads f) (list_entry p off) (list_entry q off) s h
        = Some (fold f (map (\<lambda>p. list_entry p off) (rev ys)) s, h)" (is ?prev_safe)
proof -
  have fwd: "seg (nx h) (pv h) (last (hdr # ys)) zs hdr"
    using assms(2) by (cases ys rule: rev_cases) (auto simp: dlist_def seg_append)
  have bwd: "seg (pv h) (nx h) (hd (zs @ [hdr])) (rev ys) hdr"
    using assms(2) by (cases zs) (auto simp: dlist_def seg_append seg_rev [of "nx h" "pv h" _ ys])
  note stop = entry_stop [OF assms, of off]
  note w = splice_ends [OF assms(2)]
  from stop(1) have zs: "\<forall>p \<in> set zs. list_entry p off + off \<noteq> hdr" and ys: "\<forall>p \<in> set (rev ys). list_entry p off + off \<noteq> hdr" by auto
  show ?next by (rule each_loop_chain [of "nx h" "\<lambda>pos h. list_next_entry pos off h" "\<lambda>p. list_entry p off" h zs "\<lambda>pos. pos + off = hdr" hdr "pv h" "last (hdr # ys)" f s,
      OF entry_steps(1) [OF assms(1)] zs stop(2) fwd])
  show ?prev by (rule each_loop_chain [of "pv h" "\<lambda>pos h. list_prev_entry pos off h" "\<lambda>p. list_entry p off" h "rev ys" "\<lambda>pos. pos + off = hdr" hdr "nx h" "hd (zs @ [hdr])" f s,
      OF entry_steps(2) [OF assms(1)] ys stop(2) bwd])
  show ?safe by (rule each_loop_safe_chain [of "nx h" "\<lambda>pos h. list_next_entry pos off h" "\<lambda>p. list_entry p off" h zs "\<lambda>pos. pos + off = hdr" hdr "pv h" "last (hdr # ys)" "hd ((ys @ zs) @ [hdr])" f s,
      OF entry_steps(1) [OF assms(1)] zs stop(2) fwd w(1)])
  show ?prev_safe by (rule each_loop_safe_chain [of "pv h" "\<lambda>pos h. list_prev_entry pos off h" "\<lambda>p. list_entry p off" h "rev ys" "\<lambda>pos. pos + off = hdr" hdr "nx h" "hd (zs @ [hdr])" "last (hdr # ys @ zs)" f s,
      OF entry_steps(2) [OF assms(1)] ys stop(2) bwd w(2)])
qed



text \<open>Removing every entry inside the loop: the safe loop ends with the empty list, the plain one follows the poison.\<close>

lemma safe_delete_loop:
  assumes "dlist h hdr (x # xs)"
  shows "\<exists>h'. each_loop_safe (\<lambda>pos. pos = hdr) (\<lambda>pos h. nx h pos) (drops id) x (hd (xs @ [hdr])) () h = Some ((), h')
    \<and> dlist h' hdr [] \<and> frame (insert hdr (set (x # xs))) h h'"
  using assms
proof (induction xs arbitrary: x h)
  case Nil
  from del_dlist [of h hdr "[]" x "[]"] Nil obtain h1 where h1: "list_del x h = Some h1" "dlist h1 hdr []"
    "frame {hdr, x} h h1" by auto
  moreover have "x \<noteq> hdr" using Nil by (auto simp: dlist_def)
  ultimately show ?case using dlist_ends(1) [OF h1(2)]
    by (subst each_loop_safe.simps) (auto simp: drops_def each_loop_safe.simps [of _ _ _ hdr])
next
  case (Cons y ys)
  from del_dlist [of h hdr "[]" x "y # ys"] Cons.prems obtain h1 where h1: "list_del x h = Some h1" "dlist h1 hdr (y # ys)"
    "frame (insert hdr (set (x # y # ys))) h h1" by auto
  have n: "nx h1 y = Some (hd (ys @ [hdr]))" using dlist_links(2) [of h1 hdr "[]" y ys] h1(2) by simp
  from Cons.IH [OF h1(2)] obtain h2 where h2:
    "each_loop_safe (\<lambda>pos. pos = hdr) (\<lambda>pos h. nx h pos) (drops id) y (hd (ys @ [hdr])) () h1 = Some ((), h2)"
    "dlist h2 hdr []" "frame (insert hdr (set (y # ys))) h1 h2" by blast
  have "frame (insert hdr (set (x # y # ys))) h h2" by (rule frame_trans [OF h1(3) h2(3)]) auto
  moreover have "x \<noteq> hdr" using Cons.prems by (auto simp: dlist_def)
  ultimately show ?case using h1 h2 n by (subst each_loop_safe.simps) (auto simp: drops_def)
qed

lemma safe_delete_all:
  assumes "dlist h hdr xs"
  shows "\<exists>h'. list_for_each_safe (drops id) hdr () h = Some ((), h') \<and> dlist h' hdr [] \<and> frame (insert hdr (set xs)) h h'"
proof (cases xs)
  case Nil
  with assms dlist_ends(1) [OF assms] show ?thesis
    by (auto simp: list_for_each_safe_def each_loop_safe.simps frame_refl)
next
  case (Cons y ys)
  with safe_delete_loop [of h hdr y ys] assms dlist_links(2) [of h hdr "[]" y ys] dlist_ends(1) [OF assms] show ?thesis
    by (auto simp: list_for_each_safe_def)
qed

lemma plain_delete_fails:
  assumes "dlist h hdr (x # xs)" "LIST_POISON1 \<notin> dom (pv h)" "LIST_POISON1 \<noteq> hdr"
  shows "list_for_each (drops id) hdr () h = None"
proof -
  from del_dlist [of h hdr "[]" x xs] assms(1) obtain h1 where h1: "list_del x h = Some h1" "nx h1 x = Some LIST_POISON1"
    "frame (insert hdr (set (x # xs))) h h1" by auto
  have "pv h1 LIST_POISON1 = None" using h1(3) assms(2) by (auto simp: frame_def)
  then have "list_del LIST_POISON1 h1 = None" by (simp add: list_del_def)
  moreover have "x \<noteq> hdr" using assms(1) by (auto simp: dlist_def)
  ultimately show ?thesis
    using h1 assms(3) dlist_ends(1) [OF assms(1)]
    by (simp add: list_for_each_def each_loop.simps [of _ _ _ x] each_loop.simps [of _ _ _ LIST_POISON1] drops_def)
qed


text \<open>The entry queries on a list.\<close>

lemma first_last_entry:
  assumes "dlist h hdr xs"
  shows "list_first_entry_or_null hdr off h = Some (case xs of [] \<Rightarrow> 0 | x # _ \<Rightarrow> list_entry x off)"
    "xs \<noteq> [] \<Longrightarrow> list_last_entry hdr off h = Some (list_entry (last xs) off)"
  using dlist_ends [OF assms]
  by (auto simp: list_first_entry_or_null_def list_first_entry_def list_last_entry_def empty_dlist [OF assms] split: list.split)

text \<open>A null start for the continuing loop is prepared to the head, so that the loop covers the whole list.\<close>

lemma prepared_continue:
  assumes "no_null h" "dlist h hdr xs"
  shows "list_for_each_entry_continue (reads f) off hdr (list_prepare_entry 0 hdr off) s h
    = Some (fold f (map (\<lambda>p. list_entry p off) xs) s, h)"
  using entry_loops(1) [of h hdr "[]" xs off f s] assms entry_steps(1) [OF assms(1), of off]
  by (auto simp: list_prepare_entry_def list_for_each_entry_continue_def)

text \<open>A safe loop whose body inserts a node behind the cursor sees it after \<open>list_safe_reset_next\<close>.\<close>

lemma reset_next_sees_new:
  assumes "dlist h hdr (ys @ e # zs)" "node h n" "n \<notin> set (hdr # ys @ e # zs)" "no_null h"
  shows "\<exists>h'. list_add n e h = Some h' \<and> dlist h' hdr (ys @ e # n # zs)
    \<and> list_safe_reset_next (list_entry e off) off h' = Some (list_entry n off)"
proof -
  have "\<exists>h'. list_add n e h = Some h' \<and> dlist h' hdr (ys @ e # n # zs)"
    using assms seg_nodes [of "nx h" "pv h" hdr "ys @ e # zs" hdr]
    by (cases zs) (auto simp: dlist_def seg_append node_def list_add_def raw_list_add_def mem_defs)
  then obtain h' where h': "list_add n e h = Some h'" "dlist h' hdr (ys @ e # n # zs)" by blast
  moreover have "e \<noteq> 0" using dlist_node [OF assms(1), of e] assms(4) by (auto simp: node_def no_null_def)
  ultimately show ?thesis
    using dlist_links(2) [OF h'(2)] by (auto simp: list_safe_reset_next_def list_next_entry_def entry_link)
qed

subsection \<open>Sequences of operations\<close>

interpretation klist: linked_seq "\<lambda>h. dlist h hdr" "\<lambda>h e. node h e \<and> e \<noteq> hdr" "\<lambda>e. list_add e hdr" list_del for hdr
proof unfold_locales
  fix h e ys zs assume "dlist h hdr (ys @ e # zs)"
  from del_dlist [OF this] show "\<exists>h'. list_del e h = Some h' \<and> dlist h' hdr (ys @ zs) \<and> (\<forall>p. (node h' p \<and> p \<noteq> hdr) = (node h p \<and> p \<noteq> hdr))"
    by (auto simp: node_frame)
next
  fix h xs e assume "dlist h hdr xs" "node h e \<and> e \<noteq> hdr" "e \<notin> set xs"
  with add_dlist [of h hdr xs e] show "\<exists>h'. list_add e hdr h = Some h' \<and> dlist h' hdr (e # xs) \<and> (\<forall>p. (node h' p \<and> p \<noteq> hdr) = (node h p \<and> p \<noteq> hdr))"
    by (auto simp: node_frame)
qed (simp add: dlist_def)

text \<open>The operations on one list as requests, what each does to the list of its nodes, and when it may be made.\<close>

datatype list_op = Add addr | Add_Tail addr | Del addr | Del_Init addr | Replace addr addr | Replace_Init addr addr
  | Move addr | Move_Tail addr | Rotate_Left

fun op_exec :: "addr \<Rightarrow> list_op \<Rightarrow> list_mem \<Rightarrow> list_mem option" where
  "op_exec hdr (Add e) h = list_add e hdr h"
| "op_exec hdr (Add_Tail e) h = list_add_tail e hdr h"
| "op_exec hdr (Del e) h = list_del e h"
| "op_exec hdr (Del_Init e) h = list_del_init e h"
| "op_exec hdr (Replace e e') h = list_replace e e' h"
| "op_exec hdr (Replace_Init e e') h = list_replace_init e e' h"
| "op_exec hdr (Move e) h = list_move e hdr h"
| "op_exec hdr (Move_Tail e) h = list_move_tail e hdr h"
| "op_exec hdr Rotate_Left h = list_rotate_left hdr h"

fun op_spec :: "list_op \<Rightarrow> addr list \<Rightarrow> addr list" where
  "op_spec (Add e) xs = e # xs"
| "op_spec (Add_Tail e) xs = xs @ [e]"
| "op_spec (Del e) xs = remove1 e xs"
| "op_spec (Del_Init e) xs = remove1 e xs"
| "op_spec (Replace e e') xs = map (\<lambda>x. if x = e then e' else x) xs"
| "op_spec (Replace_Init e e') xs = map (\<lambda>x. if x = e then e' else x) xs"
| "op_spec (Move e) xs = e # remove1 e xs"
| "op_spec (Move_Tail e) xs = remove1 e xs @ [e]"
| "op_spec Rotate_Left xs = rotate1 xs"

fun op_ok :: "addr list \<Rightarrow> addr \<Rightarrow> list_op \<Rightarrow> addr list \<Rightarrow> bool" where
  "op_ok ns hdr (Add e) xs \<longleftrightarrow> e \<in> set ns \<and> e \<notin> set (hdr # xs)"
| "op_ok ns hdr (Add_Tail e) xs \<longleftrightarrow> e \<in> set ns \<and> e \<notin> set (hdr # xs)"
| "op_ok ns hdr (Del e) xs \<longleftrightarrow> e \<in> set xs"
| "op_ok ns hdr (Del_Init e) xs \<longleftrightarrow> e \<in> set xs"
| "op_ok ns hdr (Replace e e') xs \<longleftrightarrow> e \<in> set xs \<and> e' \<in> set ns \<and> e' \<notin> set (hdr # xs)"
| "op_ok ns hdr (Replace_Init e e') xs \<longleftrightarrow> e \<in> set xs \<and> e' \<in> set ns \<and> e' \<notin> set (hdr # xs)"
| "op_ok ns hdr (Move e) xs \<longleftrightarrow> e \<in> set xs"
| "op_ok ns hdr (Move_Tail e) xs \<longleftrightarrow> e \<in> set xs"
| "op_ok ns hdr Rotate_Left xs \<longleftrightarrow> True"

fun ops_ok :: "addr list \<Rightarrow> addr \<Rightarrow> list_op list \<Rightarrow> addr list \<Rightarrow> bool" where
  "ops_ok ns hdr [] xs \<longleftrightarrow> True"
| "ops_ok ns hdr (r # rs) xs \<longleftrightarrow> op_ok ns hdr r xs \<and> ops_ok ns hdr rs (op_spec r xs)"

lemma replace_mid: "distinct (ys @ e # zs) \<Longrightarrow> map (\<lambda>x. if x = e then e' else x) (ys @ e # zs) = ys @ e' # zs"
  by (auto intro!: map_idI)

lemma remove1_mid: "distinct (ys @ e # zs) \<Longrightarrow> remove1 e (ys @ e # zs) = ys @ zs"
  by (simp add: remove1_append)

lemma op_refines:
  assumes "dlist h hdr xs" "list_all (node h) ns" "op_ok ns hdr r xs"
  shows "\<exists>h'. op_exec hdr r h = Some h' \<and> dlist h' hdr (op_spec r xs) \<and> (\<forall>p. node h' p = node h p)"
proof -
  have d: "distinct xs" using assms(1) by (simp add: dlist_def)
  have ns: "node h e" if "e \<in> set ns" for e using assms(2) that by (simp add: list_all_iff)
  have mid: ?thesis if "e \<in> set xs"
    "\<And>ys zs. xs = ys @ e # zs \<Longrightarrow> distinct (ys @ e # zs) \<Longrightarrow> dlist h hdr (ys @ e # zs) \<Longrightarrow>
      \<exists>h' A. op_exec hdr r h = Some h' \<and> dlist h' hdr (op_spec r xs) \<and> frame A h h'" for e
  proof -
    from that(1) obtain ys zs where "xs = ys @ e # zs" by (auto dest: split_list)
    with that(2) [of ys zs] d assms(1) node_frame show ?thesis by blast
  qed
  show ?thesis
  proof (cases r)
    case (Add e)
    with add_dlist [OF assms(1), of e] assms(3) ns node_frame show ?thesis by fastforce
  next
    case (Add_Tail e)
    with add_tail_dlist [OF assms(1), of e] assms(3) ns node_frame show ?thesis by fastforce
  next
    case (Del e)
    with assms(3) del_dlist [of h hdr _ e] show ?thesis by (intro mid [of e]) (auto simp: remove1_mid simp del: distinct_append, blast)
  next
    case (Del_Init e)
    with assms(3) del_init_dlist [of h hdr _ e] show ?thesis by (intro mid [of e]) (auto simp: remove1_mid simp del: distinct_append, blast)
  next
    case (Replace e e')
    with assms(3) replace_dlist [of h hdr _ e _ e'] ns show ?thesis
      by (intro mid [of e]) (auto simp: replace_mid simp del: distinct_append map_append, blast)
  next
    case (Replace_Init e e')
    with assms(3) replace_init_dlist [of h hdr _ e _ e'] ns show ?thesis
      by (intro mid [of e]) (auto simp: replace_mid simp del: distinct_append map_append, blast)
  next
    case (Move e)
    with assms(3) move_same(1) [of h hdr _ e] show ?thesis by (intro mid [of e]) (auto simp: remove1_mid simp del: distinct_append, blast)
  next
    case (Move_Tail e)
    with assms(3) move_same(2) [of h hdr _ e] show ?thesis by (intro mid [of e]) (auto simp: remove1_mid simp del: distinct_append, blast)
  next
    case Rotate_Left
    with rotate_left_dlist [OF assms(1)] node_frame show ?thesis by fastforce
  qed
qed


fun ops_exec :: "addr \<Rightarrow> list_op list \<Rightarrow> list_mem \<Rightarrow> list_mem option" where
  "ops_exec hdr [] h = Some h"
| "ops_exec hdr (r # rs) h = Option.bind (op_exec hdr r h) (ops_exec hdr rs)"

text \<open>A memory with an empty list at 16 and three free nodes.\<close>

definition sample_mem :: list_mem where
  "sample_mem = \<lparr>nx = [16 \<mapsto> 16, 32 \<mapsto> 0, 48 \<mapsto> 0, 64 \<mapsto> 0], pv = [16 \<mapsto> 16, 32 \<mapsto> 0, 48 \<mapsto> 0, 64 \<mapsto> 0]\<rparr>"

text \<open>A memory with the list 32, 48 at 16 and a free node at 64.\<close>

definition sample_list :: list_mem where
  "sample_list = \<lparr>nx = [16 \<mapsto> 32, 32 \<mapsto> 48, 48 \<mapsto> 16, 64 \<mapsto> 0], pv = [16 \<mapsto> 48, 32 \<mapsto> 16, 48 \<mapsto> 32, 64 \<mapsto> 0]\<rparr>"

lemma sample_mem_dlist: "dlist sample_mem 16 []" "list_all (node sample_mem) [32, 48, 64]"
  by (simp_all add: sample_mem_def dlist_def node_def)

lemma sample_list_dlist: "dlist sample_list 16 [32, 48]" "node sample_list 64" "no_null sample_list" "dom (pv sample_list) = {16, 32, 48, 64}"
  by (auto simp: sample_list_def dlist_def node_def no_null_def)

text \<open>
  C3. Refinement of \<open>linux_list.h\<close>: any sequence of requests that respects the rules of the library (insert nodes that
  are not in the list, remove or replace nodes that are) runs through and leaves a well formed doubly linked list of exactly the
  nodes, in the order, that the same requests give on mathematical lists.
\<close>

theorem list_ops_refine:
  "dlist h hdr xs \<Longrightarrow> list_all (node h) ns \<Longrightarrow> ops_ok ns hdr rs xs \<Longrightarrow>
   \<exists>h'. ops_exec hdr rs h = Some h' \<and> dlist h' hdr (fold op_spec rs xs)"
proof (induction rs arbitrary: h xs)
  case (Cons r rs)
  from Cons.prems op_refines [of h hdr xs ns r] obtain h1 where h1: "op_exec hdr r h = Some h1"
    "dlist h1 hdr (op_spec r xs)" "\<forall>p. node h1 p = node h p" by auto
  with Cons.prems have "list_all (node h1) ns" by (simp add: list_all_iff)
  from Cons.IH [OF h1(2) this] Cons.prems(3) h1(1) show ?case by simp
qed simp

theorem list_ops_refine_witness:
  "\<exists>h'. ops_exec 16 [Add 32, Add_Tail 48, Rotate_Left, Replace 32 64, Move 64, Del 48] sample_mem = Some h' \<and> dlist h' 16 [64]"
  using list_ops_refine [OF sample_mem_dlist, of "[Add 32, Add_Tail 48, Rotate_Left, Replace 32 64, Move 64, Del 48]"] by simp

text \<open>
  C25. Splitting and joining: cutting a list after one of its elements moves exactly the part up to that element to the
  other head, and splicing that part back in front restores the list and empties the other head; nothing else in memory changes.
\<close>

theorem list_cut_splice:
  assumes "dlist h hdr (ys @ e # zs)" "node h l" "l \<notin> set (hdr # ys @ e # zs)"
  shows "\<exists>h1 h2. list_cut_position l hdr e h = Some h1 \<and> dlist h1 l (ys @ [e]) \<and> dlist h1 hdr zs
    \<and> list_splice_init l hdr h1 = Some h2 \<and> dlist h2 hdr (ys @ e # zs) \<and> dlist h2 l []
    \<and> frame (set (l # hdr # ys @ e # zs)) h h2"
proof -
  from cut_dlist [OF assms(1,2)] assms(3) obtain h1 where h1: "list_cut_position l hdr e h = Some h1"
    "dlist h1 l (ys @ [e])" "dlist h1 hdr zs" "frame (insert l (insert hdr (set (ys @ e # zs)))) h h1" by auto
  have "insert l (set (ys @ [e])) \<inter> insert hdr (set zs) = {}" using assms(1,3) by (auto simp: dlist_def)
  from splice_init_dlist(1) [OF h1(2,3) this] obtain h2 where h2: "list_splice_init l hdr h1 = Some h2"
    "dlist h2 hdr ((ys @ [e]) @ zs)" "dlist h2 l []" "frame (insert l (insert hdr (set ((ys @ [e]) @ zs)))) h1 h2" by blast
  have "frame (set (l # hdr # ys @ e # zs)) h h2" by (rule frame_trans [OF h1(4) h2(4)]) auto
  with h1 h2 show ?thesis by auto
qed

theorem list_cut_splice_witness:
  "\<exists>h1 h2. list_cut_position 64 16 32 sample_list = Some h1 \<and> dlist h1 64 [32] \<and> dlist h1 16 [48]
    \<and> list_splice_init 64 16 h1 = Some h2 \<and> dlist h2 16 [32, 48] \<and> dlist h2 64 []"
  using list_cut_splice [of sample_list 16 "[]" 32 "[48]" 64] sample_list_dlist by auto





text \<open>
  Deleting while iterating: \<open>list_for_each_safe\<close> may delete every entry it visits and ends with the empty list. The
  plain loop would follow the poisoned pointer of the deleted entry: the model stops with an error where the pointer
  is dereferenced.
\<close>

theorem list_delete_while_iterating:
  assumes "dlist h hdr (x # xs)" "LIST_POISON1 \<notin> dom (pv h)" "LIST_POISON1 \<noteq> hdr"
  shows "(\<exists>h'. list_for_each_safe (drops id) hdr () h = Some ((), h') \<and> dlist h' hdr [] \<and> frame (set (hdr # x # xs)) h h')
    \<and> list_for_each (drops id) hdr () h = None"
  using safe_delete_all [OF assms(1)] plain_delete_fails [OF assms] by simp

theorem list_delete_while_iterating_witness:
  "(\<exists>h'. list_for_each_safe (drops id) 16 () sample_list = Some ((), h') \<and> dlist h' 16 [])
    \<and> list_for_each (drops id) 16 () sample_list = None"
  using list_delete_while_iterating [of sample_list 16 32 "[48]"] sample_list_dlist by (auto simp: LIST_POISON1_def)

end
