(* ===== verification/Kernel_Hlist.thy ===== *)
theory Kernel_Hlist
  imports Kernel_List
begin

text \<open>
  The hash-bucket lists of \<open>linux_list.h\<close>: a head with one pointer, and nodes that keep the address of the pointer
  that points to them.

  \<open>first\<close> of a head and \<open>next\<close> of a node are pointer cells at offset 0 of their structure, so a cell has the address of its
  head or node, and one map \<open>cell\<close> holds them all; \<open>pprev\<close> of a node is the address of a cell. Address 0 is \<open>NULL\<close>.
\<close>

subsection \<open>Definitions\<close>

record hlist_mem =
  cell :: "addr \<rightharpoonup> addr"
  pprev :: "addr \<rightharpoonup> addr"

definition set_cell :: "addr \<Rightarrow> addr \<Rightarrow> hlist_mem \<Rightarrow> hlist_mem option" where
  "set_cell p v h = (if p \<in> dom (cell h) then Some (h\<lparr>cell := (cell h)(p \<mapsto> v)\<rparr>) else None)"

definition set_pprev :: "addr \<Rightarrow> addr \<Rightarrow> hlist_mem \<Rightarrow> hlist_mem option" where
  "set_pprev p v h = (if p \<in> dom (pprev h) then Some (h\<lparr>pprev := (pprev h)(p \<mapsto> v)\<rparr>) else None)"

definition INIT_HLIST_HEAD :: "addr \<Rightarrow> hlist_mem \<Rightarrow> hlist_mem option" where
  "INIT_HLIST_HEAD ptr h = set_cell ptr 0 h"

definition INIT_HLIST_NODE :: "addr \<Rightarrow> hlist_mem \<Rightarrow> hlist_mem option" where
  "INIT_HLIST_NODE n h = do { h \<leftarrow> set_cell n 0 h; set_pprev n 0 h }"

definition hlist_unhashed :: "addr \<Rightarrow> hlist_mem \<Rightarrow> bool option" where
  "hlist_unhashed n h = do { p \<leftarrow> pprev h n; Some (p = 0) }"

definition hlist_empty :: "addr \<Rightarrow> hlist_mem \<Rightarrow> bool option" where
  "hlist_empty hd1 h = do { f \<leftarrow> cell h hd1; Some (f = 0) }"

definition raw_hlist_del :: "addr \<Rightarrow> hlist_mem \<Rightarrow> hlist_mem option" where
  "raw_hlist_del n h = do {
     next \<leftarrow> cell h n;
     pp \<leftarrow> pprev h n;
     h \<leftarrow> set_cell pp next h;
     if next \<noteq> 0 then set_pprev next pp h else Some h }"

definition hlist_del :: "addr \<Rightarrow> hlist_mem \<Rightarrow> hlist_mem option" where
  "hlist_del n h = do {
     h \<leftarrow> raw_hlist_del n h;
     h \<leftarrow> set_cell n LIST_POISON1 h;
     set_pprev n LIST_POISON2 h }"

definition hlist_del_init :: "addr \<Rightarrow> hlist_mem \<Rightarrow> hlist_mem option" where
  "hlist_del_init n h = do {
     u \<leftarrow> hlist_unhashed n h;
     if \<not> u then do { h \<leftarrow> raw_hlist_del n h; INIT_HLIST_NODE n h } else Some h }"

definition hlist_add_head :: "addr \<Rightarrow> addr \<Rightarrow> hlist_mem \<Rightarrow> hlist_mem option" where
  "hlist_add_head n hd1 h = do {
     first \<leftarrow> cell h hd1;
     h \<leftarrow> set_cell n first h;
     h \<leftarrow> (if first \<noteq> 0 then set_pprev first n h else Some h);
     h \<leftarrow> set_cell hd1 n h;
     set_pprev n hd1 h }"

definition hlist_add_before :: "addr \<Rightarrow> addr \<Rightarrow> hlist_mem \<Rightarrow> hlist_mem option" where
  "hlist_add_before n next h = do {
     pp \<leftarrow> pprev h next;
     h \<leftarrow> set_pprev n pp h;
     h \<leftarrow> set_cell n next h;
     h \<leftarrow> set_pprev next n h;
     pp \<leftarrow> pprev h n;
     set_cell pp n h }"

definition hlist_add_behind :: "addr \<Rightarrow> addr \<Rightarrow> hlist_mem \<Rightarrow> hlist_mem option" where
  "hlist_add_behind n prev h = do {
     nxt \<leftarrow> cell h prev;
     h \<leftarrow> set_cell n nxt h;
     h \<leftarrow> set_cell prev n h;
     h \<leftarrow> set_pprev n prev h;
     nxt \<leftarrow> cell h n;
     if nxt \<noteq> 0 then set_pprev nxt n h else Some h }"

definition hlist_add_fake :: "addr \<Rightarrow> hlist_mem \<Rightarrow> hlist_mem option" where
  "hlist_add_fake n h = set_pprev n n h"

definition hlist_move_list :: "addr \<Rightarrow> addr \<Rightarrow> hlist_mem \<Rightarrow> hlist_mem option" where
  "hlist_move_list old new1 h = do {
     f \<leftarrow> cell h old;
     h \<leftarrow> set_cell new1 f h;
     f \<leftarrow> cell h new1;
     h \<leftarrow> (if f \<noteq> 0 then set_pprev f new1 h else Some h);
     set_cell old 0 h }"

definition hlist_entry :: "addr \<Rightarrow> addr \<Rightarrow> addr" where
  "hlist_entry ptr off = container_of ptr off"

definition hlist_entry_safe :: "addr \<Rightarrow> addr \<Rightarrow> addr" where
  "hlist_entry_safe ptr off = (if ptr \<noteq> 0 then hlist_entry ptr off else 0)"

text \<open>
  The loops stop at the null cursor. The plain ones read the next pointer after the body; the safe ones read it before.
\<close>

partial_function (option) hloop ::
  "(addr \<Rightarrow> hlist_mem \<Rightarrow> addr option) \<Rightarrow> (addr \<Rightarrow> 's \<Rightarrow> hlist_mem \<Rightarrow> ('s \<times> hlist_mem) option) \<Rightarrow>
   addr \<Rightarrow> 's \<Rightarrow> hlist_mem \<Rightarrow> ('s \<times> hlist_mem) option" where
  "hloop step body pos s h =
     (if pos = 0 then Some (s, h)
      else Option.bind (body pos s h) (\<lambda>sh. Option.bind (step pos (snd sh)) (\<lambda>pos'.
             hloop step body pos' (fst sh) (snd sh))))"

partial_function (option) hloop_safe ::
  "(addr \<Rightarrow> hlist_mem \<Rightarrow> addr option) \<Rightarrow> (addr \<Rightarrow> addr) \<Rightarrow> (addr \<Rightarrow> 's \<Rightarrow> hlist_mem \<Rightarrow> ('s \<times> hlist_mem) option) \<Rightarrow>
   addr \<Rightarrow> 's \<Rightarrow> hlist_mem \<Rightarrow> ('s \<times> hlist_mem) option" where
  "hloop_safe rd ent body pos s h =
     (if pos = 0 then Some (s, h)
      else Option.bind (rd pos h) (\<lambda>n. Option.bind (body pos s h) (\<lambda>sh.
             hloop_safe rd ent body (ent n) (fst sh) (snd sh))))"

definition hlist_next_entry :: "addr \<Rightarrow> addr \<Rightarrow> hlist_mem \<Rightarrow> addr option" where
  "hlist_next_entry off pos h = map_option (\<lambda>n. hlist_entry_safe n off) (cell h (pos + off))"

definition hlist_for_each :: "(addr \<Rightarrow> 's \<Rightarrow> hlist_mem \<Rightarrow> ('s \<times> hlist_mem) option) \<Rightarrow> addr \<Rightarrow> 's \<Rightarrow> hlist_mem \<Rightarrow> ('s \<times> hlist_mem) option" where
  "hlist_for_each body head s h = do { pos \<leftarrow> cell h head; hloop (\<lambda>pos h. cell h pos) body pos s h }"

definition hlist_for_each_safe :: "(addr \<Rightarrow> 's \<Rightarrow> hlist_mem \<Rightarrow> ('s \<times> hlist_mem) option) \<Rightarrow> addr \<Rightarrow> 's \<Rightarrow> hlist_mem \<Rightarrow> ('s \<times> hlist_mem) option" where
  "hlist_for_each_safe body head s h = do { pos \<leftarrow> cell h head; hloop_safe (\<lambda>pos h. cell h pos) (\<lambda>n. n) body pos s h }"

definition hlist_for_each_entry :: "(addr \<Rightarrow> 's \<Rightarrow> hlist_mem \<Rightarrow> ('s \<times> hlist_mem) option) \<Rightarrow> addr \<Rightarrow> addr \<Rightarrow> 's \<Rightarrow> hlist_mem \<Rightarrow> ('s \<times> hlist_mem) option" where
  "hlist_for_each_entry body off head s h = do {
     p \<leftarrow> cell h head; hloop (hlist_next_entry off) body (hlist_entry_safe p off) s h }"

definition hlist_for_each_entry_continue :: "(addr \<Rightarrow> 's \<Rightarrow> hlist_mem \<Rightarrow> ('s \<times> hlist_mem) option) \<Rightarrow> addr \<Rightarrow> addr \<Rightarrow> 's \<Rightarrow> hlist_mem \<Rightarrow> ('s \<times> hlist_mem) option" where
  "hlist_for_each_entry_continue body off pos s h = do {
     pos \<leftarrow> hlist_next_entry off pos h; hloop (hlist_next_entry off) body pos s h }"

definition hlist_for_each_entry_from :: "(addr \<Rightarrow> 's \<Rightarrow> hlist_mem \<Rightarrow> ('s \<times> hlist_mem) option) \<Rightarrow> addr \<Rightarrow> addr \<Rightarrow> 's \<Rightarrow> hlist_mem \<Rightarrow> ('s \<times> hlist_mem) option" where
  "hlist_for_each_entry_from body off pos s h = hloop (hlist_next_entry off) body pos s h"

definition hlist_for_each_entry_safe :: "(addr \<Rightarrow> 's \<Rightarrow> hlist_mem \<Rightarrow> ('s \<times> hlist_mem) option) \<Rightarrow> addr \<Rightarrow> addr \<Rightarrow> 's \<Rightarrow> hlist_mem \<Rightarrow> ('s \<times> hlist_mem) option" where
  "hlist_for_each_entry_safe body off head s h = do {
     p \<leftarrow> cell h head;
     hloop_safe (\<lambda>pos h. cell h (pos + off)) (\<lambda>n. hlist_entry_safe n off) body (hlist_entry_safe p off) s h }"

subsection \<open>Lists in memory\<close>

text \<open>From the cell \<open>a\<close> the pointers lead through \<open>xs\<close> to null, and every node knows the cell that points to it.\<close>

fun hseg :: "(addr \<rightharpoonup> addr) \<Rightarrow> (addr \<rightharpoonup> addr) \<Rightarrow> addr \<Rightarrow> addr list \<Rightarrow> bool" where
  "hseg C P a [] \<longleftrightarrow> C a = Some 0"
| "hseg C P a (x # xs) \<longleftrightarrow> C a = Some x \<and> x \<noteq> 0 \<and> P x = Some a \<and> hseg C P x xs"

definition hlist :: "hlist_mem \<Rightarrow> addr \<Rightarrow> addr list \<Rightarrow> bool" where
  "hlist h hdr xs \<longleftrightarrow> distinct (0 # hdr # xs) \<and> hseg (cell h) (pprev h) hdr xs"

definition hnode :: "hlist_mem \<Rightarrow> addr \<Rightarrow> bool" where
  "hnode h p \<longleftrightarrow> p \<in> dom (cell h) \<and> p \<in> dom (pprev h) \<and> p \<noteq> 0"

definition hframe :: "addr set \<Rightarrow> hlist_mem \<Rightarrow> hlist_mem \<Rightarrow> bool" where
  "hframe A h h' \<longleftrightarrow> (\<forall>p. p \<notin> A \<longrightarrow> cell h' p = cell h p \<and> pprev h' p = pprev h p) \<and>
     dom (cell h') = dom (cell h) \<and> dom (pprev h') = dom (pprev h)"

lemmas hmem_defs = set_cell_def set_pprev_def

lemma hseg_upd [simp]:
  "p \<notin> insert a (set xs) \<Longrightarrow> hseg (C(p \<mapsto> v)) P a xs = hseg C P a xs"
  "p \<notin> set xs \<Longrightarrow> hseg C (P(p \<mapsto> v)) a xs = hseg C P a xs"
  by (induction xs arbitrary: a) auto

lemma hseg_cong:
  "\<forall>p \<in> insert a (set xs). C' p = C p \<Longrightarrow> \<forall>p \<in> set xs. P' p = P p \<Longrightarrow> hseg C' P' a xs = hseg C P a xs"
  by (induction xs arbitrary: a) auto

lemma hseg_nodes: "hseg C P a xs \<Longrightarrow> insert a (set xs) \<subseteq> dom C \<and> set xs \<subseteq> dom P \<and> 0 \<notin> set xs"
  by (induction xs arbitrary: a) auto

text \<open>A segment can be cut at an element: the front ends at the cell that points to it.\<close>

fun hpath :: "(addr \<rightharpoonup> addr) \<Rightarrow> (addr \<rightharpoonup> addr) \<Rightarrow> addr \<Rightarrow> addr list \<Rightarrow> bool" where
  "hpath C P a [] \<longleftrightarrow> True"
| "hpath C P a (x # xs) \<longleftrightarrow> C a = Some x \<and> x \<noteq> 0 \<and> P x = Some a \<and> hpath C P x xs"

lemma hseg_append: "hseg C P a (xs @ ys) \<longleftrightarrow> hpath C P a xs \<and> hseg C P (last (a # xs)) ys"
  by (induction xs arbitrary: a) auto

lemma hpath_upd [simp]:
  "p \<notin> set (butlast (a # xs)) \<Longrightarrow> hpath (C(p \<mapsto> v)) P a xs = hpath C P a xs"
  "p \<notin> set xs \<Longrightarrow> hpath C (P(p \<mapsto> v)) a xs = hpath C P a xs"
  by (induction xs arbitrary: a) (auto split: if_splits)

lemma last_notin_butlast: "distinct (a # xs) \<Longrightarrow> last (a # xs) \<notin> set (butlast (a # xs))"
  by (cases xs rule: rev_cases) auto

lemma butlast_subset: "p \<notin> insert a (set xs) \<Longrightarrow> p \<notin> set (butlast (a # xs))"
  using in_set_butlastD by fastforce

lemma hframe_refl: "hframe A h h"
  by (simp add: hframe_def)

lemma hframe_trans: "hframe A h h' \<Longrightarrow> hframe B h' h'' \<Longrightarrow> A \<union> B \<subseteq> C \<Longrightarrow> hframe C h h''"
  unfolding hframe_def by (metis Un_iff subsetD)

lemma hnode_frame: "hframe A h h' \<Longrightarrow> hnode h' p = hnode h p"
  by (auto simp: hframe_def hnode_def)

lemma hlist_frame: "hlist h hdr xs \<Longrightarrow> hframe A h h' \<Longrightarrow> A \<inter> insert hdr (set xs) = {} \<Longrightarrow> hlist h' hdr xs"
  unfolding hlist_def hframe_def by (subst hseg_cong [of hdr xs _ "cell h" _ "pprev h"]) auto

lemma hlist_nodes:
  assumes "hlist h hdr xs"
  shows "hdr \<in> dom (cell h)" "p \<in> set xs \<Longrightarrow> hnode h p"
  using assms hseg_nodes [of "cell h" "pprev h" hdr xs] by (auto simp: hlist_def hnode_def)

subsection \<open>Operations\<close>

lemma add_head_hlist:
  assumes "hlist h hdr xs" "hnode h n" "n \<notin> insert hdr (set xs)"
  shows "\<exists>h'. hlist_add_head n hdr h = Some h' \<and> hlist h' hdr (n # xs) \<and> hframe (insert n (insert hdr (set xs))) h h'"
  using assms hlist_nodes [OF assms(1)]
  by (cases xs) (auto simp: hlist_def hnode_def hlist_add_head_def hmem_defs hframe_def)

lemma hlist_mid:
  assumes "hlist h hdr (ys @ e # zs)"
  shows "hpath (cell h) (pprev h) hdr ys" "cell h (last (hdr # ys)) = Some e" "pprev h e = Some (last (hdr # ys))"
    "hseg (cell h) (pprev h) e zs" "hnode h e" "distinct (0 # hdr # ys @ e # zs)" "last (hdr # ys) \<in> insert hdr (set ys)"
    "last (hdr # ys) \<in> dom (cell h)" "last (hdr # ys) \<notin> set (butlast (hdr # ys))" "last (hdr # ys) \<notin> insert e (set zs)"
    "last (hdr # ys) \<noteq> 0"
  using assms hlist_nodes [OF assms] last_notin_butlast [of hdr ys]
  by (auto simp: hlist_def hseg_append, (cases ys rule: rev_cases; auto)+)

lemma add_before_hlist:
  assumes "hlist h hdr (ys @ e # zs)" "hnode h n" "n \<notin> insert hdr (set (ys @ e # zs))"
  shows "\<exists>h'. hlist_add_before n e h = Some h' \<and> hlist h' hdr (ys @ n # e # zs)
    \<and> hframe (insert n (insert hdr (set (ys @ e # zs)))) h h'"
proof -
  note m = hlist_mid [OF assms(1)]
  define q where "q = last (hdr # ys)"
  have n: "n \<notin> set (butlast (hdr # ys))" using assms(3) butlast_subset [of n hdr ys] by simp
  have "hlist_add_before n e h = Some (h\<lparr>cell := (cell h)(n \<mapsto> e, q \<mapsto> n), pprev := (pprev h)(n \<mapsto> q, e \<mapsto> n)\<rparr>)"
    using m assms(2,3) unfolding q_def [symmetric] by (auto simp: hlist_add_before_def hmem_defs hnode_def)
  moreover have "hlist (h\<lparr>cell := (cell h)(n \<mapsto> e, q \<mapsto> n), pprev := (pprev h)(n \<mapsto> q, e \<mapsto> n)\<rparr>) hdr (ys @ n # e # zs)"
    using m assms(2,3) n unfolding hlist_def hseg_append q_def [symmetric] by (auto simp: hnode_def)
  moreover have "hframe (insert n (insert hdr (set (ys @ e # zs)))) h
      (h\<lparr>cell := (cell h)(n \<mapsto> e, q \<mapsto> n), pprev := (pprev h)(n \<mapsto> q, e \<mapsto> n)\<rparr>)"
    using m assms(2,3) unfolding q_def [symmetric] by (auto simp: hframe_def hnode_def)
  ultimately show ?thesis by blast
qed

lemma add_behind_hlist:
  assumes "hlist h hdr (ys @ e # zs)" "hnode h n" "n \<notin> insert hdr (set (ys @ e # zs))"
  shows "\<exists>h'. hlist_add_behind n e h = Some h' \<and> hlist h' hdr (ys @ e # n # zs)
    \<and> hframe (insert n (insert hdr (set (ys @ e # zs)))) h h'"
proof -
  note m = hlist_mid [OF assms(1)]
  define q where "q = last (hdr # ys)"
  have b: "n \<notin> set (butlast (hdr # ys))" "e \<notin> set (butlast (hdr # ys))"
    using assms(3) m(6) butlast_subset [of n hdr ys] butlast_subset [of e hdr ys] by auto
  show ?thesis
  proof (cases zs)
    case Nil
    with m assms(2,3) b show ?thesis unfolding hlist_def hseg_append q_def [symmetric]
      by (auto simp: hlist_add_behind_def hmem_defs hnode_def hframe_def)
  next
    case (Cons z zs')
    with m assms(2,3) b hlist_nodes(2) [OF assms(1), of z] show ?thesis unfolding hlist_def hseg_append q_def [symmetric]
      by (auto simp: hlist_add_behind_def hmem_defs hnode_def hframe_def)
  qed
qed


lemma raw_del_hlist:
  assumes "hlist h hdr (ys @ e # zs)"
  shows "\<exists>h'. raw_hlist_del e h = Some h' \<and> hlist h' hdr (ys @ zs) \<and> hframe (insert hdr (set ys \<union> set zs)) h h'"
proof -
  note m = hlist_mid [OF assms]
  define q where "q = last (hdr # ys)"
  show ?thesis
  proof (cases zs)
    case Nil
    with m show ?thesis unfolding hlist_def hseg_append q_def [symmetric]
      by (auto simp: raw_hlist_del_def hmem_defs hnode_def hframe_def)
  next
    case (Cons z zs')
    with m hlist_nodes(2) [OF assms, of z] show ?thesis unfolding hlist_def hseg_append q_def [symmetric]
      by (auto simp: raw_hlist_del_def hmem_defs hnode_def hframe_def)
  qed
qed

lemma set_hlinks_frame:
  assumes "hnode h e"
  shows "\<exists>h'. Option.bind (set_cell e v h) (set_pprev e w) = Some h' \<and> hframe {e} h h' \<and> cell h' e = Some v \<and> pprev h' e = Some w"
  using assms by (auto simp: hmem_defs hnode_def hframe_def)

lemma unlinked_hlist:
  assumes "hlist h hdr (ys @ e # zs)"
  shows "\<exists>h1 h'. raw_hlist_del e h = Some h1 \<and> Option.bind (set_cell e v h1) (set_pprev e w) = Some h' \<and> hlist h' hdr (ys @ zs)
    \<and> cell h' e = Some v \<and> pprev h' e = Some w \<and> hframe (insert hdr (set (ys @ e # zs))) h h'"
proof -
  from raw_del_hlist [OF assms] obtain h1 where h1: "raw_hlist_del e h = Some h1" "hlist h1 hdr (ys @ zs)"
    "hframe (insert hdr (set ys \<union> set zs)) h h1" by blast
  have "hnode h1 e" using hnode_frame [OF h1(3)] hlist_mid(5) [OF assms] by simp
  from set_hlinks_frame [OF this, of v w] obtain h2 where h2: "Option.bind (set_cell e v h1) (set_pprev e w) = Some h2"
    "hframe {e} h1 h2" "cell h2 e = Some v" "pprev h2 e = Some w" by blast
  have "hlist h2 hdr (ys @ zs)" by (rule hlist_frame [OF h1(2) h2(2)]) (use hlist_mid(6) [OF assms] in auto)
  moreover have "hframe (insert hdr (set (ys @ e # zs))) h h2" by (rule hframe_trans [OF h1(3) h2(2)]) auto
  ultimately show ?thesis using h1 h2 by blast
qed

lemma del_hlist:
  assumes "hlist h hdr (ys @ e # zs)"
  shows "\<exists>h'. hlist_del e h = Some h' \<and> hlist h' hdr (ys @ zs) \<and> cell h' e = Some LIST_POISON1 \<and> pprev h' e = Some LIST_POISON2
    \<and> hframe (insert hdr (set (ys @ e # zs))) h h'"
  using unlinked_hlist [OF assms, of LIST_POISON1 LIST_POISON2] by (auto simp: hlist_del_def)

lemma unhashed_hlist:
  assumes "hlist h hdr (ys @ e # zs)" shows "hlist_unhashed e h = Some False"
  using hlist_mid(3,11) [OF assms] by (simp add: hlist_unhashed_def)

lemma del_init_hlist:
  assumes "hlist h hdr (ys @ e # zs)"
  shows "\<exists>h'. hlist_del_init e h = Some h' \<and> hlist h' hdr (ys @ zs) \<and> hlist_unhashed e h' = Some True
    \<and> hlist_del_init e h' = Some h' \<and> hframe (insert hdr (set (ys @ e # zs))) h h'"
  using unlinked_hlist [OF assms, of 0 0] unhashed_hlist [OF assms]
  by (auto simp: hlist_del_init_def INIT_HLIST_NODE_def hlist_unhashed_def)

lemma empty_hlist: "hlist h hdr xs \<Longrightarrow> hlist_empty hdr h = Some (xs = [])"
  by (cases xs) (auto simp: hlist_empty_def hlist_def)

text \<open>A node that was added to no list deletes itself harmlessly.\<close>

lemma fake_hlist:
  assumes "hnode h n" "cell h n = Some 0"
  shows "\<exists>h1 h2. hlist_add_fake n h = Some h1 \<and> hlist_unhashed n h1 = Some False \<and> hlist_del n h1 = Some h2 \<and> hframe {n} h h2"
  using assms by (auto simp: hlist_add_fake_def hlist_unhashed_def hlist_del_def raw_hlist_del_def hmem_defs hnode_def hframe_def)

lemma move_list_hlist:
  assumes "hlist h old xs" "new1 \<in> dom (cell h)" "new1 \<notin> set (0 # old # xs)"
  shows "\<exists>h'. hlist_move_list old new1 h = Some h' \<and> hlist h' new1 xs \<and> hlist h' old [] \<and> hframe (insert new1 (insert old (set xs))) h h'"
  using assms hlist_nodes [OF assms(1)]
  by (cases xs) (auto simp: hlist_def hlist_move_list_def hmem_defs hframe_def hnode_def)

subsection \<open>Iteration\<close>

definition hreads :: "(addr \<Rightarrow> 's \<Rightarrow> 's) \<Rightarrow> addr \<Rightarrow> 's \<Rightarrow> hlist_mem \<Rightarrow> ('s \<times> hlist_mem) option" where
  "hreads f pos s h = Some (f pos s, h)"

definition hdrops :: "addr \<Rightarrow> unit \<Rightarrow> hlist_mem \<Rightarrow> (unit \<times> hlist_mem) option" where
  "hdrops pos u h = do { h' \<leftarrow> hlist_del pos h; Some ((), h') }"

lemma hloop_chain:
  assumes step: "\<forall>p q. p \<noteq> 0 \<longrightarrow> cell h p = Some q \<longrightarrow> step (ent p) h = Some (ent q)"
    and ent: "ent 0 = 0" "\<forall>p \<in> set xs. ent p \<noteq> 0"
    and chain: "hseg (cell h) P a xs"
  shows "\<exists>p. cell h a = Some p \<and> hloop step (hreads f) (ent p) s h = Some (fold f (map ent xs) s, h)"
  using chain ent(2)
proof (induction xs arbitrary: a s)
  case Nil
  then show ?case by (simp add: ent(1) hloop.simps)
next
  case (Cons x xs)
  from Cons.prems Cons.IH [of x "f (ent x) s"] obtain p where p: "cell h x = Some p"
    "hloop step (hreads f) (ent p) (f (ent x) s) h = Some (fold f (map ent xs) (f (ent x) s), h)" by auto
  with Cons.prems step show ?case by (subst hloop.simps) (simp add: hreads_def)
qed

lemma hloop_safe_chain:
  assumes rd: "\<forall>p. p \<noteq> 0 \<longrightarrow> rd (ent p) h = cell h p"
    and ent: "ent 0 = 0" "\<forall>p \<in> set xs. ent p \<noteq> 0"
    and chain: "hseg (cell h) P a xs"
  shows "\<exists>p. cell h a = Some p \<and> hloop_safe rd ent (hreads f) (ent p) s h = Some (fold f (map ent xs) s, h)"
  using chain ent(2)
proof (induction xs arbitrary: a s)
  case Nil
  then show ?case by (simp add: ent(1) hloop_safe.simps)
next
  case (Cons x xs)
  from Cons.prems Cons.IH [of x "f (ent x) s"] obtain p where p: "cell h x = Some p"
    "hloop_safe rd ent (hreads f) (ent p) (f (ent x) s) h = Some (fold f (map ent xs) (f (ent x) s), h)" by auto
  with Cons.prems rd show ?case by (subst hloop_safe.simps) (simp add: hreads_def)
qed

text \<open>
  An entry of a node must not be at address 0: the member offset differs from every node address. The cursor of the entry loops
  tests the entry, not the node.
\<close>

lemma hentry_steps:
  shows "\<forall>p q. p \<noteq> 0 \<longrightarrow> cell h p = Some q \<longrightarrow> hlist_next_entry off (hlist_entry_safe p off) h = Some (hlist_entry_safe q off)"
    "\<forall>p. p \<noteq> 0 \<longrightarrow> cell h (hlist_entry_safe p off + off) = cell h p" "hlist_entry_safe 0 off = 0"
    "\<forall>p \<in> set xs. p \<noteq> 0 \<and> p \<noteq> off \<Longrightarrow> \<forall>p \<in> set xs. hlist_entry_safe p off \<noteq> 0"
  by (auto simp: hlist_next_entry_def hlist_entry_safe_def hlist_entry_def container_of_def)

lemma hlist_for_each_chain:
  assumes "hlist h hdr xs"
  shows "hlist_for_each (hreads f) hdr s h = Some (fold f xs s, h)" "hlist_for_each_safe (hreads f) hdr s h = Some (fold f xs s, h)"
proof -
  have c: "hseg (cell h) (pprev h) hdr xs" and nz: "\<forall>p \<in> set xs. p \<noteq> 0" using assms by (auto simp: hlist_def)
  show "hlist_for_each (hreads f) hdr s h = Some (fold f xs s, h)"
    using hloop_chain [of h "\<lambda>pos h. cell h pos" "\<lambda>p. p" xs "pprev h" hdr f s, OF _ _ nz c] by (auto simp: hlist_for_each_def)
  show "hlist_for_each_safe (hreads f) hdr s h = Some (fold f xs s, h)"
    using hloop_safe_chain [of "\<lambda>pos h. cell h pos" "\<lambda>p. p" h xs "pprev h" hdr f s, OF _ _ nz c] by (auto simp: hlist_for_each_safe_def)
qed

lemma hentry_loops:
  assumes "hseg (cell h) P a xs" "\<forall>p \<in> set xs. p \<noteq> 0 \<and> p \<noteq> off"
  shows "\<exists>p. cell h a = Some p \<and> hloop (hlist_next_entry off) (hreads f) (hlist_entry_safe p off) s h
      = Some (fold f (map (\<lambda>p. hlist_entry_safe p off) xs) s, h)"
    "\<exists>p. cell h a = Some p \<and> hloop_safe (\<lambda>pos h. cell h (pos + off)) (\<lambda>n. hlist_entry_safe n off) (hreads f) (hlist_entry_safe p off) s h
      = Some (fold f (map (\<lambda>p. hlist_entry_safe p off) xs) s, h)"
  by (rule hloop_chain [of h "hlist_next_entry off" "\<lambda>p. hlist_entry_safe p off" xs P a f s,
        OF hentry_steps(1) hentry_steps(3) hentry_steps(4) [OF assms(2)] assms(1)])
    (rule hloop_safe_chain [of "\<lambda>pos h. cell h (pos + off)" "\<lambda>p. hlist_entry_safe p off" h xs P a f s,
        OF hentry_steps(2) hentry_steps(3) hentry_steps(4) [OF assms(2)] assms(1)])

lemma hlist_entry_chain:
  assumes "hlist h hdr (ys @ e # zs)" "off \<notin> set (ys @ e # zs)"
  shows "hlist_for_each_entry (hreads f) off hdr s h = Some (fold f (map (\<lambda>p. hlist_entry_safe p off) (ys @ e # zs)) s, h)"
    "hlist_for_each_entry_safe (hreads f) off hdr s h = Some (fold f (map (\<lambda>p. hlist_entry_safe p off) (ys @ e # zs)) s, h)"
    "hlist_for_each_entry_continue (hreads f) off (hlist_entry_safe e off) s h = Some (fold f (map (\<lambda>p. hlist_entry_safe p off) zs) s, h)"
    "hlist_for_each_entry_from (hreads f) off (hlist_entry_safe e off) s h = Some (fold f (map (\<lambda>p. hlist_entry_safe p off) (e # zs)) s, h)"
proof -
  note m = hlist_mid [OF assms(1)]
  have c: "hseg (cell h) (pprev h) hdr (ys @ e # zs)" using assms(1) by (simp add: hlist_def)
  have nz: "\<forall>p \<in> set (ys @ e # zs). p \<noteq> 0 \<and> p \<noteq> off" using m(6) assms(2) by auto
  from hentry_loops [OF c nz, of f s]
  show "hlist_for_each_entry (hreads f) off hdr s h = Some (fold f (map (\<lambda>p. hlist_entry_safe p off) (ys @ e # zs)) s, h)"
    "hlist_for_each_entry_safe (hreads f) off hdr s h = Some (fold f (map (\<lambda>p. hlist_entry_safe p off) (ys @ e # zs)) s, h)"
    by (auto simp: hlist_for_each_entry_def hlist_for_each_entry_safe_def)
  have nz': "\<forall>p \<in> set zs. p \<noteq> 0 \<and> p \<noteq> off" "\<forall>p \<in> set (e # zs). p \<noteq> 0 \<and> p \<noteq> off" using nz by auto
  show "hlist_for_each_entry_continue (hreads f) off (hlist_entry_safe e off) s h = Some (fold f (map (\<lambda>p. hlist_entry_safe p off) zs) s, h)"
    using hentry_loops(1) [OF m(4) nz'(1), of f s] hentry_steps(1) [of h off] nz'(2) by (auto simp: hlist_for_each_entry_continue_def)
  have "hseg (cell h) (pprev h) (last (hdr # ys)) (e # zs)" using c unfolding hseg_append by blast
  from hentry_loops(1) [OF this nz'(2), of f s] m(2)
  show "hlist_for_each_entry_from (hreads f) off (hlist_entry_safe e off) s h = Some (fold f (map (\<lambda>p. hlist_entry_safe p off) (e # zs)) s, h)"
    by (auto simp: hlist_for_each_entry_from_def)
qed

lemma hsafe_delete_loop:
  assumes "hlist h hdr xs"
  shows "\<exists>h' p. cell h hdr = Some p \<and> hloop_safe (\<lambda>pos h. cell h pos) (\<lambda>n. n) hdrops p () h = Some ((), h') \<and> hlist h' hdr []"
  using assms
proof (induction xs arbitrary: h)
  case Nil
  then show ?case by (auto simp: hlist_def hloop_safe.simps)
next
  case (Cons x xs)
  from del_hlist [of h hdr "[]" x xs] Cons.prems obtain h1 where h1: "hlist_del x h = Some h1" "hlist h1 hdr xs" by auto
  from Cons.IH [OF h1(2)] obtain h2 p where h2: "cell h1 hdr = Some p"
    "hloop_safe (\<lambda>pos h. cell h pos) (\<lambda>n. n) hdrops p () h1 = Some ((), h2)" "hlist h2 hdr []" by blast
  have x: "cell h hdr = Some x" "x \<noteq> 0" using Cons.prems by (auto simp: hlist_def)
  have "cell h x = Some p" using Cons.prems h1(2) h2(1) by (cases xs) (auto simp: hlist_def)
  with x h1 h2 show ?case by (auto simp: hloop_safe.simps [of _ _ _ x] hdrops_def [of x])
qed


subsection \<open>Properties\<close>

interpretation hbucket: linked_seq "\<lambda>h. hlist h hdr" "\<lambda>h e. hnode h e \<and> e \<noteq> hdr" "\<lambda>e. hlist_add_head e hdr" hlist_del for hdr
proof unfold_locales
  fix h e ys zs assume "hlist h hdr (ys @ e # zs)"
  from del_hlist [OF this] show "\<exists>h'. hlist_del e h = Some h' \<and> hlist h' hdr (ys @ zs) \<and> (\<forall>p. (hnode h' p \<and> p \<noteq> hdr) = (hnode h p \<and> p \<noteq> hdr))"
    by (auto simp: hnode_frame)
next
  fix h xs e assume "hlist h hdr xs" "hnode h e \<and> e \<noteq> hdr" "e \<notin> set xs"
  with add_head_hlist [of h hdr xs e]
  show "\<exists>h'. hlist_add_head e hdr h = Some h' \<and> hlist h' hdr (e # xs) \<and> (\<forall>p. (hnode h' p \<and> p \<noteq> hdr) = (hnode h p \<and> p \<noteq> hdr))"
    by (auto simp: hnode_frame)
qed (simp add: hlist_def)

definition sample_bucket :: hlist_mem where
  "sample_bucket = \<lparr>cell = [16 \<mapsto> 32, 32 \<mapsto> 48, 48 \<mapsto> 0, 64 \<mapsto> 0, 80 \<mapsto> 0, 96 \<mapsto> 0], pprev = [32 \<mapsto> 16, 48 \<mapsto> 32, 64 \<mapsto> 0]\<rparr>"

lemma sample_bucket_hlist: "hlist sample_bucket 16 [32, 48]" "hnode sample_bucket 64" "80 \<in> dom (cell sample_bucket)"
    "hlist sample_bucket 80 []" "96 \<in> dom (cell sample_bucket)"
  by (simp_all add: sample_bucket_def hlist_def hnode_def)

lemma hlist_around:
  assumes "hlist h hdr xs" "hnode h n" "n \<notin> set (hdr # xs)" "xs = ys @ e # zs"
  shows "(\<exists>h'. hlist_add_before n e h = Some h' \<and> hlist h' hdr (ys @ n # e # zs) \<and> hframe (set (n # hdr # xs)) h h')
    \<and> (\<exists>h'. hlist_add_behind n e h = Some h' \<and> hlist h' hdr (ys @ e # n # zs) \<and> hframe (set (n # hdr # xs)) h h')
    \<and> (\<exists>h'. hlist_del e h = Some h' \<and> hlist h' hdr (ys @ zs) \<and> hframe (set (hdr # xs)) h h')
    \<and> (\<exists>h'. hlist_del_init e h = Some h' \<and> hlist h' hdr (ys @ zs) \<and> hlist_unhashed e h' = Some True
         \<and> hlist_del_init e h' = Some h' \<and> hframe (set (hdr # xs)) h h')"
proof -
  note l = assms(1) [unfolded assms(4)]
  show ?thesis
    using add_before_hlist [OF l assms(2)] add_behind_hlist [OF l assms(2)] del_hlist [OF l] del_init_hlist [OF l] assms(3)
    unfolding assms(4) by (intro conjI) auto
qed

text \<open>
  C32. Operations on hash-bucket lists, empty or not: a node can be put in front, and the bucket moves as a whole to another head; around any element a
  node can be inserted before and behind it, and the element can be deleted (poisoned, or reinitialised and then unhashed, after which deleting it again
  does nothing). Every time the nodes stay a well formed list and nothing else in memory changes.
\<close>

theorem hlist_operations:
  assumes "hlist h hdr xs" "hnode h n" "n \<notin> set (hdr # xs)" "new1 \<in> dom (cell h)" "new1 \<notin> set (0 # hdr # xs)"
  shows "hlist_empty hdr h = Some (xs = [])
    \<and> (\<exists>h'. hlist_add_head n hdr h = Some h' \<and> hlist h' hdr (n # xs) \<and> hframe (set (n # hdr # xs)) h h')
    \<and> (\<exists>h'. hlist_move_list hdr new1 h = Some h' \<and> hlist h' new1 xs \<and> hlist h' hdr [] \<and> hframe (set (new1 # hdr # xs)) h h')
    \<and> (\<forall>ys e zs. xs = ys @ e # zs \<longrightarrow>
         (\<exists>h'. hlist_add_before n e h = Some h' \<and> hlist h' hdr (ys @ n # e # zs) \<and> hframe (set (n # hdr # xs)) h h')
       \<and> (\<exists>h'. hlist_add_behind n e h = Some h' \<and> hlist h' hdr (ys @ e # n # zs) \<and> hframe (set (n # hdr # xs)) h h')
       \<and> (\<exists>h'. hlist_del e h = Some h' \<and> hlist h' hdr (ys @ zs) \<and> hframe (set (hdr # xs)) h h')
       \<and> (\<exists>h'. hlist_del_init e h = Some h' \<and> hlist h' hdr (ys @ zs) \<and> hlist_unhashed e h' = Some True
            \<and> hlist_del_init e h' = Some h' \<and> hframe (set (hdr # xs)) h h'))"
  using empty_hlist [OF assms(1)] add_head_hlist [OF assms(1,2)] move_list_hlist [OF assms(1,4)] assms(3,5) hlist_around [OF assms(1-3)]
  by (intro conjI allI impI) auto

theorem hlist_operations_witness:
  "(\<exists>h'. hlist_add_before 64 48 sample_bucket = Some h' \<and> hlist h' 16 [32, 64, 48])
    \<and> (\<exists>h'. hlist_move_list 16 80 sample_bucket = Some h' \<and> hlist h' 80 [32, 48] \<and> hlist h' 16 [])
    \<and> (\<exists>h'. hlist_add_head 64 80 sample_bucket = Some h' \<and> hlist h' 80 [64])
    \<and> (\<exists>h'. hlist_move_list 80 96 sample_bucket = Some h' \<and> hlist h' 96 [])"
proof -
  have fresh: "64 \<notin> set (16 # [32, 48 :: addr])" "80 \<notin> set (0 # 16 # [32, 48 :: addr])" by simp_all
  note run = hlist_operations [OF sample_bucket_hlist(1,2) fresh(1) sample_bucket_hlist(3) fresh(2)]
  from run have "\<exists>h'. hlist_add_before 64 48 sample_bucket = Some h' \<and> hlist h' 16 ([32] @ 64 # 48 # [])"
    by (elim conjE) (drule spec [of _ "[32]"], drule spec [of _ 48], drule spec [of _ "[]"], auto)
  with run have 1: "\<exists>h'. hlist_add_before 64 48 sample_bucket = Some h' \<and> hlist h' 16 [32, 64, 48]"
    "\<exists>h'. hlist_move_list 16 80 sample_bucket = Some h' \<and> hlist h' 80 [32, 48] \<and> hlist h' 16 []" by auto
  have 2: "\<exists>h'. hlist_add_head 64 80 sample_bucket = Some h' \<and> hlist h' 80 [64]" "\<exists>h'. hlist_move_list 80 96 sample_bucket = Some h' \<and> hlist h' 96 []"
    using hlist_operations [of sample_bucket 80 "[]" 64 96] sample_bucket_hlist by auto
  from 1 2 show ?thesis by simp
qed

text \<open>
  The loops over a hash bucket end and visit exactly its entries in order, and the safe loop may delete every node it visits.
\<close>

theorem hlist_loops:
  assumes "hlist h hdr (ys @ e # zs)" "off \<notin> set (ys @ e # zs)"
  shows "hlist_for_each (hreads f) hdr s h = Some (fold f (ys @ e # zs) s, h)
    \<and> hlist_for_each_safe (hreads f) hdr s h = Some (fold f (ys @ e # zs) s, h)
    \<and> hlist_for_each_entry (hreads f) off hdr s h = Some (fold f (map (\<lambda>p. p - off) (ys @ e # zs)) s, h)
    \<and> hlist_for_each_entry_safe (hreads f) off hdr s h = Some (fold f (map (\<lambda>p. p - off) (ys @ e # zs)) s, h)
    \<and> hlist_for_each_entry_continue (hreads f) off (e - off) s h = Some (fold f (map (\<lambda>p. p - off) zs) s, h)
    \<and> hlist_for_each_entry_from (hreads f) off (e - off) s h = Some (fold f (map (\<lambda>p. p - off) (e # zs)) s, h)
    \<and> (\<exists>h'. hlist_for_each_safe hdrops hdr () h = Some ((), h') \<and> hlist h' hdr [])"
proof -
  have nz: "p \<noteq> 0" if "p \<in> set (ys @ e # zs)" for p using hlist_mid(6) [OF assms(1)] that by auto
  then have ent: "map (\<lambda>p. hlist_entry_safe p off) us = map (\<lambda>p. p - off) us" if "set us \<subseteq> set (ys @ e # zs)" for us
    using that by (auto simp: hlist_entry_safe_def hlist_entry_def container_of_def)
  have e: "hlist_entry_safe e off = e - off" using nz [of e] by (simp add: hlist_entry_safe_def hlist_entry_def container_of_def)
  have "set zs \<subseteq> set (ys @ e # zs)" "set (e # zs) \<subseteq> set (ys @ e # zs)" by auto
  note en = ent [OF subset_refl] this [THEN ent]
  have "\<exists>h'. hlist_for_each_safe hdrops hdr () h = Some ((), h') \<and> hlist h' hdr []"
    using hsafe_delete_loop [OF assms(1)] by (auto simp: hlist_for_each_safe_def)
  then show ?thesis
    using hlist_for_each_chain [OF assms(1), of f s] hlist_entry_chain [OF assms, of f s] unfolding en e by (intro conjI)
qed

theorem hlist_loops_witness:
  "hlist_for_each (hreads (#)) 16 [] sample_bucket = Some ([48, 32], sample_bucket)
    \<and> hlist_for_each_entry_continue (hreads (#)) 8 24 [] sample_bucket = Some ([40], sample_bucket)"
  using hlist_loops [of sample_bucket 16 "[]" 32 "[48]" 8 "(#)" "[]"] sample_bucket_hlist by simp

text \<open>
  Both kinds of list keep the promises of a linked sequence: nodes pushed onto a list and then unlinked again one by one, in
  any order, leave exactly the list there was before.
\<close>

theorem lists_push_unlink:
  assumes "distinct es" "distinct fs" "set fs = set es"
  shows "(dlist h hdr xs \<longrightarrow> list_all (\<lambda>e. node h e \<and> e \<noteq> hdr \<and> e \<notin> set xs) es \<longrightarrow>
      (\<exists>h1 h2. each_node (\<lambda>e. list_add e hdr) es h = Some h1 \<and> each_node list_del fs h1 = Some h2 \<and> dlist h2 hdr xs))
    \<and> (hlist k hdr xs \<longrightarrow> list_all (\<lambda>e. hnode k e \<and> e \<noteq> hdr \<and> e \<notin> set xs) es \<longrightarrow>
      (\<exists>h1 h2. each_node (\<lambda>e. hlist_add_head e hdr) es k = Some h1 \<and> each_node hlist_del fs h1 = Some h2 \<and> hlist h2 hdr xs))"
proof (intro conjI impI)
  assume "dlist h hdr xs" "list_all (\<lambda>e. node h e \<and> e \<noteq> hdr \<and> e \<notin> set xs) es"
  then show "\<exists>h1 h2. each_node (\<lambda>e. list_add e hdr) es h = Some h1 \<and> each_node list_del fs h1 = Some h2 \<and> dlist h2 hdr xs"
    by (intro klist.push_unlink_many) (use assms in \<open>auto simp: list_all_iff\<close>)
next
  assume "hlist k hdr xs" "list_all (\<lambda>e. hnode k e \<and> e \<noteq> hdr \<and> e \<notin> set xs) es"
  then show "\<exists>h1 h2. each_node (\<lambda>e. hlist_add_head e hdr) es k = Some h1 \<and> each_node hlist_del fs h1 = Some h2 \<and> hlist h2 hdr xs"
    by (intro hbucket.push_unlink_many) (use assms in \<open>auto simp: list_all_iff\<close>)
qed

theorem lists_push_unlink_witness:
  "(\<exists>h1 h2. each_node (\<lambda>e. list_add e 16) [32, 48, 64] sample_mem = Some h1 \<and> each_node list_del [48, 64, 32] h1 = Some h2 \<and> dlist h2 16 [])
    \<and> (\<exists>h1 h2. each_node (\<lambda>e. hlist_add_head e 16) [64] sample_bucket = Some h1 \<and> each_node hlist_del [64] h1 = Some h2 \<and> hlist h2 16 [32, 48])"
  using lists_push_unlink [of "[32, 48, 64]" "[48, 64, 32]" sample_mem 16 "[]"]
    lists_push_unlink [of "[64]" "[64]" _ 16 "[32, 48]" sample_bucket] sample_bucket_hlist sample_mem_dlist by auto

end
