(* ===== verification/Mem_Pool.thy ===== *)
theory Mem_Pool
  imports Interfaces
begin

text \<open>
  The fixed-size object pool of \<open>pool.c\<close>.

  The pool descriptor is a record with the fields of \<open>pool_t\<close> at their widths (\<open>int32_t block\<close> is an \<open>int\<close> whose overflow is an
  error). The state also holds what the pointers lead to: \<open>arr\<close> is the array at \<open>blocks\<close>, \<open>links\<close> the first word of every element, where a freed element keeps
  its \<open>next_free\<close>, and \<open>chunks\<close> the live allocations of the C library. \<open>alloc\<close> of the library is a parameter: it sees the
  number of earlier calls, the size and the live chunks, and answers with an address or 0; \<open>junk\<close> is the content of
  uninitialised memory. A dereference of \<open>NULL\<close>, an index out of range and a free of something that is not allocated are \<open>None\<close>.
\<close>

type_synonym addr = u64

record libc =
  alloc :: "nat \<Rightarrow> nat \<Rightarrow> (addr \<times> nat) list \<Rightarrow> addr"
  junk :: addr

record pool =
  element_size :: u32
  block_size :: u32
  used :: u32
  block :: int
  freed :: addr
  blocks_used :: u32
  blocks :: addr

record pool_mem = pool +
  arr :: "addr list"
  links :: "addr \<Rightarrow> addr"
  chunks :: "(addr \<times> nat) list"
  calls :: nat

subsection \<open>Definitions\<close>

definition c_malloc :: "libc \<Rightarrow> nat \<Rightarrow> pool_mem \<Rightarrow> addr \<times> pool_mem" where
  "c_malloc L n s =
     (let a = alloc L (calls s) n (chunks s)
      in (a, s\<lparr>calls := Suc (calls s), chunks := (if a = 0 then chunks s else (a, n) # chunks s)\<rparr>))"

definition c_free :: "addr \<Rightarrow> pool_mem \<Rightarrow> pool_mem option" where
  "c_free a s =
     (if a = 0 then Some s
      else if a \<in> fst ` set (chunks s) then Some (s\<lparr>chunks := filter (\<lambda>c. fst c \<noteq> a) (chunks s)\<rparr>)
      else None)"

text \<open>\<open>realloc\<close> gives up the old chunk only when it succeeds; the new one may be at the same place.\<close>

definition c_realloc :: "libc \<Rightarrow> addr \<Rightarrow> nat \<Rightarrow> pool_mem \<Rightarrow> addr \<times> pool_mem" where
  "c_realloc L old n s =
     (let rest = filter (\<lambda>c. fst c \<noteq> old) (chunks s); a = alloc L (calls s) n rest
      in (a, s\<lparr>calls := Suc (calls s), chunks := (if a = 0 then chunks s else (a, n) # rest)\<rparr>))"

definition POOL_BLOCKS_INITIAL :: u32 where "POOL_BLOCKS_INITIAL = 1"

definition max_u32 :: "u32 \<Rightarrow> u64 \<Rightarrow> u64" where
  "max_u32 a b = (if ucast a < b then b else ucast a)"

text \<open>\<open>for (i = from; i < n; ++i) blocks[i] = NULL\<close>\<close>

definition null_blocks :: "nat \<Rightarrow> nat \<Rightarrow> addr list \<Rightarrow> addr list" where
  "null_blocks from n xs = fold (\<lambda>i xs. xs[i := 0]) [from..<n] xs"

definition pool_free_all :: "pool_mem \<Rightarrow> pool_mem" where
  "pool_free_all s = s\<lparr>used := block_size s - 1, block := - 1, freed := 0\<rparr>"

definition pool_init :: "libc \<Rightarrow> u32 \<Rightarrow> u32 \<Rightarrow> pool_mem \<Rightarrow> int \<times> pool_mem" where
  "pool_init L esize bsize s =
     (let s = s\<lparr>element_size := ucast (max_u32 esize 8), block_size := bsize\<rparr>;
          s = pool_free_all s;
          s = s\<lparr>blocks_used := POOL_BLOCKS_INITIAL\<rparr>;
          (a, s) = c_malloc L (8 * unat (blocks_used s)) s;
          s = s\<lparr>blocks := a\<rparr>
      in if a = 0 then (- ENOMEM, s)
         else (0, s\<lparr>arr := null_blocks 0 (unat (blocks_used s)) (replicate (unat (blocks_used s)) (junk L))\<rparr>))"

text \<open>The loop of \<open>pool_deinit\<close> stops at the first \<open>NULL\<close>.\<close>

fun free_blocks :: "addr list \<Rightarrow> pool_mem \<Rightarrow> pool_mem option" where
  "free_blocks [] s = Some s"
| "free_blocks (a # as) s = (if a = 0 then Some s else Option.bind (c_free a s) (free_blocks as))"

definition pool_deinit :: "pool_mem \<Rightarrow> pool_mem option" where
  "pool_deinit s = do { s' \<leftarrow> free_blocks (take (unat (blocks_used s)) (arr s)) s; c_free (blocks s') s' }"

text \<open>
  When the array is full its size is doubled; \<open>realloc\<close> keeps the old contents and the new half is nulled. The result of \<open>realloc\<close> is
  not tested: after a failure the loop writes through \<open>NULL\<close>.
\<close>

definition pool_grow :: "libc \<Rightarrow> pool_mem \<Rightarrow> pool_mem option" where
  "pool_grow L s =
     (let s = s\<lparr>blocks_used := push_bit 1 (blocks_used s)\<rparr>;
          n = unat (blocks_used s);
          (a, s) = c_realloc L (blocks s) (8 * n) s
      in if a = 0 \<and> unat (drop_bit 1 (blocks_used s)) < n then None
         else Some (s\<lparr>blocks := a, arr := null_blocks (unat (drop_bit 1 (blocks_used s))) n
                (take n (arr s) @ replicate (n - length (arr s)) (junk L))\<rparr>))"

definition pool_next_block :: "libc \<Rightarrow> pool_mem \<Rightarrow> pool_mem option" where
  "pool_next_block L s =
     (if 2147483647 \<le> block s then None
      else do {
        let s = s\<lparr>used := 0, block := block s + 1\<rparr>;
        s \<leftarrow> (if block s = sint (blocks_used s) then pool_grow L s else Some s);
        b \<leftarrow> mem_load_int (arr s) (block s);
        if b = 0
        then (let (a, s) = c_malloc L (unat (element_size s * block_size s)) s
              in Some (s\<lparr>arr := (arr s)[nat (block s) := a]\<rparr>))
        else Some s })"

definition pool_malloc :: "libc \<Rightarrow> pool_mem \<Rightarrow> (addr \<times> pool_mem) option" where
  "pool_malloc L s =
     (if freed s \<noteq> 0 then Some (freed s, s\<lparr>freed := links s (freed s)\<rparr>)
      else do {
        let s = s\<lparr>used := used s + 1\<rparr>;
        s \<leftarrow> (if used s = block_size s then pool_next_block L s else Some s);
        b \<leftarrow> mem_load_int (arr s) (block s);
        Some (b + ucast (used s * element_size s), s) })"

definition pool_free :: "addr \<Rightarrow> pool_mem \<Rightarrow> pool_mem option" where
  "pool_free ptr s =
     (let pfreed = freed s; s = s\<lparr>freed := ptr\<rparr>
      in if ptr = 0 then None else Some (s\<lparr>links := (links s)(ptr := pfreed)\<rparr>))"

text \<open>The program writes to an element it has allocated: this may change the first word of the element.\<close>

definition write_element :: "addr \<Rightarrow> addr \<Rightarrow> pool_mem \<Rightarrow> pool_mem" where
  "write_element p v s = s\<lparr>links := (links s)(p := v)\<rparr>"

subsection \<open>Geometry\<close>

text \<open>
  The documented behaviour of an allocator that does not run out of memory: a region disjoint from all live ones. It is asked only of
  the calls that a pool can make: less than \<open>2 ^ 30 + 1024\<close> calls, for at most \<open>2 ^ 33\<close> bytes each, while the live
  chunks are answers to earlier calls.
\<close>

definition apart :: "addr \<Rightarrow> nat \<Rightarrow> addr \<Rightarrow> nat \<Rightarrow> bool" where
  "apart a n b m \<longleftrightarrow> unat a + n \<le> unat b \<or> unat b + m \<le> unat a"

definition issued :: "libc \<Rightarrow> nat \<Rightarrow> addr \<times> nat \<Rightarrow> bool" where
  "issued L t c \<longleftrightarrow> snd c \<le> 2 ^ 33 \<and> (\<exists>t' < t. \<exists>cs. fst c = alloc L t' (snd c) cs)"

definition alloc_ok :: "libc \<Rightarrow> bool" where
  "alloc_ok L \<longleftrightarrow> (\<forall>t n cs. t < 2 ^ 30 + 1024 \<longrightarrow> n \<le> 2 ^ 33 \<longrightarrow> (\<forall>c \<in> set cs. issued L t c) \<longrightarrow>
     (\<forall>c \<in> set cs. apart (alloc L t n cs) n (fst c) (snd c)) \<and> alloc L t n cs \<noteq> 0 \<and> unat (alloc L t n cs) + n < 2 ^ 64)"

definition block_bytes :: "pool_mem \<Rightarrow> nat" where
  "block_bytes s = unat (element_size s) * unat (block_size s)"

definition allocated :: "pool_mem \<Rightarrow> addr list" where
  "allocated s = takeWhile (\<lambda>a. a \<noteq> 0) (arr s)"

definition element :: "pool_mem \<Rightarrow> nat \<Rightarrow> nat \<Rightarrow> addr" where
  "element s b u = arr s ! b + of_nat (u * unat (element_size s))"

definition carved :: "pool_mem \<Rightarrow> addr set" where
  "carved s = {element s b u | b u. int b < block s \<and> u < unat (block_size s) \<or> int b = block s \<and> u \<le> unat (used s)}"

fun chain :: "(addr \<Rightarrow> addr) \<Rightarrow> addr \<Rightarrow> addr list \<Rightarrow> bool" where
  "chain lk a [] \<longleftrightarrow> a = 0"
| "chain lk a (x # xs) \<longleftrightarrow> a = x \<and> x \<noteq> 0 \<and> chain lk (lk x) xs"

text \<open>
  The parameters, the block array and the heap: every block up to the first \<open>NULL\<close> is a chunk of its own, the array is one too,
  and there are no others.
\<close>

definition heap_ok :: "libc \<Rightarrow> pool_mem \<Rightarrow> bool" where
  "heap_ok L s \<longleftrightarrow> 8 \<le> unat (element_size s) \<and> 0 < unat (block_size s) \<and> block_bytes s < 2 ^ 32
     \<and> length (arr s) = unat (blocks_used s) \<and> (\<exists>k \<le> 30. unat (blocks_used s) = 2 ^ k \<and> calls s \<le> Suc (length (allocated s) + k))
     \<and> (\<forall>c \<in> set (chunks s). issued L (calls s) c)
     \<and> arr s = allocated s @ replicate (length (arr s) - length (allocated s)) 0
     \<and> distinct (blocks s # allocated s) \<and> blocks s \<noteq> 0
     \<and> fst ` set (chunks s) = set (blocks s # allocated s)
     \<and> (\<forall>c \<in> set (chunks s). 0 < snd c)
     \<and> (\<forall>a \<in> set (allocated s). (a, block_bytes s) \<in> set (chunks s) \<and> unat a + block_bytes s < 2 ^ 64)
     \<and> (\<forall>a \<in> set (allocated s). \<forall>b \<in> set (allocated s). a \<noteq> b \<longrightarrow> apart a (block_bytes s) b (block_bytes s))"

text \<open>The cursor: the block in use is allocated; before the first allocation it stands at the end of block -1.\<close>

definition cursor_ok :: "pool_mem \<Rightarrow> bool" where
  "cursor_ok s \<longleftrightarrow> - 1 \<le> block s \<and> block s < int (length (allocated s)) \<and> unat (used s) < unat (block_size s)
     \<and> (block s = - 1 \<longrightarrow> unat (used s) = unat (block_size s) - 1)"

definition pool_inv :: "libc \<Rightarrow> pool_mem \<Rightarrow> addr list \<Rightarrow> bool" where
  "pool_inv L s live \<longleftrightarrow> heap_ok L s \<and> cursor_ok s
     \<and> (\<exists>free. chain (links s) (freed s) free \<and> distinct (live @ free) \<and> set (live @ free) \<subseteq> carved s)"

definition room :: "pool_mem \<Rightarrow> nat" where
  "room s = nat (2 ^ 30 - 1 - block s)"

lemma allocated_eq:
  assumes "arr s = as @ replicate k 0" "0 \<notin> set as" shows "allocated s = as"
proof -
  have "takeWhile (\<lambda>a. a \<noteq> 0) (as @ replicate k 0) = as @ takeWhile (\<lambda>a. a \<noteq> 0) (replicate k 0)"
    by (rule takeWhile_append2) (use assms(2) in auto)
  then show ?thesis by (simp add: allocated_def assms(1) takeWhile_replicate)
qed

lemma allocated_nonzero: "0 \<notin> set (allocated s)"
  by (auto simp: allocated_def dest: set_takeWhileD)

lemma allocated_nth: "i < length (allocated s) \<Longrightarrow> arr s ! i = allocated s ! i"
  by (simp add: allocated_def takeWhile_nth)

lemma allocated_length: "length (allocated s) \<le> length (arr s)"
  by (simp add: allocated_def length_takeWhile_le)

lemma apart_neq: "apart a n b m \<Longrightarrow> 0 < n \<Longrightarrow> 0 < m \<Longrightarrow> a \<noteq> b"
  by (auto simp: apart_def)

lemma apart_sym: "apart a n b m \<longleftrightarrow> apart b m a n"
  by (auto simp: apart_def)

lemma unat_element:
  assumes "heap_ok L s" "b < length (allocated s)" "u < unat (block_size s)"
  shows "unat (element s b u) = unat (allocated s ! b) + u * unat (element_size s)"
    "(u + 1) * unat (element_size s) \<le> block_bytes s"
proof -
  have "(u + 1) * unat (element_size s) \<le> unat (block_size s) * unat (element_size s)"
    using assms(3) by (intro mult_right_mono) auto
  then show le: "(u + 1) * unat (element_size s) \<le> block_bytes s" by (simp add: block_bytes_def mult.commute)
  have "unat (allocated s ! b) + block_bytes s < 2 ^ 64" using assms(1,2) by (simp add: heap_ok_def)
  with le have "unat (allocated s ! b) + u * unat (element_size s) < 2 ^ 64" by simp
  then show "unat (element s b u) = unat (allocated s ! b) + u * unat (element_size s)"
    by (simp add: element_def allocated_nth [OF assms(2)] unat_word_ariths unat_of_nat del: of_nat_mult)
qed

lemma element_nonzero:
  assumes "heap_ok L s" "b < length (allocated s)" "u < unat (block_size s)"
  shows "element s b u \<noteq> 0"
proof -
  have "allocated s ! b \<noteq> 0" using allocated_nonzero assms(2) by (metis nth_mem)
  then have "0 < unat (element s b u)" unfolding unat_element(1) [OF assms] by (simp add: unat_gt_0)
  then show ?thesis by auto
qed

text \<open>Elements of the blocks are pairwise disjoint regions, so they have different addresses.\<close>

lemma elements_apart:
  assumes "heap_ok L s" "b < length (allocated s)" "u < unat (block_size s)" "b' < length (allocated s)" "u' < unat (block_size s)"
    and "(b, u) \<noteq> (b', u')"
  shows "apart (element s b u) (unat (element_size s)) (element s b' u') (unat (element_size s))"
proof (cases "b = b'")
  case True
  then have "u + 1 \<le> u' \<or> u' + 1 \<le> u" using assms(6) by auto
  then have "(u + 1) * unat (element_size s) \<le> u' * unat (element_size s) \<or> (u' + 1) * unat (element_size s) \<le> u * unat (element_size s)"
    using mult_le_mono1 by blast
  then show ?thesis using True unat_element(1) assms by (auto simp: apart_def)
next
  case False
  have "distinct (allocated s)" using assms(1) by (simp add: heap_ok_def)
  then have "allocated s ! b \<noteq> allocated s ! b'" using False assms(2,4) by (simp add: nth_eq_iff_index_eq)
  then have "apart (allocated s ! b) (block_bytes s) (allocated s ! b') (block_bytes s)"
    using assms(1,2,4) by (simp add: heap_ok_def)
  then show ?thesis using unat_element [OF assms(1-3)] unat_element [OF assms(1,4,5)] by (auto simp: apart_def)
qed

lemma element_inj:
  assumes "heap_ok L s" "b < length (allocated s)" "u < unat (block_size s)" "b' < length (allocated s)" "u' < unat (block_size s)"
    and "element s b u = element s b' u'"
  shows "b = b' \<and> u = u'"
proof (rule ccontr)
  assume "\<not> (b = b' \<and> u = u')"
  then have "apart (element s b u) (unat (element_size s)) (element s b' u') (unat (element_size s))"
    using elements_apart [OF assms(1-5)] by simp
  moreover have "8 \<le> unat (element_size s)" using assms(1) by (simp add: heap_ok_def)
  ultimately show False using assms(6) by (auto simp: apart_def)
qed

lemma issued_mono: "issued L t c \<Longrightarrow> issued L (Suc t) c"
  by (auto simp: issued_def less_Suc_eq)

lemma issued_new: "n \<le> 2 ^ 33 \<Longrightarrow> issued L (Suc t) (alloc L t n cs, n)"
  by (auto simp: issued_def)

text \<open>A pool asks the allocator only what it promises to answer.\<close>

lemma heap_calls:
  assumes "heap_ok L s" shows "calls s < 2 ^ 30 + 1024"
proof -
  from assms obtain k where k: "k \<le> 30" "length (arr s) = 2 ^ k" "calls s \<le> Suc (length (allocated s) + k)"
    by (auto simp: heap_ok_def)
  have "(2 :: nat) ^ k \<le> 2 ^ 30" using k(1) by (intro power_increasing) auto
  with k allocated_length [of s] show ?thesis by simp
qed

lemma alloc_fresh:
  assumes "alloc_ok L" "heap_ok L s" "n \<le> 2 ^ 33" "set cs \<subseteq> set (chunks s)"
  shows "\<forall>c \<in> set cs. apart (alloc L (calls s) n cs) n (fst c) (snd c)" "alloc L (calls s) n cs \<noteq> 0"
    "unat (alloc L (calls s) n cs) + n < 2 ^ 64"
proof -
  have "\<forall>c \<in> set cs. issued L (calls s) c" using assms(2,4) by (auto simp: heap_ok_def)
  then have "(\<forall>c \<in> set cs. apart (alloc L (calls s) n cs) n (fst c) (snd c)) \<and> alloc L (calls s) n cs \<noteq> 0
    \<and> unat (alloc L (calls s) n cs) + n < 2 ^ 64"
    using assms(1,3) heap_calls [OF assms(2)] unfolding alloc_ok_def by blast
  then show "\<forall>c \<in> set cs. apart (alloc L (calls s) n cs) n (fst c) (snd c)" "alloc L (calls s) n cs \<noteq> 0"
    "unat (alloc L (calls s) n cs) + n < 2 ^ 64" by blast+
qed

subsection \<open>Growing the block array\<close>

lemma null_blocks_append: "null_blocks (length xs) (length xs + length ys) (xs @ ys) = xs @ replicate (length ys) 0"
proof (induction ys rule: rev_induct)
  case (snoc y ys)
  have ext: "fold (\<lambda>i xs. xs[i := 0]) is (us @ vs) = fold (\<lambda>i xs. xs[i := 0]) is us @ vs"
    if "\<forall>i \<in> set is. i < length us" for "is" us and vs :: "addr list"
    using that by (induction "is" arbitrary: us) (auto simp: list_update_append)
  have "null_blocks (length xs) (length xs + length (ys @ [y])) (xs @ ys @ [y])
    = (fold (\<lambda>i xs. xs[i := 0]) [length xs..<length xs + length ys] ((xs @ ys) @ [y]))[length xs + length ys := 0]"
    by (simp add: null_blocks_def)
  also have "\<dots> = (null_blocks (length xs) (length xs + length ys) (xs @ ys) @ [y])[length xs + length ys := 0]"
    by (subst ext) (auto simp: null_blocks_def)
  also have "\<dots> = xs @ replicate (length (ys @ [y])) 0"
    by (simp add: snoc.IH list_update_append replicate_append_same)
  finally show ?case .
qed (simp add: null_blocks_def)

definition same_pool :: "pool_mem \<Rightarrow> pool_mem \<Rightarrow> bool" where
  "same_pool s s' \<longleftrightarrow> element_size s' = element_size s \<and> block_size s' = block_size s \<and> freed s' = freed s
     \<and> links s' = links s \<and> block s' = block s \<and> used s' = used s"

lemma grow_heap:
  assumes "alloc_ok L" "heap_ok L s" "allocated s = arr s" "unat (blocks_used s) < 2 ^ 30"
  shows "\<exists>s'. pool_grow L s = Some s' \<and> heap_ok L s' \<and> allocated s' = allocated s \<and> length (arr s') = 2 * length (arr s)
    \<and> same_pool s s'"
proof -
  let ?n = "2 * unat (blocks_used s)"
  from assms(2) obtain k where k: "unat (blocks_used s) = 2 ^ k" and calls: "calls s \<le> Suc (length (allocated s) + k)"
    by (auto simp: heap_ok_def)
  have k30: "k < 30" using assms(4) unfolding k by (rule power_less_imp_less_exp [rotated]) simp
  have len: "length (arr s) = unat (blocks_used s)" using assms(2) by (simp add: heap_ok_def)
  define bu where "bu = push_bit 1 (blocks_used s)"
  have n: "unat bu = ?n"
    using assms(4) by (simp add: bu_def push_bit_eq_mult unat_word_ariths)
  have half: "unat (drop_bit 1 bu) = unat (blocks_used s)"
    unfolding unat_drop_bit_eq n by (simp add: drop_bit_Suc)
  define rest where "rest = filter (\<lambda>c. fst c \<noteq> blocks s) (chunks s)"
  define a where "a = alloc L (calls s) (8 * ?n) rest"
  have n33: "8 * ?n \<le> 2 ^ 33"
  proof -
    have "(2 :: nat) ^ k \<le> 2 ^ 29" using k30 by (intro power_increasing) auto
    then show ?thesis unfolding k by simp
  qed
  have "set rest \<subseteq> set (chunks s)" by (auto simp: rest_def)
  from alloc_fresh [OF assms(1,2) n33 this] have a: "\<forall>c \<in> set rest. apart a (8 * ?n) (fst c) (snd c)" "a \<noteq> 0"
    unfolding a_def by blast+
  have a': "alloc L (calls s) (16 * unat (blocks_used s)) rest = a" by (simp add: a_def)
  have pos: "0 < unat (blocks_used s)" using k by simp
  have rest: "fst ` set rest = set (allocated s)"
    using assms(2) by (auto simp: heap_ok_def rest_def image_iff) (metis fst_conv image_eqI insertE)
  have fresh: "a \<notin> set (allocated s)"
  proof
    assume "a \<in> set (allocated s)"
    then obtain m where "(a, m) \<in> set rest" using rest by force
    then have "apart a (8 * ?n) a m" "0 < m" using a(1) assms(2) by (auto simp: heap_ok_def rest_def)
    then show False using apart_neq pos by fastforce
  qed
  let ?s' = "s\<lparr>blocks_used := bu, calls := Suc (calls s), chunks := (a, 8 * ?n) # rest,
    blocks := a, arr := arr s @ replicate (unat (blocks_used s)) 0\<rparr>"
  have grow: "pool_grow L s = Some ?s'"
    using a(2) a' null_blocks_append [of "arr s" "replicate (unat (blocks_used s)) (junk L)"]
    unfolding pool_grow_def bu_def [symmetric] Let_def c_realloc_def
    by (simp add: n half [unfolded One_nat_def] len rest_def [symmetric] mult_2 [symmetric])
  have al: "allocated ?s' = allocated s"
    by (rule allocated_eq [of _ _ "unat (blocks_used s)"]) (use assms(3) allocated_nonzero [of s] in auto)
  have bb: "block_bytes ?s' = block_bytes s" by (simp add: block_bytes_def)
  have "\<exists>j \<le> 30. unat (blocks_used ?s') = 2 ^ j \<and> calls ?s' \<le> Suc (length (allocated s) + j)"
    using k k30 n calls by (intro exI [of _ "Suc k"]) simp
  moreover have "\<forall>c \<in> set (chunks ?s'). issued L (calls ?s') c"
    using assms(2) issued_mono issued_new [OF n33, of L "calls s" rest] by (auto simp: heap_ok_def rest_def a_def)
  moreover have "fst ` set (chunks ?s') = set (blocks ?s' # allocated s)" using rest by simp
  moreover have "\<forall>x \<in> set (allocated s). (x, block_bytes s) \<in> set rest"
    using assms(2) by (auto simp: heap_ok_def rest_def)
  moreover have "length (arr ?s') = unat (blocks_used ?s')" using n len by simp
  moreover have "arr ?s' = allocated s @ replicate (length (arr ?s') - length (allocated s)) 0"
    using assms(3) by (simp add: len)
  moreover have "\<forall>c \<in> set (chunks ?s'). 0 < snd c" using assms(2) pos by (auto simp: heap_ok_def rest_def)
  moreover have "length (allocated s) \<le> unat bu" using allocated_length [of s] len n by linarith
  ultimately have "heap_ok L ?s'"
    using assms(2) fresh a(2) unfolding heap_ok_def al bb by simp
  then show ?thesis using grow al len by (simp add: same_pool_def)
qed

lemma fill_heap:
  assumes "alloc_ok L" "heap_ok L s" "length (allocated s) < length (arr s)"
  defines "a \<equiv> alloc L (calls s) (block_bytes s) (chunks s)"
  defines "s' \<equiv> s\<lparr>calls := Suc (calls s), chunks := (a, block_bytes s) # chunks s, arr := (arr s)[length (allocated s) := a]\<rparr>"
  shows "heap_ok L s'" "allocated s' = allocated s @ [a]" "a \<noteq> 0"
proof -
  have n33: "block_bytes s \<le> 2 ^ 33" using assms(2) by (simp add: heap_ok_def)
  from alloc_fresh [OF assms(1,2) n33 subset_refl]
  have a: "\<forall>c \<in> set (chunks s). apart a (block_bytes s) (fst c) (snd c)" "a \<noteq> 0" "unat a + block_bytes s < 2 ^ 64"
    unfolding a_def by blast+
  show "a \<noteq> 0" by fact
  have pos: "0 < block_bytes s" using assms(2) by (simp add: heap_ok_def block_bytes_def)
  have fresh: "a \<noteq> fst c" if "c \<in> set (chunks s)" for c
    using apart_neq [OF a(1) [rule_format, OF that] pos] assms(2) that by (auto simp: heap_ok_def)
  then have "a \<notin> fst ` set (chunks s)" by auto
  then have new: "a \<notin> set (blocks s # allocated s)" using assms(2) by (simp add: heap_ok_def)
  define k where "k = length (arr s) - length (allocated s) - 1"
  have "arr s = allocated s @ replicate (length (arr s) - length (allocated s)) 0" using assms(2) unfolding heap_ok_def by blast
  moreover have "length (arr s) - length (allocated s) = Suc k" using assms(3) by (simp add: k_def)
  ultimately have "arr s = allocated s @ 0 # replicate k 0" by simp
  then have arr': "arr s' = (allocated s @ [a]) @ replicate k 0" by (simp add: s'_def list_update_append)
  show al: "allocated s' = allocated s @ [a]"
    by (rule allocated_eq [OF arr']) (use a(2) allocated_nonzero in auto)
  have len: "length (arr s') = length (arr s)" by (simp add: s'_def)
  have bb: "block_bytes s' = block_bytes s" by (simp add: block_bytes_def s'_def)
  have "arr s' = allocated s' @ replicate (length (arr s') - length (allocated s')) 0"
    using arr' al by simp
  moreover have "apart a (block_bytes s) x (block_bytes s)" if "x \<in> set (allocated s)" for x
    using a(1) assms(2) that by (fastforce simp: heap_ok_def)
  moreover have "fst ` set (chunks s') = set (blocks s' # allocated s')"
    using assms(2) by (auto simp: heap_ok_def s'_def al [unfolded s'_def])
  moreover have "\<exists>k \<le> 30. unat (blocks_used s') = 2 ^ k \<and> calls s' \<le> Suc (length (allocated s') + k)"
    using assms(2) by (auto simp: heap_ok_def s'_def al [unfolded s'_def])
  moreover have "\<forall>c \<in> set (chunks s'). issued L (calls s') c"
    using assms(2) issued_mono issued_new [OF n33, of L "calls s" "chunks s"] by (auto simp: heap_ok_def s'_def a_def)
  ultimately show "heap_ok L s'"
    using assms(2) new a pos unfolding heap_ok_def al bb len
    by (auto simp: s'_def apart_sym)
qed


subsection \<open>Allocation and release\<close>

text \<open>What a new block changes: the cursor moves on by one block, and all earlier elements stay where they are.\<close>

lemma heap_ok_cursor [simp]:
  "heap_ok L (s\<lparr>used := u\<rparr>) = heap_ok L s" "heap_ok L (s\<lparr>block := b\<rparr>) = heap_ok L s" "heap_ok L (s\<lparr>freed := p\<rparr>) = heap_ok L s"
  "heap_ok L (s\<lparr>links := lk\<rparr>) = heap_ok L s"
  by (simp_all add: heap_ok_def allocated_def block_bytes_def)

lemma allocated_cursor [simp]:
  "allocated (s\<lparr>used := u\<rparr>) = allocated s" "allocated (s\<lparr>block := b\<rparr>) = allocated s" "allocated (s\<lparr>freed := p\<rparr>) = allocated s"
  "allocated (s\<lparr>links := lk\<rparr>) = allocated s"
  by (simp_all add: allocated_def)

lemma sint_blocks_used: "unat (w :: u32) \<le> 2 ^ 30 \<Longrightarrow> sint w = int (unat w)"
proof -
  assume "unat w \<le> 2 ^ 30"
  then have "int (unat w) \<le> int (2 ^ 30)" by (simp only: of_nat_le_iff)
  then have "uint w \<le> 1073741824" by simp
  moreover have "- 2147483648 \<le> uint w" by (rule order_trans [of _ 0]) simp_all
  ultimately have "signed_take_bit 31 (uint w) = uint w" by (intro signed_take_bit_int_eq_self) auto
  then show ?thesis by (simp add: sint_uint)
qed

lemma zeros_after: "xs = as @ replicate k 0 \<Longrightarrow> length as \<le> i \<Longrightarrow> i < length xs \<Longrightarrow> xs ! i = (0 :: addr)"
  by (simp add: nth_append)

lemma int_below: "int n < 2 ^ 30 \<Longrightarrow> n < 2 ^ 30"
  by simp

lemma next_block_step:
  assumes "alloc_ok L" "heap_ok L s" "- 1 \<le> block s" "block s < int (length (allocated s))" "block s + 1 < 2 ^ 30"
  shows "\<exists>s' ext. pool_next_block L s = Some s' \<and> heap_ok L s' \<and> allocated s' = allocated s @ ext
    \<and> block s + 1 < int (length (allocated s')) \<and> same_pool (s\<lparr>used := 0, block := block s + 1\<rparr>) s'"
proof -
  define s1 where "s1 = s\<lparr>used := 0, block := block s + 1\<rparr>"
  have h1: "heap_ok L s1" "allocated s1 = allocated s" "block s1 = block s + 1" "blocks_used s1 = blocks_used s" "arr s1 = arr s"
    using assms(2) by (simp_all add: s1_def)
  from assms(2) obtain k where k: "k \<le> 30" "unat (blocks_used s) = 2 ^ k" by (auto simp: heap_ok_def)
  have len: "length (arr s) = unat (blocks_used s)" using assms(2) by (simp add: heap_ok_def)
  have "unat (blocks_used s) \<le> 2 ^ 30" unfolding k(2) using k(1) by (intro power_increasing) auto
  then have si: "sint (blocks_used s) = int (unat (blocks_used s))" by (rule sint_blocks_used)
  have le: "block s + 1 \<le> int (unat (blocks_used s))"
    using assms(4) allocated_length [of s] len by linarith
  have "\<exists>s2. (if block s1 = sint (blocks_used s1) then pool_grow L s1 else Some s1) = Some s2 \<and> heap_ok L s2
    \<and> allocated s2 = allocated s \<and> block s + 1 < int (length (arr s2)) \<and> same_pool s1 s2"
  proof (cases "block s1 = sint (blocks_used s1)")
    case True
    then have b: "block s + 1 = int (unat (blocks_used s))" using h1 si by simp
    then have "length (allocated s) = length (arr s)" using assms(4) allocated_length [of s] len by linarith
    moreover have "arr s = allocated s @ replicate (length (arr s) - length (allocated s)) 0"
      using assms(2) unfolding heap_ok_def by blast
    ultimately have full: "allocated s1 = arr s1" using h1 by simp
    have "unat (blocks_used s1) < 2 ^ 30" by (rule int_below) (use b assms(5) h1(4) in simp)
    from grow_heap [OF assms(1) h1(1) full this] obtain s2 where s2: "pool_grow L s1 = Some s2" "heap_ok L s2"
      "allocated s2 = allocated s1" "length (arr s2) = 2 * length (arr s1)" "same_pool s1 s2" by blast
    have "0 < length (arr s)" using len k(2) by simp
    moreover have "length (arr s2) = 2 * length (arr s)" using s2(4) h1(5) by simp
    moreover have "block s + 1 = int (length (arr s))" by (simp only: b len)
    ultimately have "block s + 1 < int (length (arr s2))" by linarith
    then show ?thesis using True s2 h1(2) by auto
  next
    case False
    then show ?thesis using h1 si le len by (auto simp: same_pool_def)
  qed
  then obtain s2 where s2: "(if block s1 = sint (blocks_used s1) then pool_grow L s1 else Some s1) = Some s2" "heap_ok L s2"
    "allocated s2 = allocated s" "block s + 1 < int (length (arr s2))" "same_pool s1 s2" by blast
  have b2: "block s2 = block s + 1" using s2(5) h1(3) by (simp add: same_pool_def)
  have ld: "mem_load_int (arr s2) (block s2) = Some (arr s2 ! nat (block s + 1))"
    using s2(4) assms(3) b2 by (simp add: mem_load_int_def mem_simps nat_less_iff)
  have run: "pool_next_block L s = (if arr s2 ! nat (block s + 1) = 0
      then (let (a, s) = c_malloc L (unat (element_size s2 * block_size s2)) s2 in Some (s\<lparr>arr := (arr s)[nat (block s) := a]\<rparr>))
      else Some s2)"
    using assms(5) s2(1) ld unfolding pool_next_block_def s1_def [symmetric] Let_def by simp
  show ?thesis
  proof (cases "arr s2 ! nat (block s + 1) = 0")
    case False
    have "block s + 1 < int (length (allocated s2))"
    proof (rule ccontr)
      assume "\<not> ?thesis"
      moreover have "arr s2 = allocated s2 @ replicate (length (arr s2) - length (allocated s2)) 0"
        using s2(2) unfolding heap_ok_def by blast
      ultimately have "arr s2 ! nat (block s + 1) = 0" using s2(4) assms(3)
        by (intro zeros_after [of _ "allocated s2"]) auto
      with False show False ..
    qed
    then show ?thesis using run False s2 by (auto simp: s1_def)
  next
    case True
    have "nat (block s + 1) = length (allocated s2)"
    proof -
      have "nat (block s + 1) \<le> length (allocated s2)" unfolding s2(3) using assms(4) by linarith
      moreover have "\<not> nat (block s + 1) < length (allocated s2)"
        using True allocated_nth [of "nat (block s + 1)" s2] allocated_nonzero [of s2] by (metis nth_mem)
      ultimately show ?thesis by linarith
    qed
    then have at: "nat (block s2) = length (allocated s2)" "length (allocated s2) < length (arr s2)"
      using s2(4) assms(3) b2 by linarith+
    have "unat (element_size s2 * block_size s2) = block_bytes s2"
      using s2(2) by (simp add: heap_ok_def block_bytes_def unat_word_ariths)
    with run True at fill_heap [OF assms(1) s2(2) at(2)] s2 b2 show ?thesis
      by (auto simp: c_malloc_def Let_def same_pool_def s1_def)
  qed
qed


lemma element_extends:
  assumes "allocated s' = allocated s @ ext" "element_size s' = element_size s" "b < length (allocated s)"
  shows "element s' b u = element s b u"
  using assms by (simp add: element_def allocated_nth [of b] allocated_nth [of b s'] nth_append)

lemma carved_index:
  assumes "x \<in> carved s" "cursor_ok s"
  obtains b u where "x = element s b u" "b < length (allocated s)" "u < unat (block_size s)"
    "int b < block s \<or> int b = block s \<and> u \<le> unat (used s)"
proof -
  from assms(1) obtain b u where "x = element s b u" "int b < block s \<and> u < unat (block_size s) \<or> int b = block s \<and> u \<le> unat (used s)"
    by (auto simp: carved_def)
  moreover from this assms(2) have "b < length (allocated s)" "u < unat (block_size s)" by (auto simp: cursor_ok_def)
  ultimately show ?thesis using that by blast
qed

definition index :: "pool_mem \<Rightarrow> (nat \<times> nat) set" where
  "index s = {bu. int (fst bu) < block s \<and> snd bu < unat (block_size s) \<or> int (fst bu) = block s \<and> snd bu \<le> unat (used s)}"

lemma carved_image: "carved s = (\<lambda>bu. element s (fst bu) (snd bu)) ` index s"
  by (auto simp: carved_def index_def image_iff) blast+

text \<open>Carving a new element moves the cursor to the next place: the address is new, and old ones stay.\<close>

lemma pool_carve:
  assumes "alloc_ok L" "heap_ok L s" "cursor_ok s" "freed s = 0" "0 < room s"
  shows "\<exists>p s'. pool_malloc L s = Some (p, s') \<and> heap_ok L s' \<and> cursor_ok s' \<and> p \<notin> carved s \<and> carved s' = insert p (carved s)
    \<and> freed s' = 0 \<and> links s' = links s \<and> room s \<le> Suc (room s') \<and> element_size s' = element_size s \<and> block_size s' = block_size s"
proof -
  define u1 where "u1 = used s + 1"
  have u: "unat (used s) < unat (block_size s)" using assms(3) by (simp add: cursor_ok_def)
  have u1: "unat u1 = unat (used s) + 1"
    using u unat_lt32 [of "block_size s"] by (simp add: u1_def unat_word_ariths)
  have EB: "unat (element_size s) * unat (block_size s) < 2 ^ 32" using assms(2) by (simp add: heap_ok_def block_bytes_def)
  define s1 where "s1 = s\<lparr>used := u1\<rparr>"
  have "\<exists>s2 ext. (if used s1 = block_size s1 then pool_next_block L s1 else Some s1) = Some s2 \<and> heap_ok L s2
    \<and> allocated s2 = allocated s @ ext \<and> cursor_ok s2 \<and> 0 \<le> block s2 \<and> element_size s2 = element_size s \<and> block_size s2 = block_size s
    \<and> freed s2 = freed s \<and> links s2 = links s
    \<and> (block s2 = block s \<and> unat (used s2) = unat (used s) + 1
       \<or> block s2 = block s + 1 \<and> unat (used s2) = 0 \<and> unat (used s) = unat (block_size s) - 1)"
  proof (cases "u1 = block_size s")
    case True
    have "block s + 1 < 2 ^ 30" using assms(5) by (simp add: room_def)
    with next_block_step [OF assms(1), of s1] assms(2,3) obtain s2 ext where s2: "pool_next_block L s1 = Some s2" "heap_ok L s2"
      "allocated s2 = allocated s @ ext" "block s + 1 < int (length (allocated s2))"
      "same_pool (s1\<lparr>used := 0, block := block s1 + 1\<rparr>) s2"
      by (auto simp: s1_def cursor_ok_def)
    have "unat (used s) = unat (block_size s) - 1" using u1 True by simp
    moreover have "0 < unat (block_size s)" using u by simp
    ultimately show ?thesis using s2 assms(3) True
      by (intro exI [of _ s2] exI [of _ ext]) (auto simp: s1_def same_pool_def cursor_ok_def)
  next
    case False
    then have "unat (used s) + 1 < unat (block_size s)" using u u1 by (metis Suc_eq_plus1 Suc_lessI word_unat_eq_iff)
    moreover have "block s \<noteq> - 1" using calculation assms(3) by (auto simp: cursor_ok_def)
    ultimately show ?thesis using assms(2,3) False u1
      by (intro exI [of _ s1] exI [of _ "[]"]) (auto simp: s1_def cursor_ok_def)
  qed
  then obtain s2 ext where run: "(if used s1 = block_size s1 then pool_next_block L s1 else Some s1) = Some s2"
    and s2: "heap_ok L s2" "allocated s2 = allocated s @ ext" "cursor_ok s2" "0 \<le> block s2"
      "element_size s2 = element_size s" "block_size s2 = block_size s" "freed s2 = freed s" "links s2 = links s"
    and pos: "block s2 = block s \<and> unat (used s2) = unat (used s) + 1
       \<or> block s2 = block s + 1 \<and> unat (used s2) = 0 \<and> unat (used s) = unat (block_size s) - 1" by blast
  define b where "b = nat (block s2)"
  have b: "b < length (allocated s2)" "int b = block s2" using s2(3,4) by (auto simp: b_def cursor_ok_def)
  have u2: "unat (used s2) < unat (block_size s2)" using s2(3) by (simp add: cursor_ok_def)
  define p where "p = element s2 b (unat (used s2))"
  have mul: "unat (used s2 * element_size s2) = unat (used s2) * unat (element_size s2)"
  proof -
    have "unat (used s2) * unat (element_size s2) \<le> unat (block_size s) * unat (element_size s)"
      using u2 s2(5,6) by (intro mult_le_mono) auto
    with EB show ?thesis by (simp add: unat_word_ariths mult.commute)
  qed
  have "(ucast (used s2 * element_size s2) :: u64) = of_nat (unat (used s2) * unat (element_size s2))"
    unfolding mul [symmetric] by simp
  then have ret: "arr s2 ! b + ucast (used s2 * element_size s2) = p" by (simp add: p_def element_def)
  have "mem_load_int (arr s2) (block s2) = Some (arr s2 ! b)"
    using b allocated_length [of s2] s2(4) by (simp add: mem_load_int_def mem_simps b_def)
  then have m: "pool_malloc L s = Some (p, s2)"
    using run ret assms(4) unfolding pool_malloc_def s1_def u1_def Let_def by simp
  have c2: "carved s2 = insert p (carved s)"
  proof -
    have el: "element s2 b' u' = element s b' u'" if "int b' \<le> block s" for b' u'
      using element_extends [OF s2(2,5)] that assms(3) by (auto simp: cursor_ok_def)
    have "(int b' < block s2 \<and> u' < unat (block_size s) \<or> int b' = block s2 \<and> u' \<le> unat (used s2)) \<longleftrightarrow>
        (b' = b \<and> u' = unat (used s2)) \<or> (int b' < block s \<and> u' < unat (block_size s) \<or> int b' = block s \<and> u' \<le> unat (used s))" for b' u'
      using pos
    proof
      assume *: "block s2 = block s \<and> unat (used s2) = unat (used s) + 1"
      then have "int b' = block s \<longleftrightarrow> b' = b" using b(2) by auto
      with * show ?thesis by auto
    next
      assume *: "block s2 = block s + 1 \<and> unat (used s2) = 0 \<and> unat (used s) = unat (block_size s) - 1"
      then have "int b' = block s + 1 \<longleftrightarrow> b' = b" using b(2) by auto
      moreover have "u' < unat (block_size s) \<longleftrightarrow> u' \<le> unat (used s)" using * u by linarith
      ultimately show ?thesis using * by auto
    qed
    then have "index s2 = insert (b, unat (used s2)) (index s)"
      unfolding index_def s2(6) by (intro set_eqI) (simp add: split_beta prod_eq_iff)
    then have "carved s2 = insert p ((\<lambda>bu. element s2 (fst bu) (snd bu)) ` index s)"
      by (simp add: carved_image p_def)
    also have "(\<lambda>bu. element s2 (fst bu) (snd bu)) ` index s = carved s"
      unfolding carved_image by (intro image_cong refl el) (auto simp: index_def)
    finally show ?thesis .
  qed
  have new: "p \<notin> carved s"
  proof
    assume "p \<in> carved s"
    then obtain b' u' where bu: "p = element s b' u'" "b' < length (allocated s)" "u' < unat (block_size s)"
      "int b' < block s \<or> int b' = block s \<and> u' \<le> unat (used s)" using assms(3) by (rule carved_index)
    then have "element s2 b (unat (used s2)) = element s2 b' u'" using element_extends [OF s2(2,5) bu(2)] by (simp add: p_def)
    with element_inj [OF s2(1) b(1) u2, of b' u'] bu(2,3) s2(2,6) have "b = b'" "unat (used s2) = u'" by auto
    then show False using pos b(2) bu(4) by auto
  qed
  show ?thesis using m s2 new c2 pos assms(4) by (intro exI [of _ p] exI [of _ s2]) (auto simp: room_def)
qed


lemma chain_upd [simp]: "p \<notin> set xs \<Longrightarrow> chain (lk(p := v)) a xs = chain lk a xs"
  by (induction xs arbitrary: a) auto

lemma carved_cursor [simp]: "carved (s\<lparr>freed := p\<rparr>) = carved s" "carved (s\<lparr>links := lk\<rparr>) = carved s"
  by (simp_all add: carved_def element_def)

lemma cursor_ok_cursor [simp]: "cursor_ok (s\<lparr>freed := p\<rparr>) = cursor_ok s" "cursor_ok (s\<lparr>links := lk\<rparr>) = cursor_ok s"
  by (simp_all add: cursor_ok_def)

lemma carved_nonzero: "heap_ok L s \<Longrightarrow> cursor_ok s \<Longrightarrow> x \<in> carved s \<Longrightarrow> x \<noteq> 0"
  by (metis carved_index element_nonzero)

text \<open>A freed element is handed out again before a new one is carved.\<close>

lemma pool_malloc_recycles: "freed s \<noteq> 0 \<Longrightarrow> pool_malloc L s = Some (freed s, s\<lparr>freed := links s (freed s)\<rparr>)"
  by (simp add: pool_malloc_def)

lemma pool_take:
  assumes "alloc_ok L" "pool_inv L s live" "0 < room s"
  shows "\<exists>p s'. pool_malloc L s = Some (p, s') \<and> p \<notin> set live \<and> pool_inv L s' (p # live) \<and> room s \<le> Suc (room s')
    \<and> element_size s' = element_size s"
proof -
  from assms(2) obtain free where f: "heap_ok L s" "cursor_ok s" "chain (links s) (freed s) free" "distinct (live @ free)"
    "set (live @ free) \<subseteq> carved s" by (auto simp: pool_inv_def)
  show ?thesis
  proof (cases free)
    case Nil
    then have "freed s = 0" using f(3) by simp
    from pool_carve [OF assms(1) f(1,2) this assms(3)] obtain p s' where p: "pool_malloc L s = Some (p, s')" "heap_ok L s'" "cursor_ok s'"
      "p \<notin> carved s" "carved s' = insert p (carved s)" "freed s' = 0" "room s \<le> Suc (room s')" "element_size s' = element_size s" by blast
    then have "pool_inv L s' (p # live)" using f Nil by (auto simp: pool_inv_def intro!: exI [of _ "[]"])
    then show ?thesis using p f(5) Nil by auto
  next
    case (Cons x xs)
    then have "freed s \<noteq> 0" "freed s = x" using f(3) by auto
    moreover have "pool_inv L (s\<lparr>freed := links s (freed s)\<rparr>) (x # live)"
      using f Cons by (auto simp: pool_inv_def intro!: exI [of _ xs])
    ultimately show ?thesis using f(4) Cons by (simp add: pool_malloc_recycles room_def)
  qed
qed

lemma pool_give:
  assumes "pool_inv L s live" "p \<in> set live"
  shows "\<exists>s'. pool_free p s = Some s' \<and> pool_inv L s' (remove1 p live) \<and> room s' = room s
    \<and> pool_malloc L s' = Some (p, s'\<lparr>freed := freed s\<rparr>)"
proof -
  from assms(1) obtain free where f: "heap_ok L s" "cursor_ok s" "chain (links s) (freed s) free" "distinct (live @ free)"
    "set (live @ free) \<subseteq> carved s" by (auto simp: pool_inv_def)
  have p: "p \<noteq> 0" "p \<notin> set free" using carved_nonzero [OF f(1,2), of p] assms(2) f(4,5) by auto
  have "distinct live" using f(4) by simp
  then have "pool_inv L (s\<lparr>freed := p, links := (links s)(p := freed s)\<rparr>) (remove1 p live)"
    using f p assms(2) unfolding pool_inv_def
    by (intro conjI exI [of _ "p # free"]) (auto dest: notin_set_remove1 in_set_takeD set_remove1_subset [THEN subsetD])
  then show ?thesis using p by (simp add: pool_free_def room_def pool_malloc_recycles)
qed

lemma pool_write:
  assumes "pool_inv L s live" "p \<in> set live"
  shows "pool_inv L (write_element p v s) live \<and> room (write_element p v s) = room s"
proof -
  from assms(1) obtain free where f: "heap_ok L s" "cursor_ok s" "chain (links s) (freed s) free" "distinct (live @ free)"
    "set (live @ free) \<subseteq> carved s" by (auto simp: pool_inv_def)
  moreover have "p \<notin> set free" using f(4) assms(2) by auto
  ultimately show ?thesis by (auto simp: pool_inv_def write_element_def room_def intro!: exI [of _ free])
qed

lemma pool_inv_distinct: "pool_inv L s live \<Longrightarrow> distinct live"
  by (auto simp: pool_inv_def)

interpretation pool: object_pool "\<lambda>s live. alloc_ok L \<and> pool_inv L s live \<and> element_size s = e" room "pool_malloc L" pool_free write_element
  for L e
proof unfold_locales
  fix s live p assume a: "alloc_ok L \<and> pool_inv L s live \<and> element_size s = e" "p \<in> set live"
  then obtain s' where s': "pool_free p s = Some s'" "pool_inv L s' (remove1 p live)" "room s' = room s"
    "pool_malloc L s' = Some (p, s'\<lparr>freed := freed s\<rparr>)" using pool_give [of L s live p] by blast
  then have "element_size s' = e" using a(1) by (auto simp: pool_free_def Let_def split: if_splits)
  with a s' show "\<exists>s'. pool_free p s = Some s' \<and> (alloc_ok L \<and> pool_inv L s' (remove1 p live) \<and> element_size s' = e) \<and> room s' = room s
    \<and> (\<exists>s2. pool_malloc L s' = Some (p, s2))" by blast
next
  fix s live assume a: "alloc_ok L \<and> pool_inv L s live \<and> element_size s = e" "0 < room s"
  with pool_take [of L s live] show "\<exists>p s'. pool_malloc L s = Some (p, s') \<and> p \<notin> set live
    \<and> (alloc_ok L \<and> pool_inv L s' (p # live) \<and> element_size s' = e) \<and> room s \<le> Suc (room s')" by auto
next
  fix s live p v assume a: "alloc_ok L \<and> pool_inv L s live \<and> element_size s = e" "p \<in> set live"
  have "element_size (write_element p v s) = element_size s" by (simp add: write_element_def)
  with a pool_write [of L s live p v] show "(alloc_ok L \<and> pool_inv L (write_element p v s) live \<and> element_size (write_element p v s) = e)
    \<and> room (write_element p v s) = room s" by blast
next
  fix s live assume "alloc_ok L \<and> pool_inv L s live \<and> element_size s = e"
  then show "distinct live" using pool_inv_distinct by blast
qed

subsection \<open>Initialisation, reset and release of the pool\<close>

lemma pool_free_all_inv: "pool_inv L s live \<Longrightarrow> pool_inv L (pool_free_all s) [] \<and> room (pool_free_all s) = 2 ^ 30"
proof -
  assume "pool_inv L s live"
  then have h: "heap_ok L s" "cursor_ok s" by (auto simp: pool_inv_def)
  then have "0 < unat (block_size s)" by (simp add: heap_ok_def)
  then have "unat (block_size s - 1) = unat (block_size s) - 1" by (simp add: unat_sub_small word_le_unat)
  with h show ?thesis
    by (auto simp: pool_inv_def pool_free_all_def cursor_ok_def room_def heap_ok_def allocated_def block_bytes_def carved_def)
qed

lemma pool_init_inv:
  assumes "alloc_ok L" "chunks s = [] \<and> calls s = 0" "0 < unat bsize" "max 8 (unat esize) * unat bsize < 2 ^ 32"
  shows "\<exists>s'. pool_init L esize bsize s = (0, s') \<and> pool_inv L s' [] \<and> room s' = 2 ^ 30
    \<and> unat (element_size s') = max 8 (unat esize) \<and> block_size s' = bsize"
proof -
  define a where "a = alloc L 0 8 []"
  have a: "a \<noteq> 0" using assms(1) by (simp add: alloc_ok_def a_def)
  have iss: "issued L (Suc 0) (a, 8)" unfolding a_def by (rule issued_new) simp
  have m: "unat (max_u32 esize 8) = max 8 (unat esize)"
    using unat_lt32 [of esize] by (auto simp: max_u32_def word_less_nat_alt unsigned_ucast_eq take_bit_nat_eq_self)
  have "max 8 (unat esize) < 2 ^ 32" using unat_lt32 [of esize] by simp
  then have e: "unat (ucast (max_u32 esize 8) :: u32) = max 8 (unat esize)"
    by (simp add: unsigned_ucast_eq take_bit_nat_eq_self m)
  define s' where "s' = s\<lparr>element_size := ucast (max_u32 esize 8), block_size := bsize, used := bsize - 1, block := - 1, freed := 0,
      blocks_used := 1, calls := Suc (calls s), chunks := [(a, 8)], blocks := a, arr := [0]\<rparr>"
  have "pool_init L esize bsize s = (0, s')"
    using a assms(2) by (simp add: pool_init_def c_malloc_def pool_free_all_def POOL_BLOCKS_INITIAL_def Let_def null_blocks_def s'_def a_def)
  moreover have al: "allocated s' = []" by (simp add: allocated_def s'_def)
  have "unat (bsize - 1) = unat bsize - 1" using assms(3) by (simp add: unat_sub_small word_le_unat)
  then have "cursor_ok s'" using assms(3) by (simp add: cursor_ok_def s'_def)
  moreover have "heap_ok L s'" using assms(2-4) a e iss by (auto simp: heap_ok_def al block_bytes_def) (auto simp: s'_def intro: exI [of _ 0])
  ultimately show ?thesis using e by (auto simp: pool_inv_def s'_def room_def intro!: exI [of _ "[]"])
qed

lemma free_blocks_all:
  assumes "0 \<notin> set as" "distinct as" "set as \<subseteq> fst ` set (chunks s)"
  shows "free_blocks (as @ replicate k 0) s = Some (s\<lparr>chunks := filter (\<lambda>c. fst c \<notin> set as) (chunks s)\<rparr>)"
  using assms
proof (induction as arbitrary: s)
  case Nil
  then show ?case by (cases k) auto
next
  case (Cons a as)
  have "set as \<subseteq> fst ` set (chunks (s\<lparr>chunks := filter (\<lambda>c. fst c \<noteq> a) (chunks s)\<rparr>))"
    using Cons.prems by force
  from Cons.IH [OF _ _ this] Cons.prems show ?case
    by (auto simp: c_free_def conj_commute)
qed

text \<open>Every chunk is given back exactly once.\<close>

lemma pool_deinit_all:
  assumes "pool_inv L s live"
  shows "\<exists>s'. pool_deinit s = Some s' \<and> chunks s' = []"
proof -
  have h: "heap_ok L s" using assms by (simp add: pool_inv_def)
  then have d: "arr s = allocated s @ replicate (length (arr s) - length (allocated s)) 0" "length (arr s) = unat (blocks_used s)"
    "distinct (allocated s)" "blocks s \<notin> set (allocated s)" "fst ` set (chunks s) = insert (blocks s) (set (allocated s))" "blocks s \<noteq> 0"
    unfolding heap_ok_def by auto
  define s1 where "s1 = s\<lparr>chunks := filter (\<lambda>c. fst c \<notin> set (allocated s)) (chunks s)\<rparr>"
  have "set (allocated s) \<subseteq> fst ` set (chunks s)" using d(5) by auto
  from free_blocks_all [OF allocated_nonzero d(3) this, of "length (arr s) - length (allocated s)"]
  have "free_blocks (arr s) s = Some s1" unfolding d(1) [symmetric] s1_def .
  then have "free_blocks (take (unat (blocks_used s)) (arr s)) s = Some s1" using d(2) by simp
  moreover have "blocks s1 \<in> fst ` set (chunks s1)" "blocks s1 \<noteq> 0" using d(4-6) by (force simp: s1_def)+
  then have "c_free (blocks s1) s1 = Some (s1\<lparr>chunks := filter (\<lambda>c. fst c \<noteq> blocks s1) (chunks s1)\<rparr>)"
    by (simp add: c_free_def)
  moreover have "fst c = blocks s" if "c \<in> set (chunks s)" "fst c \<notin> set (allocated s)" for c
    using d(5) that by (metis image_eqI insertE)
  then have "filter (\<lambda>c. fst c \<noteq> blocks s1) (chunks s1) = []" by (auto simp: s1_def filter_empty_conv)
  ultimately show ?thesis by (simp add: pool_deinit_def)
qed

subsection \<open>Properties\<close>

text \<open>A simple allocator for the witnesses: every call gets a region of its own, far from the others.\<close>

definition sample_libc :: libc where
  "sample_libc = \<lparr>alloc = (\<lambda>t n cs. of_nat (4096 + t * 2 ^ 33)), junk = 0xdead\<rparr>"

lemma sample_libc_addr: "t < 2 ^ 30 + 1024 \<Longrightarrow> unat (alloc sample_libc t n cs) = 4096 + t * 2 ^ 33"
  by (simp add: sample_libc_def unat_of_nat del: of_nat_add of_nat_mult)

lemma sample_libc_ok: "alloc_ok sample_libc"
  unfolding alloc_ok_def
proof (intro allI impI conjI ballI)
  fix t n :: nat and cs :: "(addr \<times> nat) list" and c
  assume t: "t < 2 ^ 30 + 1024" and n: "n \<le> 2 ^ 33" and cs: "\<forall>c \<in> set cs. issued sample_libc t c"
  have u: "unat (alloc sample_libc t n cs) = 4096 + t * 2 ^ 33" by (rule sample_libc_addr [OF t])
  then show "alloc sample_libc t n cs \<noteq> 0" by (metis add_is_0 unat_0 zero_neq_numeral)
  have "t * 2 ^ 33 \<le> (2 ^ 30 + 1024) * 2 ^ 33" using t by (intro mult_le_mono1) simp
  then show "unat (alloc sample_libc t n cs) + n < 2 ^ 64" unfolding u using n by simp
  assume "c \<in> set cs"
  with cs obtain t' cs' where c: "t' < t" "fst c = alloc sample_libc t' (snd c) cs'" "snd c \<le> 2 ^ 33"
    unfolding issued_def by blast
  have "unat (fst c) = 4096 + t' * 2 ^ 33" unfolding c(2) by (rule sample_libc_addr) (use c(1) t in simp)
  moreover have "(t' + 1) * 2 ^ 33 \<le> t * 2 ^ 33" using c(1) by (intro mult_le_mono1) simp
  ultimately show "apart (alloc sample_libc t n cs) n (fst c) (snd c)" unfolding apart_def u using c(3) by simp
qed

definition sample_heap :: pool_mem where
  "sample_heap = \<lparr>element_size = 0, block_size = 0, used = 0, block = 0, freed = 0, blocks_used = 0, blocks = 0,
     arr = [], links = (\<lambda>_. 0), chunks = [], calls = 0\<rparr>"

text \<open>An allocator that serves the pointer array and then runs out of memory.\<close>

definition failing_libc :: libc where
  "failing_libc = \<lparr>alloc = (\<lambda>t n cs. if t = 0 then 4096 else 0), junk = 0xdead\<rparr>"

lemma failed_block_gives_garbage:
  "\<exists>s1 s2 s3. pool_init failing_libc 16 4 sample_heap = (0, s1) \<and> pool_malloc failing_libc s1 = Some (0, s2)
     \<and> pool_malloc failing_libc s2 = Some (16, s3)"
  by (simp add: pool_init_def pool_malloc_def pool_next_block_def c_malloc_def failing_libc_def sample_heap_def max_u32_def
      POOL_BLOCKS_INITIAL_def pool_free_all_def null_blocks_def mem_load_int_def mem_load_def Let_def)


text \<open>
  C4. Life of a pool: after initialisation any program that takes, overwrites and gives back elements (at most \<open>2 ^ 30\<close> calls) runs without
  an access error. The elements it holds at any time lie inside the blocks the pool has allocated and are pairwise disjoint
  regions of the element size; releasing the pool afterwards gives every chunk back to the C library exactly once.
\<close>

theorem pool_lifecycle:
  assumes "alloc_ok L" "chunks s = [] \<and> calls s = 0" "0 < unat bsize" "max 8 (unat esize) * unat bsize < 2 ^ 32" "length cs \<le> 2 ^ 30"
  shows "\<exists>s0 live s1 s2. pool_init L esize bsize s = (0, s0)
    \<and> run_pool (pool_malloc L) pool_free write_element cs [] s0 = Some (live, s1) \<and> distinct live
    \<and> (\<forall>x \<in> set live. \<exists>c \<in> set (chunks s1). unat (fst c) \<le> unat x \<and> unat x + max 8 (unat esize) \<le> unat (fst c) + snd c)
    \<and> (\<forall>x \<in> set live. \<forall>y \<in> set live. x = y \<or> apart x (max 8 (unat esize)) y (max 8 (unat esize)))
    \<and> pool_deinit s1 = Some s2 \<and> chunks s2 = []"
proof -
  let ?E = "max 8 (unat esize)"
  from pool_init_inv [OF assms(1-4)] obtain s0 where s0: "pool_init L esize bsize s = (0, s0)" "pool_inv L s0 []" "room s0 = 2 ^ 30"
    "unat (element_size s0) = ?E" by blast
  from pool.run_pool_inv [of L s0 "[]" "element_size s0" cs] assms(1,5) s0 obtain live s1 where
    r: "run_pool (pool_malloc L) pool_free write_element cs [] s0 = Some (live, s1)" "pool_inv L s1 live"
      "element_size s1 = element_size s0" "distinct live" by auto
  from pool_deinit_all [OF r(2)] obtain s2 where s2: "pool_deinit s1 = Some s2" "chunks s2 = []" by blast
  from r(2) have h: "heap_ok L s1" "cursor_ok s1" "set live \<subseteq> carved s1" by (auto simp: pool_inv_def)
  have "\<exists>c \<in> set (chunks s1). unat (fst c) \<le> unat x \<and> unat x + ?E \<le> unat (fst c) + snd c" if "x \<in> set live" for x
  proof -
    have "x \<in> carved s1" using that h(3) by blast
    then obtain b u where x: "x = element s1 b u" "b < length (allocated s1)" "u < unat (block_size s1)"
      using h(2) by (rule carved_index)
    have "(allocated s1 ! b, block_bytes s1) \<in> set (chunks s1)" using h(1) x(2) by (simp add: heap_ok_def)
    then show ?thesis using unat_element [OF h(1) x(2,3)] x(1) s0(4) r(3) by (intro bexI) auto
  qed
  moreover have "x = y \<or> apart x ?E y ?E" if "x \<in> set live" "y \<in> set live" for x y
  proof -
    have "x \<in> carved s1" "y \<in> carved s1" using that h(3) by blast+
    then obtain b u b' u' where "x = element s1 b u" "b < length (allocated s1)" "u < unat (block_size s1)"
      "y = element s1 b' u'" "b' < length (allocated s1)" "u' < unat (block_size s1)" by (metis carved_index h(2))
    then show ?thesis using elements_apart [OF h(1)] s0(4) r(3) by (cases "(b, u) = (b', u')") auto
  qed
  ultimately show ?thesis using s0(1) r s2 by blast
qed

theorem pool_lifecycle_witness:
  "\<exists>s0 live s1 s2. pool_init sample_libc 20 3 sample_heap = (0, s0)
    \<and> run_pool (pool_malloc sample_libc) pool_free write_element [Take, Take, Put 0 77, Give 1, Take, Take, Take, Give 0] [] s0 = Some (live, s1)
    \<and> distinct live \<and> pool_deinit s1 = Some s2 \<and> chunks s2 = []"
  using pool_lifecycle [OF sample_libc_ok, of sample_heap 3 20 "[Take, Take, Put 0 77, Give 1, Take, Take, Take, Give 0]"]
  by (auto simp: sample_heap_def)

text \<open>
  Recycling: an element that is given back is the next one handed out, without a call of the C library, and
  \<open>pool_free_all\<close> makes the whole pool available again while it keeps the blocks already allocated.
\<close>

theorem pool_recycling:
  assumes "pool_inv L s live" "p \<in> set live"
  shows "(\<exists>s1 s2. pool_free p s = Some s1 \<and> pool_malloc L s1 = Some (p, s2) \<and> pool_inv L s1 (remove1 p live)
      \<and> chunks s2 = chunks s \<and> calls s2 = calls s \<and> freed s2 = freed s)
    \<and> pool_inv L (pool_free_all s) [] \<and> room (pool_free_all s) = 2 ^ 30 \<and> arr (pool_free_all s) = arr s"
proof -
  from pool_give [OF assms] obtain s1 where s1: "pool_free p s = Some s1" "pool_inv L s1 (remove1 p live)"
    "pool_malloc L s1 = Some (p, s1\<lparr>freed := freed s\<rparr>)" by blast
  then have "chunks s1 = chunks s" "calls s1 = calls s" by (auto simp: pool_free_def Let_def split: if_splits)
  with s1 pool_free_all_inv [OF assms(1)] show ?thesis by (auto simp: pool_free_all_def)
qed

theorem pool_recycling_witness:
  "\<exists>s p s1 s2. pool_inv sample_libc s [p] \<and> pool_free p s = Some s1 \<and> pool_malloc sample_libc s1 = Some (p, s2)"
proof -
  from pool_init_inv [OF sample_libc_ok, of sample_heap 3 20] obtain s0 where s0: "pool_inv sample_libc s0 []" "room s0 = 2 ^ 30"
    by (auto simp: sample_heap_def)
  from pool_take [OF sample_libc_ok s0(1)] s0(2) obtain p s where "pool_inv sample_libc s [p]" by auto
  then show ?thesis using pool_recycling [of sample_libc s "[p]" p] by auto
qed

end
