(* ===== verification/Activity.thy ===== *)
theory Activity
  imports Mem_Pool
begin

unbundle bit_operations_syntax

text \<open>
  The active objects of \<open>activity.c\<close>: every activity is a thread with a message queue and a life cycle, and a manager keeps
  the activities by name.

  A queue is the list of its messages, as \<open>linux_list.h\<close> keeps it (\<open>list_add_tail\<close> appends, \<open>list_del\<close> of the first entry removes
  it). Messages and execution items come from two pools and copied arguments from a heap; the model counts what is live of each, so
  that a leak or a double release shows. Whether an allocation succeeds, and the return codes of the event library \<open>uev\<close> and of
  \<open>pthread_create\<close>, are inputs. A call of a user function is recorded in the log. \<open>None\<close> is a release of something that is not
  allocated, or a pointer used as something it is not (\<open>ASSERT\<close> is compiled out in \<open>log.h\<close>).
\<close>

subsection \<open>Definitions\<close>

datatype activity_state = STATE_NONE | STATE_STOP | STATE_RUN | STATE_PENDING_STOP

definition ACTIVITY_MSG_STOP :: u16 where "ACTIVITY_MSG_STOP = 1"
definition ACTIVITY_MSG_EXEC :: u16 where "ACTIVITY_MSG_EXEC = 2"
definition ACTIVITY_MSG_GENERAL :: u16 where "ACTIVITY_MSG_GENERAL = 50"
definition ACTIVITY_MSG_PERIODIC :: u16 where "ACTIVITY_MSG_PERIODIC = 51"

definition ACT_ATTR_GC :: u16 where "ACT_ATTR_GC = 1"

text \<open>A pointer argument is the caller's own or a private copy of some bytes; the argument of an execution message is an item of the pool.\<close>

datatype payload = Ptr addr | Copy addr int

record act_msg_exec_item =
  func :: nat
  item_arg :: payload
  item_attr :: u16

datatype msg_arg = Plain payload | Item act_msg_exec_item

record act_msg =
  msg_arg :: msg_arg
  msg_type :: u16
  dealy :: u16
  msg_attr :: u16

datatype effect = Called nat payload | User_Message u16 msg_arg | Left_Loop | Unknown_Message u16

record activity =
  state :: activity_state
  msg_queue :: "act_msg list"
  exiting :: bool
  user_handler :: bool
  log :: "effect list"

record shared =
  live_msgs :: nat
  live_items :: nat
  live_args :: nat

type_synonym act_sys = "activity \<times> shared"

definition copy_of :: "msg_arg \<Rightarrow> int \<Rightarrow> msg_arg" where
  "copy_of a n = (case a of Plain (Ptr p) \<Rightarrow> Plain (Copy p n) | _ \<Rightarrow> Plain (Copy 0 n))"

definition wof_free :: "payload \<Rightarrow> shared \<Rightarrow> shared option" where
  "wof_free p g = (case p of Copy _ _ \<Rightarrow> if live_args g = 0 then None else Some (g\<lparr>live_args := live_args g - 1\<rparr>) | Ptr _ \<Rightarrow> None)"

definition free_item :: "shared \<Rightarrow> shared option" where
  "free_item g = (if live_items g = 0 then None else Some (g\<lparr>live_items := live_items g - 1\<rparr>))"

definition free_msg :: "shared \<Rightarrow> shared option" where
  "free_msg g = (if live_msgs g = 0 then None else Some (g\<lparr>live_msgs := live_msgs g - 1\<rparr>))"

definition msg_enqueue :: "bool \<Rightarrow> act_sys \<Rightarrow> int \<Rightarrow> msg_arg \<Rightarrow> u16 \<Rightarrow> int \<times> act_sys" where
  "msg_enqueue mem s type1 arg attr =
     (case s of (act, g) \<Rightarrow>
        if \<not> mem then (- ENOMEM, s)
        else (0, act\<lparr>msg_queue := msg_queue act @ [\<lparr>msg_arg = arg, msg_type = word_of_int type1, dealy = 0, msg_attr = attr\<rparr>]\<rparr>,
                g\<lparr>live_msgs := live_msgs g + 1\<rparr>))"

definition msg_dequeue :: "activity \<Rightarrow> act_msg option \<times> activity" where
  "msg_dequeue act = (case msg_queue act of [] \<Rightarrow> (None, act) | m # ms \<Rightarrow> (Some m, act\<lparr>msg_queue := ms\<rparr>))"

definition activity_set_pendding_exit :: "bool \<Rightarrow> act_sys \<Rightarrow> int \<times> act_sys" where
  "activity_set_pendding_exit mem s =
     (if state (fst s) \<noteq> STATE_RUN then (- 1, s)
      else (case msg_enqueue mem s (uint ACTIVITY_MSG_STOP) (Plain (Ptr 0)) 0 of
          (ret, act, g) \<Rightarrow> if ret \<noteq> 0 then (ret, act, g) else (0, act\<lparr>state := STATE_PENDING_STOP\<rparr>, g)))"

definition act_msg_handler :: "act_msg \<Rightarrow> act_sys \<Rightarrow> act_sys option" where
  "act_msg_handler msg s =
     (case s of (act, g) \<Rightarrow>
        if msg_type msg = ACTIVITY_MSG_STOP then Some (act\<lparr>exiting := True, log := log act @ [Left_Loop]\<rparr>, g)
        else if msg_type msg = ACTIVITY_MSG_EXEC then
          (case msg_arg msg of
             Plain _ \<Rightarrow> None
           | Item it \<Rightarrow> do {
               let act = act\<lparr>log := log act @ [Called (func it) (item_arg it)]\<rparr>;
               g \<leftarrow> (if item_attr it AND ACT_ATTR_GC \<noteq> 0 then wof_free (item_arg it) g else Some g);
               g \<leftarrow> free_item g;
               Some (act, g) })
        else if ACTIVITY_MSG_GENERAL \<le> msg_type msg then
          Some (if user_handler act then act\<lparr>log := log act @ [User_Message (msg_type msg) (msg_arg msg)]\<rparr> else act, g)
        else Some (act\<lparr>log := log act @ [Unknown_Message (msg_type msg)]\<rparr>, g))"

text \<open>One round of the loop of \<open>msg_queue_handler\<close>; the lock is released between the rounds. The flag says whether the loop goes on.\<close>

definition handle_one :: "act_sys \<Rightarrow> (bool \<times> act_sys) option" where
  "handle_one s =
     (case msg_dequeue (fst s) of
        (None, act) \<Rightarrow> Some (False, act, snd s)
      | (Some msg, act) \<Rightarrow> do {
          s \<leftarrow> act_msg_handler msg (act, snd s);
          g \<leftarrow> (if msg_attr msg AND ACT_ATTR_GC \<noteq> 0
               then (case msg_arg msg of Plain p \<Rightarrow> wof_free p (snd s) | Item _ \<Rightarrow> None) else Some (snd s));
          g \<leftarrow> free_msg g;
          Some (True, fst s, g) })"

lemma handler_keeps_queue: "act_msg_handler msg s = Some s' \<Longrightarrow> msg_queue (fst s') = msg_queue (fst s)"
  by (auto simp: act_msg_handler_def Let_def split: prod.splits if_splits msg_arg.splits Option.bind_splits)

lemma handle_one_shorter: "handle_one s = Some (True, s') \<Longrightarrow> length (msg_queue (fst s')) < length (msg_queue (fst s))"
  by (auto simp: handle_one_def msg_dequeue_def dest!: handler_keeps_queue split: list.splits Option.bind_splits if_splits)

function msg_queue_handler :: "act_sys \<Rightarrow> act_sys option" where
  "msg_queue_handler s = (case handle_one s of None \<Rightarrow> None | Some (more1, s') \<Rightarrow> if more1 then msg_queue_handler s' else Some s')"
  by pat_completeness auto

termination
  by (relation "measure (\<lambda>s. length (msg_queue (fst s)))") (auto dest: handle_one_shorter)

declare msg_queue_handler.simps [simp del]

text \<open>The end of the thread, after \<open>uev_run\<close> has returned.\<close>

definition activity_thread_exit :: "activity \<Rightarrow> activity" where
  "activity_thread_exit act = act\<lparr>state := STATE_STOP\<rparr>"

text \<open>\<open>codes\<close> are the return codes of \<open>uev_init\<close>, \<open>uev_event_init\<close> and \<open>pthread_create\<close>.\<close>

definition activity_run_local :: "int \<times> int \<times> int \<Rightarrow> activity \<Rightarrow> int \<times> activity" where
  "activity_run_local codes act =
     (case codes of (init, event, create) \<Rightarrow>
        if state act = STATE_RUN then (0, act)
        else if state act \<noteq> STATE_STOP then (- 1, act)
        else if init \<noteq> 0 then (init, act)
        else if event \<noteq> 0 then (event, act\<lparr>exiting := True\<rparr>)
        else if create \<noteq> 0 then (create, act\<lparr>exiting := True\<rparr>)
        else (0, act\<lparr>exiting := False, state := STATE_RUN\<rparr>))"

definition activity_stop :: "bool \<Rightarrow> act_sys \<Rightarrow> int \<times> act_sys" where
  "activity_stop mem s = activity_set_pendding_exit mem s"

definition activity_msg_send :: "bool \<Rightarrow> bool \<Rightarrow> act_sys option \<Rightarrow> int \<Rightarrow> msg_arg \<Rightarrow> int \<Rightarrow> int \<Rightarrow> int \<times> act_sys option" where
  "activity_msg_send mem heap sp msg arg arg_size delay =
     (case sp of
        None \<Rightarrow> (- EINVAL, None)
      | Some s \<Rightarrow>
          if msg > 65535 \<or> delay > 65535 then (- EINVAL, sp)
          else if delay \<noteq> 0 then (- 1, sp)
          else if arg_size \<noteq> 0 \<and> \<not> heap then (- ENOMEM, sp)
          else
            (let attr = (if arg_size \<noteq> 0 then ACT_ATTR_GC else 0);
                 arg = (if arg_size \<noteq> 0 then copy_of arg arg_size else arg);
                 taken = (snd s)\<lparr>live_args := live_args (snd s) + (if arg_size \<noteq> 0 then 1 else 0)\<rparr>;
                 given_back = (\<lambda>g. if arg_size \<noteq> 0 then g\<lparr>live_args := live_args g - 1\<rparr> else g)
             in if state (fst s) \<noteq> STATE_RUN then (- 1, Some (fst s, given_back taken))
                else (case msg_enqueue mem (fst s, taken) msg arg attr of
                    (ret, act, g) \<Rightarrow> if ret \<noteq> 0 then (- ENOMEM, Some (act, given_back g)) else (0, Some (act, g)))))"

definition activity_exec :: "bool \<Rightarrow> bool \<Rightarrow> bool \<Rightarrow> act_sys option \<Rightarrow> nat option \<Rightarrow> payload \<Rightarrow> int \<Rightarrow> int \<Rightarrow> int \<times> act_sys option" where
  "activity_exec item mem heap sp pfunc arg arg_size delay =
     (case (sp, pfunc) of
        (Some (act, g), Some f) \<Rightarrow>
          if \<not> item then (- ENOMEM, sp)
          else
            (let g = g\<lparr>live_items := live_items g + 1\<rparr>
             in if arg_size \<noteq> 0 \<and> \<not> heap then (- ENOMEM, Some (act, g\<lparr>live_items := live_items g - 1\<rparr>))
                else
                  (let g = (if arg_size \<noteq> 0 then g\<lparr>live_args := live_args g + 1\<rparr> else g);
                       new_arg = (if arg_size \<noteq> 0 then (case copy_of (Plain arg) arg_size of Plain p \<Rightarrow> p | Item _ \<Rightarrow> arg) else arg);
                       it = \<lparr>func = f, item_arg = new_arg, item_attr = (if arg_size \<noteq> 0 then ACT_ATTR_GC else 0)\<rparr>
                   in (case activity_msg_send mem heap (Some (act, g)) (uint ACTIVITY_MSG_EXEC) (Item it) 0 0 of
                        (ret, Some (act, g)) \<Rightarrow>
                          if ret \<noteq> 0
                          then (ret, Some (act, g\<lparr>live_args := live_args g - (if arg_size \<noteq> 0 then 1 else 0),
                                                  live_items := live_items g - 1\<rparr>))
                          else (0, Some (act, g))
                      | (ret, None) \<Rightarrow> (ret, None))))
      | _ \<Rightarrow> (- EINVAL, sp))"

definition periodic_event_cb :: "bool \<Rightarrow> bool \<Rightarrow> act_sys \<Rightarrow> int \<times> act_sys option" where
  "periodic_event_cb mem heap s = activity_msg_send mem heap (Some s) (uint ACTIVITY_MSG_PERIODIC) (Plain (Ptr 0)) 0 0"

text \<open>
  The manager: the registered activities in the order of \<open>act_list\<close> (newest first), each with its address and name. Registering an object
  that is already in the list is outside the model (the code clears its links while the list still leads through it).
\<close>

record manager =
  acts :: "(addr \<times> string \<times> activity) list"
  common :: shared

definition activity_get_local :: "string \<Rightarrow> manager \<Rightarrow> addr" where
  "activity_get_local name m = (case find (\<lambda>e. fst (snd e) = name) (acts m) of None \<Rightarrow> 0 | Some e \<Rightarrow> fst e)"

definition activity_get :: "string option \<Rightarrow> manager \<Rightarrow> addr" where
  "activity_get name m = (case name of None \<Rightarrow> 0 | Some nm \<Rightarrow> activity_get_local nm m)"

definition new_activity :: "bool \<Rightarrow> activity" where
  "new_activity handler = \<lparr>state = STATE_STOP, msg_queue = [], exiting = False, user_handler = handler, log = []\<rparr>"

definition activity_reg :: "int \<times> int \<times> int \<Rightarrow> addr \<Rightarrow> string option \<Rightarrow> bool \<Rightarrow> manager \<Rightarrow> (int \<times> manager) option" where
  "activity_reg codes act name handler m =
     (if act = 0 then Some (- EINVAL, m)
      else (case name of
          None \<Rightarrow> Some (- EINVAL, m)
        | Some nm \<Rightarrow>
            if activity_get_local nm m \<noteq> 0 then Some (- 1, m)
            else if act \<in> fst ` set (acts m) then None
            else (case activity_run_local codes (new_activity handler) of
                (ret, a) \<Rightarrow> Some (ret, m\<lparr>acts := (act, nm, a) # acts m\<rparr>))))"

fun update_act :: "addr \<Rightarrow> (activity \<Rightarrow> activity) \<Rightarrow> (addr \<times> string \<times> activity) list \<Rightarrow> (addr \<times> string \<times> activity) list" where
  "update_act p f [] = []"
| "update_act p f ((q, nm, a) # es) = (if p = q then (q, nm, f a) # es else (q, nm, a) # update_act p f es)"

definition activity_run :: "int \<times> int \<times> int \<Rightarrow> activity \<Rightarrow> int \<times> activity" where
  "activity_run codes act = activity_run_local codes act"

definition activity_manager_init :: "int \<Rightarrow> int \<Rightarrow> bool \<Rightarrow> int" where
  "activity_manager_init msg_pool item_pool heap =
     (if msg_pool \<noteq> 0 then msg_pool else if item_pool \<noteq> 0 then item_pool else if \<not> heap then - ENOMEM else 0)"

text \<open>
  Shutdown: every running activity gets a stop message, the list is emptied and the pools are released. The threads are not
  waited for. The result also shows the activities as they are left behind.
\<close>

fun stop_all :: "bool list \<Rightarrow> (addr \<times> string \<times> activity) list \<Rightarrow> shared \<Rightarrow> (addr \<times> string \<times> activity) list \<times> shared" where
  "stop_all mems [] g = ([], g)"
| "stop_all mems ((p, nm, a) # es) g =
     (case activity_set_pendding_exit (mems \<noteq> [] \<and> hd mems) (a, g) of
        (ret, a', g') \<Rightarrow> (case stop_all (tl mems) es g' of (es', g'') \<Rightarrow> ((p, nm, a') # es', g'')))"

definition activity_manager_fini :: "bool list \<Rightarrow> manager \<Rightarrow> int \<times> manager \<times> (addr \<times> string \<times> activity) list" where
  "activity_manager_fini mems m =
     (case stop_all mems (acts m) (common m) of
        (left, g) \<Rightarrow> (0, m\<lparr>acts := [], common := \<lparr>live_msgs = 0, live_items = 0, live_args = 0\<rparr>\<rparr>, left))"

subsection \<open>Runs of one activity\<close>

text \<open>
  The operations on one activity. \<open>Handle\<close> is one round of the handler loop, \<open>Finish\<close> the end of the thread once the event loop has been left
  and the queue is empty.
\<close>

datatype act_op =
    Send bool bool int addr int int
  | Exec bool bool bool nat addr int int
  | Tick bool bool
  | Stop bool
  | Handle
  | Finish

fun act_step :: "act_op \<Rightarrow> act_sys \<Rightarrow> (int \<times> act_sys) option" where
  "act_step (Send mem heap msg p size1 delay) s =
     (case activity_msg_send mem heap (Some s) msg (Plain (Ptr p)) size1 delay of (r, Some s') \<Rightarrow> Some (r, s') | _ \<Rightarrow> None)"
| "act_step (Exec item mem heap f p size1 delay) s =
     (case activity_exec item mem heap (Some s) (Some f) (Ptr p) size1 delay of (r, Some s') \<Rightarrow> Some (r, s') | _ \<Rightarrow> None)"
| "act_step (Tick mem heap) s = (case periodic_event_cb mem heap s of (r, Some s') \<Rightarrow> Some (r, s') | _ \<Rightarrow> None)"
| "act_step (Stop mem) s = Some (activity_stop mem s)"
| "act_step Handle s =
     (if state (fst s) = STATE_RUN \<or> state (fst s) = STATE_PENDING_STOP
      then map_option (\<lambda>r. (0, snd r)) (handle_one s) else Some (- 1, s))"
| "act_step Finish s =
     (if exiting (fst s) \<and> msg_queue (fst s) = [] then Some (0, activity_thread_exit (fst s), snd s) else Some (- 1, s))"

text \<open>The messages an operation has added, given its return code.\<close>

fun added :: "act_op \<Rightarrow> int \<Rightarrow> act_sys \<Rightarrow> act_msg list" where
  "added Handle r s = []"
| "added Finish r s = []"
| "added _ r s = (if r = 0 then [last (msg_queue (fst s))] else [])"

text \<open>A run with the messages accepted on the way.\<close>

fun act_run :: "act_op list \<Rightarrow> act_sys \<Rightarrow> (act_msg list \<times> act_sys) option" where
  "act_run [] s = Some ([], s)"
| "act_run (op # ops) s =
     (case act_step op s of None \<Rightarrow> None
      | Some (r, s') \<Rightarrow> (case act_run ops s' of None \<Rightarrow> None | Some (ms, s'') \<Rightarrow> Some (added op r s' @ ms, s'')))"

text \<open>Users send their own message types: neither the internal stop nor the execution message, also not after the truncation to 16 bits.\<close>

fun user_op :: "act_op \<Rightarrow> bool" where
  "user_op (Send mem heap msg p size1 delay) \<longleftrightarrow>
     (word_of_int msg :: u16) \<noteq> ACTIVITY_MSG_STOP \<and> (word_of_int msg :: u16) \<noteq> ACTIVITY_MSG_EXEC"
| "user_op _ = True"

text \<open>What a message holds of the pools and of the heap, and messages that hold what their attributes say.\<close>

definition is_copy :: "payload \<Rightarrow> bool" where
  "is_copy p = (case p of Copy _ _ \<Rightarrow> True | Ptr _ \<Rightarrow> False)"

definition msg_items :: "act_msg \<Rightarrow> nat" where
  "msg_items m = (case msg_arg m of Item _ \<Rightarrow> 1 | Plain _ \<Rightarrow> 0)"

definition msg_copies :: "act_msg \<Rightarrow> nat" where
  "msg_copies m = of_bool (case msg_arg m of Item it \<Rightarrow> is_copy (item_arg it) | Plain p \<Rightarrow> is_copy p)"

definition wf_msg :: "act_msg \<Rightarrow> bool" where
  "wf_msg m \<longleftrightarrow> (case msg_arg m of
       Item it \<Rightarrow> msg_type m = ACTIVITY_MSG_EXEC \<and> msg_attr m = 0 \<and> (item_attr it AND ACT_ATTR_GC \<noteq> 0 \<longleftrightarrow> is_copy (item_arg it))
     | Plain p \<Rightarrow> msg_type m \<noteq> ACTIVITY_MSG_EXEC \<and> (msg_attr m AND ACT_ATTR_GC \<noteq> 0 \<longleftrightarrow> is_copy p))"

text \<open>The books balance when everything live is held by a queued message or (the constants) by the other activities.\<close>

definition books :: "nat \<times> nat \<times> nat \<Rightarrow> act_sys \<Rightarrow> bool" where
  "books others s \<longleftrightarrow> list_all wf_msg (msg_queue (fst s))
     \<and> live_msgs (snd s) = fst others + length (msg_queue (fst s))
     \<and> live_items (snd s) = fst (snd others) + sum_list (map msg_items (msg_queue (fst s)))
     \<and> live_args (snd s) = snd (snd others) + sum_list (map msg_copies (msg_queue (fst s)))"

definition effects :: "bool \<Rightarrow> act_msg \<Rightarrow> effect list" where
  "effects handler m =
     (if msg_type m = ACTIVITY_MSG_STOP then [Left_Loop]
      else case msg_arg m of
          Item it \<Rightarrow> [Called (func it) (item_arg it)]
        | Plain p \<Rightarrow> if ACTIVITY_MSG_GENERAL \<le> msg_type m then (if handler then [User_Message (msg_type m) (Plain p)] else [])
                     else [Unknown_Message (msg_type m)])"

lemma handle_one_books:
  assumes "books others s"
  shows "case msg_queue (fst s) of
      [] \<Rightarrow> handle_one s = Some (False, s)
    | m # ms \<Rightarrow> \<exists>s'. handle_one s = Some (True, s') \<and> books others s' \<and> msg_queue (fst s') = ms \<and> state (fst s') = state (fst s)
        \<and> exiting (fst s') = (exiting (fst s) \<or> msg_type m = ACTIVITY_MSG_STOP) \<and> user_handler (fst s') = user_handler (fst s)
        \<and> log (fst s') = log (fst s) @ effects (user_handler (fst s)) m"
proof (cases "msg_queue (fst s)")
  case Nil
  then show ?thesis by (cases s) (simp add: handle_one_def msg_dequeue_def)
next
  case (Cons m ms)
  obtain act g where s: "s = (act, g)" by (cases s)
  have q: "msg_queue act = m # ms" using Cons s by simp
  have b: "wf_msg m" "list_all wf_msg ms" "live_msgs g = fst others + Suc (length ms)"
    "live_items g = fst (snd others) + msg_items m + sum_list (map msg_items ms)"
    "live_args g = snd (snd others) + msg_copies m + sum_list (map msg_copies ms)"
    using assms by (simp_all add: books_def s q)
  show ?thesis
  proof (cases "msg_arg m")
    case (Item it)
    with b(1) have it: "msg_type m = 2" "msg_attr m = 0" "item_attr it AND 1 \<noteq> 0 \<longleftrightarrow> is_copy (item_arg it)"
      by (simp_all add: wf_msg_def ACTIVITY_MSG_EXEC_def ACT_ATTR_GC_def)
    show ?thesis
      using it b Item q
      by (cases "item_arg it")
        (simp_all add: s handle_one_def msg_dequeue_def act_msg_handler_def books_def effects_def msg_items_def msg_copies_def is_copy_def
          wof_free_def free_item_def free_msg_def Let_def ACTIVITY_MSG_STOP_def ACTIVITY_MSG_EXEC_def ACT_ATTR_GC_def)
  next
    case (Plain p)
    with b(1) have it: "msg_type m \<noteq> 2" "msg_attr m AND 1 \<noteq> 0 \<longleftrightarrow> is_copy p"
      by (simp_all add: wf_msg_def ACTIVITY_MSG_EXEC_def ACT_ATTR_GC_def)
    show ?thesis
      using it b Plain q
      by (cases p)
        (simp_all add: s handle_one_def msg_dequeue_def act_msg_handler_def books_def effects_def msg_items_def msg_copies_def is_copy_def
          wof_free_def free_item_def free_msg_def Let_def ACTIVITY_MSG_STOP_def ACTIVITY_MSG_EXEC_def ACT_ATTR_GC_def)
  qed
qed

text \<open>Every sending operation either fails and changes nothing, or appends one message.\<close>

definition send_code :: "bool \<Rightarrow> bool \<Rightarrow> activity_state \<Rightarrow> int \<Rightarrow> int \<Rightarrow> int \<Rightarrow> int" where
  "send_code mem heap st msg size1 delay =
     (if 65535 < msg \<or> 65535 < delay then - EINVAL
      else if delay \<noteq> 0 then - 1
      else if size1 \<noteq> 0 \<and> \<not> heap then - ENOMEM
      else if st \<noteq> STATE_RUN then - 1
      else if \<not> mem then - ENOMEM
      else 0)"

lemma send_result:
  "activity_msg_send mem heap (Some (act, g)) msg (Plain (Ptr p)) size1 delay =
     (let r = send_code mem heap (state act) msg size1 delay
      in (r, Some (if r \<noteq> 0 then (act, g)
           else (act\<lparr>msg_queue := msg_queue act @ [\<lparr>msg_arg = Plain (if size1 \<noteq> 0 then Copy p size1 else Ptr p),
                    msg_type = word_of_int msg, dealy = 0, msg_attr = (if size1 \<noteq> 0 then ACT_ATTR_GC else 0)\<rparr>]\<rparr>,
                 g\<lparr>live_msgs := live_msgs g + 1, live_args := live_args g + of_bool (size1 \<noteq> 0)\<rparr>))))"
  by (simp add: activity_msg_send_def send_code_def msg_enqueue_def copy_of_def Let_def EINVAL_def ENOMEM_def)

lemma stop_result:
  "activity_stop mem (act, g) =
     (if state act \<noteq> STATE_RUN then (- 1, act, g)
      else if \<not> mem then (- ENOMEM, act, g)
      else (0, act\<lparr>msg_queue := msg_queue act @ [\<lparr>msg_arg = Plain (Ptr 0), msg_type = ACTIVITY_MSG_STOP, dealy = 0, msg_attr = 0\<rparr>],
                 state := STATE_PENDING_STOP\<rparr>, g\<lparr>live_msgs := live_msgs g + 1\<rparr>))"
  by (simp add: activity_stop_def activity_set_pendding_exit_def msg_enqueue_def ENOMEM_def ACTIVITY_MSG_STOP_def)

lemma exec_result:
  "activity_exec item mem heap (Some (act, g)) (Some f) (Ptr p) size1 delay =
     (let r = (if \<not> item \<or> size1 \<noteq> 0 \<and> \<not> heap then - ENOMEM else if state act \<noteq> STATE_RUN then - 1 else if \<not> mem then - ENOMEM else 0)
      in (r, Some (if r \<noteq> 0 then (act, g)
           else (act\<lparr>msg_queue := msg_queue act @ [\<lparr>msg_arg = Item \<lparr>func = f, item_arg = (if size1 \<noteq> 0 then Copy p size1 else Ptr p),
                    item_attr = (if size1 \<noteq> 0 then ACT_ATTR_GC else 0)\<rparr>,
                    msg_type = ACTIVITY_MSG_EXEC, dealy = 0, msg_attr = 0\<rparr>]\<rparr>,
                 g\<lparr>live_msgs := live_msgs g + 1, live_items := live_items g + 1, live_args := live_args g + of_bool (size1 \<noteq> 0)\<rparr>))))"
  by (simp add: activity_exec_def activity_msg_send_def msg_enqueue_def copy_of_def Let_def EINVAL_def ENOMEM_def ACTIVITY_MSG_EXEC_def)

lemma tick_result:
  "periodic_event_cb mem heap (act, g) =
     (if state act \<noteq> STATE_RUN then (- 1, Some (act, g))
      else if \<not> mem then (- ENOMEM, Some (act, g))
      else (0, Some (act\<lparr>msg_queue := msg_queue act @ [\<lparr>msg_arg = Plain (Ptr 0), msg_type = ACTIVITY_MSG_PERIODIC, dealy = 0, msg_attr = 0\<rparr>]\<rparr>,
                 g\<lparr>live_msgs := live_msgs g + 1\<rparr>)))"
  by (simp add: periodic_event_cb_def send_result send_code_def Let_def ACTIVITY_MSG_PERIODIC_def ENOMEM_def EINVAL_def)

text \<open>An operation other than the two of the thread: what it appends, and how the state moves.\<close>

definition sending :: "act_op \<Rightarrow> bool" where
  "sending op \<longleftrightarrow> op \<noteq> Handle \<and> op \<noteq> Finish"

definition is_stop :: "act_msg \<Rightarrow> bool" where
  "is_stop m \<longleftrightarrow> msg_type m = ACTIVITY_MSG_STOP"

lemma msg_consts: "ACTIVITY_MSG_STOP \<noteq> ACTIVITY_MSG_EXEC" "ACTIVITY_MSG_PERIODIC \<noteq> ACTIVITY_MSG_EXEC" "ACTIVITY_MSG_PERIODIC \<noteq> ACTIVITY_MSG_STOP"
  "ACTIVITY_MSG_EXEC \<noteq> ACTIVITY_MSG_STOP" "(0 :: u16) AND ACT_ATTR_GC = 0" "ACT_ATTR_GC \<noteq> 0" "ENOMEM \<noteq> 0" "EINVAL \<noteq> 0"
  by (simp_all add: ACTIVITY_MSG_STOP_def ACTIVITY_MSG_EXEC_def ACTIVITY_MSG_PERIODIC_def ACT_ATTR_GC_def ENOMEM_def EINVAL_def)

definition appends :: "nat \<times> nat \<times> nat \<Rightarrow> act_sys \<Rightarrow> act_sys \<Rightarrow> act_msg \<Rightarrow> bool" where
  "appends others s s' = (\<lambda>m. books others s' \<and> state (fst s) = STATE_RUN \<and> msg_queue (fst s') = msg_queue (fst s) @ [m]
     \<and> log (fst s') = log (fst s) \<and> exiting (fst s') = exiting (fst s) \<and> user_handler (fst s') = user_handler (fst s)
     \<and> state (fst s') = (if is_stop m then STATE_PENDING_STOP else STATE_RUN))"

lemma send_code_0: "send_code mem heap st msg size1 delay = 0 \<Longrightarrow> st = STATE_RUN"
  by (auto simp: send_code_def msg_consts split: if_splits)

lemma sending_step:
  assumes "sending op" "user_op op" "books others s"
  shows "\<exists>r s'. act_step op s = Some (r, s') \<and> (if r = 0 then \<exists>m. appends others s s' m else s' = s)"
proof -
  obtain act g where s: "s = (act, g)" by (cases s)
  note eqs = s send_result stop_result exec_result tick_result Let_def appends_def is_stop_def books_def wf_msg_def is_copy_def
    msg_items_def msg_copies_def msg_consts
  show ?thesis
  proof (cases op)
    case (Send mem heap msg p size1 delay)
    with assms show ?thesis by (auto simp: eqs dest: send_code_0)
  next
    case (Exec item mem heap f p size1 delay)
    with assms show ?thesis by (auto simp: eqs)
  next
    case (Tick mem heap)
    with assms show ?thesis by (auto simp: eqs)
  next
    case (Stop mem)
    with assms show ?thesis by (auto simp: eqs)
  qed (use assms(1) in \<open>auto simp: sending_def\<close>)
qed

lemma act_step_books:
  assumes "user_op op" "books others s"
  shows "\<exists>r s'. act_step op s = Some (r, s') \<and> books others s'"
proof (cases "sending op")
  case True
  from sending_step [OF this assms] assms(2) show ?thesis by (metis appends_def)
next
  case False
  then consider "op = Handle" | "op = Finish" by (auto simp: sending_def)
  then show ?thesis
  proof cases
    case 1
    then show ?thesis using handle_one_books [OF assms(2)] assms(2)
      by (cases s; cases "msg_queue (fst s)") auto
  next
    case 2
    then show ?thesis using assms(2) by (cases s) (auto simp: books_def activity_thread_exit_def)
  qed
qed

lemma act_run_books:
  assumes "list_all user_op ops" "books others s"
  shows "\<exists>ms s'. act_run ops s = Some (ms, s') \<and> books others s'"
  using assms
proof (induction ops arbitrary: s)
  case (Cons op ops)
  from Cons.prems act_step_books [of op others s] obtain r s1 where s1: "act_step op s = Some (r, s1)" "books others s1" by auto
  from Cons.IH [OF _ s1(2)] Cons.prems(1) s1(1) show ?case by auto
qed simp

text \<open>
  The ghost invariant of a life: the accepted messages are those handled, in order, and those still queued; the stop message is the
  last one accepted, and the thread leaves its loop only when it has been handled.
\<close>

definition life :: "act_msg list \<Rightarrow> act_msg list \<Rightarrow> act_sys \<Rightarrow> bool" where
  "life acc done s \<longleftrightarrow> acc = done @ msg_queue (fst s)
     \<and> log (fst s) = concat (map (effects (user_handler (fst s))) done)
     \<and> exiting (fst s) = list_ex is_stop done
     \<and> (case state (fst s) of
          STATE_RUN \<Rightarrow> \<not> list_ex is_stop acc
        | STATE_PENDING_STOP \<Rightarrow> acc \<noteq> [] \<and> is_stop (last acc) \<and> \<not> list_ex is_stop (butlast acc)
        | STATE_STOP \<Rightarrow> acc \<noteq> [] \<and> is_stop (last acc) \<and> \<not> list_ex is_stop (butlast acc) \<and> msg_queue (fst s) = []
        | STATE_NONE \<Rightarrow> False)"

lemma life_step:
  assumes "user_op op" "books others s" "life acc done s"
  shows "\<exists>r s' done'. act_step op s = Some (r, s') \<and> books others s' \<and> life (acc @ added op r s') done' s'
    \<and> user_handler (fst s') = user_handler (fst s)"
proof (cases "sending op")
  case True
  from sending_step [OF this assms(1,2)] obtain r s' where r: "act_step op s = Some (r, s')"
    "if r = 0 then \<exists>m. appends others s s' m else s' = s" by blast
  show ?thesis
  proof (cases "r = 0")
    case True
    with r obtain m where m: "appends others s s' m" by auto
    then have "added op r s' = [m]" using \<open>sending op\<close> True by (cases op) (auto simp: sending_def appends_def)
    then have "life (acc @ added op r s') done s'" using m assms(3) by (auto simp: life_def appends_def butlast_append)
    then show ?thesis using r(1) m by (auto simp: appends_def)
  next
    case False
    with r have "s' = s" by simp
    moreover have "added op r s' = []" using False by (cases op) auto
    ultimately show ?thesis using r(1) assms(2,3) by auto
  qed
next
  case False
  then consider "op = Handle" | "op = Finish" by (auto simp: sending_def)
  then show ?thesis
  proof cases
    case 1
    show ?thesis
    proof (cases "msg_queue (fst s)")
      case Nil
      then show ?thesis using 1 handle_one_books [OF assms(2)] assms(2,3) by (cases s) auto
    next
      case (Cons m ms)
      from handle_one_books [OF assms(2), unfolded Cons list.case] obtain s' where s': "handle_one s = Some (True, s')" "books others s'" "msg_queue (fst s') = ms"
        "state (fst s') = state (fst s)" "exiting (fst s') = (exiting (fst s) \<or> msg_type m = ACTIVITY_MSG_STOP)"
        "user_handler (fst s') = user_handler (fst s)" "log (fst s') = log (fst s) @ effects (user_handler (fst s)) m" by blast
      have "life acc (done @ [m]) s'" using s' assms(3) Cons
        by (auto simp: life_def is_stop_def split: activity_state.splits)
      then show ?thesis using 1 s' assms(2,3) by (cases s; cases "state (fst s) = STATE_RUN \<or> state (fst s) = STATE_PENDING_STOP") auto
    qed
  next
    case 2
    have "life acc done (activity_thread_exit (fst s), snd s)" if "exiting (fst s)" "msg_queue (fst s) = []"
      using assms(3) that by (auto simp: life_def activity_thread_exit_def split: activity_state.splits)
    then show ?thesis using 2 assms(2,3) by (cases s) (auto simp: books_def activity_thread_exit_def)
  qed
qed

lemma life_run:
  assumes "list_all user_op ops" "books others s" "life acc done s"
  shows "\<exists>ms s' done'. act_run ops s = Some (ms, s') \<and> books others s' \<and> life (acc @ ms) done' s' \<and> user_handler (fst s') = user_handler (fst s)"
  using assms
proof (induction ops arbitrary: s acc "done")
  case Nil
  then show ?case by auto
next
  case (Cons op ops)
  from Cons.prems life_step [of op others s acc "done"] obtain r s1 done1 where s1: "act_step op s = Some (r, s1)" "books others s1"
    "life (acc @ added op r s1) done1 s1" "user_handler (fst s1) = user_handler (fst s)" by auto
  from Cons.IH [OF _ s1(2,3)] Cons.prems(1) obtain ms s2 done2 where "act_run ops s1 = Some (ms, s2)" "books others s2"
    "life ((acc @ added op r s1) @ ms) done2 s2" "user_handler (fst s2) = user_handler (fst s1)" by auto
  then show ?case using s1 by auto
qed

subsection \<open>Properties\<close>

definition idle_activity :: activity where
  "idle_activity = \<lparr>state = STATE_RUN, msg_queue = [], exiting = False, user_handler = True, log = []\<rparr>"

definition no_memory :: shared where
  "no_memory = \<lparr>live_msgs = 0, live_items = 0, live_args = 0\<rparr>"

text \<open>
  C9. Ownership of messages: whatever sequence of sends, executions, timer ticks, stops and handler rounds runs on an activity, with any pattern of
  failing allocations, no pointer is misused and nothing is released twice, and afterwards the live messages, execution items
  and copied arguments are exactly those that queued messages (or other activities) hold: no path leaks.
\<close>

theorem activity_ownership:
  assumes "list_all user_op ops" "books others s"
  shows "\<exists>ms s'. act_run ops s = Some (ms, s')
    \<and> live_msgs (snd s') = fst others + length (msg_queue (fst s'))
    \<and> live_items (snd s') = fst (snd others) + sum_list (map msg_items (msg_queue (fst s')))
    \<and> live_args (snd s') = snd (snd others) + sum_list (map msg_copies (msg_queue (fst s')))"
proof -
  from act_run_books [OF assms] obtain ms s' where "act_run ops s = Some (ms, s')" "books others s'" by blast
  then show ?thesis by (auto simp: books_def)
qed

theorem activity_ownership_witness:
  "\<exists>ms s'. act_run [Send True True 100 7 4 0, Exec True True True 3 7 4 0, Exec True True False 3 7 0 0, Handle, Handle, Handle]
       (idle_activity, no_memory) = Some (ms, s') \<and> live_msgs (snd s') = length (msg_queue (fst s'))"
  using activity_ownership [of "[Send True True 100 7 4 0, Exec True True True 3 7 4 0, Exec True True False 3 7 0 0, Handle, Handle, Handle]"
      "(0, 0, 0)" "(idle_activity, no_memory)"]
  by (auto simp: books_def idle_activity_def no_memory_def ACTIVITY_MSG_STOP_def ACTIVITY_MSG_EXEC_def)

text \<open>
  C11. Delivery and orderly stop: a running activity handles the accepted messages in the order in which they were accepted, each once. After
  a stop request nothing is accepted any more, and when the thread has ended every accepted message has been handled, the
  stop message as the last one.
\<close>

theorem activity_delivery:
  assumes "list_all user_op ops" "books others s" "state (fst s) = STATE_RUN" "msg_queue (fst s) = []" "log (fst s) = []" "\<not> exiting (fst s)"
  shows "\<exists>ms s' handled. act_run ops s = Some (ms, s') \<and> ms = handled @ msg_queue (fst s')
    \<and> log (fst s') = concat (map (effects (user_handler (fst s))) handled)
    \<and> (if state (fst s') = STATE_RUN then \<not> list_ex is_stop ms else ms \<noteq> [] \<and> is_stop (last ms) \<and> \<not> list_ex is_stop (butlast ms))
    \<and> (if state (fst s') = STATE_STOP then handled = ms else True)"
proof -
  have "life [] [] s" using assms(3-6) by (simp add: life_def)
  from life_run [OF assms(1,2) this] obtain ms s' handled where "act_run ops s = Some (ms, s')" "life ms handled s'"
    "user_handler (fst s') = user_handler (fst s)" by auto
  then show ?thesis by (cases "state (fst s')") (auto simp: life_def)
qed

theorem activity_delivery_witness:
  "\<exists>ms s' handled. act_run [Send True True 100 7 4 0, Stop True, Send True True 101 0 0 0, Handle, Handle, Handle, Finish]
       (idle_activity, no_memory) = Some (ms, s') \<and> ms = handled @ msg_queue (fst s')"
  using activity_delivery [of "[Send True True 100 7 4 0, Stop True, Send True True 101 0 0 0, Handle, Handle, Handle, Finish]"
      "(0, 0, 0)" "(idle_activity, no_memory)"]
  by (auto simp: books_def idle_activity_def no_memory_def ACTIVITY_MSG_STOP_def ACTIVITY_MSG_EXEC_def)

text \<open>
  Return codes of the sending calls, in the order of the checks: a null object, a message number or delay above 65535, a delay (not implemented), no memory
  for the copy, an activity that does not run, no memory for the message. A failing call changes nothing; a call that returns 0
  appends exactly one message with the number cut to 16 bits.
\<close>

theorem activity_send_codes:
  "activity_msg_send mem heap None msg arg size1 delay = (- EINVAL, None)
   \<and> (\<exists>r s'. activity_msg_send mem heap (Some (act, g)) msg (Plain (Ptr p)) size1 delay = (r, Some s')
       \<and> r = (if 65535 < msg \<or> 65535 < delay then - EINVAL else if delay \<noteq> 0 then - 1
              else if size1 \<noteq> 0 \<and> \<not> heap then - ENOMEM else if state act \<noteq> STATE_RUN then - 1 else if \<not> mem then - ENOMEM else 0)
       \<and> (if r \<noteq> 0 then s' = (act, g)
          else msg_queue (fst s') = msg_queue act @ [\<lparr>msg_arg = Plain (if size1 \<noteq> 0 then Copy p size1 else Ptr p),
                 msg_type = word_of_int msg, dealy = 0, msg_attr = (if size1 \<noteq> 0 then ACT_ATTR_GC else 0)\<rparr>]))
   \<and> (\<exists>r s'. activity_exec item mem heap (Some (act, g)) (Some f) (Ptr p) size1 delay = (r, Some s')
       \<and> r = (if \<not> item \<or> size1 \<noteq> 0 \<and> \<not> heap then - ENOMEM else if state act \<noteq> STATE_RUN then - 1 else if \<not> mem then - ENOMEM else 0)
       \<and> (if r \<noteq> 0 then s' = (act, g) else length (msg_queue (fst s')) = Suc (length (msg_queue act))))
   \<and> activity_exec item mem heap (Some (act, g)) None (Ptr p) size1 delay = (- EINVAL, Some (act, g))"
proof -
  have "activity_msg_send mem heap None msg arg size1 delay = (- EINVAL, None)"
    "activity_exec item mem heap (Some (act, g)) None (Ptr p) size1 delay = (- EINVAL, Some (act, g))"
    by (simp_all add: activity_msg_send_def activity_exec_def)
  then show ?thesis unfolding send_result exec_result Let_def send_code_def by (simp add: msg_consts)
qed

theorem activity_send_codes_witness:
  "activity_msg_send True True (Some (idle_activity, no_memory)) 65536 (Plain (Ptr 7)) 0 0 = (- EINVAL, Some (idle_activity, no_memory))"
  using activity_send_codes [of True True 65536 "Plain (Ptr 7)" 0 0 idle_activity no_memory 7 True undefined]
  by (simp add: EINVAL_def)

text \<open>A negative message number is not rejected and may become an internal one.\<close>

lemma negative_number_becomes_stop:
  "fst (activity_msg_send True True (Some (idle_activity, no_memory)) (- 65535) (Plain (Ptr 0)) 0 0) = 0
   \<and> map msg_type (msg_queue (fst (the (snd (activity_msg_send True True (Some (idle_activity, no_memory)) (- 65535) (Plain (Ptr 0)) 0 0)))))
       = [ACTIVITY_MSG_STOP]"
  by (simp add: send_result send_code_def idle_activity_def ACTIVITY_MSG_STOP_def)

subsection \<open>The registry\<close>

definition names :: "manager \<Rightarrow> string list" where
  "names m = map (\<lambda>e. fst (snd e)) (acts m)"

definition registry_ok :: "manager \<Rightarrow> bool" where
  "registry_ok m \<longleftrightarrow> distinct (names m) \<and> distinct (map fst (acts m)) \<and> 0 \<notin> fst ` set (acts m)"

lemma get_local_zero: "registry_ok m \<Longrightarrow> activity_get_local nm m = 0 \<longleftrightarrow> nm \<notin> set (names m)"
  by (auto simp: activity_get_local_def registry_ok_def names_def find_None_iff find_Some_iff image_iff split: option.splits)
    (metis (no_types, lifting) fst_conv nth_mem prod.collapse)+

lemma get_local_reg:
  "activity_get_local nm' (m\<lparr>acts := (p, nm, a) # acts m\<rparr>) = (if nm = nm' then p else activity_get_local nm' m)"
  by (simp add: activity_get_local_def)

text \<open>
  C39. The registry: names and objects stay unique. Registering a free name makes \<open>activity_get\<close> return the object for it and changes no
  other answer, with the return code of starting it; a null object or name and a name already taken are refused without any change.
\<close>

theorem activity_registry:
  assumes "registry_ok m" "activity_reg codes act name handler m = Some (r, m')"
  shows "registry_ok m'
    \<and> (if act = 0 \<or> name = None \<or> activity_get name m \<noteq> 0 then r \<noteq> 0 \<and> m' = m
       else activity_get name m' = act \<and> r = fst (activity_run_local codes (new_activity handler))
         \<and> (\<forall>nm'. Some nm' \<noteq> name \<longrightarrow> activity_get (Some nm') m' = activity_get (Some nm') m))"
proof -
  consider "act = 0 \<or> name = None" | nm where "act \<noteq> 0" "name = Some nm" "activity_get_local nm m \<noteq> 0"
    | nm where "act \<noteq> 0" "name = Some nm" "activity_get_local nm m = 0" by blast
  then show ?thesis
  proof cases
    case 1
    then show ?thesis using assms by (auto simp: activity_reg_def msg_consts split: option.splits)
  next
    case (2 nm)
    then show ?thesis using assms by (auto simp: activity_reg_def activity_get_def)
  next
    case (3 nm)
    with assms(2) obtain a where a: "act \<notin> fst ` set (acts m)" "m' = m\<lparr>acts := (act, nm, a) # acts m\<rparr>"
      "r = fst (activity_run_local codes (new_activity handler))"
      by (auto simp: activity_reg_def split: if_splits prod.splits)
    have "registry_ok m'" using assms(1) 3 a get_local_zero [OF assms(1), of nm] by (auto simp: registry_ok_def names_def)
    then show ?thesis using 3 a by (auto simp: activity_get_def get_local_reg)
  qed
qed

theorem activity_registry_witness:
  "\<exists>m'. activity_reg (0, 0, 0) 64 (Some ''net'') True \<lparr>acts = [(32, ''log'', idle_activity)], common = no_memory\<rparr> = Some (0, m')
     \<and> registry_ok m' \<and> activity_get (Some ''net'') m' = 64"
proof -
  let ?m = "\<lparr>acts = [(32, ''log'', idle_activity)], common = no_memory\<rparr>"
  have ok: "registry_ok ?m" by (simp add: registry_ok_def names_def)
  have "\<exists>m'. activity_reg (0, 0, 0) 64 (Some ''net'') True ?m = Some (0, m')"
    by (simp add: activity_reg_def activity_get_local_def activity_run_local_def new_activity_def)
  then obtain m' where m': "activity_reg (0, 0, 0) 64 (Some ''net'') True ?m = Some (0, m')" by blast
  from activity_registry [OF ok m'] m' show ?thesis by (auto simp: activity_get_def activity_get_local_def split: if_splits)
qed

text \<open>An activity that could not be started stays registered although \<open>activity_reg\<close> reports the error.\<close>

lemma failed_start_stays_registered:
  assumes "init \<noteq> 0" "act \<noteq> 0" "activity_get_local nm m = 0" "act \<notin> fst ` set (acts m)"
  shows "\<exists>m'. activity_reg (init, event, create) act (Some nm) h m = Some (init, m') \<and> activity_get (Some nm) m' = act"
  using assms by (auto simp: activity_reg_def activity_run_local_def new_activity_def activity_get_def get_local_reg)

text \<open>The shutdown releases the pools while the stop messages are still queued in activities whose threads have not ended.\<close>

lemma fini_leaves_messages:
  "activity_manager_fini [True] \<lparr>acts = [(32, ''log'', idle_activity)], common = no_memory\<rparr>
     = (0, \<lparr>acts = [], common = no_memory\<rparr>,
        [(32, ''log'', idle_activity\<lparr>state := STATE_PENDING_STOP,
            msg_queue := [\<lparr>msg_arg = Plain (Ptr 0), msg_type = ACTIVITY_MSG_STOP, dealy = 0, msg_attr = 0\<rparr>]\<rparr>)])"
  by (simp add: activity_manager_fini_def activity_set_pendding_exit_def msg_enqueue_def idle_activity_def no_memory_def ACTIVITY_MSG_STOP_def)

text \<open>
  The pools are shared by all activities, but \<open>msg_enqueue\<close> holds only the lock of its own activity and \<open>msg_queue_handler\<close> frees without a
  lock. The recycling branch of \<open>pool_malloc\<close> reads the head of the free list and then replaces it; two threads that both read
  before either writes get the same element.
\<close>

definition recycle_read :: "pool_mem \<Rightarrow> addr" where
  "recycle_read s = freed s"

definition recycle_write :: "addr \<Rightarrow> pool_mem \<Rightarrow> pool_mem" where
  "recycle_write p s = s\<lparr>freed := links s p\<rparr>"

lemma recycle_steps: "freed s \<noteq> 0 \<Longrightarrow> pool_malloc L s = Some (recycle_read s, recycle_write (recycle_read s) s)"
  by (simp add: pool_malloc_def recycle_read_def recycle_write_def)

lemma interleaved_recycle_shares_element:
  assumes "pool_inv L s live" "freed s \<noteq> 0"
  defines "p \<equiv> recycle_read s" and "q \<equiv> recycle_read s"
  defines "s' \<equiv> recycle_write q (recycle_write p s)"
  shows "p = q \<and> p \<notin> set live \<and> \<not> pool_inv L s' (p # q # live)"
proof -
  from assms(1) obtain free where f: "chain (links s) (freed s) free" "distinct (live @ free)" by (auto simp: pool_inv_def)
  with assms(2) have "freed s \<in> set free" by (cases free) auto
  with f(2) show ?thesis by (auto simp: p_def q_def recycle_read_def pool_inv_def)
qed

end
