(* ===== verification/Activity_Timer.thy ===== *)
theory Activity_Timer
  imports Activity
begin

text \<open>
  The rest of \<open>activity.c\<close>: the periodic timer of an activity and the body of its thread.

  The timer of the event library is a value of a type \<open>'t\<close>, with the library's functions as arguments; of them the properties use that a started
  timer is armed and a stopped one is not (\<open>timer_laws\<close>), and that only an armed timer calls its callback.
\<close>

subsection \<open>Definitions\<close>

record 't timed =
  timer :: 't
  base :: act_sys

definition activity_periodic_event_enable :: "(int \<Rightarrow> int \<Rightarrow> 't \<Rightarrow> 't) \<Rightarrow> ('t \<Rightarrow> 't) \<Rightarrow> int \<Rightarrow> 't timed \<Rightarrow> int \<times> 't timed" where
  "activity_periodic_event_enable uev_timer_init uev_timer_start interval_ms s =
     (0, s\<lparr>timer := uev_timer_start (uev_timer_init interval_ms interval_ms (timer s))\<rparr>)"

definition activity_periodic_event_disable :: "('t \<Rightarrow> 't) \<Rightarrow> 't timed \<Rightarrow> int \<times> 't timed" where
  "activity_periodic_event_disable uev_timer_stop s = (0, s\<lparr>timer := uev_timer_stop (timer s)\<rparr>)"

text \<open>The callback: one message, whose result is ignored, and the timer is started again.\<close>

definition timer_callback :: "('t \<Rightarrow> 't) \<Rightarrow> bool \<Rightarrow> bool \<Rightarrow> 't timed \<Rightarrow> 't timed option" where
  "timer_callback uev_timer_start mem heap s =
     map_option (\<lambda>b. s\<lparr>base := b, timer := uev_timer_start (timer s)\<rparr>) (snd (periodic_event_cb mem heap (base s)))"

text \<open>
  The thread: \<open>init\<close> and \<open>fini\<close> are the callbacks of the configuration, when it has them, \<open>run\<close> is \<open>uev_run\<close> with everything that is handled in it.
\<close>

definition activity_thread_entry ::
    "('t timed \<Rightarrow> 't timed) option \<Rightarrow> ('t timed \<Rightarrow> 't timed) option \<Rightarrow> ('t timed \<Rightarrow> 't timed option) \<Rightarrow> ('t \<Rightarrow> 't) \<Rightarrow> 't timed \<Rightarrow> 't timed option" where
  "activity_thread_entry init fini run uev_event_stop s =
     (let s = (case init of None \<Rightarrow> s | Some f \<Rightarrow> f s)
      in map_option
        (\<lambda>s. let s = (case fini of None \<Rightarrow> s | Some f \<Rightarrow> f s)
             in s\<lparr>timer := uev_event_stop (timer s), base := (activity_thread_exit (fst (base s)), snd (base s))\<rparr>)
        (run s))"

subsection \<open>Runs\<close>

definition timer_laws :: "('t \<Rightarrow> bool) \<Rightarrow> ('t \<Rightarrow> 't) \<Rightarrow> ('t \<Rightarrow> 't) \<Rightarrow> bool" where
  "timer_laws armed start stop \<longleftrightarrow> (\<forall>t. armed (start t)) \<and> (\<forall>t. \<not> armed (stop t))"

datatype timer_op = Enable int | Disable | Fire bool bool | Other act_op

text \<open>\<open>None\<close> is a callback of a timer that is not armed, which the library does not make.\<close>

fun timer_run :: "('t \<Rightarrow> bool) \<Rightarrow> (int \<Rightarrow> int \<Rightarrow> 't \<Rightarrow> 't) \<Rightarrow> ('t \<Rightarrow> 't) \<Rightarrow> ('t \<Rightarrow> 't) \<Rightarrow> timer_op list \<Rightarrow> 't timed \<Rightarrow> 't timed option" where
  "timer_run armed tinit start stop [] s = Some s"
| "timer_run armed tinit start stop (Enable ms # ops) s =
     timer_run armed tinit start stop ops (snd (activity_periodic_event_enable tinit start ms s))"
| "timer_run armed tinit start stop (Disable # ops) s =
     timer_run armed tinit start stop ops (snd (activity_periodic_event_disable stop s))"
| "timer_run armed tinit start stop (Fire mem heap # ops) s =
     (if armed (timer s) then Option.bind (timer_callback start mem heap s) (timer_run armed tinit start stop ops) else None)"
| "timer_run armed tinit start stop (Other op # ops) s =
     Option.bind (act_step op (base s)) (\<lambda>(r, b). timer_run armed tinit start stop ops (s\<lparr>base := b\<rparr>))"

text \<open>Whether the timer is armed behind some operations, and the operations on the activity alone: a firing is a \<open>Tick\<close>.\<close>

fun armed_after :: "bool \<Rightarrow> timer_op list \<Rightarrow> bool" where
  "armed_after b [] = b"
| "armed_after b (Enable ms # ops) = armed_after True ops"
| "armed_after b (Disable # ops) = armed_after False ops"
| "armed_after b (Fire mem heap # ops) = armed_after True ops"
| "armed_after b (Other op # ops) = armed_after b ops"

fun firings_allowed :: "bool \<Rightarrow> timer_op list \<Rightarrow> bool" where
  "firings_allowed b [] \<longleftrightarrow> True"
| "firings_allowed b (Enable ms # ops) \<longleftrightarrow> firings_allowed True ops"
| "firings_allowed b (Disable # ops) \<longleftrightarrow> firings_allowed False ops"
| "firings_allowed b (Fire mem heap # ops) \<longleftrightarrow> b \<and> firings_allowed True ops"
| "firings_allowed b (Other op # ops) \<longleftrightarrow> firings_allowed b ops"

fun act_ops :: "timer_op list \<Rightarrow> act_op list" where
  "act_ops [] = []"
| "act_ops (Fire mem heap # ops) = Tick mem heap # act_ops ops"
| "act_ops (Other op # ops) = op # act_ops ops"
| "act_ops (op # ops) = act_ops ops"

lemma callback_is_tick:
  "timer_callback start mem heap s = map_option (\<lambda>(r, b). s\<lparr>base := b, timer := start (timer s)\<rparr>) (act_step (Tick mem heap) (base s))"
  by (cases "periodic_event_cb mem heap (base s)") (auto simp: timer_callback_def split: option.splits)

lemma tick_total: "\<exists>r b. act_step (Tick mem heap) s = Some (r, b)"
  by (auto simp: periodic_event_cb_def activity_msg_send_def Let_def split: prod.splits option.splits)

text \<open>
  Equivalence: a run with the timer is a run of the operations on the activity in which every firing sends one periodic message; it exists when
  the operations on the activity succeed and the timer fires only between an enabling and the next disabling.
\<close>

theorem timer_run_is_act_run:
  assumes "timer_laws armed start stop"
  shows "map_option base (timer_run armed tinit start stop ops s) =
     (if firings_allowed (armed (timer s)) ops then map_option snd (act_run (act_ops ops) (base s)) else None)"
proof -
  have laws: "armed (start t)" "\<not> armed (stop t)" for t using assms by (simp_all add: timer_laws_def)
  show ?thesis
  proof (induction ops arbitrary: s)
    case (Cons op ops)
    show ?case
    proof (cases op)
      case (Fire mem heap)
      obtain r b where t: "act_step (Tick mem heap) (base s) = Some (r, b)" using tick_total by blast
      then have "timer_callback start mem heap s = Some (s\<lparr>base := b, timer := start (timer s)\<rparr>)" by (simp add: callback_is_tick)
      then show ?thesis using Fire t Cons.IH [of "s\<lparr>base := b, timer := start (timer s)\<rparr>"] laws
        by (auto simp del: act_step.simps split: option.split if_splits)
    next
      case (Other aop)
      show ?thesis
      proof (cases "act_step aop (base s)")
        case (Some x)
        obtain r b where x: "x = (r, b)" by (cases x)
        show ?thesis using Other Some x Cons.IH [of "s\<lparr>base := b\<rparr>"] by (auto split: option.split)
      qed (simp add: Other)
    qed (simp_all add: Cons.IH laws activity_periodic_event_enable_def activity_periodic_event_disable_def)
  qed simp
qed

text \<open>A timer as a flag, an activity that runs, and what its thread handles.\<close>

theorem timer_run_is_act_run_witness:
  "map_option (\<lambda>s. (timer s, map msg_type (msg_queue (fst (base s)))))
     (timer_run id (\<lambda>_ _ _. False) (\<lambda>_. True) (\<lambda>_. False) [Enable 10, Fire True True, Fire False True, Fire True True, Disable]
       \<lparr>timer = False, base = (\<lparr>state = STATE_RUN, msg_queue = [], exiting = False, user_handler = True, log = []\<rparr>,
         \<lparr>live_msgs = 0, live_items = 0, live_args = 0\<rparr>)\<rparr>) = Some (False, [ACTIVITY_MSG_PERIODIC, ACTIVITY_MSG_PERIODIC])
   \<and> timer_run id (\<lambda>_ _ _. False) (\<lambda>_. True) (\<lambda>_. False) [Enable 10, Disable, Fire True True]
       \<lparr>timer = False, base = (\<lparr>state = STATE_RUN, msg_queue = [], exiting = False, user_handler = True, log = []\<rparr>,
         \<lparr>live_msgs = 0, live_items = 0, live_args = 0\<rparr>)\<rparr> = None"
  (is "?A \<and> ?B")
proof
  show ?A
    by (simp add: activity_periodic_event_enable_def activity_periodic_event_disable_def timer_callback_def periodic_event_cb_def
      activity_msg_send_def msg_enqueue_def Let_def ACTIVITY_MSG_PERIODIC_def ENOMEM_def)
  have "timer_laws id (\<lambda>_. True) (\<lambda>_. False)" by (simp add: timer_laws_def)
  from timer_run_is_act_run [OF this, where ops = "[Enable 10, Disable, Fire True True]"] show ?B by simp
qed

end
