(* ===== verification/Event_Flags.thy ===== *)
theory Event_Flags
  imports Prelude
begin

unbundle bit_operations_syntax

text \<open>
  The event flags of \<open>event1.c\<close>, a 32-bit set of flags under a mutex and a condition variable.

  The first part translates the functions as one thread runs them. While a thread sleeps in \<open>pthread_cond_wait\<close> the mutex is free and
  other threads may change the flags: every sleep takes the next element of a list of wake-ups, each the effect of the
  others on the flags and the return code of the call. An empty list means that nobody wakes the thread, and the call does
  not return (\<open>None\<close>). \<open>locked\<close> says whether the calling thread holds the mutex. The second part is the system of all threads: waiters and posts interleaved at the points where the
  mutex changes hands.
\<close>

subsection \<open>Definitions\<close>

definition EVENT_FLAG_AND :: u8 where "EVENT_FLAG_AND = 0x01"
definition EVENT_FLAG_OR :: u8 where "EVENT_FLAG_OR = 0x02"
definition EVENT_FLAG_CLEAR :: u8 where "EVENT_FLAG_CLEAR = 0x04"

record event_t =
  flag_value :: u32
  locked :: bool

type_synonym wakeup = "(u32 \<Rightarrow> u32) \<times> int"

definition event_init :: "event_t option \<Rightarrow> int \<times> event_t option" where
  "event_init e = (case e of None \<Rightarrow> (EINVAL, None) | Some e \<Rightarrow> (0, Some (e\<lparr>flag_value := 0, locked := False\<rparr>)))"

definition event_post :: "event_t option \<Rightarrow> u32 \<Rightarrow> int \<times> event_t option" where
  "event_post e set1 = (case e of None \<Rightarrow> (EINVAL, None)
     | Some e \<Rightarrow> (0, Some (e\<lparr>flag_value := flag_value e OR set1, locked := False\<rparr>)))"

text \<open>The test in the loop of both waiting functions.\<close>

definition flags_match :: "u8 \<Rightarrow> u32 \<Rightarrow> u32 \<Rightarrow> bool" where
  "flags_match option1 set1 v =
     (if option1 AND EVENT_FLAG_AND \<noteq> 0 then v AND set1 = set1
      else if option1 AND EVENT_FLAG_OR \<noteq> 0 then v AND set1 \<noteq> 0
      else False)"

text \<open>What a matched waiter takes, and the flags it leaves.\<close>

definition flags_taken :: "u32 \<Rightarrow> u32 \<Rightarrow> u32" where
  "flags_taken set1 v = v AND set1"

definition flags_left :: "u8 \<Rightarrow> u32 \<Rightarrow> u32 \<Rightarrow> u32" where
  "flags_left option1 set1 v = (if option1 AND EVENT_FLAG_CLEAR \<noteq> 0 then v AND NOT set1 else v)"

fun wait_loop :: "u8 \<Rightarrow> u32 \<Rightarrow> wakeup list \<Rightarrow> u32 \<Rightarrow> (bool \<times> u32) option" where
  "wait_loop option1 set1 ws v =
     (if flags_match option1 set1 v then Some (True, v)
      else case ws of
          [] \<Rightarrow> None
        | (others, rc) # ws \<Rightarrow> if rc = 0 then wait_loop option1 set1 ws (others v) else Some (False, others v))"

text \<open>The end of both waiting functions.\<close>

definition wait_result :: "u8 \<Rightarrow> u32 \<Rightarrow> bool \<times> u32 \<Rightarrow> event_t \<Rightarrow> int \<times> u32 option \<times> event_t option" where
  "wait_result option1 set1 r e =
     (case r of (match1, v) \<Rightarrow>
        if match1 then (0, Some (flags_taken set1 v), Some (e\<lparr>flag_value := flags_left option1 set1 v, locked := False\<rparr>))
        else (ETIMEDOUT, None, Some (e\<lparr>flag_value := v, locked := False\<rparr>)))"

text \<open>A null \<open>e\<close> is \<open>None\<close>; \<open>recved\<close> says whether the pointer for the result is not null.\<close>

definition event_wait :: "wakeup list \<Rightarrow> u32 \<Rightarrow> u8 \<Rightarrow> bool \<Rightarrow> event_t option \<Rightarrow> (int \<times> u32 option \<times> event_t option) option" where
  "event_wait ws set1 option1 recved ep =
     (case ep of
        None \<Rightarrow> Some (EINVAL, None, ep)
      | Some e \<Rightarrow> if \<not> recved then Some (EINVAL, None, ep)
          else map_option (\<lambda>r. wait_result option1 set1 r e) (wait_loop option1 set1 ws (flag_value e)))"

text \<open>
  \<open>pthread_cond_timedwait\<close> fails with \<open>EINVAL\<close> at once, without giving the mutex away, when the nanoseconds of the deadline are not
  below a thousand million. The deadline is (seconds, nanoseconds).
\<close>

definition cond_timedwait :: "int \<times> int \<Rightarrow> wakeup list \<Rightarrow> (wakeup \<times> wakeup list) option" where
  "cond_timedwait ts ws =
     (if snd ts < 0 \<or> 1000000000 \<le> snd ts then Some ((id, EINVAL), ws)
      else case ws of [] \<Rightarrow> None | w # ws \<Rightarrow> Some (w, ws))"

definition deadline :: "int \<times> int \<Rightarrow> u32 \<Rightarrow> int \<times> int" where
  "deadline ts timeout = (fst ts + uint (timeout div 1000), snd ts + uint ((timeout mod 1000) * 1000000))"

text \<open>The loop of \<open>event_timedwait\<close> does not leave when the flags match: it sleeps once more and leaves afterwards.\<close>

function timed_loop :: "u8 \<Rightarrow> u32 \<Rightarrow> int \<times> int \<Rightarrow> wakeup list \<Rightarrow> u32 \<Rightarrow> (bool \<times> u32) option" where
  "timed_loop option1 set1 ts ws v =
     (let match1 = flags_match option1 set1 v in
      case cond_timedwait ts ws of
        None \<Rightarrow> None
      | Some ((others, rc), ws') \<Rightarrow>
          if match1 \<or> rc \<noteq> 0 then Some (match1, others v) else timed_loop option1 set1 ts ws' (others v))"
  by pat_completeness auto

termination
  by (relation "measure (\<lambda>(option1, set1, ts, ws, v). length ws)")
    (auto simp: cond_timedwait_def EINVAL_def split: if_splits list.splits)

declare wait_loop.simps [simp del] timed_loop.simps [simp del]

definition event_timedwait :: "(int \<times> int) option \<Rightarrow> wakeup list \<Rightarrow> u32 \<Rightarrow> u8 \<Rightarrow> u32 \<Rightarrow> bool \<Rightarrow> event_t option \<Rightarrow>
    (int \<times> u32 option \<times> event_t option) option" where
  "event_timedwait clock ws set1 option1 timeout recved ep =
     (case ep of
        None \<Rightarrow> Some (EINVAL, None, ep)
      | Some e \<Rightarrow>
          if \<not> recved then Some (EINVAL, None, ep)
          else (case clock of
              None \<Rightarrow> Some (- 1, None, Some (e\<lparr>locked := True\<rparr>))
            | Some ts \<Rightarrow> map_option (\<lambda>r. wait_result option1 set1 r e)
                (timed_loop option1 set1 (deadline ts timeout) ws (flag_value e))))"

subsection \<open>One thread\<close>

text \<open>The flags after the first \<open>n\<close> wake-ups.\<close>

definition flags_after :: "wakeup list \<Rightarrow> nat \<Rightarrow> u32 \<Rightarrow> u32" where
  "flags_after ws n v = fold (\<lambda>w v. fst w v) (take n ws) v"

lemma flags_after_simps [simp]:
  "flags_after ws 0 v = v" "flags_after (w # ws) (Suc n) v = flags_after ws n (fst w v)"
  by (simp_all add: flags_after_def)

text \<open>\<open>event_wait\<close> returns at the first moment at which the flags match, as long as the waits themselves succeed.\<close>

lemma wait_loop_first:
  assumes "n \<le> length ws" "\<forall>k < n. \<not> flags_match option1 set1 (flags_after ws k v)" "flags_match option1 set1 (flags_after ws n v)"
    "\<forall>w \<in> set (take n ws). snd w = 0"
  shows "wait_loop option1 set1 ws v = Some (True, flags_after ws n v)"
  using assms
proof (induction n arbitrary: ws v)
  case 0
  then show ?case by (simp add: wait_loop.simps)
next
  case (Suc n)
  then obtain w ws' where ws: "ws = w # ws'" by (cases ws) auto
  have "\<not> flags_match option1 set1 v" using Suc.prems(2) by (metis flags_after_simps(1) zero_less_Suc)
  moreover have "\<forall>k < n. \<not> flags_match option1 set1 (flags_after ws' k (fst w v))" using Suc.prems(2) ws by (auto dest: spec [of _ "Suc _"])
  ultimately show ?case using Suc.IH [of ws' "fst w v"] Suc.prems ws by (cases w) (simp add: wait_loop.simps)
qed

lemma wait_loop_blocks:
  assumes "\<forall>k \<le> length ws. \<not> flags_match option1 set1 (flags_after ws k v)" "\<forall>w \<in> set ws. snd w = 0"
  shows "wait_loop option1 set1 ws v = None"
  using assms
proof (induction ws arbitrary: v)
  case Nil
  then show ?case by (simp add: wait_loop.simps)
next
  case (Cons w ws)
  have "\<not> flags_match option1 set1 v" using Cons.prems(1) by (metis flags_after_simps(1) zero_le)
  moreover have "\<forall>k \<le> length ws. \<not> flags_match option1 set1 (flags_after ws k (fst w v))" using Cons.prems(1) by (auto dest: spec [of _ "Suc _"])
  ultimately show ?case using Cons.IH [of "fst w v"] Cons.prems(2) by (cases w) (simp add: wait_loop.simps)
qed

lemma flags_matchD:
  "flags_match option1 set1 v \<Longrightarrow> if option1 AND EVENT_FLAG_AND \<noteq> 0 then flags_taken set1 v = set1 else flags_taken set1 v \<noteq> 0"
  by (simp add: flags_match_def flags_taken_def split: if_splits)

text \<open>With a valid deadline a thread whose flags are set goes to sleep all the same, and reports what is left when it wakes up.\<close>

lemma timed_sleeps_on_match:
  assumes "flags_match option1 set1 v" "0 \<le> snd ts" "snd ts < 1000000000"
  shows "timed_loop option1 set1 ts [] v = None"
    "timed_loop option1 set1 ts ((others, rc) # ws) v = Some (True, others v)"
  using assms by (simp_all add: timed_loop.simps [of _ _ _ "[]"] timed_loop.simps [of _ _ _ "_ # _"] cond_timedwait_def)

text \<open>With a deadline whose nanoseconds have overflowed nobody waits.\<close>

lemma timed_overflow_returns:
  assumes "1000000000 \<le> snd ts"
  shows "timed_loop option1 set1 ts ws v = Some (flags_match option1 set1 v, v)"
  using assms by (subst timed_loop.simps) (simp add: cond_timedwait_def EINVAL_def Let_def)

subsection \<open>Many threads\<close>

text \<open>
  A waiting thread is outside, tests with the mutex held, sleeps, has been woken, or has returned with what it took. A post happens with
  the mutex free and wakes all sleepers; a sleeper may also wake up spuriously.
\<close>

datatype pc = Outside | Testing | Asleep | Woken | Returned u32

record waiter =
  want :: u32
  opts :: u8
  at :: pc

record system =
  flags :: u32
  owner :: "nat option"
  waiters :: "waiter list"

datatype move = Lock nat | Return nat | Sleep nat | Post u32 | Spurious nat

definition matches :: "waiter \<Rightarrow> u32 \<Rightarrow> bool" where
  "matches w v = flags_match (opts w) (want w) v"

definition wake :: "waiter \<Rightarrow> waiter" where
  "wake w = (if at w = Asleep then w\<lparr>at := Woken\<rparr> else w)"

definition put_at :: "nat \<Rightarrow> pc \<Rightarrow> system \<Rightarrow> system" where
  "put_at i p s = s\<lparr>waiters := (waiters s)[i := (waiters s ! i)\<lparr>at := p\<rparr>]\<rparr>"

fun exec :: "move \<Rightarrow> system \<Rightarrow> system option" where
  "exec (Lock i) s =
     (if i < length (waiters s) \<and> owner s = None \<and> (at (waiters s ! i) = Outside \<or> at (waiters s ! i) = Woken)
      then Some ((put_at i Testing s)\<lparr>owner := Some i\<rparr>) else None)"
| "exec (Return i) s =
     (if i < length (waiters s) \<and> owner s = Some i \<and> at (waiters s ! i) = Testing \<and> matches (waiters s ! i) (flags s)
      then Some ((put_at i (Returned (flags_taken (want (waiters s ! i)) (flags s))) s)
             \<lparr>owner := None, flags := flags_left (opts (waiters s ! i)) (want (waiters s ! i)) (flags s)\<rparr>)
      else None)"
| "exec (Sleep i) s =
     (if i < length (waiters s) \<and> owner s = Some i \<and> at (waiters s ! i) = Testing \<and> \<not> matches (waiters s ! i) (flags s)
      then Some ((put_at i Asleep s)\<lparr>owner := None\<rparr>) else None)"
| "exec (Post m) s =
     (if owner s = None then Some (s\<lparr>flags := flags s OR m, waiters := map wake (waiters s)\<rparr>) else None)"
| "exec (Spurious i) s =
     (if i < length (waiters s) \<and> at (waiters s ! i) = Asleep then Some (put_at i Woken s) else None)"

inductive reachable :: "system \<Rightarrow> system \<Rightarrow> bool" for s0 where
  start: "reachable s0 s0"
| move: "reachable s0 s \<Longrightarrow> exec m s = Some s' \<Longrightarrow> reachable s0 s'"

definition fresh_system :: "system \<Rightarrow> bool" where
  "fresh_system s \<longleftrightarrow> owner s = None \<and> list_all (\<lambda>w. at w = Outside) (waiters s)"

fun run_moves :: "move list \<Rightarrow> system \<Rightarrow> system option" where
  "run_moves [] s = Some s"
| "run_moves (m # ms) s = (case exec m s of None \<Rightarrow> None | Some s' \<Rightarrow> run_moves ms s')"

text \<open>
  The invariant: the mutex is held exactly by the thread that tests, the condition of every sleeper is false, and who has returned took flags
  that satisfy its condition.
\<close>

definition waiter_ok :: "nat option \<Rightarrow> u32 \<Rightarrow> nat \<Rightarrow> waiter \<Rightarrow> bool" where
  "waiter_ok own v i w \<longleftrightarrow> (at w = Testing \<longleftrightarrow> own = Some i) \<and> (at w = Asleep \<longrightarrow> \<not> matches w v)
     \<and> (\<forall>g. at w = Returned g \<longrightarrow> matches w g \<and> g AND want w = g)"

definition inv_system :: "system \<Rightarrow> bool" where
  "inv_system s \<longleftrightarrow> (\<forall>i. owner s = Some i \<longrightarrow> i < length (waiters s))
     \<and> (\<forall>i < length (waiters s). waiter_ok (owner s) (flags s) i (waiters s ! i))"

lemma and_full: "(v AND m) AND s = s \<Longrightarrow> v AND s = (s :: u32)"
  by (rule bit_word_eqI) (metis bit_and_iff)

lemma and_none: "v AND s = 0 \<Longrightarrow> (v AND m) AND s = (0 :: u32)"
  by (metis and.assoc and.commute and_zero_eq)

lemma matches_antimono: "\<not> matches w v \<Longrightarrow> \<not> matches w (v AND m)"
  using and_full [of v m "want w"] and_none [of v "want w" m] by (auto simp: matches_def flags_match_def split: if_splits)

lemma matches_left: "\<not> matches w v \<Longrightarrow> \<not> matches w (flags_left o1 s1 v)"
  by (simp add: flags_left_def matches_antimono)

lemma matches_taken: "matches w v \<Longrightarrow> matches w (flags_taken (want w) v)"
  by (simp add: matches_def flags_match_def flags_taken_def and.assoc split: if_splits)

lemma matches_pc [simp]: "matches (w\<lparr>at := p\<rparr>) v = matches w v"
  by (simp add: matches_def)

lemma wake_simps [simp]: "want (wake w) = want w" "opts (wake w) = opts w" "matches (wake w) v = matches w v"
  "at (wake w) \<noteq> Asleep" "at (wake w) = Testing \<longleftrightarrow> at w = Testing" "at (wake w) = Returned g \<longleftrightarrow> at w = Returned g"
  by (auto simp: wake_def matches_def)

lemma put_at_simps [simp]: "flags (put_at i p s) = flags s" "owner (put_at i p s) = owner s"
  "length (waiters (put_at i p s)) = length (waiters s)"
  "j < length (waiters s) \<Longrightarrow> waiters (put_at i p s) ! j = (if i = j then (waiters s ! i)\<lparr>at := p\<rparr> else waiters s ! j)"
  by (auto simp: put_at_def)

lemma inv_fresh: "fresh_system s \<Longrightarrow> inv_system s"
  by (auto simp: fresh_system_def inv_system_def waiter_ok_def list_all_length)

text \<open>One waiter moves: the others keep their condition when the mutex was not theirs.\<close>

lemma inv_put_at:
  assumes "inv_system s" "i < length (waiters s)" "\<forall>j. j \<noteq> i \<longrightarrow> owner s \<noteq> Some j"
    and "waiter_ok own v i ((waiters s ! i)\<lparr>at := p\<rparr>)" "own = None \<or> own = Some i" "v = flags s \<or> (\<exists>o1 s1. v = flags_left o1 s1 (flags s))"
  shows "inv_system ((put_at i p s)\<lparr>owner := own, flags := v\<rparr>)"
proof -
  have "waiter_ok own v j (waiters s ! j)" if "j < length (waiters s)" "j \<noteq> i" for j
  proof -
    have w: "waiter_ok (owner s) (flags s) j (waiters s ! j)" using assms(1) that(1) by (simp add: inv_system_def)
    have "own \<noteq> Some j" using assms(5) that(2) by auto
    with w assms(3,6) that(2) show ?thesis unfolding waiter_ok_def using matches_left by metis
  qed
  with assms(2,4,5) show ?thesis by (auto simp: inv_system_def)
qed

lemma inv_exec:
  assumes "inv_system s" "exec m s = Some s'"
  shows "inv_system s'"
proof (cases m)
  case (Lock i)
  with assms(2) have i: "i < length (waiters s)" "owner s = None" "s' = (put_at i Testing s)\<lparr>owner := Some i, flags := flags s\<rparr>"
    by (auto simp: put_at_def split: if_splits)
  show ?thesis unfolding i(3) by (rule inv_put_at [OF assms(1) i(1)]) (auto simp: i(2) waiter_ok_def)
next
  case (Return i)
  with assms(2) have i: "i < length (waiters s)" "owner s = Some i" "matches (waiters s ! i) (flags s)"
    "s' = (put_at i (Returned (flags_taken (want (waiters s ! i)) (flags s))) s)
       \<lparr>owner := None, flags := flags_left (opts (waiters s ! i)) (want (waiters s ! i)) (flags s)\<rparr>"
    by (auto split: if_splits)
  show ?thesis unfolding i(4)
  proof (rule inv_put_at [OF assms(1) i(1)])
    show "waiter_ok None (flags_left (opts (waiters s ! i)) (want (waiters s ! i)) (flags s)) i
        ((waiters s ! i)\<lparr>at := Returned (flags_taken (want (waiters s ! i)) (flags s))\<rparr>)"
      using matches_taken [OF i(3)] by (simp add: waiter_ok_def) (simp add: flags_taken_def and.assoc)
  qed (use i(2) in auto)
next
  case (Sleep i)
  with assms(2) have i: "i < length (waiters s)" "owner s = Some i" "\<not> matches (waiters s ! i) (flags s)"
    "s' = (put_at i Asleep s)\<lparr>owner := None, flags := flags s\<rparr>"
    by (auto simp: put_at_def split: if_splits)
  show ?thesis unfolding i(4) by (rule inv_put_at [OF assms(1) i(1)]) (auto simp: i(2,3) waiter_ok_def)
next
  case (Post k)
  with assms(2) have s': "s' = s\<lparr>flags := flags s OR k, waiters := map wake (waiters s)\<rparr>" by (simp split: if_splits)
  have "waiter_ok own v' i (wake w)" if "waiter_ok own v i w" for own v v' i w
    using that by (simp add: waiter_ok_def)
  with assms(1) show ?thesis unfolding s' inv_system_def by simp blast
next
  case (Spurious i)
  with assms(2) have i: "i < length (waiters s)" "at (waiters s ! i) = Asleep" "s' = put_at i Woken s"
    by (simp_all split: if_splits)
  have "waiter_ok (owner s) (flags s) i (waiters s ! i)" using assms(1) i(1) by (simp add: inv_system_def)
  then have "waiter_ok (owner s) (flags s) i ((waiters s ! i)\<lparr>at := Woken\<rparr>)" using i(2) by (simp add: waiter_ok_def)
  with assms(1) show ?thesis unfolding i(3) by (simp add: inv_system_def)
qed

lemma inv_reachable: "reachable s0 s \<Longrightarrow> fresh_system s0 \<Longrightarrow> inv_system s"
  by (induction rule: reachable.induct) (auto intro: inv_fresh inv_exec)

subsection \<open>Coming to rest\<close>

fun waiter_move :: "move \<Rightarrow> bool" where
  "waiter_move (Lock i) = True"
| "waiter_move (Return i) = True"
| "waiter_move (Sleep i) = True"
| "waiter_move _ = False"

definition todo :: "waiter \<Rightarrow> nat" where
  "todo w = (case at w of Outside \<Rightarrow> 2 | Woken \<Rightarrow> 2 | Testing \<Rightarrow> 1 | _ \<Rightarrow> 0)"

definition work :: "system \<Rightarrow> nat" where
  "work s = sum_list (map todo (waiters s))"

lemma work_put_at:
  "i < length (waiters s) \<Longrightarrow> todo (waiters s ! i) = Suc (todo ((waiters s ! i)\<lparr>at := p\<rparr>)) \<Longrightarrow> work s = Suc (work (put_at i p s))"
  by (simp add: work_def put_at_def map_update sum_list_update) (metis Suc_diff_Suc Suc_pred add_Suc_right diff_Suc_Suc elem_le_sum_list le_add_diff_inverse length_map nth_map zero_less_Suc
      ordered_cancel_comm_monoid_diff_class.add_diff_assoc2 Suc_le_lessD add.commute)

lemma work_exec: "exec m s = Some s' \<Longrightarrow> waiter_move m \<Longrightarrow> work s = Suc (work s') \<and> length (waiters s') = length (waiters s)"
  by (cases m) (auto simp: work_def [of "_\<lparr>owner := _\<rparr>"] work_def [of "_\<lparr>owner := _, flags := _\<rparr>"] work_def [of "put_at _ _ _", symmetric] todo_def intro!: work_put_at split: if_splits)

lemma work_run: "run_moves ms s = Some s' \<Longrightarrow> list_all waiter_move ms \<Longrightarrow> work s = length ms + work s' \<and> length (waiters s') = length (waiters s)"
  by (induction ms arbitrary: s) (auto dest!: work_exec split: option.splits)

lemma work_bound: "work s \<le> 2 * length (waiters s)"
proof -
  have "sum_list (map todo ws) \<le> 2 * length ws" for ws
    by (induction ws) (auto simp: todo_def split: pc.splits)
  then show ?thesis by (simp add: work_def)
qed

text \<open>When no waiter can move, the mutex is free and everybody has returned or sleeps on a false condition.\<close>

lemma rest_settled:
  assumes "inv_system s" "\<forall>m. waiter_move m \<longrightarrow> exec m s = None" "i < length (waiters s)"
  shows "(\<exists>g. at (waiters s ! i) = Returned g) \<or> at (waiters s ! i) = Asleep \<and> \<not> matches (waiters s ! i) (flags s)"
proof -
  have free: "owner s = None"
  proof (rule ccontr)
    assume "owner s \<noteq> None"
    then obtain j where "owner s = Some j" by blast
    moreover from this assms(1) have "j < length (waiters s)" "at (waiters s ! j) = Testing"
      by (auto simp: inv_system_def waiter_ok_def)
    moreover have "exec (Return j) s = None" "exec (Sleep j) s = None"
      using assms(2) [rule_format, of "Return j"] assms(2) [rule_format, of "Sleep j"] by (simp_all del: exec.simps)
    ultimately show False by (auto split: if_splits)
  qed
  have "exec (Lock i) s = None" using assms(2) [rule_format, of "Lock i"] by (simp del: exec.simps)
  with free assms(3) have "at (waiters s ! i) \<noteq> Outside" "at (waiters s ! i) \<noteq> Woken" by (auto split: if_splits)
  moreover have "waiter_ok (owner s) (flags s) i (waiters s ! i)" using assms(1,3) by (simp add: inv_system_def)
  ultimately show ?thesis using free by (cases "at (waiters s ! i)") (auto simp: waiter_ok_def)
qed

lemma inv_run: "run_moves ms s = Some s' \<Longrightarrow> inv_system s \<Longrightarrow> inv_system s'"
  by (induction ms arbitrary: s) (auto split: option.splits dest: inv_exec)

subsection \<open>Delivery\<close>

definition holds_bit :: "nat \<Rightarrow> waiter \<Rightarrow> nat" where
  "holds_bit b w = (case at w of Returned g \<Rightarrow> of_bool (opts w AND EVENT_FLAG_CLEAR \<noteq> 0 \<and> bit g b) | _ \<Rightarrow> 0)"

definition delivered :: "nat \<Rightarrow> system \<Rightarrow> nat" where
  "delivered b s = sum_list (map (holds_bit b) (waiters s))"

fun posted :: "nat \<Rightarrow> move list \<Rightarrow> nat" where
  "posted b [] = 0"
| "posted b (Post m # ms) = of_bool (bit m b) + posted b ms"
| "posted b (_ # ms) = posted b ms"

lemma delivered_put_at:
  "i < length (waiters s) \<Longrightarrow> holds_bit b (waiters s ! i) = 0 \<Longrightarrow>
   delivered b (put_at i p s) = delivered b s + holds_bit b ((waiters s ! i)\<lparr>at := p\<rparr>)"
  by (simp add: delivered_def put_at_def map_update sum_list_update)

lemma holds_bit_wake [simp]: "holds_bit b (wake w) = holds_bit b w"
  by (simp add: wake_def holds_bit_def)

lemma delivered_simps [simp]: "delivered b (s\<lparr>owner := x\<rparr>) = delivered b s" "delivered b (s\<lparr>flags := y\<rparr>) = delivered b s"
  by (simp_all add: delivered_def)

lemma delivered_exec:
  assumes "exec m s = Some s'"
  shows "delivered b s' + of_bool (bit (flags s') b) \<le> delivered b s + of_bool (bit (flags s) b) + posted b [m]"
proof (cases m)
  case (Return i)
  with assms show ?thesis
    by (auto simp: delivered_put_at holds_bit_def flags_taken_def flags_left_def bit_simps split: if_splits)
next
  case (Post k)
  with assms show ?thesis by (auto simp: delivered_def comp_def bit_simps split: if_splits)
qed (use assms in \<open>auto simp: delivered_put_at holds_bit_def split: if_splits\<close>)

lemma delivered_run:
  "run_moves ms s = Some s' \<Longrightarrow> delivered b s' + of_bool (bit (flags s') b) \<le> delivered b s + of_bool (bit (flags s) b) + posted b ms"
proof (induction ms arbitrary: s)
  case (Cons m ms)
  then obtain s1 where s1: "exec m s = Some s1" "run_moves ms s1 = Some s'" by (auto split: option.splits)
  have "posted b (m # ms) = posted b [m] + posted b ms" by (cases m) auto
  with Cons.IH [OF s1(2)] delivered_exec [OF s1(1), of b] show ?case by simp
qed simp

subsection \<open>Properties\<close>

definition sample_system :: system where
  "sample_system = \<lparr>flags = 0, owner = None, waiters =
     [\<lparr>want = 3, opts = 0x05, at = Outside\<rparr>, \<lparr>want = 6, opts = 0x02, at = Outside\<rparr>]\<rparr>"

lemma sample_system_fresh: "fresh_system sample_system"
  by (simp add: fresh_system_def sample_system_def)

text \<open>
  C6. No lost wake-up, and only valid results: in every interleaving of posts and waiters a thread that sleeps in \<open>event_wait\<close> does so
  while its condition is false, at most one thread holds the mutex, and a thread that has returned received
  flags that satisfy its condition and only flags it asked for.
\<close>

theorem event_no_lost_wakeup:
  assumes "reachable s0 s" "fresh_system s0" "i < length (waiters s)"
  shows "(at (waiters s ! i) = Asleep \<longrightarrow> \<not> flags_match (opts (waiters s ! i)) (want (waiters s ! i)) (flags s))
    \<and> (at (waiters s ! i) = Testing \<longleftrightarrow> owner s = Some i)
    \<and> (\<forall>g. at (waiters s ! i) = Returned g \<longrightarrow>
          flags_match (opts (waiters s ! i)) (want (waiters s ! i)) g \<and> g AND want (waiters s ! i) = g)"
  using inv_reachable [OF assms(1,2)] assms(3) by (simp add: inv_system_def waiter_ok_def matches_def)

theorem event_no_lost_wakeup_witness:
  "\<exists>s. reachable sample_system s \<and> at (waiters s ! 0) = Asleep \<and> \<not> flags_match (opts (waiters s ! 0)) (want (waiters s ! 0)) (flags s)"
proof -
  have "reachable sample_system (put_at 0 Asleep sample_system)"
    by (rule reachable.move [of _ _ "Sleep 0", OF reachable.move [of _ _ "Lock 0", OF reachable.start]])
      (auto simp: sample_system_def put_at_def matches_def flags_match_def EVENT_FLAG_AND_def)
  moreover have "at (waiters (put_at 0 Asleep sample_system) ! 0) = Asleep" by (simp add: put_at_def sample_system_def)
  ultimately show ?thesis
    using event_no_lost_wakeup [of sample_system "put_at 0 Asleep sample_system" 0] sample_system_fresh by (auto simp: sample_system_def)
qed

text \<open>
  C8. Liveness: from any reachable state, once the posts stop, the waiters come to rest after at most two moves each, in whatever order they
  are scheduled; and when none of them can move any more, each has returned, or sleeps while the flags it asked for are not set.
\<close>

theorem event_waiters_settle:
  assumes "reachable s0 s" "fresh_system s0" "run_moves ms s = Some s'" "list_all waiter_move ms"
  shows "length ms \<le> 2 * length (waiters s)
    \<and> ((\<forall>m. waiter_move m \<longrightarrow> exec m s' = None) \<longrightarrow>
        (\<forall>i < length (waiters s). (\<exists>g. at (waiters s' ! i) = Returned g)
           \<or> at (waiters s' ! i) = Asleep \<and> \<not> flags_match (opts (waiters s' ! i)) (want (waiters s' ! i)) (flags s')))"
proof -
  have w: "work s = length ms + work s'" "length (waiters s') = length (waiters s)" using work_run [OF assms(3,4)] by auto
  moreover have "inv_system s'" by (rule inv_run [OF assms(3) inv_reachable [OF assms(1,2)]])
  ultimately show ?thesis using work_bound [of s] rest_settled [of s'] by (auto simp: matches_def)
qed

theorem event_waiters_settle_witness:
  "\<exists>s'. run_moves [Lock 1, Return 1, Lock 0, Sleep 0] (sample_system\<lparr>flags := 4\<rparr>) = Some s'
     \<and> (\<exists>g. at (waiters s' ! 1) = Returned g) \<and> at (waiters s' ! 0) = Asleep"
proof -
  let ?s = "sample_system\<lparr>flags := 4\<rparr>"
  have run: "\<exists>s'. run_moves [Lock 1, Return 1, Lock 0, Sleep 0] ?s = Some s' \<and> at (waiters s' ! 0) = Asleep \<and> owner s' = None
      \<and> at (waiters s' ! 1) = Returned 4 \<and> length (waiters s') = 2"
    by (simp add: sample_system_def put_at_def matches_def flags_match_def flags_left_def flags_taken_def
        EVENT_FLAG_AND_def EVENT_FLAG_OR_def EVENT_FLAG_CLEAR_def)
  then obtain s' where s': "run_moves [Lock 1, Return 1, Lock 0, Sleep 0] ?s = Some s'" "at (waiters s' ! 0) = Asleep"
    "at (waiters s' ! 1) = Returned 4" "length (waiters s') = 2" by blast
  have "exec m s' = None" if "waiter_move m" for m
  proof -
    have "i < 2 \<Longrightarrow> i = 0 \<or> i = 1" for i :: nat by auto
    with that s' show ?thesis by (cases m) (auto split: if_splits)
  qed
  then show ?thesis
    using event_waiters_settle [of ?s ?s "[Lock 1, Return 1, Lock 0, Sleep 0]" s'] s' reachable.start [of ?s] sample_system_fresh
    by (auto simp: fresh_system_def)
qed

text \<open>
  Every flag is delivered at most once to the waiters that clear what they take: over any run the number of clearing waiters that
  have returned with a flag never exceeds the number of posts of this flag.
\<close>

theorem event_delivered_once:
  assumes "fresh_system s" "run_moves ms s = Some s'" "flags s = 0"
  shows "length (filter (\<lambda>w. case at w of Returned g \<Rightarrow> opts w AND EVENT_FLAG_CLEAR \<noteq> 0 \<and> bit g b | _ \<Rightarrow> False) (waiters s'))
    \<le> posted b ms"
proof -
  have "sum_list (map (holds_bit b) ws)
      = length (filter (\<lambda>w. case at w of Returned g \<Rightarrow> opts w AND EVENT_FLAG_CLEAR \<noteq> 0 \<and> bit g b | _ \<Rightarrow> False) ws)" for ws
    by (induction ws) (auto simp: holds_bit_def split: pc.splits)
  moreover have "sum_list (map (holds_bit b) (waiters s)) = 0"
    using assms(1) by (auto simp: fresh_system_def list_all_iff holds_bit_def)
  ultimately show ?thesis using delivered_run [OF assms(2), of b] assms(3) by (simp add: delivered_def)
qed

theorem event_delivered_once_witness:
  "\<exists>s'. run_moves [Post 3, Lock 0, Return 0, Lock 1] sample_system = Some s' \<and> flags s' = 0
    \<and> length (filter (\<lambda>w. case at w of Returned g \<Rightarrow> opts w AND EVENT_FLAG_CLEAR \<noteq> 0 \<and> bit g 0 | _ \<Rightarrow> False) (waiters s')) \<le> 1"
proof -
  have "\<exists>s'. run_moves [Post 3, Lock 0, Return 0, Lock 1] sample_system = Some s' \<and> flags s' = 0"
    by (simp add: sample_system_def put_at_def matches_def flags_match_def flags_left_def flags_taken_def wake_def
        EVENT_FLAG_AND_def EVENT_FLAG_OR_def EVENT_FLAG_CLEAR_def)
  then obtain s' where s': "run_moves [Post 3, Lock 0, Return 0, Lock 1] sample_system = Some s'" "flags s' = 0" by blast
  have "flags sample_system = 0" by (simp add: sample_system_def)
  from event_delivered_once [OF sample_system_fresh s'(1) this, of 0] s' show ?thesis by (intro exI [of _ s']) simp
qed

text \<open>
  C34. A single waiter: when the flags match for the first time after \<open>n\<close> wake-ups, \<open>event_wait\<close> returns 0 with exactly the flags
  asked for that are set then, clears them if asked to, and leaves the mutex free; while they never match it keeps waiting.
\<close>

theorem event_wait_first_match:
  assumes "\<forall>w \<in> set ws. snd w = 0"
  shows "(\<forall>k \<le> length ws. \<not> flags_match option1 set1 (flags_after ws k (flag_value e))) \<and> event_wait ws set1 option1 True (Some e) = None
    \<or> (\<exists>n \<le> length ws. \<exists>v. v = flags_after ws n (flag_value e) \<and> flags_match option1 set1 v
        \<and> (\<forall>k < n. \<not> flags_match option1 set1 (flags_after ws k (flag_value e)))
        \<and> event_wait ws set1 option1 True (Some e) = Some (0, Some (v AND set1),
             Some (e\<lparr>flag_value := (if option1 AND EVENT_FLAG_CLEAR \<noteq> 0 then v AND NOT set1 else v), locked := False\<rparr>)))"
proof (cases "\<exists>n \<le> length ws. flags_match option1 set1 (flags_after ws n (flag_value e))")
  case True
  then obtain n where "n \<le> length ws \<and> flags_match option1 set1 (flags_after ws n (flag_value e))"
    and least: "\<forall>k < n. \<not> (k \<le> length ws \<and> flags_match option1 set1 (flags_after ws k (flag_value e)))"
    using exists_least_iff [of "\<lambda>n. n \<le> length ws \<and> flags_match option1 set1 (flags_after ws n (flag_value e))"] by blast
  then have n: "n \<le> length ws" "flags_match option1 set1 (flags_after ws n (flag_value e))"
    "\<forall>k < n. \<not> flags_match option1 set1 (flags_after ws k (flag_value e))" by auto
  moreover have "\<forall>w \<in> set (take n ws). snd w = 0" using assms by (auto dest: in_set_takeD)
  ultimately show ?thesis
    using wait_loop_first [OF n(1,3,2)] by (auto simp: event_wait_def wait_result_def flags_taken_def flags_left_def)
next
  case False
  then show ?thesis using wait_loop_blocks [of ws option1 set1 "flag_value e"] assms by (auto simp: event_wait_def)
qed

theorem event_wait_first_match_witness:
  "\<exists>e'. event_wait [(\<lambda>v. v OR 1, 0), (\<lambda>v. v OR 2, 0)] 3 0x05 True (Some \<lparr>flag_value = 8, locked = True\<rparr>) = Some (0, Some 3, Some e')
    \<and> flag_value e' = 8"
  using event_wait_first_match [of "[(\<lambda>v. v OR 1, 0), (\<lambda>v. v OR 2, 0)]" "0x05" 3 "\<lparr>flag_value = 8, locked = True\<rparr>"]
  by (simp add: event_wait_def wait_loop.simps flags_match_def wait_result_def flags_taken_def flags_left_def
      EVENT_FLAG_AND_def EVENT_FLAG_CLEAR_def)

text \<open>
  The timed wait deviates in three ways. When the milliseconds push the nanoseconds of the deadline to a thousand million, it returns
  at once, with \<open>ETIMEDOUT\<close> if the flags are not set. Otherwise it sleeps once more although the flags are
  already set, and then reports 0 as success with whatever is left of them. When the clock fails it returns -1 with the mutex held.
\<close>

theorem event_timedwait_deviates:
  assumes "0 \<le> snd ts"
  shows "(if flags_match option1 set1 (flag_value e)
      then snd (deadline ts timeout) < 1000000000 \<longrightarrow> event_timedwait (Some ts) [] set1 option1 timeout True (Some e) = None
         \<and> event_timedwait (Some ts) ((\<lambda>v. 0, rc) # ws) set1 option1 timeout True (Some e) = Some (0, Some 0, Some (e\<lparr>flag_value := 0, locked := False\<rparr>))
      else 1000000000 \<le> snd ts + uint ((timeout mod 1000) * 1000000) \<longrightarrow>
         event_timedwait (Some ts) ws set1 option1 timeout True (Some e) = Some (ETIMEDOUT, None, Some (e\<lparr>locked := False\<rparr>)))
    \<and> event_timedwait None ws set1 option1 timeout True (Some e) = Some (- 1, None, Some (e\<lparr>locked := True\<rparr>))"
proof -
  have "0 \<le> snd (deadline ts timeout)" using assms by (simp add: deadline_def)
  then show ?thesis
    using timed_overflow_returns [of "deadline ts timeout" option1 set1 ws "flag_value e"]
      timed_sleeps_on_match(1) [of option1 set1 "flag_value e" "deadline ts timeout"]
      timed_sleeps_on_match(2) [of option1 set1 "flag_value e" "deadline ts timeout" "\<lambda>v. 0" rc ws]
    by (auto simp: event_timedwait_def wait_result_def flags_taken_def flags_left_def deadline_def)
qed

theorem event_timedwait_deviates_witness:
  "event_timedwait (Some (100, 999000000)) [] 1 0x01 5 True (Some \<lparr>flag_value = 0, locked = True\<rparr>)
     = Some (ETIMEDOUT, None, Some \<lparr>flag_value = 0, locked = False\<rparr>)
   \<and> event_timedwait (Some (100, 0)) [(\<lambda>v. 0, 0)] 1 0x01 5 True (Some \<lparr>flag_value = 1, locked = True\<rparr>)
     = Some (0, Some 0, Some \<lparr>flag_value = 0, locked = False\<rparr>)"
  using event_timedwait_deviates [where ts = "(100, 999000000)" and timeout = 5 and ?option1.0 = "0x01" and ?set1.0 = 1
      and e = "\<lparr>flag_value = 0, locked = True\<rparr>" and ws = "[]" and rc = 0]
    event_timedwait_deviates [where ts = "(100, 0)" and timeout = 5 and ?option1.0 = "0x01" and ?set1.0 = 1
      and e = "\<lparr>flag_value = 1, locked = True\<rparr>" and ws = "[]" and rc = 0]
  by (simp add: flags_match_def EVENT_FLAG_AND_def deadline_def)

end
