(* ===== verification/Tcp_Server.thy ===== *)
theory Tcp_Server
  imports Prelude
begin

text \<open>
  The TCP server of \<open>sktcpserver.c\<close>: a listening socket, a list of clients, and the handlers that the event loop \<open>uev\<close> calls.

  What the operating system, the C library, the event library \<open>uev\<close> and the user's callbacks answer is an input of each operation. The state records what the
  server owns: the open descriptors, the live client contexts, the descriptors that are watched, and the calls of the
  user's functions in order. \<open>None\<close> is an operation on a client that does not exist. Reading a context that has been freed to
  write a log line is recorded in \<open>faults\<close>; C leaves open what happens then, and the model goes on behind the line.
\<close>

type_synonym addr = u64

subsection \<open>Definitions\<close>

record config =
  has_connect_cb :: bool
  has_disconnect_cb :: bool
  has_recv_cb :: bool

record client_ctx =
  channel_fd :: int
  watched :: bool
  pri_data :: addr

datatype user_call = Connected addr int addr | Disconnected addr addr | Received addr addr bytes

record sktcpserver =
  cfg :: config
  listen_fd :: int
  listen_watched :: bool
  client_list :: "(addr \<times> client_ctx) list"
  rxbuffer :: bool
  open_fds :: "int list"
  contexts :: "addr list"
  watchers :: "int list"
  user_calls :: "user_call list"
  faults :: "addr list"

definition close_fd :: "int \<Rightarrow> sktcpserver \<Rightarrow> sktcpserver" where
  "close_fd fd s = s\<lparr>open_fds := remove1 fd (open_fds s)\<rparr>"

definition client_disconnect :: "addr \<Rightarrow> sktcpserver \<Rightarrow> sktcpserver option" where
  "client_disconnect p s =
     (case map_of (client_list s) p of
        None \<Rightarrow> None
      | Some c \<Rightarrow> if p \<notin> set (contexts s) then None else
          (let s = (if has_disconnect_cb (cfg s) then s\<lparr>user_calls := user_calls s @ [Disconnected p (pri_data c)]\<rparr> else s);
               s = s\<lparr>watchers := remove1 (channel_fd c) (watchers s)\<rparr>;
               s = (if 0 \<le> channel_fd c then close_fd (channel_fd c) s else s);
               s = s\<lparr>client_list := filter (\<lambda>e. fst e \<noteq> p) (client_list s)\<rparr>
           in Some (s\<lparr>contexts := remove1 p (contexts s)\<rparr>)))"

datatype recv_result = Closed | Again | Failed | Data bytes

definition client_receive_data_handler :: "addr \<Rightarrow> recv_result \<Rightarrow> sktcpserver \<Rightarrow> sktcpserver option" where
  "client_receive_data_handler p res s =
     (case map_of (client_list s) p of
        None \<Rightarrow> None
      | Some c \<Rightarrow> (case res of
            Closed \<Rightarrow> client_disconnect p s
          | Again \<Rightarrow> Some s
          | Failed \<Rightarrow> client_disconnect p s
          | Data bs \<Rightarrow> Some (if has_recv_cb (cfg s) then s\<lparr>user_calls := user_calls s @ [Received p (pri_data c) bs]\<rparr> else s)))"

text \<open>
  \<open>fd\<close> is the result of \<open>accept\<close>, \<open>p\<close> of \<open>malloc\<close>, \<open>answer\<close> what the connect callback returns and stores, and \<open>uev\<close> the result of \<open>uev_io_init\<close>,
  which is ignored: the client is kept when it is not watched. A refused client leaves its descriptor open.
\<close>

definition tcp_conn_handler :: "int \<Rightarrow> addr \<Rightarrow> int \<times> addr \<Rightarrow> int \<Rightarrow> sktcpserver \<Rightarrow> sktcpserver" where
  "tcp_conn_handler fd p answer uev s =
     (if fd < 0 then s
      else
        (let s = s\<lparr>open_fds := fd # open_fds s\<rparr>
         in if p = 0 then close_fd fd s
            else
              (let s = s\<lparr>contexts := p # contexts s\<rparr>;
                   s = (if has_connect_cb (cfg s) then s\<lparr>user_calls := user_calls s @ [Connected p (fst answer) (snd answer)]\<rparr> else s)
               in if has_connect_cb (cfg s) \<and> fst answer \<noteq> 0 then s\<lparr>contexts := remove1 p (contexts s)\<rparr>
                  else s\<lparr>client_list := (p, \<lparr>channel_fd = fd, watched = (uev = 0), pri_data = (if has_connect_cb (cfg s) then snd answer else 0)\<rparr>) # client_list s,
                         watchers := (if uev = 0 then fd # watchers s else watchers s)\<rparr>)))"

text \<open>The results of \<open>socket\<close>, \<open>bind\<close>, \<open>listen\<close>, \<open>set_fd_non_block\<close> and \<open>uev_io_init\<close>, of which the last is ignored.\<close>

definition set_fd_non_block :: "int \<Rightarrow> int \<Rightarrow> int" where
  "set_fd_non_block flags err = (if flags < 0 then - 1 else if err = - 1 then - 1 else 0)"

definition tcp_listen :: "int \<times> int \<times> int \<times> int \<times> int \<Rightarrow> sktcpserver \<Rightarrow> int \<times> sktcpserver" where
  "tcp_listen results s =
     (case results of (fd, bnd, lsn, nonblock, uev) \<Rightarrow>
        if fd < 0 then (- 1, s)
        else
          (let s = s\<lparr>open_fds := fd # open_fds s\<rparr>
           in if bnd < 0 \<or> lsn < 0 \<or> nonblock < 0 then (- 1, close_fd fd s)
              else (fd, s\<lparr>watchers := (if uev = 0 then fd # watchers s else watchers s), listen_watched := (uev = 0)\<rparr>)))"

definition sktcpserver_init :: "bool \<Rightarrow> int \<times> int \<times> int \<times> int \<times> int \<Rightarrow> config \<Rightarrow> sktcpserver \<Rightarrow> int \<times> sktcpserver" where
  "sktcpserver_init mem results c s =
     (let s = s\<lparr>client_list := [], cfg := c, rxbuffer := mem\<rparr>
      in if \<not> mem then (- 1, s)
         else (case tcp_listen results s of
             (fd, s) \<Rightarrow> (let s = s\<lparr>listen_fd := fd\<rparr> in if fd < 0 then (- 1, s) else (0, s))))"

fun disconnect_all :: "addr list \<Rightarrow> sktcpserver \<Rightarrow> sktcpserver option" where
  "disconnect_all [] s = Some s"
| "disconnect_all (p # ps) s = Option.bind (client_disconnect p s) (disconnect_all ps)"

definition sktcpserver_fini :: "sktcpserver \<Rightarrow> (int \<times> sktcpserver) option" where
  "sktcpserver_fini s = do {
     s \<leftarrow> disconnect_all (map fst (client_list s)) s;
     let s = s\<lparr>watchers := remove1 (listen_fd s) (watchers s)\<rparr>;
     let s = (if 0 \<le> listen_fd s then close_fd (listen_fd s) s else s);
     Some (0, s\<lparr>rxbuffer := False\<rparr>) }"

definition client_handle_to_ptr :: "addr \<Rightarrow> sktcpserver \<Rightarrow> addr" where
  "client_handle_to_ptr h s = (if h \<in> fst ` set (client_list s) then h else 0)"

definition sktcpserver_client_pri_data_get :: "addr \<Rightarrow> sktcpserver \<Rightarrow> addr" where
  "sktcpserver_client_pri_data_get h s =
     (if client_handle_to_ptr h s = 0 then 0
      else case map_of (client_list s) (client_handle_to_ptr h s) of None \<Rightarrow> 0 | Some c \<Rightarrow> pri_data c)"

text \<open>The macro \<open>client_log\<close> reads the context of the client.\<close>

definition client_log :: "addr \<Rightarrow> sktcpserver \<Rightarrow> sktcpserver" where
  "client_log p s = (if p \<in> set (contexts s) then s else s\<lparr>faults := faults s @ [p]\<rparr>)"

text \<open>\<open>ready\<close> is the result of \<open>select\<close>, \<open>is_set\<close> whether the descriptor is in the set, \<open>sent\<close> the result of \<open>send\<close>.\<close>

definition sktcpserver_send :: "int \<Rightarrow> bool \<Rightarrow> int \<Rightarrow> addr \<Rightarrow> int \<Rightarrow> sktcpserver \<Rightarrow> (int \<times> sktcpserver) option" where
  "sktcpserver_send ready is_set sent h dat_len s =
     (let p = client_handle_to_ptr h s
      in if p = 0 then Some (dat_len, s)
         else if 0 < ready then
           (if is_set \<and> sent < 0
            then do { s \<leftarrow> client_disconnect p s; Some (dat_len, client_log p s) }
            else Some (dat_len, s))
         else do { s \<leftarrow> client_disconnect p s; Some (dat_len, client_log p s) })"

subsection \<open>What the server owns\<close>

text \<open>\<open>leaked\<close> are the descriptors of refused clients.\<close>

definition server_ok :: "int list \<Rightarrow> sktcpserver \<Rightarrow> bool" where
  "server_ok leaked s \<longleftrightarrow> distinct (map fst (client_list s)) \<and> distinct (contexts s)
     \<and> set (contexts s) = fst ` set (client_list s) \<and> 0 \<notin> set (contexts s)
     \<and> distinct (open_fds s) \<and> distinct (listen_fd s # map (\<lambda>e. channel_fd (snd e)) (client_list s) @ leaked)
     \<and> set (open_fds s) = set (listen_fd s # map (\<lambda>e. channel_fd (snd e)) (client_list s) @ leaked)
     \<and> distinct (watchers s) \<and> set (watchers s) = set ((if listen_watched s then [listen_fd s] else []) @ map (\<lambda>e. channel_fd (snd e)) (filter (\<lambda>e. watched (snd e)) (client_list s)))
     \<and> 0 \<le> listen_fd s \<and> list_all (\<lambda>e. 0 \<le> channel_fd (snd e)) (client_list s) \<and> rxbuffer s"

lemma map_of_split:
  assumes "distinct (map fst es)" "map_of es p = Some c"
  obtains es1 es2 where "es = es1 @ (p, c) # es2" "filter (\<lambda>e. fst e \<noteq> p) es = es1 @ es2"
proof -
  from assms(2) obtain es1 es2 where es: "es = es1 @ (p, c) # es2" by (meson map_of_SomeD split_list)
  with assms(1) have "\<forall>e \<in> set (es1 @ es2). fst e \<noteq> p" by (auto simp: image_iff)
  then have "filter (\<lambda>e. fst e \<noteq> p) es = es1 @ es2" using es by (simp add: filter_id_conv)
  with es that show ?thesis by blast
qed

lemma disconnect_ok:
  assumes "server_ok leaked s" "map_of (client_list s) p = Some c"
  shows "\<exists>s'. client_disconnect p s = Some s' \<and> server_ok leaked s' \<and> p \<notin> set (contexts s')
    \<and> client_list s' = filter (\<lambda>e. fst e \<noteq> p) (client_list s) \<and> cfg s' = cfg s \<and> listen_fd s' = listen_fd s \<and> faults s' = faults s
    \<and> user_calls s' = user_calls s @ (if has_disconnect_cb (cfg s) then [Disconnected p (pri_data c)] else [])"
proof -
  from assms(1) have d: "distinct (map fst (client_list s))" by (simp add: server_ok_def)
  from map_of_split [OF d assms(2)] obtain es1 es2 where es: "client_list s = es1 @ (p, c) # es2"
    "filter (\<lambda>e. fst e \<noteq> p) (client_list s) = es1 @ es2" .
  define s' where "s' = s\<lparr>user_calls := user_calls s @ (if has_disconnect_cb (cfg s) then [Disconnected p (pri_data c)] else []),
    watchers := remove1 (channel_fd c) (watchers s), open_fds := remove1 (channel_fd c) (open_fds s),
    client_list := es1 @ es2, contexts := remove1 p (contexts s)\<rparr>"
  have p: "p \<in> set (contexts s)" "0 \<le> channel_fd c" using assms(1) es(1) by (auto simp: server_ok_def)
  then have "client_disconnect p s = Some s'"
    by (simp add: client_disconnect_def assms(2) s'_def es(2) close_fd_def Let_def)
  moreover have "server_ok leaked s'"
    using assms(1) unfolding server_ok_def s'_def es(1)
    by (auto simp: set_remove1_eq distinct_remove1)
  moreover have "p \<notin> set (contexts s')" using assms(1) by (simp add: server_ok_def s'_def set_remove1_eq)
  ultimately show ?thesis using es(2) by (auto simp: s'_def)
qed

subsection \<open>Runs of the event loop\<close>

text \<open>
  The event loop calls \<open>tcp_conn_handler\<close> for the listening socket and \<open>client_receive_data_handler\<close> for a watched client, other code
  calls \<open>sktcpserver_send\<close>. The system gives out a descriptor or an address only while nothing else has it, and the event loop reports only
  watched descriptors. Every system call may fail.
\<close>

datatype server_op = Accept int addr int addr int | Readable addr recv_result | Send int bool int addr int

fun run_op :: "server_op \<Rightarrow> sktcpserver \<Rightarrow> sktcpserver option" where
  "run_op (Accept fd p ret pri uev) s = Some (tcp_conn_handler fd p (ret, pri) uev s)"
| "run_op (Readable p res) s = client_receive_data_handler p res s"
| "run_op (Send ready is_set sent h n) s = map_option snd (sktcpserver_send ready is_set sent h n s)"

fun run_ops :: "server_op list \<Rightarrow> sktcpserver \<Rightarrow> sktcpserver option" where
  "run_ops [] s = Some s"
| "run_ops (a # as) s = Option.bind (run_op a s) (run_ops as)"

fun op_possible :: "server_op \<Rightarrow> sktcpserver \<Rightarrow> bool" where
  "op_possible (Accept fd p ret pri uev) s \<longleftrightarrow> listen_watched s \<and> fd \<notin> set (open_fds s) \<and> (p = 0 \<or> p \<notin> set (contexts s))"
| "op_possible (Readable p res) s \<longleftrightarrow> (case map_of (client_list s) p of None \<Rightarrow> False | Some c \<Rightarrow> watched c)"
| "op_possible (Send ready is_set sent h n) s \<longleftrightarrow> True"

fun run_possible :: "server_op list \<Rightarrow> sktcpserver \<Rightarrow> bool" where
  "run_possible [] s \<longleftrightarrow> True"
| "run_possible (a # as) s \<longleftrightarrow> op_possible a s \<and> (case run_op a s of None \<Rightarrow> True | Some s' \<Rightarrow> run_possible as s')"

fun leaked_by :: "sktcpserver \<Rightarrow> server_op \<Rightarrow> int list" where
  "leaked_by s (Accept fd p ret pri uev) = (if 0 \<le> fd \<and> p \<noteq> 0 \<and> has_connect_cb (cfg s) \<and> ret \<noteq> 0 then [fd] else [])"
| "leaked_by s _ = []"

text \<open>A send to a client that fails.\<close>

fun faults_by :: "sktcpserver \<Rightarrow> server_op \<Rightarrow> addr list" where
  "faults_by s (Send ready is_set sent h n) =
     (if h \<in> fst ` set (client_list s) \<and> (ready \<le> 0 \<or> is_set \<and> sent < 0) then [h] else [])"
| "faults_by s _ = []"

text \<open>The users' view: connections with their private data, opened, used and closed in order.\<close>

fun follow :: "user_call \<Rightarrow> (addr \<times> addr) list \<Rightarrow> (addr \<times> addr) list option" where
  "follow (Connected p ret d) cs = (if ret \<noteq> 0 then Some cs else if p \<in> fst ` set cs then None else Some ((p, d) # cs))"
| "follow (Received p d bs) cs = (if (p, d) \<in> set cs then Some cs else None)"
| "follow (Disconnected p d) cs = (if (p, d) \<in> set cs then Some (filter (\<lambda>e. fst e \<noteq> p) cs) else None)"

fun sessions :: "user_call list \<Rightarrow> (addr \<times> addr) list \<Rightarrow> (addr \<times> addr) list option" where
  "sessions [] cs = Some cs"
| "sessions (u # us) cs = Option.bind (follow u cs) (sessions us)"

lemma sessions_append: "sessions (us @ vs) cs = Option.bind (sessions us cs) (sessions vs)"
  by (induction us arbitrary: cs) (auto split: bind_splits)

definition clients :: "sktcpserver \<Rightarrow> (addr \<times> addr) list" where
  "clients s = map (\<lambda>e. (fst e, pri_data (snd e))) (client_list s)"

lemma clients_simps [simp]: "fst ` set (clients s) = fst ` set (client_list s)" "map fst (clients s) = map fst (client_list s)"
  by (force simp: clients_def image_iff) (simp add: clients_def)

definition all_callbacks :: "config \<Rightarrow> bool" where
  "all_callbacks c \<longleftrightarrow> has_connect_cb c \<and> has_disconnect_cb c \<and> has_recv_cb c"

definition view_ok :: "sktcpserver \<Rightarrow> bool" where
  "view_ok s \<longleftrightarrow> (all_callbacks (cfg s) \<longrightarrow> sessions (user_calls s) [] = Some (clients s))"

lemma client_cases:
  assumes "p \<in> fst ` set es"
  obtains c where "map_of es p = Some c"
  using assms by (metis domD dom_map_of_conv_image_fst)

lemma disconnect_step:
  assumes "server_ok leaked s" "view_ok s" "p \<in> fst ` set (client_list s)"
  obtains s' where "client_disconnect p s = Some s'" "server_ok leaked s'" "view_ok s'" "cfg s' = cfg s" "listen_fd s' = listen_fd s"
    "client_list s' = filter (\<lambda>e. fst e \<noteq> p) (client_list s)" "p \<notin> set (contexts s')" "faults s' = faults s"
proof -
  from assms(3) obtain c where c: "map_of (client_list s) p = Some c" by (rule client_cases)
  from disconnect_ok [OF assms(1) c] obtain s' where s': "client_disconnect p s = Some s'" "server_ok leaked s'" "p \<notin> set (contexts s')"
    "client_list s' = filter (\<lambda>e. fst e \<noteq> p) (client_list s)" "cfg s' = cfg s" "listen_fd s' = listen_fd s" "faults s' = faults s"
    "user_calls s' = user_calls s @ (if has_disconnect_cb (cfg s) then [Disconnected p (pri_data c)] else [])" by blast
  have "(p, pri_data c) \<in> set (clients s)" using map_of_SomeD [OF c] by (force simp: clients_def)
  then have "view_ok s'" using assms(2) s'(4-6,8)
    by (auto simp: view_ok_def all_callbacks_def sessions_append clients_def filter_map comp_def)
  with s' that show thesis by blast
qed

lemma tcp_conn_handler_result:
  "tcp_conn_handler fd p (ret, pri) uev s =
    (let calls = user_calls s @ (if has_connect_cb (cfg s) then [Connected p ret pri] else [])
     in if fd < 0 \<or> p = 0 then s
        else if has_connect_cb (cfg s) \<and> ret \<noteq> 0 then s\<lparr>open_fds := fd # open_fds s, user_calls := calls\<rparr>
        else s\<lparr>open_fds := fd # open_fds s, contexts := p # contexts s, user_calls := calls,
               client_list := (p, \<lparr>channel_fd = fd, watched = (uev = 0), pri_data = (if has_connect_cb (cfg s) then pri else 0)\<rparr>) # client_list s,
               watchers := (if uev = 0 then fd # watchers s else watchers s)\<rparr>)"
  by (simp add: tcp_conn_handler_def close_fd_def Let_def)

lemma add_client_ok:
  assumes "server_ok leaked s" "fd \<notin> set (open_fds s)" "p \<notin> set (contexts s)" "0 \<le> fd" "p \<noteq> 0"
  shows "server_ok leaked (s\<lparr>open_fds := fd # open_fds s, contexts := p # contexts s, user_calls := us,
      client_list := (p, \<lparr>channel_fd = fd, watched = b, pri_data = d\<rparr>) # client_list s, watchers := (if b then fd # watchers s else watchers s)\<rparr>)"
proof -
  have "fd \<notin> set (watchers s)" using assms(1,2) by (auto simp: server_ok_def)
  with assms show ?thesis unfolding server_ok_def by (cases b; elim conjE; intro conjI) auto
qed

lemma tcp_conn_handler_ok:
  assumes "server_ok leaked s" "view_ok s" "op_possible (Accept fd p ret pri uev) s"
  shows "server_ok (leaked_by s (Accept fd p ret pri uev) @ leaked) (tcp_conn_handler fd p (ret, pri) uev s)"
    and "view_ok (tcp_conn_handler fd p (ret, pri) uev s)" "cfg (tcp_conn_handler fd p (ret, pri) uev s) = cfg s"
    and "faults (tcp_conn_handler fd p (ret, pri) uev s) = faults s"
proof -
  have new: "fd \<notin> set (open_fds s)" "p = 0 \<or> p \<notin> set (contexts s)" using assms(3) by simp_all
  then have fd: "fd \<notin> set (watchers s)" "p = 0 \<or> p \<notin> fst ` set (client_list s)" using assms(1) by (auto simp: server_ok_def)
  consider (none) "fd < 0 \<or> p = 0" | (refused) "0 \<le> fd" "p \<noteq> 0" "has_connect_cb (cfg s)" "ret \<noteq> 0"
    | (accepted) "0 \<le> fd" "p \<noteq> 0" "has_connect_cb (cfg s) \<longrightarrow> ret = 0" by linarith
  then have "server_ok (leaked_by s (Accept fd p ret pri uev) @ leaked) (tcp_conn_handler fd p (ret, pri) uev s)
    \<and> view_ok (tcp_conn_handler fd p (ret, pri) uev s)"
  proof cases
    case none
    then show ?thesis using assms(1,2) by (auto simp: tcp_conn_handler_result)
  next
    case refused
    then show ?thesis using assms(1,2) new
      by (auto simp: tcp_conn_handler_result Let_def server_ok_def view_ok_def sessions_append clients_def)
  next
    case accepted
    then have "server_ok leaked (tcp_conn_handler fd p (ret, pri) uev s)"
      using assms(1) new fd add_client_ok [of leaked s fd p] by (auto simp: tcp_conn_handler_result Let_def simp del: if_split)
    moreover have "view_ok (tcp_conn_handler fd p (ret, pri) uev s)"
      using accepted assms(2) new fd clients_simps(1) [of s]
      by (simp add: tcp_conn_handler_result Let_def view_ok_def all_callbacks_def sessions_append) (auto simp: clients_def)
    ultimately show ?thesis using accepted by auto
  qed
  then show "server_ok (leaked_by s (Accept fd p ret pri uev) @ leaked) (tcp_conn_handler fd p (ret, pri) uev s)"
    "view_ok (tcp_conn_handler fd p (ret, pri) uev s)" by simp_all
  show "cfg (tcp_conn_handler fd p (ret, pri) uev s) = cfg s" "faults (tcp_conn_handler fd p (ret, pri) uev s) = faults s"
    by (simp_all add: tcp_conn_handler_result Let_def)
qed

lemma map_of_Some_mem: "map_of es p = Some c \<Longrightarrow> p \<in> fst ` set es"
  by (force dest: map_of_SomeD)

lemma map_of_None_iff: "map_of es p = None \<longleftrightarrow> p \<notin> fst ` set es"
  by (simp add: map_of_eq_None_iff)

lemma server_ok_calls [simp]: "server_ok leaked (s\<lparr>user_calls := us\<rparr>) = server_ok leaked s"
  "server_ok leaked (s\<lparr>faults := fs\<rparr>) = server_ok leaked s" "view_ok (s\<lparr>faults := fs\<rparr>) = view_ok s"
  by (simp_all add: server_ok_def view_ok_def clients_def)

lemma readable_ok:
  fixes res :: recv_result
  assumes "server_ok leaked s" "view_ok s" "p \<in> fst ` set (client_list s)"
  obtains s' where "client_receive_data_handler p res s = Some s'" "server_ok leaked s'" "view_ok s'" "cfg s' = cfg s" "faults s' = faults s"
proof -
  from assms(3) obtain c where c: "map_of (client_list s) p = Some c" by (rule client_cases)
  then have "(p, pri_data c) \<in> set (clients s)" by (force simp: clients_def dest: map_of_SomeD)
  then have "view_ok (s\<lparr>user_calls := user_calls s @ [Received p (pri_data c) bs]\<rparr>)" for bs
    using assms(2) by (auto simp: view_ok_def sessions_append clients_def)
  moreover from disconnect_step [OF assms] obtain s1 where "client_disconnect p s = Some s1" "server_ok leaked s1" "view_ok s1" "cfg s1 = cfg s"
    "faults s1 = faults s" .
  ultimately have "\<exists>s'. client_receive_data_handler p res s = Some s' \<and> server_ok leaked s' \<and> view_ok s' \<and> cfg s' = cfg s \<and> faults s' = faults s"
    using assms(1,2) by (simp add: client_receive_data_handler_def c split: recv_result.splits)
  with that show thesis by blast
qed

lemma handle_lookup:
  assumes "server_ok leaked s"
  shows "client_handle_to_ptr h s = 0 \<longleftrightarrow> h \<notin> fst ` set (client_list s)"
    and "h \<in> fst ` set (client_list s) \<Longrightarrow> client_handle_to_ptr h s = h"
  using assms by (auto simp: client_handle_to_ptr_def server_ok_def)

lemma send_ok:
  assumes "server_ok leaked s" "view_ok s"
  obtains s' where "sktcpserver_send ready is_set sent h n s = Some (n, s')" "server_ok leaked s'" "view_ok s'" "cfg s' = cfg s"
    "faults s' = faults s @ faults_by s (Send ready is_set sent h n)"
proof (cases "h \<in> fst ` set (client_list s) \<and> (ready \<le> 0 \<or> is_set \<and> sent < 0)")
  case True
  then have mem: "h \<in> fst ` set (client_list s)" by simp
  from disconnect_step [OF assms mem] obtain s1 where s1: "client_disconnect h s = Some s1" "server_ok leaked s1" "view_ok s1" "cfg s1 = cfg s"
    "h \<notin> set (contexts s1)" "faults s1 = faults s" by blast
  have "h \<noteq> 0" using assms(1) mem by (auto simp: server_ok_def)
  then have "sktcpserver_send ready is_set sent h n s = Some (n, s1\<lparr>faults := faults s1 @ [h]\<rparr>)"
    using True handle_lookup(2) [OF assms(1) mem] s1(1,5) by (auto simp: sktcpserver_send_def client_log_def Let_def)
  with that [of "s1\<lparr>faults := faults s1 @ [h]\<rparr>"] s1 True show thesis by simp
next
  case False
  then have "sktcpserver_send ready is_set sent h n s = Some (n, s)"
    using handle_lookup [OF assms(1), of h] by (auto simp: sktcpserver_send_def Let_def)
  with that [of s] assms False show thesis by auto
qed

lemma run_op_ok:
  assumes "server_ok leaked s" "view_ok s" "op_possible a s"
  obtains s' where "run_op a s = Some s'" "server_ok (leaked_by s a @ leaked) s'" "view_ok s'" "cfg s' = cfg s" "faults s' = faults s @ faults_by s a"
proof (cases a)
  case (Accept fd p ret pri uev)
  with tcp_conn_handler_ok [OF assms(1,2), of fd p ret pri uev] assms(3) that show thesis by (simp del: leaked_by.simps op_possible.simps)
next
  case (Readable p res)
  then have "p \<in> fst ` set (client_list s)" using assms(3) by (auto dest: map_of_Some_mem split: option.splits)
  from readable_ok [OF assms(1,2) this, of res] Readable that show thesis by auto
next
  case (Send ready is_set sent h n)
  from send_ok [OF assms(1,2), of ready is_set sent h n] Send that show thesis by (auto simp del: faults_by.simps)
qed

fun leaked_in :: "server_op list \<Rightarrow> sktcpserver \<Rightarrow> int list" where
  "leaked_in [] s = []"
| "leaked_in (a # as) s = (case run_op a s of None \<Rightarrow> [] | Some s' \<Rightarrow> leaked_in as s' @ leaked_by s a)"

fun faults_in :: "server_op list \<Rightarrow> sktcpserver \<Rightarrow> addr list" where
  "faults_in [] s = []"
| "faults_in (a # as) s = (case run_op a s of None \<Rightarrow> [] | Some s' \<Rightarrow> faults_by s a @ faults_in as s')"

lemma run_ops_ok:
  assumes "server_ok leaked s" "view_ok s" "run_possible as s"
  obtains s' where "run_ops as s = Some s'" "server_ok (leaked_in as s @ leaked) s'" "view_ok s'" "cfg s' = cfg s" "faults s' = faults s @ faults_in as s"
  using assms
proof (induction as arbitrary: s leaked thesis)
  case (Cons a as)
  from Cons.prems(4) have "op_possible a s" by simp
  from run_op_ok [OF Cons.prems(2,3) this] obtain s1 where s1: "run_op a s = Some s1"
    "server_ok (leaked_by s a @ leaked) s1" "view_ok s1" "cfg s1 = cfg s" "faults s1 = faults s @ faults_by s a" .
  from Cons.prems(4) s1(1) have "run_possible as s1" by simp
  from Cons.IH [OF _ s1(2,3) this] obtain s' where "run_ops as s1 = Some s'" "server_ok (leaked_in as s1 @ leaked_by s a @ leaked) s'"
    "view_ok s'" "cfg s' = cfg s1" "faults s' = faults s1 @ faults_in as s1" .
  with s1(1,4,5) show ?case by (intro Cons.prems(1) [of s']) (simp_all del: leaked_by.simps faults_by.simps)
qed simp

lemma tail_by_key:
  assumes "map fst es = p # ps" "distinct (p # ps)"
  shows "map fst (filter (\<lambda>e. fst e \<noteq> p) es) = ps"
proof -
  from assms(1) obtain e es' where es: "es = e # es'" "fst e = p" "map fst es' = ps" by (cases es) auto
  with assms(2) have "\<forall>x \<in> set es'. fst x \<noteq> p" by (metis distinct.simps(2) assms(1) list.inject list.simps(9) image_eqI list.set_map)
  with es show ?thesis by (simp add: filter_True)
qed

lemma remove_only: "distinct xs \<Longrightarrow> set xs \<subseteq> {a} \<Longrightarrow> remove1 a xs = []"
  using distinct_remove1_removeAll [of xs a] by (auto simp: filter_empty_conv removeAll_filter_not_eq)

lemma disconnect_all_ok:
  assumes "server_ok leaked s" "view_ok s" "ps = map fst (client_list s)"
  obtains s' where "disconnect_all ps s = Some s'" "server_ok leaked s'" "view_ok s'" "client_list s' = []" "cfg s' = cfg s"
    "listen_fd s' = listen_fd s"
  using assms
proof (induction ps arbitrary: s thesis)
  case (Cons p ps)
  obtain es where es: "client_list s = es" "map fst es = p # ps" using Cons.prems(4) by simp
  then have mem: "p \<in> fst ` set (client_list s)" by (metis list.set_intros(1) set_map)
  from disconnect_step [OF Cons.prems(2,3) mem] obtain s1 where s1: "client_disconnect p s = Some s1" "server_ok leaked s1" "view_ok s1"
    "cfg s1 = cfg s" "listen_fd s1 = listen_fd s" "client_list s1 = filter (\<lambda>e. fst e \<noteq> p) (client_list s)" by blast
  have "distinct (p # ps)" using Cons.prems(2) es by (simp add: server_ok_def)
  then have "ps = map fst (client_list s1)"
    using es unfolding s1(6) by (simp add: tail_by_key)
  from Cons.IH [OF _ s1(2,3) this] obtain s' where "disconnect_all ps s1 = Some s'" "server_ok leaked s'" "view_ok s'"
    "client_list s' = []" "cfg s' = cfg s1" "listen_fd s' = listen_fd s1" .
  with s1(1,4,5) show ?case by (intro Cons.prems(1) [of s']) simp_all
qed simp

lemma fini_ok:
  assumes "server_ok leaked s" "view_ok s"
  obtains s' where "sktcpserver_fini s = Some (0, s')" "set (open_fds s') = set leaked" "contexts s' = []" "watchers s' = []"
    "\<not> rxbuffer s'" "all_callbacks (cfg s) \<Longrightarrow> sessions (user_calls s') [] = Some []"
proof -
  from disconnect_all_ok [OF assms refl] obtain s1 where s1: "disconnect_all (map fst (client_list s)) s = Some s1"
    "server_ok leaked s1" "view_ok s1" "client_list s1 = []" "cfg s1 = cfg s" "listen_fd s1 = listen_fd s" .
  define s' where "s' = s1\<lparr>watchers := remove1 (listen_fd s1) (watchers s1), open_fds := remove1 (listen_fd s1) (open_fds s1), rxbuffer := False\<rparr>"
  have "0 \<le> listen_fd s1" using s1(2) by (simp add: server_ok_def)
  then have "sktcpserver_fini s = Some (0, s')" by (simp add: sktcpserver_fini_def s1(1) s'_def close_fd_def Let_def)
  moreover have "distinct (watchers s1)" "set (watchers s1) \<subseteq> {listen_fd s1}" using s1(2,4) by (auto simp: server_ok_def)
  then have "watchers s' = []" by (simp add: s'_def remove_only)
  moreover have "set (open_fds s') = set leaked" "contexts s' = []"
    using s1(2,4) by (auto simp: server_ok_def s'_def set_remove1_eq)
  moreover have "all_callbacks (cfg s) \<Longrightarrow> sessions (user_calls s') [] = Some []"
    using s1(3-5) by (simp add: view_ok_def s'_def clients_def)
  ultimately show thesis using that by (simp add: s'_def)
qed

lemma sktcpserver_init_result:
  assumes "0 \<le> fd" "0 \<le> bnd" "0 \<le> lsn" "0 \<le> nb"
  shows "sktcpserver_init True (fd, bnd, lsn, nb, uev) c s =
    (0, s\<lparr>client_list := [], cfg := c, rxbuffer := True, open_fds := fd # open_fds s,
          watchers := (if uev = 0 then fd # watchers s else watchers s), listen_watched := (uev = 0), listen_fd := fd\<rparr>)"
  using assms by (simp add: sktcpserver_init_def tcp_listen_def Let_def)

text \<open>The state of the process before the server exists; the structure is not initialised.\<close>

definition fresh :: "sktcpserver \<Rightarrow> bool" where
  "fresh s \<longleftrightarrow> open_fds s = [] \<and> contexts s = [] \<and> watchers s = [] \<and> user_calls s = [] \<and> faults s = [] \<and> \<not> rxbuffer s"

lemma init_ok:
  assumes "fresh s" "0 \<le> fd" "0 \<le> bnd" "0 \<le> lsn" "0 \<le> nb"
  shows "server_ok [] (snd (sktcpserver_init True (fd, bnd, lsn, nb, uev) c s))"
    and "view_ok (snd (sktcpserver_init True (fd, bnd, lsn, nb, uev) c s))"
    and "cfg (snd (sktcpserver_init True (fd, bnd, lsn, nb, uev) c s)) = c"
    and "faults (snd (sktcpserver_init True (fd, bnd, lsn, nb, uev) c s)) = []"
  using assms by (simp_all add: sktcpserver_init_result fresh_def server_ok_def view_ok_def clients_def)

lemma init_failure_keeps_buffer:
  assumes "fd < 0 \<or> bnd < 0 \<or> lsn < 0 \<or> nb < 0"
  shows "\<exists>s'. sktcpserver_init True (fd, bnd, lsn, nb, uev) c s = (- 1, s') \<and> rxbuffer s' \<and> open_fds s' = open_fds s"
  using assms by (auto simp: sktcpserver_init_def tcp_listen_def close_fd_def Let_def)

text \<open>The result of \<open>uev_io_init\<close> is ignored: a server that never accepts anybody is reported as started.\<close>

lemma init_without_watcher:
  assumes "0 \<le> fd" "0 \<le> bnd" "0 \<le> lsn" "0 \<le> nb" "uev \<noteq> 0"
  shows "\<exists>s'. sktcpserver_init True (fd, bnd, lsn, nb, uev) c s = (0, s') \<and> \<not> op_possible (Accept p q r d e) s'"
  using assms by (simp add: sktcpserver_init_result)

subsection \<open>Properties\<close>

text \<open>
  C13. Whatever the event loop delivers and however the system calls end, failing sends included, between a successful \<open>sktcpserver_init\<close> and
  \<open>sktcpserver_fini\<close> the server holds exactly the descriptors of the listening socket, of its clients and those of refused clients, exactly one context
  and at most one started watcher for each client; after \<open>sktcpserver_fini\<close> nothing is left but the descriptors of refused clients, which no one closes.
  No operation works on a client that is gone; the only reads of freed contexts are the log lines of failed sends, one for each.
\<close>

theorem server_resources:
  assumes "fresh s" "0 \<le> fd" "0 \<le> bnd" "0 \<le> lsn" "0 \<le> nb"
    and "s0 = snd (sktcpserver_init True (fd, bnd, lsn, nb, uev) c s)" "run_possible as s0"
  shows "\<exists>s1 s2. run_ops as s0 = Some s1 \<and> server_ok (leaked_in as s0) s1 \<and> faults s1 = faults_in as s0
    \<and> sktcpserver_fini s1 = Some (0, s2) \<and> set (open_fds s2) = set (leaked_in as s0)
    \<and> contexts s2 = [] \<and> watchers s2 = [] \<and> \<not> rxbuffer s2"
proof -
  from init_ok [OF assms(1-5)] assms(6) have "server_ok [] s0" "view_ok s0" "faults s0 = []" by simp_all
  with run_ops_ok [OF this(1,2) assms(7)] obtain s1 where "run_ops as s0 = Some s1" "server_ok (leaked_in as s0) s1" "view_ok s1"
    "faults s1 = faults_in as s0" by (metis append_Nil append_Nil2)
  with fini_ok [OF this(2,3)] show ?thesis by metis
qed

text \<open>
  C20. With all three callbacks set, and however the system calls end, failing sends included, the calls of the user's functions follow the life of each
  client: it is opened by an accepting connect callback, every piece of received data carries the private data which that callback stored, the client is
  closed once, also when a send to it fails, and after \<open>sktcpserver_fini\<close> every opened client has been closed.
\<close>

theorem server_sessions:
  assumes "fresh s" "0 \<le> fd" "0 \<le> bnd" "0 \<le> lsn" "0 \<le> nb" "all_callbacks c"
    and "s0 = snd (sktcpserver_init True (fd, bnd, lsn, nb, uev) c s)" "run_possible as s0"
  shows "\<exists>s1 s2. run_ops as s0 = Some s1 \<and> sessions (user_calls s1) [] = Some (clients s1)
    \<and> sktcpserver_fini s1 = Some (0, s2) \<and> sessions (user_calls s2) [] = Some []"
proof -
  from init_ok [OF assms(1-5)] assms(7) have "server_ok [] s0" "view_ok s0" "cfg s0 = c" by simp_all
  from run_ops_ok [OF this(1,2) assms(8)] this(3) obtain s1 where s1: "run_ops as s0 = Some s1" "server_ok (leaked_in as s0) s1"
    "view_ok s1" "cfg s1 = c" by (metis append_Nil2)
  with fini_ok [OF s1(2,3)] assms(6) show ?thesis by (metis view_ok_def)
qed

text \<open>
  \<open>sktcpserver_send\<close> returns the requested length whatever happens: for an unknown client, after a successful send, when the descriptor is not reported,
  and when \<open>select\<close> or \<open>send\<close> fails, where it disconnects the client and then logs through the freed context.
\<close>

theorem server_send_outcomes:
  assumes "server_ok leaked s"
  shows "sktcpserver_send ready is_set sent h n s =
    (if h \<in> fst ` set (client_list s) \<and> (ready \<le> 0 \<or> is_set \<and> sent < 0)
     then map_option (\<lambda>s'. (n, s'\<lparr>faults := faults s @ [h]\<rparr>)) (client_disconnect h s) else Some (n, s))"
proof (cases "h \<in> fst ` set (client_list s)")
  case True
  then obtain c where "map_of (client_list s) h = Some c" by (rule client_cases)
  from disconnect_ok [OF assms this] obtain s' where "client_disconnect h s = Some s'" "h \<notin> set (contexts s')" "faults s' = faults s" by blast
  moreover have "h \<noteq> 0" using assms True by (auto simp: server_ok_def)
  ultimately show ?thesis using True handle_lookup(2) [OF assms True] by (auto simp: sktcpserver_send_def client_log_def Let_def)
qed (use handle_lookup(1) [OF assms] in \<open>simp add: sktcpserver_send_def Let_def\<close>)

definition sample_fresh :: sktcpserver where
  "sample_fresh = \<lparr>cfg = \<lparr>has_connect_cb = False, has_disconnect_cb = False, has_recv_cb = False\<rparr>, listen_fd = 0, listen_watched = False, client_list = [],
     rxbuffer = False, open_fds = [], contexts = [], watchers = [], user_calls = [], faults = []\<rparr>"

definition sample_config :: config where
  "sample_config = \<lparr>has_connect_cb = True, has_disconnect_cb = True, has_recv_cb = True\<rparr>"

definition sample_server :: sktcpserver where
  "sample_server = snd (sktcpserver_init True (3, 0, 0, 0, 0) sample_config sample_fresh)"

definition sample_ops :: "server_op list" where
  "sample_ops = [Accept 4 100 0 7 0, Accept 5 200 1 0 0, Readable 100 (Data [1, 2]), Accept 6 200 0 8 1, Send 0 False 0 100 2, Accept 4 300 0 9 0,
     Readable 300 Closed, Send 1 True 2 200 2]"

lemma sample_run: "run_possible sample_ops sample_server" "leaked_in sample_ops sample_server = [5]" "faults_in sample_ops sample_server = [100]"
  "fresh sample_fresh" "all_callbacks sample_config"
  by code_simp+

theorem server_resources_witness:
  "\<exists>s1 s2. run_ops sample_ops sample_server = Some s1 \<and> server_ok [5] s1 \<and> faults s1 = [100] \<and> sktcpserver_fini s1 = Some (0, s2)
    \<and> set (open_fds s2) = {5} \<and> contexts s2 = [] \<and> watchers s2 = [] \<and> \<not> rxbuffer s2"
  using server_resources [OF sample_run(4), of 3 0 0 0 sample_server 0 sample_config sample_ops] sample_run
  by (simp add: sample_server_def)

theorem server_sessions_witness:
  "\<exists>s1 s2. run_ops sample_ops sample_server = Some s1 \<and> sessions (user_calls s1) [] = Some (clients s1)
    \<and> sktcpserver_fini s1 = Some (0, s2) \<and> sessions (user_calls s2) [] = Some []"
  using server_sessions [OF sample_run(4), of 3 0 0 0 sample_config sample_server 0 sample_ops] sample_run
  by (simp add: sample_server_def)

theorem server_send_outcomes_witness:
  "map_option fst (sktcpserver_send 0 False 0 100 2 (tcp_conn_handler 4 100 (0, 7) 0 sample_server)) = Some 2
   \<and> sktcpserver_send 0 False 0 300 2 (tcp_conn_handler 4 100 (0, 7) 0 sample_server) = Some (2, tcp_conn_handler 4 100 (0, 7) 0 sample_server)"
proof -
  have ok: "server_ok [] (tcp_conn_handler 4 100 (0, 7) 0 sample_server)" by code_simp
  have cl: "fst ` set (client_list (tcp_conn_handler 4 100 (0, 7) 0 sample_server)) = {100}" by code_simp
  have "client_disconnect 100 (tcp_conn_handler 4 100 (0, 7) 0 sample_server) \<noteq> None" by code_simp
  then show ?thesis by (auto simp: server_send_outcomes [OF ok] cl)
qed

end
