(* ===== verification/Tcp_Client.thy ===== *)
theory Tcp_Client
  imports Prelude
begin

text \<open>
  The TCP client of \<open>sktcpclient.c\<close>: one socket, one receive buffer, and the state machine of \<open>enum sktcpclient_state\<close>.

  The results of the system calls and of the event library \<open>uev\<close> are inputs. The state records the structure's fields
  together with what the process holds for it: the open descriptors, the receive buffers, whether the watcher is
  started, and the data given to the user. Every operation takes the lock for its whole body, so operations are atomic.
\<close>

subsection \<open>Definitions\<close>

datatype sktcpclient_state = DISCONNECTED | CONNECTED

record sktcpclient =
  tcp_fd :: int
  tcp_state :: sktcpclient_state
  buffer_size :: int
  has_read_cb :: bool
  held_fds :: "int list"
  buffers :: nat
  receiving :: bool
  received :: "bytes list"

definition sktcpclient_init :: "bool \<Rightarrow> int \<Rightarrow> bool \<Rightarrow> bool \<Rightarrow> bool \<Rightarrow> sktcpclient \<Rightarrow> int \<times> sktcpclient" where
  "sktcpclient_init cfg_null size_cfg ctx_null cb mem s =
     (if cfg_null \<or> size_cfg = 0 \<or> ctx_null then (- EINVAL, s)
      else
        (let s = s\<lparr>tcp_fd := 0, receiving := False, buffer_size := size_cfg, has_read_cb := cb, tcp_state := DISCONNECTED\<rparr>
         in if mem then (0, s\<lparr>buffers := Suc (buffers s)\<rparr>) else (- ENOMEM, s)))"

text \<open>\<open>fd\<close>, \<open>con\<close> and \<open>nonblock\<close> are the results of \<open>socket\<close>, \<open>connect\<close> and the second \<open>fcntl\<close>.\<close>

definition create_noblock_socket_fd :: "int \<Rightarrow> int \<Rightarrow> int \<Rightarrow> sktcpclient \<Rightarrow> int \<times> sktcpclient" where
  "create_noblock_socket_fd fd con nonblock s =
     (if fd = - 1 then (- 1, s)
      else
        (let s = s\<lparr>held_fds := fd # held_fds s\<rparr>
         in if con \<noteq> 0 then (con, s) else if nonblock \<noteq> 0 then (nonblock, s) else (fd, s)))"

text \<open>\<open>uev\<close> is the result of \<open>uev_io_init\<close>, and \<open>left\<close> whether a failed one leaves a started watcher as it is.\<close>

definition sktcpclient_connect :: "int \<Rightarrow> int \<Rightarrow> int \<Rightarrow> int \<Rightarrow> bool \<Rightarrow> sktcpclient \<Rightarrow> int \<times> sktcpclient" where
  "sktcpclient_connect sock con nonblock uev left s =
     (case create_noblock_socket_fd sock con nonblock s of
        (fd, s) \<Rightarrow> if fd < 0 then (- 1, s)
                  else if uev \<noteq> 0 then (- 1, s\<lparr>receiving := receiving s \<and> left\<rparr>)
                  else (0, s\<lparr>receiving := True, tcp_fd := fd, tcp_state := CONNECTED\<rparr>))"

definition sktcpclient_disconnect :: "sktcpclient \<Rightarrow> int \<times> sktcpclient" where
  "sktcpclient_disconnect s =
     (if tcp_state s = CONNECTED
      then (0, s\<lparr>receiving := False, held_fds := remove1 (tcp_fd s) (held_fds s), tcp_state := DISCONNECTED\<rparr>)
      else (- 1, s))"

definition sktcpclient_fini :: "sktcpclient \<Rightarrow> int \<times> sktcpclient" where
  "sktcpclient_fini s = (0, if tcp_state s = CONNECTED then snd (sktcpclient_disconnect s) else s)"

datatype read_result = Closed | Again | Failed | Data bytes

definition fd_read_event_handler :: "read_result \<Rightarrow> sktcpclient \<Rightarrow> sktcpclient" where
  "fd_read_event_handler res s =
     (case res of
        Closed \<Rightarrow> snd (sktcpclient_disconnect s)
      | Again \<Rightarrow> s
      | Failed \<Rightarrow> snd (sktcpclient_disconnect s)
      | Data bs \<Rightarrow> if has_read_cb s then s\<lparr>received := received s @ [bs]\<rparr> else s)"

definition sktcpclient_send :: "int \<Rightarrow> sktcpclient \<Rightarrow> int" where
  "sktcpclient_send written s = (if tcp_state s = CONNECTED then written else - 1)"

definition get_state :: "sktcpclient \<Rightarrow> sktcpclient_state" where "get_state s = tcp_state s"

text \<open>The flow control functions pass on the result of \<open>uev\<close>; 0 is success.\<close>

definition sktcpclient_recv_stop :: "int \<Rightarrow> sktcpclient \<Rightarrow> int \<times> sktcpclient" where
  "sktcpclient_recv_stop uev s = (uev, if uev = 0 then s\<lparr>receiving := False\<rparr> else s)"

definition sktcpclient_recv_start :: "int \<Rightarrow> sktcpclient \<Rightarrow> int \<times> sktcpclient" where
  "sktcpclient_recv_start uev s = (uev, if uev = 0 then s\<lparr>receiving := True\<rparr> else s)"

definition sktcpclient_recv_active :: "sktcpclient \<Rightarrow> bool" where "sktcpclient_recv_active s = receiving s"

subsection \<open>Runs\<close>

datatype client_op = Connect int int int int bool | Disconnect | Read read_result | Stop int | Start int

fun client_step :: "client_op \<Rightarrow> sktcpclient \<Rightarrow> sktcpclient" where
  "client_step (Connect fd con nonblock uev left) s = snd (sktcpclient_connect fd con nonblock uev left s)"
| "client_step Disconnect s = snd (sktcpclient_disconnect s)"
| "client_step (Read res) s = fd_read_event_handler res s"
| "client_step (Stop uev) s = snd (sktcpclient_recv_stop uev s)"
| "client_step (Start uev) s = snd (sktcpclient_recv_start uev s)"

text \<open>
  The system gives out only free descriptors, and answers a failed call with -1. The event loop calls the handler only while the
  watcher is started. \<open>uev_io_start\<close> may succeed at any time: neither the client nor the library looks at the client's state.
\<close>

fun client_step_possible :: "client_op \<Rightarrow> sktcpclient \<Rightarrow> bool" where
  "client_step_possible (Connect fd con nonblock uev left) s \<longleftrightarrow> - 1 \<le> fd \<and> fd \<notin> set (held_fds s) \<and> con \<in> {0, - 1} \<and> nonblock \<in> {0, - 1}"
| "client_step_possible (Read res) s \<longleftrightarrow> receiving s"
| "client_step_possible _ s \<longleftrightarrow> True"

fun client_run_possible :: "client_op list \<Rightarrow> sktcpclient \<Rightarrow> bool" where
  "client_run_possible [] s \<longleftrightarrow> True"
| "client_run_possible (a # as) s \<longleftrightarrow> client_step_possible a s \<and> client_run_possible as (client_step a s)"

text \<open>
  The descriptors that a call makes unreachable: the new one when \<open>connect\<close>, \<open>fcntl\<close> or \<open>uev_io_init\<close> fails, the old one when a connected
  client connects again.
\<close>

fun lost_by :: "client_op \<Rightarrow> sktcpclient \<Rightarrow> int list" where
  "lost_by (Connect fd con nonblock uev left) s =
     (if fd = - 1 then []
      else if con \<noteq> 0 \<or> nonblock \<noteq> 0 \<or> uev \<noteq> 0 then [fd]
      else if tcp_state s = CONNECTED then [tcp_fd s] else [])"
| "lost_by _ s = []"

fun lost_in :: "client_op list \<Rightarrow> sktcpclient \<Rightarrow> int list" where
  "lost_in [] s = []"
| "lost_in (a # as) s = lost_in as (client_step a s) @ lost_by a s"

definition client_ok :: "int list \<Rightarrow> sktcpclient \<Rightarrow> bool" where
  "client_ok lost s \<longleftrightarrow> distinct (held_fds s) \<and> buffers s = 1
     \<and> distinct ((if tcp_state s = CONNECTED then [tcp_fd s] else []) @ lost)
     \<and> set (held_fds s) = set ((if tcp_state s = CONNECTED then [tcp_fd s] else []) @ lost)
     \<and> (tcp_state s = CONNECTED \<longrightarrow> 0 \<le> tcp_fd s)"

lemma client_disconnect_ok: "client_ok lost s \<Longrightarrow> client_ok lost (snd (sktcpclient_disconnect s))"
  by (auto simp: client_ok_def sktcpclient_disconnect_def set_remove1_eq)

lemma connect_result:
  assumes "- 1 \<le> fd" "con \<in> {0, - 1}" "nonblock \<in> {0, - 1}"
  shows "sktcpclient_connect fd con nonblock uev left s =
    (if fd = - 1 then (- 1, s)
     else if con \<noteq> 0 \<or> nonblock \<noteq> 0 then (- 1, s\<lparr>held_fds := fd # held_fds s\<rparr>)
     else if uev \<noteq> 0 then (- 1, s\<lparr>held_fds := fd # held_fds s, receiving := receiving s \<and> left\<rparr>)
     else (0, s\<lparr>held_fds := fd # held_fds s, receiving := True, tcp_fd := fd, tcp_state := CONNECTED\<rparr>))"
proof -
  have "con = 0 \<or> con = - 1" "nonblock = 0 \<or> nonblock = - 1" using assms by simp_all
  then show ?thesis using assms(1)
    by (elim disjE) (simp_all add: sktcpclient_connect_def create_noblock_socket_fd_def Let_def)
qed

lemma client_connect_ok:
  assumes "client_ok lost s" "client_step_possible (Connect fd con nonblock uev left) s"
  shows "client_ok (lost_by (Connect fd con nonblock uev left) s @ lost) (client_step (Connect fd con nonblock uev left) s)"
proof -
  have pos: "- 1 \<le> fd" "con \<in> {0, - 1}" "nonblock \<in> {0, - 1}" "fd \<notin> set (held_fds s)" using assms(2) by simp_all
  have drop: "client_ok (fd # lost) (s\<lparr>held_fds := fd # held_fds s, receiving := b\<rparr>)" for b
    using assms(1) pos(4) by (cases "tcp_state s") (auto simp: client_ok_def)
  have drop0: "client_ok (fd # lost) (s\<lparr>held_fds := fd # held_fds s\<rparr>)"
    using assms(1) pos(4) by (cases "tcp_state s") (auto simp: client_ok_def)
  consider "fd = - 1" | "fd \<noteq> - 1" "con \<noteq> 0 \<or> nonblock \<noteq> 0" | "fd \<noteq> - 1" "con = 0" "nonblock = 0" "uev \<noteq> 0"
    | "fd \<noteq> - 1" "con = 0" "nonblock = 0" "uev = 0" by blast
  then show ?thesis
  proof cases
    case 2
    then show ?thesis using connect_result [OF pos(1-3), of uev left s] drop0 by auto
  next
    case 3
    then show ?thesis using connect_result [OF pos(1-3), of uev left s] drop by simp
  next
    case 4
    then show ?thesis using assms(1) pos(1,4) by (cases "tcp_state s") (auto simp: connect_result client_ok_def)
  qed (use assms(1) connect_result [OF pos(1-3), of uev left s] in simp)
qed

lemma client_step_ok: "client_ok lost s \<Longrightarrow> client_step_possible a s \<Longrightarrow> client_ok (lost_by a s @ lost) (client_step a s)"
proof (cases a)
  case (Connect fd con nonblock uev left)
  assume "client_ok lost s" "client_step_possible a s"
  with Connect show ?thesis using client_connect_ok by simp
next
  case (Read res)
  assume "client_ok lost s"
  with Read show ?thesis
    using client_disconnect_ok [of lost s] by (cases res) (simp_all add: fd_read_event_handler_def client_ok_def)
next
  case Disconnect
  assume "client_ok lost s"
  with Disconnect show ?thesis by (simp add: client_disconnect_ok)
qed (auto simp: sktcpclient_recv_stop_def sktcpclient_recv_start_def client_ok_def)

lemma client_run_ok:
  "client_ok lost s \<Longrightarrow> client_run_possible as s \<Longrightarrow> client_ok (lost_in as s @ lost) (fold client_step as s)"
proof (induction as arbitrary: s lost)
  case (Cons a as)
  then have "client_ok (lost_by a s @ lost) (client_step a s)" by (simp add: client_step_ok del: lost_by.simps client_step.simps)
  from Cons.IH [OF this] Cons.prems(2) show ?case by (simp del: lost_by.simps client_step.simps)
qed simp

text \<open>The calls of \<open>sktcpclient_recv_start\<close> that start the watcher of a client that is not connected.\<close>

fun stray_starts :: "client_op list \<Rightarrow> sktcpclient \<Rightarrow> nat" where
  "stray_starts [] s = 0"
| "stray_starts (a # as) s = (if a = Start 0 \<and> tcp_state s = DISCONNECTED then 1 else 0) + stray_starts as (client_step a s)"

lemma watcher_step:
  assumes "receiving s \<longrightarrow> tcp_state s = CONNECTED" "a = Start 0 \<longrightarrow> tcp_state s = CONNECTED"
  shows "receiving (client_step a s) \<longrightarrow> tcp_state (client_step a s) = CONNECTED"
proof (cases a)
  case (Connect fd con nonblock uev left)
  then show ?thesis using assms by (simp add: sktcpclient_connect_def create_noblock_socket_fd_def Let_def)
next
  case (Read res)
  then show ?thesis using assms by (cases res) (simp_all add: fd_read_event_handler_def sktcpclient_disconnect_def)
qed (use assms in \<open>auto simp: sktcpclient_disconnect_def sktcpclient_recv_stop_def sktcpclient_recv_start_def\<close>)

lemma watcher_run:
  "receiving s \<longrightarrow> tcp_state s = CONNECTED \<Longrightarrow> stray_starts as s = 0
    \<Longrightarrow> receiving (fold client_step as s) \<longrightarrow> tcp_state (fold client_step as s) = CONNECTED"
proof (induction as arbitrary: s)
  case (Cons a as)
  then have "a = Start 0 \<longrightarrow> tcp_state s = CONNECTED" by (cases "tcp_state s") (auto split: if_splits)
  from Cons.IH [OF watcher_step [OF Cons.prems(1) this]] Cons.prems(2) show ?case by simp
qed simp

subsection \<open>Properties\<close>

text \<open>
  C17. In every run of a client that was initialised, the socket and the state machine agree: a connected client holds its own
  open descriptor, and the other open descriptors are those that \<open>sktcpclient_connect\<close> dropped. After \<open>sktcpclient_fini\<close> exactly these and the receive
  buffer remain. The watcher is started only while the client is connected, and stopped after \<open>sktcpclient_fini\<close>, when \<open>sktcpclient_recv_start\<close> was
  only called on a connected client.
\<close>

theorem client_resources:
  assumes "n \<noteq> 0" "held_fds s = []" "buffers s = 0" "s0 = snd (sktcpclient_init False n False cb True s)" "client_run_possible as s0"
  shows "client_ok (lost_in as s0) (fold client_step as s0)
    \<and> (\<exists>s2. sktcpclient_fini (fold client_step as s0) = (0, s2) \<and> tcp_state s2 = DISCONNECTED
        \<and> set (held_fds s2) = set (lost_in as s0) \<and> buffers s2 = 1
        \<and> (stray_starts as s0 = 0 \<longrightarrow> (receiving (fold client_step as s0) \<longrightarrow> tcp_state (fold client_step as s0) = CONNECTED) \<and> \<not> receiving s2))"
proof -
  let ?s1 = "fold client_step as s0"
  have "client_ok [] s0" "receiving s0 \<longrightarrow> tcp_state s0 = CONNECTED" using assms by (simp_all add: sktcpclient_init_def client_ok_def Let_def)
  from client_run_ok [OF this(1) assms(5)] watcher_run [OF this(2), of as] have ok: "client_ok (lost_in as s0) ?s1"
    and w: "stray_starts as s0 = 0 \<longrightarrow> receiving ?s1 \<longrightarrow> tcp_state ?s1 = CONNECTED" by simp_all
  have "tcp_state (snd (sktcpclient_fini ?s1)) = DISCONNECTED"
    by (cases "tcp_state ?s1") (auto simp: sktcpclient_fini_def sktcpclient_disconnect_def)
  moreover have "client_ok (lost_in as s0) (snd (sktcpclient_fini ?s1))"
    using client_disconnect_ok [OF ok] ok by (simp add: sktcpclient_fini_def)
  moreover have "stray_starts as s0 = 0 \<longrightarrow> \<not> receiving (snd (sktcpclient_fini ?s1))"
    using w by (auto simp: sktcpclient_fini_def sktcpclient_disconnect_def)
  ultimately show ?thesis using ok w by (auto simp: client_ok_def sktcpclient_fini_def)
qed

text \<open>A start after a disconnect watches a descriptor that the client has closed, and \<open>sktcpclient_fini\<close> leaves it watched.\<close>

lemma stray_start_stays:
  assumes "tcp_state s = DISCONNECTED"
  shows "receiving (snd (sktcpclient_fini (snd (sktcpclient_recv_start 0 s))))"
  using assms by (simp add: sktcpclient_recv_start_def sktcpclient_fini_def)

text \<open>
  The return codes: a bad configuration, a failed allocation, a failed connection, sending or disconnecting while not connected;
  a call that fails changes neither the state nor the descriptor of the client, and only a successful connect makes it connected.
\<close>

theorem client_codes:
  "(fst (sktcpclient_init cfg_null n ctx_null cb mem s) = (if cfg_null \<or> n = 0 \<or> ctx_null then - EINVAL else if mem then 0 else - ENOMEM))
   \<and> (fst (sktcpclient_connect fd con nonblock uev left s) = 0 \<or>
       (fst (sktcpclient_connect fd con nonblock uev left s) = - 1
        \<and> tcp_state (snd (sktcpclient_connect fd con nonblock uev left s)) = tcp_state s
        \<and> tcp_fd (snd (sktcpclient_connect fd con nonblock uev left s)) = tcp_fd s))
   \<and> (fst (sktcpclient_connect fd con nonblock uev left s) = 0 \<longleftrightarrow> fd \<noteq> - 1 \<and> uev = 0 \<and>
       0 \<le> (if con \<noteq> 0 then con else if nonblock \<noteq> 0 then nonblock else fd))
   \<and> (fst (sktcpclient_disconnect s) = (if tcp_state s = CONNECTED then 0 else - 1))
   \<and> (sktcpclient_disconnect (snd (sktcpclient_disconnect s)) = (- 1, snd (sktcpclient_disconnect s)))
   \<and> (sktcpclient_send w s = (if get_state s = CONNECTED then w else - 1))"
  by (auto simp: sktcpclient_init_def sktcpclient_connect_def create_noblock_socket_fd_def sktcpclient_disconnect_def
    sktcpclient_send_def get_state_def Let_def split: if_splits)

text \<open>Two connects in a row lose the first socket.\<close>

lemma second_connect_loses_socket:
  assumes "tcp_state s = CONNECTED" "tcp_fd s \<in> set (held_fds s)" "0 \<le> fd" "fd \<noteq> tcp_fd s"
  shows "\<exists>s'. sktcpclient_connect fd 0 0 0 left s = (0, s') \<and> tcp_fd s \<in> set (held_fds (snd (sktcpclient_fini s')))"
  using assms by (auto simp: sktcpclient_connect_def create_noblock_socket_fd_def sktcpclient_fini_def sktcpclient_disconnect_def Let_def)

definition sample_client :: sktcpclient where
  "sample_client = \<lparr>tcp_fd = 0, tcp_state = DISCONNECTED, buffer_size = 0, has_read_cb = False, held_fds = [], buffers = 0,
     receiving = False, received = []\<rparr>"

definition sample_client_ops :: "client_op list" where
  "sample_client_ops = [Connect 3 (- 1) 0 0 True, Connect 4 0 0 0 True, Read (Data [1]), Stop 0, Start 0, Connect 5 0 0 0 True, Read Closed,
     Connect 6 0 0 0 True]"

lemma sample_client_run: "client_run_possible sample_client_ops (snd (sktcpclient_init False 8 False True True sample_client))"
  "lost_in sample_client_ops (snd (sktcpclient_init False 8 False True True sample_client)) = [4, 3]"
  "stray_starts sample_client_ops (snd (sktcpclient_init False 8 False True True sample_client)) = 0"
  "held_fds sample_client = []" "buffers sample_client = 0"
  by code_simp+

theorem client_resources_witness:
  "client_ok [4, 3] (fold client_step sample_client_ops (snd (sktcpclient_init False 8 False True True sample_client)))
    \<and> (\<exists>s2. sktcpclient_fini (fold client_step sample_client_ops (snd (sktcpclient_init False 8 False True True sample_client))) = (0, s2)
        \<and> set (held_fds s2) = {3, 4} \<and> \<not> receiving s2)"
  using client_resources [of 8 sample_client _ True sample_client_ops] sample_client_run by fastforce

end
