(* ===== verification/Protothread.thy ===== *)
theory Protothread
  imports Prelude
begin

text \<open>
  The protothreads of \<open>protothread/pt.h\<close>, \<open>lc-switch.h\<close>, \<open>pt-sem.h\<close> and \<open>graham-pt.h\<close>: a thread is a C function that returns when it
  has to wait and, called again, jumps back to where it left, by a \<open>switch\<close> over line numbers.

  The body of a thread is a statement over a state \<open>'s\<close> of its static variables; automatic variables are lost between calls and are
  not part of it. A condition may change the state (\<open>PT_WAIT_THREAD\<close> calls another thread in its condition). Running a statement uses a
  list of the statements that follow it. A \<open>switch\<close> into the middle of loops and blocks goes on at its label with what
  follows there, which is what \<open>find_label\<close> computes. Runs have fuel, one unit for each statement; \<open>None\<close> is a run that needs more.
\<close>

subsection \<open>Threads\<close>

definition PT_WAITING :: nat where "PT_WAITING = 0"
definition PT_YIELDED :: nat where "PT_YIELDED = 1"
definition PT_EXITED :: nat where "PT_EXITED = 2"
definition PT_ENDED :: nat where "PT_ENDED = 3"

type_synonym 's cond = "'s \<Rightarrow> bool \<times> 's"

datatype 's stmt =
    Do "'s \<Rightarrow> 's"
  | Block "'s stmt list"
  | If "'s \<Rightarrow> bool" "'s stmt" "'s stmt"
  | While "'s \<Rightarrow> bool" "'s stmt"
  | Wait_Until nat "'s cond"
  | Yield nat
  | Yield_Until nat "'s cond"
  | Exit
  | Restart

text \<open>\<open>__LINE__\<close> is stored into an \<open>unsigned short\<close>.\<close>

definition LC_SET :: "nat \<Rightarrow> u16" where "LC_SET line = of_nat line"

text \<open>
  The rest of a call: \<open>PT_YIELD\<close> clears \<open>PT_YIELD_FLAG\<close>, stores the line and returns, for the flag is zero; \<open>PT_END\<close>, \<open>PT_EXIT\<close> and
  \<open>PT_RESTART\<close> set the continuation to 0.
\<close>

fun run :: "nat \<Rightarrow> 's stmt list \<Rightarrow> u16 \<Rightarrow> 's \<Rightarrow> (nat \<times> u16 \<times> 's) option" where
  "run 0 ks lc s = None"
| "run (Suc n) [] lc s = Some (PT_ENDED, 0, s)"
| "run (Suc n) (Do f # ks) lc s = run n ks lc (f s)"
| "run (Suc n) (Block cs # ks) lc s = run n (cs @ ks) lc s"
| "run (Suc n) (If b c d # ks) lc s = run n ((if b s then c else d) # ks) lc s"
| "run (Suc n) (While b c # ks) lc s = (if b s then run n (c # While b c # ks) lc s else run n ks lc s)"
| "run (Suc n) (Wait_Until l c # ks) lc s =
     (case c s of (ok, s) \<Rightarrow> if ok then run n ks (LC_SET l) s else Some (PT_WAITING, LC_SET l, s))"
| "run (Suc n) (Yield l # ks) lc s = Some (PT_YIELDED, LC_SET l, s)"
| "run (Suc n) (Yield_Until l c # ks) lc s = Some (PT_YIELDED, LC_SET l, s)"
| "run (Suc n) (Exit # ks) lc s = Some (PT_EXITED, 0, s)"
| "run (Suc n) (Restart # ks) lc s = Some (PT_WAITING, 0, s)"

text \<open>The macros that are built from these; the \<open>thread\<close> is the call of a child, which gives its result.\<close>

definition PT_WAIT_WHILE :: "nat \<Rightarrow> 's cond \<Rightarrow> 's stmt" where
  "PT_WAIT_WHILE line c = Wait_Until line (\<lambda>s. case c s of (b, s) \<Rightarrow> (\<not> b, s))"

definition PT_SCHEDULE :: "nat \<Rightarrow> bool" where "PT_SCHEDULE r \<longleftrightarrow> r < PT_EXITED"

definition PT_WAIT_THREAD :: "nat \<Rightarrow> ('s \<Rightarrow> nat \<times> 's) \<Rightarrow> 's stmt" where
  "PT_WAIT_THREAD line thread = PT_WAIT_WHILE line (\<lambda>s. case thread s of (r, s) \<Rightarrow> (PT_SCHEDULE r, s))"

definition PT_SPAWN :: "nat \<Rightarrow> ('s \<Rightarrow> 's) \<Rightarrow> ('s \<Rightarrow> nat \<times> 's) \<Rightarrow> 's stmt" where
  "PT_SPAWN line init_child thread = Block [Do init_child, PT_WAIT_THREAD line thread]"

text \<open>The label of a statement, and the place in the body that has the label.\<close>

fun label :: "'s stmt \<Rightarrow> nat option" where
  "label (Wait_Until l c) = Some l"
| "label (Yield l) = Some l"
| "label (Yield_Until l c) = Some l"
| "label c = None"

fun find_label :: "nat \<Rightarrow> 's stmt \<Rightarrow> 's stmt list \<Rightarrow> ('s stmt \<times> 's stmt list) option"
  and find_list :: "nat \<Rightarrow> 's stmt list \<Rightarrow> 's stmt list \<Rightarrow> ('s stmt \<times> 's stmt list) option" where
  "find_label l (Block cs) ks = find_list l cs ks"
| "find_label l (If b c d) ks = (case find_label l c ks of None \<Rightarrow> find_label l d ks | r \<Rightarrow> r)"
| "find_label l (While b c) ks = find_label l c (While b c # ks)"
| "find_label l c ks = (if label c = Some l then Some (c, ks) else None)"
| "find_list l [] ks = None"
| "find_list l (c # cs) ks = (case find_label l c (cs @ ks) of None \<Rightarrow> find_list l cs ks | r \<Rightarrow> r)"

text \<open>What follows a label: \<open>PT_YIELD_FLAG\<close> is one in a new call, so a yield goes on.\<close>

fun resume :: "nat \<Rightarrow> 's stmt \<times> 's stmt list \<Rightarrow> u16 \<Rightarrow> 's \<Rightarrow> (nat \<times> u16 \<times> 's) option" where
  "resume n (Wait_Until l c, ks) lc s = (case c s of (ok, s) \<Rightarrow> if ok then run n ks lc s else Some (PT_WAITING, lc, s))"
| "resume n (Yield l, ks) lc s = run n ks lc s"
| "resume n (Yield_Until l c, ks) lc s = (case c s of (ok, s) \<Rightarrow> if ok then run n ks lc s else Some (PT_YIELDED, lc, s))"
| "resume n (c, ks) lc s = None"

text \<open>A call of the thread: a value without a label leaves the \<open>switch\<close> and reaches \<open>PT_END\<close>.\<close>

definition call :: "nat \<Rightarrow> 's stmt \<Rightarrow> u16 \<times> 's \<Rightarrow> (nat \<times> u16 \<times> 's) option" where
  "call n body p =
     (case p of (lc, s) \<Rightarrow>
        if lc = 0 then run n [body] lc s
        else case find_label (unat lc) body [] of
            None \<Rightarrow> Some (PT_ENDED, 0, s)
          | Some at \<Rightarrow> resume n at lc s)"

text \<open>Between two calls the rest of the program acts on the state.\<close>

fun calls :: "nat \<Rightarrow> 's stmt \<Rightarrow> ('s \<Rightarrow> 's) list \<Rightarrow> u16 \<times> 's \<Rightarrow> (nat list \<times> 's) option" where
  "calls n body [] p = Some ([], snd p)"
| "calls n body (f # fs) p =
     (case call n body (fst p, f (snd p)) of
        None \<Rightarrow> None
      | Some (r, lc, s) \<Rightarrow> map_option (\<lambda>(rs, s). (r # rs, s)) (calls n body fs (lc, s)))"

lemma run_numeral [simp]:
  "run (numeral v) [] lc s = Some (PT_ENDED, 0, s)"
  "run (numeral v) (Do f # ks) lc s = run (pred_numeral v) ks lc (f s)"
  "run (numeral v) (Block cs # ks) lc s = run (pred_numeral v) (cs @ ks) lc s"
  "run (numeral v) (While b c # ks) lc s = (if b s then run (pred_numeral v) (c # While b c # ks) lc s else run (pred_numeral v) ks lc s)"
  "run (numeral v) (Yield l # ks) lc s = Some (PT_YIELDED, LC_SET l, s)"
  "run (numeral v) (Wait_Until l w # ks) lc s =
     (case w s of (ok, s) \<Rightarrow> if ok then run (pred_numeral v) ks (LC_SET l) s else Some (PT_WAITING, LC_SET l, s))"
  by (simp_all add: numeral_eq_Suc)

subsection \<open>Coroutines\<close>

text \<open>
  The other kind of local continuation, \<open>lc-addrlabels.h\<close>: \<open>LC_SET\<close> stores the address of the label, \<open>LC_RESUME\<close> goes to it unless it is
  \<open>NULL\<close>. An address in the code of the thread is a statement with those that follow it. This is a coroutine that goes on exactly where it
  stopped, and so it is the reference for the \<open>switch\<close>.
\<close>

type_synonym 's place = "('s stmt \<times> 's stmt list) option"

fun co_run :: "nat \<Rightarrow> 's stmt list \<Rightarrow> 's \<Rightarrow> (nat \<times> 's place \<times> 's) option" where
  "co_run 0 ks s = None"
| "co_run (Suc n) [] s = Some (PT_ENDED, None, s)"
| "co_run (Suc n) (Do f # ks) s = co_run n ks (f s)"
| "co_run (Suc n) (Block cs # ks) s = co_run n (cs @ ks) s"
| "co_run (Suc n) (If b c d # ks) s = co_run n ((if b s then c else d) # ks) s"
| "co_run (Suc n) (While b c # ks) s = (if b s then co_run n (c # While b c # ks) s else co_run n ks s)"
| "co_run (Suc n) (Wait_Until l c # ks) s =
     (case c s of (ok, s) \<Rightarrow> if ok then co_run n ks s else Some (PT_WAITING, Some (Wait_Until l c, ks), s))"
| "co_run (Suc n) (Yield l # ks) s = Some (PT_YIELDED, Some (Yield l, ks), s)"
| "co_run (Suc n) (Yield_Until l c # ks) s = Some (PT_YIELDED, Some (Yield_Until l c, ks), s)"
| "co_run (Suc n) (Exit # ks) s = Some (PT_EXITED, None, s)"
| "co_run (Suc n) (Restart # ks) s = Some (PT_WAITING, None, s)"

fun co_resume :: "nat \<Rightarrow> 's stmt \<times> 's stmt list \<Rightarrow> 's \<Rightarrow> (nat \<times> 's place \<times> 's) option" where
  "co_resume n (Wait_Until l c, ks) s = (case c s of (ok, s) \<Rightarrow> if ok then co_run n ks s else Some (PT_WAITING, Some (Wait_Until l c, ks), s))"
| "co_resume n (Yield l, ks) s = co_run n ks s"
| "co_resume n (Yield_Until l c, ks) s = (case c s of (ok, s) \<Rightarrow> if ok then co_run n ks s else Some (PT_YIELDED, Some (Yield_Until l c, ks), s))"
| "co_resume n (c, ks) s = None"

definition co_call :: "nat \<Rightarrow> 's stmt \<Rightarrow> 's place \<times> 's \<Rightarrow> (nat \<times> 's place \<times> 's) option" where
  "co_call n body p = (case p of (None, s) \<Rightarrow> co_run n [body] s | (Some at, s) \<Rightarrow> co_resume n at s)"

fun co_calls :: "nat \<Rightarrow> 's stmt \<Rightarrow> ('s \<Rightarrow> 's) list \<Rightarrow> 's place \<times> 's \<Rightarrow> (nat list \<times> 's) option" where
  "co_calls n body [] p = Some ([], snd p)"
| "co_calls n body (f # fs) p =
     (case co_call n body (fst p, f (snd p)) of
        None \<Rightarrow> None
      | Some (r, at, s) \<Rightarrow> map_option (\<lambda>(rs, s). (r # rs, s)) (co_calls n body fs (at, s)))"

subsection \<open>The switch finds the place\<close>

text \<open>The places of a statement: its parts, each with what follows it.\<close>

fun places :: "'s stmt \<Rightarrow> 's stmt list \<Rightarrow> ('s stmt \<times> 's stmt list) set"
  and list_places :: "'s stmt list \<Rightarrow> 's stmt list \<Rightarrow> ('s stmt \<times> 's stmt list) set" where
  "places (Block cs) ks = insert (Block cs, ks) (list_places cs ks)"
| "places (If b c d) ks = insert (If b c d, ks) (places c ks \<union> places d ks)"
| "places (While b c) ks = insert (While b c, ks) (places c (While b c # ks))"
| "places c ks = {(c, ks)}"
| "list_places [] ks = {}"
| "list_places (c # cs) ks = places c (cs @ ks) \<union> list_places cs ks"

fun labels :: "'s stmt \<Rightarrow> nat list" where
  "labels (Block cs) = concat (map labels cs)"
| "labels (If b c d) = labels c @ labels d"
| "labels (While b c) = labels c"
| "labels c = (case label c of None \<Rightarrow> [] | Some l \<Rightarrow> [l])"

definition well_labelled :: "'s stmt \<Rightarrow> bool" where
  "well_labelled body \<longleftrightarrow> distinct (labels body) \<and> list_all (\<lambda>l. 0 < l \<and> l < 65536) (labels body)"

lemma self_place [simp]: "(c, ks) \<in> places c ks"
  by (cases c) simp_all

lemma find_none: "l \<notin> set (labels c) \<Longrightarrow> find_label l c ks = None"
  and find_list_none: "l \<notin> set (concat (map labels cs)) \<Longrightarrow> find_list l cs ks = None"
  by (induction l c ks and l cs ks rule: find_label_find_list.induct) (auto split: option.splits)

lemma place_label: "(c, ks) \<in> places body qs \<Longrightarrow> label c = Some l \<Longrightarrow> l \<in> set (labels body)"
  and list_place_label: "(c, ks) \<in> list_places cs qs \<Longrightarrow> label c = Some l \<Longrightarrow> l \<in> set (concat (map labels cs))"
  by (induction body qs and cs qs rule: places_list_places.induct) auto

lemma find_place: "(c, ks) \<in> places body qs \<Longrightarrow> label c = Some l \<Longrightarrow> distinct (labels body) \<Longrightarrow> find_label l body qs = Some (c, ks)"
  and find_list_place: "(c, ks) \<in> list_places cs qs \<Longrightarrow> label c = Some l \<Longrightarrow> distinct (concat (map labels cs)) \<Longrightarrow> find_list l cs qs = Some (c, ks)"
proof (induction body qs and cs qs rule: places_list_places.induct)
  case (2 b c' d qs)
  then consider "(c, ks) \<in> places c' qs" | "(c, ks) \<in> places d qs" by auto
  then show ?case
  proof cases
    case 2
    with place_label [OF 2 "2.prems"(2)] "2.prems"(3) have "find_label l c' qs = None" by (intro find_none) auto
    with 2 "2.IH"(2) "2.prems" show ?thesis by simp
  qed (use "2.IH"(1) "2.prems" in simp)
next
  case (6 c' cs qs)
  then consider "(c, ks) \<in> places c' (cs @ qs)" | "(c, ks) \<in> list_places cs qs" by auto
  then show ?case
  proof cases
    case 2
    with list_place_label [OF 2 "6.prems"(2)] "6.prems"(3) have "find_label l c' (cs @ qs) = None" by (intro find_none) auto
    with 2 "6.IH"(2) "6.prems" show ?thesis by simp
  qed (use "6.IH"(1) "6.prems" in simp)
qed auto

lemma places_trans: "(c, ks) \<in> places body qs \<Longrightarrow> places c ks \<subseteq> places body qs"
  and list_places_trans: "(c, ks) \<in> list_places cs qs \<Longrightarrow> places c ks \<subseteq> list_places cs qs"
  by (induction body qs and cs qs rule: places_list_places.induct) auto

text \<open>A list of statements that are all places of the body.\<close>

fun on_track :: "('s stmt \<times> 's stmt list) set \<Rightarrow> 's stmt list \<Rightarrow> bool" where
  "on_track S [] \<longleftrightarrow> True"
| "on_track S (c # ks) \<longleftrightarrow> (c, ks) \<in> S \<and> on_track S ks"

lemma on_track_append: "list_places cs ks \<subseteq> S \<Longrightarrow> on_track S ks \<Longrightarrow> on_track S (cs @ ks)"
  by (induction cs) auto

lemma place_on_track: "(c, ks) \<in> places body qs \<Longrightarrow> places body qs \<subseteq> S \<Longrightarrow> on_track S qs \<Longrightarrow> on_track S ks"
  and list_place_on_track: "(c, ks) \<in> list_places cs qs \<Longrightarrow> list_places cs qs \<subseteq> S \<Longrightarrow> on_track S qs \<Longrightarrow> on_track S ks"
proof (induction body qs and cs qs rule: places_list_places.induct)
  case (6 c' cs qs)
  then show ?case using on_track_append [of cs qs S] by auto
qed auto

lemma on_track_step:
  assumes "on_track (places body []) (c # ks)"
  shows "c = Block cs \<Longrightarrow> on_track (places body []) (cs @ ks)"
    and "c = If b d e \<Longrightarrow> on_track (places body []) (d # ks) \<and> on_track (places body []) (e # ks)"
    and "c = While b d \<Longrightarrow> on_track (places body []) (d # While b d # ks)"
  using assms places_trans [of c ks body "[]"] by (auto intro: on_track_append)

subsection \<open>The simulation\<close>

definition stored_at :: "'s stmt \<Rightarrow> u16 \<Rightarrow> 's place \<Rightarrow> bool" where
  "stored_at body lc at \<longleftrightarrow>
     (case at of None \<Rightarrow> lc = 0
      | Some (c, ks) \<Rightarrow> (c, ks) \<in> places body [] \<and> (case label c of None \<Rightarrow> False | Some l \<Rightarrow> lc = LC_SET l))"

definition same_end :: "'s stmt \<Rightarrow> nat \<times> u16 \<times> 's \<Rightarrow> nat \<times> 's place \<times> 's \<Rightarrow> bool" where
  "same_end body x y \<longleftrightarrow> fst x = fst y \<and> snd (snd x) = snd (snd y) \<and> stored_at body (fst (snd x)) (fst (snd y))"

lemma run_sim: "on_track (places body []) ks \<Longrightarrow> rel_option (same_end body) (run n ks lc s) (co_run n ks s)"
proof (induction n ks lc s rule: run.induct)
  case (4 n cs ks lc s)
  then show ?case using on_track_step(1) [OF 4(2)] by simp
next
  case (5 n b c d ks lc s)
  then show ?case using on_track_step(2) [OF 5(2)] by simp
next
  case (6 n b c ks lc s)
  then show ?case using on_track_step(3) [OF 6(3)] by auto
next
  case (7 n l c ks lc s)
  then show ?case by (cases "c s") (auto simp: same_end_def stored_at_def)
qed (auto simp: same_end_def stored_at_def)

lemma resume_sim:
  assumes "stored_at body lc (Some at)"
  shows "rel_option (same_end body) (resume n at lc s) (co_resume n at s)"
proof -
  obtain c ks where at: "at = (c, ks)" by (cases at)
  with assms have p: "(c, ks) \<in> places body []" by (simp add: stored_at_def)
  then have t: "on_track (places body []) ks" by (rule place_on_track) simp_all
  show ?thesis
  proof (cases c)
    case (Wait_Until l f)
    then show ?thesis using assms run_sim [OF t] at by (cases "f s") (simp add: same_end_def)
  next
    case (Yield_Until l f)
    then show ?thesis using assms run_sim [OF t] at by (cases "f s") (simp add: same_end_def)
  qed (use assms run_sim [OF t] at in \<open>auto simp: stored_at_def\<close>)
qed

lemma call_sim:
  assumes "well_labelled body" "stored_at body lc at"
  shows "rel_option (same_end body) (call n body (lc, s)) (co_call n body (at, s))"
proof (cases at)
  case None
  then show ?thesis using assms(2) run_sim [of body "[body]" n lc s] by (simp add: call_def co_call_def stored_at_def)
next
  case (Some p)
  obtain c ks where p: "p = (c, ks)" by (cases p)
  with assms(2) Some obtain l where l: "(c, ks) \<in> places body []" "label c = Some l" "lc = LC_SET l"
    by (auto simp: stored_at_def split: option.splits)
  then have "0 < l" "l < 65536" using assms(1) place_label [OF l(1,2)] by (auto simp: well_labelled_def list_all_iff)
  then have "unat lc = l" using l(3) by (simp add: LC_SET_def unat_of_nat)
  then have "lc \<noteq> 0" using \<open>0 < l\<close> by auto
  moreover have "find_label (unat lc) body [] = Some (c, ks)"
    using find_place [OF l(1,2)] assms(1) \<open>unat lc = l\<close> by (simp add: well_labelled_def)
  ultimately show ?thesis using resume_sim [of body lc p n s] assms(2) Some p by (simp add: call_def co_call_def)
qed

text \<open>
  C7. Equivalence: when the labels of a thread are different and below 65536, calling it any number of times, with anything done to its state
  between the calls, gives the same results and the same state as a coroutine that goes on exactly where it stopped: the two kinds of local
  continuation agree.
\<close>

theorem protothread_is_coroutine:
  assumes "well_labelled body"
  shows "calls n body fs (0, s) = co_calls n body fs (None, s)"
proof -
  have "calls n body fs (lc, s) = co_calls n body fs (at, s)" if "stored_at body lc at" for lc at
    using that
  proof (induction fs arbitrary: lc at s)
    case (Cons f fs)
    from call_sim [OF assms Cons.prems, of n "f s"] show ?case
      by (cases rule: option.rel_cases) (auto simp: same_end_def Cons.IH)
  qed simp
  then show ?thesis by (simp add: stored_at_def)
qed


text \<open>A thread that waits for the second of two events inside a loop, and yields after it.\<close>

definition sample_thread :: "nat stmt" where
  "sample_thread = Block [While (\<lambda>s. s < 9) (Block [Wait_Until 10 (\<lambda>s. (4 < s, s)), Do (\<lambda>s. s + 1), Yield 12]), Do (\<lambda>s. 100)]"

theorem protothread_is_coroutine_witness:
  "calls 20 sample_thread [id, (+) 5, id, (+) 1, (+) 1] (0, 0) = co_calls 20 sample_thread [id, (+) 5, id, (+) 1, (+) 1] (None, 0)
    \<and> calls 20 sample_thread [id, (+) 5, id, (+) 1, (+) 1] (0, 0) = Some ([PT_WAITING, PT_YIELDED, PT_YIELDED, PT_YIELDED, PT_ENDED], 100)"
proof
  have "well_labelled sample_thread" by (simp add: well_labelled_def sample_thread_def)
  from protothread_is_coroutine [OF this]
  show "calls 20 sample_thread [id, (+) 5, id, (+) 1, (+) 1] (0, 0) = co_calls 20 sample_thread [id, (+) 5, id, (+) 1, (+) 1] (None, 0)" .
  show "calls 20 sample_thread [id, (+) 5, id, (+) 1, (+) 1] (0, 0) = Some ([PT_WAITING, PT_YIELDED, PT_YIELDED, PT_YIELDED, PT_ENDED], 100)"
    by code_simp
qed

subsection \<open>Typing\<close>

text \<open>The continuations that a thread may hold.\<close>

definition continuation_of :: "'s stmt \<Rightarrow> u16 \<Rightarrow> bool" where
  "continuation_of body lc \<longleftrightarrow> lc = 0 \<or> unat lc \<in> set (labels body)"

lemma label_place: "l \<in> set (labels c) \<Longrightarrow> \<exists>d ks'. (d, ks') \<in> places c ks \<and> label d = Some l"
  and label_list_place: "l \<in> set (concat (map labels cs)) \<Longrightarrow> \<exists>d ks'. (d, ks') \<in> list_places cs ks \<and> label d = Some l"
  by (induction c ks and cs ks rule: places_list_places.induct) (simp; blast?)+

lemma continuation_iff_stored:
  assumes "well_labelled body"
  shows "continuation_of body lc \<longleftrightarrow> (\<exists>at. stored_at body lc at)"
proof
  assume "continuation_of body lc"
  then consider "lc = 0" | "unat lc \<in> set (labels body)" by (auto simp: continuation_of_def)
  then show "\<exists>at. stored_at body lc at"
  proof cases
    case 2
    then obtain d ks where "(d, ks) \<in> places body []" "label d = Some (unat lc)" using label_place by blast
    then have "stored_at body lc (Some (d, ks))" by (simp add: stored_at_def LC_SET_def)
    then show ?thesis ..
  qed (auto simp: stored_at_def intro: exI [of _ None])
next
  assume "\<exists>at. stored_at body lc at"
  then obtain at where at: "stored_at body lc at" ..
  show "continuation_of body lc"
  proof (cases at)
    case (Some p)
    obtain c ks where p: "p = (c, ks)" by (cases p)
    with at Some obtain l where l: "(c, ks) \<in> places body []" "label c = Some l" "lc = LC_SET l"
      by (auto simp: stored_at_def split: option.splits)
    then have "l \<in> set (labels body)" "l < 65536" using assms place_label [OF l(1,2)] by (auto simp: well_labelled_def list_all_iff)
    then show ?thesis using l(3) by (simp add: continuation_of_def LC_SET_def unat_of_nat)
  qed (use at in \<open>simp add: stored_at_def continuation_of_def\<close>)
qed

definition code_ok :: "nat \<Rightarrow> u16 \<Rightarrow> bool" where
  "code_ok r lc \<longleftrightarrow> r \<le> PT_ENDED \<and> (PT_SCHEDULE r \<or> lc = 0)"

lemma code_ok_codes [simp]: "code_ok PT_WAITING lc" "code_ok PT_YIELDED lc" "code_ok PT_EXITED 0" "code_ok PT_ENDED 0"
  by (simp_all add: code_ok_def PT_SCHEDULE_def PT_WAITING_def PT_YIELDED_def PT_EXITED_def PT_ENDED_def)

lemma run_codes: "run n ks lc s = Some (r, lc', s') \<Longrightarrow> code_ok r lc'"
  by (induction n ks lc s rule: run.induct) (auto split: prod.splits if_splits)

lemma resume_codes: "resume n at lc s = Some (r, lc', s') \<Longrightarrow> code_ok r lc'"
  by (cases "(n, at, lc, s)" rule: resume.cases) (auto dest: run_codes split: prod.splits if_splits)

lemma call_codes: "call n body (lc, s) = Some (r, lc', s') \<Longrightarrow> code_ok r lc'"
  by (auto simp: call_def dest: run_codes resume_codes split: if_splits option.splits)

subsection \<open>Calls that return\<close>

text \<open>A statement that always leaves the call when it is run from its beginning; a paced thread has such a body in each of its loops.\<close>

fun leaves :: "'s stmt \<Rightarrow> bool" where
  "leaves (Block cs) \<longleftrightarrow> list_ex leaves cs"
| "leaves (If b c d) \<longleftrightarrow> leaves c \<and> leaves d"
| "leaves (Yield l) \<longleftrightarrow> True"
| "leaves (Yield_Until l c) \<longleftrightarrow> True"
| "leaves Exit \<longleftrightarrow> True"
| "leaves Restart \<longleftrightarrow> True"
| "leaves c \<longleftrightarrow> False"

fun paced :: "'s stmt \<Rightarrow> bool" where
  "paced (Block cs) \<longleftrightarrow> list_all paced cs"
| "paced (If b c d) \<longleftrightarrow> paced c \<and> paced d"
| "paced (While b c) \<longleftrightarrow> leaves c \<and> paced c"
| "paced c \<longleftrightarrow> True"

text \<open>The steps that a statement may take, and those of a list up to the first one that leaves.\<close>

fun work :: "'s stmt \<Rightarrow> nat" where
  "work (Block cs) = Suc (sum_list (map work cs))"
| "work (If b c d) = Suc (work c + work d)"
| "work (While b c) = Suc (work c)"
| "work c = 1"

fun list_work :: "'s stmt list \<Rightarrow> nat" where
  "list_work [] = 1"
| "list_work (c # ks) = work c + (if leaves c then 0 else list_work ks)"

lemma list_work_append: "list_work (cs @ ks) \<le> sum_list (map work cs) + (if list_ex leaves cs then 0 else list_work ks)"
  by (induction cs) auto

lemma work_positive: "0 < work c"
  by (cases c) simp_all

lemma run_returns: "list_all paced ks \<Longrightarrow> list_work ks \<le> n \<Longrightarrow> run n ks lc s \<noteq> None"
proof (induction n ks lc s rule: run.induct)
  case (1 ks lc s)
  then show ?case using work_positive [of "hd ks"] by (cases ks) auto
next
  case (4 n cs ks lc s)
  then show ?case using list_work_append [of cs ks] by (simp split: if_splits)
qed (auto split: if_splits prod.splits)

lemma places_paced: "(c, ks) \<in> places body qs \<Longrightarrow> paced body \<Longrightarrow> list_all paced qs \<Longrightarrow> paced c \<and> list_all paced ks"
  and list_places_paced: "(c, ks) \<in> list_places cs qs \<Longrightarrow> list_all paced cs \<Longrightarrow> list_all paced qs \<Longrightarrow> paced c \<and> list_all paced ks"
  by (induction body qs and cs qs rule: places_list_places.induct) auto

lemma labelled_place:
  assumes "well_labelled body" "continuation_of body lc" "lc \<noteq> 0"
  obtains c ks where "(c, ks) \<in> places body []" "label c = Some (unat lc)" "find_label (unat lc) body [] = Some (c, ks)"
proof -
  from assms(2,3) have "unat lc \<in> set (labels body)" by (simp add: continuation_of_def)
  then obtain c ks where "(c, ks) \<in> places body []" "label c = Some (unat lc)" using label_place by blast
  moreover from find_place [OF this] assms(1) have "find_label (unat lc) body [] = Some (c, ks)" by (simp add: well_labelled_def)
  ultimately show thesis by (rule that)
qed

lemma call_returns:
  assumes "well_labelled body" "continuation_of body lc" "paced body"
  shows "\<exists>m. \<forall>n \<ge> m. \<forall>s. call n body (lc, s) \<noteq> None"
proof (cases "lc = 0")
  case True
  then show ?thesis using assms(3) run_returns [of "[body]"] by (intro exI [of _ "list_work [body]"]) (simp add: call_def)
next
  case False
  from labelled_place [OF assms(1,2) False] obtain c ks where p: "(c, ks) \<in> places body []" "label c = Some (unat lc)"
    "find_label (unat lc) body [] = Some (c, ks)" .
  then have "list_all paced ks" using places_paced assms(3) by fastforce
  note r = run_returns [OF this]
  have "resume n (c, ks) lc s \<noteq> None" if "list_work ks \<le> n" for n s
    using p(2) r [OF that] by (cases c) (auto split: prod.splits)
  then show ?thesis using p(3) False by (intro exI [of _ "list_work ks"]) (simp add: call_def)
qed

text \<open>
  C14. Typing: a continuation of a well-labelled thread is resumed at a place of its body, and what a call gives is one of the four codes with a continuation
  of the body again; a thread that is not to be scheduled any more starts at its beginning. When every pass through a loop leaves the call, by a yield,
  an exit or a restart, each call does return, whatever the state.
\<close>

theorem thread_type_safe:
  assumes "well_labelled body" "continuation_of body lc"
  shows "(lc = 0 \<or> find_label (unat lc) body [] \<noteq> None)
    \<and> (\<forall>n s r lc' s'. call n body (lc, s) = Some (r, lc', s') \<longrightarrow> continuation_of body lc' \<and> r \<le> PT_ENDED \<and> (PT_SCHEDULE r \<or> lc' = 0))
    \<and> (paced body \<longrightarrow> (\<exists>m. \<forall>n \<ge> m. \<forall>s. \<exists>r lc' s'. call n body (lc, s) = Some (r, lc', s')))"
proof (intro conjI allI impI)
  show "lc = 0 \<or> find_label (unat lc) body [] \<noteq> None" using labelled_place [OF assms] by (metis option.distinct(1))
  show "\<exists>m. \<forall>n \<ge> m. \<forall>s. \<exists>r lc' s'. call n body (lc, s) = Some (r, lc', s')" if "paced body"
    using call_returns [OF assms that] by (metis not_None_eq prod_cases3)
  fix n s r lc' s' assume c: "call n body (lc, s) = Some (r, lc', s')"
  from continuation_iff_stored [OF assms(1)] assms(2) obtain at where at: "stored_at body lc at" by blast
  from call_sim [OF assms(1) at, of n s] c have "\<exists>at'. stored_at body lc' at'"
    by (cases rule: option.rel_cases) (auto simp: same_end_def)
  then show "continuation_of body lc'" using continuation_iff_stored [OF assms(1)] by blast
  show "r \<le> PT_ENDED" "PT_SCHEDULE r \<or> lc' = 0" using call_codes [OF c] by (simp_all add: code_ok_def)
qed

theorem thread_type_safe_witness:
  "find_label 12 sample_thread [] \<noteq> None \<and> continuation_of sample_thread 10 \<and> call 20 sample_thread (12, 3) = Some (PT_WAITING, 10, 3)
    \<and> (\<exists>m. \<forall>s. call m sample_thread (12, s) \<noteq> None)"
proof -
  have w: "well_labelled sample_thread" and c: "continuation_of sample_thread 12" and r: "call 20 sample_thread (12, 3) = Some (PT_WAITING, 10, 3)"
    and p: "paced sample_thread"
    by (simp_all add: well_labelled_def continuation_of_def sample_thread_def call_def LC_SET_def)
  note t = thread_type_safe [OF w c]
  have "find_label 12 sample_thread [] \<noteq> None" using t by simp
  moreover have "continuation_of sample_thread 10" using t r by blast
  moreover have "\<exists>m. \<forall>s. call m sample_thread (12, s) \<noteq> None" using t p by (metis option.distinct(1) order_refl)
  ultimately show ?thesis using r by simp
qed

end
