(* ===== verification/Pt_Sem.thy ===== *)
theory Pt_Sem
  imports Protothread
begin

text \<open>
  The semaphores of \<open>protothread/pt-sem.h\<close>, what the width of the local continuation means for long files, and the protothreads with flags of
  \<open>graham-pt.h\<close>.
\<close>

subsection \<open>Semaphores\<close>

definition PT_SEM_INIT :: "u32 \<Rightarrow> u32" where "PT_SEM_INIT c = c"

definition PT_SEM_WAIT :: "nat \<Rightarrow> ('s \<Rightarrow> u32) \<Rightarrow> ((u32 \<Rightarrow> u32) \<Rightarrow> 's \<Rightarrow> 's) \<Rightarrow> 's stmt" where
  "PT_SEM_WAIT line count upd = Block [Wait_Until line (\<lambda>s. (0 < count s, s)), Do (upd (\<lambda>c. c - 1))]"

definition PT_SEM_SIGNAL :: "((u32 \<Rightarrow> u32) \<Rightarrow> 's \<Rightarrow> 's) \<Rightarrow> 's stmt" where
  "PT_SEM_SIGNAL upd = Do (upd (\<lambda>c. c + 1))"

text \<open>A wait on a semaphore goes on with the counter one lower, or stops with the counter as it is; it never wraps around.\<close>

lemma sem_wait_run:
  assumes "\<And>f s. count (upd f s) = f (count s)"
  shows "run (Suc (Suc (Suc n))) (PT_SEM_WAIT line count upd # ks) lc s =
    (if count s = 0 then Some (PT_WAITING, LC_SET line, s) else run n ks (LC_SET line) (upd (\<lambda>c. c - 1) s))"
    "count s \<noteq> 0 \<Longrightarrow> unat (count (upd (\<lambda>c. c - 1) s)) = unat (count s) - 1"
proof -
  show "run (Suc (Suc (Suc n))) (PT_SEM_WAIT line count upd # ks) lc s =
    (if count s = 0 then Some (PT_WAITING, LC_SET line, s) else run n ks (LC_SET line) (upd (\<lambda>c. c - 1) s))"
    by (simp add: PT_SEM_WAIT_def word_neq_0_conv)
  assume "count s \<noteq> 0"
  then have "1 \<le> count s" by (simp add: word_le_nat_alt Suc_le_eq unat_gt_0)
  then show "unat (count (upd (\<lambda>c. c - 1) s)) = unat (count s) - 1" using assms by (simp add: unat_sub)
qed

subsection \<open>Long files\<close>

text \<open>
  Error behaviour: in a file of 65536 lines or more the stored line number is cut to 16 bits, and a thread that waits there ends in its next call
  without testing its condition.
\<close>

theorem long_file_thread_ends:
  assumes "65536 < l" "l < 131072" "c s = (False, s')"
  shows "calls (Suc (Suc n)) (Block [Wait_Until l c, Do f]) [id, g] (0, s) = Some ([PT_WAITING, PT_ENDED], g s')"
proof -
  have "unat (LC_SET l) = l - 65536" using assms(1,2) by (simp add: LC_SET_def unat_of_nat mod_if)
  then have "LC_SET l \<noteq> 0" "unat (LC_SET l) \<noteq> l" using assms(1) by auto
  then show ?thesis using assms(3) by (simp add: call_def)
qed

theorem long_file_thread_ends_witness:
  "calls 2 (Block [Wait_Until 70000 (\<lambda>s. (False, s)), Do (\<lambda>s. s + 1)]) [id, id] (0, 5 :: nat) = Some ([PT_WAITING, PT_ENDED], 5)"
  using long_file_thread_ends [of 70000 "\<lambda>s. (False, s)" "5 :: nat" 5 0 "\<lambda>s. s + 1" id] by (simp add: numeral_2_eq_2)

subsection \<open>Threads with flags\<close>

definition PT_F_SLEEPING :: u16 where "PT_F_SLEEPING = 1"
definition PT_F_KILL :: u16 where "PT_F_KILL = 2"
definition PT_F_WAITING :: u16 where "PT_F_WAITING = 4"

definition PT_THREAD_WAITING :: nat where "PT_THREAD_WAITING = 0"
definition PT_THREAD_EXITED :: nat where "PT_THREAD_EXITED = 1"

record ptx =
  lc_of :: u16
  flags :: u16

text \<open>
  \<open>PT_WAIT_UNTIL\<close> of a \<open>struct ptx\<close>: \<open>None\<close> goes on behind the macro, \<open>Some r\<close> returns \<open>r\<close>. A killed thread starts at its beginning when it is
  called again.
\<close>

definition ptx_wait_until :: "nat \<Rightarrow> bool \<Rightarrow> ptx \<Rightarrow> nat option \<times> ptx" where
  "ptx_wait_until line condition pt =
     (let pt = pt\<lparr>lc_of := LC_SET line\<rparr>
      in if flags pt AND PT_F_KILL \<noteq> 0 then (Some PT_THREAD_EXITED, pt\<lparr>lc_of := 0\<rparr>)
         else
           (let pt = (if condition then pt\<lparr>flags := flags pt AND PT_F_WAITING\<rparr> else pt\<lparr>flags := flags pt OR PT_F_WAITING\<rparr>)
            in (if flags pt AND PT_F_WAITING \<noteq> 0 then Some PT_THREAD_WAITING else None, pt)))"

definition ptx_sleep_begin :: "ptx \<Rightarrow> ptx" where "ptx_sleep_begin pt = pt\<lparr>flags := flags pt OR PT_F_SLEEPING\<rparr>"

text \<open>The wait of \<open>PT_SLEEP\<close>, which is also what a sleeping thread comes back to.\<close>

definition ptx_sleep :: "nat \<Rightarrow> ptx \<Rightarrow> nat option \<times> ptx" where
  "ptx_sleep line pt = ptx_wait_until line (flags pt AND PT_F_SLEEPING = 0) pt"

definition PT_WAKE :: "ptx \<Rightarrow> ptx" where "PT_WAKE pt = pt\<lparr>flags := flags pt AND NOT PT_F_SLEEPING\<rparr>"
definition PT_KILL :: "ptx \<Rightarrow> ptx" where "PT_KILL pt = pt\<lparr>flags := flags pt AND NOT PT_F_KILL\<rparr>"
definition PT_ISBLOCKED :: "ptx \<Rightarrow> u16" where "PT_ISBLOCKED pt = flags pt AND PT_F_WAITING"

text \<open>The calls of a thread that waits at one place, under the values that its condition has.\<close>

fun ptx_calls :: "nat \<Rightarrow> bool list \<Rightarrow> ptx \<Rightarrow> nat option list \<times> ptx" where
  "ptx_calls line [] pt = ([], pt)"
| "ptx_calls line (c # cs) pt = (case ptx_wait_until line c pt of (r, pt) \<Rightarrow> case ptx_calls line cs pt of (rs, pt) \<Rightarrow> (r # rs, pt))"

lemma waiting_flag:
  "(fl OR PT_F_WAITING) AND PT_F_WAITING \<noteq> 0"
  "fl AND PT_F_KILL = 0 \<Longrightarrow> (fl OR PT_F_WAITING) AND PT_F_KILL = 0"
  "(fl AND PT_F_WAITING) AND PT_F_WAITING = fl AND PT_F_WAITING"
  "(fl AND PT_F_WAITING) AND PT_F_KILL = 0"
proof -
  have w: "(fl OR PT_F_WAITING) AND PT_F_WAITING = PT_F_WAITING" by (rule bit_word_eqI) (auto simp: bit_simps)
  have k: "PT_F_WAITING AND PT_F_KILL = 0" by (simp add: PT_F_WAITING_def PT_F_KILL_def)
  show "(fl OR PT_F_WAITING) AND PT_F_WAITING \<noteq> 0" unfolding w by (simp add: PT_F_WAITING_def)
  show "(fl OR PT_F_WAITING) AND PT_F_KILL = 0" if "fl AND PT_F_KILL = 0" using that k by (simp add: bit.conj_disj_distrib2)
  show "(fl AND PT_F_WAITING) AND PT_F_WAITING = fl AND PT_F_WAITING" by (simp add: and.assoc)
  show "(fl AND PT_F_WAITING) AND PT_F_KILL = 0" using k by (simp add: and.assoc)
qed

lemma blocked_stays:
  assumes "flags pt AND PT_F_WAITING \<noteq> 0" "flags pt AND PT_F_KILL = 0"
  shows "fst (ptx_wait_until line c pt) = Some PT_THREAD_WAITING" "flags (snd (ptx_wait_until line c pt)) AND PT_F_WAITING \<noteq> 0"
    "flags (snd (ptx_wait_until line c pt)) AND PT_F_KILL = 0"
  using assms waiting_flag [of "flags pt"] by (simp_all add: ptx_wait_until_def Let_def)

text \<open>
  C37. Error behaviour: the waiting flag is kept where it should be cleared, so that a thread with flags that has once waited never goes on, whatever
  its condition becomes; and killing it clears the flag that should be set, so that it does not end either.
\<close>

theorem ptx_never_unblocks:
  assumes "flags pt AND PT_F_KILL = 0" "ptx_wait_until line False pt = (r, pt')"
  shows "fst (ptx_calls line cs pt') = replicate (length cs) (Some PT_THREAD_WAITING) \<and> PT_KILL pt' = pt'"
proof
  have stuck: "fst (ptx_calls line cs q) = replicate (length cs) (Some PT_THREAD_WAITING)"
    if "flags q AND PT_F_WAITING \<noteq> 0" "flags q AND PT_F_KILL = 0" for q
    using that
  proof (induction cs arbitrary: q)
    case (Cons c cs)
    obtain h where h: "ptx_wait_until line c q = (Some PT_THREAD_WAITING, h)" "flags h AND PT_F_WAITING \<noteq> 0" "flags h AND PT_F_KILL = 0"
      using blocked_stays [OF Cons.prems, of line c] by (cases "ptx_wait_until line c q") auto
    then show ?case using Cons.IH [OF h(2,3)] by (cases "ptx_calls line cs h") simp
  qed simp
  have "flags pt' = flags pt OR PT_F_WAITING" using assms by (auto simp: ptx_wait_until_def Let_def)
  with assms(1) waiting_flag [of "flags pt"] have w: "flags pt' AND PT_F_WAITING \<noteq> 0" "flags pt' AND PT_F_KILL = 0" by auto
  then show "fst (ptx_calls line cs pt') = replicate (length cs) (Some PT_THREAD_WAITING)" by (rule stuck)
  have "flags pt' AND NOT PT_F_KILL = flags pt'" using w(2) by (auto simp: bit_eq_iff bit_simps)
  then show "PT_KILL pt' = pt'" by (simp add: PT_KILL_def)
qed

theorem ptx_never_unblocks_witness:
  "fst (ptx_calls 20 [True, False, True] \<lparr>lc_of = 20, flags = 4\<rparr>) = [Some PT_THREAD_WAITING, Some PT_THREAD_WAITING, Some PT_THREAD_WAITING]
    \<and> PT_KILL \<lparr>lc_of = 20, flags = 4\<rparr> = \<lparr>lc_of = 20, flags = 4\<rparr>"
  using ptx_never_unblocks [of "\<lparr>lc_of = 0, flags = 0\<rparr>" 20 "Some PT_THREAD_WAITING" "\<lparr>lc_of = 20, flags = 4\<rparr>" "[True, False, True]"]
  by (simp add: ptx_wait_until_def PT_F_WAITING_def PT_F_KILL_def LC_SET_def)

end
