(* ===== verification/File_Tree.thy ===== *)
theory File_Tree
  imports Prelude "HOL-Library.Sublist"
begin

text \<open>
  The file helpers of \<open>app_utils.c\<close>.

  A path is the list of its names, the file system the set of its paths, kept as a list. Of the C library the code uses \<open>stat\<close>,
  \<open>remove\<close> and \<open>nftw\<close> with \<open>FTW_DEPTH | FTW_PHYS\<close>: a walk over the tree at a path that passes every entry of a directory
  before the directory itself, follows no symbolic link (a link is an entry like a file) and ends at the first result that is not 0.
  Which paths the process may remove is an input; a directory with entries is never removed.
\<close>

subsection \<open>The library\<close>

type_synonym path = "string list"

datatype entry = Leaf | Dir "(string \<times> entry) list"

fun nftw :: "(path \<Rightarrow> 's \<Rightarrow> int \<times> 's) \<Rightarrow> path \<Rightarrow> entry \<Rightarrow> 's \<Rightarrow> int \<times> 's"
  and nftw_entries :: "(path \<Rightarrow> 's \<Rightarrow> int \<times> 's) \<Rightarrow> path \<Rightarrow> (string \<times> entry) list \<Rightarrow> 's \<Rightarrow> int \<times> 's" where
  "nftw cb p Leaf s = cb p s"
| "nftw cb p (Dir es) s = (case nftw_entries cb p es s of (r, s) \<Rightarrow> if r \<noteq> 0 then (r, s) else cb p s)"
| "nftw_entries cb p [] s = (0, s)"
| "nftw_entries cb p ((x, e) # es) s =
     (case nftw cb (p @ [x]) e s of (r, s) \<Rightarrow> if r \<noteq> 0 then (r, s) else nftw_entries cb p es s)"

record file_system =
  present :: "path list"
  removable :: "path \<Rightarrow> bool"

definition remove_path :: "path \<Rightarrow> file_system \<Rightarrow> int \<times> file_system" where
  "remove_path p s =
     (if p \<in> set (present s) \<and> removable s p \<and> \<not> list_ex (strict_prefix p) (present s)
      then (0, s\<lparr>present := filter (\<lambda>q. q \<noteq> p) (present s)\<rparr>) else (- 1, s))"

subsection \<open>The operations\<close>

definition remove_recursive_cb :: "path \<Rightarrow> file_system \<Rightarrow> int \<times> file_system" where
  "remove_recursive_cb fpath s = remove_path fpath s"

text \<open>\<open>e\<close> is the tree that \<open>nftw\<close> finds at the path; without one it fails.\<close>

definition remove_recursive :: "path \<Rightarrow> entry option \<Rightarrow> file_system \<Rightarrow> int \<times> file_system" where
  "remove_recursive path e s = (case e of None \<Rightarrow> (- 1, s) | Some e \<Rightarrow> nftw remove_recursive_cb path e s)"

definition check_file_exists :: "path \<Rightarrow> file_system \<Rightarrow> int" where
  "check_file_exists filename s = of_bool (filename \<in> set (present s))"

subsection \<open>The order of the walk\<close>

fun post_order :: "path \<Rightarrow> entry \<Rightarrow> path list"
  and entries_order :: "path \<Rightarrow> (string \<times> entry) list \<Rightarrow> path list" where
  "post_order p Leaf = [p]"
| "post_order p (Dir es) = entries_order p es @ [p]"
| "entries_order p [] = []"
| "entries_order p ((x, e) # es) = post_order (p @ [x]) e @ entries_order p es"

fun visit :: "(path \<Rightarrow> 's \<Rightarrow> int \<times> 's) \<Rightarrow> path list \<Rightarrow> 's \<Rightarrow> int \<times> 's" where
  "visit cb [] s = (0, s)"
| "visit cb (p # ps) s = (case cb p s of (r, s) \<Rightarrow> if r \<noteq> 0 then (r, s) else visit cb ps s)"

lemma visit_append: "visit cb (ps @ qs) s = (case visit cb ps s of (r, s) \<Rightarrow> if r \<noteq> 0 then (r, s) else visit cb qs s)"
  by (induction ps arbitrary: s) (auto split: prod.splits)

lemma nftw_is_visit:
  "nftw cb p e s = visit cb (post_order p e) s"
  "nftw_entries cb p es s = visit cb (entries_order p es) s"
  by (induction p e and p es arbitrary: s and s rule: post_order_entries_order.induct)
    (auto simp: visit_append split: prod.splits)

text \<open>Names are unique in a directory.\<close>

fun well_named :: "entry \<Rightarrow> bool" where
  "well_named Leaf \<longleftrightarrow> True"
| "well_named (Dir es) \<longleftrightarrow> distinct (map fst es) \<and> list_all (\<lambda>(x, e). well_named e) es"

lemma order_prefix:
  "q \<in> set (post_order p e) \<Longrightarrow> prefix p q"
  "q \<in> set (entries_order p es) \<Longrightarrow> \<exists>x \<in> fst ` set es. prefix (p @ [x]) q"
proof (induction p e and p es rule: post_order_entries_order.induct)
  case (2 p es)
  then show ?case by (auto dest: append_prefixD)
qed auto

lemma names_apart: "prefix (p @ [x]) q \<Longrightarrow> prefix (p @ [y]) q \<Longrightarrow> x = y"
  by (auto simp: prefix_def)

lemma below_entries: "q \<in> set (entries_order p es) \<Longrightarrow> \<not> prefix q p"
proof
  assume "q \<in> set (entries_order p es)" and q: "prefix q p"
  from order_prefix(2) [OF this(1)] obtain x where "prefix (p @ [x]) q" by blast
  from prefix_order.trans [OF this q] show False by (auto dest: prefix_length_le)
qed

lemma entries_apart:
  assumes "distinct (map fst ((x, e) # es))" "q \<in> set (post_order (p @ [x]) e)" "r \<in> set (entries_order p es)"
  shows "\<not> prefix q r"
proof
  assume "prefix q r"
  with order_prefix(1) [OF assms(2)] have "prefix (p @ [x]) r" by (rule prefix_order.trans)
  moreover obtain y where "y \<in> fst ` set es" "prefix (p @ [y]) r" using order_prefix(2) [OF assms(3)] by blast
  ultimately show False using names_apart [of p x r y] assms(1) by auto
qed

lemma order_distinct:
  "well_named e \<Longrightarrow> distinct (post_order p e)"
  "distinct (map fst es) \<Longrightarrow> list_all (\<lambda>(x, e). well_named e) es \<Longrightarrow> distinct (entries_order p es)"
proof (induction p e and p es rule: post_order_entries_order.induct)
  case (2 p es)
  have "p \<notin> set (entries_order p es)" using below_entries [of p p es] by blast
  with 2 show ?case by simp
next
  case (4 p x e es)
  have "set (post_order (p @ [x]) e) \<inter> set (entries_order p es) = {}"
    using entries_apart [OF 4(3)] prefix_order.refl by blast
  with 4 show ?case by simp
qed simp_all

text \<open>No path of the order stands above one that comes later.\<close>

abbreviation bottom_up :: "path list \<Rightarrow> bool" where
  "bottom_up \<equiv> sorted_wrt (\<lambda>p q. \<not> strict_prefix p q)"

lemma order_bottom_up:
  "well_named e \<Longrightarrow> bottom_up (post_order p e)"
  "distinct (map fst es) \<Longrightarrow> list_all (\<lambda>(x, e). well_named e) es \<Longrightarrow> bottom_up (entries_order p es)"
proof (induction p e and p es rule: post_order_entries_order.induct)
  case (2 p es)
  have "\<not> strict_prefix q p" if "q \<in> set (entries_order p es)" for q
    using below_entries [OF that] by (simp add: strict_prefix_def)
  with 2 show ?case by (simp add: sorted_wrt_append)
next
  case (4 p x e es)
  have "\<not> strict_prefix q r" if "q \<in> set (post_order (p @ [x]) e)" "r \<in> set (entries_order p es)" for q r
    using entries_apart [OF 4(3) that] by (simp add: strict_prefix_def)
  with 4 show ?case by (simp add: sorted_wrt_append)
qed simp_all

subsection \<open>Removing a tree\<close>

text \<open>What has been removed when the walk is at a path is what comes before it in the order.\<close>

lemma visit_removes:
  assumes "distinct ps" "bottom_up ps" "\<And>q. q \<in> set (present s) \<and> prefix p q \<longleftrightarrow> q \<in> set ps"
  shows "\<exists>k \<le> length ps. (\<forall>i < k. removable s (ps ! i)) \<and> (k < length ps \<longrightarrow> \<not> removable s (ps ! k))
    \<and> visit remove_recursive_cb ps s =
        (if k = length ps then 0 else - 1, s\<lparr>present := filter (\<lambda>q. q \<notin> set (take k ps)) (present s)\<rparr>)"
  using assms
proof (induction ps arbitrary: s)
  case Nil
  then show ?case by simp
next
  case (Cons a ps)
  have mem: "a \<in> set (present s)" "prefix p a" using Cons.prems(3) [of a] by auto
  have "\<not> strict_prefix a q" if "q \<in> set (present s)" for q
  proof
    assume a: "strict_prefix a q"
    then have "q \<in> set (a # ps)" using Cons.prems(3) [of q] mem(2) that by (meson prefix_order.less_imp_le prefix_order.trans)
    with a Cons.prems(2) show False by auto
  qed
  then have no: "\<not> list_ex (strict_prefix a) (present s)" by (auto simp: list_ex_iff)
  show ?case
  proof (cases "removable s a")
    case False
    then show ?thesis by (intro exI [of _ 0]) (simp add: remove_recursive_cb_def remove_path_def)
  next
    case True
    let ?s = "s\<lparr>present := filter (\<lambda>q. q \<noteq> a) (present s)\<rparr>"
    have bu: "bottom_up ps" using Cons.prems(2) by simp
    have eq: "q \<in> set (present ?s) \<and> prefix p q \<longleftrightarrow> q \<in> set ps" for q using Cons.prems(1) Cons.prems(3) [of q] by auto
    obtain k where k: "k \<le> length ps" "\<forall>i < k. removable s (ps ! i)" "k < length ps \<longrightarrow> \<not> removable s (ps ! k)"
      "visit remove_recursive_cb ps ?s = (if k = length ps then 0 else - 1, ?s\<lparr>present := filter (\<lambda>q. q \<notin> set (take k ps)) (present ?s)\<rparr>)"
      using Cons.IH [OF _ bu eq] Cons.prems(1) by auto
    have "remove_recursive_cb a s = (0, ?s)" using True mem(1) no by (simp add: remove_recursive_cb_def remove_path_def)
    moreover have "\<forall>i < Suc k. removable s ((a # ps) ! i)" using k(2) True by (auto simp: less_Suc_eq_0_disj)
    ultimately show ?thesis using k by (intro exI [of _ "Suc k"]) (simp add: conj_commute)
  qed
qed

text \<open>The tree at a path is what the file system has there.\<close>

definition tree_at :: "path \<Rightarrow> entry \<Rightarrow> file_system \<Rightarrow> bool" where
  "tree_at p e s \<longleftrightarrow> well_named e \<and> {q \<in> set (present s). prefix p q} = set (post_order p e)"

text \<open>
  Functional behaviour: \<open>remove_recursive\<close> removes the tree at the path from the bottom up. When every entry may be removed it returns 0, nothing is
  left at or under the path and nothing else has changed; otherwise it returns -1, with the entries before the first that may not be removed gone
  and that one still there.
\<close>

theorem remove_recursive_correct:
  assumes "tree_at p e s"
  shows "if list_all (removable s) (post_order p e)
    then remove_recursive p (Some e) s = (0, s\<lparr>present := filter (\<lambda>q. \<not> prefix p q) (present s)\<rparr>)
    else \<exists>done stuck rest. post_order p e = done @ stuck # rest \<and> list_all (removable s) done \<and> \<not> removable s stuck
      \<and> remove_recursive p (Some e) s = (- 1, s\<lparr>present := filter (\<lambda>q. q \<notin> set done) (present s)\<rparr>)
      \<and> check_file_exists stuck (snd (remove_recursive p (Some e) s)) = 1"
proof -
  let ?ps = "post_order p e"
  have t: "well_named e" "\<And>q. q \<in> set (present s) \<and> prefix p q \<longleftrightarrow> q \<in> set ?ps" using assms by (auto simp: tree_at_def)
  obtain k where k: "k \<le> length ?ps" "\<forall>i < k. removable s (?ps ! i)" "k < length ?ps \<longrightarrow> \<not> removable s (?ps ! k)"
    and v: "visit remove_recursive_cb ?ps s = (if k = length ?ps then 0 else - 1, s\<lparr>present := filter (\<lambda>q. q \<notin> set (take k ?ps)) (present s)\<rparr>)"
    using visit_removes [of ?ps s p, OF order_distinct(1) [OF t(1)] order_bottom_up(1) [OF t(1)] t(2)]
    by (elim exE conjE) (auto intro: that)
  have r: "remove_recursive p (Some e) s = (if k = length ?ps then 0 else - 1, s\<lparr>present := filter (\<lambda>q. q \<notin> set (take k ?ps)) (present s)\<rparr>)"
    using v by (simp add: remove_recursive_def nftw_is_visit)
  show ?thesis
  proof (cases "k = length ?ps")
    case True
    then have "list_all (removable s) ?ps" using k(2) by (simp add: list_all_length)
    moreover have "filter (\<lambda>q. q \<notin> set ?ps) (present s) = filter (\<lambda>q. \<not> prefix p q) (present s)"
      using t(2) by (intro filter_cong) auto
    ultimately show ?thesis using True r by simp
  next
    case False
    then have lt: "k < length ?ps" using k(1) by simp
    have split: "?ps = take k ?ps @ ?ps ! k # drop (Suc k) ?ps" using lt by (rule id_take_nth_drop)
    have "?ps ! k \<notin> set (take k ?ps)" using order_distinct(1) [OF t(1), of p] lt by (auto simp: in_set_conv_nth nth_eq_iff_index_eq)
    moreover have "?ps ! k \<in> set (present s)" using t(2) nth_mem [OF lt] by blast
    ultimately have "check_file_exists (?ps ! k) (snd (remove_recursive p (Some e) s)) = 1" using r by (simp add: check_file_exists_def)
    moreover have "list_all (removable s) (take k ?ps)" using k(2) lt by (simp add: list_all_length)
    moreover have "\<not> list_all (removable s) ?ps" using k(3) lt by (auto simp: list_all_length)
    moreover have "remove_recursive p (Some e) s = (- 1, s\<lparr>present := filter (\<lambda>q. q \<notin> set (take k ?ps)) (present s)\<rparr>)"
      using r False by simp
    moreover have "\<not> removable s (?ps ! k)" using k(3) lt by blast
    ultimately show ?thesis using split by (simp only: if_False) blast
  qed
qed

theorem remove_recursive_correct_witness:
  "remove_recursive [''a''] (Some (Dir [(''x'', Leaf), (''y'', Dir [(''z'', Leaf)])]))
     \<lparr>present = [[''a''], [''b''], [''a'', ''x''], [''a'', ''y''], [''a'', ''y'', ''z'']], removable = (\<lambda>p. True)\<rparr>
     = (0, \<lparr>present = [[''b'']], removable = (\<lambda>p. True)\<rparr>)"
proof -
  let ?e = "Dir [(''x'', Leaf), (''y'', Dir [(''z'', Leaf)])]"
  let ?s = "\<lparr>present = [[''a''], [''b''], [''a'', ''x''], [''a'', ''y''], [''a'', ''y'', ''z'']], removable = (\<lambda>p. True)\<rparr>"
  have "{q \<in> set (present ?s). prefix [''a''] q} = set (post_order [''a''] ?e)" by auto
  then have "tree_at [''a''] ?e ?s" by (simp add: tree_at_def)
  from remove_recursive_correct [OF this] show ?thesis by simp
qed

end
