(* ===== verification/Logging.thy ===== *)
theory Logging
  imports Prelude
begin

text \<open>
  The leveled output of \<open>log.c\<close> and the calls that \<open>log.h\<close> makes of it.

  The state is the level and the text written to \<open>stderr\<close>. Formatting is that of the C library: \<open>log_printf\<close> gets the text that \<open>vfprintf\<close> makes
  of the format and its arguments; the two formats that the file uses itself, \<open>%02X\<close> and \<open>%d\<close>, are written out.
\<close>

subsection \<open>Definitions\<close>

record logger =
  log_lv :: int
  stderr :: string

datatype log_level = LOG_LEVEL_OFF | LOG_LEVEL_FATAL | LOG_LEVEL_ERROR | LOG_LEVEL_WARNING | LOG_LEVEL_INFO | LOG_LEVEL_DEBUG | LOG_LEVEL_VERBOSE

fun level_number :: "log_level \<Rightarrow> int" where
  "level_number LOG_LEVEL_OFF = 0"
| "level_number LOG_LEVEL_FATAL = 1"
| "level_number LOG_LEVEL_ERROR = 2"
| "level_number LOG_LEVEL_WARNING = 3"
| "level_number LOG_LEVEL_INFO = 4"
| "level_number LOG_LEVEL_DEBUG = 5"
| "level_number LOG_LEVEL_VERBOSE = 6"

definition logger0 :: logger where
  "logger0 = \<lparr>log_lv = level_number LOG_LEVEL_INFO, stderr = []\<rparr>"

definition log_level_set :: "int \<Rightarrow> logger \<Rightarrow> logger" where
  "log_level_set lv s = s\<lparr>log_lv := lv\<rparr>"

definition log_printf :: "int \<Rightarrow> string \<Rightarrow> logger \<Rightarrow> int \<times> logger" where
  "log_printf lv txt s = (if lv > log_lv s then (0, s) else (0, s\<lparr>stderr := stderr s @ txt\<rparr>))"

lemma next_index: "i < size1 \<Longrightarrow> unat (i + 1) = Suc (unat (i :: u32))"
  using unat_lt32 [of size1] unat_add_small [of i 1] by (simp add: word_less_unat)

text \<open>\<open>printf\<close>'s \<open>%02X\<close> of a byte and \<open>%d\<close> of a line number.\<close>

definition hex_digit :: "nat \<Rightarrow> char" where
  "hex_digit d = ''0123456789ABCDEF'' ! d"

definition hex2 :: "u8 \<Rightarrow> string" where
  "hex2 b = [hex_digit (unat b div 16), hex_digit (unat b mod 16)]"

fun decimal :: "nat \<Rightarrow> string" where
  "decimal n = (if n < 10 then [hex_digit n] else decimal (n div 10) @ [hex_digit (n mod 10)])"

declare decimal.simps [simp del]

function hexdump_loop :: "int \<Rightarrow> bytes \<Rightarrow> u32 \<Rightarrow> u32 \<Rightarrow> logger \<Rightarrow> logger option" where
  "hexdump_loop lv data size1 i s =
     (if i < size1
      then do {
        b \<leftarrow> mem_load data (unat i);
        hexdump_loop lv data size1 (i + 1) (snd (log_printf lv (hex2 b @ '' '') s)) }
      else Some s)"
  by pat_completeness auto

termination
proof (relation "measure (\<lambda>(lv, data, size1, i, s). unat size1 - unat i)")
  fix lv data s b and i size1 :: u32
  assume "i < size1"
  then have "unat (i + 1) = unat i + 1" "unat i < unat size1" using next_index by (simp_all add: word_nat)
  then show "((lv, data, size1, i + 1, snd (log_printf lv (hex2 b @ '' '') s)), lv, data, size1, i, s)
      \<in> measure (\<lambda>(lv, data, size1, i, s). unat size1 - unat i)" by simp
qed simp

declare hexdump_loop.simps [simp del]

definition newline :: string where
  "newline = [CHR 0x0D, CHR 0x0A]"

definition log_hexdump :: "int \<Rightarrow> bytes \<Rightarrow> u32 \<Rightarrow> logger \<Rightarrow> logger option" where
  "log_hexdump lv data size1 s = map_option (\<lambda>s. snd (log_printf lv newline s)) (hexdump_loop lv data size1 0 s)"

text \<open>\<open>log_assert\<close> does not return; the result is the exit code.\<close>

definition log_assert :: "string \<Rightarrow> nat \<Rightarrow> logger \<Rightarrow> int \<times> logger" where
  "log_assert p_file line s =
     (- 1, snd (log_printf (level_number LOG_LEVEL_FATAL) (''assert failed in <'' @ p_file @ ''>, line '' @ decimal line @ newline) s))"

subsection \<open>Properties\<close>

lemma log_printf_text:
  "stderr (snd (log_printf lv txt s)) = stderr s @ (if lv \<le> log_lv s then txt else [])"
  "log_lv (snd (log_printf lv txt s)) = log_lv s"
  by (simp_all add: log_printf_def)

lemma logger_eqI: "stderr s = stderr t \<Longrightarrow> log_lv s = log_lv t \<Longrightarrow> s = (t :: logger)"
  by simp

text \<open>A log level admits what is not above it: nothing is written at \<open>LOG_LEVEL_OFF\<close>, and at the level a program starts with everything but
  debugging output is.\<close>

lemma default_level_admits:
  "stderr (snd (log_printf (level_number l) txt logger0)) = (if l = LOG_LEVEL_DEBUG \<or> l = LOG_LEVEL_VERBOSE then [] else txt)"
  by (cases l) (simp_all add: log_printf_text logger0_def)

lemma level_off_is_silent:
  "l \<noteq> LOG_LEVEL_OFF \<Longrightarrow> snd (log_printf (level_number l) txt (log_level_set (level_number LOG_LEVEL_OFF) s)) = log_level_set 0 s"
  by (cases l) (simp_all add: log_printf_def log_level_set_def)

lemma hexdump_loop_text:
  assumes "unat size1 \<le> length data"
  shows "\<exists>s'. hexdump_loop lv data size1 i s = Some s' \<and> log_lv s' = log_lv s
    \<and> stderr s' = stderr s @ (if lv \<le> log_lv s then concat (map (\<lambda>b. hex2 b @ '' '') (drop (unat i) (take (unat size1) data))) else [])"
  using assms
proof (induction lv data size1 i s rule: hexdump_loop.induct)
  case (1 lv data size1 i s)
  show ?case
  proof (cases "i < size1")
    case True
    then have lt: "unat i < unat size1" by (simp add: word_less_nat_alt)
    then have b: "mem_load data (unat i) = Some (data ! unat i)" using "1.prems" by (simp add: mem_simps)
    have suc: "unat (i + 1) = Suc (unat i)" using True by (rule next_index)
    have cons: "drop (unat i) (take (unat size1) data) = data ! unat i # drop (unat (i + 1)) (take (unat size1) data)"
      using lt "1.prems" suc by (simp add: Cons_nth_drop_Suc [symmetric])
    show ?thesis
      using "1.IH" [OF True b "1.prems"] True b by (subst hexdump_loop.simps) (auto simp: cons log_printf_text)
  next
    case False
    then have "unat size1 \<le> unat i" by (simp add: word_less_nat_alt)
    then show ?thesis using False by (subst hexdump_loop.simps) simp
  qed
qed

text \<open>
  Functional behaviour: \<open>log_hexdump\<close> reads only the bytes it is given and writes two digits and a blank for each and an end of line, or, above the
  level, nothing at all.
\<close>

theorem log_hexdump_correct:
  assumes "unat size1 \<le> length data"
  shows "log_hexdump lv data size1 s =
    Some (if lv \<le> log_lv s then s\<lparr>stderr := stderr s @ concat (map (\<lambda>b. hex2 b @ '' '') (take (unat size1) data)) @ newline\<rparr> else s)"
proof -
  from hexdump_loop_text [OF assms, of lv 0 s] obtain s' where s': "hexdump_loop lv data size1 0 s = Some s'" "log_lv s' = log_lv s"
    "stderr s' = stderr s @ (if lv \<le> log_lv s then concat (map (\<lambda>b. hex2 b @ '' '') (take (unat size1) data)) else [])" by auto
  then show ?thesis by (auto simp: log_hexdump_def log_printf_def intro!: logger_eqI)
qed

theorem log_hexdump_correct_witness:
  "log_hexdump 4 [0, 0x9A, 0xFF] 2 logger0 = Some \<lparr>log_lv = 4, stderr = ''00 9A '' @ newline\<rparr>"
  using log_hexdump_correct [of 2 "[0, 0x9A, 0xFF]" 4 logger0] by (simp add: logger0_def hex2_def hex_digit_def)

text \<open>Different bytes have different texts, so a dump can be read back.\<close>

lemma hex_digit_inj:
  assumes "d < 16" "e < 16"
  shows "hex_digit d = hex_digit e \<longleftrightarrow> d = e"
proof -
  have "distinct (''0123456789ABCDEF'' :: string)" "length (''0123456789ABCDEF'' :: string) = 16" by simp_all
  then show ?thesis using assms unfolding hex_digit_def by (metis nth_eq_iff_index_eq)
qed

lemma hex2_inj: "hex2 a = hex2 b \<longleftrightarrow> a = b"
proof
  assume "hex2 a = hex2 b"
  moreover have "unat a div 16 < 16" "unat b div 16 < 16" using unat_lt8 [of a] unat_lt8 [of b] by simp_all
  ultimately have "unat a div 16 = unat b div 16" "unat a mod 16 = unat b mod 16" by (simp_all add: hex2_def hex_digit_inj)
  then show "a = b" by (metis div_mult_mod_eq word_unat_eq_iff)
qed simp

lemma hex2_length [simp]: "length (hex2 b) = 2"
  by (simp add: hex2_def)

lemma hexdump_readable:
  "concat (map (\<lambda>b. hex2 b @ '' '') xs) = concat (map (\<lambda>b. hex2 b @ '' '') ys) \<longleftrightarrow> xs = ys"
proof (induction xs arbitrary: ys)
  case (Cons x xs)
  then show ?case by (cases ys) (simp_all add: hex2_inj)
next
  case Nil
  show ?case by (cases ys) simp_all
qed

end
