(* ===== verification/Clocks.thy ===== *)
theory Clocks
  imports Prelude
begin

text \<open>
  The clocks of \<open>sys_tickclk.h\<close> and \<open>g_systick.c\<close> and the probes of \<open>io_probe.h\<close>.

  The results of the POSIX calls, the range of the real-time signals and what a probe does to its pin are inputs and recorded effects.
\<close>

subsection \<open>The monotonic clock in milliseconds\<close>

record timespec =
  tv_sec :: int
  tv_nsec :: int

definition sys_tickclk :: "timespec \<Rightarrow> int" where
  "sys_tickclk ts = tv_sec ts * 1000 + tv_nsec ts div 1000000"

definition valid_time :: "timespec \<Rightarrow> bool" where
  "valid_time t \<longleftrightarrow> 0 \<le> tv_sec t \<and> 0 \<le> tv_nsec t \<and> tv_nsec t < 1000000000"

text \<open>Milliseconds are those of the clock, rounded down, and do not run backwards.\<close>

lemma sys_tickclk_floor:
  assumes "valid_time t"
  shows "sys_tickclk t = (tv_sec t * 1000000000 + tv_nsec t) div 1000000"
proof -
  have "(tv_nsec t + tv_sec t * 1000 * 1000000) div 1000000 = tv_sec t * 1000 + tv_nsec t div 1000000"
    by (rule div_mult_self1) simp
  then show ?thesis by (simp add: sys_tickclk_def algebra_simps)
qed

lemma sys_tickclk_mono:
  "valid_time t \<Longrightarrow> valid_time u \<Longrightarrow> tv_sec t * 1000000000 + tv_nsec t \<le> tv_sec u * 1000000000 + tv_nsec u \<Longrightarrow> sys_tickclk t \<le> sys_tickclk u"
  by (simp add: sys_tickclk_floor zdiv_mono1)

text \<open>The result fits in 64 bits for the next 292 million years.\<close>

lemma sys_tickclk_fits: "valid_time t \<Longrightarrow> tv_sec t < 2 ^ 53 \<Longrightarrow> sys_tickclk t < 2 ^ 63"
proof -
  assume a: "valid_time t" "tv_sec t < 2 ^ 53"
  then have "tv_nsec t div 1000000 < 1000" by (simp add: valid_time_def) linarith
  then have "sys_tickclk t < (tv_sec t + 1) * 1000" by (simp add: sys_tickclk_def)
  also have "(tv_sec t + 1) * 1000 \<le> 2 ^ 53 * 1000" using a(2) by simp
  finally show ?thesis by simp
qed

subsection \<open>Periodic timers\<close>

text \<open>\<open>next_sig\<close> is the static variable, 0 before the first call; \<open>sig\<close> and the interval are what the caller's structure and the timer get.\<close>

record periodic =
  next_sig :: int
  signal :: int
  interval :: "(u32 \<times> u32) option"

definition make_periodic :: "int \<Rightarrow> int \<Rightarrow> int \<Rightarrow> int \<Rightarrow> u32 \<Rightarrow> periodic \<Rightarrow> int \<times> periodic" where
  "make_periodic SIGRTMIN SIGRTMAX created settime period s =
     (let s = (if next_sig s = 0 then s\<lparr>next_sig := SIGRTMIN\<rparr> else s)
      in if next_sig s > SIGRTMAX then (- 1, s)
         else
           (let s = s\<lparr>signal := next_sig s, next_sig := next_sig s + 1\<rparr>
            in if created = - 1 then (created, s)
               else
                 (let sec = period div 1000000;
                      ns = (period - (sec * 1000000)) * 1000
                  in (settime, s\<lparr>interval := Some (sec, ns)\<rparr>))))"

text \<open>One turn of the thread that counts the milliseconds.\<close>

definition thread_1_turn :: "u32 \<Rightarrow> u32" where
  "thread_1_turn g_systick = g_systick + 10"

lemma period_split:
  fixes period :: u32
  shows "unat (period div 1000000) * 1000000000 + unat ((period - period div 1000000 * 1000000) * 1000) = unat period * 1000"
    "unat ((period - period div 1000000 * 1000000) * 1000) < 1000000000"
proof -
  have rest: "period - period div 1000000 * 1000000 = period mod 1000000" by (simp add: minus_div_mult_eq_mod)
  have "unat (period mod 1000000) < 1000000" by (simp add: unat_mod)
  then have ns: "unat ((period mod 1000000) * 1000) = unat (period mod 1000000) * 1000"
    by (simp add: unat_word_ariths)
  then show "unat ((period - period div 1000000 * 1000000) * 1000) < 1000000000" using \<open>unat (period mod 1000000) < 1000000\<close> rest by simp
  have "unat period = unat (period div 1000000) * 1000000 + unat (period mod 1000000)" by (simp add: unat_div unat_mod)
  then show "unat (period div 1000000) * 1000000000 + unat ((period - period div 1000000 * 1000000) * 1000) = unat period * 1000"
    using ns rest by simp
qed

text \<open>
  A timer whose creation succeeds gets exactly the period asked for, as valid seconds and nanoseconds, and its own signal; when the signals are
  used up the call fails and changes nothing.
\<close>

theorem make_periodic_correct:
  assumes "0 < lo" "next_sig s = 0 \<or> lo \<le> next_sig s" "created \<noteq> - 1"
  shows "case make_periodic lo hi created settime period s of (r, s') \<Rightarrow>
    (let taken = (if next_sig s = 0 then lo else next_sig s)
     in if hi < taken then r = - 1 \<and> interval s' = interval s \<and> signal s' = signal s
        else r = settime \<and> signal s' = taken \<and> next_sig s' = taken + 1
          \<and> (\<exists>sec ns. interval s' = Some (sec, ns) \<and> unat ns < 1000000000 \<and> unat sec * 1000000000 + unat ns = unat period * 1000))"
  using assms period_split [of period] by (auto simp: make_periodic_def Let_def)

theorem make_periodic_correct_witness:
  "make_periodic 34 64 0 0 2500000 \<lparr>next_sig = 0, signal = 0, interval = None\<rparr>
     = (0, \<lparr>next_sig = 35, signal = 34, interval = Some (2, 500000000)\<rparr>)
   \<and> 2 * 1000000000 + 500000000 = unat (2500000 :: u32) * 1000"
  using make_periodic_correct [of 34 "\<lparr>next_sig = 0, signal = 0, interval = None\<rparr>" 0 64 0 2500000] by (simp add: make_periodic_def)

subsection \<open>Probes\<close>

text \<open>\<open>io_func\<close> is called with the pin and its new level; the calls are recorded. \<open>None\<close> is an overflow of the counter.\<close>

record io_probe =
  pin :: int
  nesting :: int
  calls :: "(int \<times> int) list"

definition io_probe_entry :: "io_probe \<Rightarrow> (int \<times> io_probe) option" where
  "io_probe_entry obj =
     (let obj = (if nesting obj = 0 then obj\<lparr>calls := calls obj @ [(pin obj, 1)]\<rparr> else obj)
      in if nesting obj = 2147483647 then None else Some (nesting obj, obj\<lparr>nesting := nesting obj + 1\<rparr>))"

definition io_probe_exit :: "io_probe \<Rightarrow> io_probe option" where
  "io_probe_exit obj =
     (if nesting obj = - 2147483648 then None
      else let obj = obj\<lparr>nesting := nesting obj - 1\<rparr>
           in Some (if nesting obj = 0 then obj\<lparr>calls := calls obj @ [(pin obj, 0)]\<rparr> else obj))"

datatype probe_op = Enter | Leave

fun probe_run :: "probe_op list \<Rightarrow> io_probe \<Rightarrow> io_probe option" where
  "probe_run [] obj = Some obj"
| "probe_run (Enter # ops) obj = (case io_probe_entry obj of None \<Rightarrow> None | Some (v, obj) \<Rightarrow> probe_run ops obj)"
| "probe_run (Leave # ops) obj = (case io_probe_exit obj of None \<Rightarrow> None | Some obj \<Rightarrow> probe_run ops obj)"

text \<open>Runs that never leave more often than they enter.\<close>

fun nested :: "nat \<Rightarrow> probe_op list \<Rightarrow> bool" where
  "nested d [] \<longleftrightarrow> True"
| "nested d (Enter # ops) \<longleftrightarrow> nested (Suc d) ops"
| "nested d (Leave # ops) \<longleftrightarrow> 0 < d \<and> nested (d - 1) ops"

fun depth :: "nat \<Rightarrow> probe_op list \<Rightarrow> nat" where
  "depth d [] = d"
| "depth d (Enter # ops) = depth (Suc d) ops"
| "depth d (Leave # ops) = depth (d - 1) ops"

text \<open>The levels a pin has had alternate and start high.\<close>

definition levels :: "int \<Rightarrow> bool \<Rightarrow> (int \<times> int) list \<Rightarrow> bool" where
  "levels p high cs \<longleftrightarrow> (\<exists>n. cs = concat (replicate n [(p, 1), (p, 0)]) @ (if high then [(p, 1)] else []))"

lemma levels_on: "levels p False cs \<Longrightarrow> levels p True (cs @ [(p, 1)])"
  by (auto simp: levels_def)

lemma levels_off: "levels p True cs \<Longrightarrow> levels p False (cs @ [(p, 0)])"
proof -
  assume "levels p True cs"
  then obtain n where "cs = concat (replicate n [(p, 1), (p, 0)]) @ [(p, 1)]" by (auto simp: levels_def)
  then have "cs @ [(p, 0)] = concat (replicate (Suc n) [(p, 1), (p, 0)])" by (simp add: replicate_append_same [symmetric])
  then show ?thesis unfolding levels_def by (metis append_Nil2)
qed

text \<open>
  Invariant: in a run that leaves no more often than it enters, the counter is the nesting depth and the pin is switched only at the outermost
  entries and exits: it is high exactly while the depth is positive.
\<close>

theorem probe_levels:
  assumes "nested 0 ops" "length ops < 2147483647"
  shows "\<exists>cs. probe_run ops \<lparr>pin = p, nesting = 0, calls = []\<rparr> = Some \<lparr>pin = p, nesting = int (depth 0 ops), calls = cs\<rparr>
    \<and> levels p (0 < depth 0 ops) cs"
proof -
  have "\<exists>cs'. probe_run ops \<lparr>pin = p, nesting = int d, calls = cs\<rparr> = Some \<lparr>pin = p, nesting = int (depth d ops), calls = cs'\<rparr>
      \<and> levels p (0 < depth d ops) cs'"
    if "nested d ops" "d + length ops < 2147483647" "levels p (0 < d) cs" for d cs
    using that
  proof (induction ops arbitrary: d cs)
    case (Cons op ops)
    show ?case
    proof (cases op)
      case Enter
      let ?cs = "if d = 0 then cs @ [(p, 1)] else cs"
      have "levels p True ?cs" using Cons.prems(3) levels_on by (cases d) simp_all
      then show ?thesis using Cons.IH [of "Suc d" ?cs] Cons.prems Enter by (auto simp: io_probe_entry_def Let_def add.commute)
    next
      case Leave
      then obtain e where d: "d = Suc e" using Cons.prems(1) by (cases d) auto
      let ?cs = "if e = 0 then cs @ [(p, 0)] else cs"
      have "levels p (0 < e) ?cs" using Cons.prems(3) d levels_off by (cases e) simp_all
      then show ?thesis using Cons.IH [of e ?cs] Cons.prems Leave d by (auto simp: io_probe_exit_def Let_def)
    qed
  qed auto
  from this [of 0 "[]"] assms show ?thesis by (simp add: levels_def)
qed

theorem probe_levels_witness:
  "probe_run [Enter, Enter, Leave, Leave, Enter] \<lparr>pin = 7, nesting = 0, calls = []\<rparr>
     = Some \<lparr>pin = 7, nesting = 1, calls = [(7, 1), (7, 0), (7, 1)]\<rparr>
   \<and> levels 7 True [(7, 1), (7, 0), (7, 1)]"
  using probe_levels [of "[Enter, Enter, Leave, Leave, Enter]" 7]
  by (simp add: io_probe_entry_def io_probe_exit_def Let_def)

text \<open>One exit too many leaves the counter below the depth: the next section is not shown on the pin.\<close>

lemma stray_exit_hides_section:
  "probe_run [Leave, Enter, Leave, Enter] \<lparr>pin = p, nesting = 0, calls = []\<rparr> = Some \<lparr>pin = p, nesting = 0, calls = []\<rparr>"
  by (simp add: io_probe_entry_def io_probe_exit_def Let_def)

end
