(* ===== verification/Split_String.thy ===== *)
theory Split_String
  imports Prelude "HOL-Library.Sublist"
begin

text \<open>
  \<open>split_string\<close> of \<open>split_string.hpp\<close>, over strings of any characters. \<open>find_at\<close> and \<open>substr\<close> are the members of \<open>std::basic_string\<close>; \<open>None\<close>
  is \<open>npos\<close>. The loop need not end: not returning is the value \<open>None\<close>.
\<close>

subsection \<open>Definitions\<close>

fun search :: "'a list \<Rightarrow> 'a list \<Rightarrow> nat option" where
  "search d [] = (if d = [] then Some 0 else None)"
| "search d (x # xs) = (if prefix d (x # xs) then Some 0 else map_option Suc (search d xs))"

definition find_at :: "'a list \<Rightarrow> 'a list \<Rightarrow> nat \<Rightarrow> nat option" where
  "find_at s d from = (if length s < from then None else map_option ((+) from) (search d (drop from s)))"

definition substr :: "'a list \<Rightarrow> nat \<Rightarrow> nat option \<Rightarrow> 'a list" where
  "substr s pos n = (case n of None \<Rightarrow> drop pos s | Some n \<Rightarrow> take n (drop pos s))"

partial_function (option) split_loop :: "'a list \<Rightarrow> 'a list \<Rightarrow> nat \<Rightarrow> 'a list list \<Rightarrow> 'a list list option" where
  "split_loop s d from res =
     (case find_at s d from of
        None \<Rightarrow> Some (res @ [substr s from None])
      | Some to \<Rightarrow> split_loop s d (to + length d) (res @ [substr s from (Some (to - from))]))"

definition split_string :: "'a list \<Rightarrow> 'a list \<Rightarrow> 'a list list option" where
  "split_string s delim = split_loop s delim 0 []"

subsection \<open>Reference\<close>

fun join :: "'a list \<Rightarrow> 'a list list \<Rightarrow> 'a list" where
  "join d [] = []"
| "join d [x] = x"
| "join d (x # y # xs) = x @ d @ join d (y # xs)"

lemma join_append: "xs \<noteq> [] \<Longrightarrow> join d (xs @ [y]) = join d xs @ d @ y"
  by (induction d xs rule: join.induct) auto

text \<open>\<open>search\<close> finds the first place.\<close>

lemma search_None: "search d xs = None \<longleftrightarrow> \<not> sublist d xs"
  by (induction xs) (auto simp: sublist_Cons_right)

lemma search_Some: "search d xs = Some n \<Longrightarrow> xs = take n xs @ d @ drop (n + length d) xs \<and> n + length d \<le> length xs"
proof (induction xs arbitrary: n)
  case (Cons x xs)
  show ?case
  proof (cases "prefix d (x # xs)")
    case True
    then show ?thesis using Cons.prems prefix_length_le [OF True] by (auto simp: prefix_def)
  next
    case False
    then obtain m where "search d xs = Some m" "n = Suc m" using Cons.prems by auto
    then show ?thesis using Cons.IH [of m] by simp
  qed
qed (auto split: if_splits)

text \<open>The piece in front has no delimiter, not even one that begins in it and ends at the next one found.\<close>

lemma search_first: "search d xs = Some n \<Longrightarrow> m < n \<Longrightarrow> \<not> prefix d (drop m xs)"
proof (induction xs arbitrary: n m)
  case (Cons x xs)
  then have np: "\<not> prefix d (x # xs)" by (auto split: if_splits)
  with Cons.prems obtain k where "search d xs = Some k" "n = Suc k" by auto
  with Cons.IH [of k] Cons.prems(2) np show ?case by (cases m) auto
qed (auto split: if_splits)

lemma search_piece: "search d xs = Some n \<Longrightarrow> d \<noteq> [] \<Longrightarrow> \<not> sublist d (take n xs)"
proof
  assume n: "search d xs = Some n" and "d \<noteq> []" "sublist d (take n xs)"
  then obtain a b where ab: "take n xs = a @ d @ b" by (auto simp: sublist_def)
  have "xs = a @ d @ b @ drop n xs" using ab append_take_drop_id [of n xs] by (metis append.assoc)
  then have "prefix d (drop (length a) xs)" by (metis append_eq_conv_conj prefixI)
  moreover have "length a < n" using ab \<open>d \<noteq> []\<close> by (metis append_Nil2 le_less_trans length_append length_greater_0_conv length_take less_add_same_cancel1 add_gr_0 min.cobounded2 min.bounded_iff leI le_add1 linorder_not_le order.strict_trans1 nat_less_le)
  ultimately show False using search_first [OF n] by blast
qed

subsection \<open>Properties\<close>

lemma split_loop_correct:
  assumes "d \<noteq> []" "from \<le> length s" "list_all (\<lambda>x. \<not> sublist d x) res" "take from s = concat (map (\<lambda>x. x @ d) res)"
  shows "\<exists>ys. split_loop s d from res = Some ys \<and> join d ys = s \<and> list_all (\<lambda>x. \<not> sublist d x) ys \<and> ys \<noteq> []"
  using assms(2-)
proof (induction "length s - from" arbitrary: "from" res rule: less_induct)
  case less
  have join_map: "join d (xs @ [y]) = concat (map (\<lambda>x. x @ d) xs) @ y" for xs y
  proof (induction xs arbitrary: y rule: rev_induct)
    case (snoc x xs)
    then show ?case using join_append [of "xs @ [x]" d y] by simp
  qed simp
  show ?case
  proof (cases "find_at s d from")
    case None
    then have "\<not> sublist d (drop from s)" using less.prems(1) by (simp add: find_at_def search_None)
    moreover have "join d (res @ [drop from s]) = s" using less.prems(3) by (simp add: join_map) (metis append_take_drop_id)
    ultimately show ?thesis using None less.prems(2) by (subst split_loop.simps) (simp add: substr_def)
  next
    case (Some to)
    then obtain n where n: "search d (drop from s) = Some n" "to = from + n" using less.prems(1) by (auto simp: find_at_def)
    from search_Some [OF n(1)] have eq: "drop from s = take n (drop from s) @ d @ drop (n + length d) (drop from s)"
      and len: "from + n + length d \<le> length s" using less.prems(1) by auto
    have "take (to + length d) s = take from s @ take (n + length d) (drop from s)" using n(2) by (simp add: take_add add.assoc)
    also have "take (n + length d) (drop from s) = take n (drop from s) @ d"
      using eq len by (metis (no_types, lifting) append.assoc append_eq_append_conv append_take_drop_id)
    finally have "take (to + length d) s = concat (map (\<lambda>x. x @ d) (res @ [take n (drop from s)]))" using less.prems(3) by simp
    moreover have "list_all (\<lambda>x. \<not> sublist d x) (res @ [take n (drop from s)])" using less.prems(2) search_piece [OF n(1) assms(1)] by simp
    moreover have "length s - (to + length d) < length s - from" using assms(1) len n(2) by (cases d) auto
    ultimately have "\<exists>ys. split_loop s d (to + length d) (res @ [take n (drop from s)]) = Some ys \<and> join d ys = s
        \<and> list_all (\<lambda>x. \<not> sublist d x) ys \<and> ys \<noteq> []"
      using less.hyps [of "to + length d" "res @ [take n (drop from s)]"] len n(2) by simp
    then show ?thesis using Some n(2) by (subst split_loop.simps) (simp add: substr_def)
  qed
qed

lemma split_loop_empty:
  assumes "split_loop s d a res = Some ys"
  shows "a \<le> length s \<longrightarrow> d \<noteq> []"
proof (rule split_loop.raw_induct [OF _ assms, of "\<lambda>s d a res ys. a \<le> length s \<longrightarrow> d \<noteq> []"], intro impI notI)
  fix split and s d :: "'a list" and a res ys
  assume IH: "\<And>s d a res ys. split s d a res = Some ys \<Longrightarrow> a \<le> length s \<longrightarrow> (d :: 'a list) \<noteq> []"
    and body: "(case find_at s d a of None \<Rightarrow> Some (res @ [substr s a None])
      | Some to \<Rightarrow> split s d (to + length d) (res @ [substr s a (Some (to - a))])) = Some ys"
    and le: "a \<le> length s" and d: "d = []"
  from le d have "find_at s d a = Some a" by (cases "drop a s") (simp_all add: find_at_def)
  with body d have "split s d a (res @ [substr s a (Some 0)]) = Some ys" by simp
  from IH [OF this] le d show False by simp
qed

text \<open>
  Round trip: with a delimiter that is not empty the loop ends, the pieces joined by the delimiter are the string, and none contains the delimiter.
  With an empty one it never ends.
\<close>

theorem split_string_roundtrip:
  "if d = [] then split_string s d = None
   else \<exists>ys. split_string s d = Some ys \<and> join d ys = s \<and> list_all (\<lambda>y. \<not> sublist d y) ys \<and> ys \<noteq> []"
proof (cases "d = []")
  case True
  have "split_string s d = None"
    unfolding split_string_def using split_loop_empty [of s d 0 "[]"] True by (cases "split_loop s d 0 []") simp_all
  with True show ?thesis by simp
next
  case False
  then show ?thesis using split_loop_correct [of d 0 s "[]"] by (simp add: split_string_def)
qed

end
