(* ===== verification/Ef_Print.thy ===== *)
theory Ef_Print
  imports Prelude
begin

text \<open>
  The printing routines of Electric Fence (\<open>efence/print.c\<close>), which write to descriptor 2 without \<open>stdio\<close>. A result is the text written;
  \<open>None\<close> stands for undefined behaviour: an argument that is missing or of the wrong type, a pattern that ends after a
  percent sign (the loop then runs past the end of the string), or the negation of the smallest \<open>int\<close>.
\<close>

subsection \<open>Definitions\<close>

type_synonym ef_number = u64

definition NBBY :: nat where "NBBY = 8"

definition NUMBER_BUFFER_SIZE :: nat where "NUMBER_BUFFER_SIZE = 8 * NBBY"

datatype ending = Killed string | Exited string | Undefined

text \<open>\<open>do_abort\<close> raises SIGILL, and exits if that returns; both end the process after what has been printed.\<close>

definition do_abort :: "string \<Rightarrow> ending" where "do_abort text = Killed text"

text \<open>The buffer is filled from its end; \<open>pos\<close> is the distance of \<open>s\<close> from its start. \<open>None\<close> is the call of \<open>EF_Abort\<close>.\<close>

definition digit_char :: "ef_number \<Rightarrow> char" where
  "digit_char digit = (if digit < 10 then char_of (48 + unat digit) else char_of (97 + unat digit - 10))"

fun number_loop :: "nat \<Rightarrow> ef_number \<Rightarrow> ef_number \<Rightarrow> string \<Rightarrow> string option" where
  "number_loop 0 number base buffer = None"
| "number_loop (Suc pos) number base buffer =
     (if pos = 0 then None
      else
        (let digit = number mod base; buffer = digit_char digit # buffer; number = number div base
         in if 0 < number then number_loop pos number base buffer else Some buffer))"

definition printNumber :: "ef_number \<Rightarrow> ef_number \<Rightarrow> string option" where
  "printNumber number base = number_loop NUMBER_BUFFER_SIZE number base []"

datatype arg = Pointer u64 | Text string | Signed "32 word" | Unsigned u32 | Character char | Size u64

fun EF_Printv_with :: "(char \<Rightarrow> string option) \<Rightarrow> string \<Rightarrow> arg list \<Rightarrow> string option" where
  "EF_Printv_with bad [] args = Some []"
| "EF_Printv_with bad (c # s) args =
     (if c \<noteq> CHR ''%'' then map_option (\<lambda>t. c # t) (EF_Printv_with bad s args)
      else case s of
        [] \<Rightarrow> None
      | c # s \<Rightarrow>
          if c = CHR ''%'' then map_option (\<lambda>t. c # t) (EF_Printv_with bad s args)
          else if c = CHR ''a'' then
            (case args of Pointer p # args \<Rightarrow> do { d \<leftarrow> printNumber p 16; t \<leftarrow> EF_Printv_with bad s args; Some (d @ t) } | _ \<Rightarrow> None)
          else if c = CHR ''s'' then
            (case args of Text x # args \<Rightarrow> do { t \<leftarrow> EF_Printv_with bad s args; Some (x @ t) } | _ \<Rightarrow> None)
          else if c = CHR ''d'' then
            (case args of
               Signed n # args \<Rightarrow>
                 if n = - (2 ^ 31) then None
                 else do {
                   d \<leftarrow> printNumber (if sint n < 0 then scast (- n) else scast n) 10;
                   t \<leftarrow> EF_Printv_with bad s args;
                   Some ((if sint n < 0 then ''-'' else []) @ d @ t) }
             | _ \<Rightarrow> None)
          else if c = CHR ''x'' then
            (case args of Unsigned n # args \<Rightarrow> do { d \<leftarrow> printNumber (ucast n) 16; t \<leftarrow> EF_Printv_with bad s args; Some (d @ t) } | _ \<Rightarrow> None)
          else if c = CHR ''c'' then
            (case args of Character x # args \<Rightarrow> do { t \<leftarrow> EF_Printv_with bad s args; Some (x # t) } | _ \<Rightarrow> None)
          else do { m \<leftarrow> bad c; t \<leftarrow> EF_Printv_with bad s args; Some (m @ t) })"

text \<open>The message for an unknown specifier is printed by the same routine, with a pattern that holds only known ones.\<close>

definition bad_pattern :: string where
  "bad_pattern = ''\<newline>Bad pattern specifier %%%c in EF_Print().\<newline>''"

definition bad_specifier :: "char \<Rightarrow> string option" where
  "bad_specifier c = EF_Printv_with (\<lambda>c. None) bad_pattern [Character c]"

definition EF_Printv :: "string \<Rightarrow> arg list \<Rightarrow> string option" where
  "EF_Printv = EF_Printv_with bad_specifier"

definition EF_Print :: "string \<Rightarrow> arg list \<Rightarrow> string option" where
  "EF_Print pattern args = EF_Printv pattern args"

text \<open>The arguments of the calls that end the process: each prints its own prefix, the message and a newline.\<close>

definition framed :: "string \<Rightarrow> string \<Rightarrow> arg list \<Rightarrow> string option" where
  "framed prefix pattern args = do {
     a \<leftarrow> EF_Print prefix []; b \<leftarrow> EF_Printv pattern args; c \<leftarrow> EF_Print ''\<newline>'' []; Some (a @ b @ c) }"

definition ending_of :: "(string \<Rightarrow> ending) \<Rightarrow> string option \<Rightarrow> ending" where
  "ending_of e t = (case t of None \<Rightarrow> Undefined | Some x \<Rightarrow> e x)"

definition EF_Abortv :: "string \<Rightarrow> arg list \<Rightarrow> ending" where
  "EF_Abortv pattern args = ending_of do_abort (framed ''\<newline>ElectricFence Aborting: '' pattern args)"

definition EF_Abort :: "string \<Rightarrow> arg list \<Rightarrow> ending" where
  "EF_Abort pattern args = EF_Abortv pattern args"

definition EF_Exitv :: "string \<Rightarrow> arg list \<Rightarrow> ending" where
  "EF_Exitv pattern args = ending_of Exited (framed ''\<newline>ElectricFence Exiting: '' pattern args)"

definition EF_Exit :: "string \<Rightarrow> arg list \<Rightarrow> ending" where
  "EF_Exit pattern args = EF_Exitv pattern args"

definition EF_InternalError :: "string \<Rightarrow> arg list \<Rightarrow> ending" where
  "EF_InternalError pattern args = ending_of do_abort (framed ''\<newline>Internal error in allocator: '' pattern args)"

subsection \<open>Numbers\<close>

definition digit_val :: "char \<Rightarrow> nat" where
  "digit_val c = (if of_char c < (58 :: nat) then of_char c - 48 else of_char c - 87)"

definition value_of :: "nat \<Rightarrow> string \<Rightarrow> nat" where
  "value_of b text = foldl (\<lambda>v c. v * b + digit_val c) 0 text"

definition numeral_text :: "nat \<Rightarrow> nat \<Rightarrow> string \<Rightarrow> bool" where
  "numeral_text b n text \<longleftrightarrow> value_of b text = n \<and> text \<noteq> [] \<and> list_all (\<lambda>c. digit_val c < b) text
     \<and> (digit_val (hd text) = 0 \<longrightarrow> length text = 1)"

lemma digit_val_char: "unat d < 36 \<Longrightarrow> digit_val (digit_char d) = unat d"
  by (auto simp: digit_val_def digit_char_def of_char_of word_less_nat_alt take_bit_nat_eq_self)

lemma value_of_snoc: "value_of b (xs @ [c]) = value_of b xs * b + digit_val c"
  by (simp add: value_of_def)

lemma numeral_text_digit: "digit_val c = n \<Longrightarrow> n < b \<Longrightarrow> numeral_text b n [c]"
  by (simp add: numeral_text_def value_of_def)

lemma number_loop_spec:
  assumes "2 \<le> unat base" "unat base \<le> 36"
  shows "0 < pos \<Longrightarrow> unat n < unat base ^ pos \<Longrightarrow>
      \<exists>ds. number_loop (Suc pos) n base acc = Some (ds @ acc) \<and> numeral_text (unat base) (unat n) ds"
    and "unat base ^ pos \<le> unat n \<Longrightarrow> number_loop (Suc pos) n base acc = None"
proof (induction pos arbitrary: n acc)
  case (Suc pos)
  let ?b = "unat base"
  have d: "digit_val (digit_char (n mod base)) = unat n mod ?b" "unat n mod ?b < ?b" for n
  proof -
    show less: "unat n mod ?b < ?b" using assms(1) by simp
    then show "digit_val (digit_char (n mod base)) = unat n mod ?b" using assms(2) by (simp add: digit_val_char unat_mod)
  qed
  have pos_iff: "0 < n div base \<longleftrightarrow> 0 < unat n div ?b" for n
    by (simp add: word_greater_zero_iff flip: unat_div unat_gt_0)
  have step: "number_loop (Suc (Suc pos)) n base acc =
      (if 0 < n div base then number_loop (Suc pos) (n div base) base (digit_char (n mod base) # acc) else Some (digit_char (n mod base) # acc))"
    for n acc by (simp del: number_loop.simps add: number_loop.simps(2) [of "Suc pos"] Let_def)
  { case 1
    show ?case
    proof (cases "0 < unat n div ?b")
      case False
      then have n: "unat n < ?b" using assms(1) by (auto simp: div_eq_0_iff)
      then have "digit_val (digit_char (n mod base)) = unat n" using d(1) by (metis mod_less)
      then have "numeral_text ?b (unat n) [digit_char (n mod base)]" using n by (rule numeral_text_digit)
      then show ?thesis using step False pos_iff by (intro exI [of _ "[digit_char (n mod base)]"]) simp
    next
      case True
      have "unat n div ?b < ?b ^ pos" using 1(2) by (simp add: less_mult_imp_div_less mult.commute)
      then have small: "unat (n div base) < ?b ^ pos" by (simp add: unat_div)
      have "0 < pos" using small True by (cases pos) (auto simp: unat_div)
      with Suc.IH(1) [OF _ small] obtain ds where ds: "number_loop (Suc pos) (n div base) base (digit_char (n mod base) # acc) = Some (ds @ digit_char (n mod base) # acc)"
        "numeral_text ?b (unat n div ?b) ds" by (metis unat_div)
      have nz: "digit_val (hd ds) \<noteq> 0"
      proof
        assume z: "digit_val (hd ds) = 0"
        then obtain c where "ds = [c]" using ds(2) by (auto simp: numeral_text_def length_Suc_conv)
        with z ds(2) True show False by (simp add: numeral_text_def value_of_def)
      qed
      have "numeral_text ?b (unat n) (ds @ [digit_char (n mod base)])"
        using ds(2) d nz by (auto simp: numeral_text_def value_of_snoc hd_append)
      then show ?thesis using step True pos_iff ds(1) by (intro exI [of _ "ds @ [digit_char (n mod base)]"]) simp
    qed
  next
    case 2
    then have "?b ^ pos \<le> unat n div ?b" using assms(1) by (metis div_le_mono mult.commute nonzero_mult_div_cancel_left not_numeral_le_zero power_Suc)
    moreover from this assms(1) have "0 < unat n div ?b" by (metis gr0I le_zero_eq not_numeral_le_zero power_not_zero)
    ultimately show ?case using step pos_iff Suc.IH(2) [of "n div base"] by (simp add: unat_div)
  }
qed simp_all

lemma printNumber_spec:
  assumes "2 \<le> unat base" "unat base \<le> 36"
  shows "unat n < unat base ^ 63 \<Longrightarrow> \<exists>t. printNumber n base = Some t \<and> numeral_text (unat base) (unat n) t"
    and "unat base ^ 63 \<le> unat n \<Longrightarrow> printNumber n base = None"
proof -
  have size: "NUMBER_BUFFER_SIZE = Suc 63" by (simp add: NUMBER_BUFFER_SIZE_def NBBY_def)
  show "unat n < unat base ^ 63 \<Longrightarrow> \<exists>t. printNumber n base = Some t \<and> numeral_text (unat base) (unat n) t"
    using number_loop_spec(1) [OF assms, of 63 n "[]"] unfolding printNumber_def size by (metis append_Nil2 zero_less_numeral)
  show "unat base ^ 63 \<le> unat n \<Longrightarrow> printNumber n base = None"
    using number_loop_spec(2) [OF assms, of 63 n "[]"] unfolding printNumber_def size by simp
qed

text \<open>In the bases that are used, 10 and 16, every number is printed.\<close>

definition number_text :: "ef_number \<Rightarrow> ef_number \<Rightarrow> string" where
  "number_text n base = the (printNumber n base)"

lemma number_text:
  assumes "base = 10 \<or> base = 16"
  shows "printNumber n base = Some (number_text n base)" "numeral_text (unat base) (unat n) (number_text n base)"
proof -
  have "unat n < 2 ^ 64" using unsigned_less [of n] by simp
  also have "(2 :: nat) ^ 64 \<le> 10 ^ 63" by simp
  also have "(10 :: nat) ^ 63 \<le> unat base ^ 63" using assms by (intro power_mono) auto
  finally obtain t where "printNumber n base = Some t" "numeral_text (unat base) (unat n) t"
    using printNumber_spec(1) [of base n] assms by force
  then show "printNumber n base = Some (number_text n base)" "numeral_text (unat base) (unat n) (number_text n base)"
    by (simp_all add: number_text_def)
qed

subsection \<open>Patterns\<close>

datatype piece = Lit char | Percent | Addr u64 | Str string | Num "32 word" | Hex u32 | Chr char | Unknown char

fun spell :: "piece \<Rightarrow> string" where
  "spell (Lit c) = [c]"
| "spell Percent = ''%%''"
| "spell (Addr p) = ''%a''"
| "spell (Str x) = ''%s''"
| "spell (Num n) = ''%d''"
| "spell (Hex n) = ''%x''"
| "spell (Chr c) = ''%c''"
| "spell (Unknown c) = [CHR ''%'', c]"

fun args_of :: "piece \<Rightarrow> arg list" where
  "args_of (Addr p) = [Pointer p]"
| "args_of (Str x) = [Text x]"
| "args_of (Num n) = [Signed n]"
| "args_of (Hex n) = [Unsigned n]"
| "args_of (Chr c) = [Character c]"
| "args_of _ = []"

fun shown :: "piece \<Rightarrow> string" where
  "shown (Lit c) = [c]"
| "shown Percent = ''%''"
| "shown (Addr p) = number_text p 16"
| "shown (Str x) = x"
| "shown (Num n) = (if sint n < 0 then CHR ''-'' # number_text (scast (- n)) 10 else number_text (scast n) 10)"
| "shown (Hex n) = number_text (ucast n) 16"
| "shown (Chr c) = [c]"
| "shown (Unknown c) = ''\<newline>Bad pattern specifier %'' @ [c] @ '' in EF_Print().\<newline>''"

fun piece_ok :: "piece \<Rightarrow> bool" where
  "piece_ok (Lit c) \<longleftrightarrow> c \<noteq> CHR ''%''"
| "piece_ok (Num n) \<longleftrightarrow> n \<noteq> - (2 ^ 31)"
| "piece_ok (Unknown c) \<longleftrightarrow> c \<notin> set ''%asdxc''"
| "piece_ok _ \<longleftrightarrow> True"

lemma bad_specifier_text: "bad_specifier c = Some (''\<newline>Bad pattern specifier %'' @ [c] @ '' in EF_Print().\<newline>'')"
  by (simp add: bad_specifier_def bad_pattern_def)

lemma EF_Printv_piece:
  assumes "piece_ok p"
  shows "EF_Printv_with bad_specifier (spell p @ s) (args_of p @ args) =
    map_option (\<lambda>t. shown p @ t) (EF_Printv_with bad_specifier s args)"
  using assms by (cases p) (auto simp: number_text bad_specifier_text split: Option.bind_split)

lemma literal_pattern: "CHR ''%'' \<notin> set s \<Longrightarrow> EF_Printv s [] = Some s"
  unfolding EF_Printv_def by (induction s) auto

lemma EF_Printv_pieces:
  "list_all piece_ok ps \<Longrightarrow> EF_Printv (concat (map spell ps)) (concat (map args_of ps)) = Some (concat (map shown ps))"
  unfolding EF_Printv_def by (induction ps) (simp_all add: EF_Printv_piece)

lemma framed_pieces:
  assumes "list_all piece_ok ps" "CHR ''%'' \<notin> set prefix"
  shows "framed prefix (concat (map spell ps)) (concat (map args_of ps)) = Some (prefix @ concat (map shown ps) @ ''\<newline>'')"
  by (simp add: framed_def EF_Print_def EF_Printv_pieces [OF assms(1)] literal_pattern [OF assms(2)] literal_pattern [of "''\<newline>''"])

subsection \<open>Properties\<close>

text \<open>
  C29. \<open>printNumber\<close> writes a number in positional notation without leading zeros, so that reading the digits back gives the number,
  in every base from 2 to 36 as long as the number has at most 63 digits; with 64 digits, which the buffer was sized for, it aborts.
\<close>

theorem printNumber_roundtrip:
  assumes "2 \<le> unat base" "unat base \<le> 36"
  shows "(unat n < unat base ^ 63 \<and> (\<exists>t. printNumber n base = Some t \<and> numeral_text (unat base) (unat n) t))
    \<or> (unat base ^ 63 \<le> unat n \<and> printNumber n base = None)"
  using printNumber_spec [OF assms] by (metis not_less)

text \<open>
  A pattern is printed piece by piece: ordinary characters and \<open>%%\<close> as they are, each specifier as the text of its argument, an
  unknown specifier as a message; and the abort, exit and internal error messages are the printed pattern between their prefix
  and a newline.
\<close>

theorem EF_Printv_correct:
  assumes "list_all piece_ok ps"
  shows "EF_Printv (concat (map spell ps)) (concat (map args_of ps)) = Some (concat (map shown ps))
    \<and> EF_Abort (concat (map spell ps)) (concat (map args_of ps)) = Killed (''\<newline>ElectricFence Aborting: '' @ concat (map shown ps) @ ''\<newline>'')
    \<and> EF_Exit (concat (map spell ps)) (concat (map args_of ps)) = Exited (''\<newline>ElectricFence Exiting: '' @ concat (map shown ps) @ ''\<newline>'')
    \<and> EF_InternalError (concat (map spell ps)) (concat (map args_of ps)) =
        Killed (''\<newline>Internal error in allocator: '' @ concat (map shown ps) @ ''\<newline>'')"
  using framed_pieces [OF assms] EF_Printv_pieces [OF assms]
  by (simp add: EF_Abort_def EF_Abortv_def EF_Exit_def EF_Exitv_def EF_InternalError_def ending_of_def do_abort_def)

text \<open>A pattern that ends with a percent sign is read past its end, and the smallest integer cannot be printed.\<close>

lemma EF_Printv_undefined: "EF_Printv ''50%'' [] = None" "EF_Printv ''%d'' [Signed (- (2 ^ 31))] = None"
  by (simp_all add: EF_Printv_def)

theorem printNumber_roundtrip_witness:
  "(\<exists>t. printNumber 255 16 = Some t \<and> numeral_text 16 255 t) \<and> printNumber (2 ^ 63) 2 = None"
  using printNumber_roundtrip [of 16 255] printNumber_roundtrip [of 2 "2 ^ 63"] by simp

definition free_message :: "piece list" where
  "free_message = map Lit ''free('' @ [Addr 0x40] @ map Lit ''): address not from malloc().''"

theorem EF_Printv_correct_witness:
  "EF_Abort ''free(%a): address not from malloc().'' [Pointer 0x40] =
     Killed (''\<newline>ElectricFence Aborting: free(40): address not from malloc().\<newline>'')"
proof -
  have ok: "list_all piece_ok free_message" by (simp add: free_message_def)
  have num: "number_text 0x40 16 = ''40''" by code_simp
  show ?thesis using EF_Printv_correct [OF ok] by (simp add: free_message_def num)
qed

end
