(* ===== verification/Ef_Page.thy ===== *)
theory Ef_Page
  imports Ef_Print
begin

text \<open>
  The virtual memory calls of Electric Fence (\<open>efence/page.c\<close>) and the memory they act on: the mappings of the process, the
  protection of each page, and the contents of the bytes. Addresses and sizes are natural numbers below \<open>2^64\<close>; where the C code adds,
  subtracts or multiplies them the wrap-around is written out.

  \<open>os_mmap\<close> is the answer of the system's \<open>mmap\<close> to the n-th call, given the hint, the length and the mappings that exist.
  \<open>os_mprotect\<close> is what the system will answer to the calls of \<open>mprotect\<close> still to come: a call whose range is mapped fails all the same when the
  answer is \<open>False\<close>, as the system call does with \<open>ENOMEM\<close> when the process has too many mappings.
  A \<open>result\<close> is a value, or the way the process ends: by a printed message, by touching a page it may not access, or blocked on its semaphore.
\<close>

subsection \<open>Arithmetic of \<open>size_t\<close>\<close>

definition add64 :: "nat \<Rightarrow> nat \<Rightarrow> nat" where "add64 a b = (a + b) mod 2 ^ 64"
definition sub64 :: "nat \<Rightarrow> nat \<Rightarrow> nat" where "sub64 a b = (a + (2 ^ 64 - b)) mod 2 ^ 64"
definition mul64 :: "nat \<Rightarrow> nat \<Rightarrow> nat" where "mul64 a b = (a * b) mod 2 ^ 64"

lemma add64_small [simp]: "a + b < 2 ^ 64 \<Longrightarrow> add64 a b = a + b"
  by (simp add: add64_def)

lemma sub64_small [simp]:
  assumes "b \<le> a" "a < 2 ^ 64"
  shows "sub64 a b = a - b"
proof -
  have "a + (2 ^ 64 - b) = (a - b) + 2 ^ 64" using assms by simp
  moreover have "a - b < 2 ^ 64" using assms by simp
  ultimately show ?thesis unfolding sub64_def by (metis mod_add_self2 mod_less)
qed

text \<open>The cast to \<open>int\<close> in the calls of \<open>mmap\<close>, converted back to \<open>size_t\<close>.\<close>

definition int_cast :: "nat \<Rightarrow> nat" where
  "int_cast n = (let m = n mod 2 ^ 32 in if m < 2 ^ 31 then m else m + (2 ^ 64 - 2 ^ 32))"

lemma int_cast_small [simp]: "n < 2 ^ 31 \<Longrightarrow> int_cast n = n"
  by (simp add: int_cast_def)

subsection \<open>Definitions\<close>

datatype stop = Ended ending | Fault | Blocked

type_synonym 'a result = "stop + 'a"

definition and_then :: "'a result \<Rightarrow> ('a \<Rightarrow> 'b result) \<Rightarrow> 'b result" where
  "and_then r f = (case r of Inl e \<Rightarrow> Inl e | Inr x \<Rightarrow> f x)"

record vm =
  os_page :: nat
  os_mmap :: "nat \<Rightarrow> nat \<Rightarrow> nat \<Rightarrow> (nat \<times> nat) list \<Rightarrow> nat option"
  os_mprotect :: "nat \<Rightarrow> bool"
  os_error :: string
  startAddr :: nat
  mmaps :: nat
  mapped :: "(nat \<times> nat) list"
  prot :: "nat \<Rightarrow> bool"
  cells :: "nat \<Rightarrow> u8"

definition Page_Size :: "'a vm_scheme \<Rightarrow> nat" where "Page_Size s = os_page s"

text \<open>The pages that a range of bytes touches.\<close>

definition page_range :: "'a vm_scheme \<Rightarrow> nat \<Rightarrow> nat \<Rightarrow> nat list" where
  "page_range s a n = (if n = 0 then [] else [a div os_page s ..< (a + n + os_page s - 1) div os_page s])"

definition page_mapped :: "'a vm_scheme \<Rightarrow> nat \<Rightarrow> bool" where
  "page_mapped s p \<longleftrightarrow> list_ex (\<lambda>(b, l). b div os_page s \<le> p \<and> p < (b + l + os_page s - 1) div os_page s) (mapped s)"

definition accessible :: "'a vm_scheme \<Rightarrow> nat \<Rightarrow> nat \<Rightarrow> bool" where
  "accessible s a n \<longleftrightarrow> list_all (prot s) (page_range s a n)"

definition set_prot :: "bool \<Rightarrow> nat \<Rightarrow> nat \<Rightarrow> 'a vm_scheme \<Rightarrow> 'a vm_scheme" where
  "set_prot b a n s = s\<lparr>prot := (\<lambda>p. if a div os_page s \<le> p \<and> p < (a + n + os_page s - 1) div os_page s then b else prot s p)\<rparr>"

definition fill_cells :: "nat \<Rightarrow> nat \<Rightarrow> u8 \<Rightarrow> 'a vm_scheme \<Rightarrow> 'a vm_scheme" where
  "fill_cells a n v s = s\<lparr>cells := (\<lambda>x. if a \<le> x \<and> x < a + n then v else cells s x)\<rparr>"

definition stringErrorReport :: "'a vm_scheme \<Rightarrow> string" where "stringErrorReport s = os_error s"

definition Page_Create :: "nat \<Rightarrow> 'a vm_scheme \<Rightarrow> (nat \<times> 'a vm_scheme) result" where
  "Page_Create n s =
     (case os_mmap s (mmaps s) (startAddr s) (int_cast n) (mapped s) of
        None \<Rightarrow> Inl (Ended (EF_Exit ''mmap() failed: %s'' [Text (stringErrorReport s)]))
      | Some a \<Rightarrow> Inr (a, fill_cells a (int_cast n) 0 (set_prot True a (int_cast n)
          (s\<lparr>mmaps := Suc (mmaps s), mapped := (a, int_cast n) # mapped s, startAddr := add64 a n\<rparr>))))"

definition mprotectFailed :: "'a vm_scheme \<Rightarrow> ending" where
  "mprotectFailed s = EF_Exit ''mprotect() failed: %s'' [Text (stringErrorReport s)]"

text \<open>
  \<open>mprotect\<close> needs a page-aligned address, and every page of the range must be mapped. When both hold the system may still refuse the call.
\<close>

definition mprotect :: "bool \<Rightarrow> nat \<Rightarrow> nat \<Rightarrow> 'a vm_scheme \<Rightarrow> 'a vm_scheme option" where
  "mprotect b a n s =
     (if a mod os_page s = 0 \<and> list_all (page_mapped s) (page_range s a n) \<and> os_mprotect s 0
      then Some (set_prot b a n (s\<lparr>os_mprotect := (\<lambda>k. os_mprotect s (Suc k))\<rparr>)) else None)"

text \<open>A system that never refuses.\<close>

definition willing :: "nat \<Rightarrow> bool" where "willing = (\<lambda>k. True)"

definition Page_AllowAccess :: "nat \<Rightarrow> nat \<Rightarrow> 'a vm_scheme \<Rightarrow> 'a vm_scheme result" where
  "Page_AllowAccess a n s = (case mprotect True a n s of None \<Rightarrow> Inl (Ended (mprotectFailed s)) | Some s \<Rightarrow> Inr s)"

definition Page_DenyAccess :: "nat \<Rightarrow> nat \<Rightarrow> 'a vm_scheme \<Rightarrow> 'a vm_scheme result" where
  "Page_DenyAccess a n s = (case mprotect False a n s of None \<Rightarrow> Inl (Ended (mprotectFailed s)) | Some s \<Rightarrow> Inr s)"

text \<open>\<open>madvise\<close> with \<open>MADV_DONTNEED\<close> drops the contents; the pages read as zero when they are used again.\<close>

definition Page_Delete :: "nat \<Rightarrow> nat \<Rightarrow> 'a vm_scheme \<Rightarrow> 'a vm_scheme result" where
  "Page_Delete a n s = and_then (Page_DenyAccess a n s) (\<lambda>s. Inr (fill_cells a n 0 s))"

text \<open>\<open>memset\<close> and \<open>memcpy\<close> of the C library fault when a page may not be accessed.\<close>

definition memset :: "nat \<Rightarrow> u8 \<Rightarrow> nat \<Rightarrow> 'a vm_scheme \<Rightarrow> 'a vm_scheme result" where
  "memset a v n s = (if accessible s a n then Inr (fill_cells a n v s) else Inl Fault)"

definition memcpy :: "nat \<Rightarrow> nat \<Rightarrow> nat \<Rightarrow> 'a vm_scheme \<Rightarrow> 'a vm_scheme result" where
  "memcpy dst src n s =
     (if accessible s dst n \<and> accessible s src n
      then Inr (s\<lparr>cells := (\<lambda>x. if dst \<le> x \<and> x < dst + n then cells s (src + (x - dst)) else cells s x)\<rparr>) else Inl Fault)"

end
