(* ===== verification/Ef_Alloc.thy ===== *)
theory Ef_Alloc
  imports Ef_Page
begin

text \<open>
  The debugging allocator of Electric Fence (\<open>efence/efence.c\<close>): \<open>malloc\<close> and its relatives place every buffer next to a page that may not be
  accessed, and \<open>free\<close> takes the access to the whole buffer away.

  The state extends the virtual memory by the static variables of the file. The array that \<open>allocationList\<close> points to is the
  list \<open>slots\<close>, of length \<open>slotCount\<close>; it may be used only while its pages can be accessed, as the code itself protects them.
\<close>

subsection \<open>State\<close>

definition MEMORY_CREATION_SIZE :: nat where "MEMORY_CREATION_SIZE = 1024 * 1024"

datatype Mode = NOT_IN_USE | FREE | ALLOCATED | PROTECTED | INTERNAL_USE

record Slot =
  userAddress :: nat
  internalAddress :: nat
  userSize :: nat
  internalSize :: nat
  slot_mode :: Mode

definition sizeof_Slot :: nat where "sizeof_Slot = 40"

definition empty_slot :: Slot where
  "empty_slot = \<lparr>userAddress = 0, internalAddress = 0, userSize = 0, internalSize = 0, slot_mode = NOT_IN_USE\<rparr>"

text \<open>\<open>environ\<close> gives the number that \<open>atoi\<close> reads from a variable of the environment, \<open>sem_usable\<close> whether \<open>sem_init\<close> exists and succeeds.\<close>

record fence = vm +
  environ :: "string \<Rightarrow> int option"
  sem_usable :: bool
  printed :: string
  EF_DISABLE_BANNER :: int
  EF_ALIGNMENT :: int
  EF_PROTECT_FREE :: int
  EF_PROTECT_BELOW :: int
  EF_ALLOW_MALLOC_0 :: int
  EF_FILL :: int
  allocationList :: nat
  allocationListSize :: nat
  slots :: "Slot list"
  unUsedSlots :: nat
  slotsPerPage :: nat
  internalUse :: bool
  noAllocationListProtection :: bool
  pthread_initialization :: bool
  semEnabled :: bool
  EF_sem :: nat
  bytesPerPage :: nat

definition version :: string where
  "version = ''\<newline>  Electric Fence 2.2 Copyright (C) 1987-1999 Bruce Perens <bruce@perens.com>\<newline>''"

definition abort_with :: "string \<Rightarrow> arg list \<Rightarrow> 'a result" where
  "abort_with pattern args = Inl (Ended (EF_Abort pattern args))"

definition internal_error :: "string \<Rightarrow> 'a result" where
  "internal_error pattern = Inl (Ended (EF_InternalError pattern []))"

definition pointer :: "nat \<Rightarrow> arg" where "pointer a = Pointer (of_nat a)"

text \<open>A conversion from \<open>int\<close> to \<open>size_t\<close>.\<close>

definition to_size :: "int \<Rightarrow> nat" where "to_size i = nat (i mod 2 ^ 64)"

text \<open>The slots can be used only when their pages can be accessed.\<close>

definition list_open :: "fence \<Rightarrow> bool" where
  "list_open s \<longleftrightarrow> accessible s (allocationList s) (allocationListSize s)"

definition with_list :: "fence \<Rightarrow> (fence \<Rightarrow> 'a result) \<Rightarrow> 'a result" where
  "with_list s f = (if list_open s then f s else Inl Fault)"

subsection \<open>The semaphore\<close>

definition lock :: "fence \<Rightarrow> fence result" where
  "lock s = (if \<not> semEnabled s then Inr s else if 0 < EF_sem s then Inr (s\<lparr>EF_sem := EF_sem s - 1\<rparr>) else Inl Blocked)"

definition release :: "fence \<Rightarrow> fence" where
  "release s = (if \<not> semEnabled s then s else s\<lparr>EF_sem := EF_sem s + 1\<rparr>)"

subsection \<open>Initialization\<close>

text \<open>A setting that is -1 is read from the environment.\<close>

definition setting :: "int \<Rightarrow> int option \<Rightarrow> (int \<Rightarrow> int) \<Rightarrow> int \<Rightarrow> int" where
  "setting current env conv dflt = (if current = - 1 then (case env of Some v \<Rightarrow> conv v | None \<Rightarrow> dflt) else current)"

definition flag :: "int \<Rightarrow> int" where "flag v = (if v \<noteq> 0 then 1 else 0)"

definition read_settings :: "fence \<Rightarrow> fence" where
  "read_settings s = s\<lparr>
     EF_ALIGNMENT := setting (EF_ALIGNMENT s) (environ s ''EF_ALIGNMENT'') (\<lambda>v. v) 4,
     EF_PROTECT_BELOW := setting (EF_PROTECT_BELOW s) (environ s ''EF_PROTECT_BELOW'') flag 0,
     EF_PROTECT_FREE := setting (EF_PROTECT_FREE s) (environ s ''EF_PROTECT_FREE'') flag 0,
     EF_ALLOW_MALLOC_0 := setting (EF_ALLOW_MALLOC_0 s) (environ s ''EF_ALLOW_MALLOC_0'') flag 0,
     EF_FILL := setting (EF_FILL s) (environ s ''EF_FILL'') (\<lambda>v. v mod 256) (- 1)\<rparr>"

definition print_banner :: "fence \<Rightarrow> fence" where
  "print_banner s =
     (let s = s\<lparr>EF_DISABLE_BANNER := setting (EF_DISABLE_BANNER s) (environ s ''EF_DISABLE_BANNER'') (\<lambda>v. v) 0\<rparr>
      in if EF_DISABLE_BANNER s = 0 then s\<lparr>printed := printed s @ version\<rparr> else s)"

text \<open>A size rounded up to whole pages.\<close>

definition round_pages :: "nat \<Rightarrow> nat \<Rightarrow> nat" where
  "round_pages p n = (let slack = n mod p in if slack \<noteq> 0 then add64 n (p - slack) else n)"

text \<open>\<open>n\<close> bytes at \<open>a\<close> become the list of slots and one free piece.\<close>

definition arrange :: "nat \<Rightarrow> nat \<Rightarrow> fence \<Rightarrow> fence result" where
  "arrange n a s =
     and_then (memset a 0 (allocationListSize s) (s\<lparr>allocationList := a\<rparr>)) (\<lambda>s.
     let k = allocationListSize s;
         list = (replicate (slotsPerPage s) empty_slot)
           [0 := \<lparr>userAddress = a, internalAddress = a, userSize = k, internalSize = k, slot_mode = INTERNAL_USE\<rparr>];
         list = (if k < n
                 then list[1 := \<lparr>userAddress = add64 a k, internalAddress = add64 a k, userSize = sub64 n k, internalSize = sub64 n k,
                                 slot_mode = FREE\<rparr>]
                 else list);
         s = s\<lparr>slots := list\<rparr>
     in and_then (Page_DenyAccess (internalAddress (slots s ! 1)) (internalSize (slots s ! 1)) s) (\<lambda>s.
        Inr (s\<lparr>unUsedSlots := sub64 (length (slots s)) 2\<rparr>)))"

definition setup_arena :: "fence \<Rightarrow> fence result" where
  "setup_arena s =
     (let s = s\<lparr>bytesPerPage := Page_Size s\<rparr>;
          s = s\<lparr>slotsPerPage := bytesPerPage s div sizeof_Slot, allocationListSize := bytesPerPage s\<rparr>;
          n = (if MEMORY_CREATION_SIZE < allocationListSize s then allocationListSize s else MEMORY_CREATION_SIZE);
          n = round_pages (bytesPerPage s) n
      in and_then (Page_Create n s) (\<lambda>(a, s). arrange n a s))"

definition initialize :: "fence \<Rightarrow> fence result" where
  "initialize s =
     (let s = print_banner s;
          s = (if sem_usable s \<and> \<not> pthread_initialization s then s\<lparr>EF_sem := 1, semEnabled := True\<rparr> else s)
      in and_then (lock s) (\<lambda>s. and_then (setup_arena (read_settings s)) (\<lambda>s. Inr (release s))))"

definition libc_malloc_pthread_startup :: "bool \<Rightarrow> fence \<Rightarrow> fence result" where
  "libc_malloc_pthread_startup first_time s =
     (if first_time then initialize (s\<lparr>pthread_initialization := True\<rparr>)
      else
        (let s = s\<lparr>pthread_initialization := False\<rparr>
         in Inr (if \<not> semEnabled s \<and> sem_usable s then s\<lparr>EF_sem := 1, semEnabled := True\<rparr> else s)))"

subsection \<open>Finding slots\<close>

text \<open>
  The loop over the slots: \<open>full\<close> is \<open>fullSlot\<close> with its size, \<open>e0\<close> and \<open>e1\<close> are \<open>emptySlots\<close>. The loop ends early when an exact fit and the
  empty slots have been found.
\<close>

fun scan :: "nat \<Rightarrow> Slot list \<Rightarrow> nat \<Rightarrow> (nat \<times> nat) option \<Rightarrow> nat option \<Rightarrow> nat option \<Rightarrow> (nat \<times> nat) option \<times> nat option \<times> nat option" where
  "scan need [] i full e0 e1 = (full, e0, e1)"
| "scan need (x # xs) i full e0 e1 =
     (if slot_mode x = FREE \<and> need \<le> internalSize x then
        (if (case full of None \<Rightarrow> True | Some (j, m) \<Rightarrow> internalSize x < m)
         then (if internalSize x = need \<and> e0 \<noteq> None then (Some (i, internalSize x), e0, e1)
               else scan need xs (Suc i) (Some (i, internalSize x)) e0 e1)
         else scan need xs (Suc i) full e0 e1)
      else if slot_mode x = NOT_IN_USE then
        (if e0 = None then scan need xs (Suc i) full (Some i) e1
         else if e1 = None then scan need xs (Suc i) full e0 (Some i)
         else if (case full of None \<Rightarrow> False | Some (j, m) \<Rightarrow> m = need) then (full, e0, e1)
         else scan need xs (Suc i) full e0 e1)
      else scan need xs (Suc i) full e0 e1)"

fun first_index :: "('a \<Rightarrow> bool) \<Rightarrow> 'a list \<Rightarrow> nat option" where
  "first_index P [] = None"
| "first_index P (x # xs) = (if P x then Some 0 else map_option Suc (first_index P xs))"

definition slotForUserAddress :: "nat \<Rightarrow> fence \<Rightarrow> nat option" where
  "slotForUserAddress a s = first_index (\<lambda>x. userAddress x = a) (slots s)"

definition slotForInternalAddress :: "nat \<Rightarrow> fence \<Rightarrow> nat option" where
  "slotForInternalAddress a s = first_index (\<lambda>x. internalAddress x = a) (slots s)"

definition slotForInternalAddressPreviousTo :: "nat \<Rightarrow> fence \<Rightarrow> nat option" where
  "slotForInternalAddressPreviousTo a s = first_index (\<lambda>x. add64 (internalAddress x) (internalSize x) = a) (slots s)"

definition set_slot :: "nat \<Rightarrow> (Slot \<Rightarrow> Slot) \<Rightarrow> fence \<Rightarrow> fence" where
  "set_slot i f s = s\<lparr>slots := (slots s)[i := f (slots s ! i)]\<rparr>"

subsection \<open>Freeing\<close>

text \<open>\<open>absorb i j\<close> joins slot \<open>j\<close> to slot \<open>i\<close>, which lies before it.\<close>

definition absorb :: "nat \<Rightarrow> nat \<Rightarrow> fence \<Rightarrow> fence" where
  "absorb i j s =
     (let s = set_slot i (\<lambda>x. x\<lparr>internalSize := add64 (internalSize x) (internalSize (slots s ! j))\<rparr>) s;
          s = set_slot j (\<lambda>x. empty_slot) s
      in s\<lparr>unUsedSlots := add64 (unUsedSlots s) 1\<rparr>)"

definition coalesce :: "nat \<Rightarrow> nat option \<Rightarrow> nat option \<Rightarrow> fence \<Rightarrow> nat \<times> fence" where
  "coalesce i prev nxt s =
     (let (i, s) = (case prev of
            Some p \<Rightarrow> if slot_mode (slots s ! p) = slot_mode (slots s ! i) then (p, absorb p i s) else (i, s)
          | None \<Rightarrow> (i, s))
      in case nxt of
            Some n \<Rightarrow> if slot_mode (slots s ! n) = slot_mode (slots s ! i) then (i, absorb i n s) else (i, s)
          | None \<Rightarrow> (i, s))"

definition free_slot :: "nat \<Rightarrow> fence \<Rightarrow> fence result" where
  "free_slot i s =
     (let s = set_slot i (\<lambda>x. x\<lparr>slot_mode := (if EF_PROTECT_FREE s \<noteq> 0 then PROTECTED else FREE)\<rparr>) s
      in and_then (Page_Delete (internalAddress (slots s ! i)) (internalSize (slots s ! i)) s) (\<lambda>s.
         let prev = slotForInternalAddressPreviousTo (internalAddress (slots s ! i)) s;
             nxt = slotForInternalAddress (add64 (internalAddress (slots s ! i)) (internalSize (slots s ! i))) s;
             (i, s) = coalesce i prev nxt s
         in Inr (set_slot i (\<lambda>x. x\<lparr>userAddress := internalAddress x, userSize := internalSize x\<rparr>) s)))"

definition free_locked :: "nat \<Rightarrow> fence \<Rightarrow> fence result" where
  "free_locked a s =
     (if a = 0 then Inr s
      else
        and_then (if \<not> noAllocationListProtection s then Page_AllowAccess (allocationList s) (allocationListSize s) s else Inr s) (\<lambda>s.
        with_list s (\<lambda>s.
        case slotForUserAddress a s of
          None \<Rightarrow> abort_with ''free(%a): address not from malloc().'' [pointer a]
        | Some i \<Rightarrow>
            if slot_mode (slots s ! i) \<noteq> ALLOCATED \<and> \<not> (internalUse s \<and> slot_mode (slots s ! i) = INTERNAL_USE)
            then abort_with ''free(%a): freeing free memory.'' [pointer a]
            else and_then (free_slot i s) (\<lambda>s.
              if \<not> noAllocationListProtection s then Page_DenyAccess (allocationList s) (allocationListSize s) s else Inr s))))"

definition EF_free :: "nat \<Rightarrow> fence \<Rightarrow> fence result" where
  "EF_free a s =
     (if a = 0 then Inr s
      else if allocationList s = 0 then abort_with ''free() called before first malloc().'' []
      else and_then (lock s) (\<lambda>s. and_then (free_locked a s) (\<lambda>s. Inr (release s))))"

subsection \<open>Allocating\<close>

text \<open>The size that the user gets, rounded up to the alignment.\<close>

definition padded_size :: "fence \<Rightarrow> nat \<Rightarrow> nat \<Rightarrow> nat" where
  "padded_size s alignment n =
     (if EF_PROTECT_BELOW s = 0 \<and> 1 < alignment
      then (let slack = n mod alignment in if slack \<noteq> 0 then add64 n (alignment - slack) else n) else n)"

definition create_chunk :: "nat \<Rightarrow> nat \<Rightarrow> fence \<Rightarrow> fence result" where
  "create_chunk e need s =
     (let chunk = (if MEMORY_CREATION_SIZE < need then need else MEMORY_CREATION_SIZE);
          chunk = round_pages (bytesPerPage s) chunk
      in and_then (Page_Create chunk s) (\<lambda>(a, s).
         let s = set_slot e (\<lambda>x. x\<lparr>internalAddress := a, internalSize := chunk, slot_mode := FREE\<rparr>) s;
             s = s\<lparr>unUsedSlots := sub64 (unUsedSlots s) 1\<rparr>
         in if EF_FILL s \<noteq> - 1 then memset a (word_of_int (EF_FILL s)) chunk s else Inr s))"

text \<open>Slot \<open>i\<close> becomes the buffer; what it holds beyond \<open>need\<close> bytes goes to slot \<open>e\<close>.\<close>

definition claim_slot :: "nat \<Rightarrow> nat \<Rightarrow> nat \<Rightarrow> fence \<Rightarrow> fence" where
  "claim_slot i e need s =
     (let s = set_slot i (\<lambda>x. x\<lparr>slot_mode := (if internalUse s then INTERNAL_USE else ALLOCATED)\<rparr>) s
      in if need < internalSize (slots s ! i)
         then (let f = slots s ! i;
                   s = set_slot e (\<lambda>x. x\<lparr>internalSize := sub64 (internalSize f) need, internalAddress := add64 (internalAddress f) need,
                                       slot_mode := FREE\<rparr>) s;
                   s = set_slot i (\<lambda>x. x\<lparr>internalSize := need\<rparr>) s
               in s\<lparr>unUsedSlots := sub64 (unUsedSlots s) 1\<rparr>)
         else s)"

definition live_pages :: "nat \<Rightarrow> nat \<Rightarrow> fence \<Rightarrow> fence result" where
  "live_pages a need s =
     (if sub64 need (bytesPerPage s) \<noteq> 0 then Page_AllowAccess a (sub64 need (bytesPerPage s)) s else Inr s)"

definition place_buffer :: "nat \<Rightarrow> nat \<Rightarrow> nat \<Rightarrow> fence \<Rightarrow> (nat \<times> fence) result" where
  "place_buffer i need n s =
     (let a = internalAddress (slots s ! i)
      in if EF_PROTECT_BELOW s = 0
         then and_then (live_pages a need s) (\<lambda>s.
              let dead = add64 a (sub64 need (bytesPerPage s))
              in and_then (Page_Delete dead (bytesPerPage s) s) (\<lambda>s. Inr (sub64 dead n, s)))
         else and_then (Page_Delete a (bytesPerPage s) s) (\<lambda>s.
              let a = add64 a (bytesPerPage s)
              in and_then (live_pages a need s) (\<lambda>s. Inr (a, s))))"

text \<open>The function after the slots have been made sufficient.\<close>

definition memalign_slots :: "nat \<Rightarrow> nat \<Rightarrow> fence \<Rightarrow> (nat \<times> fence) result" where
  "memalign_slots need n s =
     with_list s (\<lambda>s.
     case scan need (slots s) 0 None None None of
       (_, None, _) \<Rightarrow> internal_error ''No empty slot 0.''
     | (full, Some e0, e1) \<Rightarrow>
         and_then (case full of
             Some (i, _) \<Rightarrow> Inr (i, e0, s)
           | None \<Rightarrow> (case e1 of
                 None \<Rightarrow> internal_error ''No empty slot 1.''
               | Some e1 \<Rightarrow> and_then (create_chunk e0 need s) (\<lambda>s. Inr (e0, e1, s)))) (\<lambda>(i, e, s).
         and_then (place_buffer i need n (claim_slot i e need s)) (\<lambda>(a, s).
         let s = set_slot i (\<lambda>x. x\<lparr>userAddress := a, userSize := n\<rparr>) s
         in and_then (if \<not> internalUse s then Page_DenyAccess (allocationList s) (allocationListSize s) s else Inr s)
              (\<lambda>s. Inr (a, s)))))"

text \<open>\<open>grow\<close> is \<open>allocateMoreSlots\<close>, which itself allocates with \<open>internalUse\<close> set, when it is not called again.\<close>

definition memalign_with :: "(fence \<Rightarrow> fence result) \<Rightarrow> nat \<Rightarrow> nat \<Rightarrow> fence \<Rightarrow> (nat \<times> fence) result" where
  "memalign_with grow alignment n s =
     (if n = 0 \<and> EF_ALLOW_MALLOC_0 s = 0 then abort_with ''Allocating 0 bytes, probably a bug.'' []
      else
        (let n = padded_size s alignment n;
             need = round_pages (bytesPerPage s) (add64 n (bytesPerPage s))
         in and_then (if \<not> noAllocationListProtection s then Page_AllowAccess (allocationList s) (allocationListSize s) s else Inr s) (\<lambda>s.
            and_then (if \<not> internalUse s \<and> unUsedSlots s < 7 then grow s else Inr s) (memalign_slots need n))))"

definition allocateMoreSlots :: "fence \<Rightarrow> fence result" where
  "allocateMoreSlots s =
     (let newSize = add64 (allocationListSize s) (bytesPerPage s); oldAllocation = allocationList s
      in and_then (Page_AllowAccess (allocationList s) (allocationListSize s) s) (\<lambda>s.
         and_then (memalign_with Inr (to_size (EF_ALIGNMENT s)) newSize (s\<lparr>noAllocationListProtection := True, internalUse := True\<rparr>)) (\<lambda>(a, s).
         and_then (memcpy a (allocationList s) (allocationListSize s) s) (\<lambda>s.
         and_then (memset (add64 a (allocationListSize s)) 0 (bytesPerPage s) s) (\<lambda>s.
         let s = s\<lparr>allocationList := a, allocationListSize := newSize, slots := slots s @ replicate (slotsPerPage s) empty_slot,
                  unUsedSlots := add64 (unUsedSlots s) (slotsPerPage s)\<rparr>
         in and_then (free_locked oldAllocation s) (\<lambda>s.
            Inr (s\<lparr>noAllocationListProtection := False, internalUse := False\<rparr>)))))))"

definition memalign_locked :: "nat \<Rightarrow> nat \<Rightarrow> fence \<Rightarrow> (nat \<times> fence) result" where
  "memalign_locked = memalign_with allocateMoreSlots"

definition ensure_initialized :: "fence \<Rightarrow> fence result" where
  "ensure_initialized s = (if allocationList s = 0 then initialize s else Inr s)"

definition memalign :: "nat \<Rightarrow> nat \<Rightarrow> fence \<Rightarrow> (nat \<times> fence) result" where
  "memalign alignment n s =
     and_then (ensure_initialized s) (\<lambda>s. and_then (lock s) (\<lambda>s.
     and_then (memalign_locked alignment n s) (\<lambda>(a, s). Inr (a, release s))))"

text \<open>The address is stored only on success.\<close>

definition posix_memalign :: "nat \<Rightarrow> nat \<Rightarrow> fence \<Rightarrow> (int \<times> nat option \<times> fence) result" where
  "posix_memalign alignment n s =
     (if (alignment AND sub64 alignment 1) \<noteq> 0 \<or> alignment mod 8 \<noteq> 0 then Inr (EINVAL, None, s)
      else and_then (memalign alignment n s) (\<lambda>(a, s). Inr (if a = 0 then (ENOMEM, None, s) else (0, Some a, s))))"

definition EF_malloc :: "nat \<Rightarrow> fence \<Rightarrow> (nat \<times> fence) result" where
  "EF_malloc n s = and_then (ensure_initialized s) (\<lambda>s. memalign (to_size (EF_ALIGNMENT s)) n s)"

definition EF_calloc :: "nat \<Rightarrow> nat \<Rightarrow> fence \<Rightarrow> (nat \<times> fence) result" where
  "EF_calloc nelem elsize s =
     (let total = mul64 nelem elsize
      in and_then (EF_malloc total s) (\<lambda>(a, s). and_then (memset a 0 total s) (\<lambda>s. Inr (a, s))))"

text \<open>\<open>bytesPerPage\<close> is read before \<open>memalign\<close> initializes it.\<close>

definition EF_valloc :: "nat \<Rightarrow> fence \<Rightarrow> (nat \<times> fence) result" where
  "EF_valloc n s = memalign (bytesPerPage s) n s"

definition copy_and_free :: "nat \<Rightarrow> nat \<Rightarrow> nat \<Rightarrow> fence \<Rightarrow> fence result" where
  "copy_and_free old new n s =
     and_then (Page_AllowAccess (allocationList s) (allocationListSize s) s) (\<lambda>s.
     with_list (s\<lparr>noAllocationListProtection := True\<rparr>) (\<lambda>s.
     case slotForUserAddress old s of
       None \<Rightarrow> abort_with ''realloc(%a, %d): address not from malloc().'' [pointer old, Size (of_nat n)]
     | Some i \<Rightarrow>
         (let total = (if n < userSize (slots s ! i) then n else userSize (slots s ! i))
          in and_then (if 0 < total then memcpy new old total s else Inr s) (\<lambda>s.
             and_then (free_locked old s) (\<lambda>s.
             and_then (Page_DenyAccess (allocationList s) (allocationListSize s) (s\<lparr>noAllocationListProtection := False\<rparr>)) (\<lambda>s.
             if total < n then memset (add64 new total) 0 (sub64 n total) s else Inr s))))))"

definition EF_realloc :: "nat \<Rightarrow> nat \<Rightarrow> fence \<Rightarrow> (nat \<times> fence) result" where
  "EF_realloc old n s =
     and_then (ensure_initialized s) (\<lambda>s. and_then (lock s) (\<lambda>s.
     and_then (memalign_locked (to_size (EF_ALIGNMENT s)) n s) (\<lambda>(new, s).
     and_then (if old \<noteq> 0 then copy_and_free old new n s else Inr s) (\<lambda>s. Inr (new, release s)))))"

subsection \<open>A process\<close>

definition process :: "(nat \<Rightarrow> nat \<Rightarrow> nat \<Rightarrow> (nat \<times> nat) list \<Rightarrow> nat option) \<Rightarrow> (nat \<Rightarrow> bool) \<Rightarrow> (string \<Rightarrow> int option) \<Rightarrow> bool \<Rightarrow> nat \<Rightarrow> fence" where
  "process mm ans env sem page = \<lparr>os_page = page, os_mmap = mm, os_mprotect = ans, os_error = ''error'', startAddr = 0, mmaps = 0, mapped = [], prot = (\<lambda>p. False),
     cells = (\<lambda>x. 0), environ = env, sem_usable = sem, printed = [], EF_DISABLE_BANNER = - 1, EF_ALIGNMENT = - 1, EF_PROTECT_FREE = - 1,
     EF_PROTECT_BELOW = - 1, EF_ALLOW_MALLOC_0 = - 1, EF_FILL = - 1, allocationList = 0, allocationListSize = 0, slots = [],
     unUsedSlots = 0, slotsPerPage = 0, internalUse = False, noAllocationListProtection = False, pthread_initialization = False,
     semEnabled = False, EF_sem = 0, bytesPerPage = 0\<rparr>"

end
