(* ===== verification/Ef_Arena.thy ===== *)
theory Ef_Arena
  imports Ef_Alloc
begin

text \<open>
  The invariant of the debugging allocator: the slots in use describe disjoint, page-aligned pieces of the mapped memory, every
  allocated buffer ends (or begins) at a page without access, the list of slots is itself one of the buffers, and \<open>unUsedSlots\<close> is
  the number of free entries. Each step of \<open>memalign_locked\<close> and \<open>free_locked\<close> keeps it.
\<close>

subsection \<open>Pages\<close>

definition pages :: "nat \<Rightarrow> nat \<Rightarrow> nat \<Rightarrow> nat set" where
  "pages P a n = {a div P ..< (a + n) div P}"

lemma aligned_up: "0 < P \<Longrightarrow> P dvd x \<Longrightarrow> (x + P - 1) div P = x div (P :: nat)"
  by (auto elim!: dvdE simp: add.commute) (metis Suc_pred add_diff_cancel_right' diff_Suc_1 div_mult_self4 div_eq_0_iff diff_Suc_less add_diff_assoc Suc_leI add.right_neutral add.commute not_gr0)

lemma aligned_range:
  "0 < P \<Longrightarrow> P dvd a \<Longrightarrow> P dvd n \<Longrightarrow> (a + n + P - Suc 0) div P = a div P + n div (P :: nat)"
  using aligned_up [of P "a + n"] by simp

lemma set_page_range:
  "0 < os_page s \<Longrightarrow> os_page s dvd a \<Longrightarrow> os_page s dvd n \<Longrightarrow> set (page_range s a n) = pages (os_page s) a n"
  by (simp add: page_range_def pages_def aligned_range)

lemma prot_set_prot:
  assumes "0 < os_page s" "os_page s dvd a" "os_page s dvd n"
  shows "prot (set_prot b a n s) = (\<lambda>p. if p \<in> pages (os_page s) a n then b else prot s p)"
  using assms by (auto simp: set_prot_def pages_def aligned_range)

lemma pages_split: "P dvd a \<Longrightarrow> P dvd n \<Longrightarrow> P dvd m \<Longrightarrow> pages P a (n + m) = pages P a n \<union> pages P (a + n) m"
  by (cases "P = 0") (auto simp: pages_def elim!: dvdE simp flip: add_mult_distrib2)

lemma pages_disjoint: "P dvd a \<Longrightarrow> P dvd n \<Longrightarrow> pages P a n \<inter> pages P (a + n) m = {}"
  by (auto simp: pages_def)

lemma pages_empty [simp]: "pages P a 0 = {}"
  by (simp add: pages_def)

lemma pages_sub: "m \<le> n \<Longrightarrow> pages P a m \<subseteq> pages P a n"
  by (auto simp: pages_def intro: less_le_trans div_le_mono)

lemma pages_nonempty: "0 < P \<Longrightarrow> P dvd n \<Longrightarrow> 0 < n \<Longrightarrow> a div P \<in> pages P a n"
  by (auto simp: pages_def elim!: dvdE)

lemma in_pages: "0 < P \<Longrightarrow> P dvd a \<Longrightarrow> P dvd n \<Longrightarrow> a \<le> x \<Longrightarrow> x < a + n \<Longrightarrow> x div P \<in> pages P a n"
  by (auto simp: pages_def div_le_mono elim!: dvdE simp flip: add_mult_distrib2)
    (metis less_mult_imp_div_less mult.commute)

lemma in_pagesD:
  assumes "0 < P" "P dvd a" "P dvd n" "x div P \<in> pages P a n"
  shows "a \<le> x" "x < a + n"
proof -
  obtain k m where km: "a = P * k" "n = P * m" using assms(2,3) by (auto elim!: dvdE)
  then have "k \<le> x div P" "x div P < k + m" using assms(1,4) by (auto simp: pages_def simp flip: distrib_left)
  then show "a \<le> x" "x < a + n" using assms(1) unfolding km
    by (auto simp: less_eq_div_iff_mult_less_eq div_less_iff_less_mult mult.commute distrib_left [symmetric] simp flip: distrib_left)
qed

lemma page_mapped_update [simp]:
  "page_mapped (s\<lparr>prot := f\<rparr>) = page_mapped s" "page_mapped (s\<lparr>cells := g\<rparr>) = page_mapped s"
  by (auto simp: page_mapped_def fun_eq_iff)

lemma fence_mapped_update [simp]:
  "page_mapped (t\<lparr>slots := xs\<rparr>) = page_mapped t" "page_mapped (t\<lparr>unUsedSlots := n\<rparr>) = page_mapped t"
  "page_mapped (t\<lparr>allocationList := a\<rparr>) = page_mapped t" "page_mapped (t\<lparr>allocationListSize := a\<rparr>) = page_mapped t"
  "page_mapped (t\<lparr>internalUse := b\<rparr>) = page_mapped t" "page_mapped (t\<lparr>noAllocationListProtection := b\<rparr>) = page_mapped t"
  "page_mapped (t\<lparr>semEnabled := b\<rparr>) = page_mapped t" "page_mapped (t\<lparr>EF_sem := n\<rparr>) = page_mapped t"
  by (auto simp: page_mapped_def fun_eq_iff)

lemma page_calls:
  assumes "0 < os_page s" "os_page s dvd a" "os_page s dvd n" "pages (os_page s) a n \<subseteq> Collect (page_mapped s)" "os_mprotect s = willing"
  shows "Page_AllowAccess a n s = Inr (s\<lparr>prot := (\<lambda>p. if p \<in> pages (os_page s) a n then True else prot s p)\<rparr>)"
    and "Page_DenyAccess a n s = Inr (s\<lparr>prot := (\<lambda>p. if p \<in> pages (os_page s) a n then False else prot s p)\<rparr>)"
    and "Page_Delete a n s = Inr (s\<lparr>prot := (\<lambda>p. if p \<in> pages (os_page s) a n then False else prot s p),
           cells := (\<lambda>x. if a \<le> x \<and> x < a + n then 0 else cells s x)\<rparr>)"
proof -
  have unchanged: "s\<lparr>os_mprotect := (\<lambda>k. os_mprotect s (Suc k))\<rparr> = s"
    and granted: "os_mprotect s 0"
    using assms(5) by (cases s, simp add: willing_def)+
  have m: "mprotect b a n s = Some (s\<lparr>prot := (\<lambda>p. if p \<in> pages (os_page s) a n then b else prot s p)\<rparr>)" for b
  proof -
    have "set_prot b a n s = s\<lparr>prot := prot (set_prot b a n s)\<rparr>" by (simp add: set_prot_def)
    also have "\<dots> = s\<lparr>prot := (\<lambda>p. if p \<in> pages (os_page s) a n then b else prot s p)\<rparr>"
      by (simp only: prot_set_prot [OF assms(1-3)])
    finally show ?thesis
      using assms(1-4) unchanged granted by (auto simp: mprotect_def list_all_iff set_page_range)
  qed
  have fill: "fill_cells a n 0 (s\<lparr>prot := f\<rparr>) = s\<lparr>prot := f, cells := (\<lambda>x. if a \<le> x \<and> x < a + n then 0 else cells s x)\<rparr>" for f
    by (simp add: fill_cells_def cong: if_cong)
  from m show "Page_AllowAccess a n s = Inr (s\<lparr>prot := (\<lambda>p. if p \<in> pages (os_page s) a n then True else prot s p)\<rparr>)"
    and deny: "Page_DenyAccess a n s = Inr (s\<lparr>prot := (\<lambda>p. if p \<in> pages (os_page s) a n then False else prot s p)\<rparr>)"
    by (simp_all add: Page_AllowAccess_def Page_DenyAccess_def)
  then show "Page_Delete a n s = Inr (s\<lparr>prot := (\<lambda>p. if p \<in> pages (os_page s) a n then False else prot s p),
       cells := (\<lambda>x. if a \<le> x \<and> x < a + n then 0 else cells s x)\<rparr>)"
    using fill by (simp add: Page_Delete_def and_then_def)
qed

lemma accessible_pages:
  "0 < os_page s \<Longrightarrow> os_page s dvd a \<Longrightarrow> os_page s dvd n \<Longrightarrow> accessible s a n \<longleftrightarrow> (\<forall>p \<in> pages (os_page s) a n. prot s p)"
  by (auto simp: accessible_def list_all_iff set_page_range)

subsection \<open>The invariant\<close>

definition slot_pages :: "nat \<Rightarrow> Slot \<Rightarrow> nat set" where
  "slot_pages P x = pages P (internalAddress x) (internalSize x)"

text \<open>An allocated buffer: its guard page may not be accessed, the other pages may, and the bytes of the user touch the guard page.\<close>

definition buffer_ok :: "nat \<Rightarrow> bool \<Rightarrow> (nat \<Rightarrow> bool) \<Rightarrow> Slot \<Rightarrow> bool" where
  "buffer_ok P below pr x \<longleftrightarrow> P + userSize x \<le> internalSize x \<and>
     (if below
      then userAddress x = internalAddress x + P \<and> (\<forall>p \<in> pages P (internalAddress x) P. \<not> pr p)
        \<and> (\<forall>p \<in> pages P (internalAddress x + P) (internalSize x - P). pr p)
      else userAddress x + userSize x = internalAddress x + (internalSize x - P)
        \<and> (\<forall>p \<in> pages P (internalAddress x) (internalSize x - P). pr p)
        \<and> (\<forall>p \<in> pages P (internalAddress x + (internalSize x - P)) P. \<not> pr p))"

definition range_ok :: "nat \<Rightarrow> nat set \<Rightarrow> Slot \<Rightarrow> bool" where
  "range_ok P m x \<longleftrightarrow> P dvd internalAddress x \<and> P dvd internalSize x \<and> 0 < internalAddress x \<and> 0 < internalSize x
     \<and> internalAddress x + internalSize x < 2 ^ 64 \<and> slot_pages P x \<subseteq> m
     \<and> (userAddress x = 0 \<or> internalAddress x \<le> userAddress x \<and> userAddress x < internalAddress x + internalSize x)"

definition slot_ok :: "nat \<Rightarrow> bool \<Rightarrow> nat set \<Rightarrow> (nat \<Rightarrow> bool) \<Rightarrow> Slot \<Rightarrow> bool" where
  "slot_ok P below m pr x \<longleftrightarrow>
     (if slot_mode x = NOT_IN_USE then x = empty_slot else range_ok P m x)
     \<and> (slot_mode x = ALLOCATED \<longrightarrow> buffer_ok P below pr x)
     \<and> (slot_mode x = PROTECTED \<longrightarrow> (\<forall>p \<in> slot_pages P x. \<not> pr p))"

definition slots_ok :: "nat \<Rightarrow> bool \<Rightarrow> nat set \<Rightarrow> (nat \<Rightarrow> bool) \<Rightarrow> Slot list \<Rightarrow> bool" where
  "slots_ok P below m pr xs \<longleftrightarrow> (\<forall>i < length xs. slot_ok P below m pr (xs ! i))
     \<and> (\<forall>i < length xs. \<forall>j < length xs. i \<noteq> j \<longrightarrow> slot_pages P (xs ! i) \<inter> slot_pages P (xs ! j) = {})"

definition free_count :: "Slot list \<Rightarrow> nat" where
  "free_count xs = length (filter (\<lambda>x. slot_mode x = NOT_IN_USE) xs)"

lemma slot_pages_empty [simp]: "slot_pages P empty_slot = {}"
  by (simp add: slot_pages_def empty_slot_def)

lemma slot_mode_empty [simp]: "slot_mode empty_slot = NOT_IN_USE"
  by (simp add: empty_slot_def)

lemma buffer_ok_cong:
  assumes "buffer_ok P below pr x" "\<forall>p \<in> slot_pages P x. pr' p = pr p" "P dvd internalAddress x" "P dvd internalSize x"
  shows "buffer_ok P below pr' x"
proof -
  have le: "P \<le> internalSize x" using assms(1) by (simp add: buffer_ok_def)
  have d: "P dvd internalSize x - P" using assms(4) by (simp add: dvd_diff_nat)
  have "slot_pages P x = pages P (internalAddress x) P \<union> pages P (internalAddress x + P) (internalSize x - P)"
    using pages_split [OF assms(3) _ d, of P] le by (simp add: slot_pages_def)
  then have below: "pages P (internalAddress x) P \<subseteq> slot_pages P x" "pages P (internalAddress x + P) (internalSize x - P) \<subseteq> slot_pages P x"
    by simp_all
  have "slot_pages P x = pages P (internalAddress x) (internalSize x - P) \<union> pages P (internalAddress x + (internalSize x - P)) P"
    using pages_split [OF assms(3) d, of P] le by (simp add: slot_pages_def)
  then have above: "pages P (internalAddress x) (internalSize x - P) \<subseteq> slot_pages P x"
    "pages P (internalAddress x + (internalSize x - P)) P \<subseteq> slot_pages P x"
    by simp_all
  show ?thesis using assms(1,2) below above unfolding buffer_ok_def by (meson subset_iff)
qed

lemma slot_ok_cong:
  assumes "slot_ok P below m pr x" "m \<subseteq> m'" "\<forall>p \<in> slot_pages P x. pr' p = pr p"
  shows "slot_ok P below m' pr' x"
proof -
  have "range_ok P m x \<Longrightarrow> range_ok P m' x" using assms(2) by (auto simp: range_ok_def)
  moreover have "range_ok P m x \<Longrightarrow> buffer_ok P below pr x \<Longrightarrow> buffer_ok P below pr' x"
    using buffer_ok_cong [OF _ assms(3)] by (simp add: range_ok_def)
  ultimately show ?thesis using assms(1,3) by (auto simp: slot_ok_def)
qed

lemma slots_ok_cong:
  assumes "slots_ok P below m pr xs" "m \<subseteq> m'" "\<forall>i < length xs. \<forall>p \<in> slot_pages P (xs ! i). pr' p = pr p"
  shows "slots_ok P below m' pr' xs"
  using assms slot_ok_cong [OF _ assms(2)] by (auto simp: slots_ok_def)

lemma slots_ok_update:
  assumes "slots_ok P below m pr xs" "i < length xs" "slot_ok P below m' pr' x" "m \<subseteq> m'"
    "\<forall>j < length xs. j \<noteq> i \<longrightarrow> slot_pages P x \<inter> slot_pages P (xs ! j) = {}"
    "\<forall>j < length xs. j \<noteq> i \<longrightarrow> (\<forall>p \<in> slot_pages P (xs ! j). pr' p = pr p)"
  shows "slots_ok P below m' pr' (xs[i := x])"
  unfolding slots_ok_def
proof (intro conjI allI impI)
  fix j assume "j < length (xs[i := x])"
  then show "slot_ok P below m' pr' (xs[i := x] ! j)"
    using assms slot_ok_cong [OF _ assms(4), of P below pr "xs ! j" pr'] by (cases "j = i") (auto simp: slots_ok_def)
next
  fix j k assume "j < length (xs[i := x])" "k < length (xs[i := x])" "j \<noteq> k"
  then show "slot_pages P (xs[i := x] ! j) \<inter> slot_pages P (xs[i := x] ! k) = {}"
    using assms(1,5) by (cases "j = i"; cases "k = i") (auto simp: slots_ok_def)
qed

lemma free_count_update:
  "i < length xs \<Longrightarrow> free_count (xs[i := x]) + (if slot_mode (xs ! i) = NOT_IN_USE then 1 else 0) =
     free_count xs + (if slot_mode x = NOT_IN_USE then 1 else 0)"
proof (induction xs arbitrary: i)
  case (Cons y xs)
  then show ?case by (cases i) (auto simp: free_count_def)
qed simp

lemma free_count_le: "free_count xs \<le> length xs"
  by (simp add: free_count_def)

lemma used_piece: "slots_ok P below m pr xs \<Longrightarrow> i < length xs \<Longrightarrow> slot_mode (xs ! i) \<noteq> NOT_IN_USE \<Longrightarrow> range_ok P m (xs ! i)"
  by (auto simp: slots_ok_def slot_ok_def)

lemma unused_empty: "slots_ok P below m pr xs \<Longrightarrow> i < length xs \<Longrightarrow> slot_mode (xs ! i) = NOT_IN_USE \<Longrightarrow> xs ! i = empty_slot"
  by (auto simp: slots_ok_def slot_ok_def)

lemma slot_mapped:
  assumes "slots_ok P below m pr xs" "i < length xs"
  shows "slot_pages P (xs ! i) \<subseteq> m"
proof (cases "slot_mode (xs ! i) = NOT_IN_USE")
  case True
  then show ?thesis using unused_empty [OF assms] by simp
next
  case False
  then show ?thesis using used_piece [OF assms] by (simp add: range_ok_def)
qed

text \<open>What the system, the page size and the settings must be like. A system that refuses \<open>mprotect\<close> is dealt with in \<open>Ef_Refuse\<close>.\<close>

definition mmap_ok :: "nat \<Rightarrow> (nat \<Rightarrow> nat \<Rightarrow> nat \<Rightarrow> (nat \<times> nat) list \<Rightarrow> nat option) \<Rightarrow> bool" where
  "mmap_ok P mm \<longleftrightarrow> (\<forall>k h n ms a. P dvd n \<longrightarrow> mm k h n ms = Some a \<longrightarrow>
     P dvd a \<and> 0 < a \<and> a + n < 2 ^ 64 \<and> (\<forall>(b, l) \<in> set ms. a + n \<le> b \<or> b + l \<le> a))"

definition system_ok :: "fence \<Rightarrow> bool" where
  "system_ok s \<longleftrightarrow> 360 \<le> os_page s \<and> os_page s < 2 ^ 20 \<and> bytesPerPage s = os_page s \<and> slotsPerPage s = os_page s div 40
     \<and> mmap_ok (os_page s) (os_mmap s) \<and> list_all (\<lambda>(b, l). os_page s dvd b \<and> os_page s dvd l) (mapped s)
     \<and> (EF_PROTECT_BELOW s = 0 \<or> EF_ALLOW_MALLOC_0 s = 0)
     \<and> (to_size (EF_ALIGNMENT s) \<le> 1 \<or> to_size (EF_ALIGNMENT s) dvd os_page s) \<and> os_mprotect s = willing"

definition list_ok :: "fence \<Rightarrow> bool" where
  "list_ok s \<longleftrightarrow> os_page s dvd allocationList s \<and> os_page s dvd allocationListSize s \<and> 0 < allocationList s \<and> 0 < allocationListSize s
     \<and> length (slots s) * 40 \<le> allocationListSize s
     \<and> (\<exists>i < length (slots s). slot_mode (slots s ! i) = INTERNAL_USE \<and> userAddress (slots s ! i) = allocationList s
        \<and> internalAddress (slots s ! i) \<le> allocationList s
        \<and> allocationList s + allocationListSize s \<le> internalAddress (slots s ! i) + internalSize (slots s ! i))"

definition arena :: "fence \<Rightarrow> bool" where
  "arena s \<longleftrightarrow> system_ok s \<and> slots_ok (os_page s) (EF_PROTECT_BELOW s \<noteq> 0) (Collect (page_mapped s)) (prot s) (slots s)
     \<and> unUsedSlots s = free_count (slots s) \<and> list_ok s"

end
