(* ===== verification/Ef_Malloc.thy ===== *)
theory Ef_Malloc
  imports Ef_Arena
begin

text \<open>The steps of \<open>memalign_locked\<close> on a state that satisfies the invariant.\<close>

subsection \<open>Turning a free slot into a buffer\<close>

definition placed :: "fence \<Rightarrow> nat \<Rightarrow> nat \<Rightarrow> nat \<Rightarrow> nat" where
  "placed s a need n = (if EF_PROTECT_BELOW s = 0 then a + (need - os_page s) - n else a + os_page s)"

definition placed_slot :: "fence \<Rightarrow> nat \<Rightarrow> nat \<Rightarrow> nat \<Rightarrow> Slot" where
  "placed_slot s a need n = \<lparr>userAddress = placed s a need n, internalAddress = a, userSize = n, internalSize = need,
     slot_mode = (if internalUse s then INTERNAL_USE else ALLOCATED)\<rparr>"

definition rest_slot :: "Slot \<Rightarrow> nat \<Rightarrow> Slot" where
  "rest_slot f need = \<lparr>userAddress = 0, internalAddress = internalAddress f + need, userSize = 0,
     internalSize = internalSize f - need, slot_mode = FREE\<rparr>"

definition placed_prot :: "fence \<Rightarrow> nat \<Rightarrow> nat \<Rightarrow> nat \<Rightarrow> bool" where
  "placed_prot s a need =
     (if EF_PROTECT_BELOW s = 0
      then (\<lambda>p. if p \<in> pages (os_page s) (a + (need - os_page s)) (os_page s) then False
                else if p \<in> pages (os_page s) a (need - os_page s) then True else prot s p)
      else (\<lambda>p. if p \<in> pages (os_page s) (a + os_page s) (need - os_page s) then True
                else if p \<in> pages (os_page s) a (os_page s) then False else prot s p))"

definition placed_cells :: "fence \<Rightarrow> nat \<Rightarrow> nat \<Rightarrow> nat \<Rightarrow> u8" where
  "placed_cells s a need =
     (let d = (if EF_PROTECT_BELOW s = 0 then a + (need - os_page s) else a)
      in (\<lambda>x. if d \<le> x \<and> x < d + os_page s then 0 else cells s x))"

definition committed :: "fence \<Rightarrow> nat \<Rightarrow> nat \<Rightarrow> nat \<Rightarrow> nat \<Rightarrow> fence" where
  "committed s i e need n =
     (let f = slots s ! i; a = internalAddress f
      in s\<lparr>prot := placed_prot s a need, cells := placed_cells s a need,
           slots := (if need < internalSize f then (slots s)[e := rest_slot f need] else slots s)[i := placed_slot s a need n],
           unUsedSlots := unUsedSlots s - (if need < internalSize f then 1 else 0)\<rparr>)"

lemma live_pages_result:
  assumes "0 < os_page s" "bytesPerPage s = os_page s" "os_page s dvd a" "os_page s dvd need" "os_page s \<le> need" "need < 2 ^ 64"
    "pages (os_page s) a (need - os_page s) \<subseteq> Collect (page_mapped s)" "os_mprotect s = willing"
  shows "live_pages a need s = Inr (s\<lparr>prot := (\<lambda>p. if p \<in> pages (os_page s) a (need - os_page s) then True else prot s p)\<rparr>)"
  using assms by (simp add: live_pages_def page_calls dvd_diff_nat)

lemma place_buffer_result:
  assumes "0 < os_page s" "bytesPerPage s = os_page s" "internalAddress (slots s ! i) = a" "os_page s dvd a" "os_page s dvd need"
    "os_page s + n \<le> need" "a + need < 2 ^ 64" "pages (os_page s) a need \<subseteq> Collect (page_mapped s)"
    "os_mprotect s = willing"
  shows "place_buffer i need n s = Inr (placed s a need n, s\<lparr>prot := placed_prot s a need, cells := placed_cells s a need\<rparr>)"
proof -
  let ?P = "os_page s"
  have le: "?P \<le> need" and d: "?P dvd need - ?P" using assms(5,6) by (auto simp: dvd_diff_nat)
  have sp: "pages ?P a need = pages ?P a (need - ?P) \<union> pages ?P (a + (need - ?P)) ?P"
    "pages ?P a need = pages ?P a ?P \<union> pages ?P (a + ?P) (need - ?P)"
    using pages_split [OF assms(4) d, of ?P] pages_split [OF assms(4) _ d, of ?P] le by simp_all
  then have m: "pages ?P a (need - ?P) \<subseteq> Collect (page_mapped s)" "pages ?P (a + (need - ?P)) ?P \<subseteq> Collect (page_mapped s)"
    "pages ?P a ?P \<subseteq> Collect (page_mapped s)" "pages ?P (a + ?P) (need - ?P) \<subseteq> Collect (page_mapped s)"
    using assms(8) by auto
  have d2: "?P dvd a + (need - ?P)" "?P dvd a + ?P" using assms(4) d by simp_all
  show ?thesis
  proof (cases "EF_PROTECT_BELOW s = 0")
    case True
    have "live_pages a need s = Inr (s\<lparr>prot := (\<lambda>p. if p \<in> pages ?P a (need - ?P) then True else prot s p)\<rparr>)"
      using assms le m(1) by (intro live_pages_result) simp_all
    with True show ?thesis
      using assms le d2(1) m(2)
      by (simp add: place_buffer_def and_then_def page_calls(3) placed_def placed_prot_def placed_cells_def Let_def cong: if_cong)
  next
    case False
    define t where "t = s\<lparr>prot := (\<lambda>p. if p \<in> pages ?P a ?P then False else prot s p), cells := (\<lambda>x. if a \<le> x \<and> x < a + ?P then 0 else cells s x)\<rparr>"
    have "Page_Delete a ?P s = Inr t" using assms m(3) by (simp add: page_calls(3) t_def)
    moreover have "live_pages (a + ?P) need t = Inr (t\<lparr>prot := (\<lambda>p. if p \<in> pages ?P (a + ?P) (need - ?P) then True else prot t p)\<rparr>)"
      using live_pages_result [of t "a + ?P" need] assms le d2(2) m(4) by (simp add: t_def)
    ultimately show ?thesis using False assms le
      by (simp add: place_buffer_def and_then_def placed_def placed_prot_def placed_cells_def Let_def t_def cong: if_cong)
  qed
qed

lemma slot_update:
  "f\<lparr>slot_mode := M, internalSize := k, userAddress := u, userSize := n\<rparr> =
     \<lparr>userAddress = u, internalAddress = internalAddress f, userSize = n, internalSize = k, slot_mode = M\<rparr>"
  by (cases f) simp

lemma commit_result:
  assumes "0 < os_page s" "bytesPerPage s = os_page s" "i < length (slots s)" "e < length (slots s)" "i \<noteq> e"
    "slots s ! e = empty_slot" "range_ok (os_page s) (Collect (page_mapped s)) (slots s ! i)"
    "os_page s dvd need" "os_page s + n \<le> need" "need \<le> internalSize (slots s ! i)"
    "need < internalSize (slots s ! i) \<Longrightarrow> 0 < unUsedSlots s" "unUsedSlots s < 2 ^ 64" "os_mprotect s = willing"
  shows "\<exists>t. place_buffer i need n (claim_slot i e need s) = Inr (placed s (internalAddress (slots s ! i)) need n, t)
    \<and> set_slot i (\<lambda>x. x\<lparr>userAddress := placed s (internalAddress (slots s ! i)) need n, userSize := n\<rparr>) t = committed s i e need n"
proof -
  define f where "f = slots s ! i"
  define M where "M = (if internalUse s then INTERNAL_USE else ALLOCATED)"
  define c where "c = s\<lparr>slots := (if need < internalSize f then (slots s)[e := rest_slot f need] else slots s)
      [i := f\<lparr>slot_mode := M, internalSize := need\<rparr>], unUsedSlots := unUsedSlots s - (if need < internalSize f then 1 else 0)\<rparr>"
  have f: "internalAddress f + internalSize f < 2 ^ 64" "need \<le> internalSize f" "os_page s dvd internalAddress f"
    "slot_pages (os_page s) f \<subseteq> Collect (page_mapped s)" using assms(7,10) by (simp_all add: range_ok_def f_def)
  have claim: "claim_slot i e need s = c"
  proof (cases "need < internalSize f")
    case True
    then show ?thesis using assms(3-6,11,12) f(1)
      by (simp add: claim_slot_def set_slot_def Let_def c_def f_def [symmetric] M_def rest_slot_def empty_slot_def list_update_swap nth_list_update)
  next
    case False
    then have "internalSize f = need" using f(2) by simp
    then have "f\<lparr>slot_mode := M, internalSize := need\<rparr> = f\<lparr>slot_mode := M\<rparr>" by (cases f) simp
    with False assms(3) show ?thesis by (simp add: claim_slot_def set_slot_def Let_def c_def f_def [symmetric] M_def)
  qed
  have ci: "slots c ! i = f\<lparr>slot_mode := M, internalSize := need\<rparr>" using assms(3-5) by (auto simp: c_def nth_list_update)
  have "pages (os_page s) (internalAddress f) need \<subseteq> Collect (page_mapped s)"
    using f(4) pages_sub [OF f(2)] unfolding slot_pages_def by blast
  then have "place_buffer i need n c =
      Inr (placed c (internalAddress f) need n, c\<lparr>prot := placed_prot c (internalAddress f) need, cells := placed_cells c (internalAddress f) need\<rparr>)"
    using assms(1,2,8,9,13) f ci by (intro place_buffer_result) (simp_all add: c_def)
  moreover have "placed c = placed s" "placed_prot c = placed_prot s" "placed_cells c = placed_cells s"
    by (auto simp: fun_eq_iff placed_def placed_prot_def placed_cells_def c_def Let_def cong: if_cong)
  ultimately have "place_buffer i need n (claim_slot i e need s) = Inr (placed s (internalAddress f) need n,
      c\<lparr>prot := placed_prot s (internalAddress f) need, cells := placed_cells s (internalAddress f) need\<rparr>)"
    using claim by simp
  moreover have "set_slot i (\<lambda>x. x\<lparr>userAddress := placed s (internalAddress f) need n, userSize := n\<rparr>)
      (c\<lparr>prot := placed_prot s (internalAddress f) need, cells := placed_cells s (internalAddress f) need\<rparr>) = committed s i e need n"
    using assms(3) by (simp add: set_slot_def committed_def Let_def f_def [symmetric] placed_slot_def ci slot_update M_def [symmetric])
      (simp add: c_def)
  ultimately show ?thesis unfolding f_def by blast
qed

text \<open>The protection and the contents outside the buffer do not change.\<close>

lemma placed_outside:
  assumes "0 < os_page s" "os_page s dvd a" "os_page s dvd need" "os_page s \<le> need"
  shows "p \<notin> pages (os_page s) a need \<Longrightarrow> placed_prot s a need p = prot s p"
    and "x div os_page s \<notin> pages (os_page s) a need \<Longrightarrow> placed_cells s a need x = cells s x"
proof -
  let ?P = "os_page s"
  have d: "?P dvd need - ?P" using assms(3) by (simp add: dvd_diff_nat)
  have sp: "pages ?P a need = pages ?P a (need - ?P) \<union> pages ?P (a + (need - ?P)) ?P"
    "pages ?P a need = pages ?P a ?P \<union> pages ?P (a + ?P) (need - ?P)"
    using pages_split [OF assms(2) d, of ?P] pages_split [OF assms(2) _ d, of ?P] assms(4) by simp_all
  show "p \<notin> pages ?P a need \<Longrightarrow> placed_prot s a need p = prot s p" using sp by (auto simp: placed_prot_def)
  show "x div ?P \<notin> pages ?P a need \<Longrightarrow> placed_cells s a need x = cells s x"
    using in_pages [OF assms(1) _ dvd_refl, of "a + (need - ?P)" x] in_pages [OF assms(1) assms(2) dvd_refl, of x] assms(2) d sp
    by (auto simp: placed_cells_def Let_def)
qed

lemma placed_buffer_ok:
  assumes "os_page s dvd a" "os_page s dvd need" "os_page s + n \<le> need"
  shows "buffer_ok (os_page s) (EF_PROTECT_BELOW s \<noteq> 0) (placed_prot s a need) (placed_slot s a need n)"
proof -
  have d: "os_page s dvd need - os_page s" using assms(2) by (simp add: dvd_diff_nat)
  have dis: "pages (os_page s) a (need - os_page s) \<inter> pages (os_page s) (a + (need - os_page s)) (os_page s) = {}"
    "pages (os_page s) a (os_page s) \<inter> pages (os_page s) (a + os_page s) (need - os_page s) = {}"
    using pages_disjoint [OF assms(1) d] pages_disjoint [OF assms(1) dvd_refl] by simp_all
  then show ?thesis using assms(3) by (auto simp: buffer_ok_def placed_slot_def placed_def placed_prot_def)
qed

lemma placed_slot_ok:
  assumes "0 < os_page s" "os_page s dvd a" "os_page s dvd need" "os_page s + n \<le> need" "0 < a" "a + need < 2 ^ 64"
    "pages (os_page s) a need \<subseteq> m" "EF_PROTECT_BELOW s \<noteq> 0 \<Longrightarrow> 0 < n"
  shows "slot_ok (os_page s) (EF_PROTECT_BELOW s \<noteq> 0) m (placed_prot s a need) (placed_slot s a need n)"
proof -
  have "range_ok (os_page s) m (placed_slot s a need n)"
    using assms by (auto simp: range_ok_def placed_slot_def slot_pages_def placed_def)
  then show ?thesis using placed_buffer_ok [OF assms(2-4)] by (simp add: slot_ok_def) (simp add: placed_slot_def)
qed

lemma rest_slot_ok:
  assumes "range_ok P m f" "P dvd need" "0 < need" "need < internalSize f"
  shows "slot_ok P b m pr (rest_slot f need)"
    "slot_pages P f = pages P (internalAddress f) need \<union> slot_pages P (rest_slot f need)"
    "pages P (internalAddress f) need \<inter> slot_pages P (rest_slot f need) = {}"
proof -
  have d: "P dvd internalSize f - need" using assms by (simp add: range_ok_def dvd_diff_nat)
  show sp: "slot_pages P f = pages P (internalAddress f) need \<union> slot_pages P (rest_slot f need)"
    using pages_split [of P "internalAddress f" need "internalSize f - need"] assms d
    by (simp add: slot_pages_def rest_slot_def range_ok_def)
  show "pages P (internalAddress f) need \<inter> slot_pages P (rest_slot f need) = {}"
    using assms pages_disjoint by (simp add: slot_pages_def rest_slot_def range_ok_def)
  have "slot_pages P (rest_slot f need) \<subseteq> m" using sp assms(1) by (auto simp: range_ok_def)
  then show "slot_ok P b m pr (rest_slot f need)" using assms d by (simp add: slot_ok_def range_ok_def rest_slot_def)
qed

definition settings :: "fence \<Rightarrow> (nat \<times> (nat \<Rightarrow> nat \<Rightarrow> nat \<Rightarrow> (nat \<times> nat) list \<Rightarrow> nat option) \<times> string) \<times> (int \<times> int \<times> int \<times> int \<times> int) \<times> nat \<times> nat \<times> bool \<times> nat \<times> (nat \<Rightarrow> bool)" where
  "settings s = ((os_page s, os_mmap s, os_error s), (EF_ALIGNMENT s, EF_PROTECT_FREE s, EF_PROTECT_BELOW s, EF_ALLOW_MALLOC_0 s, EF_FILL s),
     bytesPerPage s, slotsPerPage s, semEnabled s, EF_sem s, os_mprotect s)"

text \<open>\<open>s'\<close> differs from \<open>s\<close> in protection and contents only on the pages \<open>D\<close>.\<close>

definition keeps :: "nat set \<Rightarrow> fence \<Rightarrow> fence \<Rightarrow> bool" where
  "keeps D s s' \<longleftrightarrow> settings s' = settings s \<and> (\<forall>p. p \<notin> D \<longrightarrow> prot s' p = prot s p)
     \<and> (\<forall>x. x div os_page s \<notin> D \<longrightarrow> cells s' x = cells s x)"

lemma keeps_refl [simp]: "keeps D s s"
  by (simp add: keeps_def)

lemma settings_eqD:
  assumes "settings t = settings s"
  shows "os_page t = os_page s" "os_mmap t = os_mmap s" "os_error t = os_error s" "EF_ALIGNMENT t = EF_ALIGNMENT s"
    "EF_PROTECT_FREE t = EF_PROTECT_FREE s" "EF_PROTECT_BELOW t = EF_PROTECT_BELOW s" "EF_ALLOW_MALLOC_0 t = EF_ALLOW_MALLOC_0 s"
    "EF_FILL t = EF_FILL s" "bytesPerPage t = bytesPerPage s" "slotsPerPage t = slotsPerPage s" "semEnabled t = semEnabled s" "EF_sem t = EF_sem s"
    "os_mprotect t = os_mprotect s"
proof -
  show "os_page t = os_page s" using assms by (simp only: settings_def prod.inject)
  show "os_mmap t = os_mmap s" using assms by (simp only: settings_def prod.inject)
  show "os_error t = os_error s" using assms by (simp only: settings_def prod.inject)
  show "EF_ALIGNMENT t = EF_ALIGNMENT s" using assms by (simp only: settings_def prod.inject)
  show "EF_PROTECT_FREE t = EF_PROTECT_FREE s" using assms by (simp only: settings_def prod.inject)
  show "EF_PROTECT_BELOW t = EF_PROTECT_BELOW s" using assms by (simp only: settings_def prod.inject)
  show "EF_ALLOW_MALLOC_0 t = EF_ALLOW_MALLOC_0 s" using assms by (simp only: settings_def prod.inject)
  show "EF_FILL t = EF_FILL s" using assms by (simp only: settings_def prod.inject)
  show "bytesPerPage t = bytesPerPage s" using assms by (simp only: settings_def prod.inject)
  show "slotsPerPage t = slotsPerPage s" using assms by (simp only: settings_def prod.inject)
  show "semEnabled t = semEnabled s" using assms by (simp only: settings_def prod.inject)
  show "EF_sem t = EF_sem s" using assms by (simp only: settings_def prod.inject)
  show "os_mprotect t = os_mprotect s" using assms by (simp only: settings_def prod.inject)
qed

lemma keeps_trans:
  assumes "keeps D s t" "keeps D' t u" "D \<union> D' \<subseteq> E"
  shows "keeps E s u"
proof -
  have "os_page t = os_page s" using assms(1) unfolding keeps_def by (blast intro: settings_eqD(1))
  moreover have "settings u = settings s" using assms(1,2) by (simp add: keeps_def)
  moreover have "prot u p = prot s p" if "p \<notin> E" for p
  proof -
    have "p \<notin> D" "p \<notin> D'" using that assms(3) by auto
    then show ?thesis using assms(1,2) by (simp add: keeps_def)
  qed
  moreover have "cells u x = cells s x" if "x div os_page s \<notin> E" for x
  proof -
    have "x div os_page s \<notin> D" "x div os_page s \<notin> D'" using that assms(3) by auto
    then show ?thesis using assms(1,2) calculation(1) by (simp add: keeps_def)
  qed
  ultimately show ?thesis by (simp add: keeps_def)
qed

lemma arenaD:
  assumes "arena s"
  shows "0 < os_page s" "360 \<le> os_page s" "bytesPerPage s = os_page s" "system_ok s"
    "slots_ok (os_page s) (EF_PROTECT_BELOW s \<noteq> 0) (Collect (page_mapped s)) (prot s) (slots s)" "unUsedSlots s = free_count (slots s)" "list_ok s"
    "os_mprotect s = willing"
  using assms by (simp_all add: arena_def system_ok_def)

lemma list_bounds:
  assumes "arena s"
  shows "allocationList s + allocationListSize s < 2 ^ 64" "length (slots s) < 2 ^ 60" "unUsedSlots s < 2 ^ 60"
    "pages (os_page s) (allocationList s) (allocationListSize s) \<subseteq> Collect (page_mapped s)"
    "os_page s dvd allocationList s" "os_page s dvd allocationListSize s"
proof -
  note ok = arenaD(5) [OF assms]
  from arenaD(7) [OF assms] obtain j where j: "j < length (slots s)" "slot_mode (slots s ! j) = INTERNAL_USE"
    "internalAddress (slots s ! j) \<le> allocationList s"
    "allocationList s + allocationListSize s \<le> internalAddress (slots s ! j) + internalSize (slots s ! j)"
    and d: "os_page s dvd allocationList s" "os_page s dvd allocationListSize s" and len: "length (slots s) * 40 \<le> allocationListSize s"
    by (auto simp: list_ok_def)
  have r: "range_ok (os_page s) (Collect (page_mapped s)) (slots s ! j)" using used_piece [OF ok j(1)] j(2) by simp
  then show bound: "allocationList s + allocationListSize s < 2 ^ 64" using j(4) by (simp add: range_ok_def)
  with len show small: "length (slots s) < 2 ^ 60" by simp
  show "unUsedSlots s < 2 ^ 60" using small free_count_le [of "slots s"] arenaD(6) [OF assms] by simp
  have "pages (os_page s) (allocationList s) (allocationListSize s) \<subseteq> slot_pages (os_page s) (slots s ! j)"
    using j(3,4) by (auto simp: pages_def slot_pages_def intro: less_le_trans le_trans div_le_mono)
  with r show "pages (os_page s) (allocationList s) (allocationListSize s) \<subseteq> Collect (page_mapped s)" by (auto simp: range_ok_def)
  show "os_page s dvd allocationList s" "os_page s dvd allocationListSize s" by fact+
qed

lemma commit_arena:
  assumes "arena s" "i < length (slots s)" "e < length (slots s)" "slot_mode (slots s ! i) = FREE" "slots s ! e = empty_slot"
    "os_page s dvd need" "os_page s + n \<le> need" "need \<le> internalSize (slots s ! i)" "EF_PROTECT_BELOW s \<noteq> 0 \<Longrightarrow> 0 < n"
  shows "arena (committed s i e need n)"
    and "keeps (pages (os_page s) (internalAddress (slots s ! i)) need) s (committed s i e need n)"
    and "slots (committed s i e need n) ! i = placed_slot s (internalAddress (slots s ! i)) need n"
    and "\<forall>j < length (slots s). j \<noteq> i \<longrightarrow> slots (committed s i e need n) ! j = slots s ! j \<or> (j = e \<and> slot_mode (slots (committed s i e need n) ! j) = FREE)"
proof -
  let ?P = "os_page s" let ?b = "EF_PROTECT_BELOW s \<noteq> 0" let ?m = "Collect (page_mapped s)"
  define f where "f = slots s ! i"
  define a where "a = internalAddress f"
  note A = arenaD [OF assms(1)]
  have ie: "i \<noteq> e" using assms(4,5) by auto
  have f: "range_ok ?P ?m f" using used_piece [OF A(5) assms(2)] assms(4) by (simp add: f_def)
  then have r: "?P dvd a" "0 < a" "a + internalSize f < 2 ^ 64" "slot_pages ?P f \<subseteq> ?m" by (simp_all add: range_ok_def a_def)
  have need: "need \<le> internalSize f" "a + need < 2 ^ 64" "?P \<le> need" "0 < need" using assms(7,8) r(3) A(1) by (simp_all add: f_def)
  have sub: "pages ?P a need \<subseteq> slot_pages ?P f" using pages_sub [OF need(1)] by (simp add: slot_pages_def a_def)
  let ?x = "placed_slot s a need n"
  have xp: "slot_pages ?P ?x = pages ?P a need" by (simp add: slot_pages_def placed_slot_def)
  have out: "p \<notin> pages ?P a need \<Longrightarrow> placed_prot s a need p = prot s p" "z div ?P \<notin> pages ?P a need \<Longrightarrow> placed_cells s a need z = cells s z" for p z
    using placed_outside [OF A(1) r(1) assms(6) need(3)] by auto
  have apart: "slot_pages ?P f \<inter> slot_pages ?P (slots s ! j) = {}" if "j < length (slots s)" "j \<noteq> i" for j
    using A(5) that assms(2) by (auto simp: slots_ok_def f_def)
  have ok1: "slots_ok ?P ?b ?m (placed_prot s a need) ((slots s)[i := ?x])"
  proof (rule slots_ok_update [OF A(5) assms(2)])
    show "slot_ok ?P ?b ?m (placed_prot s a need) ?x"
      using assms r need sub A(1) by (intro placed_slot_ok) auto
    show "\<forall>j < length (slots s). j \<noteq> i \<longrightarrow> slot_pages ?P ?x \<inter> slot_pages ?P (slots s ! j) = {}" using apart sub xp by blast
    show "\<forall>j < length (slots s). j \<noteq> i \<longrightarrow> (\<forall>p \<in> slot_pages ?P (slots s ! j). placed_prot s a need p = prot s p)"
      using apart sub out(1) by blast
  qed simp
  define xs where "xs = (if need < internalSize f then (slots s)[e := rest_slot f need] else slots s)[i := ?x]"
  have ok: "slots_ok ?P ?b ?m (placed_prot s a need) xs"
  proof (cases "need < internalSize f")
    case True
    note rest = rest_slot_ok [OF f assms(6) need(4) True]
    have "slots_ok ?P ?b ?m (placed_prot s a need) ((slots s)[i := ?x, e := rest_slot f need])"
    proof (rule slots_ok_update [OF ok1])
      show "\<forall>j < length ((slots s)[i := ?x]). j \<noteq> e \<longrightarrow> slot_pages ?P (rest_slot f need) \<inter> slot_pages ?P ((slots s)[i := ?x] ! j) = {}"
        using rest(2,3) apart xp assms(2) by (auto simp: nth_list_update a_def)
    qed (use assms(3) rest(1) in auto)
    with True ie show ?thesis by (simp add: xs_def list_update_swap)
  qed (use ok1 in \<open>simp add: xs_def\<close>)
  have count: "unUsedSlots s - (if need < internalSize f then 1 else 0) = free_count xs"
  proof -
    have "free_count ((slots s)[e := rest_slot f need]) + 1 = free_count (slots s)"
      using free_count_update [OF assms(3), of "rest_slot f need"] assms(5) by (simp add: rest_slot_def)
    then have "free_count ((slots s)[e := rest_slot f need]) = free_count (slots s) - 1" by simp
    moreover have "free_count (ys[i := ?x]) = free_count ys" if "i < length ys" "slot_mode (ys ! i) = FREE" for ys
      using free_count_update [OF that(1), of ?x] that(2) by (simp add: placed_slot_def)
    ultimately show ?thesis using A(6) assms(2-4) ie by (simp add: xs_def)
  qed
  have c: "committed s i e need n = s\<lparr>prot := placed_prot s a need, cells := placed_cells s a need, slots := xs, unUsedSlots := free_count xs\<rparr>"
    using count by (simp add: committed_def Let_def f_def a_def xs_def)
  have others: "\<forall>j < length (slots s). j \<noteq> i \<longrightarrow> xs ! j = slots s ! j \<or> (j = e \<and> slot_mode (xs ! j) = FREE)"
  proof (intro allI impI)
    fix j assume "j < length (slots s)" "j \<noteq> i"
    then show "xs ! j = slots s ! j \<or> (j = e \<and> slot_mode (xs ! j) = FREE)"
      by (cases "j = e") (simp_all add: xs_def rest_slot_def)
  qed
  have "list_ok (s\<lparr>prot := placed_prot s a need, cells := placed_cells s a need, slots := xs, unUsedSlots := free_count xs\<rparr>)"
  proof -
    have len: "length xs = length (slots s)" by (simp add: xs_def)
    have "\<And>j. j < length (slots s) \<Longrightarrow> slot_mode (slots s ! j) = INTERNAL_USE \<Longrightarrow> xs ! j = slots s ! j"
      using assms(2-5) by (auto simp: xs_def nth_list_update)
    then show ?thesis using A(7) by (auto simp: list_ok_def len)
  qed
  then show "arena (committed s i e need n)" using ok A(4) unfolding c arena_def by (simp add: system_ok_def)
  show "keeps (pages ?P (internalAddress (slots s ! i)) need) s (committed s i e need n)"
    using out unfolding c f_def [symmetric] a_def [symmetric] by (simp add: keeps_def settings_def)
  show "slots (committed s i e need n) ! i = placed_slot s (internalAddress (slots s ! i)) need n"
    using assms(2) unfolding c by (simp add: xs_def f_def a_def)
  show "\<forall>j < length (slots s). j \<noteq> i \<longrightarrow> slots (committed s i e need n) ! j = slots s ! j \<or> (j = e \<and> slot_mode (slots (committed s i e need n) ! j) = FREE)"
    using others unfolding c by simp
qed

end
