(* ===== verification/Ef_Scan.thy ===== *)
theory Ef_Scan
  imports Ef_Malloc
begin

text \<open>The search for a slot is a best fit, and it finds two unused slots when it finds no memory.\<close>

definition fits :: "nat \<Rightarrow> Slot \<Rightarrow> bool" where
  "fits need x \<longleftrightarrow> slot_mode x = FREE \<and> need \<le> internalSize x"

definition best :: "nat \<Rightarrow> Slot list \<Rightarrow> nat \<Rightarrow> (nat \<times> nat) option \<Rightarrow> bool" where
  "best need xs n full \<longleftrightarrow>
     (case full of
        None \<Rightarrow> \<forall>k < n. \<not> fits need (xs ! k)
      | Some (j, m) \<Rightarrow> j < length xs \<and> fits need (xs ! j) \<and> m = internalSize (xs ! j)
          \<and> (\<forall>k < n. fits need (xs ! k) \<longrightarrow> m \<le> internalSize (xs ! k))
          \<and> (\<forall>k < j. fits need (xs ! k) \<longrightarrow> m < internalSize (xs ! k)))"

definition unused :: "Slot list \<Rightarrow> nat \<Rightarrow> bool" where
  "unused xs k \<longleftrightarrow> k < length xs \<and> slot_mode (xs ! k) = NOT_IN_USE"

definition empties :: "Slot list \<Rightarrow> nat \<Rightarrow> nat option \<Rightarrow> nat option \<Rightarrow> bool" where
  "empties xs n e0 e1 \<longleftrightarrow>
     (case e0 of
        None \<Rightarrow> e1 = None \<and> (\<forall>k < n. \<not> unused xs k)
      | Some k \<Rightarrow> unused xs k \<and> k < n \<and> (case e1 of
            None \<Rightarrow> \<forall>l < n. unused xs l \<longrightarrow> l = k
          | Some l \<Rightarrow> unused xs l \<and> l < n \<and> l \<noteq> k))"

text \<open>What the loop leaves: when it stops early, the second unused slot may be missing, but then memory was found.\<close>

definition found :: "nat \<Rightarrow> Slot list \<Rightarrow> (nat \<times> nat) option \<times> nat option \<times> nat option \<Rightarrow> bool" where
  "found need xs r \<longleftrightarrow>
     (case r of (full, e0, e1) \<Rightarrow> best need xs (length xs) full
        \<and> (case e0 of None \<Rightarrow> \<forall>k. \<not> unused xs k | Some k \<Rightarrow> unused xs k)
        \<and> (full = None \<longrightarrow> empties xs (length xs) e0 e1))"

lemma found_end: "best need xs (length xs) full \<Longrightarrow> empties xs (length xs) e0 e1 \<Longrightarrow> found need xs (full, e0, e1)"
  by (auto simp: found_def empties_def unused_def split: option.splits)

lemma found_exact:
  assumes "best need xs n (Some (j, need))" "unused xs k"
  shows "found need xs (Some (j, need), Some k, e1)"
  using assms by (auto simp: found_def best_def fits_def)

lemma scan_found:
  assumes "ys = drop i xs" "i \<le> length xs" "best need xs i full" "empties xs i e0 e1"
  shows "found need xs (scan need ys i full e0 e1)"
  using assms
proof (induction need ys i full e0 e1 rule: scan.induct)
  case (1 need i full e0 e1)
  then have "i = length xs" by simp
  with 1 show ?case by (simp add: found_end)
next
  case (2 need x ys i full e0 e1)
  from "2.prems"(1) have i: "i < length xs" "xs ! i = x" "ys = drop (Suc i) xs"
    by (metis drop_all list.distinct(1) not_less, metis drop_all hd_drop_conv_nth list.distinct(1) list.sel(1) not_less,
        metis drop_Suc list.sel(3) tl_drop)
  consider (fit) "fits need x" | (empty) "slot_mode x = NOT_IN_USE" | (other) "\<not> fits need x" "slot_mode x \<noteq> NOT_IN_USE"
    by blast
  then show ?case
  proof cases
    case fit
    then have noemp: "empties xs (Suc i) e0 e1" using "2.prems"(4) i(2)
      by (auto simp: empties_def unused_def fits_def less_Suc_eq split: option.splits)
    show ?thesis
    proof (cases "case full of None \<Rightarrow> True | Some (j, m) \<Rightarrow> internalSize x < m")
      case True
      then have b: "best need xs (Suc i) (Some (i, internalSize x))" using "2.prems"(3) fit i
        by (auto simp: best_def less_Suc_eq split: option.splits prod.splits)
      show ?thesis
      proof (cases "internalSize x = need \<and> e0 \<noteq> None")
        case True
        then obtain k where "e0 = Some k" "unused xs k" using "2.prems"(4) by (auto simp: empties_def split: option.splits)
        with b True \<open>case full of None \<Rightarrow> True | Some (j, m) \<Rightarrow> internalSize x < m\<close> fit show ?thesis
          by (auto simp: fits_def intro: found_exact)
      next
        case False
        with True fit "2.IH"(1) b noemp i show ?thesis by (auto simp: fits_def)
      qed
    next
      case False
      then have "best need xs (Suc i) full" using "2.prems"(3) i by (auto simp: best_def less_Suc_eq split: option.splits prod.splits)
      with False fit "2.IH"(2) noemp i show ?thesis by (auto simp: fits_def)
    qed
  next
    case empty
    then have u: "unused xs i" using i by (simp add: unused_def)
    have b: "best need xs (Suc i) full" using "2.prems"(3) i empty by (auto simp: best_def fits_def less_Suc_eq split: option.splits prod.splits)
    show ?thesis
    proof (cases e0)
      case None
      with "2.prems"(4) u have "empties xs (Suc i) (Some i) e1" by (auto simp: empties_def less_Suc_eq)
      with None empty "2.IH"(3) b i show ?thesis by simp
    next
      case (Some k)
      show ?thesis
      proof (cases e1)
        case None
        with Some "2.prems"(4) u have "empties xs (Suc i) e0 (Some i)" by (auto simp: empties_def)
        with Some None empty "2.IH"(4) b i show ?thesis by simp
      next
        case e1: (Some l)
        show ?thesis
        proof (cases "case full of None \<Rightarrow> False | Some (j, m) \<Rightarrow> m = need")
          case True
          then obtain j where "full = Some (j, need)" by (auto split: option.splits)
          with Some e1 empty b "2.prems"(4) show ?thesis by (auto simp: empties_def intro: found_exact)
        next
          case False
          have "empties xs (Suc i) e0 e1" using "2.prems"(4) Some e1 by (auto simp: empties_def)
          with False Some e1 empty "2.IH"(5) b i show ?thesis by (simp split: option.splits prod.splits)
        qed
      qed
    qed
  next
    case other
    have "best need xs (Suc i) full" using "2.prems"(3) i other by (auto simp: best_def less_Suc_eq split: option.splits prod.splits)
    moreover have "empties xs (Suc i) e0 e1" using "2.prems"(4) i other by (auto simp: empties_def unused_def less_Suc_eq split: option.splits)
    ultimately show ?thesis using other "2.IH"(6) i by (auto simp: fits_def)
  qed
qed

lemma scan_result:
  assumes "scan need xs 0 None None None = (full, e0, e1)"
  shows "found need xs (full, e0, e1)"
proof -
  have "best need xs 0 None" "empties xs 0 None None" by (simp_all add: best_def empties_def)
  from scan_found [of xs 0 xs, OF _ _ this] show ?thesis using assms by simp
qed

text \<open>Which unused slots: the first one, and the second one unless the search stopped before it.\<close>

definition unused_slots :: "Slot list \<Rightarrow> nat list" where
  "unused_slots xs = filter (\<lambda>k. slot_mode (xs ! k) = NOT_IN_USE) [0..<length xs]"

definition unused_from :: "nat \<Rightarrow> Slot list \<Rightarrow> nat list" where
  "unused_from i xs = map fst (filter (\<lambda>(k, x). slot_mode x = NOT_IN_USE) (enumerate i xs))"

lemma unused_from_simps [simp]:
  "unused_from i [] = []"
  "unused_from i (x # xs) = (if slot_mode x = NOT_IN_USE then i # unused_from (Suc i) xs else unused_from (Suc i) xs)"
  by (simp_all add: unused_from_def)

lemma unused_from_0: "unused_from 0 xs = unused_slots xs"
proof -
  have "enumerate 0 xs = map (\<lambda>k. (k, xs ! k)) [0..<length xs]" by (rule nth_equalityI) (simp_all add: nth_enumerate_eq)
  then show ?thesis by (simp add: unused_from_def unused_slots_def filter_map comp_def)
qed

fun first_two :: "'a list \<Rightarrow> 'a option \<times> 'a option" where
  "first_two [] = (None, None)"
| "first_two [k] = (Some k, None)"
| "first_two (k # l # ks) = (Some k, Some l)"

lemma first_two_grow:
  "first_two us = (None, e1) \<Longrightarrow> e1 = None \<and> first_two (us @ [k]) = (Some k, None)"
  "first_two us = (Some j, None) \<Longrightarrow> first_two (us @ [k]) = (Some j, Some k)"
  "first_two us = (Some j, Some l) \<Longrightarrow> first_two (us @ vs) = (Some j, Some l)"
  "first_two us = (Some j, e1) \<Longrightarrow> fst (first_two (us @ vs)) = Some j"
  by (cases us rule: first_two.cases; cases vs; simp)+

lemma scan_unused:
  "first_two us = (e0, e1) \<Longrightarrow> scan need ys i full e0 e1 = (full', f0, f1)
   \<Longrightarrow> f0 = fst (first_two (us @ unused_from i ys)) \<and> (f1 = snd (first_two (us @ unused_from i ys)) \<or> f1 = None \<and> full' \<noteq> None)"
proof (induction need ys i full e0 e1 arbitrary: us rule: scan.induct)
  case (1 need i full e0 e1)
  then show ?case by simp
next
  case (2 need x ys i full e0 e1)
  show ?case
  proof (cases "slot_mode x = NOT_IN_USE")
    case True
    show ?thesis
    proof (cases e0)
      case None
      with True "2.prems" first_two_grow(1) [of us e1 i] "2.IH"(3) [of "us @ [i]"] show ?thesis by simp
    next
      case e0: (Some j)
      show ?thesis
      proof (cases e1)
        case None
        with True e0 "2.prems" first_two_grow(2) [of us j i] "2.IH"(4) [of "us @ [i]"] show ?thesis by simp
      next
        case (Some l)
        with e0 "2.prems"(1) have two: "first_two (us @ vs) = (Some j, Some l)" for vs by (simp add: first_two_grow(3))
        show ?thesis
          using True e0 Some two two [of "[i]"] "2.prems" "2.IH"(5) [of "us @ [i]"] by (auto split: if_splits)
      qed
    qed
  next
    case False
    show ?thesis
    proof (cases "slot_mode x = FREE \<and> need \<le> internalSize x")
      case True
      show ?thesis
      proof (cases "(case full of None \<Rightarrow> True | Some (j, m) \<Rightarrow> internalSize x < m) \<and> internalSize x = need \<and> e0 \<noteq> None")
        case stop: True
        with True "2.prems"(2) have r: "full' = Some (i, internalSize x)" "f0 = e0" "f1 = e1" by auto
        obtain j where "e0 = Some j" using stop by auto
        with r "2.prems"(1) first_two_grow(3,4) [of us j] show ?thesis by (cases e1) auto
      next
        case go: False
        with True False "2.prems" "2.IH"(1,2) [of us] show ?thesis by (auto split: if_splits)
      qed
    next
      case other: False
      with False "2.prems" "2.IH"(6) [of us] show ?thesis by auto
    qed
  qed
qed

text \<open>Two unused slots are enough.\<close>

lemma two_unused:
  assumes "2 \<le> free_count xs" "empties xs (length xs) e0 e1"
  shows "e0 \<noteq> None \<and> e1 \<noteq> None"
proof -
  have "card {k. unused xs k} = free_count xs"
    by (simp add: unused_def free_count_def length_filter_conv_card)
  moreover have fin: "finite {k. unused xs k}" by (rule finite_subset [of _ "{..<length xs}"]) (auto simp: unused_def)
  ultimately have two: "2 \<le> card {k. unused xs k}" using assms(1) by simp
  have "\<not> (\<exists>k. \<forall>l. unused xs l \<longrightarrow> l = k)"
  proof
    assume "\<exists>k. \<forall>l. unused xs l \<longrightarrow> l = k"
    then obtain k where "{k. unused xs k} \<subseteq> {k}" by auto
    then have "card {k. unused xs k} \<le> 1" by (metis card.empty card_insert_disjoint card_mono empty_iff finite.emptyI finite.insertI One_nat_def)
    with two show False by simp
  qed
  then show ?thesis using assms(2) by (auto simp: empties_def unused_def split: option.splits)
qed

subsection \<open>Slots in use\<close>

definition in_use :: "Slot \<Rightarrow> bool" where
  "in_use x \<longleftrightarrow> slot_mode x \<noteq> FREE \<and> slot_mode x \<noteq> NOT_IN_USE"

definition owned :: "Slot list \<Rightarrow> Slot set" where
  "owned xs = {x \<in> set xs. in_use x}"

lemma owned_update:
  assumes "i < length xs" "\<not> in_use (xs ! i)"
  shows "owned (xs[i := x]) = (if in_use x then insert x (owned xs) else owned xs)"
proof -
  have "y \<in> owned (xs[i := x]) \<longleftrightarrow> (in_use y \<and> (y = x \<or> y \<in> set xs))" for y
  proof
    assume "y \<in> owned (xs[i := x])"
    then show "in_use y \<and> (y = x \<or> y \<in> set xs)" using set_update_subset_insert [of xs i x] by (auto simp: owned_def)
  next
    assume y: "in_use y \<and> (y = x \<or> y \<in> set xs)"
    then consider "y = x" | k where "k < length xs" "xs ! k = y" "k \<noteq> i" using assms(2) by (metis in_set_conv_nth)
    then show "y \<in> owned (xs[i := x])"
    proof cases
      case 1
      with y assms(1) show ?thesis by (simp add: owned_def set_update_memI)
    next
      case 2
      then have "xs[i := x] ! k = y" "k < length (xs[i := x])" by simp_all
      with y show ?thesis unfolding owned_def by (metis (mono_tags, lifting) mem_Collect_eq nth_mem)
    qed
  qed
  then show ?thesis by (auto simp: owned_def)
qed

lemma owned_apart:
  assumes "slots_ok P below m pr xs" "i < length xs" "\<not> in_use (xs ! i)" "x \<in> owned xs"
  shows "slot_pages P (xs ! i) \<inter> slot_pages P x = {}"
proof -
  from assms(4) obtain k where "k < length xs" "xs ! k = x" "in_use x" by (auto simp: owned_def in_set_conv_nth)
  with assms(1-3) show ?thesis unfolding slots_ok_def by metis
qed

lemma owned_committed:
  assumes "i < length (slots s)" "e < length (slots s)" "slot_mode (slots s ! i) = FREE" "slots s ! e = empty_slot"
  shows "owned (slots (committed s i e need n)) = insert (placed_slot s (internalAddress (slots s ! i)) need n) (owned (slots s))"
proof -
  have "i \<noteq> e" using assms by auto
  then show ?thesis using assms owned_update [of e "slots s" "rest_slot (slots s ! i) need"]
    by (simp add: committed_def Let_def owned_update in_use_def placed_slot_def rest_slot_def)
qed

subsection \<open>New memory\<close>

definition mmap_failed :: "fence \<Rightarrow> stop" where
  "mmap_failed s = Ended (EF_Exit ''mmap() failed: %s'' [Text (os_error s)])"

definition list_vars :: "fence \<Rightarrow> nat \<times> nat \<times> bool \<times> bool" where
  "list_vars s = (allocationList s, allocationListSize s, internalUse s, noAllocationListProtection s)"

lemma round_pages_result:
  assumes "0 < P" "n + P < 2 ^ 64"
  shows "P dvd round_pages P n" "n \<le> round_pages P n" "round_pages P n < n + P"
proof -
  have e: "n mod P + P * (n div P) = n" by simp
  have l: "n mod P < P" using assms(1) by simp
  have "P dvd n + (P - n mod P)" if "n mod P \<noteq> 0"
  proof -
    have "n + (P - n mod P) = P * (n div P) + P" using e l by linarith
    then show ?thesis by simp
  qed
  then show "P dvd round_pages P n" "n \<le> round_pages P n" "round_pages P n < n + P"
    using assms l by (auto simp: round_pages_def Let_def)
qed

end
