(* ===== verification/Ef_Chunk.thy ===== *)
theory Ef_Chunk
  imports Ef_Scan
begin

text \<open>
  How \<open>efence.c\<close> gets more memory: the state after \<open>Page_Create\<close> has mapped a chunk behind the others, and what the laws of \<open>mmap\<close> (\<open>mmap_ok\<close>) say of
  it. Facts for the growth of the slot table and of the heap in \<open>Ef_Grow\<close>.
\<close>

lemma mmap_okD:
  assumes "mmap_ok P mm" "P dvd n" "mm k h n ms = Some a"
  shows "P dvd a" "0 < a" "a + n < 2 ^ 64" "\<And>b l. (b, l) \<in> set ms \<Longrightarrow> a + n \<le> b \<or> b + l \<le> a"
proof -
  have "P dvd a \<and> 0 < a \<and> a + n < 2 ^ 64 \<and> (\<forall>(b, l) \<in> set ms. a + n \<le> b \<or> b + l \<le> a)"
    using assms unfolding mmap_ok_def by blast
  then show "P dvd a" "0 < a" "a + n < 2 ^ 64" "\<And>b l. (b, l) \<in> set ms \<Longrightarrow> a + n \<le> b \<or> b + l \<le> a" by auto
qed

lemma page_mapped_iff:
  assumes "0 < os_page s" "list_all (\<lambda>(b, l). os_page s dvd b \<and> os_page s dvd l) (mapped s)"
  shows "page_mapped s p \<longleftrightarrow> (\<exists>(b, l) \<in> set (mapped s). p \<in> pages (os_page s) b l)"
proof -
  have "(b + l + os_page s - 1) div os_page s = (b + l) div os_page s" if "(b, l) \<in> set (mapped s)" for b l
    using assms that by (intro aligned_up) (auto simp: list_all_iff)
  then have "(\<lambda>(b, l). b div os_page s \<le> p \<and> p < (b + l + os_page s - 1) div os_page s) m \<longleftrightarrow> (\<lambda>(b, l). p \<in> pages (os_page s) b l) m"
    if "m \<in> set (mapped s)" for m using that by (cases m) (simp only: pages_def atLeastLessThan_iff prod.case)
  then show ?thesis unfolding page_mapped_def list_ex_iff by (rule bex_cong [OF refl])
qed

definition chunk_state :: "nat \<Rightarrow> nat \<Rightarrow> fence \<Rightarrow> fence" where
  "chunk_state a c s = s\<lparr>startAddr := add64 a c, mmaps := Suc (mmaps s), mapped := (a, c) # mapped s,
     prot := (\<lambda>p. if p \<in> pages (os_page s) a c then True else prot s p),
     cells := (\<lambda>x. if a \<le> x \<and> x < a + c then 0 else cells s x)\<rparr>"

lemma Page_Create_result:
  assumes "0 < os_page s" "mmap_ok (os_page s) (os_mmap s)" "os_page s dvd c" "c < 2 ^ 31"
  shows "Page_Create c s = Inl (mmap_failed s) \<or>
    (\<exists>a. Page_Create c s = Inr (a, chunk_state a c s) \<and> os_page s dvd a \<and> 0 < a \<and> a + c < 2 ^ 64
      \<and> (\<forall>(b, l) \<in> set (mapped s). a + c \<le> b \<or> b + l \<le> a))"
proof (cases "os_mmap s (mmaps s) (startAddr s) c (mapped s)")
  case None
  with assms(4) show ?thesis by (simp add: Page_Create_def mmap_failed_def stringErrorReport_def)
next
  case (Some a)
  note m = mmap_okD [OF assms(2,3) Some]
  have "fill_cells a c 0 (set_prot True a c (s\<lparr>mmaps := Suc (mmaps s), mapped := (a, c) # mapped s, startAddr := add64 a c\<rparr>)) = chunk_state a c s"
    using aligned_range [OF assms(1) m(1) assms(3)] m(1) assms(3)
    by (simp add: fill_cells_def set_prot_def chunk_state_def pages_def conj_commute cong: if_cong)
  with Some assms(4) m show ?thesis by (auto simp: Page_Create_def)
qed

lemma chunk_mapped:
  assumes "system_ok s" "os_page s dvd a" "os_page s dvd c"
  shows "Collect (page_mapped (chunk_state a c s)) = pages (os_page s) a c \<union> Collect (page_mapped s)"
    and "\<forall>(b, l) \<in> set (mapped s). a + c \<le> b \<or> b + l \<le> a \<Longrightarrow> pages (os_page s) a c \<inter> Collect (page_mapped s) = {}"
    and "system_ok (chunk_state a c s)"
proof -
  have s: "0 < os_page s" "list_all (\<lambda>(b, l). os_page s dvd b \<and> os_page s dvd l) (mapped s)"
    using assms(1) by (simp_all add: system_ok_def)
  show sys: "system_ok (chunk_state a c s)" using assms by (simp add: system_ok_def chunk_state_def)
  then have s': "0 < os_page (chunk_state a c s)" "list_all (\<lambda>(b, l). os_page (chunk_state a c s) dvd b \<and> os_page (chunk_state a c s) dvd l) (mapped (chunk_state a c s))"
    by (simp_all add: system_ok_def)
  show "Collect (page_mapped (chunk_state a c s)) = pages (os_page s) a c \<union> Collect (page_mapped s)"
    using page_mapped_iff [OF s] page_mapped_iff [OF s'] by (auto simp: chunk_state_def)
  assume d: "\<forall>(b, l) \<in> set (mapped s). a + c \<le> b \<or> b + l \<le> a"
  have "p \<notin> pages (os_page s) b l" if "(b, l) \<in> set (mapped s)" "p \<in> pages (os_page s) a c" for p b l
  proof -
    have "a + c \<le> b \<or> b + l \<le> a" using d that(1) by auto
    then have "(a + c) div os_page s \<le> b div os_page s \<or> (b + l) div os_page s \<le> a div os_page s" by (meson div_le_mono)
    then show ?thesis using that(2) by (auto simp: pages_def)
  qed
  then show "pages (os_page s) a c \<inter> Collect (page_mapped s) = {}" using page_mapped_iff [OF s] by auto
qed

lemma create_chunk_result:
  assumes "arena s" "unused (slots s) e" "os_page s dvd need" "need \<le> 2 ^ 30 + 2 ^ 21"
  shows "create_chunk e need s = Inl (mmap_failed s) \<or>
    (\<exists>s' x. create_chunk e need s = Inr s' \<and> arena s' \<and> keeps (- Collect (page_mapped s)) s s' \<and> list_vars s' = list_vars s
       \<and> slots s' = (slots s)[e := x] \<and> slot_mode x = FREE \<and> need \<le> internalSize x
       \<and> Collect (page_mapped s) \<subseteq> Collect (page_mapped s'))"
proof -
  let ?P = "os_page s"
  define c where "c = round_pages ?P (if MEMORY_CREATION_SIZE < need then need else MEMORY_CREATION_SIZE)"
  note A = arenaD [OF assms(1)]
  have P20: "?P < 2 ^ 20" using A(4) by (simp add: system_ok_def)
  have e: "e < length (slots s)" "slot_mode (slots s ! e) = NOT_IN_USE" using assms(2) by (simp_all add: unused_def)
  have ee: "slots s ! e = empty_slot" using unused_empty [OF A(5) e] .
  have "(if MEMORY_CREATION_SIZE < need then need else MEMORY_CREATION_SIZE) + ?P < 2 ^ 64" using assms(4) P20 by (simp add: MEMORY_CREATION_SIZE_def)
  note rp = round_pages_result [OF A(1) this, folded c_def]
  have c: "?P dvd c" "need \<le> c" "0 < c" "c < 2 ^ 31" using rp assms(4) P20 by (auto simp: MEMORY_CREATION_SIZE_def split: if_splits)
  have mm: "mmap_ok ?P (os_mmap s)" using A(4) by (simp add: system_ok_def)
  have chunk: "create_chunk e need s = and_then (Page_Create c s) (\<lambda>(a, s).
      let s = set_slot e (\<lambda>x. x\<lparr>internalAddress := a, internalSize := c, slot_mode := FREE\<rparr>) s;
          s = s\<lparr>unUsedSlots := sub64 (unUsedSlots s) 1\<rparr>
      in if EF_FILL s \<noteq> - 1 then memset a (word_of_int (EF_FILL s)) c s else Inr s)"
    using A(3) unfolding create_chunk_def Let_def c_def by metis
  from Page_Create_result [OF A(1) mm c(1) c(4)] consider (fail) "Page_Create c s = Inl (mmap_failed s)"
    | (ok) a where "Page_Create c s = Inr (a, chunk_state a c s)" "?P dvd a" "0 < a" "a + c < 2 ^ 64"
        "\<forall>(b, l) \<in> set (mapped s). a + c \<le> b \<or> b + l \<le> a" by blast
  then show ?thesis
  proof cases
    case fail
    then show ?thesis unfolding chunk by (simp add: and_then_def)
  next
    case ok
    define x where "x = \<lparr>userAddress = 0, internalAddress = a, userSize = 0, internalSize = c, slot_mode = FREE\<rparr>"
    define xs where "xs = (slots s)[e := x]"
    define t where "t = (chunk_state a c s)\<lparr>slots := xs, unUsedSlots := unUsedSlots s - 1\<rparr>"
    note cm = chunk_mapped [OF A(4) ok(2) c(1)]
    have count: "free_count xs + 1 = free_count (slots s)" using free_count_update [OF e(1), of x] e(2) by (simp add: xs_def x_def)
    have ok': "slots_ok ?P (EF_PROTECT_BELOW s \<noteq> 0) (Collect (page_mapped (chunk_state a c s))) (prot (chunk_state a c s)) xs"
      unfolding xs_def
    proof (rule slots_ok_update [OF A(5) e(1)])
      show "slot_ok ?P (EF_PROTECT_BELOW s \<noteq> 0) (Collect (page_mapped (chunk_state a c s))) (prot (chunk_state a c s)) x"
        using ok(2-4) c cm(1) by (auto simp: slot_ok_def range_ok_def x_def slot_pages_def)
      have sub: "slot_pages ?P (slots s ! j) \<subseteq> Collect (page_mapped s)" if "j < length (slots s)" for j
        using slot_mapped [OF A(5) that] .
      then show "\<forall>j < length (slots s). j \<noteq> e \<longrightarrow> slot_pages ?P x \<inter> slot_pages ?P (slots s ! j) = {}"
        using cm(2) ok(5) by (simp add: x_def slot_pages_def) blast
      show "\<forall>j < length (slots s). j \<noteq> e \<longrightarrow> (\<forall>p \<in> slot_pages ?P (slots s ! j). prot (chunk_state a c s) p = prot s p)"
        using sub cm(2) ok(5) by (auto simp: chunk_state_def)
      show "Collect (page_mapped s) \<subseteq> Collect (page_mapped (chunk_state a c s))" using cm(1) by simp
    qed
    have list: "list_ok t"
    proof -
      from A(7) obtain j where j: "j < length (slots s)" "slot_mode (slots s ! j) = INTERNAL_USE" "userAddress (slots s ! j) = allocationList s"
        "internalAddress (slots s ! j) \<le> allocationList s"
        "allocationList s + allocationListSize s \<le> internalAddress (slots s ! j) + internalSize (slots s ! j)" by (auto simp: list_ok_def)
      then have "xs ! j = slots s ! j" using e by (auto simp: xs_def nth_list_update)
      with j A(7) show ?thesis by (auto simp: list_ok_def t_def xs_def chunk_state_def intro!: exI [of _ j])
    qed
    have tm: "Collect (page_mapped t) = pages ?P a c \<union> Collect (page_mapped s)" using cm(1) by (simp add: t_def)
    have ar: "arena (t\<lparr>cells := h\<rparr>)" for h
      using ok' list cm(3) count A(6) by (simp add: arena_def t_def system_ok_def chunk_state_def list_ok_def)
    have kp: "keeps (- Collect (page_mapped s)) s t"
      using cm(2) ok(2,5) c(1) in_pages [OF A(1) ok(2) c(1)] by (auto simp: keeps_def settings_def t_def chunk_state_def)
    have res: "create_chunk e need s = (if EF_FILL s \<noteq> - 1 then memset a (word_of_int (EF_FILL s)) c t else Inr t)"
    proof -
      have "(slots s ! e)\<lparr>internalAddress := a, internalSize := c, slot_mode := FREE\<rparr> = x" by (simp add: ee empty_slot_def x_def)
      moreover have "0 < unUsedSlots s" "unUsedSlots s < 2 ^ 64" using count A(6) list_bounds(3) [OF assms(1)] by simp_all
      ultimately show ?thesis unfolding chunk ok(1)
        by (simp add: and_then_def set_slot_def Let_def t_def chunk_state_def xs_def)
    qed
    have at: "arena t" using ok' list cm(3) count A(6) by (simp add: arena_def t_def system_ok_def chunk_state_def)
    have tv: "list_vars t = list_vars s" "slots t = (slots s)[e := x]" "slot_mode x = FREE" "need \<le> internalSize x"
      "Collect (page_mapped s) \<subseteq> Collect (page_mapped t)"
      using c tm by (simp_all add: list_vars_def t_def chunk_state_def xs_def x_def)
    show ?thesis
    proof (cases "EF_FILL s = - 1")
      case True
      then have "create_chunk e need s = Inr t" using res by simp
      with at kp tv show ?thesis by blast
    next
      case False
      define h where "h = (\<lambda>z. if a \<le> z \<and> z < a + c then word_of_int (EF_FILL s) else cells t z)"
      have "accessible t a c" using accessible_pages [of t a c] A(1) ok(2) c(1) by (simp add: t_def chunk_state_def)
      then have "create_chunk e need s = Inr (t\<lparr>cells := h\<rparr>)" using res False by (simp add: memset_def fill_cells_def h_def)
      moreover have "keeps (- Collect (page_mapped s)) s (t\<lparr>cells := h\<rparr>)"
        using kp cm(2) ok(5) in_pages [OF A(1) ok(2) c(1)] by (auto simp: keeps_def settings_def h_def)
      moreover have "list_vars (t\<lparr>cells := h\<rparr>) = list_vars s" "slots (t\<lparr>cells := h\<rparr>) = (slots s)[e := x]"
        "Collect (page_mapped s) \<subseteq> Collect (page_mapped (t\<lparr>cells := h\<rparr>))"
        using tv by (simp_all add: list_vars_def)
      ultimately show ?thesis using ar [of h] tv(3,4) by blast
    qed
  qed
qed

end
