(* ===== verification/Ef_Slots.thy ===== *)
theory Ef_Slots
  imports Ef_Chunk
begin

text \<open>The allocation of one buffer, when there are unused slots.\<close>

definition list_pages :: "fence \<Rightarrow> nat set" where
  "list_pages s = pages (os_page s) (allocationList s) (allocationListSize s)"

definition set_list_prot :: "bool \<Rightarrow> fence \<Rightarrow> fence" where
  "set_list_prot b s = s\<lparr>prot := (\<lambda>p. if p \<in> list_pages s then b else prot s p)\<rparr>"

lemma list_slot:
  assumes "arena s"
  obtains i where "i < length (slots s)" "slot_mode (slots s ! i) = INTERNAL_USE" "userAddress (slots s ! i) = allocationList s"
    "list_pages s \<subseteq> slot_pages (os_page s) (slots s ! i)"
proof -
  from arenaD(7) [OF assms] obtain j where j: "j < length (slots s)" "slot_mode (slots s ! j) = INTERNAL_USE" "userAddress (slots s ! j) = allocationList s"
    "internalAddress (slots s ! j) \<le> allocationList s"
    "allocationList s + allocationListSize s \<le> internalAddress (slots s ! j) + internalSize (slots s ! j)" by (auto simp: list_ok_def)
  have "list_pages s \<subseteq> slot_pages (os_page s) (slots s ! j)"
    using j(4,5) by (auto simp: list_pages_def pages_def slot_pages_def intro: less_le_trans le_trans div_le_mono)
  with j that show thesis by blast
qed

lemma list_calls:
  assumes "arena s"
  shows "Page_AllowAccess (allocationList s) (allocationListSize s) s = Inr (set_list_prot True s)"
    and "Page_DenyAccess (allocationList s) (allocationListSize s) s = Inr (set_list_prot False s)"
    and "list_open s \<longleftrightarrow> (\<forall>p \<in> list_pages s. prot s p)"
  using arenaD(1,8) [OF assms] list_bounds [OF assms]
  by (simp_all add: page_calls(1,2) set_list_prot_def list_pages_def list_open_def accessible_pages)

lemma set_list_prot_arena:
  assumes "arena s"
  shows "arena (set_list_prot b s)"
proof -
  note A = arenaD [OF assms]
  from list_slot [OF assms] obtain i where i: "i < length (slots s)" "slot_mode (slots s ! i) = INTERNAL_USE"
    "list_pages s \<subseteq> slot_pages (os_page s) (slots s ! i)" by blast
  have "slots_ok (os_page s) (EF_PROTECT_BELOW s \<noteq> 0) (Collect (page_mapped s)) (prot (set_list_prot b s)) ((slots s)[i := slots s ! i])"
  proof (rule slots_ok_update [OF A(5) i(1)])
    show "slot_ok (os_page s) (EF_PROTECT_BELOW s \<noteq> 0) (Collect (page_mapped s)) (prot (set_list_prot b s)) (slots s ! i)"
      using A(5) i(1,2) by (simp add: slots_ok_def slot_ok_def)
    show "\<forall>j < length (slots s). j \<noteq> i \<longrightarrow> slot_pages (os_page s) (slots s ! i) \<inter> slot_pages (os_page s) (slots s ! j) = {}"
      using A(5) i(1) by (auto simp: slots_ok_def)
    then show "\<forall>j < length (slots s). j \<noteq> i \<longrightarrow> (\<forall>p \<in> slot_pages (os_page s) (slots s ! j). prot (set_list_prot b s) p = prot s p)"
      using i(3) by (auto simp: set_list_prot_def)
  qed simp
  then show ?thesis using A by (simp add: arena_def set_list_prot_def system_ok_def list_ok_def)
qed

lemma set_list_prot_fields [simp]:
  "slots (set_list_prot b s) = slots s" "settings (set_list_prot b s) = settings s" "list_vars (set_list_prot b s) = list_vars s"
  "page_mapped (set_list_prot b s) = page_mapped s" "cells (set_list_prot b s) = cells s" "unUsedSlots (set_list_prot b s) = unUsedSlots s"
  "os_page (set_list_prot b s) = os_page s" "list_pages (set_list_prot b s) = list_pages s"
  "allocationList (set_list_prot b s) = allocationList s" "allocationListSize (set_list_prot b s) = allocationListSize s"
  "internalUse (set_list_prot b s) = internalUse s" "noAllocationListProtection (set_list_prot b s) = noAllocationListProtection s"
  by (simp_all add: set_list_prot_def settings_def list_vars_def list_pages_def)

lemma set_list_prot_keeps: "keeps (list_pages s) s (set_list_prot b s)"
  by (simp add: keeps_def) (simp add: set_list_prot_def)

lemma committed_fields:
  "list_vars (committed s i e need n) = list_vars s" "page_mapped (committed s i e need n) = page_mapped s"
  "length (slots (committed s i e need n)) = length (slots s)" "unUsedSlots s \<le> Suc (unUsedSlots (committed s i e need n))"
  "settings (committed s i e need n) = settings s" "internalUse (committed s i e need n) = internalUse s"
  by (auto simp: committed_def list_vars_def Let_def settings_def)

lemma list_vars_eqD:
  assumes "list_vars t = list_vars s"
  shows "allocationList t = allocationList s" "allocationListSize t = allocationListSize s" "internalUse t = internalUse s"
    "noAllocationListProtection t = noAllocationListProtection s"
  using assms by (simp_all add: list_vars_def)

text \<open>The outcome of an allocation: a new slot \<open>x\<close> in use, apart from the others; only its pages, those of the list and new memory change.\<close>

definition allocates :: "nat set \<Rightarrow> nat \<Rightarrow> nat \<Rightarrow> fence \<Rightarrow> nat \<Rightarrow> fence \<Rightarrow> Slot \<Rightarrow> bool" where
  "allocates D need n s a s' x \<longleftrightarrow> arena s' \<and> keeps (slot_pages (os_page s) x \<union> D \<union> - Collect (page_mapped s)) s s'
     \<and> owned (slots s') = insert x (owned (slots s)) \<and> (\<forall>y \<in> owned (slots s). slot_pages (os_page s) x \<inter> slot_pages (os_page s) y = {})
     \<and> userAddress x = a \<and> userSize x = n \<and> internalSize x = need
     \<and> slot_mode x = (if internalUse s then INTERNAL_USE else ALLOCATED)
     \<and> buffer_ok (os_page s) (EF_PROTECT_BELOW s \<noteq> 0) (prot s') x
     \<and> list_vars s' = list_vars s \<and> length (slots s') = length (slots s)
     \<and> Collect (page_mapped s) \<subseteq> Collect (page_mapped s') \<and> unUsedSlots s \<le> unUsedSlots s' + 2"

text \<open>The last steps, for a slot \<open>i\<close> with enough memory.\<close>

definition finish :: "nat \<Rightarrow> nat \<Rightarrow> nat \<Rightarrow> nat \<Rightarrow> fence \<Rightarrow> (nat \<times> fence) result" where
  "finish need n i e s = and_then (place_buffer i need n (claim_slot i e need s)) (\<lambda>(a, s).
     let s = set_slot i (\<lambda>x. x\<lparr>userAddress := a, userSize := n\<rparr>) s
     in and_then (if \<not> internalUse s then Page_DenyAccess (allocationList s) (allocationListSize s) s else Inr s) (\<lambda>s. Inr (a, s)))"

lemma finish_result:
  assumes "arena s" "i < length (slots s)" "unused (slots s) e" "fits need (slots s ! i)"
    "os_page s dvd need" "os_page s + n \<le> need" "EF_PROTECT_BELOW s \<noteq> 0 \<Longrightarrow> 0 < n"
  defines "t \<equiv> committed s i e need n"
  shows "finish need n i e s = Inr (placed s (internalAddress (slots s ! i)) need n, if internalUse s then t else set_list_prot False t)"
    and "arena t"
proof -
  note A = arenaD [OF assms(1)]
  have e: "e < length (slots s)" "slots s ! e = empty_slot" using assms(3) unused_empty [OF A(5)] by (auto simp: unused_def)
  have i: "slot_mode (slots s ! i) = FREE" "need \<le> internalSize (slots s ! i)" "i \<noteq> e" using assms(3,4) by (auto simp: fits_def unused_def)
  have r: "range_ok (os_page s) (Collect (page_mapped s)) (slots s ! i)" using used_piece [OF A(5) assms(2)] i(1) by simp
  have pos: "0 < unUsedSlots s"
  proof -
    have "e \<in> {k. k < length (slots s) \<and> slot_mode (slots s ! k) = NOT_IN_USE}" using assms(3) by (simp add: unused_def)
    then show ?thesis using A(6) by (auto simp: free_count_def length_filter_conv_card card_gt_0_iff)
  qed
  have small: "unUsedSlots s < 2 ^ 64" using list_bounds(3) [OF assms(1)] by simp
  from commit_result [OF A(1,3) assms(2) e(1) i(3) e(2) r assms(5,6) i(2) pos small A(8)] obtain u where
    u: "place_buffer i need n (claim_slot i e need s) = Inr (placed s (internalAddress (slots s ! i)) need n, u)"
    "set_slot i (\<lambda>x. x\<lparr>userAddress := placed s (internalAddress (slots s ! i)) need n, userSize := n\<rparr>) u = t" unfolding t_def by blast
  show ar: "arena t" unfolding t_def using commit_arena(1) [OF assms(1,2) e(1) i(1) e(2) assms(5,6) i(2) assms(7)] .
  have "internalUse t = internalUse s" by (simp add: t_def committed_fields)
  then show "finish need n i e s = Inr (placed s (internalAddress (slots s ! i)) need n, if internalUse s then t else set_list_prot False t)"
    using u list_calls(2) [OF ar] by (simp add: finish_def and_then_def Let_def)
qed

lemma finish_allocates:
  assumes "arena s" "i < length (slots s)" "unused (slots s) e" "fits need (slots s ! i)"
    "os_page s dvd need" "os_page s + n \<le> need" "EF_PROTECT_BELOW s \<noteq> 0 \<Longrightarrow> 0 < n"
  shows "\<exists>a s' x. finish need n i e s = Inr (a, s') \<and> allocates (if internalUse s then {} else list_pages s) need n s a s' x
    \<and> unUsedSlots s \<le> unUsedSlots s' + 1 \<and> slot_pages (os_page s) x \<subseteq> slot_pages (os_page s) (slots s ! i)
    \<and> (\<not> internalUse s \<longrightarrow> (\<forall>p \<in> list_pages s. \<not> prot s' p))"
proof -
  note A = arenaD [OF assms(1)]
  define t where "t = committed s i e need n"
  define x where "x = placed_slot s (internalAddress (slots s ! i)) need n"
  define s' where "s' = (if internalUse s then t else set_list_prot False t)"
  have e: "e < length (slots s)" "slots s ! e = empty_slot" using assms(3) unused_empty [OF A(5)] by (auto simp: unused_def)
  have i: "slot_mode (slots s ! i) = FREE" "need \<le> internalSize (slots s ! i)" "i \<noteq> e" using assms(3,4) by (auto simp: fits_def unused_def)
  note fin = finish_result [OF assms, folded t_def]
  note com = commit_arena [OF assms(1,2) e(1) i(1) e(2) assms(5,6) i(2) assms(7), folded t_def x_def]
  have xp: "slot_pages (os_page s) x = pages (os_page s) (internalAddress (slots s ! i)) need" by (simp add: x_def placed_slot_def slot_pages_def)
  have sub: "slot_pages (os_page s) x \<subseteq> slot_pages (os_page s) (slots s ! i)" using pages_sub [OF i(2)] unfolding xp by (simp add: slot_pages_def)
  have lv: "list_vars t = list_vars s" "page_mapped t = page_mapped s" "settings t = settings s" "length (slots t) = length (slots s)"
    "unUsedSlots s \<le> Suc (unUsedSlots t)" by (simp_all add: t_def committed_fields)
  have lp: "list_pages t = list_pages s" using lv settings_eqD(1) [OF lv(3)] by (simp add: list_pages_def list_vars_def)
  have "keeps (slot_pages (os_page s) x \<union> (if internalUse s then {} else list_pages s)) s s'"
  proof (cases "internalUse s")
    case True
    then show ?thesis using com(2) by (simp add: s'_def xp)
  next
    case False
    have "keeps (list_pages t) t (set_list_prot False t)" by (rule set_list_prot_keeps)
    from keeps_trans [OF com(2) this, of "slot_pages (os_page s) x \<union> list_pages s"] show ?thesis using False lp by (simp add: s'_def xp)
  qed
  then have kp: "keeps (slot_pages (os_page s) x \<union> (if internalUse s then {} else list_pages s) \<union> - Collect (page_mapped s)) s s'"
    using keeps_trans [OF _ keeps_refl] by blast
  have ow: "owned (slots s') = insert x (owned (slots s))"
    using owned_committed [OF assms(2) e(1) i(1) e(2), of need n] by (simp add: s'_def t_def x_def)
  have apart: "\<forall>y \<in> owned (slots s). slot_pages (os_page s) x \<inter> slot_pages (os_page s) y = {}"
    using owned_apart [OF A(5) assms(2)] i(1) sub by (simp add: in_use_def) blast
  have ar: "arena s'" using fin(2) set_list_prot_arena by (simp add: s'_def)
  have buf: "buffer_ok (os_page s) (EF_PROTECT_BELOW s \<noteq> 0) (prot s') x"
  proof (cases "internalUse s")
    case True
    then have "prot s' = placed_prot s (internalAddress (slots s ! i)) need" by (simp add: s'_def t_def committed_def Let_def)
    moreover have "os_page s dvd internalAddress (slots s ! i)" using used_piece [OF A(5) assms(2)] i(1) by (simp add: range_ok_def)
    ultimately show ?thesis using placed_buffer_ok assms(5,6) by (simp add: x_def)
  next
    case False
    have "x \<in> set (slots s')" using ow by (auto simp: owned_def)
    then obtain k where "k < length (slots s')" "slots s' ! k = x" by (auto simp: in_set_conv_nth)
    then have "slot_ok (os_page s') (EF_PROTECT_BELOW s' \<noteq> 0) (Collect (page_mapped s')) (prot s') x"
      using arenaD(5) [OF ar] by (auto simp: slots_ok_def)
    moreover have "slot_mode x = ALLOCATED" using False by (simp add: x_def placed_slot_def)
    moreover have "settings s' = settings s" using lv(3) by (simp add: s'_def)
    ultimately show ?thesis using settings_eqD(1,6) [of s' s] by (simp add: slot_ok_def)
  qed
  have all: "allocates (if internalUse s then {} else list_pages s) need n s (placed s (internalAddress (slots s ! i)) need n) s' x"
    unfolding allocates_def using ar kp ow apart lv buf by (simp add: x_def placed_slot_def s'_def)
  have "unUsedSlots s \<le> unUsedSlots s' + 1" using lv by (simp add: s'_def)
  moreover have "\<not> internalUse s \<longrightarrow> (\<forall>p \<in> list_pages s. \<not> prot s' p)" using lp by (simp add: s'_def) (simp add: set_list_prot_def)
  ultimately show ?thesis using fin(1) all sub unfolding s'_def by blast
qed

lemma memalign_slots_finish:
  "memalign_slots need n s = with_list s (\<lambda>s.
     case scan need (slots s) 0 None None None of
       (_, None, _) \<Rightarrow> internal_error ''No empty slot 0.''
     | (full, Some e0, e1) \<Rightarrow>
         (case full of
             Some (i, _) \<Rightarrow> finish need n i e0 s
           | None \<Rightarrow> (case e1 of
                 None \<Rightarrow> internal_error ''No empty slot 1.''
               | Some e1 \<Rightarrow> and_then (create_chunk e0 need s) (finish need n e0 e1))))"
  unfolding memalign_slots_def
  by (intro arg_cong2 [where f = with_list] refl ext)
    (auto simp: finish_def and_then_def internal_error_def split: prod.splits option.splits sum.splits)

text \<open>When some piece of free memory is large enough, no memory is asked of the system.\<close>

lemma memalign_slots_fit:
  assumes "arena s" "list_open s" "2 \<le> unUsedSlots s" "os_page s dvd need" "os_page s + n \<le> need" "EF_PROTECT_BELOW s \<noteq> 0 \<Longrightarrow> 0 < n"
    "scan need (slots s) 0 None None None = (Some (i, m), e0, e1)"
  shows "\<exists>a s' x. memalign_slots need n s = Inr (a, s') \<and> allocates (if internalUse s then {} else list_pages s) need n s a s' x
      \<and> (\<not> internalUse s \<longrightarrow> (\<forall>p \<in> list_pages s. \<not> prot s' p))"
proof -
  note f = scan_result [OF assms(7)]
  have two: "2 \<le> free_count (slots s)" using arenaD(6) [OF assms(1)] assms(3) by simp
  have "e0 \<noteq> None"
  proof
    assume "e0 = None"
    then have "\<forall>k. \<not> unused (slots s) k" using f by (simp add: found_def)
    then have "empties (slots s) (length (slots s)) None None" by (simp add: empties_def)
    from two_unused [OF two this] show False by simp
  qed
  then obtain e where e: "e0 = Some e" "unused (slots s) e" using f by (auto simp: found_def)
  have i: "i < length (slots s)" "fits need (slots s ! i)" using f by (auto simp: found_def best_def)
  have "memalign_slots need n s = finish need n i e s"
    using assms(2) by (simp add: memalign_slots_finish with_list_def assms(7) e(1))
  with finish_allocates [OF assms(1) i(1) e(2) i(2) assms(4-6)] show ?thesis by auto
qed

lemma memalign_slots_result:
  assumes "arena s" "list_open s" "2 \<le> unUsedSlots s" "os_page s dvd need" "os_page s + n \<le> need" "need \<le> 2 ^ 30 + 2 ^ 21"
    "EF_PROTECT_BELOW s \<noteq> 0 \<Longrightarrow> 0 < n"
  shows "memalign_slots need n s = Inl (mmap_failed s) \<or>
    (\<exists>a s' x. memalign_slots need n s = Inr (a, s') \<and> allocates (if internalUse s then {} else list_pages s) need n s a s' x
      \<and> (\<not> internalUse s \<longrightarrow> (\<forall>p \<in> list_pages s. \<not> prot s' p)))"
proof -
  note A = arenaD [OF assms(1)]
  obtain full e0 e1 where sc: "scan need (slots s) 0 None None None = (full, e0, e1)" by (metis prod_cases3)
  note f = scan_result [OF sc]
  have two: "2 \<le> free_count (slots s)" using A(6) assms(3) by simp
  show ?thesis
  proof (cases full)
    case (Some im)
    then obtain i m where "full = Some (i, m)" by (cases im) simp
    then show ?thesis using memalign_slots_fit [OF assms(1-5,7)] sc by blast
  next
    case None
    then have emp: "empties (slots s) (length (slots s)) e0 e1" using f by (simp add: found_def)
    from two_unused [OF two this] obtain k l where kl: "e0 = Some k" "e1 = Some l" by auto
    then have un: "unused (slots s) k" "unused (slots s) l" "l \<noteq> k" using emp by (auto simp: empties_def)
    have run: "memalign_slots need n s = and_then (create_chunk k need s) (finish need n k l)"
      using assms(2) by (simp add: memalign_slots_finish with_list_def sc None kl)
    from create_chunk_result [OF assms(1) un(1) assms(4,6)] consider "create_chunk k need s = Inl (mmap_failed s)"
      | (ok) s1 x where "create_chunk k need s = Inr s1" "arena s1" "keeps (- Collect (page_mapped s)) s s1" "list_vars s1 = list_vars s"
        "slots s1 = (slots s)[k := x]" "slot_mode x = FREE" "need \<le> internalSize x" "Collect (page_mapped s) \<subseteq> Collect (page_mapped s1)"
      by blast
    then show ?thesis
    proof cases
      case 1
      then show ?thesis using run by (simp add: and_then_def)
    next
      case ok
      have st: "settings s1 = settings s" using ok(3) by (simp add: keeps_def)
      note st' = settings_eqD [OF st] and lv = list_vars_eqD [OF ok(4)]
      have kl': "k < length (slots s1)" "unused (slots s1) l" "fits need (slots s1 ! k)"
        using un ok(5-7) by (auto simp: unused_def fits_def)
      have "\<exists>a s' x. finish need n k l s1 = Inr (a, s') \<and> allocates (if internalUse s1 then {} else list_pages s1) need n s1 a s' x
          \<and> unUsedSlots s1 \<le> unUsedSlots s' + 1 \<and> slot_pages (os_page s1) x \<subseteq> slot_pages (os_page s1) (slots s1 ! k)
          \<and> (\<not> internalUse s1 \<longrightarrow> (\<forall>p \<in> list_pages s1. \<not> prot s' p))"
        using assms(4,5,7) st' by (intro finish_allocates [OF ok(2) kl']) simp_all
      then obtain a s' y where fin: "finish need n k l s1 = Inr (a, s')" "allocates (if internalUse s1 then {} else list_pages s1) need n s1 a s' y"
        "unUsedSlots s1 \<le> unUsedSlots s' + 1" "\<not> internalUse s1 \<longrightarrow> (\<forall>p \<in> list_pages s1. \<not> prot s' p)" by blast
      have lp: "list_pages s1 = list_pages s" using lv st' by (simp add: list_pages_def)
      have ow: "owned (slots s1) = owned (slots s)" using un(1) ok(5,6) by (simp add: owned_update unused_def in_use_def)
      have cnt: "unUsedSlots s \<le> unUsedSlots s1 + 1"
      proof -
        have "free_count ((slots s)[k := x]) + 1 = free_count (slots s)" using free_count_update [of k "slots s" x] un(1) ok(6) by (simp add: unused_def)
        then show ?thesis using A(6) arenaD(6) [OF ok(2)] ok(5) by simp
      qed
      have kp: "keeps (slot_pages (os_page s) y \<union> (if internalUse s then {} else list_pages s) \<union> - Collect (page_mapped s)) s s'"
      proof -
        have "keeps (slot_pages (os_page s1) y \<union> (if internalUse s1 then {} else list_pages s1) \<union> - Collect (page_mapped s1)) s1 s'"
          using fin(2) by (simp add: allocates_def)
        then show ?thesis using ok(8) by - (rule keeps_trans [OF ok(3)], assumption, auto simp: lp lv(3) st'(1))
      qed
      have "allocates (if internalUse s then {} else list_pages s) need n s a s' y"
        using fin(2,3) kp cnt ok(4,8) lv st'(1,6) ow ok(5) by (auto simp: allocates_def)
      with fin lp lv run ok(1) show ?thesis by (auto simp: and_then_def)
    qed
  qed
qed

end
