(* ===== verification/Ef_Free.thy ===== *)
theory Ef_Free
  imports Ef_Slots
begin

text \<open>Freeing a slot: its pages lose their access, and it is joined with its neighbours of the same kind.\<close>

definition is_held :: "Slot \<Rightarrow> bool" where
  "is_held x \<longleftrightarrow> slot_mode x = ALLOCATED \<or> slot_mode x = INTERNAL_USE"

definition held :: "Slot list \<Rightarrow> Slot set" where
  "held xs = {x \<in> set xs. is_held x}"

text \<open>The pages that were freed for good.\<close>

definition dead :: "nat \<Rightarrow> Slot list \<Rightarrow> nat set" where
  "dead P xs = (\<Union>x \<in> {x \<in> set xs. slot_mode x = PROTECTED}. slot_pages P x)"

lemma dead_iff: "p \<in> dead P xs \<longleftrightarrow> (\<exists>k < length xs. slot_mode (xs ! k) = PROTECTED \<and> p \<in> slot_pages P (xs ! k))"
  by (auto simp: dead_def in_set_conv_nth)

lemma held_iff: "x \<in> held xs \<longleftrightarrow> is_held x \<and> (\<exists>k < length xs. xs ! k = x)"
  by (auto simp: held_def in_set_conv_nth)

lemma held_distinct:
  assumes "slots_ok P below m pr xs" "0 < P" "i < length xs" "j < length xs" "is_held (xs ! i)" "xs ! i = xs ! j"
  shows "i = j"
proof (rule ccontr)
  assume ij: "i \<noteq> j"
  have "range_ok P m (xs ! i)" using used_piece [OF assms(1,3)] assms(5) by (auto simp: is_held_def)
  then have "internalAddress (xs ! i) div P \<in> slot_pages P (xs ! i)" using assms(2) by (simp add: slot_pages_def range_ok_def pages_nonempty)
  moreover have "slot_pages P (xs ! i) \<inter> slot_pages P (xs ! j) = {}" using assms(1,3,4) ij by (simp add: slots_ok_def)
  ultimately show False using assms(6) by auto
qed

lemma held_update:
  assumes "i < length xs" "\<not> is_held (xs ! i)" "\<not> is_held x"
  shows "held (xs[i := x]) = held xs"
  using assms by (auto simp: held_iff nth_list_update) metis+

lemma owned_held:
  assumes "owned (slots s') = insert x (owned (slots s))" "slot_mode x = ALLOCATED \<or> slot_mode x = INTERNAL_USE"
  shows "held (slots s') = insert x (held (slots s))" "dead P (slots s') = dead P (slots s)"
proof -
  have h: "held xs = {y \<in> owned xs. is_held y}" for xs by (auto simp: held_def owned_def is_held_def in_use_def)
  show "held (slots s') = insert x (held (slots s))" using assms by (auto simp: h is_held_def)
  have d: "dead P xs = (\<Union>y \<in> {y \<in> owned xs. slot_mode y = PROTECTED}. slot_pages P y)" for xs by (auto simp: dead_def owned_def in_use_def)
  show "dead P (slots s') = dead P (slots s)" using assms by (auto simp: d)
qed

subsection \<open>Joining two slots\<close>

lemma absorb_arena:
  assumes "arena s" "i < length (slots s)" "j < length (slots s)" "i \<noteq> j" "slot_mode (slots s ! i) = M" "slot_mode (slots s ! j) = M"
    "M = FREE \<or> M = PROTECTED" "internalAddress (slots s ! j) = internalAddress (slots s ! i) + internalSize (slots s ! i)"
  defines "x \<equiv> (slots s ! i)\<lparr>internalSize := internalSize (slots s ! i) + internalSize (slots s ! j)\<rparr>"
  shows "absorb i j s = s\<lparr>slots := (slots s)[i := x, j := empty_slot], unUsedSlots := Suc (unUsedSlots s)\<rparr>"
    and "arena (absorb i j s)"
    and "held (slots (absorb i j s)) = held (slots s)" "dead (os_page s) (slots (absorb i j s)) = dead (os_page s) (slots s)"
proof -
  let ?P = "os_page s" let ?m = "Collect (page_mapped s)" let ?b = "EF_PROTECT_BELOW s \<noteq> 0"
  define xs where "xs = (slots s)[i := x, j := empty_slot]"
  note A = arenaD [OF assms(1)]
  have r: "range_ok ?P ?m (slots s ! i)" "range_ok ?P ?m (slots s ! j)" using used_piece [OF A(5)] assms(2,3,5-7) by auto
  then have sum: "internalSize (slots s ! i) + internalSize (slots s ! j) < 2 ^ 64" using assms(8) by (simp add: range_ok_def)
  have small: "unUsedSlots s + 1 < 2 ^ 64" using list_bounds(3) [OF assms(1)] by simp
  have up: "(slots s)[i := x, j := empty_slot] = xs" by (simp add: xs_def)
  show ab: "absorb i j s = s\<lparr>slots := (slots s)[i := x, j := empty_slot], unUsedSlots := Suc (unUsedSlots s)\<rparr>"
    using assms(2-4) sum small by (simp add: absorb_def set_slot_def Let_def x_def)
  have sp: "slot_pages ?P x = slot_pages ?P (slots s ! i) \<union> slot_pages ?P (slots s ! j)"
    using r assms(8) by (simp add: slot_pages_def x_def range_ok_def pages_split)
  have apart: "slot_pages ?P (slots s ! k) \<inter> slot_pages ?P (slots s ! l) = {}" if "k < length (slots s)" "l < length (slots s)" "k \<noteq> l" for k l
    using A(5) that by (simp add: slots_ok_def)
  have okx: "slot_ok ?P ?b ?m (prot s) x"
  proof -
    have "range_ok ?P ?m x" using r sp assms(8) by (auto simp: range_ok_def x_def)
    moreover have "slot_mode x = M" using assms(5) by (simp add: x_def)
    moreover have "M = PROTECTED \<longrightarrow> (\<forall>p \<in> slot_pages ?P x. \<not> prot s p)"
      using A(5) assms(2,3,5,6) sp by (auto simp: slots_ok_def slot_ok_def)
    ultimately show ?thesis using assms(7) by (auto simp: slot_ok_def)
  qed
  have "slots_ok ?P ?b ?m (prot s) ((slots s)[j := empty_slot])"
    by (rule slots_ok_update [OF A(5) assms(3)]) (simp_all add: slot_ok_def)
  then have "slots_ok ?P ?b ?m (prot s) ((slots s)[j := empty_slot, i := x])"
  proof (rule slots_ok_update)
    show "\<forall>k < length ((slots s)[j := empty_slot]). k \<noteq> i \<longrightarrow> slot_pages ?P x \<inter> slot_pages ?P ((slots s)[j := empty_slot] ! k) = {}"
      using apart assms(2,3) by (auto simp: sp nth_list_update Int_Un_distrib2)
  qed (use assms(2) okx in auto)
  then have ok: "slots_ok ?P ?b ?m (prot s) xs" using assms(4) by (simp add: xs_def list_update_swap)
  have xM: "slot_mode x = M" using assms(5) by (simp add: x_def)
  have count: "free_count xs = Suc (free_count (slots s))"
    using free_count_update [of i "slots s" x] free_count_update [of j "(slots s)[i := x]" empty_slot] assms(2-7) xM
    by (auto simp: xs_def)
  have list: "list_ok (s\<lparr>slots := xs, unUsedSlots := Suc (unUsedSlots s)\<rparr>)"
  proof -
    from A(7) obtain k where k: "k < length (slots s)" "slot_mode (slots s ! k) = INTERNAL_USE" "userAddress (slots s ! k) = allocationList s"
      "internalAddress (slots s ! k) \<le> allocationList s"
      "allocationList s + allocationListSize s \<le> internalAddress (slots s ! k) + internalSize (slots s ! k)" by (auto simp: list_ok_def)
    then have "xs ! k = slots s ! k" using assms(2-7) by (auto simp: xs_def nth_list_update)
    with k A(7) show ?thesis by (auto simp: list_ok_def xs_def intro!: exI [of _ k])
  qed
  show "arena (absorb i j s)" using ok count list A(4,6) unfolding ab up by (simp add: arena_def system_ok_def)
  have nh: "\<not> is_held (slots s ! i)" "\<not> is_held (slots s ! j)" "\<not> is_held x" "\<not> is_held empty_slot"
    using assms(5-7) xM by (auto simp: is_held_def)
  then show "held (slots (absorb i j s)) = held (slots s)" unfolding ab using assms(2-4) by (simp add: held_update)
  show "dead ?P (slots (absorb i j s)) = dead ?P (slots s)"
  proof (intro set_eqI iffI)
    fix p assume "p \<in> dead ?P (slots (absorb i j s))"
    then obtain k where "k < length (slots s)" "slot_mode (xs ! k) = PROTECTED" "p \<in> slot_pages ?P (xs ! k)"
      unfolding ab up by (auto simp: dead_iff xs_def)
    then show "p \<in> dead ?P (slots s)" using assms(2-6) sp xM by (auto simp: dead_iff xs_def nth_list_update split: if_splits)
  next
    fix p assume "p \<in> dead ?P (slots s)"
    then obtain k where k: "k < length (slots s)" "slot_mode (slots s ! k) = PROTECTED" "p \<in> slot_pages ?P (slots s ! k)" by (auto simp: dead_iff)
    define l where "l = (if k = j then i else k)"
    have "l < length xs" "slot_mode (xs ! l) = PROTECTED" "p \<in> slot_pages ?P (xs ! l)"
      using k assms(2-6) sp xM by (auto simp: l_def xs_def nth_list_update)
    then show "p \<in> dead ?P (slots (absorb i j s))" unfolding ab up by (auto simp: dead_iff)
  qed
qed

lemma first_index_Some: "first_index Q xs = Some i \<Longrightarrow> i < length xs \<and> Q (xs ! i) \<and> (\<forall>k < i. \<not> Q (xs ! k))"
proof (induction xs arbitrary: i)
  case (Cons x xs)
  show ?case
  proof (cases "Q x")
    case False
    with Cons.prems obtain j where "i = Suc j" "first_index Q xs = Some j" by auto
    with Cons.IH [of j] False show ?thesis by (auto simp: nth_Cons split: nat.splits)
  qed (use Cons.prems in auto)
qed simp

lemma first_index_None: "first_index Q xs = None \<longleftrightarrow> (\<forall>x \<in> set xs. \<not> Q x)"
  by (induction xs) auto

subsection \<open>Freeing one slot\<close>

text \<open>What is left unchanged by joining slots.\<close>

definition same_memory :: "fence \<Rightarrow> fence \<Rightarrow> bool" where
  "same_memory s t \<longleftrightarrow> settings t = settings s \<and> list_vars t = list_vars s \<and> prot t = prot s \<and> cells t = cells s \<and> mapped t = mapped s
     \<and> length (slots t) = length (slots s) \<and> unUsedSlots s \<le> unUsedSlots t
     \<and> held (slots t) = held (slots s) \<and> dead (os_page s) (slots t) = dead (os_page s) (slots s)"

lemma same_memory_trans:
  assumes "same_memory s t" "same_memory t u"
  shows "same_memory s u"
proof -
  have "os_page t = os_page s" using assms(1) unfolding same_memory_def by (blast intro: settings_eqD(1))
  with assms show ?thesis by (simp add: same_memory_def)
qed

lemma same_memory_refl [simp]: "same_memory s s"
  by (simp add: same_memory_def)

lemma absorb_same:
  assumes "arena s" "i < length (slots s)" "j < length (slots s)" "i \<noteq> j" "slot_mode (slots s ! i) = slot_mode (slots s ! j)"
    "slot_mode (slots s ! i) = FREE \<or> slot_mode (slots s ! i) = PROTECTED"
    "internalAddress (slots s ! j) = internalAddress (slots s ! i) + internalSize (slots s ! i)"
  shows "arena (absorb i j s)" "same_memory s (absorb i j s)"
    "internalAddress (slots (absorb i j s) ! i) = internalAddress (slots s ! i)"
    "internalSize (slots (absorb i j s) ! i) = internalSize (slots s ! i) + internalSize (slots s ! j)"
    "slot_mode (slots (absorb i j s) ! i) = slot_mode (slots s ! i)"
    "\<And>k. k \<noteq> i \<Longrightarrow> k \<noteq> j \<Longrightarrow> slots (absorb i j s) ! k = slots s ! k"
proof -
  note ab = absorb_arena [OF assms(1-4) refl assms(5)[symmetric] assms(6,7)]
  show "arena (absorb i j s)" by (rule ab(2))
  show "same_memory s (absorb i j s)" unfolding same_memory_def ab(3,4) by (simp add: ab(1) settings_def list_vars_def)
  show "internalAddress (slots (absorb i j s) ! i) = internalAddress (slots s ! i)"
    "internalSize (slots (absorb i j s) ! i) = internalSize (slots s ! i) + internalSize (slots s ! j)"
    "slot_mode (slots (absorb i j s) ! i) = slot_mode (slots s ! i)"
    "\<And>k. k \<noteq> i \<Longrightarrow> k \<noteq> j \<Longrightarrow> slots (absorb i j s) ! k = slots s ! k"
    using assms(2-4) by (simp_all add: ab(1))
qed

lemma coalesce_result:
  assumes "arena s" "i < length (slots s)" "slot_mode (slots s ! i) = FREE \<or> slot_mode (slots s ! i) = PROTECTED"
    and prev: "\<And>p. prev = Some p \<Longrightarrow> p < length (slots s) \<and> add64 (internalAddress (slots s ! p)) (internalSize (slots s ! p)) = internalAddress (slots s ! i)"
    and nxt: "\<And>n. nxt = Some n \<Longrightarrow> n < length (slots s) \<and> internalAddress (slots s ! n) = internalAddress (slots s ! i) + internalSize (slots s ! i)"
  obtains j t where "coalesce i prev nxt s = (j, t)" "arena t" "same_memory s t" "j < length (slots t)"
    "slot_mode (slots t ! j) = slot_mode (slots s ! i)"
proof -
  note A = arenaD [OF assms(1)]
  have r: "range_ok (os_page s) (Collect (page_mapped s)) (slots s ! i)" using used_piece [OF A(5) assms(2)] assms(3) by auto
  have small: "k < length (slots s) \<Longrightarrow> internalAddress (slots s ! k) + internalSize (slots s ! k) < 2 ^ 64" for k
    using used_piece [OF A(5), of k] unused_empty [OF A(5), of k] by (cases "slot_mode (slots s ! k) = NOT_IN_USE") (auto simp: range_ok_def empty_slot_def)
  let ?join = "\<lambda>p. prev = Some p \<and> slot_mode (slots s ! p) = slot_mode (slots s ! i)"
  obtain j t where jt: "(case prev of Some p \<Rightarrow> if slot_mode (slots s ! p) = slot_mode (slots s ! i) then (p, absorb p i s) else (i, s) | None \<Rightarrow> (i, s)) = (j, t)"
    by force
  have first: "arena t \<and> same_memory s t \<and> j < length (slots t) \<and> slot_mode (slots t ! j) = slot_mode (slots s ! i)
      \<and> internalAddress (slots t ! j) + internalSize (slots t ! j) = internalAddress (slots s ! i) + internalSize (slots s ! i)
      \<and> (\<forall>n. nxt = Some n \<longrightarrow> n \<noteq> j \<and> slots t ! n = slots s ! n)"
  proof (cases "\<exists>p. ?join p")
    case True
    then obtain p where p: "prev = Some p" "slot_mode (slots s ! p) = slot_mode (slots s ! i)" by blast
    then have jt': "j = p" "t = absorb p i s" using jt by auto
    have pp: "p < length (slots s)" "internalAddress (slots s ! i) = internalAddress (slots s ! p) + internalSize (slots s ! p)"
      using prev [OF p(1)] small [of p] by auto
    have ip: "p \<noteq> i" using pp(2) r by (auto simp: range_ok_def)
    note ab = absorb_same [OF assms(1) pp(1) assms(2) ip p(2) _ pp(2)]
    have n: "n \<noteq> p \<and> n \<noteq> i" if "nxt = Some n" for n using nxt [OF that] pp(2) r by (auto simp: range_ok_def)
    have "j < length (slots t)" using ab(2) pp(1) assms(3) p(2) jt' by (simp add: same_memory_def)
    then show ?thesis using ab assms(3) p(2) pp(2) n unfolding jt' by auto
  next
    case False
    then have "j = i" "t = s" using jt by (auto split: option.splits)
    then show ?thesis using assms(1,2) nxt r by (auto simp: range_ok_def)
  qed
  have co: "coalesce i prev nxt s = (case nxt of Some n \<Rightarrow> if slot_mode (slots t ! n) = slot_mode (slots t ! j) then (j, absorb j n t) else (j, t) | None \<Rightarrow> (j, t))"
    unfolding coalesce_def jt by simp
  show thesis
  proof (cases "\<exists>n. nxt = Some n \<and> slot_mode (slots t ! n) = slot_mode (slots t ! j)")
    case True
    then obtain n where n: "nxt = Some n" "slot_mode (slots t ! n) = slot_mode (slots t ! j)" by blast
    have nn: "n < length (slots t)" "j \<noteq> n" "internalAddress (slots t ! n) = internalAddress (slots t ! j) + internalSize (slots t ! j)"
      using nxt [OF n(1)] first n(1) by (auto simp: same_memory_def)
    have jm: "slot_mode (slots t ! j) = FREE \<or> slot_mode (slots t ! j) = PROTECTED" using first assms(3) by simp
    note ab = absorb_same [OF _ _ nn(1,2) n(2)[symmetric] jm nn(3)]
    have "coalesce i prev nxt s = (j, absorb j n t)" using co n by simp
    moreover have "same_memory s (absorb j n t)" using same_memory_trans first ab(2) by blast
    moreover have "j < length (slots (absorb j n t))" using first ab(2) by (simp add: same_memory_def)
    ultimately show thesis using that ab first by metis
  next
    case False
    then have "coalesce i prev nxt s = (j, t)" using co by (auto split: option.splits)
    then show thesis using that first by blast
  qed
qed

text \<open>The slot \<open>i\<close> after its mode has changed and its pages are denied.\<close>

definition released :: "nat \<Rightarrow> fence \<Rightarrow> fence" where
  "released i s = (let f = slots s ! i in
     s\<lparr>prot := (\<lambda>p. if p \<in> slot_pages (os_page s) f then False else prot s p),
       cells := (\<lambda>x. if internalAddress f \<le> x \<and> x < internalAddress f + internalSize f then 0 else cells s x),
       slots := (slots s)[i := f\<lparr>slot_mode := (if EF_PROTECT_FREE s \<noteq> 0 then PROTECTED else FREE)\<rparr>]\<rparr>)"

lemma released_arena:
  assumes "arena s" "i < length (slots s)" "is_held (slots s ! i)" "slot_mode (slots s ! i) = INTERNAL_USE \<Longrightarrow> userAddress (slots s ! i) \<noteq> allocationList s"
  shows "arena (released i s)" "keeps (slot_pages (os_page s) (slots s ! i)) s (released i s)"
    "held (slots (released i s)) = held (slots s) - {slots s ! i}"
    "dead (os_page s) (slots (released i s)) = dead (os_page s) (slots s) \<union> (if EF_PROTECT_FREE s \<noteq> 0 then slot_pages (os_page s) (slots s ! i) else {})"
proof -
  let ?P = "os_page s" let ?m = "Collect (page_mapped s)" let ?b = "EF_PROTECT_BELOW s \<noteq> 0" let ?f = "slots s ! i"
  define M where "M = (if EF_PROTECT_FREE s \<noteq> 0 then PROTECTED else FREE)"
  define x where "x = ?f\<lparr>slot_mode := M\<rparr>"
  define pr where "pr = (\<lambda>p. if p \<in> slot_pages ?P ?f then False else prot s p)"
  define h where "h = (\<lambda>x. if internalAddress ?f \<le> x \<and> x < internalAddress ?f + internalSize ?f then 0 else cells s x)"
  note A = arenaD [OF assms(1)]
  have re: "released i s = s\<lparr>prot := pr, cells := h, slots := (slots s)[i := x]\<rparr>" by (simp add: released_def Let_def pr_def h_def x_def M_def)
  have r: "range_ok ?P ?m ?f" using used_piece [OF A(5) assms(2)] assms(3) by (auto simp: is_held_def)
  have xp: "slot_pages ?P x = slot_pages ?P ?f" by (simp add: x_def slot_pages_def)
  have xM: "slot_mode x = M" "M = PROTECTED \<or> M = FREE" by (simp_all add: x_def M_def)
  have apart: "slot_pages ?P ?f \<inter> slot_pages ?P (slots s ! k) = {}" if "k < length (slots s)" "k \<noteq> i" for k
    using A(5) that assms(2) by (simp add: slots_ok_def)
  have ok: "slots_ok ?P ?b ?m pr ((slots s)[i := x])"
  proof (rule slots_ok_update [OF A(5) assms(2)])
    have "range_ok ?P ?m x" using r by (auto simp: x_def range_ok_def slot_pages_def)
    then show "slot_ok ?P ?b ?m pr x" using xM xp by (auto simp: slot_ok_def pr_def)
    show "\<forall>j < length (slots s). j \<noteq> i \<longrightarrow> slot_pages ?P x \<inter> slot_pages ?P (slots s ! j) = {}" using apart xp by simp
    then show "\<forall>j < length (slots s). j \<noteq> i \<longrightarrow> (\<forall>p \<in> slot_pages ?P (slots s ! j). pr p = prot s p)" using xp by (auto simp: pr_def)
  qed simp
  have count: "free_count ((slots s)[i := x]) = free_count (slots s)"
    using free_count_update [OF assms(2), of x] assms(3) xM by (auto simp: is_held_def)
  have list: "list_ok (released i s)"
  proof -
    from A(7) obtain k where k: "k < length (slots s)" "slot_mode (slots s ! k) = INTERNAL_USE" "userAddress (slots s ! k) = allocationList s"
      "internalAddress (slots s ! k) \<le> allocationList s"
      "allocationList s + allocationListSize s \<le> internalAddress (slots s ! k) + internalSize (slots s ! k)" by (auto simp: list_ok_def)
    then have "k \<noteq> i" using assms(3,4) by auto
    with k A(7) show ?thesis by (auto simp: list_ok_def re intro!: exI [of _ k])
  qed
  show "arena (released i s)" using ok count list A(4,6) by (simp add: re arena_def system_ok_def list_ok_def)
  have "x div ?P \<in> slot_pages ?P ?f" if "internalAddress ?f \<le> x" "x < internalAddress ?f + internalSize ?f" for x
    using in_pages [OF A(1) _ _ that] r by (simp add: slot_pages_def range_ok_def)
  then show "keeps (slot_pages ?P ?f) s (released i s)" by (auto simp: re keeps_def settings_def pr_def h_def)
  have nx: "\<not> is_held x" using xM by (auto simp: is_held_def)
  show "held (slots (released i s)) = held (slots s) - {?f}"
  proof (intro set_eqI iffI)
    fix y assume "y \<in> held (slots (released i s))"
    then obtain k where k: "is_held y" "k < length (slots s)" "(slots s)[i := x] ! k = y" by (auto simp: held_iff re)
    then have ki: "k \<noteq> i" using nx assms(2) by auto
    then have "slots s ! k = y" using k by simp
    moreover have "y \<noteq> ?f" using held_distinct [OF A(5,1) k(2) assms(2)] ki k(1) calculation by auto
    ultimately show "y \<in> held (slots s) - {?f}" using k by (auto simp: held_iff)
  next
    fix y assume y: "y \<in> held (slots s) - {?f}"
    then obtain k where "is_held y" "k < length (slots s)" "slots s ! k = y" by (auto simp: held_iff)
    moreover from this y have "k \<noteq> i" by auto
    ultimately show "y \<in> held (slots (released i s))" by (auto simp: held_iff re intro!: exI [of _ k])
  qed
  have fm: "slot_mode ?f \<noteq> PROTECTED" using assms(3) by (auto simp: is_held_def)
  show "dead ?P (slots (released i s)) = dead ?P (slots s) \<union> (if EF_PROTECT_FREE s \<noteq> 0 then slot_pages ?P ?f else {})"
  proof (intro set_eqI iffI)
    fix p assume "p \<in> dead ?P (slots (released i s))"
    then obtain k where "k < length (slots s)" "slot_mode ((slots s)[i := x] ! k) = PROTECTED" "p \<in> slot_pages ?P ((slots s)[i := x] ! k)"
      by (auto simp: dead_iff re)
    then show "p \<in> dead ?P (slots s) \<union> (if EF_PROTECT_FREE s \<noteq> 0 then slot_pages ?P ?f else {})"
      using xM xp assms(2) by (cases "k = i") (auto simp: dead_iff M_def split: if_splits)
  next
    fix p assume "p \<in> dead ?P (slots s) \<union> (if EF_PROTECT_FREE s \<noteq> 0 then slot_pages ?P ?f else {})"
    then consider k where "k < length (slots s)" "slot_mode (slots s ! k) = PROTECTED" "p \<in> slot_pages ?P (slots s ! k)"
      | "M = PROTECTED" "p \<in> slot_pages ?P ?f" by (auto simp: dead_iff M_def split: if_splits)
    then show "p \<in> dead ?P (slots (released i s))"
    proof cases
      case 1
      then have "k \<noteq> i" using fm by auto
      with 1 show ?thesis by (auto simp: dead_iff re intro!: exI [of _ k])
    next
      case 2
      with assms(2) xM xp show ?thesis by (auto simp: dead_iff re intro!: exI [of _ i])
    qed
  qed
qed

lemma free_slot_result:
  assumes "arena s" "i < length (slots s)" "is_held (slots s ! i)" "slot_mode (slots s ! i) = INTERNAL_USE \<Longrightarrow> userAddress (slots s ! i) \<noteq> allocationList s"
  shows "\<exists>t. free_slot i s = Inr t \<and> arena t \<and> keeps (slot_pages (os_page s) (slots s ! i)) s t
    \<and> held (slots t) = held (slots s) - {slots s ! i}
    \<and> dead (os_page s) (slots t) = dead (os_page s) (slots s) \<union> (if EF_PROTECT_FREE s \<noteq> 0 then slot_pages (os_page s) (slots s ! i) else {})
    \<and> (\<forall>p \<in> slot_pages (os_page s) (slots s ! i). \<not> prot t p)
    \<and> list_vars t = list_vars s \<and> mapped t = mapped s \<and> length (slots t) = length (slots s) \<and> unUsedSlots s \<le> unUsedSlots t"
proof -
  let ?P = "os_page s" let ?f = "slots s ! i"
  define M where "M = (if EF_PROTECT_FREE s \<noteq> 0 then PROTECTED else FREE)"
  note A = arenaD [OF assms(1)] and re = released_arena [OF assms]
  have r: "range_ok ?P (Collect (page_mapped s)) ?f" using used_piece [OF A(5) assms(2)] assms(3) by (auto simp: is_held_def)
  define u where "u = set_slot i (\<lambda>x. x\<lparr>slot_mode := M\<rparr>) s"
  have u: "slots u ! i = ?f\<lparr>slot_mode := M\<rparr>" "os_page u = ?P" "page_mapped u = page_mapped s" "os_mprotect u = willing"
    using assms(2) A(8) by (simp_all add: u_def set_slot_def)
  have del: "Page_Delete (internalAddress (slots u ! i)) (internalSize (slots u ! i)) u = Inr (released i s)"
    using r A(1) by (simp add: u page_calls(3) range_ok_def slot_pages_def)
      (simp add: u_def set_slot_def released_def Let_def M_def slot_pages_def cong: if_cong)
  let ?u = "released i s"
  have ri: "slots ?u ! i = ?f\<lparr>slot_mode := M\<rparr>" "length (slots ?u) = length (slots s)" using assms(2) by (simp_all add: released_def Let_def M_def)
  define prev where "prev = slotForInternalAddressPreviousTo (internalAddress (slots ?u ! i)) ?u"
  define nxt where "nxt = slotForInternalAddress (add64 (internalAddress (slots ?u ! i)) (internalSize (slots ?u ! i))) ?u"
  have p: "p < length (slots ?u) \<and> add64 (internalAddress (slots ?u ! p)) (internalSize (slots ?u ! p)) = internalAddress (slots ?u ! i)" if "prev = Some p" for p
    using first_index_Some [OF that [unfolded prev_def slotForInternalAddressPreviousTo_def]] by simp
  have n: "n < length (slots ?u) \<and> internalAddress (slots ?u ! n) = internalAddress (slots ?u ! i) + internalSize (slots ?u ! i)" if "nxt = Some n" for n
    using first_index_Some [OF that [unfolded nxt_def slotForInternalAddress_def]] r by (simp add: ri range_ok_def)
  have i: "i < length (slots ?u)" "slot_mode (slots ?u ! i) = FREE \<or> slot_mode (slots ?u ! i) = PROTECTED" using assms(2) ri by (simp_all add: M_def)
  from coalesce_result [OF re(1) i p n] obtain j v where v: "coalesce i prev nxt ?u = (j, v)" "arena v" "same_memory ?u v"
    "j < length (slots v)" "slot_mode (slots v ! j) = slot_mode (slots ?u ! i)" by blast
  define t where "t = set_slot j (\<lambda>x. x\<lparr>userAddress := internalAddress x, userSize := internalSize x\<rparr>) v"
  have run: "free_slot i s = Inr t" using del v(1) unfolding free_slot_def Let_def u_def [symmetric] M_def [symmetric]
    by (simp add: and_then_def prev_def nxt_def t_def)
  let ?y = "(slots v ! j)\<lparr>userAddress := internalAddress (slots v ! j), userSize := internalSize (slots v ! j)\<rparr>"
  note V = arenaD [OF v(2)]
  have jm: "slot_mode (slots v ! j) = M" "M = FREE \<or> M = PROTECTED" using v(5) ri by (simp_all add: M_def)
  have rj: "range_ok (os_page v) (Collect (page_mapped v)) (slots v ! j)" using used_piece [OF V(5) v(4)] jm by auto
  have yp: "slot_pages P ?y = slot_pages P (slots v ! j)" for P by (simp add: slot_pages_def)
  have oky: "slot_ok (os_page v) (EF_PROTECT_BELOW v \<noteq> 0) (Collect (page_mapped v)) (prot v) ?y"
  proof -
    have "slot_ok (os_page v) (EF_PROTECT_BELOW v \<noteq> 0) (Collect (page_mapped v)) (prot v) (slots v ! j)" using V(5) v(4) by (simp add: slots_ok_def)
    then show ?thesis using jm rj by (auto simp: slot_ok_def range_ok_def slot_pages_def)
  qed
  have ok: "slots_ok (os_page v) (EF_PROTECT_BELOW v \<noteq> 0) (Collect (page_mapped v)) (prot v) ((slots v)[j := ?y])"
    using V(5) v(4) by (intro slots_ok_update [OF V(5) v(4) oky]) (auto simp: yp slots_ok_def)
  have cnt: "free_count ((slots v)[j := ?y]) = free_count (slots v)" using free_count_update [OF v(4), of ?y] jm by auto
  have tl: "list_ok t"
  proof -
    from V(7) obtain k where k: "k < length (slots v)" "slot_mode (slots v ! k) = INTERNAL_USE" "userAddress (slots v ! k) = allocationList v"
      "internalAddress (slots v ! k) \<le> allocationList v"
      "allocationList v + allocationListSize v \<le> internalAddress (slots v ! k) + internalSize (slots v ! k)" by (auto simp: list_ok_def)
    then have "k \<noteq> j" using jm by auto
    with k V(7) show ?thesis by (auto simp: list_ok_def t_def set_slot_def intro!: exI [of _ k])
  qed
  have ta: "arena t" using ok cnt tl V(4,6) by (simp add: arena_def system_ok_def t_def set_slot_def)
  have tk: "length (slots t) = length (slots v)" "slot_mode (slots t ! k) = slot_mode (slots v ! k)"
    "slot_pages P (slots t ! k) = slot_pages P (slots v ! k)" for k P
    using v(4) yp by (cases "k = j"; simp add: t_def set_slot_def)+
  have hd: "held (slots t) = held (slots v)" "dead P (slots t) = dead P (slots v)" for P
  proof -
    show "held (slots t) = held (slots v)" using v(4) jm by (auto simp: t_def set_slot_def held_update is_held_def)
    show "dead P (slots t) = dead P (slots v)" by (intro set_eqI) (simp add: dead_iff tk)
  qed
  have tv: "settings t = settings v" "list_vars t = list_vars v" "prot t = prot v" "cells t = cells v" "mapped t = mapped v"
    "length (slots t) = length (slots v)" "unUsedSlots t = unUsedSlots v"
    by (simp_all add: t_def set_slot_def settings_def list_vars_def)
  have sm: "settings v = settings ?u" "list_vars v = list_vars ?u" "prot v = prot ?u" "cells v = cells ?u" "mapped v = mapped ?u"
    "length (slots v) = length (slots ?u)" "unUsedSlots ?u \<le> unUsedSlots v" "held (slots v) = held (slots ?u)" "dead (os_page ?u) (slots v) = dead (os_page ?u) (slots ?u)"
    using v(3) by (simp_all add: same_memory_def)
  have uf: "list_vars ?u = list_vars s" "mapped ?u = mapped s" "unUsedSlots ?u = unUsedSlots s" "os_page ?u = ?P"
    by (simp_all add: released_def Let_def list_vars_def)
  have "keeps (slot_pages ?P ?f) s t" using re(2) tv sm by (simp add: keeps_def)
  moreover have "held (slots t) = held (slots s) - {?f}" using hd sm(8) re(3) by simp
  moreover have "dead ?P (slots t) = dead ?P (slots s) \<union> (if EF_PROTECT_FREE s \<noteq> 0 then slot_pages ?P ?f else {})"
    using hd(2) sm(9) re(4) uf(4) by simp
  moreover have "\<forall>p \<in> slot_pages ?P ?f. \<not> prot t p" using tv sm by (simp add: released_def Let_def)
  ultimately show ?thesis using run ta tv sm uf ri(2) by (intro exI [of _ t]) simp
qed

end
