(* ===== verification/Ef_Fence.thy ===== *)
theory Ef_Fence
  imports Ef_Free
begin

text \<open>The operations of the allocator on whole states: growing the list of slots, allocating, freeing.\<close>

lemma arena_flags [simp]:
  "arena (s\<lparr>noAllocationListProtection := b\<rparr>) = arena s" "arena (s\<lparr>internalUse := b\<rparr>) = arena s" "arena (s\<lparr>EF_sem := n\<rparr>) = arena s"
  by (simp_all add: arena_def system_ok_def list_ok_def)

lemma list_pages_flags [simp]:
  "list_pages (s\<lparr>noAllocationListProtection := b\<rparr>) = list_pages s" "list_pages (s\<lparr>internalUse := b\<rparr>) = list_pages s"
  "list_pages (s\<lparr>EF_sem := n\<rparr>) = list_pages s"
  by (simp_all add: list_pages_def)

text \<open>The buffers that the user holds.\<close>

definition bufs :: "Slot list \<Rightarrow> Slot set" where
  "bufs xs = {x \<in> set xs. slot_mode x = ALLOCATED}"

lemma bufs_held: "bufs xs = {x \<in> held xs. slot_mode x = ALLOCATED}"
  by (auto simp: bufs_def held_def is_held_def)

lemma held_slot:
  assumes "arena s" "x \<in> held (slots s)"
  obtains i where "i < length (slots s)" "slots s ! i = x" "is_held x" "range_ok (os_page s) (Collect (page_mapped s)) x"
proof -
  from assms(2) obtain i where i: "i < length (slots s)" "slots s ! i = x" "is_held x" by (auto simp: held_iff)
  moreover have "range_ok (os_page s) (Collect (page_mapped s)) x" using used_piece [OF arenaD(5) [OF assms(1)] i(1)] i(2,3) by (auto simp: is_held_def)
  ultimately show thesis using that by blast
qed

lemma buf_ok:
  assumes "arena s" "x \<in> bufs (slots s)"
  shows "buffer_ok (os_page s) (EF_PROTECT_BELOW s \<noteq> 0) (prot s) x" "range_ok (os_page s) (Collect (page_mapped s)) x" "x \<in> held (slots s)"
proof -
  show h: "x \<in> held (slots s)" using assms(2) by (simp add: bufs_held)
  from held_slot [OF assms(1) h] obtain i where i: "i < length (slots s)" "slots s ! i = x" "range_ok (os_page s) (Collect (page_mapped s)) x" by blast
  then have "slot_ok (os_page s) (EF_PROTECT_BELOW s \<noteq> 0) (Collect (page_mapped s)) (prot s) x"
    using arenaD(5) [OF assms(1)] by (auto simp: slots_ok_def)
  then show "buffer_ok (os_page s) (EF_PROTECT_BELOW s \<noteq> 0) (prot s) x" using assms(2) by (simp add: slot_ok_def bufs_def)
  show "range_ok (os_page s) (Collect (page_mapped s)) x" by fact
qed

lemma held_apart:
  assumes "arena s" "x \<in> held (slots s)" "y \<in> held (slots s)" "x \<noteq> y"
  shows "slot_pages (os_page s) x \<inter> slot_pages (os_page s) y = {}"
proof -
  from assms(2,3) obtain i j where "i < length (slots s)" "slots s ! i = x" "j < length (slots s)" "slots s ! j = y"
    by (auto simp: held_iff)
  with arenaD(5) [OF assms(1)] assms(4) show ?thesis unfolding slots_ok_def by metis
qed

lemma held_dead:
  assumes "arena s" "x \<in> held (slots s)"
  shows "slot_pages (os_page s) x \<inter> dead (os_page s) (slots s) = {}"
proof -
  from assms(2) obtain i where i: "i < length (slots s)" "slots s ! i = x" "is_held x" by (auto simp: held_iff)
  have "slot_pages (os_page s) x \<inter> slot_pages (os_page s) (slots s ! k) = {}" if "k < length (slots s)" "slot_mode (slots s ! k) = PROTECTED" for k
  proof -
    have "k \<noteq> i" using that i by (auto simp: is_held_def)
    then show ?thesis using that(1) i(1,2) arenaD(5) [OF assms(1)] unfolding slots_ok_def by metis
  qed
  then show ?thesis unfolding disjoint_iff dead_iff by blast
qed

lemma user_address_page:
  assumes "arena s" "k < length (slots s)" "userAddress (slots s ! k) = a" "a \<noteq> 0"
  shows "a div os_page s \<in> slot_pages (os_page s) (slots s ! k)"
proof -
  have "slot_mode (slots s ! k) \<noteq> NOT_IN_USE" using unused_empty [OF arenaD(5) [OF assms(1)] assms(2)] assms(3,4) by (auto simp: empty_slot_def)
  then have "range_ok (os_page s) (Collect (page_mapped s)) (slots s ! k)" using used_piece [OF arenaD(5) [OF assms(1)] assms(2)] by simp
  then show ?thesis using assms(3,4) arenaD(1) [OF assms(1)] by (auto simp: range_ok_def slot_pages_def intro!: in_pages)
qed

lemma slot_lookup:
  assumes "arena s" "i < length (slots s)" "userAddress (slots s ! i) \<noteq> 0"
  shows "slotForUserAddress (userAddress (slots s ! i)) s = Some i"
proof (cases "slotForUserAddress (userAddress (slots s ! i)) s")
  case None
  then show ?thesis using assms(2) by (auto simp: slotForUserAddress_def first_index_None)
next
  case (Some k)
  note k = first_index_Some [OF Some [unfolded slotForUserAddress_def]]
  have "k = i"
  proof (rule ccontr)
    assume "k \<noteq> i"
    then have "slot_pages (os_page s) (slots s ! k) \<inter> slot_pages (os_page s) (slots s ! i) = {}"
      using k assms(2) arenaD(5) [OF assms(1)] by (simp add: slots_ok_def)
    then show False using user_address_page [OF assms(1) conjunct1 [OF k] _ assms(3)] user_address_page [OF assms(1,2) refl assms(3)] k by auto
  qed
  with Some show ?thesis by simp
qed

lemma buf_address:
  assumes "arena s" "x \<in> bufs (slots s)"
  shows "userAddress x \<noteq> 0"
  using buf_ok [OF assms] by (auto simp: buffer_ok_def range_ok_def split: if_splits)

subsection \<open>More slots\<close>

definition intact :: "fence \<Rightarrow> fence \<Rightarrow> Slot \<Rightarrow> bool" where
  "intact s s' y \<longleftrightarrow> (\<forall>p \<in> slot_pages (os_page s) y. prot s' p = prot s p \<and> (\<forall>x. x div os_page s = p \<longrightarrow> cells s' x = cells s x))"

lemma keeps_intact: "keeps D s s' \<Longrightarrow> slot_pages (os_page s) y \<inter> D = {} \<Longrightarrow> intact s s' y"
  by (auto simp: keeps_def intact_def)

lemma memalign_internal:
  assumes "arena s" "list_open s" "2 \<le> unUsedSlots s" "noAllocationListProtection s" "internalUse s"
    "os_page s dvd n" "0 < n" "n \<le> 2 ^ 30" "al \<le> 1 \<or> al dvd os_page s"
  shows "memalign_with g al n s = Inl (mmap_failed s) \<or> (\<exists>a s' x. memalign_with g al n s = Inr (a, s')
    \<and> allocates {} (n + os_page s) n s a s' x \<and> os_page s dvd a)"
proof -
  note A = arenaD [OF assms(1)]
  have P20: "os_page s < 2 ^ 20" using A(4) by (simp add: system_ok_def)
  have "padded_size s al n = n" using assms(6,9) by (auto simp: padded_size_def Let_def dvd_eq_mod_eq_0 [symmetric] intro: dvd_trans)
  moreover have "round_pages (bytesPerPage s) (add64 n (bytesPerPage s)) = n + os_page s"
    using assms(6,8) P20 A(3) by (simp add: round_pages_def Let_def)
  ultimately have run: "memalign_with g al n s = memalign_slots (n + os_page s) n s"
    using assms(4,5,7) by (simp add: memalign_with_def and_then_def Let_def)
  from memalign_slots_result [OF assms(1-3), of "n + os_page s" n] assms(5-8) P20
  consider "memalign_slots (n + os_page s) n s = Inl (mmap_failed s)"
    | a s' x where "memalign_slots (n + os_page s) n s = Inr (a, s')" "allocates {} (n + os_page s) n s a s' x" by auto
  then show ?thesis
  proof cases
    case 2
    have "x \<in> held (slots s')" using 2(2) assms(5) by (auto simp: allocates_def held_def owned_def is_held_def)
    moreover have ar: "arena s'" and st: "settings s' = settings s" using 2(2) by (simp_all add: allocates_def keeps_def)
    ultimately have "os_page s dvd internalAddress x" using held_slot [of s' x] settings_eqD(1) [OF st] by (auto simp: range_ok_def)
    then have "os_page s dvd a" using 2(2) assms(6) by (auto simp: allocates_def buffer_ok_def split: if_splits)
    with 2 run show ?thesis by auto
  qed (use run in simp)
qed

end
