(* ===== verification/Ef_Grow.thy ===== *)
theory Ef_Grow
  imports Ef_Fence
begin

text \<open>\<open>allocateMoreSlots\<close> moves the list of slots to a larger buffer.\<close>

lemma free_count_append: "free_count (xs @ ys) = free_count xs + free_count ys"
  by (simp add: free_count_def)

lemma extend_slots_ok:
  assumes "slots_ok P below m pr xs"
  shows "slots_ok P below m pr (xs @ replicate k empty_slot)"
proof -
  have e: "slot_ok P below m pr empty_slot" by (simp add: slot_ok_def)
  show ?thesis using assms e by (auto simp: slots_ok_def nth_append)
qed

definition extended :: "nat \<Rightarrow> (nat \<Rightarrow> u8) \<Rightarrow> fence \<Rightarrow> fence" where
  "extended a c s = s\<lparr>cells := c, allocationList := a, allocationListSize := allocationListSize s + os_page s,
     slots := slots s @ replicate (slotsPerPage s) empty_slot, unUsedSlots := unUsedSlots s + slotsPerPage s\<rparr>"

lemma extended_arena:
  assumes "arena s" "x \<in> held (slots s)" "slot_mode x = INTERNAL_USE" "userAddress x = a" "os_page s dvd a"
    "internalAddress x \<le> a" "a + (allocationListSize s + os_page s) \<le> internalAddress x + internalSize x"
  shows "arena (extended a c s)" "held (slots (extended a c s)) = held (slots s)"
    "dead (os_page s) (slots (extended a c s)) = dead (os_page s) (slots s)"
proof -
  note A = arenaD [OF assms(1)]
  from held_slot [OF assms(1,2)] obtain i where i: "i < length (slots s)" "slots s ! i = x" "range_ok (os_page s) (Collect (page_mapped s)) x" by blast
  have spp: "slotsPerPage s = os_page s div 40" using A(4) by (simp add: system_ok_def)
  have "slotsPerPage s * 40 \<le> os_page s" unfolding spp by (metis div_times_less_eq_dividend)
  then have "list_ok (extended a c s)"
    using A(7) assms(3-7) i by (auto simp: list_ok_def extended_def range_ok_def nth_append add_mult_distrib intro!: exI [of _ i])
  moreover have "free_count (replicate k empty_slot) = k" for k by (simp add: free_count_def)
  ultimately show "arena (extended a c s)" using A(4,6) extend_slots_ok [OF A(5)]
    by (simp add: arena_def system_ok_def extended_def free_count_append)
  show "held (slots (extended a c s)) = held (slots s)" by (auto simp: held_def extended_def is_held_def)
  show "dead (os_page s) (slots (extended a c s)) = dead (os_page s) (slots s)" by (auto simp: dead_def extended_def)
qed

lemma memcpy_ok: "accessible s d n \<Longrightarrow> accessible s a n \<Longrightarrow>
    memcpy d a n s = Inr (s\<lparr>cells := (\<lambda>x. if d \<le> x \<and> x < d + n then cells s (a + (x - d)) else cells s x)\<rparr>)"
  by (simp add: memcpy_def)

lemma memset_ok: "accessible s a n \<Longrightarrow> memset a v n s = Inr (s\<lparr>cells := (\<lambda>x. if a \<le> x \<and> x < a + n then v else cells s x)\<rparr>)"
  by (simp add: memset_def fill_cells_def)

lemma accessible_prot: "prot t = prot s \<Longrightarrow> os_page t = os_page s \<Longrightarrow> accessible t a n = accessible s a n"
  by (simp add: accessible_def page_range_def)

lemma accessible_sub:
  assumes "0 < os_page s" "os_page s dvd a" "os_page s dvd n" "\<forall>p \<in> pages (os_page s) a n. prot s p" "a \<le> b" "b + m \<le> a + n"
  shows "accessible s b m"
proof -
  have "set (page_range s b m) \<subseteq> set (page_range s a n)"
    using assms(5,6) by (auto simp: page_range_def intro: le_trans less_le_trans div_le_mono)
  then show ?thesis using assms(1-4) by (auto simp: accessible_def list_all_iff set_page_range)
qed

text \<open>The pages of the user's part of an internal buffer can be accessed.\<close>

lemma buffer_live:
  assumes "buffer_ok P b pr x" "internalSize x = n + P" "userSize x = n"
  shows "\<forall>p \<in> pages P (userAddress x) n. pr p" "internalAddress x \<le> userAddress x" "userAddress x + n \<le> internalAddress x + internalSize x"
  using assms by (auto simp: buffer_ok_def split: if_splits)

definition grows :: "fence \<Rightarrow> fence \<Rightarrow> bool" where
  "grows s t \<longleftrightarrow> arena t \<and> list_open t \<and> \<not> internalUse t \<and> \<not> noAllocationListProtection t \<and> 7 \<le> unUsedSlots t
     \<and> settings t = settings s \<and> allocationListSize t = allocationListSize s + os_page s
     \<and> bufs (slots t) = bufs (slots s) \<and> dead (os_page s) (slots s) \<subseteq> dead (os_page s) (slots t) \<and> (\<forall>y \<in> bufs (slots s). intact s t y)"

text \<open>The old list is freed when the new one is in place.\<close>

lemma free_old_list:
  assumes "arena s" "list_open s" "internalUse s" "noAllocationListProtection s" "x \<in> held (slots s)" "slot_mode x = INTERNAL_USE"
    "userAddress x \<noteq> allocationList s" "userAddress x \<noteq> 0"
  obtains t where "free_locked (userAddress x) s = Inr t" "arena t" "keeps (slot_pages (os_page s) x) s t"
    "held (slots t) = held (slots s) - {x}" "dead (os_page s) (slots s) \<subseteq> dead (os_page s) (slots t)" "list_vars t = list_vars s"
    "unUsedSlots s \<le> unUsedSlots t"
proof -
  from held_slot [OF assms(1,5)] obtain i where i: "i < length (slots s)" "slots s ! i = x" "is_held x" by blast
  have look: "slotForUserAddress (userAddress x) s = Some i" using slot_lookup [OF assms(1) i(1)] i(2) assms(8) by simp
  have "slot_mode (slots s ! i) = INTERNAL_USE \<Longrightarrow> userAddress (slots s ! i) \<noteq> allocationList s" using i(2) assms(7) by simp
  from free_slot_result [OF assms(1) i(1) _ this] i obtain t where t: "free_slot i s = Inr t" "arena t" "keeps (slot_pages (os_page s) x) s t"
    "held (slots t) = held (slots s) - {x}" "dead (os_page s) (slots s) \<subseteq> dead (os_page s) (slots t)" "list_vars t = list_vars s"
    "unUsedSlots s \<le> unUsedSlots t" by (metis Un_upper1)
  have "noAllocationListProtection t" using list_vars_eqD(4) [OF t(6)] assms(4) by simp
  then have "free_locked (userAddress x) s = Inr t"
    using assms(2-4,6,8) look i t(1) by (simp add: free_locked_def and_then_def with_list_def)
  with t that show thesis by blast
qed

lemma grow_result:
  assumes "arena s" "\<not> noAllocationListProtection s" "\<not> internalUse s" "2 \<le> unUsedSlots s" "allocationListSize s \<le> 2 ^ 29"
  shows "allocateMoreSlots s = Inl (mmap_failed s) \<or> (\<exists>t. allocateMoreSlots s = Inr t \<and> grows s t)"
proof -
  let ?P = "os_page s" let ?n = "allocationListSize s + ?P"
  note A = arenaD [OF assms(1)] and LB = list_bounds [OF assms(1)]
  have P: "360 \<le> ?P" "?P < 2 ^ 20" "slotsPerPage s = ?P div 40" "to_size (EF_ALIGNMENT s) \<le> 1 \<or> to_size (EF_ALIGNMENT s) dvd ?P"
    using A(4) by (simp_all add: system_ok_def)
  have n: "add64 (allocationListSize s) (bytesPerPage s) = ?n" using A(3) assms(5) P(2) by simp
  define s1 where "s1 = (set_list_prot True s)\<lparr>noAllocationListProtection := True, internalUse := True\<rparr>"
  have s1: "arena s1" "list_open s1" "os_page s1 = ?P" "settings s1 = settings s" "slots s1 = slots s" "unUsedSlots s1 = unUsedSlots s"
    "internalUse s1" "noAllocationListProtection s1" "page_mapped s1 = page_mapped s" "allocationListSize s1 = allocationListSize s"
    "allocationList s1 = allocationList s"
    using set_list_prot_arena [OF assms(1)] list_calls(3) [of s1]
    by (simp_all add: s1_def settings_def list_pages_def) (simp_all add: set_list_prot_def list_pages_def)
  have k1: "keeps (list_pages s) s s1" using set_list_prot_keeps [of s True] by (simp add: keeps_def s1_def settings_def)
  have e1: "EF_ALIGNMENT s1 = EF_ALIGNMENT s" "os_error s1 = os_error s" "bytesPerPage s1 = bytesPerPage s" "slotsPerPage s1 = slotsPerPage s"
    using settings_eqD [OF s1(4)] by simp_all
  have start: "allocateMoreSlots s = and_then (memalign_with Inr (to_size (EF_ALIGNMENT s)) ?n s1) (\<lambda>(a, s).
      and_then (memcpy a (allocationList s) (allocationListSize s) s) (\<lambda>s.
      and_then (memset (add64 a (allocationListSize s)) 0 (bytesPerPage s) s) (\<lambda>s'.
      let s = s'\<lparr>allocationList := a, allocationListSize := ?n, slots := slots s' @ replicate (slotsPerPage s') empty_slot,
               unUsedSlots := add64 (unUsedSlots s') (slotsPerPage s')\<rparr>
      in and_then (free_locked (allocationList s1) s) (\<lambda>s. Inr (s\<lparr>noAllocationListProtection := False, internalUse := False\<rparr>)))))"
    unfolding allocateMoreSlots_def Let_def n list_calls(1) [OF assms(1)]
    by (simp add: and_then_def s1_def [symmetric] s1(11)) (simp add: s1_def set_list_prot_def)
  have "memalign_with Inr (to_size (EF_ALIGNMENT s)) ?n s1 = Inl (mmap_failed s1) \<or> (\<exists>a s' x. memalign_with Inr (to_size (EF_ALIGNMENT s)) ?n s1 = Inr (a, s')
      \<and> allocates {} (?n + os_page s1) ?n s1 a s' x \<and> os_page s1 dvd a)"
    using s1 assms(4,5) LB(6) P A(1) by (intro memalign_internal) simp_all
  then consider "memalign_with Inr (to_size (EF_ALIGNMENT s)) ?n s1 = Inl (mmap_failed s1)"
    | (ok) a s2 x where "memalign_with Inr (to_size (EF_ALIGNMENT s)) ?n s1 = Inr (a, s2)" "allocates {} (?n + ?P) ?n s1 a s2 x" "?P dvd a"
    using s1(3) by auto
  then show ?thesis
  proof cases
    case 1
    then show ?thesis unfolding start by (simp add: and_then_def mmap_failed_def e1)
  next
    case ok
    have al: "arena s2" "keeps (slot_pages ?P x \<union> - Collect (page_mapped s)) s1 s2" "owned (slots s2) = insert x (owned (slots s))"
      "\<forall>y \<in> owned (slots s). slot_pages ?P x \<inter> slot_pages ?P y = {}" "userAddress x = a" "userSize x = ?n" "internalSize x = ?n + ?P"
      "slot_mode x = INTERNAL_USE" "buffer_ok ?P (EF_PROTECT_BELOW s \<noteq> 0) (prot s2) x" "list_vars s2 = list_vars s1" "unUsedSlots s \<le> unUsedSlots s2 + 2"
      using ok(2) s1 settings_eqD(6) [OF s1(4)] by (simp_all add: allocates_def)
    have set2: "settings s2 = settings s" using al(2) s1(4) by (simp add: keeps_def)
    note e2 = settings_eqD [OF set2] and lv = list_vars_eqD [OF al(10)]
    have x: "x \<in> held (slots s2)" using al(3,8) by (auto simp: held_def owned_def is_held_def)
    have held2: "held (slots s2) = insert x (held (slots s))" "dead ?P (slots s2) = dead ?P (slots s)"
      using owned_held [OF al(3)] al(8) by simp_all
    note live = buffer_live [OF al(9,7,6), unfolded al(5)]
    have rx: "range_ok ?P (Collect (page_mapped s2)) x" using held_slot [OF al(1) x] e2(1) by metis
    from list_slot [OF assms(1)] obtain i0 where i0: "i0 < length (slots s)" "slot_mode (slots s ! i0) = INTERNAL_USE"
      "userAddress (slots s ! i0) = allocationList s" "list_pages s \<subseteq> slot_pages ?P (slots s ! i0)" by blast
    define old where "old = slots s ! i0"
    have old: "old \<in> held (slots s)" "slot_mode old = INTERNAL_USE" "userAddress old = allocationList s" "list_pages s \<subseteq> slot_pages ?P old"
      using i0 by (auto simp: old_def held_iff is_held_def)
    have oldo: "old \<in> owned (slots s)" using old(1,2) by (auto simp: held_def owned_def in_use_def)
    have oldm: "slot_pages ?P old \<subseteq> Collect (page_mapped s)" using held_slot [OF assms(1) old(1)] by (metis range_ok_def)
    have acc1: "accessible s2 a ?n" using live(1) ok(3) LB(6) A(1) e2(1) by (simp add: accessible_pages)
    have acc: "accessible s2 b m" if "a \<le> b" "b + m \<le> a + ?n" for b m
      using live(1) ok(3) LB(6) A(1) e2(1) that by (intro accessible_sub [of s2 a ?n]) simp_all
    have olist: "accessible s2 (allocationList s) (allocationListSize s)"
    proof -
      have "prot s2 p = prot s1 p" if "p \<in> list_pages s" for p
        using al(2,4) oldo oldm old(4) that unfolding keeps_def by blast
      moreover have "prot s1 p" if "p \<in> list_pages s" for p using list_calls(3) [OF s1(1)] s1(2,3,10,11) that by (simp add: list_pages_def)
      ultimately show ?thesis using A(1) LB(5,6) e2(1) by (simp add: accessible_pages list_pages_def)
    qed
    define c where "c = (\<lambda>z. if a \<le> z \<and> z < a + allocationListSize s then cells s2 (allocationList s + (z - a)) else cells s2 z)"
    define c' where "c' = (\<lambda>z. if a + allocationListSize s \<le> z \<and> z < a + allocationListSize s + ?P then 0 else c z)"
    have small: "a + ?n < 2 ^ 64" using live(2,3) rx by (simp add: range_ok_def)
    have cp: "memcpy a (allocationList s2) (allocationListSize s2) s2 = Inr (s2\<lparr>cells := c\<rparr>)"
      using memcpy_ok [OF acc olist] lv s1(10,11) by (simp add: c_def)
    have ms: "memset (add64 a (allocationListSize s2)) 0 (bytesPerPage s2) (s2\<lparr>cells := c\<rparr>) = Inr (s2\<lparr>cells := c'\<rparr>)"
      using memset_ok [of "s2\<lparr>cells := c\<rparr>" "a + allocationListSize s" ?P 0] accessible_prot [of "s2\<lparr>cells := c\<rparr>" s2] acc [of "a + allocationListSize s" ?P]
        lv s1(10) small e2(9) A(3) by (simp add: c'_def cong: if_cong)
    have cc: "c' z = cells s2 z" if "z div ?P \<notin> slot_pages ?P x" for z
    proof -
      have "\<not> (a \<le> z \<and> z < a + ?n)"
        using that in_pages [OF A(1), of "internalAddress x" "internalSize x" z] rx live(2,3) by (auto simp: slot_pages_def range_ok_def)
      then show ?thesis by (auto simp: c'_def c_def)
    qed
    define s4 where "s4 = extended a c' s2"
    have ext: "arena s4" "held (slots s4) = insert x (held (slots s))" "dead ?P (slots s4) = dead ?P (slots s)"
      using extended_arena [OF al(1) x al(8,5), of c'] ok(3) live(2,3) held2 lv(2) s1(10) e2(1) by (simp_all add: s4_def)
    have s4: "s4 = s2\<lparr>cells := c', allocationList := a, allocationListSize := ?n, slots := slots s2 @ replicate (slotsPerPage s2) empty_slot,
        unUsedSlots := add64 (unUsedSlots s2) (slotsPerPage s2)\<rparr>"
    proof -
      have "unUsedSlots s2 + slotsPerPage s2 < 2 ^ 64" using list_bounds(3) [OF al(1)] e2(10) P(2,3) by simp
      then show ?thesis using lv(2) s1(10) e2(1) by (simp add: s4_def extended_def)
    qed
    have f4: "internalUse s4" "noAllocationListProtection s4" "allocationList s4 = a" "allocationListSize s4 = ?n" "settings s4 = settings s"
      "os_page s4 = ?P" "unUsedSlots s4 = unUsedSlots s2 + ?P div 40" "prot s4 = prot s2" "cells s4 = c'"
      using lv s1(7,8,10) set2 e2 P(3) by (simp_all add: s4_def extended_def settings_def)
    have open4: "list_open s4" using acc1 accessible_prot [of s4 s2] f4 e2(1) by (simp add: list_open_def)
    have ne: "allocationList s \<noteq> a"
    proof
      assume "allocationList s = a"
      moreover have "a div ?P \<in> slot_pages ?P x"
        using in_pages [OF A(1), of "internalAddress x" "internalSize x" a] rx live(2,3) A(1) by (simp add: slot_pages_def range_ok_def)
      moreover have "allocationList s div ?P \<in> list_pages s" using A(7) A(1) by (simp add: list_pages_def list_ok_def pages_nonempty)
      ultimately show False using al(4) oldo old(4) by auto
    qed
    have nz: "allocationList s \<noteq> 0" using A(7) by (simp add: list_ok_def)
    have old4: "old \<in> held (slots s4)" "userAddress old \<noteq> allocationList s4" "userAddress old \<noteq> 0"
      using ext(2) old f4(3) ne nz by simp_all
    from free_old_list [OF ext(1) open4 f4(1,2) old4(1) old(2) old4(2,3)] obtain t0 where
      t0: "free_locked (allocationList s) s4 = Inr t0" "arena t0" "keeps (slot_pages ?P old) s4 t0"
        "held (slots t0) = insert x (held (slots s)) - {old}" "dead ?P (slots s) \<subseteq> dead ?P (slots t0)" "list_vars t0 = list_vars s4"
        "unUsedSlots s4 \<le> unUsedSlots t0" using old(3) ext(2,3) f4(6) by metis
    define t where "t = t0\<lparr>noAllocationListProtection := False, internalUse := False\<rparr>"
    have run: "allocateMoreSlots s = Inr t"
      unfolding start ok(1) using cp ms t0(1) s1(11) by (simp add: and_then_def Let_def s4 [symmetric] t_def)
    have st: "settings t = settings s" using t0(3) f4(5) by (simp add: keeps_def t_def settings_def)
    have lt: "allocationList t = a" "allocationListSize t = ?n" using list_vars_eqD(1,2) [OF t0(6)] f4(3,4) by (simp_all add: t_def)
    have ht: "held (slots t) = insert x (held (slots s)) - {old}" using t0(4) by (simp add: t_def)
    have bufs: "bufs (slots t) = bufs (slots s)"
    proof (rule set_eqI)
      fix y show "y \<in> bufs (slots t) \<longleftrightarrow> y \<in> bufs (slots s)"
        by (cases "y = x"; cases "y = old") (simp_all add: bufs_held ht al(8) old(2))
    qed
    have "list_open t"
    proof -
      have "prot t p" if "p \<in> pages ?P a ?n" for p
      proof -
        have "p \<in> slot_pages ?P x" using that live(2,3) by (auto simp: slot_pages_def pages_def intro: le_trans less_le_trans div_le_mono)
        then have "p \<notin> slot_pages ?P old" using al(4) oldo by auto
        then show ?thesis using t0(3) f4(8) live(1) that by (simp add: keeps_def t_def)
      qed
      then show ?thesis using A(1) ok(3) LB(6) lt settings_eqD(1) [OF st] by (simp add: list_open_def accessible_pages)
    qed
    moreover have "intact s t y" if "y \<in> bufs (slots s)" for y
    proof -
      have yo: "y \<in> owned (slots s)" "y \<in> held (slots s)" "y \<noteq> old" "y \<noteq> x"
        using that old(2) al(8) by (auto simp: bufs_def owned_def in_use_def held_def is_held_def)
      have ym: "slot_pages ?P y \<subseteq> Collect (page_mapped s)" using buf_ok(2) [OF assms(1) that] by (simp add: range_ok_def)
      have d: "slot_pages ?P y \<inter> slot_pages ?P x = {}" "slot_pages ?P y \<inter> slot_pages ?P old = {}" "slot_pages ?P y \<inter> list_pages s = {}"
        using al(4) yo held_apart [OF assms(1) yo(2) old(1) yo(3)] old(4) by auto
      show ?thesis unfolding intact_def
      proof (intro ballI conjI allI impI)
        fix p assume p: "p \<in> slot_pages ?P y"
        have np: "p \<notin> slot_pages ?P x" "p \<notin> slot_pages ?P old" "p \<notin> list_pages s" "p \<notin> - Collect (page_mapped s)" using p d ym by auto
        have "prot t p = prot s4 p" using t0(3) np f4(6) by (simp add: keeps_def t_def)
        also have "\<dots> = prot s1 p" using f4(8) al(2) np s1(3) by (simp add: keeps_def)
        also have "\<dots> = prot s p" using k1 np by (simp add: keeps_def)
        finally show "prot t p = prot s p" .
        fix z assume z: "z div ?P = p"
        have "cells t z = cells s4 z" using t0(3) np f4(6) z by (simp add: keeps_def t_def)
        also have "\<dots> = cells s2 z" using f4(9) cc z np by simp
        also have "\<dots> = cells s1 z" using al(2) np s1(3) z by (simp add: keeps_def)
        also have "\<dots> = cells s z" using k1 np z by (simp add: keeps_def)
        finally show "cells t z = cells s z" .
      qed
    qed
    moreover have "7 \<le> unUsedSlots t" using t0(7) f4(7) P(1) by (simp add: t_def)
    ultimately have "grows s t" using t0(2,5) st lt bufs by (simp add: grows_def) (simp add: t_def)
    with run show ?thesis by blast
  qed
qed

end
