(* ===== verification/Ef_Ops.thy ===== *)
theory Ef_Ops
  imports Ef_Grow
begin

text \<open>\<open>memalign_locked\<close> and \<open>free_locked\<close> as seen by the user: one buffer more or less, and the others untouched.\<close>

definition quiet :: "fence \<Rightarrow> bool" where
  "quiet s \<longleftrightarrow> arena s \<and> \<not> noAllocationListProtection s \<and> \<not> internalUse s \<and> 5 \<le> unUsedSlots s"

definition gains :: "fence \<Rightarrow> nat \<Rightarrow> nat \<Rightarrow> fence \<Rightarrow> Slot \<Rightarrow> bool" where
  "gains s a m s' x \<longleftrightarrow> quiet s' \<and> settings s' = settings s \<and> allocationListSize s' \<le> allocationListSize s + os_page s
     \<and> bufs (slots s') = insert x (bufs (slots s)) \<and> x \<notin> bufs (slots s) \<and> userAddress x = a \<and> userSize x = m
     \<and> (\<forall>y \<in> bufs (slots s). intact s s' y) \<and> dead (os_page s) (slots s) \<subseteq> dead (os_page s) (slots s')
     \<and> (\<forall>p \<in> list_pages s'. \<not> prot s' p)"

definition loses :: "fence \<Rightarrow> Slot \<Rightarrow> fence \<Rightarrow> bool" where
  "loses s x s' \<longleftrightarrow> arena s' \<and> 5 \<le> unUsedSlots s' \<and> settings s' = settings s \<and> list_vars s' = list_vars s
     \<and> bufs (slots s') = bufs (slots s) - {x} \<and> (\<forall>y \<in> bufs (slots s). y \<noteq> x \<longrightarrow> intact s s' y)
     \<and> (\<forall>p \<in> slot_pages (os_page s) x. \<not> prot s' p)
     \<and> dead (os_page s) (slots s') = dead (os_page s) (slots s) \<union> (if EF_PROTECT_FREE s \<noteq> 0 then slot_pages (os_page s) x else {})
     \<and> (\<forall>p \<in> list_pages s. prot s' p = noAllocationListProtection s)"

lemma intact_trans: "os_page t = os_page s \<Longrightarrow> intact s t y \<Longrightarrow> intact t u y \<Longrightarrow> intact s u y"
  by (simp add: intact_def)

lemma list_apart:
  assumes "arena s" "y \<in> bufs (slots s)"
  shows "slot_pages (os_page s) y \<inter> list_pages s = {}"
proof -
  from list_slot [OF assms(1)] obtain i where i: "i < length (slots s)" "slot_mode (slots s ! i) = INTERNAL_USE"
    "list_pages s \<subseteq> slot_pages (os_page s) (slots s ! i)" by blast
  have "slots s ! i \<in> held (slots s)" "y \<noteq> slots s ! i" using i assms(2) by (auto simp: held_iff is_held_def bufs_def)
  from held_apart [OF assms(1) buf_ok(3) [OF assms] this] i(3) show ?thesis by blast
qed

lemma padded_bounds:
  assumes "al \<le> 2 ^ 20" "n \<le> 2 ^ 29"
  shows "n \<le> padded_size s al n" "padded_size s al n \<le> n + al"
proof -
  have small: "n + al < 2 ^ 64" using assms by simp
  have le: "n mod al \<le> al" if "1 < al" using that by (simp add: less_imp_le)
  show "n \<le> padded_size s al n" "padded_size s al n \<le> n + al"
    using le small by (cases "EF_PROTECT_BELOW s = 0 \<and> 1 < al"; simp add: padded_size_def Let_def; linarith)+
qed

lemma memalign_buffer:
  assumes "quiet s" "list_open s" "7 \<le> unUsedSlots s" "os_page s + m \<le> need" "os_page s dvd need" "need \<le> 2 ^ 30 + 2 ^ 21"
    "EF_PROTECT_BELOW s \<noteq> 0 \<Longrightarrow> 0 < m"
  shows "memalign_slots need m s = Inl (mmap_failed s) \<or> (\<exists>a s' x. memalign_slots need m s = Inr (a, s') \<and> gains s a m s' x \<and> internalSize x = need
    \<and> allocationListSize s' = allocationListSize s)"
proof -
  have q: "arena s" "\<not> noAllocationListProtection s" "\<not> internalUse s" using assms(1) by (simp_all add: quiet_def)
  from memalign_slots_result [OF q(1) assms(2) _ assms(5,4,6,7)] assms(3) q(3)
  consider "memalign_slots need m s = Inl (mmap_failed s)"
    | (ok) a s' x where "memalign_slots need m s = Inr (a, s')" "allocates (list_pages s) need m s a s' x" "\<forall>p \<in> list_pages s. \<not> prot s' p"
    by auto
  then show ?thesis
  proof cases
    case ok
    then have al: "arena s'" "keeps (slot_pages (os_page s) x \<union> list_pages s \<union> - Collect (page_mapped s)) s s'"
      "owned (slots s') = insert x (owned (slots s))" "\<forall>y \<in> owned (slots s). slot_pages (os_page s) x \<inter> slot_pages (os_page s) y = {}"
      "userAddress x = a" "userSize x = m" "internalSize x = need" "slot_mode x = ALLOCATED" "list_vars s' = list_vars s"
      "unUsedSlots s \<le> unUsedSlots s' + 2" using q(3) by (simp_all add: allocates_def)
    note lv = list_vars_eqD [OF al(9)]
    have st: "settings s' = settings s" using al(2) by (simp add: keeps_def)
    note hd = owned_held [OF al(3) disjI1 [OF al(8)]]
    have b: "bufs (slots s') = insert x (bufs (slots s))" using hd(1) al(8) by (auto simp: bufs_held)
    have i: "intact s s' y" if y: "y \<in> bufs (slots s)" for y
    proof -
      have "y \<in> owned (slots s)" using y by (auto simp: bufs_def owned_def in_use_def)
      moreover have "slot_pages (os_page s) y \<subseteq> Collect (page_mapped s)" using buf_ok(2) [OF q(1) y] by (simp add: range_ok_def)
      ultimately show ?thesis using al(4) list_apart [OF q(1) y] by (intro keeps_intact [OF al(2)]) blast
    qed
    have xs': "x \<in> bufs (slots s')" using b by simp
    have nx: "x \<notin> bufs (slots s)"
    proof
      assume "x \<in> bufs (slots s)"
      then have "x \<in> owned (slots s)" by (auto simp: bufs_def owned_def in_use_def)
      then have "slot_pages (os_page s) x = {}" using al(4) by auto
      moreover have "internalAddress x div os_page s \<in> slot_pages (os_page s) x"
        using buf_ok(2) [OF al(1) xs'] arenaD(1) [OF q(1)] settings_eqD(1) [OF st] by (simp add: slot_pages_def range_ok_def pages_nonempty)
      ultimately show False by simp
    qed
    have lp: "list_pages s' = list_pages s" using lv settings_eqD(1) [OF st] by (simp add: list_pages_def)
    have "gains s a m s' x" unfolding gains_def quiet_def
      using al(1,5,6,10) st lv q b nx i hd(2) ok(3) lp assms(3) by simp
    with ok(1) al(7) lv(2) show ?thesis by blast
  qed simp
qed

lemma gains_from:
  assumes "gains t a m s' x" "settings t = settings s" "bufs (slots t) = bufs (slots s)" "\<forall>y \<in> bufs (slots s). intact s t y"
    "dead (os_page s) (slots s) \<subseteq> dead (os_page s) (slots t)" "allocationListSize s' \<le> allocationListSize s + os_page s"
  shows "gains s a m s' x"
proof -
  have p: "os_page t = os_page s" using settings_eqD(1) [OF assms(2)] .
  have "intact s s' y" if "y \<in> bufs (slots s)" for y
    using intact_trans [OF p] assms(1,3,4) that by (simp add: gains_def)
  moreover have "dead (os_page s) (slots s) \<subseteq> dead (os_page s) (slots s')" using assms(1,5) p by (auto simp: gains_def)
  ultimately show ?thesis using assms(1-3,6) by (simp add: gains_def)
qed

lemma memalign_locked_result:
  assumes "quiet s" "allocationListSize s \<le> 2 ^ 29" "n \<le> 2 ^ 29" "al \<le> 2 ^ 20" "n \<noteq> 0 \<or> EF_ALLOW_MALLOC_0 s \<noteq> 0"
  shows "memalign_locked al n s = Inl (mmap_failed s) \<or> (\<exists>a s' x. memalign_locked al n s = Inr (a, s') \<and> gains s a (padded_size s al n) s' x)"
proof -
  define m where "m = padded_size s al n"
  have q: "arena s" "\<not> noAllocationListProtection s" "\<not> internalUse s" "5 \<le> unUsedSlots s" using assms(1) by (simp_all add: quiet_def)
  note A = arenaD [OF q(1)]
  have P: "os_page s < 2 ^ 20" "EF_PROTECT_BELOW s = 0 \<or> EF_ALLOW_MALLOC_0 s = 0" using A(4) by (simp_all add: system_ok_def)
  note pb = padded_bounds [OF assms(4,3), of s, folded m_def]
  define need where "need = round_pages (os_page s) (m + os_page s)"
  have "m + os_page s + os_page s < 2 ^ 64" using pb assms(3,4) P(1) by simp
  note rp = round_pages_result [OF A(1) this, folded need_def]
  have need: "os_page s dvd need" "os_page s + m \<le> need" "need \<le> 2 ^ 30 + 2 ^ 21" using rp pb assms(3,4) P(1) by simp_all
  define s0 where "s0 = set_list_prot True s"
  have s0: "quiet s0" "arena s0" "list_open s0" "settings s0 = settings s" "list_vars s0 = list_vars s" "bufs (slots s0) = bufs (slots s)"
    "dead P (slots s0) = dead P (slots s)" "unUsedSlots s0 = unUsedSlots s" for P
    using q set_list_prot_arena [OF q(1)] list_calls(3) [OF set_list_prot_arena [OF q(1)], of True]
    by (simp_all add: s0_def quiet_def) (simp add: set_list_prot_def list_pages_def)
  have i0: "intact s s0 y" if "y \<in> bufs (slots s)" for y
    using list_apart [OF q(1) that] by (intro keeps_intact [OF set_list_prot_keeps [of s True, folded s0_def]])
  note e0 = settings_eqD [OF s0(4)] and l0 = list_vars_eqD [OF s0(5)]
  have start: "memalign_locked al n s = and_then (if unUsedSlots s0 < 7 then allocateMoreSlots s0 else Inr s0) (memalign_slots need m)"
  proof -
    have "add64 m (bytesPerPage s) = m + os_page s" using A(3) pb assms(3,4) P(1) by simp
    then have "round_pages (bytesPerPage s) (add64 m (bytesPerPage s)) = need" using A(3) by (simp add: need_def)
    then show ?thesis
      using assms(5) q(2,3) l0 list_calls(1) [OF q(1)]
      by (auto simp: memalign_locked_def memalign_with_def and_then_def Let_def m_def [symmetric] s0_def [symmetric])
  qed
  have bel: "EF_PROTECT_BELOW s \<noteq> 0 \<Longrightarrow> 0 < m" using P(2) assms(5) pb(1) by auto
  show ?thesis
  proof (cases "unUsedSlots s0 < 7")
    case False
    have "memalign_slots need m s0 = Inl (mmap_failed s0) \<or>
        (\<exists>a s' x. memalign_slots need m s0 = Inr (a, s') \<and> gains s0 a m s' x \<and> internalSize x = need \<and> allocationListSize s' = allocationListSize s0)"
      using need bel e0 False by (intro memalign_buffer [OF s0(1,3)]) simp_all
    then show ?thesis
    proof
      assume "memalign_slots need m s0 = Inl (mmap_failed s0)"
      then show ?thesis using start False e0(3) by (simp add: and_then_def mmap_failed_def)
    next
      assume "\<exists>a s' x. memalign_slots need m s0 = Inr (a, s') \<and> gains s0 a m s' x \<and> internalSize x = need \<and> allocationListSize s' = allocationListSize s0"
      then obtain a s' x where g: "memalign_slots need m s0 = Inr (a, s')" "gains s0 a m s' x" "allocationListSize s' = allocationListSize s0" by blast
      have "gains s a m s' x" using gains_from [OF g(2) s0(4,6)] i0 s0(7) g(3) l0(2) by simp
      moreover have "memalign_locked al n s = Inr (a, s')" using start False g(1) by (simp add: and_then_def)
      ultimately show ?thesis unfolding m_def by blast
    qed
  next
    case True
    have "allocateMoreSlots s0 = Inl (mmap_failed s0) \<or> (\<exists>t. allocateMoreSlots s0 = Inr t \<and> grows s0 t)"
      using q s0 l0 assms(2) by (intro grow_result) simp_all
    then consider "allocateMoreSlots s0 = Inl (mmap_failed s0)" | (ok) t where "allocateMoreSlots s0 = Inr t" "grows s0 t" by blast
    then show ?thesis
    proof cases
      case 1
      then show ?thesis using start True e0(3) by (simp add: and_then_def mmap_failed_def)
    next
      case ok
      then have t: "quiet t" "list_open t" "7 \<le> unUsedSlots t" "settings t = settings s" "allocationListSize t = allocationListSize s + os_page s"
        "bufs (slots t) = bufs (slots s)" "dead (os_page s) (slots s) \<subseteq> dead (os_page s) (slots t)" "\<forall>y \<in> bufs (slots s). intact s0 t y"
        using s0 l0 e0(1) by (simp_all add: grows_def quiet_def)
      note et = settings_eqD [OF t(4)]
      have it: "\<forall>y \<in> bufs (slots s). intact s t y" using t(8) i0 intact_trans [OF e0(1)] by blast
      have "memalign_slots need m t = Inl (mmap_failed t) \<or>
          (\<exists>a s' x. memalign_slots need m t = Inr (a, s') \<and> gains t a m s' x \<and> internalSize x = need \<and> allocationListSize s' = allocationListSize t)"
        using need bel et by (intro memalign_buffer [OF t(1-3)]) simp_all
      then show ?thesis
      proof
        assume "memalign_slots need m t = Inl (mmap_failed t)"
        then show ?thesis using start True ok(1) et(3) by (simp add: and_then_def mmap_failed_def)
      next
        assume "\<exists>a s' x. memalign_slots need m t = Inr (a, s') \<and> gains t a m s' x \<and> internalSize x = need \<and> allocationListSize s' = allocationListSize t"
        then obtain a s' x where g: "memalign_slots need m t = Inr (a, s')" "gains t a m s' x" "allocationListSize s' = allocationListSize t" by blast
        have "gains s a m s' x" using gains_from [OF g(2) t(4,6) it t(7)] g(3) t(5) by simp
        moreover have "memalign_locked al n s = Inr (a, s')" using start True ok(1) g(1) by (simp add: and_then_def)
        ultimately show ?thesis unfolding m_def by blast
      qed
    qed
  qed
qed

text \<open>Freeing a buffer, with the list of slots protected again or left open.\<close>

lemma free_locked_result:
  assumes "arena s" "\<not> internalUse s" "5 \<le> unUsedSlots s" "x \<in> bufs (slots s)" "noAllocationListProtection s \<Longrightarrow> list_open s"
  shows "\<exists>t. free_locked (userAddress x) s = Inr t \<and> loses s x t"
proof -
  define s0 where "s0 = (if noAllocationListProtection s then s else set_list_prot True s)"
  have s0: "arena s0" "list_open s0" "settings s0 = settings s" "list_vars s0 = list_vars s" "slots s0 = slots s" "unUsedSlots s0 = unUsedSlots s"
    using assms set_list_prot_arena [OF assms(1)] list_calls(3) [OF set_list_prot_arena [OF assms(1)], of True]
    by (auto simp: s0_def) (simp add: set_list_prot_def list_pages_def)
  note e0 = settings_eqD [OF s0(3)] and l0 = list_vars_eqD [OF s0(4)]
  have k0: "keeps (list_pages s) s s0" using set_list_prot_keeps by (simp add: s0_def)
  have lp0: "list_pages s0 = list_pages s" using l0 e0 by (simp add: list_pages_def)
  have open0: "prot s0 p" if "p \<in> list_pages s" for p using list_calls(3) [OF s0(1)] s0(2) that lp0 by simp
  from buf_ok(3) [OF assms(1,4)] obtain i where i: "i < length (slots s)" "slots s ! i = x" by (auto simp: held_iff)
  have xa: "slot_mode x = ALLOCATED" "is_held x" using assms(4) by (simp_all add: bufs_def is_held_def)
  have look: "slotForUserAddress (userAddress x) s0 = Some i"
    using slot_lookup [OF s0(1), of i] i buf_address [OF assms(1,4)] s0(5) by simp
  have nz: "userAddress x \<noteq> 0" using buf_address [OF assms(1,4)] .
  from free_slot_result [OF s0(1), of i] i xa s0(5) obtain u where u: "free_slot i s0 = Inr u" "arena u" "keeps (slot_pages (os_page s0) x) s0 u"
    "held (slots u) = held (slots s) - {x}" "dead (os_page s0) (slots u) = dead (os_page s0) (slots s) \<union> (if EF_PROTECT_FREE s0 \<noteq> 0 then slot_pages (os_page s0) x else {})"
    "\<forall>p \<in> slot_pages (os_page s0) x. \<not> prot u p" "list_vars u = list_vars s0" "unUsedSlots s0 \<le> unUsedSlots u" by auto
  have su: "settings u = settings s" using u(3) s0(3) by (simp add: keeps_def)
  note eu = settings_eqD [OF su] and lu = list_vars_eqD [OF u(7)]
  have lpu: "list_pages u = list_pages s" using lu l0 eu by (simp add: list_pages_def)
  define t where "t = (if noAllocationListProtection s then u else set_list_prot False u)"
  have run: "free_locked (userAddress x) s = Inr t"
    using nz list_calls(1) [OF assms(1)] s0(2) look u(1) i xa(1) s0(5) l0 lu list_calls(2) [OF u(2)]
    by (auto simp: free_locked_def and_then_def with_list_def s0_def [symmetric] t_def split: if_splits) (simp_all add: s0_def and_then_def)
  have at: "arena t" using u(2) set_list_prot_arena by (simp add: t_def)
  have tf: "settings t = settings s" "list_vars t = list_vars s" "slots t = slots u" "unUsedSlots t = unUsedSlots u" "cells t = cells u"
    using su u(7) s0(4) by (simp_all add: t_def)
  have la: "slot_pages (os_page s) y \<inter> list_pages s = {}" if "y \<in> bufs (slots s)" for y by (rule list_apart [OF assms(1) that])
  have kt: "keeps (list_pages s) u t" using set_list_prot_keeps [of u False] lpu by (simp add: t_def)
  have inty: "intact s t y" if "y \<in> bufs (slots s)" "y \<noteq> x" for y
  proof -
    have d: "slot_pages (os_page s) y \<inter> slot_pages (os_page s) x = {}"
      using held_apart [OF assms(1) buf_ok(3) [OF assms(1) that(1)] buf_ok(3) [OF assms(1,4)] that(2)] .
    have "keeps (list_pages s \<union> slot_pages (os_page s) x) s u" using keeps_trans [OF k0 u(3)] e0(1) by simp
    from keeps_trans [OF this kt] have kst: "keeps (list_pages s \<union> slot_pages (os_page s) x) s t" by simp
    show ?thesis using d la [OF that(1)] by (intro keeps_intact [OF kst]) auto
  qed
  have prot_t: "prot t p = (if noAllocationListProtection s then prot u p else if p \<in> list_pages s then False else prot u p)" for p
    using lpu by (simp add: t_def) (simp add: set_list_prot_def)
  have px: "\<forall>p \<in> slot_pages (os_page s) x. \<not> prot t p" using u(6) e0(1) prot_t by simp
  have lpt: "prot t p = noAllocationListProtection s" if "p \<in> list_pages s" for p
  proof -
    have "p \<notin> slot_pages (os_page s) x" using la [OF assms(4)] that by auto
    then have "prot u p" using u(3) open0 [OF that] e0(1) by (simp add: keeps_def)
    then show ?thesis using prot_t that by simp
  qed
  have bt: "bufs (slots t) = bufs (slots s) - {x}" using tf(3) u(4) by (auto simp: bufs_held)
  have "loses s x t" unfolding loses_def
    using at tf u(5,8) s0(6) assms(3) bt inty px lpt e0(1,5) by simp
  with run show ?thesis by blast
qed

end
