(* ===== verification/Ef_Start.thy ===== *)
theory Ef_Start
  imports Ef_Ops
begin

text \<open>The initialization establishes the invariant.\<close>

definition ready :: "fence \<Rightarrow> bool" where
  "ready s \<longleftrightarrow> quiet s \<and> (semEnabled s \<longrightarrow> EF_sem s = 1)"

text \<open>What the system and the environment must be like; \<open>env_value\<close> reads a variable with its default.\<close>

definition env_value :: "(string \<Rightarrow> int option) \<Rightarrow> string \<Rightarrow> int \<Rightarrow> int" where
  "env_value env name dflt = (case env name of Some v \<Rightarrow> v | None \<Rightarrow> dflt)"

definition configured :: "(nat \<Rightarrow> nat \<Rightarrow> nat \<Rightarrow> (nat \<times> nat) list \<Rightarrow> nat option) \<Rightarrow> (string \<Rightarrow> int option) \<Rightarrow> nat \<Rightarrow> bool" where
  "configured mm env P \<longleftrightarrow> 360 \<le> P \<and> P < 2 ^ 20 \<and> mmap_ok P mm
     \<and> (env_value env ''EF_PROTECT_BELOW'' 0 = 0 \<or> env_value env ''EF_ALLOW_MALLOC_0'' 0 = 0)
     \<and> (to_size (env_value env ''EF_ALIGNMENT'' 4) \<le> 1 \<or> to_size (env_value env ''EF_ALIGNMENT'' 4) dvd P)"

definition first_slots :: "nat \<Rightarrow> nat \<Rightarrow> nat \<Rightarrow> Slot list" where
  "first_slots P a sz = (replicate (P div 40) empty_slot)
     [0 := \<lparr>userAddress = a, internalAddress = a, userSize = P, internalSize = P, slot_mode = INTERNAL_USE\<rparr>,
      1 := \<lparr>userAddress = a + P, internalAddress = a + P, userSize = sz - P, internalSize = sz - P, slot_mode = FREE\<rparr>]"

lemma first_slots_facts:
  assumes "360 \<le> P"
  shows "length (first_slots P a sz) = P div 40" "free_count (first_slots P a sz) = P div 40 - 2" "9 \<le> P div 40"
    "first_slots P a sz ! 0 = \<lparr>userAddress = a, internalAddress = a, userSize = P, internalSize = P, slot_mode = INTERNAL_USE\<rparr>"
    "first_slots P a sz ! 1 = \<lparr>userAddress = a + P, internalAddress = a + P, userSize = sz - P, internalSize = sz - P, slot_mode = FREE\<rparr>"
proof -
  show n: "9 \<le> P div 40" using assms by simp
  then show "length (first_slots P a sz) = P div 40"
    "first_slots P a sz ! 0 = \<lparr>userAddress = a, internalAddress = a, userSize = P, internalSize = P, slot_mode = INTERNAL_USE\<rparr>"
    "first_slots P a sz ! 1 = \<lparr>userAddress = a + P, internalAddress = a + P, userSize = sz - P, internalSize = sz - P, slot_mode = FREE\<rparr>"
    by (simp_all add: first_slots_def)
  have r: "free_count (replicate k empty_slot) = k" for k by (simp add: free_count_def)
  define x y where "x = \<lparr>userAddress = a, internalAddress = a, userSize = P, internalSize = P, slot_mode = INTERNAL_USE\<rparr>"
    and "y = \<lparr>userAddress = a + P, internalAddress = a + P, userSize = sz - P, internalSize = sz - P, slot_mode = FREE\<rparr>"
  have "free_count ((replicate (P div 40) empty_slot)[0 := x]) + 1 = P div 40"
    using n free_count_update [of 0 "replicate (P div 40) empty_slot" x] by (simp add: r x_def)
  moreover have "free_count ((replicate (P div 40) empty_slot)[0 := x, 1 := y]) + 1 = free_count ((replicate (P div 40) empty_slot)[0 := x])"
    using n free_count_update [of 1 "(replicate (P div 40) empty_slot)[0 := x]" y] by (simp add: y_def)
  ultimately have "free_count ((replicate (P div 40) empty_slot)[0 := x, 1 := y]) = P div 40 - 2" by linarith
  then show "free_count (first_slots P a sz) = P div 40 - 2" by (simp add: first_slots_def x_def y_def)
qed

lemma first_slots_ok:
  assumes "360 \<le> P" "P dvd a" "P dvd sz" "P < sz" "0 < a" "a + sz < 2 ^ 64" "pages P a sz \<subseteq> m"
  shows "slots_ok P b m pr (first_slots P a sz)"
proof -
  define x y where "x = \<lparr>userAddress = a, internalAddress = a, userSize = P, internalSize = P, slot_mode = INTERNAL_USE\<rparr>"
    and "y = \<lparr>userAddress = a + P, internalAddress = a + P, userSize = sz - P, internalSize = sz - P, slot_mode = FREE\<rparr>"
  note d = x_def y_def
  have sp: "slot_pages P x = pages P a P" "slot_pages P y = pages P (a + P) (sz - P)" by (simp_all add: d slot_pages_def)
  have tp: "P dvd sz - P" using assms(3) by (simp add: dvd_diff_nat)
  have "pages P a sz = pages P a P \<union> pages P (a + P) (sz - P)" using pages_split [OF assms(2) _ tp, of P] assms(4) by simp
  then have sub: "slot_pages P x \<subseteq> m" "slot_pages P y \<subseteq> m" using assms(7) sp by auto
  have dis: "slot_pages P x \<inter> slot_pages P y = {}" using pages_disjoint [OF assms(2), of P] by (simp add: sp)
  have x: "slot_ok P b m pr x" and y: "slot_ok P b m pr y"
    using assms tp sub by (auto simp: slot_ok_def range_ok_def) (auto simp: d)
  have n: "1 < P div 40" using assms(1) by simp
  have "slots_ok P b m pr (replicate (P div 40) empty_slot)" by (simp add: slots_ok_def slot_ok_def)
  from slots_ok_update [OF this _ x, of 0] n have "slots_ok P b m pr ((replicate (P div 40) empty_slot)[0 := x])" by simp
  from slots_ok_update [OF this _ y, of 1] n dis
  have "slots_ok P b m pr ((replicate (P div 40) empty_slot)[0 := x, 1 := y])" by (simp add: nth_list_update Int_commute)
  then show ?thesis by (simp add: first_slots_def d)
qed

lemma setting_default [simp]: "setting (- 1) (env v) flag 0 = flag (env_value env v 0)" "setting (- 1) (env v) (\<lambda>v. v) 4 = env_value env v 4"
  by (simp_all add: setting_def flag_def env_value_def split: option.split)

lemma flag_zero [simp]: "flag v = 0 \<longleftrightarrow> v = 0"
  by (simp add: flag_def)

definition sized :: "fence \<Rightarrow> fence" where
  "sized s = s\<lparr>bytesPerPage := os_page s, slotsPerPage := os_page s div 40, allocationListSize := os_page s\<rparr>"

definition arranged :: "nat \<Rightarrow> nat \<Rightarrow> fence \<Rightarrow> fence" where
  "arranged a sz s =
     (let t = chunk_state a sz (sized s); P = os_page s
      in t\<lparr>allocationList := a, slots := first_slots P a sz,
        prot := (\<lambda>p. if p \<in> pages P (a + P) (sz - P) then False else prot t p), unUsedSlots := P div 40 - 2\<rparr>)"

lemma setup_arena_result:
  assumes "360 \<le> os_page s" "os_page s < 2 ^ 20" "mmap_ok (os_page s) (os_mmap s)" "mapped s = []" "os_mprotect s = willing"
  shows "setup_arena s = Inl (mmap_failed s) \<and> os_mmap s (mmaps s) (startAddr s) (round_pages (os_page s) (2 ^ 20)) [] = None
    \<or> (\<exists>a sz. setup_arena s = Inr (arranged a sz s) \<and> os_page s dvd a \<and> os_page s dvd sz
    \<and> 2 ^ 20 \<le> sz \<and> 0 < a \<and> a + sz < 2 ^ 64)"
proof -
  let ?P = "os_page s" and ?s = "sized s"
  define sz where "sz = round_pages ?P (2 ^ 20)"
  have "(2 :: nat) ^ 20 + ?P < 2 ^ 64" using assms(2) by simp
  note rp = round_pages_result [OF _ this, folded sz_def]
  have P: "0 < ?P" using assms(1) by simp
  have sz: "?P dvd sz" "?P < sz" "sz < 2 ^ 31" "2 ^ 20 \<le> sz" using rp [OF P] assms(2) by simp_all
  have "s\<lparr>bytesPerPage := Page_Size s, slotsPerPage := Page_Size s div sizeof_Slot, allocationListSize := Page_Size s\<rparr> = ?s"
    by (simp add: sized_def sizeof_Slot_def Page_Size_def)
  then have start: "setup_arena s = and_then (Page_Create sz ?s) (\<lambda>(a, s). arrange sz a s)"
    using assms(2) by (simp add: setup_arena_def Let_def sz_def MEMORY_CREATION_SIZE_def Page_Size_def)
  have "Page_Create sz ?s = Inl (mmap_failed ?s) \<or> (\<exists>a. Page_Create sz ?s = Inr (a, chunk_state a sz ?s) \<and> ?P dvd a \<and> 0 < a \<and> a + sz < 2 ^ 64)"
    using Page_Create_result [of ?s sz] assms P sz by (auto simp: sized_def)
  then show ?thesis
  proof
    assume "Page_Create sz ?s = Inl (mmap_failed ?s)"
    then have "setup_arena s = Inl (mmap_failed s)" "os_mmap s (mmaps s) (startAddr s) sz [] = None"
      using start sz(3) assms(4) by (simp_all add: and_then_def mmap_failed_def sized_def Page_Create_def split: option.splits)
    then show ?thesis by (simp add: sz_def)
  next
    assume "\<exists>a. Page_Create sz ?s = Inr (a, chunk_state a sz ?s) \<and> ?P dvd a \<and> 0 < a \<and> a + sz < 2 ^ 64"
    then obtain a where a: "Page_Create sz ?s = Inr (a, chunk_state a sz ?s)" "?P dvd a" "0 < a" "a + sz < 2 ^ 64" by blast
    define t where "t = (chunk_state a sz ?s)\<lparr>allocationList := a\<rparr>"
    have t: "os_page t = ?P" "allocationListSize t = ?P" "slotsPerPage t = ?P div 40" by (simp_all add: t_def chunk_state_def sized_def)
    have "accessible t a ?P"
      using P a(2) sz(1,2) t(1) pages_sub [of ?P sz ?P a] by (auto simp: accessible_pages) (auto simp: t_def chunk_state_def sized_def)
    moreover have "fill_cells a ?P 0 t = t"
      using sz(2) by (simp add: fill_cells_def t_def chunk_state_def sized_def fun_eq_iff)
    ultimately have ms: "memset a 0 ?P t = Inr t" by (simp add: memset_def)
    define u where "u = t\<lparr>slots := first_slots ?P a sz\<rparr>"
    have mp: "\<And>p. page_mapped u p \<longleftrightarrow> p \<in> pages ?P a sz"
    proof -
      fix p
      have "list_all (\<lambda>(b, l). os_page u dvd b \<and> os_page u dvd l) (mapped u)" "0 < os_page u"
        using a(2) sz(1) P assms(4) by (simp_all add: u_def t_def chunk_state_def sized_def)
      from page_mapped_iff [OF this(2,1)] show "page_mapped u p \<longleftrightarrow> p \<in> pages ?P a sz"
        using assms(4) by (simp add: u_def t_def chunk_state_def sized_def)
    qed
    have tw: "os_mprotect t = willing" using assms(5) by (simp add: t_def chunk_state_def sized_def)
    have d: "?P dvd sz - ?P" using sz(1) by (simp add: dvd_diff_nat)
    have sub: "pages ?P (a + ?P) (sz - ?P) \<subseteq> pages ?P a sz" using pages_split [OF a(2) _ d, of ?P] sz(2) by simp
    have deny: "Page_DenyAccess (a + ?P) (sz - ?P) u = Inr (u\<lparr>prot := (\<lambda>p. if p \<in> pages ?P (a + ?P) (sz - ?P) then False else prot u p)\<rparr>)"
      using page_calls(2) [of u "a + ?P" "sz - ?P"] P a(2) d sub mp tw by (simp add: u_def t(1) subset_iff)
    have n: "1 < ?P div 40" using assms(1) by simp
    have fs: "(replicate (?P div 40) empty_slot)
        [0 := \<lparr>userAddress = a, internalAddress = a, userSize = ?P, internalSize = ?P, slot_mode = INTERNAL_USE\<rparr>,
         1 := \<lparr>userAddress = add64 a ?P, internalAddress = add64 a ?P, userSize = sub64 sz ?P, internalSize = sub64 sz ?P, slot_mode = FREE\<rparr>]
      = first_slots ?P a sz"
      using a(4) sz(2,3) by (simp add: first_slots_def)
    have two: "sub64 (?P div 40) 2 = ?P div 40 - 2" using n assms(2) by (simp add: div_less_iff_less_mult)
    have "arrange sz a (chunk_state a sz ?s) = Inr (arranged a sz s)"
      using ms t sz(2) fs deny two first_slots_facts [OF assms(1)]
      by (simp add: arrange_def and_then_def Let_def t_def [symmetric] u_def [symmetric])
        (simp add: arranged_def u_def t_def Let_def chunk_state_def sized_def)
    then have "setup_arena s = Inr (arranged a sz s)" using start a(1) by (simp add: and_then_def)
    with a sz(1,4) show ?thesis by blast
  qed
qed

lemma arranged_quiet:
  assumes "360 \<le> os_page s" "os_page s < 2 ^ 20" "mmap_ok (os_page s) (os_mmap s)" "mapped s = []"
    "EF_PROTECT_BELOW s = 0 \<or> EF_ALLOW_MALLOC_0 s = 0" "to_size (EF_ALIGNMENT s) \<le> 1 \<or> to_size (EF_ALIGNMENT s) dvd os_page s"
    "\<not> noAllocationListProtection s" "\<not> internalUse s"
    "os_page s dvd a" "os_page s dvd sz" "os_page s < sz" "0 < a" "a + sz < 2 ^ 64" "os_mprotect s = willing"
  shows "quiet (arranged a sz s)" "bufs (slots (arranged a sz s)) = {}" "dead P (slots (arranged a sz s)) = {}"
proof -
  let ?P = "os_page s" and ?t = "arranged a sz s"
  note f = first_slots_facts [OF assms(1)]
  have t: "os_page ?t = ?P" "slots ?t = first_slots ?P a sz" "allocationList ?t = a" "allocationListSize ?t = ?P" "unUsedSlots ?t = ?P div 40 - 2"
    "mapped ?t = [(a, sz)]" "EF_PROTECT_BELOW ?t = EF_PROTECT_BELOW s"
    using assms(4) by (simp_all add: arranged_def Let_def chunk_state_def sized_def)
  have sys: "system_ok ?t" using assms by (simp add: system_ok_def arranged_def Let_def chunk_state_def sized_def)
  have P: "0 < ?P" using assms(1) by simp
  have m: "pages ?P a sz \<subseteq> Collect (page_mapped ?t)"
    using page_mapped_iff [of ?t] P assms(9,10) by (auto simp: t)
  have ok: "slots_ok ?P b (Collect (page_mapped ?t)) pr (slots ?t)" for b pr
    using first_slots_ok [OF assms(1,9-13) m] by (simp add: t)
  have n0: "0 < length (slots ?t)" using f by (simp add: t)
  have "list_ok ?t" unfolding list_ok_def t
    using f assms P by (auto intro!: exI [of _ 0])
  then show "quiet ?t" using sys ok f assms(7,8)
    by (simp add: quiet_def arena_def t) (simp add: arranged_def Let_def chunk_state_def sized_def)
  have modes: "slot_mode x \<notin> {ALLOCATED, PROTECTED}" if "x \<in> set (slots ?t)" for x
  proof -
    from that obtain i where i: "i < length (slots ?t)" "x = slots ?t ! i" by (auto simp: in_set_conv_nth)
    then show ?thesis using f by (cases "i = 0"; cases "i = 1") (auto simp: t first_slots_def)
  qed
  then show "bufs (slots ?t) = {}" by (auto simp: bufs_def)
  show "dead P (slots ?t) = {}" using modes by (auto simp: dead_iff)
qed

text \<open>The state after the initialization, up to what later operations may change.\<close>

definition initial :: "(string \<Rightarrow> int option) \<Rightarrow> fence \<Rightarrow> bool" where
  "initial env s \<longleftrightarrow> ready s \<and> allocationListSize s = os_page s \<and> 7 \<le> unUsedSlots s
     \<and> (\<exists>i < length (slots s). fits (2 ^ 20 - os_page s) (slots s ! i)) \<and> bufs (slots s) = {} \<and> dead (os_page s) (slots s) = {}
     \<and> EF_ALIGNMENT s = env_value env ''EF_ALIGNMENT'' 4 \<and> EF_PROTECT_BELOW s = flag (env_value env ''EF_PROTECT_BELOW'' 0)
     \<and> EF_PROTECT_FREE s = flag (env_value env ''EF_PROTECT_FREE'' 0) \<and> EF_ALLOW_MALLOC_0 s = flag (env_value env ''EF_ALLOW_MALLOC_0'' 0)"

lemma initialize_result:
  assumes "configured mm env P"
  shows "initialize (process mm willing env sem P) = Inl (mmap_failed (process mm willing env sem P)) \<and> mm 0 0 (round_pages P (2 ^ 20)) [] = None \<or>
    (\<exists>s. initialize (process mm willing env sem P) = Inr s \<and> os_page s = P \<and> os_error s = ''error'' \<and> initial env s)"
proof -
  define s where "s = process mm willing env sem P"
  define b where "b = (let s = print_banner s in if sem then s\<lparr>EF_sem := 1, semEnabled := True\<rparr> else s)"
  define l where "l = (if sem then b\<lparr>EF_sem := 0\<rparr> else b)"
  define r where "r = read_settings l"
  have b: "os_page b = P" "os_mmap b = mm" "os_error b = ''error''" "mapped b = []" "EF_ALIGNMENT b = - 1" "EF_PROTECT_FREE b = - 1" "EF_PROTECT_BELOW b = - 1"
    "EF_ALLOW_MALLOC_0 b = - 1" "\<not> noAllocationListProtection b" "\<not> internalUse b" "semEnabled b = sem" "EF_sem b = (if sem then 1 else 0)" "environ b = env"
    "os_mprotect b = willing"
    by (simp_all add: b_def print_banner_def Let_def s_def process_def)
  have r: "os_page r = P" "os_mmap r = mm" "os_error r = ''error''" "mapped r = []" "EF_ALIGNMENT r = env_value env ''EF_ALIGNMENT'' 4"
    "EF_PROTECT_BELOW r = flag (env_value env ''EF_PROTECT_BELOW'' 0)" "EF_PROTECT_FREE r = flag (env_value env ''EF_PROTECT_FREE'' 0)"
    "EF_ALLOW_MALLOC_0 r = flag (env_value env ''EF_ALLOW_MALLOC_0'' 0)" "\<not> noAllocationListProtection r" "\<not> internalUse r" "semEnabled r = sem" "EF_sem r = 0"
    "os_mprotect r = willing"
    by (simp_all add: r_def read_settings_def l_def b)
  have c: "360 \<le> os_page r" "os_page r < 2 ^ 20" "mmap_ok (os_page r) (os_mmap r)" "EF_PROTECT_BELOW r = 0 \<or> EF_ALLOW_MALLOC_0 r = 0"
    "to_size (EF_ALIGNMENT r) \<le> 1 \<or> to_size (EF_ALIGNMENT r) dvd os_page r"
    using assms by (simp_all add: configured_def r)
  have p: "sem_usable (print_banner s) = sem" "\<not> pthread_initialization (print_banner s)" "\<not> semEnabled (print_banner s)"
    by (simp_all add: print_banner_def Let_def s_def process_def)
  have run: "initialize s = and_then (setup_arena r) (\<lambda>s. Inr (release s))"
    using p by (simp add: initialize_def Let_def b_def lock_def and_then_def r_def l_def)
  from setup_arena_result [OF c(1-3) r(4,13)] show ?thesis
  proof
    assume "setup_arena r = Inl (mmap_failed r) \<and> os_mmap r (mmaps r) (startAddr r) (round_pages (os_page r) (2 ^ 20)) [] = None"
    moreover have "mmaps r = 0" "startAddr r = 0" by (simp_all add: r_def read_settings_def l_def b_def print_banner_def Let_def s_def process_def)
    ultimately show ?thesis using run by (simp add: and_then_def mmap_failed_def r s_def) (simp add: process_def)
  next
    assume "\<exists>a sz. setup_arena r = Inr (arranged a sz r) \<and> os_page r dvd a \<and> os_page r dvd sz \<and> 2 ^ 20 \<le> sz \<and> 0 < a \<and> a + sz < 2 ^ 64"
    then obtain a sz where a: "setup_arena r = Inr (arranged a sz r)" "os_page r dvd a" "os_page r dvd sz" "2 ^ 20 \<le> sz" "0 < a" "a + sz < 2 ^ 64" by blast
    have "os_page r < sz" using a(4) c(2) by linarith
    note q = arranged_quiet [OF c(1-3) r(4) c(4,5) r(9,10) a(2,3) this a(5,6) r(13)]
    define t where "t = release (arranged a sz r)"
    have t: "slots t = slots (arranged a sz r)" "os_page t = P" "os_error t = ''error''" "allocationListSize t = P" "EF_ALIGNMENT t = EF_ALIGNMENT r" "EF_PROTECT_BELOW t = EF_PROTECT_BELOW r"
      "EF_PROTECT_FREE t = EF_PROTECT_FREE r" "EF_ALLOW_MALLOC_0 t = EF_ALLOW_MALLOC_0 r" "semEnabled t = sem" "EF_sem t = (if sem then 1 else 0)"
      using r by (simp_all add: t_def release_def arranged_def Let_def chunk_state_def sized_def)
    have "quiet t" using q(1) by (simp add: t_def release_def quiet_def)
    moreover have "1 < length (slots t)" "fits (2 ^ 20 - P) (slots t ! 1)"
      using first_slots_facts [OF c(1)] a(4) r(1) by (simp_all add: t arranged_def Let_def fits_def)
    moreover have "7 \<le> os_page r div 40 - 2" using first_slots_facts(3) [OF c(1)] by linarith
    then have "7 \<le> unUsedSlots t" by (simp add: t_def release_def arranged_def Let_def)
    ultimately have "initial env t" using q(2,3) t r by (auto simp: initial_def ready_def)
    moreover have "initialize s = Inr t" using run a(1) by (simp add: and_then_def t_def)
    ultimately show ?thesis using t by (simp add: s_def)
  qed
qed

end
