(* ===== verification/Ef_Public.thy ===== *)
theory Ef_Public
  imports Ef_Start
begin

text \<open>The public functions on a state that satisfies the invariant: each takes the semaphore, does its work and gives the semaphore back.\<close>

definition taken :: "fence \<Rightarrow> fence" where
  "taken s = (if semEnabled s then s\<lparr>EF_sem := 0\<rparr> else s)"

lemma lock_ready: "ready s \<Longrightarrow> lock s = Inr (taken s)"
  by (simp add: ready_def lock_def taken_def)

lemma taken_fields [simp]:
  "slots (taken s) = slots s" "prot (taken s) = prot s" "cells (taken s) = cells s" "os_page (taken s) = os_page s" "os_error (taken s) = os_error s"
  "allocationListSize (taken s) = allocationListSize s" "EF_ALLOW_MALLOC_0 (taken s) = EF_ALLOW_MALLOC_0 s" "EF_PROTECT_BELOW (taken s) = EF_PROTECT_BELOW s"
  "EF_PROTECT_FREE (taken s) = EF_PROTECT_FREE s" "EF_ALIGNMENT (taken s) = EF_ALIGNMENT s" "list_pages (taken s) = list_pages s"
  "quiet (taken s) = quiet s" "padded_size (taken s) = padded_size s" "mmap_failed (taken s) = mmap_failed s" "allocationList (taken s) = allocationList s"
  "intact (taken s) = intact s" "intact t (taken s) = intact t s" "list_vars (taken s) = list_vars s" "unUsedSlots (taken s) = unUsedSlots s"
  "arena (taken s) = arena s" "noAllocationListProtection (taken s) = noAllocationListProtection s" "internalUse (taken s) = internalUse s"
  by (simp_all add: taken_def quiet_def padded_size_def mmap_failed_def intact_def fun_eq_iff list_vars_def)

lemma release_fields [simp]:
  "slots (release s) = slots s" "prot (release s) = prot s" "cells (release s) = cells s" "os_page (release s) = os_page s"
  "allocationListSize (release s) = allocationListSize s" "list_pages (release s) = list_pages s" "quiet (release s) = quiet s"
  "internalUse (release s) = internalUse s" "noAllocationListProtection (release s) = noAllocationListProtection s"
  "intact (release s) = intact s" "intact t (release s) = intact t s" "list_vars (release s) = list_vars s" "unUsedSlots (release s) = unUsedSlots s"
  "arena (release s) = arena s"
  by (simp_all add: release_def quiet_def intact_def fun_eq_iff list_vars_def)

lemma release_settings:
  assumes "ready s" "settings t = settings (taken s)"
  shows "settings (release t) = settings s"
  using assms(1) settings_eqD [OF assms(2)] by (auto simp: settings_def release_def taken_def ready_def)

lemma ready_settings: "ready s \<Longrightarrow> settings t = settings s \<Longrightarrow> quiet t \<Longrightarrow> ready t"
  using settings_eqD(11,12) [of t s] by (simp add: ready_def)

lemma ready_start: "ready s \<Longrightarrow> ensure_initialized s = Inr s"
  by (auto simp: ready_def quiet_def arena_def list_ok_def ensure_initialized_def)

lemma memalign_result:
  assumes "ready s" "allocationListSize s \<le> 2 ^ 29" "n \<le> 2 ^ 29" "al \<le> 2 ^ 20" "n \<noteq> 0 \<or> EF_ALLOW_MALLOC_0 s \<noteq> 0"
  shows "memalign al n s = Inl (mmap_failed s) \<or> (\<exists>a t x. memalign al n s = Inr (a, t) \<and> gains s a (padded_size s al n) t x \<and> ready t)"
proof -
  have q: "quiet (taken s)" using assms(1) by (simp add: ready_def)
  have "memalign_locked al n (taken s) = Inl (mmap_failed s) \<or>
      (\<exists>a s' x. memalign_locked al n (taken s) = Inr (a, s') \<and> gains (taken s) a (padded_size s al n) s' x)"
    using memalign_locked_result [OF q] assms by simp
  then show ?thesis
  proof
    assume "memalign_locked al n (taken s) = Inl (mmap_failed s)"
    then show ?thesis using ready_start [OF assms(1)] lock_ready [OF assms(1)] by (simp add: memalign_def and_then_def)
  next
    assume "\<exists>a s' x. memalign_locked al n (taken s) = Inr (a, s') \<and> gains (taken s) a (padded_size s al n) s' x"
    then obtain a t x where t: "memalign_locked al n (taken s) = Inr (a, t)" "gains (taken s) a (padded_size s al n) t x" by blast
    have st: "settings (release t) = settings s" using release_settings [OF assms(1)] t(2) by (simp add: gains_def)
    have "gains s a (padded_size s al n) (release t) x" using t(2) st by (simp add: gains_def)
    moreover from this have "ready (release t)" using ready_settings [OF assms(1)] by (simp add: gains_def)
    moreover have "memalign al n s = Inr (a, release t)"
      using ready_start [OF assms(1)] lock_ready [OF assms(1)] t(1) by (simp add: memalign_def and_then_def)
    ultimately show ?thesis by blast
  qed
qed

lemma free_result:
  assumes "ready s" "x \<in> bufs (slots s)"
  shows "\<exists>t. EF_free (userAddress x) s = Inr t \<and> loses s x t \<and> ready t"
proof -
  have q: "quiet s" "arena s" using assms(1) by (simp_all add: ready_def quiet_def)
  have "\<exists>t. free_locked (userAddress x) (taken s) = Inr t \<and> loses (taken s) x t"
    using q assms(2) by (intro free_locked_result) (simp_all add: quiet_def)
  then obtain t where t: "free_locked (userAddress x) (taken s) = Inr t" "loses (taken s) x t" by blast
  have st: "settings (release t) = settings s" using release_settings [OF assms(1)] t(2) by (simp add: loses_def)
  have "list_vars t = list_vars s" using t(2) by (simp add: loses_def)
  note lv = list_vars_eqD [OF this]
  have "loses s x (release t)" using t(2) st by (simp add: loses_def)
  moreover have "quiet (release t)" using t(2) q lv by (simp add: quiet_def loses_def)
  then have "ready (release t)" using ready_settings [OF assms(1) st] by simp
  moreover have "EF_free (userAddress x) s = Inr (release t)"
    using lock_ready [OF assms(1)] t(1) buf_address [OF q(2) assms(2)] q(2)
    by (auto simp: EF_free_def and_then_def arena_def list_ok_def)
  ultimately show ?thesis by blast
qed

text \<open>Any other address is refused.\<close>

lemma free_refused:
  assumes "ready s" "a \<noteq> 0" "\<forall>x \<in> bufs (slots s). userAddress x \<noteq> a"
  shows "EF_free a s = Inl (Ended (EF_Abort ''free(%a): address not from malloc().'' [pointer a]))
    \<or> EF_free a s = Inl (Ended (EF_Abort ''free(%a): freeing free memory.'' [pointer a]))"
proof -
  have q: "quiet (taken s)" "arena (taken s)" "\<not> noAllocationListProtection (taken s)" "\<not> internalUse (taken s)" using assms(1) by (simp_all add: ready_def quiet_def)
  define t where "t = set_list_prot True (taken s)"
  have t: "slots t = slots s" "\<not> internalUse t" "list_open t"
    using q list_calls(3) [OF set_list_prot_arena [OF q(2)], of True] by (simp_all add: t_def) (simp add: set_list_prot_def list_pages_def)
  have "EF_free a s = and_then (free_locked a (taken s)) (\<lambda>s. Inr (release s))"
    using assms(2) lock_ready [OF assms(1)] q(2) by (auto simp: EF_free_def and_then_def arena_def list_ok_def)
  moreover have "free_locked a (taken s) = Inl (Ended (EF_Abort ''free(%a): address not from malloc().'' [pointer a]))
      \<or> free_locked a (taken s) = Inl (Ended (EF_Abort ''free(%a): freeing free memory.'' [pointer a]))"
  proof (cases "slotForUserAddress a t")
    case None
    then show ?thesis using assms(2) q(3) list_calls(1) [OF q(2)] t(3) by (simp add: free_locked_def and_then_def with_list_def t_def abort_with_def)
  next
    case (Some i)
    note i = first_index_Some [OF Some [unfolded slotForUserAddress_def]]
    have "\<forall>x \<in> set (slots s). userAddress x = a \<longrightarrow> slot_mode x \<noteq> ALLOCATED" using assms(3) by (auto simp: bufs_def)
    moreover have "slots t ! i \<in> set (slots s)" "userAddress (slots t ! i) = a" using i t(1) by simp_all
    ultimately have "slot_mode (slots t ! i) \<noteq> ALLOCATED" by blast
    then show ?thesis using Some assms(2) q(3) list_calls(1) [OF q(2)] t(2,3) by (simp add: free_locked_def and_then_def with_list_def t_def abort_with_def)
  qed
  ultimately show ?thesis by (elim disjE) (simp_all add: and_then_def)
qed

subsection \<open>The bytes of a buffer\<close>

lemma user_range:
  assumes "arena s" "x \<in> bufs (slots s)" "i < userSize x"
  shows "(userAddress x + i) div os_page s \<in> slot_pages (os_page s) x" "prot s ((userAddress x + i) div os_page s)"
proof -
  note b = buf_ok [OF assms(1,2)] and P = arenaD(1) [OF assms(1)]
  have r: "os_page s dvd internalAddress x" "os_page s dvd internalSize x" "os_page s dvd internalSize x - os_page s" "os_page s \<le> internalSize x"
    using b(1,2) by (simp_all add: range_ok_def dvd_diff_nat buffer_ok_def)
  show "(userAddress x + i) div os_page s \<in> slot_pages (os_page s) x"
    unfolding slot_pages_def using b(1) assms(3) r by (intro in_pages [OF P]) (auto simp: buffer_ok_def split: if_splits)
  show "prot s ((userAddress x + i) div os_page s)"
  proof (cases "EF_PROTECT_BELOW s = 0")
    case True
    then have "(userAddress x + i) div os_page s \<in> pages (os_page s) (internalAddress x) (internalSize x - os_page s)"
      using b(1) assms(3) r by (intro in_pages [OF P]) (auto simp: buffer_ok_def)
    with True b(1) show ?thesis by (simp add: buffer_ok_def)
  next
    case False
    then have "(userAddress x + i) div os_page s \<in> pages (os_page s) (internalAddress x + os_page s) (internalSize x - os_page s)"
      using b(1) assms(3) r by (intro in_pages [OF P]) (auto simp: buffer_ok_def)
    with False b(1) show ?thesis by (simp add: buffer_ok_def)
  qed
qed

lemma user_accessible:
  assumes "arena s" "x \<in> bufs (slots s)" "i + n \<le> userSize x"
  shows "accessible s (userAddress x + i) n"
proof -
  have P: "0 < os_page s" using arenaD(1) [OF assms(1)] .
  show ?thesis unfolding accessible_def list_all_iff
  proof
    fix p assume p: "p \<in> set (page_range s (userAddress x + i) n)"
    let ?a = "userAddress x + i"
    have n: "0 < n" and lo: "?a div os_page s \<le> p" and hi: "p < (?a + n + os_page s - 1) div os_page s"
      using p by (auto simp: page_range_def split: if_splits)
    define c where "c = max ?a (p * os_page s)"
    have "Suc p * os_page s \<le> ?a + n + os_page s - 1" using hi P by (metis Suc_leI less_eq_div_iff_mult_less_eq)
    then have "p * os_page s < ?a + n" using P n by simp
    then have c: "?a \<le> c" "c < ?a + n" using n by (auto simp: c_def)
    have "c div os_page s = p"
    proof (cases "?a \<le> p * os_page s")
      case True
      then have "c = p * os_page s" by (simp add: c_def)
      then show ?thesis using P by simp
    next
      case False
      then have "c = ?a" "p \<le> ?a div os_page s" using P by (simp_all add: c_def less_eq_div_iff_mult_less_eq)
      with lo show ?thesis by simp
    qed
    moreover have "prot s ((userAddress x + (c - userAddress x)) div os_page s)" using c assms(3) by (intro user_range(2) [OF assms(1,2)]) simp
    ultimately show "prot s p" using c(1) by simp
  qed
qed

text \<open>Writing into a buffer disturbs neither the invariant nor another buffer.\<close>

lemma arena_cells [simp]:
  "arena (s\<lparr>cells := c\<rparr>) = arena s" "quiet (s\<lparr>cells := c\<rparr>) = quiet s" "ready (s\<lparr>cells := c\<rparr>) = ready s" "settings (s\<lparr>cells := c\<rparr>) = settings s"
  "list_vars (s\<lparr>cells := c\<rparr>) = list_vars s" "list_pages (s\<lparr>cells := c\<rparr>) = list_pages s"
  by (simp_all add: arena_def system_ok_def list_ok_def quiet_def ready_def settings_def list_vars_def list_pages_def)

lemma list_open_update [simp]:
  "list_open (s\<lparr>cells := c\<rparr>) = list_open s" "list_open (s\<lparr>noAllocationListProtection := b\<rparr>) = list_open s"
  by (simp_all add: list_open_def accessible_def page_range_def)

lemma open_list: "arena s \<Longrightarrow> list_open (set_list_prot True s)"
  using list_calls(3) [OF set_list_prot_arena, of s True] by (simp add: set_list_prot_def list_pages_def)

lemma list_prot_intact: "arena s \<Longrightarrow> y \<in> bufs (slots s) \<Longrightarrow> intact s (set_list_prot b s) y"
  using keeps_intact [OF set_list_prot_keeps] list_apart by blast

lemma written_intact:
  assumes "arena s" "x \<in> bufs (slots s)" "y \<in> bufs (slots s)" "x \<noteq> y" "\<forall>z. c z \<noteq> cells s z \<longrightarrow> userAddress x \<le> z \<and> z < userAddress x + userSize x"
  shows "intact s (s\<lparr>cells := c\<rparr>) y"
proof -
  have "c z = cells s z" if z: "z div os_page s \<in> slot_pages (os_page s) y" for z
  proof (rule ccontr)
    assume "c z \<noteq> cells s z"
    then have "userAddress x + (z - userAddress x) = z" "z - userAddress x < userSize x" using assms(5) by auto
    then have "z div os_page s \<in> slot_pages (os_page s) x" using user_range(1) [OF assms(1,2)] by metis
    then show False using z held_apart [OF assms(1) buf_ok(3) [OF assms(1,2)] buf_ok(3) [OF assms(1,3)] assms(4)] by auto
  qed
  then show ?thesis by (simp add: intact_def)
qed

subsection \<open>\<open>realloc\<close>\<close>

text \<open>The contents of the new buffer.\<close>

definition moved :: "nat \<Rightarrow> nat \<Rightarrow> nat \<Rightarrow> nat \<Rightarrow> (nat \<Rightarrow> u8) \<Rightarrow> (nat \<Rightarrow> u8) \<Rightarrow> bool" where
  "moved old k new n c d \<longleftrightarrow> (\<forall>i < n. d (new + i) = (if i < k then c (old + i) else 0))"

definition exchanges :: "fence \<Rightarrow> Slot \<Rightarrow> nat \<Rightarrow> nat \<Rightarrow> fence \<Rightarrow> Slot \<Rightarrow> bool" where
  "exchanges s x n m t y \<longleftrightarrow> ready t \<and> settings t = settings s \<and> allocationListSize t \<le> allocationListSize s + os_page s
     \<and> bufs (slots t) = insert y (bufs (slots s) - {x}) \<and> y \<notin> bufs (slots s) \<and> userSize y = m
     \<and> (\<forall>z \<in> bufs (slots s). z \<noteq> x \<longrightarrow> intact s t z)
     \<and> moved (userAddress x) (userSize x) (userAddress y) n (cells s) (cells t)
     \<and> (\<forall>p \<in> slot_pages (os_page s) x. \<not> prot t p)
     \<and> dead (os_page s) (slots s) \<union> (if EF_PROTECT_FREE s \<noteq> 0 then slot_pages (os_page s) x else {}) \<subseteq> dead (os_page s) (slots t)"

lemma copy_and_free_result:
  assumes "quiet s" "x \<in> bufs (slots s)" "y \<in> bufs (slots s)" "x \<noteq> y" "n \<le> userSize y" "n < 2 ^ 64"
  shows "\<exists>t. copy_and_free (userAddress x) (userAddress y) n s = Inr t \<and> quiet t \<and> settings t = settings s \<and> list_vars t = list_vars s
    \<and> bufs (slots t) = bufs (slots s) - {x} \<and> (\<forall>z \<in> bufs (slots s). z \<noteq> x \<longrightarrow> z \<noteq> y \<longrightarrow> intact s t z)
    \<and> moved (userAddress x) (userSize x) (userAddress y) n (cells s) (cells t)
    \<and> (\<forall>p \<in> slot_pages (os_page s) x. \<not> prot t p)
    \<and> dead (os_page s) (slots t) = dead (os_page s) (slots s) \<union> (if EF_PROTECT_FREE s \<noteq> 0 then slot_pages (os_page s) x else {})"
proof -
  have q: "arena s" "\<not> noAllocationListProtection s" "\<not> internalUse s" "5 \<le> unUsedSlots s" using assms(1) by (simp_all add: quiet_def)
  define k where "k = (if n < userSize x then n else userSize x)"
  define a where "a = (set_list_prot True s)\<lparr>noAllocationListProtection := True\<rparr>"
  have a: "arena a" "list_open a" "slots a = slots s" "cells a = cells s" "os_page a = os_page s" "settings a = settings s" "EF_PROTECT_FREE a = EF_PROTECT_FREE s"
    "noAllocationListProtection a" "\<not> internalUse a" "5 \<le> unUsedSlots a" "allocationList a = allocationList s" "allocationListSize a = allocationListSize s"
    using q set_list_prot_arena [OF q(1), of True] open_list [OF q(1)]
    by (simp_all add: a_def settings_def) (simp_all add: set_list_prot_def)
  from buf_ok(3) [OF q(1) assms(2)] obtain i where i: "i < length (slots s)" "slots s ! i = x" by (auto simp: held_iff)
  have look: "slotForUserAddress (userAddress x) a = Some i"
    using slot_lookup [OF a(1), of i] i buf_address [OF q(1) assms(2)] a(3) by simp
  define c where "c = (\<lambda>z. if userAddress y \<le> z \<and> z < userAddress y + k then cells s (userAddress x + (z - userAddress y)) else cells s z)"
  define b where "b = a\<lparr>cells := c\<rparr>"
  have kle: "k \<le> userSize x" "k \<le> n" "k \<le> userSize y" using assms(5) by (auto simp: k_def)
  have acc: "accessible a (userAddress x) k" "accessible a (userAddress y) k"
    using user_accessible [OF a(1), of x 0 k] user_accessible [OF a(1), of y 0 k] assms(2,3) kle a(3) by simp_all
  have copy: "(if 0 < k then memcpy (userAddress y) (userAddress x) k a else Inr a) = Inr b"
  proof (cases "0 < k")
    case True
    then show ?thesis using memcpy_ok [OF acc(2,1)] a(4) by (simp add: b_def c_def cong: if_cong)
  next
    case False
    then have "c = cells a" using a(4) by (auto simp: c_def fun_eq_iff)
    with False show ?thesis by (simp add: b_def)
  qed
  have b: "arena b" "\<not> internalUse b" "5 \<le> unUsedSlots b" "x \<in> bufs (slots b)" "noAllocationListProtection b \<Longrightarrow> list_open b" "slots b = slots s" "os_page b = os_page s"
    "settings b = settings s" "EF_PROTECT_FREE b = EF_PROTECT_FREE s" "noAllocationListProtection b" "cells b = c"
    using a assms(2) by (simp_all add: b_def)
  from free_locked_result [OF b(1-5)] obtain f where f: "free_locked (userAddress x) b = Inr f" "loses b x f" by blast
  have lvb: "list_vars b = (allocationList s, allocationListSize s, False, True)" using a(8,9,11,12) by (simp add: list_vars_def b_def)
  have fl: "arena f" "5 \<le> unUsedSlots f" "settings f = settings s" "list_vars f = list_vars b" "bufs (slots f) = bufs (slots s) - {x}"
    "\<forall>z \<in> bufs (slots s). z \<noteq> x \<longrightarrow> intact b f z" "\<forall>p \<in> slot_pages (os_page s) x. \<not> prot f p"
    "dead (os_page s) (slots f) = dead (os_page s) (slots s) \<union> (if EF_PROTECT_FREE s \<noteq> 0 then slot_pages (os_page s) x else {})"
    using f(2) b by (simp_all add: loses_def)
  note ef = settings_eqD [OF fl(3)]
  have lf: "allocationList f = allocationList s" "allocationListSize f = allocationListSize s" "\<not> internalUse f"
    using list_vars_eqD [OF fl(4)] lvb by (simp_all add: list_vars_def)
  define g where "g = set_list_prot False (f\<lparr>noAllocationListProtection := False\<rparr>)"
  have deny: "Page_DenyAccess (allocationList f) (allocationListSize f) (f\<lparr>noAllocationListProtection := False\<rparr>) = Inr g"
    using list_calls(2) [of "f\<lparr>noAllocationListProtection := False\<rparr>"] fl(1) by (simp add: g_def)
  have g: "arena g" "quiet g" "settings g = settings s" "slots g = slots f" "cells g = cells f" "os_page g = os_page s" "list_vars g = list_vars s"
    using fl(1,2,3) set_list_prot_arena lf q(2,3) ef(1) by (simp_all add: g_def quiet_def) (simp_all add: settings_def list_vars_def)
  have yb: "y \<in> bufs (slots g)" using assms(3,4) fl(5) g(4) by simp
  note oky = buf_ok [OF q(1) assms(3)]
  have bound: "userAddress y + n < 2 ^ 64" using oky(1,2) assms(5) by (auto simp: buffer_ok_def range_ok_def split: if_splits)
  define d where "d = (\<lambda>z. if userAddress y + k \<le> z \<and> z < userAddress y + n then 0 else cells f z)"
  define h where "h = g\<lparr>cells := d\<rparr>"
  have acc': "accessible g (userAddress y + k) (n - k)" using user_accessible [OF g(1) yb] kle assms(5) by simp
  have clear: "(if k < n then memset (add64 (userAddress y) k) 0 (sub64 n k) g else Inr g) = Inr h"
  proof (cases "k < n")
    case True
    have "add64 (userAddress y) k = userAddress y + k" "sub64 n k = n - k" using bound True assms(6) by simp_all
    then show ?thesis using True acc' by (simp add: memset_ok h_def d_def g(5) cong: if_cong)
  next
    case False
    then have "d = cells g" using g(5) kle(2) by (auto simp: d_def fun_eq_iff)
    with False show ?thesis by (simp add: h_def)
  qed
  have run: "copy_and_free (userAddress x) (userAddress y) n s = Inr h"
    unfolding copy_and_free_def list_calls(1) [OF q(1)]
    using open_list [OF q(1)] a(3) look i(2) copy f(1) deny clear
    by (simp add: and_then_def with_list_def a_def [symmetric] k_def [symmetric] Let_def cong: if_cong)
  have yint: "intact b f y" using fl(6) assms(3,4) by simp
  have new: "d (userAddress y + j) = (if j < userSize x then cells s (userAddress x + j) else 0)" if "j < n" for j
  proof (cases "j < k")
    case True
    then have "j < userSize y" "(userAddress y + j) div os_page b \<in> slot_pages (os_page b) y"
      using kle user_range(1) [OF b(1), of y j] assms(3) b(6) by simp_all
    then have "cells f (userAddress y + j) = c (userAddress y + j)" using yint b(11) by (simp add: intact_def)
    then show ?thesis using True kle by (simp add: d_def c_def)
  next
    case False
    then have "\<not> j < userSize x" using that by (auto simp: k_def split: if_splits)
    with False that show ?thesis by (simp add: d_def)
  qed
  have others: "intact s h z" if z: "z \<in> bufs (slots s)" "z \<noteq> x" "z \<noteq> y" for z
  proof -
    have "intact s a z" using list_prot_intact [OF q(1) z(1), of True] by (simp add: a_def intact_def)
    moreover have "intact a b z" unfolding b_def using a(1,3,4) z assms(3) kle
      by (intro written_intact [of a y z]) (auto simp: c_def)
    moreover have "intact b f z" using fl(6) z by simp
    moreover have "intact f g z" using list_prot_intact [of "f\<lparr>noAllocationListProtection := False\<rparr>" z False] fl(1,5) z by (simp add: g_def intact_def)
    moreover have "intact g h z" unfolding h_def using g(1,4,5) yb z fl(5) kle assms(5)
      by (intro written_intact [of g y z]) (auto simp: d_def)
    ultimately show ?thesis using a(5) b(7) ef(1) g(6) by (meson intact_trans)
  qed
  have "\<forall>p \<in> slot_pages (os_page s) x. \<not> prot h p" using fl(7) by (simp add: h_def g_def) (simp add: set_list_prot_def)
  moreover have "moved (userAddress x) (userSize x) (userAddress y) n (cells s) (cells h)" using new by (simp add: moved_def h_def)
  ultimately show ?thesis
    using run g fl(5,8) others by (simp add: h_def)
qed

text \<open>The alignment of \<open>malloc\<close>.\<close>

definition malloc_alignment :: "fence \<Rightarrow> nat" where
  "malloc_alignment s = to_size (EF_ALIGNMENT s)"

lemma malloc_alignment_le: "quiet s \<Longrightarrow> malloc_alignment s \<le> 2 ^ 20"
  by (auto simp: quiet_def arena_def system_ok_def malloc_alignment_def dest: dvd_imp_le)

lemma realloc_result:
  assumes "ready s" "allocationListSize s \<le> 2 ^ 29" "n \<le> 2 ^ 29" "n \<noteq> 0 \<or> EF_ALLOW_MALLOC_0 s \<noteq> 0" "x \<in> bufs (slots s)"
  shows "EF_realloc (userAddress x) n s = Inl (mmap_failed s) \<or>
    (\<exists>a t y. EF_realloc (userAddress x) n s = Inr (a, t) \<and> userAddress y = a \<and> exchanges s x n (padded_size s (malloc_alignment s) n) t y)"
proof -
  let ?al = "malloc_alignment s" and ?m = "padded_size s (malloc_alignment s) n"
  have q: "quiet s" "arena s" using assms(1) by (simp_all add: ready_def quiet_def)
  have al: "?al \<le> 2 ^ 20" by (rule malloc_alignment_le [OF q(1)])
  have nm: "n \<le> ?m" using padded_bounds(1) [OF al assms(3)] .
  have start: "EF_realloc (userAddress x) n s = and_then (memalign_locked ?al n (taken s)) (\<lambda>(a, s).
      and_then (copy_and_free (userAddress x) a n s) (\<lambda>s. Inr (a, release s)))"
    using ready_start [OF assms(1)] lock_ready [OF assms(1)] buf_address [OF q(2) assms(5)]
    by (simp add: EF_realloc_def and_then_def malloc_alignment_def cong: sum.case_cong)
  have "memalign_locked ?al n (taken s) = Inl (mmap_failed s) \<or>
      (\<exists>a s' y. memalign_locked ?al n (taken s) = Inr (a, s') \<and> gains (taken s) a ?m s' y)"
    using memalign_locked_result [of "taken s" n ?al] q assms al by simp
  then show ?thesis
  proof
    assume "memalign_locked ?al n (taken s) = Inl (mmap_failed s)"
    then show ?thesis using start by (simp add: and_then_def)
  next
    assume "\<exists>a s' y. memalign_locked ?al n (taken s) = Inr (a, s') \<and> gains (taken s) a ?m s' y"
    then obtain a u y where u: "memalign_locked ?al n (taken s) = Inr (a, u)" "gains (taken s) a ?m u y" by blast
    then have g: "quiet u" "settings u = settings (taken s)" "allocationListSize u \<le> allocationListSize s + os_page s"
      "bufs (slots u) = insert y (bufs (slots s))" "y \<notin> bufs (slots s)" "userAddress y = a" "userSize y = ?m"
      "\<forall>z \<in> bufs (slots s). intact s u z" "dead (os_page s) (slots s) \<subseteq> dead (os_page s) (slots u)" by (simp_all add: gains_def)
    note eu = settings_eqD [OF g(2), simplified]
    have xy: "x \<noteq> y" using assms(5) g(5) by auto
    have "n \<le> userSize y" "n < 2 ^ 64" using nm g(7) assms(3) by simp_all
    from copy_and_free_result [OF g(1) _ _ xy this, unfolded g(4)] assms(5) obtain t where
      t: "copy_and_free (userAddress x) a n u = Inr t" "quiet t" "settings t = settings u" "list_vars t = list_vars u"
      "bufs (slots t) = insert y (bufs (slots s)) - {x}" "\<forall>z \<in> insert y (bufs (slots s)). z \<noteq> x \<longrightarrow> z \<noteq> y \<longrightarrow> intact u t z"
      "moved (userAddress x) (userSize x) a n (cells u) (cells t)" "\<forall>p \<in> slot_pages (os_page s) x. \<not> prot t p"
      "dead (os_page s) (slots t) = dead (os_page s) (slots u) \<union> (if EF_PROTECT_FREE s \<noteq> 0 then slot_pages (os_page s) x else {})"
      using g(6) eu(1,5) by auto
    have st: "settings (release t) = settings s" using release_settings [OF assms(1)] t(3) g(2) by simp
    have rt: "ready (release t)" using ready_settings [OF assms(1) st] t(2) by simp
    have "allocationListSize t = allocationListSize u" using list_vars_eqD(2) [OF t(4)] .
    moreover have "bufs (slots t) = insert y (bufs (slots s) - {x})" using t(5) xy by auto
    moreover have "intact s t z" if "z \<in> bufs (slots s)" "z \<noteq> x" for z
      using intact_trans [OF eu(1)] g(5,8) t(6) that by (metis insertCI)
    moreover have "moved (userAddress x) (userSize x) (userAddress y) n (cells s) (cells t)"
    proof -
      have "cells u (userAddress x + j) = cells s (userAddress x + j)" if "j < userSize x" for j
        using g(8) assms(5) user_range(1) [OF q(2) assms(5) that] by (auto simp: intact_def)
      then show ?thesis using t(7) g(6) by (simp add: moved_def)
    qed
    ultimately have "exchanges s x n ?m (release t) y"
      using rt st g(3,5,7,9) t(8,9) unfolding exchanges_def by auto
    moreover have "EF_realloc (userAddress x) n s = Inr (a, release t)" using start u(1) t(1) by (simp add: and_then_def)
    ultimately show ?thesis using g(6) by blast
  qed
qed

end
