(* ===== verification/Ef_Client.thy ===== *)
theory Ef_Client
  imports Ef_Public
begin

text \<open>
  A program that uses the debugging allocator. It keeps the address and the requested size of each buffer it holds, and of those it has
  given back. What it may rely on is stated over an abstract memory, in which each buffer is a list of bytes, some of them indeterminate.
\<close>

subsection \<open>Programs\<close>

datatype request = Malloc nat | Calloc nat nat | Memalign nat nat | Valloc nat | Realloc_null nat | Realloc nat nat | Free nat | Store nat nat u8

record client =
  heap :: fence
  live :: "(nat \<times> nat) list"
  gone :: "(nat \<times> nat) list"

definition keep_new :: "nat \<Rightarrow> client \<Rightarrow> (nat \<times> fence) result \<Rightarrow> client result" where
  "keep_new n c r = and_then r (\<lambda>(a, s). Inr (c\<lparr>heap := s, live := live c @ [(a, n)]\<rparr>))"

text \<open>A store instruction of the program.\<close>

definition store :: "nat \<Rightarrow> u8 \<Rightarrow> fence \<Rightarrow> fence result" where
  "store a v s = (if prot s (a div os_page s) then Inr (s\<lparr>cells := (cells s)(a := v)\<rparr>) else Inl Fault)"

definition drop_nth :: "nat \<Rightarrow> 'a list \<Rightarrow> 'a list" where
  "drop_nth k xs = take k xs @ drop (Suc k) xs"

fun serve :: "request \<Rightarrow> client \<Rightarrow> client result" where
  "serve (Malloc n) c = keep_new n c (EF_malloc n (heap c))"
| "serve (Calloc k n) c = keep_new (k * n) c (EF_calloc k n (heap c))"
| "serve (Memalign al n) c = keep_new n c (memalign al n (heap c))"
| "serve (Valloc n) c = keep_new n c (EF_valloc n (heap c))"
| "serve (Realloc_null n) c = keep_new n c (EF_realloc 0 n (heap c))"
| "serve (Realloc k n) c =
     (if k < length (live c)
      then and_then (EF_realloc (fst (live c ! k)) n (heap c)) (\<lambda>(a, s).
             Inr (c\<lparr>heap := s, live := (live c)[k := (a, n)], gone := live c ! k # gone c\<rparr>))
      else Inr c)"
| "serve (Free k) c =
     (if k < length (live c)
      then and_then (EF_free (fst (live c ! k)) (heap c)) (\<lambda>s.
             Inr (c\<lparr>heap := s, live := drop_nth k (live c), gone := live c ! k # gone c\<rparr>))
      else Inr c)"
| "serve (Store k i v) c =
     (if k < length (live c) then and_then (store (fst (live c ! k) + i) v (heap c)) (\<lambda>s. Inr (c\<lparr>heap := s\<rparr>)) else Inr c)"

fun serve_all :: "request list \<Rightarrow> client \<Rightarrow> client result" where
  "serve_all [] c = Inr c"
| "serve_all (r # rs) c = and_then (serve r c) (serve_all rs)"

definition program :: "(nat \<Rightarrow> nat \<Rightarrow> nat \<Rightarrow> (nat \<times> nat) list \<Rightarrow> nat option) \<Rightarrow> (nat \<Rightarrow> bool) \<Rightarrow> (string \<Rightarrow> int option) \<Rightarrow> bool \<Rightarrow> nat \<Rightarrow> request list \<Rightarrow> client result" where
  "program mm ans env sem P rs = serve_all rs \<lparr>heap = process mm ans env sem P, live = [], gone = []\<rparr>"

subsection \<open>The abstract memory\<close>

record policy =
  below :: bool
  forever :: bool
  zero_ok :: bool
  alignment :: nat
  page :: nat

definition policy_of :: "(string \<Rightarrow> int option) \<Rightarrow> nat \<Rightarrow> policy" where
  "policy_of env P = \<lparr>below = (env_value env ''EF_PROTECT_BELOW'' 0 \<noteq> 0), forever = (env_value env ''EF_PROTECT_FREE'' 0 \<noteq> 0),
     zero_ok = (env_value env ''EF_ALLOW_MALLOC_0'' 0 \<noteq> 0), alignment = to_size (env_value env ''EF_ALIGNMENT'' 4), page = P\<rparr>"

type_synonym memory = "u8 option list list"

text \<open>The size of a buffer: the size asked for, rounded up to the alignment when the memory above the buffer is protected.\<close>

definition rounded :: "policy \<Rightarrow> nat \<Rightarrow> nat \<Rightarrow> nat" where
  "rounded p al n = (if \<not> below p \<and> 1 < al then (n + al - 1) div al * al else n)"

definition new_buffer :: "policy \<Rightarrow> nat \<Rightarrow> nat \<Rightarrow> u8 option list \<Rightarrow> memory \<Rightarrow> memory option" where
  "new_buffer p al n bs m = (if n = 0 \<and> \<not> zero_ok p then None else Some (m @ [bs @ replicate (rounded p al n - length bs) None]))"

definition resized :: "nat \<Rightarrow> u8 option list \<Rightarrow> u8 option list" where
  "resized n bs = take n bs @ replicate (n - length bs) (Some 0)"

text \<open>\<open>None\<close> is a program that misuses the allocator.\<close>

fun spec :: "policy \<Rightarrow> request \<Rightarrow> memory \<Rightarrow> memory option" where
  "spec p (Malloc n) m = new_buffer p (alignment p) n [] m"
| "spec p (Calloc k n) m = new_buffer p (alignment p) (k * n) (replicate (k * n) (Some 0)) m"
| "spec p (Memalign al n) m = new_buffer p al n [] m"
| "spec p (Valloc n) m = new_buffer p (page p) n [] m"
| "spec p (Realloc_null n) m = new_buffer p (alignment p) n [] m"
| "spec p (Realloc k n) m =
     (if k < length m \<and> (n \<noteq> 0 \<or> zero_ok p)
      then Some (m[k := resized n (m ! k) @ replicate (rounded p (alignment p) n - n) None]) else None)"
| "spec p (Free k) m = (if k < length m then Some (drop_nth k m) else None)"
| "spec p (Store k i v) m = (if k < length m \<and> i < length (m ! k) then Some (m[k := (m ! k)[i := Some v]]) else None)"

fun spec_all :: "policy \<Rightarrow> request list \<Rightarrow> memory \<Rightarrow> memory option" where
  "spec_all p [] m = Some m"
| "spec_all p (r # rs) m = Option.bind (spec p r m) (spec_all p rs)"

text \<open>The sizes for which the arithmetic of the code does not wrap.\<close>

fun modest :: "request \<Rightarrow> bool" where
  "modest (Malloc n) = (n \<le> 2 ^ 29)"
| "modest (Calloc k n) = (k * n \<le> 2 ^ 29)"
| "modest (Memalign al n) = (al \<le> 2 ^ 20 \<and> n \<le> 2 ^ 29)"
| "modest (Valloc n) = (n \<le> 2 ^ 29)"
| "modest (Realloc_null n) = (n \<le> 2 ^ 29)"
| "modest (Realloc k n) = (n \<le> 2 ^ 29)"
| "modest (Free k) = True"
| "modest (Store k i v) = True"

end
