(* ===== verification/Ef_Sim.thy ===== *)
theory Ef_Sim
  imports Ef_Client
begin

text \<open>The allocator keeps the promises of the abstract memory.\<close>

subsection \<open>The simulation\<close>

definition shows_as :: "fence \<Rightarrow> Slot \<Rightarrow> u8 option list \<Rightarrow> bool" where
  "shows_as s x bs \<longleftrightarrow> length bs = userSize x \<and> (\<forall>i < length bs. bs ! i = None \<or> bs ! i = Some (cells s (userAddress x + i)))"

definition handed_out :: "Slot \<Rightarrow> nat \<times> nat \<Rightarrow> bool" where
  "handed_out x l \<longleftrightarrow> userAddress x = fst l \<and> snd l \<le> userSize x"

definition tracks :: "fence \<Rightarrow> Slot list \<Rightarrow> (nat \<times> nat) list \<Rightarrow> memory \<Rightarrow> bool" where
  "tracks s xs ls m \<longleftrightarrow> distinct xs \<and> set xs = bufs (slots s) \<and> list_all2 handed_out xs ls \<and> list_all2 (shows_as s) xs m"

definition buried :: "fence \<Rightarrow> nat \<times> nat \<Rightarrow> bool" where
  "buried s l \<longleftrightarrow> (\<forall>i < snd l. (fst l + i) div os_page s \<in> dead (os_page s) (slots s))"

definition obeys :: "policy \<Rightarrow> fence \<Rightarrow> bool" where
  "obeys p s \<longleftrightarrow> ready s \<and> os_page s = page p \<and> (EF_PROTECT_BELOW s \<noteq> 0) = below p \<and> (EF_PROTECT_FREE s \<noteq> 0) = forever p
     \<and> (EF_ALLOW_MALLOC_0 s \<noteq> 0) = zero_ok p \<and> malloc_alignment s = alignment p \<and> os_error s = ''error''"

definition out_of_memory_exit :: stop where
  "out_of_memory_exit = Ended (EF_Exit ''mmap() failed: %s'' [Text ''error''])"

definition good :: "policy \<Rightarrow> client \<Rightarrow> memory \<Rightarrow> bool" where
  "good p c m \<longleftrightarrow> obeys p (heap c) \<and> (\<exists>xs. tracks (heap c) xs (live c) m) \<and> (forever p \<longrightarrow> list_all (buried (heap c)) (gone c))"

lemma obeys_settings: "obeys p s \<Longrightarrow> settings t = settings s \<Longrightarrow> ready t \<Longrightarrow> obeys p t"
  using settings_eqD [of t s] by (simp add: obeys_def malloc_alignment_def)

lemma obeysD:
  assumes "obeys p s"
  shows "ready s" "quiet s" "arena s" "os_page s = page p" "mmap_failed s = out_of_memory_exit"
  using assms by (simp_all add: obeys_def ready_def quiet_def mmap_failed_def out_of_memory_exit_def)

lemma padded_rounded:
  assumes "n \<le> 2 ^ 29" "al \<le> 2 ^ 20" "(EF_PROTECT_BELOW s \<noteq> 0) = below p"
  shows "padded_size s al n = rounded p al n" "n \<le> rounded p al n"
proof -
  show e: "padded_size s al n = rounded p al n"
  proof (cases "\<not> below p \<and> 1 < al")
    case True
    have d: "n = al * (n div al) + n mod al" by simp
    have al: "1 < al" using True by simp
    then have l: "n mod al < al" by simp
    have "(n + al - 1) div al = n div al + (if n mod al = 0 then 0 else 1)"
    proof (cases "n mod al = 0")
      case z: True
      then have "al * (n div al) = n" using d by linarith
      then have "(n + al - 1) div al = n div al" using al by (intro div_nat_eqI) simp_all
      then show ?thesis using z by simp
    next
      case z: False
      then have "al * (n div al) + 1 \<le> n" "n < al * (n div al) + al" using d l by linarith+
      then have "(n + al - 1) div al = n div al + 1" using al by (intro div_nat_eqI) simp_all
      then show ?thesis using z by simp
    qed
    moreover have "n + (al - n mod al) = al * (n div al) + al" using d l by linarith
    then have "n + (al - n mod al) = (n div al + 1) * al" by (simp add: distrib_right mult.commute)
    moreover have "n + (al - n mod al) < 2 ^ 64" using assms(1,2) by simp
    ultimately show ?thesis using True assms(3) d by (auto simp: padded_size_def rounded_def Let_def)
  next
    case False
    then show ?thesis using assms(3) by (auto simp: padded_size_def rounded_def)
  qed
  show "n \<le> rounded p al n" using padded_bounds(1) [OF assms(2,1), of s] e by simp
qed

subsection \<open>Each request\<close>

lemma shows_unknown: "shows_as s x (replicate (userSize x) None)"
  by (simp add: shows_as_def)

lemma shows_intact:
  assumes "arena s" "x \<in> bufs (slots s)" "shows_as s x bs" "intact s t x"
  shows "shows_as t x bs"
proof -
  have "cells t (userAddress x + i) = cells s (userAddress x + i)" if "i < userSize x" for i
    using user_range(1) [OF assms(1,2) that] assms(4) by (auto simp: intact_def)
  then show ?thesis using assms(3) by (auto simp: shows_as_def)
qed

lemma list_all2_mono_set: "list_all2 R xs ys \<Longrightarrow> (\<And>x y. x \<in> set xs \<Longrightarrow> R x y \<Longrightarrow> S x y) \<Longrightarrow> list_all2 S xs ys"
  by (auto simp: list_all2_conv_all_nth)

lemma tracks_intact:
  assumes "arena s" "set xs \<subseteq> bufs (slots s)" "list_all2 (shows_as s) xs m" "\<forall>x \<in> set xs. intact s t x"
  shows "list_all2 (shows_as t) xs m"
proof (rule list_all2_mono_set [OF assms(3)])
  fix x bs assume "x \<in> set xs" "shows_as s x bs"
  then show "shows_as t x bs" using assms(2,4) shows_intact [OF assms(1), of x bs t] by blast
qed

lemma good_new:
  assumes "good p c m" "gains (heap c) a k t x" "ready t" "n \<le> k" "shows_as t x bs"
  shows "good p (c\<lparr>heap := t, live := live c @ [(a, n)]\<rparr>) (m @ [bs])"
proof -
  from assms(1) obtain xs where xs: "tracks (heap c) xs (live c) m" and o: "obeys p (heap c)" by (auto simp: good_def)
  note oD = obeysD [OF o]
  have g: "settings t = settings (heap c)" "bufs (slots t) = insert x (bufs (slots (heap c)))" "x \<notin> bufs (slots (heap c))" "userAddress x = a" "userSize x = k"
    "\<forall>y \<in> bufs (slots (heap c)). intact (heap c) t y" "dead (os_page (heap c)) (slots (heap c)) \<subseteq> dead (os_page (heap c)) (slots t)"
    using assms(2) by (simp_all add: gains_def)
  have set: "set xs = bufs (slots (heap c))" using xs by (simp add: tracks_def)
  have "list_all2 (shows_as (heap c)) xs m" using xs by (simp add: tracks_def)
  from tracks_intact [OF oD(3) _ this] have "list_all2 (shows_as t) xs m" using set g(6) by blast
  then have "tracks t (xs @ [x]) (live c @ [(a, n)]) (m @ [bs])"
    using xs g(2-5) assms(4,5) set by (simp add: tracks_def handed_out_def list_all2_appendI)
  moreover have "buried (heap c) l \<Longrightarrow> buried t l" for l using g(7) settings_eqD(1) [OF g(1)] by (auto simp: buried_def)
  ultimately show ?thesis using assms(1,3) obeys_settings [OF o g(1)] by (simp add: good_def list_all_iff) blast
qed

lemma drop_nth_rel: "list_all2 R xs ys \<Longrightarrow> list_all2 R (drop_nth k xs) (drop_nth k ys)"
  by (auto simp: drop_nth_def intro!: list_all2_appendI list_all2_takeI list_all2_dropI)

lemma drop_nth_set:
  assumes "distinct xs" "k < length xs"
  shows "distinct (drop_nth k xs)" "set (drop_nth k xs) = set xs - {xs ! k}"
proof -
  have "distinct (take k xs @ xs ! k # drop (Suc k) xs)" using assms by (simp add: id_take_nth_drop [symmetric])
  moreover have "set xs = set (take k xs @ xs ! k # drop (Suc k) xs)" using assms(2) by (simp add: id_take_nth_drop [symmetric])
  ultimately show "distinct (drop_nth k xs)" "set (drop_nth k xs) = set xs - {xs ! k}" unfolding drop_nth_def by auto
qed

text \<open>What the run of a request gives.\<close>

definition outcome :: "policy \<Rightarrow> client \<Rightarrow> client result \<Rightarrow> memory \<Rightarrow> bool" where
  "outcome p c r m \<longleftrightarrow> r = Inl out_of_memory_exit \<or>
     (\<exists>c'. r = Inr c' \<and> good p c' m \<and> allocationListSize (heap c') \<le> allocationListSize (heap c) + page p)"

lemma outcome_new:
  assumes "good p c m" "n \<le> k" "r = Inl (mmap_failed (heap c)) \<or> (\<exists>a t x. r = Inr (a, t) \<and> gains (heap c) a k t x \<and> ready t \<and> shows_as t x bs)"
  shows "outcome p c (keep_new n c r) (m @ [bs])"
proof -
  have o: "obeys p (heap c)" using assms(1) by (simp add: good_def)
  show ?thesis using assms(3)
  proof
    assume "r = Inl (mmap_failed (heap c))"
    then show ?thesis using obeysD(5) [OF o] by (simp add: outcome_def keep_new_def and_then_def)
  next
    assume "\<exists>a t x. r = Inr (a, t) \<and> gains (heap c) a k t x \<and> ready t \<and> shows_as t x bs"
    then obtain a t x where t: "r = Inr (a, t)" "gains (heap c) a k t x" "ready t" "shows_as t x bs" by blast
    have "allocationListSize t \<le> allocationListSize (heap c) + page p" using t(2) obeysD(4) [OF o] by (simp add: gains_def)
    then show ?thesis using good_new [OF assms(1) t(2,3) assms(2) t(4)] t(1) by (simp add: outcome_def keep_new_def and_then_def)
  qed
qed

lemma memalign_outcome:
  assumes "good p c m" "allocationListSize (heap c) \<le> 2 ^ 29" "n \<le> 2 ^ 29" "al \<le> 2 ^ 20" "n \<noteq> 0 \<or> zero_ok p"
  shows "memalign al n (heap c) = Inl (mmap_failed (heap c)) \<or>
    (\<exists>a t x. memalign al n (heap c) = Inr (a, t) \<and> gains (heap c) a (rounded p al n) t x \<and> ready t \<and> shows_as t x (replicate (rounded p al n) None))"
proof -
  have o: "obeys p (heap c)" using assms(1) by (simp add: good_def)
  have "n \<noteq> 0 \<or> EF_ALLOW_MALLOC_0 (heap c) \<noteq> 0" "(EF_PROTECT_BELOW (heap c) \<noteq> 0) = below p" using o assms(5) by (auto simp: obeys_def)
  with memalign_result [OF obeysD(1) [OF o] assms(2-4)] padded_rounded [OF assms(3,4)] show ?thesis
    by (auto simp: gains_def shows_as_def)
qed

lemma new_buffer_Some: "new_buffer p al n bs m = Some m' \<longleftrightarrow> (n \<noteq> 0 \<or> zero_ok p) \<and> m' = m @ [bs @ replicate (rounded p al n - length bs) None]"
  by (auto simp: new_buffer_def)

lemma alignment_le: "obeys p s \<Longrightarrow> alignment p \<le> 2 ^ 20" "obeys p s \<Longrightarrow> page p \<le> 2 ^ 20"
  using malloc_alignment_le [of s] by (auto simp: obeys_def ready_def quiet_def arena_def system_ok_def)

lemma malloc_memalign: "obeys p s \<Longrightarrow> EF_malloc n s = memalign (alignment p) n s"
  using ready_start [of s] by (simp add: EF_malloc_def and_then_def obeys_def malloc_alignment_def)

lemma realloc_null: "obeys p s \<Longrightarrow> EF_realloc 0 n s = memalign (alignment p) n s"
  using ready_start [of s] lock_ready [of s]
  by (simp add: EF_realloc_def memalign_def and_then_def obeys_def malloc_alignment_def split: sum.split prod.split)

lemma calloc_outcome:
  assumes "good p c m" "allocationListSize (heap c) \<le> 2 ^ 29" "k * n \<le> 2 ^ 29" "k * n \<noteq> 0 \<or> zero_ok p"
  shows "EF_calloc k n (heap c) = Inl (mmap_failed (heap c)) \<or>
    (\<exists>a t x. EF_calloc k n (heap c) = Inr (a, t) \<and> gains (heap c) a (rounded p (alignment p) (k * n)) t x \<and> ready t
       \<and> shows_as t x (replicate (k * n) (Some 0) @ replicate (rounded p (alignment p) (k * n) - k * n) None))"
proof -
  let ?n = "k * n" and ?r = "rounded p (alignment p) (k * n)" and ?s = "heap c"
  have o: "obeys p ?s" using assms(1) by (simp add: good_def)
  have b: "(EF_PROTECT_BELOW ?s \<noteq> 0) = below p" using o by (simp add: obeys_def)
  have tot: "mul64 k n = ?n" using assms(3) by (simp add: mul64_def)
  note al = alignment_le(1) [OF o]
  have le: "?n \<le> ?r" by (rule padded_rounded(2) [OF assms(3) al b])
  from memalign_outcome [OF assms(1-3) al assms(4)] show ?thesis
  proof
    assume "memalign (alignment p) ?n ?s = Inl (mmap_failed ?s)"
    then show ?thesis using tot malloc_memalign [OF o] by (simp add: EF_calloc_def Let_def and_then_def)
  next
    assume "\<exists>a t x. memalign (alignment p) ?n ?s = Inr (a, t) \<and> gains ?s a ?r t x \<and> ready t \<and> shows_as t x (replicate ?r None)"
    then obtain a t x where t: "memalign (alignment p) ?n ?s = Inr (a, t)" "gains ?s a ?r t x" "ready t" by blast
    then have g: "arena t" "x \<in> bufs (slots t)" "userAddress x = a" "userSize x = ?r" by (auto simp: gains_def quiet_def)
    have st: "settings t = settings ?s" using t(2) by (simp add: gains_def)
    define d where "d = (\<lambda>z. if a \<le> z \<and> z < a + ?n then 0 else cells t z)"
    have "accessible t a ?n" using user_accessible [OF g(1,2), of 0 ?n] g(3,4) le by simp
    then have "EF_calloc k n ?s = Inr (a, t\<lparr>cells := d\<rparr>)"
      using t(1) tot malloc_memalign [OF o] by (simp add: EF_calloc_def Let_def and_then_def memset_ok d_def)
    moreover have "gains ?s a ?r (t\<lparr>cells := d\<rparr>) x"
    proof -
      have "intact ?s (t\<lparr>cells := d\<rparr>) y" if y: "y \<in> bufs (slots ?s)" for y
      proof (rule intact_trans [of t])
        show "os_page t = os_page ?s" using settings_eqD(1) [OF st] .
        show "intact ?s t y" using t(2) y by (simp add: gains_def)
        show "intact t (t\<lparr>cells := d\<rparr>) y"
          using t(2) y g le by (intro written_intact [OF g(1,2)]) (auto simp: gains_def d_def)
      qed
      then show ?thesis using t(2) by (simp add: gains_def)
    qed
    moreover have "shows_as (t\<lparr>cells := d\<rparr>) x (replicate ?n (Some 0) @ replicate (?r - ?n) None)"
      using g(3,4) le by (auto simp: shows_as_def nth_append d_def)
    moreover have "ready (t\<lparr>cells := d\<rparr>)" using t(3) by simp
    ultimately show ?thesis by blast
  qed
qed

lemma good_slot:
  assumes "good p c m" "tracks (heap c) xs (live c) m" "k < length m"
  shows "k < length xs" "k < length (live c)" "xs ! k \<in> bufs (slots (heap c))" "userAddress (xs ! k) = fst (live c ! k)"
    "snd (live c ! k) \<le> userSize (xs ! k)" "shows_as (heap c) (xs ! k) (m ! k)"
proof -
  have l: "list_all2 handed_out xs (live c)" "list_all2 (shows_as (heap c)) xs m" "set xs = bufs (slots (heap c))" using assms(2) by (simp_all add: tracks_def)
  then show "k < length xs" "k < length (live c)" using assms(3) by (simp_all add: list_all2_lengthD [symmetric])
  with l assms(3) show "xs ! k \<in> bufs (slots (heap c))" "userAddress (xs ! k) = fst (live c ! k)" "snd (live c ! k) \<le> userSize (xs ! k)"
    "shows_as (heap c) (xs ! k) (m ! k)" by (auto simp: list_all2_conv_all_nth handed_out_def)
qed

lemma buried_mono: "buried s l \<Longrightarrow> os_page t = os_page s \<Longrightarrow> dead (os_page s) (slots s) \<subseteq> dead (os_page s) (slots t) \<Longrightarrow> buried t l"
  by (auto simp: buried_def)

lemma bury:
  assumes "arena s" "x \<in> bufs (slots s)" "handed_out x l" "os_page t = os_page s" "slot_pages (os_page s) x \<subseteq> dead (os_page s) (slots t)"
  shows "buried t l"
  using user_range(1) [OF assms(1,2)] assms(3-5) by (auto simp: buried_def handed_out_def)

lemma free_outcome:
  assumes "good p c m" "k < length m"
  shows "outcome p c (serve (Free k) c) (drop_nth k m)"
    and "\<exists>c'. serve (Free k) c = Inr c'"
    and "serve (Free k) c = Inr c' \<Longrightarrow> i < snd (live c ! k) \<Longrightarrow> \<not> prot (heap c') ((fst (live c ! k) + i) div page p)"
proof -
  from assms(1) obtain xs where xs: "tracks (heap c) xs (live c) m" and o: "obeys p (heap c)" by (auto simp: good_def)
  note oD = obeysD [OF o] and S = good_slot [OF assms(1) xs assms(2)]
  let ?x = "xs ! k"
  from free_result [OF oD(1) S(3)] obtain t where t: "EF_free (fst (live c ! k)) (heap c) = Inr t" "loses (heap c) ?x t" "ready t"
    unfolding S(4) by blast
  then have ls: "settings t = settings (heap c)" "list_vars t = list_vars (heap c)" "bufs (slots t) = bufs (slots (heap c)) - {?x}"
    "\<forall>y \<in> bufs (slots (heap c)). y \<noteq> ?x \<longrightarrow> intact (heap c) t y" "\<forall>q \<in> slot_pages (os_page (heap c)) ?x. \<not> prot t q"
    "dead (os_page (heap c)) (slots t) = dead (os_page (heap c)) (slots (heap c)) \<union> (if EF_PROTECT_FREE (heap c) \<noteq> 0 then slot_pages (os_page (heap c)) ?x else {})"
    by (simp_all add: loses_def)
  have pg: "os_page t = os_page (heap c)" using settings_eqD(1) [OF ls(1)] .
  have run: "serve (Free k) c = Inr (c\<lparr>heap := t, live := drop_nth k (live c), gone := live c ! k # gone c\<rparr>)"
    using t(1) S(2) by (simp add: and_then_def)
  have tr: "distinct xs" "set xs = bufs (slots (heap c))" "list_all2 handed_out xs (live c)" "list_all2 (shows_as (heap c)) xs m"
    using xs by (simp_all add: tracks_def)
  note dn = drop_nth_set [OF tr(1) S(1)]
  have "list_all2 (shows_as t) (drop_nth k xs) (drop_nth k m)"
  proof (rule tracks_intact [OF oD(3)])
    show "set (drop_nth k xs) \<subseteq> bufs (slots (heap c))" using dn tr(2) by blast
    show "list_all2 (shows_as (heap c)) (drop_nth k xs) (drop_nth k m)" using drop_nth_rel [OF tr(4)] .
    show "\<forall>x \<in> set (drop_nth k xs). intact (heap c) t x" using dn tr(2) ls(4) by blast
  qed
  then have "tracks t (drop_nth k xs) (drop_nth k (live c)) (drop_nth k m)"
    using dn tr drop_nth_rel [OF tr(3)] ls(3) by (simp add: tracks_def)
  moreover have "forever p \<longrightarrow> list_all (buried t) (live c ! k # gone c)"
  proof
    assume f: "forever p"
    then have d: "dead (os_page (heap c)) (slots t) = dead (os_page (heap c)) (slots (heap c)) \<union> slot_pages (os_page (heap c)) ?x"
      using ls(6) o by (simp add: obeys_def)
    have "handed_out ?x (live c ! k)" using S(4,5) by (simp add: handed_out_def)
    from bury [OF oD(3) S(3) this pg] d have "buried t (live c ! k)" by simp
    moreover have "list_all (buried t) (gone c)"
      using assms(1) f buried_mono [OF _ pg] d by (auto simp: good_def list_all_iff)
    ultimately show "list_all (buried t) (live c ! k # gone c)" by simp
  qed
  ultimately have "good p (c\<lparr>heap := t, live := drop_nth k (live c), gone := live c ! k # gone c\<rparr>) (drop_nth k m)"
    using obeys_settings [OF o ls(1) t(3)] by (auto simp: good_def)
  then show "outcome p c (serve (Free k) c) (drop_nth k m)"
    using run list_vars_eqD(2) [OF ls(2)] by (simp add: outcome_def)
  show "\<exists>c'. serve (Free k) c = Inr c'" using run by blast
  assume "serve (Free k) c = Inr c'" "i < snd (live c ! k)"
  then show "\<not> prot (heap c') ((fst (live c ! k) + i) div page p)"
    using run ls(5) user_range(1) [OF oD(3) S(3), of i] S(4,5) oD(4) by auto
qed

lemma replace_set:
  assumes "distinct xs" "k < length xs" "y \<notin> set xs"
  shows "distinct (xs[k := y])" "set (xs[k := y]) = insert y (set xs - {xs ! k})"
  using assms by (simp_all add: distinct_list_update set_update_distinct)

lemma shows_resized:
  assumes "shows_as s x bs" "moved (userAddress x) (userSize x) (userAddress y) n (cells s) (cells t)" "userSize y = r" "n \<le> r"
  shows "shows_as t y (resized n bs @ replicate (r - n) None)"
proof -
  have l: "length bs = userSize x" "\<And>i. i < length bs \<Longrightarrow> bs ! i = None \<or> bs ! i = Some (cells s (userAddress x + i))"
    using assms(1) by (simp_all add: shows_as_def)
  have "length (resized n bs) = n" by (simp add: resized_def)
  moreover have "resized n bs ! i = None \<or> resized n bs ! i = Some (cells t (userAddress y + i))" if "i < n" for i
    using that l(2) [of i] assms(2) l(1) by (auto simp: resized_def nth_append moved_def)
  ultimately show ?thesis using assms(3,4) by (auto simp: shows_as_def nth_append)
qed

lemma realloc_outcome:
  assumes "good p c m" "k < length m" "allocationListSize (heap c) \<le> 2 ^ 29" "n \<le> 2 ^ 29" "n \<noteq> 0 \<or> zero_ok p"
  shows "outcome p c (serve (Realloc k n) c) (m[k := resized n (m ! k) @ replicate (rounded p (alignment p) n - n) None])"
proof -
  from assms(1) obtain xs where xs: "tracks (heap c) xs (live c) m" and o: "obeys p (heap c)" by (auto simp: good_def)
  note oD = obeysD [OF o] and S = good_slot [OF assms(1) xs assms(2)]
  let ?x = "xs ! k" and ?r = "rounded p (alignment p) n"
  have pol: "n \<noteq> 0 \<or> EF_ALLOW_MALLOC_0 (heap c) \<noteq> 0" "(EF_PROTECT_BELOW (heap c) \<noteq> 0) = below p" "malloc_alignment (heap c) = alignment p"
    using o assms(5) by (auto simp: obeys_def)
  note pr = padded_rounded [OF assms(4) alignment_le(1) [OF o] pol(2)]
  from realloc_result [OF oD(1) assms(3,4) pol(1) S(3), unfolded pol(3) pr(1) S(4)] show ?thesis
  proof
    assume "EF_realloc (fst (live c ! k)) n (heap c) = Inl (mmap_failed (heap c))"
    then show ?thesis using S(2) oD(5) by (simp add: outcome_def and_then_def)
  next
    assume "\<exists>a t y. EF_realloc (fst (live c ! k)) n (heap c) = Inr (a, t) \<and> userAddress y = a \<and> exchanges (heap c) ?x n ?r t y"
    then obtain t y where t: "EF_realloc (fst (live c ! k)) n (heap c) = Inr (userAddress y, t)" "exchanges (heap c) ?x n ?r t y" by blast
    then have e: "ready t" "settings t = settings (heap c)" "allocationListSize t \<le> allocationListSize (heap c) + os_page (heap c)"
      "bufs (slots t) = insert y (bufs (slots (heap c)) - {?x})" "y \<notin> bufs (slots (heap c))" "userSize y = ?r"
      "\<forall>z \<in> bufs (slots (heap c)). z \<noteq> ?x \<longrightarrow> intact (heap c) t z"
      "moved (userAddress ?x) (userSize ?x) (userAddress y) n (cells (heap c)) (cells t)"
      "dead (os_page (heap c)) (slots (heap c)) \<union> (if EF_PROTECT_FREE (heap c) \<noteq> 0 then slot_pages (os_page (heap c)) ?x else {}) \<subseteq> dead (os_page (heap c)) (slots t)"
      by (simp_all add: exchanges_def)
    have pg: "os_page t = os_page (heap c)" using settings_eqD(1) [OF e(2)] .
    let ?c = "c\<lparr>heap := t, live := (live c)[k := (userAddress y, n)], gone := live c ! k # gone c\<rparr>"
    have run: "serve (Realloc k n) c = Inr ?c" using t(1) S(2) by (simp add: and_then_def)
    have tr: "distinct xs" "set xs = bufs (slots (heap c))" "list_all2 handed_out xs (live c)" "list_all2 (shows_as (heap c)) xs m"
      using xs by (simp_all add: tracks_def)
    have rs: "distinct (xs[k := y])" "set (xs[k := y]) = bufs (slots t)" using replace_set [OF tr(1) S(1), of y] e(4,5) tr(2) by simp_all
    have new: "shows_as t y (resized n (m ! k) @ replicate (?r - n) None)" by (rule shows_resized [OF S(6) e(8,6) pr(2)])
    have "list_all2 (shows_as t) (xs[k := y]) (m[k := resized n (m ! k) @ replicate (?r - n) None])"
      unfolding list_all2_conv_all_nth
    proof (intro conjI allI impI)
      show "length (xs[k := y]) = length (m[k := resized n (m ! k) @ replicate (?r - n) None])" using list_all2_lengthD [OF tr(4)] by simp
      fix j assume j: "j < length (xs[k := y])"
      show "shows_as t (xs[k := y] ! j) (m[k := resized n (m ! k) @ replicate (?r - n) None] ! j)"
      proof (cases "j = k")
        case True
        then show ?thesis using new S(1) assms(2) by simp
      next
        case False
        have xj: "xs ! j \<in> bufs (slots (heap c))" using nth_mem [of j xs] j tr(2) by simp
        moreover have "xs ! j \<noteq> ?x" using False j S(1) tr(1) by (simp add: nth_eq_iff_index_eq)
        moreover have "shows_as (heap c) (xs ! j) (m ! j)" using tr(4) j by (simp add: list_all2_conv_all_nth)
        ultimately show ?thesis using shows_intact [OF oD(3) xj] e(7) False by simp
      qed
    qed
    moreover have "list_all2 handed_out (xs[k := y]) ((live c)[k := (userAddress y, n)])"
      using list_all2_update_cong [OF tr(3), of y "(userAddress y, n)" k] e(6) pr(2) by (simp add: handed_out_def)
    ultimately have "tracks t (xs[k := y]) ((live c)[k := (userAddress y, n)]) (m[k := resized n (m ! k) @ replicate (?r - n) None])"
      using rs by (simp add: tracks_def)
    moreover have "forever p \<longrightarrow> list_all (buried t) (live c ! k # gone c)"
    proof
      assume f: "forever p"
      then have d: "dead (os_page (heap c)) (slots (heap c)) \<subseteq> dead (os_page (heap c)) (slots t)" "slot_pages (os_page (heap c)) ?x \<subseteq> dead (os_page (heap c)) (slots t)"
        using e(9) o by (auto simp: obeys_def split: if_splits)
      have "handed_out ?x (live c ! k)" using S(4,5) by (simp add: handed_out_def)
      from bury [OF oD(3) S(3) this pg d(2)] have "buried t (live c ! k)" .
      moreover have "list_all (buried t) (gone c)" using assms(1) f buried_mono [OF _ pg d(1)] by (auto simp: good_def list_all_iff)
      ultimately show "list_all (buried t) (live c ! k # gone c)" by simp
    qed
    ultimately have "good p ?c (m[k := resized n (m ! k) @ replicate (?r - n) None])"
      using obeys_settings [OF o e(2,1)] by (auto simp: good_def)
    then show ?thesis using run e(3) oD(4) by (simp add: outcome_def)
  qed
qed

lemma store_outcome:
  assumes "good p c m" "k < length m" "i < length (m ! k)"
  shows "outcome p c (serve (Store k i v) c) (m[k := (m ! k)[i := Some v]])"
proof -
  from assms(1) obtain xs where xs: "tracks (heap c) xs (live c) m" and o: "obeys p (heap c)" by (auto simp: good_def)
  note oD = obeysD [OF o] and S = good_slot [OF assms(1) xs assms(2)]
  let ?s = "heap c" and ?x = "xs ! k"
  define d where "d = (cells ?s)(userAddress ?x + i := v)"
  have il: "i < userSize ?x" using S(6) assms(3) by (simp add: shows_as_def)
  have run: "serve (Store k i v) c = Inr (c\<lparr>heap := ?s\<lparr>cells := d\<rparr>\<rparr>)"
    using S(2,4) user_range(2) [OF oD(3) S(3) il] by (simp add: store_def and_then_def d_def)
  have tr: "distinct xs" "set xs = bufs (slots ?s)" "list_all2 handed_out xs (live c)" "list_all2 (shows_as ?s) xs m"
    using xs by (simp_all add: tracks_def)
  have "shows_as (?s\<lparr>cells := d\<rparr>) (xs ! j) (m[k := (m ! k)[i := Some v]] ! j)" if j: "j < length xs" for j
  proof (cases "j = k")
    case True
    then show ?thesis using S(6) assms(2,3) by (auto simp: shows_as_def d_def nth_list_update)
  next
    case False
    have xj: "xs ! j \<in> bufs (slots ?s)" using nth_mem [of j xs] j tr(2) by simp
    have ne: "?x \<noteq> xs ! j" using False j S(1) tr(1) by (simp add: nth_eq_iff_index_eq)
    have "intact ?s (?s\<lparr>cells := d\<rparr>) (xs ! j)"
      using il by (intro written_intact [OF oD(3) S(3) xj ne]) (auto simp: d_def)
    moreover have "shows_as ?s (xs ! j) (m ! j)" using tr(4) j by (simp add: list_all2_conv_all_nth)
    ultimately show ?thesis using shows_intact [OF oD(3) xj] False by simp
  qed
  then have "tracks (?s\<lparr>cells := d\<rparr>) xs (live c) (m[k := (m ! k)[i := Some v]])"
    using tr list_all2_lengthD [OF tr(4)] by (simp add: tracks_def list_all2_conv_all_nth)
  moreover have "obeys p (?s\<lparr>cells := d\<rparr>)" using obeys_settings [OF o] oD(1) by simp
  ultimately have "good p (c\<lparr>heap := ?s\<lparr>cells := d\<rparr>\<rparr>) (m[k := (m ! k)[i := Some v]])"
    using assms(1) by (auto simp: good_def list_all_iff buried_def)
  then show ?thesis using run by (simp add: outcome_def)
qed

lemma serve_outcome:
  assumes "good p c m" "allocationListSize (heap c) \<le> 2 ^ 29" "modest r" "spec p r m = Some m'"
  shows "outcome p c (serve r c) m'"
proof -
  have o: "obeys p (heap c)" using assms(1) by (simp add: good_def)
  note al = alignment_le [OF o]
  have b: "(EF_PROTECT_BELOW (heap c) \<noteq> 0) = below p" and bp: "bytesPerPage (heap c) = page p"
    using o obeysD(3,4) [OF o] by (simp_all add: obeys_def arena_def system_ok_def)
  have new: "outcome p c (keep_new n c (memalign a n (heap c))) m'"
    if "n \<le> 2 ^ 29" "a \<le> 2 ^ 20" "new_buffer p a n [] m = Some m'" for a n
    using outcome_new [OF assms(1) padded_rounded(2) [OF that(1,2) b] memalign_outcome [OF assms(1,2) that(1,2)]] that(3)
    by (simp add: new_buffer_Some)
  show ?thesis
  proof (cases r)
    case (Malloc n)
    then show ?thesis using new [of n "alignment p"] assms(3,4) al malloc_memalign [OF o] by simp
  next
    case (Calloc k n)
    then have "k * n \<le> 2 ^ 29" "k * n \<noteq> 0 \<or> zero_ok p"
      "m' = m @ [replicate (k * n) (Some 0) @ replicate (rounded p (alignment p) (k * n) - k * n) None]"
      using assms(3,4) by (auto simp: new_buffer_def split: if_splits)
    with outcome_new [OF assms(1) padded_rounded(2) [OF _ al(1) b] calloc_outcome [OF assms(1,2)]] Calloc show ?thesis by simp
  next
    case (Memalign a n)
    then show ?thesis using new [of n a] assms(3,4) by simp
  next
    case (Valloc n)
    then show ?thesis using new [of n "page p"] assms(3,4) al bp by (simp add: EF_valloc_def)
  next
    case (Realloc_null n)
    then show ?thesis using new [of n "alignment p"] assms(3,4) al realloc_null [OF o] by simp
  next
    case (Realloc k n)
    then have "k < length m" "n \<le> 2 ^ 29" "n \<noteq> 0 \<or> zero_ok p" "m' = m[k := resized n (m ! k) @ replicate (rounded p (alignment p) n - n) None]"
      using assms(3,4) by (auto split: if_splits)
    then show ?thesis using realloc_outcome [OF assms(1) _ assms(2), of k n] Realloc by (simp del: serve.simps)
  next
    case (Free k)
    then have "k < length m" "m' = drop_nth k m" using assms(4) by (simp_all split: if_splits)
    then show ?thesis using free_outcome(1) [OF assms(1), of k] Free by (simp del: serve.simps)
  next
    case (Store k i v)
    then have "k < length m" "i < length (m ! k)" "m' = m[k := (m ! k)[i := Some v]]" using assms(4) by (simp_all split: if_splits)
    then show ?thesis using store_outcome [OF assms(1), of k i v] Store by (simp del: serve.simps)
  qed
qed

lemma serve_all_append: "serve_all (xs @ ys) c = and_then (serve_all xs c) (serve_all ys)"
  by (induction xs arbitrary: c) (auto simp: and_then_def split: sum.split)

lemma spec_all_append: "spec_all p (xs @ ys) m = Option.bind (spec_all p xs m) (spec_all p ys)"
  by (induction xs arbitrary: m) (auto split: Option.bind_split)

lemma serve_all_good:
  assumes "good p c m" "allocationListSize (heap c) + page p * length rs \<le> 2 ^ 29" "list_all modest rs" "spec_all p rs m = Some m'"
  shows "serve_all rs c = Inl out_of_memory_exit \<or> (\<exists>c'. serve_all rs c = Inr c' \<and> good p c' m'
    \<and> allocationListSize (heap c') \<le> allocationListSize (heap c) + page p * length rs)"
  using assms
proof (induction rs arbitrary: c m)
  case (Cons r rs)
  then obtain m1 where m1: "spec p r m = Some m1" "spec_all p rs m1 = Some m'" by (auto split: Option.bind_splits)
  have "outcome p c (serve r c) m1" using Cons.prems m1(1) by (intro serve_outcome) simp_all
  then consider "serve r c = Inl out_of_memory_exit"
    | (ok) c1 where "serve r c = Inr c1" "good p c1 m1" "allocationListSize (heap c1) \<le> allocationListSize (heap c) + page p"
    by (auto simp: outcome_def)
  then show ?case
  proof cases
    case ok
    have "serve_all rs c1 = Inl out_of_memory_exit \<or> (\<exists>c'. serve_all rs c1 = Inr c' \<and> good p c' m'
        \<and> allocationListSize (heap c') \<le> allocationListSize (heap c1) + page p * length rs)"
      using Cons.prems(2,3) ok m1(2) by (intro Cons.IH) simp_all
    then show ?thesis using ok by (auto simp: and_then_def)
  qed (simp add: and_then_def)
qed simp

subsection \<open>From the first request on\<close>

text \<open>\<open>valloc\<close> reads the page size before it is set, so it is no good as the first request.\<close>

definition starts_well :: "request list \<Rightarrow> bool" where
  "starts_well rs = (case rs of Valloc n # _ \<Rightarrow> False | _ \<Rightarrow> True)"

lemma initial_good:
  assumes "initial env s" "os_page s = P" "os_error s = ''error''"
  shows "good (policy_of env P) \<lparr>heap = s, live = [], gone = []\<rparr> []"
  using assms by (auto simp: good_def obeys_def initial_def policy_of_def malloc_alignment_def tracks_def)

lemma first_request:
  fixes sem :: bool
  assumes "configured mm env P" "spec p r [] = Some m" "\<And>n. r \<noteq> Valloc n"
  defines "s0 \<equiv> process mm willing env sem P"
  shows "serve r \<lparr>heap = s0, live = [], gone = []\<rparr> = and_then (initialize s0) (\<lambda>s. serve r \<lparr>heap = s, live = [], gone = []\<rparr>)"
proof -
  have z: "ensure_initialized s0 = initialize s0" by (simp add: ensure_initialized_def s0_def process_def)
  consider e where "initialize s0 = Inl e" | s where "initialize s0 = Inr s" "ensure_initialized s = Inr s"
    using initialize_result [OF assms(1), of sem] ready_start by (auto simp: s0_def initial_def)
  then show ?thesis
  proof cases
    case 1
    then show ?thesis using assms(2,3) z
      by (cases r) (auto simp: keep_new_def and_then_def EF_malloc_def EF_calloc_def memalign_def EF_realloc_def Let_def split: if_splits)
  next
    case 2
    then show ?thesis using assms(2,3) z
      by (cases r) (auto simp: keep_new_def and_then_def EF_malloc_def EF_calloc_def memalign_def EF_realloc_def Let_def split: if_splits)
  qed
qed

lemma program_good:
  assumes "configured mm env P" "list_all modest rs" "starts_well rs" "P * (length rs + 1) \<le> 2 ^ 29" "spec_all (policy_of env P) rs [] = Some m" "rs \<noteq> []"
  shows "program mm willing env sem P rs = Inl out_of_memory_exit \<or> (\<exists>c. program mm willing env sem P rs = Inr c \<and> good (policy_of env P) c m
    \<and> allocationListSize (heap c) \<le> P * (length rs + 1))"
proof -
  define s0 where "s0 = process mm willing env sem P"
  obtain r rs' where rs: "rs = r # rs'" using assms(6) by (cases rs) auto
  have r: "\<And>n. r \<noteq> Valloc n" using assms(3) by (auto simp: starts_well_def rs)
  from assms(5) obtain m1 where m1: "spec (policy_of env P) r [] = Some m1" by (auto simp: rs split: Option.bind_splits)
  have start: "program mm willing env sem P rs = and_then (initialize s0) (\<lambda>s. serve_all rs \<lparr>heap = s, live = [], gone = []\<rparr>)"
    using first_request [OF assms(1) m1 r, of sem] by (auto simp: program_def rs s0_def and_then_def split: sum.split)
  from initialize_result [OF assms(1), of sem] show ?thesis
  proof
    assume "initialize (process mm willing env sem P) = Inl (mmap_failed (process mm willing env sem P)) \<and> mm 0 0 (round_pages P (2 ^ 20)) [] = None"
    then show ?thesis using start by (simp add: s0_def and_then_def mmap_failed_def out_of_memory_exit_def process_def)
  next
    assume "\<exists>s. initialize (process mm willing env sem P) = Inr s \<and> os_page s = P \<and> os_error s = ''error'' \<and> initial env s"
    then obtain s where s: "initialize s0 = Inr s" "os_page s = P" "os_error s = ''error''" "initial env s" by (auto simp: s0_def)
    let ?c = "\<lparr>heap = s, live = [], gone = []\<rparr>"
    have "allocationListSize (heap ?c) = P" "page (policy_of env P) = P" using s(2,4) by (simp_all add: initial_def policy_of_def)
    then show ?thesis
      using serve_all_good [OF initial_good [OF s(4,2,3)] _ assms(2,5)] assms(4) start s(1) by (auto simp: and_then_def)
  qed
qed

end
