(* ===== verification/Ef_Refuse.thy ===== *)
theory Ef_Refuse
  imports Ef_Client
begin

text \<open>
  A system that refuses \<open>mprotect\<close>. \<open>calm\<close> is the same process on a system that never does. Each operation of the allocator either ends the
  process with the message of \<open>mprotectFailed\<close>, or does what it does in the calm process, so that what is proved of a calm process
  holds of every process that has not ended with this message.
\<close>

subsection \<open>Two results\<close>

definition calm :: "fence \<Rightarrow> fence" where "calm s = s\<lparr>os_mprotect := willing\<rparr>"

text \<open>The process ended in \<open>mprotectFailed\<close>, with some text for the error number.\<close>

definition refused :: "'a result \<Rightarrow> bool" where
  "refused r \<longleftrightarrow> (\<exists>t. r = Inl (Ended (EF_Exit ''mprotect() failed: %s'' [Text t])))"

definition follows :: "('a \<Rightarrow> 'b) \<Rightarrow> 'a result \<Rightarrow> 'b result \<Rightarrow> bool" where
  "follows g r r' \<longleftrightarrow> refused r \<or> r' = map_sum id g r"

lemma refused_Inr [simp]: "\<not> refused (Inr x)"
  by (simp add: refused_def)

lemma refused_mprotectFailed [simp]: "refused (Inl (Ended (mprotectFailed s)))"
  by (auto simp: refused_def mprotectFailed_def)

lemma refused_and_then: "refused r \<Longrightarrow> refused (and_then r f)"
  by (auto simp: refused_def and_then_def)

lemma follows_bind:
  assumes "follows h r r'" "\<And>x. follows g (f x) (f' (h x))"
  shows "follows g (and_then r f) (and_then r' f')"
proof (cases "refused r")
  case True
  then show ?thesis by (simp add: follows_def refused_and_then)
next
  case False
  with assms(1) have "r' = map_sum id h r" by (simp add: follows_def)
  then show ?thesis using assms(2) by (cases r) (simp_all add: and_then_def follows_def)
qed

lemma follows_Inr [simp]: "follows g (Inr x) (Inr y) \<longleftrightarrow> y = g x"
  by (simp add: follows_def)

lemma follows_Inl [simp]: "follows g (Inl e) (Inl e)"
  by (simp add: follows_def)

lemma follows_abort [simp]: "follows g (abort_with m xs) (abort_with m xs)" "follows g (internal_error m) (internal_error m)"
  by (simp_all add: abort_with_def internal_error_def)

lemma follows_if: "(b \<Longrightarrow> follows g r r') \<Longrightarrow> (\<not> b \<Longrightarrow> follows g q q') \<Longrightarrow> follows g (if b then r else q) (if b then r' else q')"
  by simp

lemma follows_result:
  assumes "follows g r r'"
  shows "refused r \<or> (\<exists>e. r = Inl e \<and> r' = Inl e) \<or> (\<exists>x. r = Inr x \<and> r' = Inr (g x))"
  using assms by (cases r) (auto simp: follows_def)

lemma calm_fields [simp]:
  "os_page (calm s) = os_page s" "os_mmap (calm s) = os_mmap s" "os_error (calm s) = os_error s" "startAddr (calm s) = startAddr s"
  "mmaps (calm s) = mmaps s" "mapped (calm s) = mapped s" "prot (calm s) = prot s" "cells (calm s) = cells s" "environ (calm s) = environ s"
  "sem_usable (calm s) = sem_usable s" "printed (calm s) = printed s" "EF_DISABLE_BANNER (calm s) = EF_DISABLE_BANNER s"
  "EF_ALIGNMENT (calm s) = EF_ALIGNMENT s" "EF_PROTECT_FREE (calm s) = EF_PROTECT_FREE s" "EF_PROTECT_BELOW (calm s) = EF_PROTECT_BELOW s"
  "EF_ALLOW_MALLOC_0 (calm s) = EF_ALLOW_MALLOC_0 s" "EF_FILL (calm s) = EF_FILL s" "allocationList (calm s) = allocationList s"
  "allocationListSize (calm s) = allocationListSize s" "slots (calm s) = slots s" "unUsedSlots (calm s) = unUsedSlots s"
  "slotsPerPage (calm s) = slotsPerPage s" "internalUse (calm s) = internalUse s" "noAllocationListProtection (calm s) = noAllocationListProtection s"
  "pthread_initialization (calm s) = pthread_initialization s" "semEnabled (calm s) = semEnabled s" "EF_sem (calm s) = EF_sem s"
  "bytesPerPage (calm s) = bytesPerPage s" "os_mprotect (calm s) = willing"
  by (simp_all add: calm_def)

lemma calm_updates [simp]:
  "(calm s)\<lparr>prot := a\<rparr> = calm (s\<lparr>prot := a\<rparr>)" "(calm s)\<lparr>cells := b\<rparr> = calm (s\<lparr>cells := b\<rparr>)" "(calm s)\<lparr>mmaps := c\<rparr> = calm (s\<lparr>mmaps := c\<rparr>)"
  "(calm s)\<lparr>mapped := d\<rparr> = calm (s\<lparr>mapped := d\<rparr>)" "(calm s)\<lparr>startAddr := c\<rparr> = calm (s\<lparr>startAddr := c\<rparr>)"
  "(calm s)\<lparr>printed := e\<rparr> = calm (s\<lparr>printed := e\<rparr>)" "(calm s)\<lparr>EF_DISABLE_BANNER := i\<rparr> = calm (s\<lparr>EF_DISABLE_BANNER := i\<rparr>)"
  "(calm s)\<lparr>EF_ALIGNMENT := i\<rparr> = calm (s\<lparr>EF_ALIGNMENT := i\<rparr>)" "(calm s)\<lparr>EF_PROTECT_FREE := i\<rparr> = calm (s\<lparr>EF_PROTECT_FREE := i\<rparr>)"
  "(calm s)\<lparr>EF_PROTECT_BELOW := i\<rparr> = calm (s\<lparr>EF_PROTECT_BELOW := i\<rparr>)" "(calm s)\<lparr>EF_ALLOW_MALLOC_0 := i\<rparr> = calm (s\<lparr>EF_ALLOW_MALLOC_0 := i\<rparr>)"
  "(calm s)\<lparr>EF_FILL := i\<rparr> = calm (s\<lparr>EF_FILL := i\<rparr>)" "(calm s)\<lparr>allocationList := c\<rparr> = calm (s\<lparr>allocationList := c\<rparr>)"
  "(calm s)\<lparr>allocationListSize := c\<rparr> = calm (s\<lparr>allocationListSize := c\<rparr>)" "(calm s)\<lparr>slots := xs\<rparr> = calm (s\<lparr>slots := xs\<rparr>)"
  "(calm s)\<lparr>unUsedSlots := c\<rparr> = calm (s\<lparr>unUsedSlots := c\<rparr>)" "(calm s)\<lparr>slotsPerPage := c\<rparr> = calm (s\<lparr>slotsPerPage := c\<rparr>)"
  "(calm s)\<lparr>internalUse := p\<rparr> = calm (s\<lparr>internalUse := p\<rparr>)"
  "(calm s)\<lparr>noAllocationListProtection := p\<rparr> = calm (s\<lparr>noAllocationListProtection := p\<rparr>)" "(calm s)\<lparr>semEnabled := p\<rparr> = calm (s\<lparr>semEnabled := p\<rparr>)"
  "(calm s)\<lparr>EF_sem := c\<rparr> = calm (s\<lparr>EF_sem := c\<rparr>)" "(calm s)\<lparr>bytesPerPage := c\<rparr> = calm (s\<lparr>bytesPerPage := c\<rparr>)"
  by (simp_all add: calm_def)

lemma calm_views [simp]:
  "page_range (calm s) = page_range s" "page_mapped (calm s) = page_mapped s" "accessible (calm s) = accessible s" "list_open (calm s) = list_open s"
  "slotForUserAddress a (calm s) = slotForUserAddress a s" "slotForInternalAddress a (calm s) = slotForInternalAddress a s"
  "slotForInternalAddressPreviousTo a (calm s) = slotForInternalAddressPreviousTo a s" "padded_size (calm s) = padded_size s"
  "Page_Size (calm s) = Page_Size s" "stringErrorReport (calm s) = stringErrorReport s"
  by (auto simp: fun_eq_iff page_range_def page_mapped_def accessible_def list_open_def slotForUserAddress_def slotForInternalAddress_def
      slotForInternalAddressPreviousTo_def padded_size_def Page_Size_def stringErrorReport_def)

lemma calm_steps [simp]:
  "set_prot b a n (calm s) = calm (set_prot b a n s)" "fill_cells a n v (calm s) = calm (fill_cells a n v s)" "set_slot i f (calm s) = calm (set_slot i f s)"
  "absorb i j (calm s) = calm (absorb i j s)" "release (calm s) = calm (release s)" "read_settings (calm s) = calm (read_settings s)"
  "print_banner (calm s) = calm (print_banner s)" "claim_slot i j n (calm s) = calm (claim_slot i j n s)"
  by (simp_all add: set_prot_def fill_cells_def set_slot_def absorb_def release_def read_settings_def print_banner_def claim_slot_def Let_def cong: if_cong)

lemma calm_coalesce [simp]: "coalesce i p n (calm s) = map_prod id calm (coalesce i p n s)"
  by (auto simp: coalesce_def Let_def split: option.splits)

subsection \<open>The operations\<close>

lemma mprotect_calm:
  assumes "mprotect b a n s = Some t"
  shows "mprotect b a n (calm s) = Some (calm t)"
proof -
  let ?u = "s\<lparr>os_mprotect := (\<lambda>k. os_mprotect s (Suc k))\<rparr>"
  have "calm ?u = calm s" by (simp add: calm_def)
  moreover have "(calm s)\<lparr>os_mprotect := (\<lambda>k. willing (Suc k))\<rparr> = calm s" by (simp add: calm_def willing_def)
  moreover have "t = set_prot b a n ?u" using assms by (auto simp: mprotect_def split: if_splits)
  ultimately have "set_prot b a n ((calm s)\<lparr>os_mprotect := (\<lambda>k. willing (Suc k))\<rparr>) = calm t" by (metis calm_steps(1))
  moreover have "willing 0" by (simp add: willing_def)
  ultimately show ?thesis using assms by (auto simp: mprotect_def split: if_splits)
qed

lemma Page_access_follows:
  "follows calm (Page_AllowAccess a n s) (Page_AllowAccess a n (calm s))" "follows calm (Page_DenyAccess a n s) (Page_DenyAccess a n (calm s))"
proof -
  show "follows calm (Page_AllowAccess a n s) (Page_AllowAccess a n (calm s))"
    by (cases "mprotect True a n s") (simp_all add: Page_AllowAccess_def follows_def mprotect_calm)
  show "follows calm (Page_DenyAccess a n s) (Page_DenyAccess a n (calm s))"
    by (cases "mprotect False a n s") (simp_all add: Page_DenyAccess_def follows_def mprotect_calm)
qed

lemma Page_Delete_follows: "follows calm (Page_Delete a n s) (Page_Delete a n (calm s))"
  unfolding Page_Delete_def by (rule follows_bind [OF Page_access_follows(2)]) simp

lemma Page_Create_follows: "follows (map_prod id calm) (Page_Create n s) (Page_Create n (calm s))"
  by (simp add: Page_Create_def split: option.split)

lemma memset_follows: "follows calm (memset a v n s) (memset a v n (calm s))"
  by (simp add: memset_def)

lemma memcpy_follows: "follows calm (memcpy a b n s) (memcpy a b n (calm s))"
  by (simp add: memcpy_def cong: if_cong)

lemma lock_follows: "follows calm (lock s) (lock (calm s))"
  by (simp add: lock_def)

lemma with_list_follows: "follows g (f s) (f' (calm s)) \<Longrightarrow> follows g (with_list s f) (with_list (calm s) f')"
  by (simp add: with_list_def)

lemma open_list_follows:
  "follows calm (if b then Page_AllowAccess (allocationList s) (allocationListSize s) s else Inr s)
     (if b then Page_AllowAccess (allocationList s) (allocationListSize s) (calm s) else Inr (calm s))"
  "follows calm (if b then Page_DenyAccess (allocationList s) (allocationListSize s) s else Inr s)
     (if b then Page_DenyAccess (allocationList s) (allocationListSize s) (calm s) else Inr (calm s))"
  using Page_access_follows by simp_all

lemmas page_follows = Page_access_follows Page_Delete_follows Page_Create_follows memset_follows memcpy_follows lock_follows

text \<open>One rule for each kind of intermediate result: a state, an address with a state, and what \<open>memalign_slots\<close> passes on.\<close>

lemmas bind_state = follows_bind [where h = calm]

lemma bind_address:
  assumes "follows (map_prod id calm) r r'" "\<And>a s. follows g (f (a, s)) (f' (a, calm s))"
  shows "follows g (and_then r f) (and_then r' f')"
  using assms(2) by (intro follows_bind [OF assms(1)]) auto

lemma bind_choice:
  assumes "follows (map_prod id (map_prod id calm)) r r'" "\<And>i e s. follows g (f (i, e, s)) (f' (i, e, calm s))"
  shows "follows g (and_then r f) (and_then r' f')"
  using assms(2) by (intro follows_bind [OF assms(1)]) auto

lemmas binds = bind_state bind_address bind_choice

lemma free_slot_follows: "follows calm (free_slot i s) (free_slot i (calm s))"
  unfolding free_slot_def Let_def calm_fields calm_steps
  by (rule bind_state [OF Page_Delete_follows]) (simp split: prod.split)

lemma free_locked_follows: "follows calm (free_locked a s) (free_locked a (calm s))"
  unfolding free_locked_def
  by (auto simp: page_follows free_slot_follows intro!: bind_state with_list_follows split: option.split)

lemma EF_free_follows: "follows calm (EF_free a s) (EF_free a (calm s))"
  unfolding EF_free_def
  by (auto simp: lock_follows free_locked_follows intro!: bind_state)

lemma create_chunk_follows: "follows calm (create_chunk e n s) (create_chunk e n (calm s))"
  unfolding create_chunk_def Let_def
  by (auto simp: page_follows intro!: bind_address)

lemma live_pages_follows: "follows calm (live_pages a n s) (live_pages a n (calm s))"
  by (simp add: live_pages_def page_follows)

lemma place_buffer_follows: "follows (map_prod id calm) (place_buffer i k n s) (place_buffer i k n (calm s))"
  unfolding place_buffer_def Let_def
  by (auto simp: page_follows live_pages_follows intro!: bind_state)

lemma memalign_slots_follows: "follows (map_prod id calm) (memalign_slots k n s) (memalign_slots k n (calm s))"
  unfolding memalign_slots_def Let_def
  by (auto simp: page_follows create_chunk_follows place_buffer_follows intro!: binds with_list_follows split: option.split prod.split)

lemma memalign_with_follows:
  assumes "\<And>s. follows calm (grow s) (grow (calm s))"
  shows "follows (map_prod id calm) (memalign_with grow al n s) (memalign_with grow al n (calm s))"
  unfolding memalign_with_def Let_def
  by (auto simp: page_follows assms memalign_slots_follows intro!: bind_state)

lemma allocateMoreSlots_follows: "follows calm (allocateMoreSlots s) (allocateMoreSlots (calm s))"
  unfolding allocateMoreSlots_def Let_def
  by (auto simp: page_follows memalign_with_follows free_locked_follows intro!: binds)

lemma memalign_locked_follows: "follows (map_prod id calm) (memalign_locked al n s) (memalign_locked al n (calm s))"
  unfolding memalign_locked_def by (rule memalign_with_follows) (rule allocateMoreSlots_follows)

lemma arrange_follows: "follows calm (arrange n a s) (arrange n a (calm s))"
  unfolding arrange_def Let_def
  by (auto simp: page_follows intro!: bind_state)

lemma setup_arena_follows: "follows calm (setup_arena s) (setup_arena (calm s))"
  unfolding setup_arena_def Let_def
  by (auto simp: page_follows arrange_follows intro!: bind_address)

lemma initialize_follows: "follows calm (initialize s) (initialize (calm s))"
  unfolding initialize_def Let_def
  by (auto simp: lock_follows setup_arena_follows intro!: bind_state)

lemma ensure_initialized_follows: "follows calm (ensure_initialized s) (ensure_initialized (calm s))"
  by (simp add: ensure_initialized_def initialize_follows)

lemma memalign_follows: "follows (map_prod id calm) (memalign al n s) (memalign al n (calm s))"
  unfolding memalign_def
  by (auto simp: ensure_initialized_follows lock_follows memalign_locked_follows intro!: binds)

lemma EF_malloc_follows: "follows (map_prod id calm) (EF_malloc n s) (EF_malloc n (calm s))"
  unfolding EF_malloc_def
  by (auto simp: ensure_initialized_follows memalign_follows intro!: bind_state)

lemma EF_calloc_follows: "follows (map_prod id calm) (EF_calloc k n s) (EF_calloc k n (calm s))"
  unfolding EF_calloc_def Let_def
  by (auto simp: EF_malloc_follows page_follows intro!: binds)

lemma EF_valloc_follows: "follows (map_prod id calm) (EF_valloc n s) (EF_valloc n (calm s))"
  by (simp add: EF_valloc_def memalign_follows)

lemma copy_and_free_follows: "follows calm (copy_and_free old new n s) (copy_and_free old new n (calm s))"
  unfolding copy_and_free_def Let_def
  by (auto simp: page_follows free_locked_follows intro!: bind_state with_list_follows split: option.split)

lemma EF_realloc_follows: "follows (map_prod id calm) (EF_realloc old n s) (EF_realloc old n (calm s))"
  unfolding EF_realloc_def
  by (auto simp: ensure_initialized_follows lock_follows memalign_locked_follows copy_and_free_follows intro!: binds)

subsection \<open>Programs\<close>

definition calm_client :: "client \<Rightarrow> client" where
  "calm_client c = c\<lparr>heap := calm (heap c)\<rparr>"

lemma calm_client_fields [simp]:
  "heap (calm_client c) = calm (heap c)" "live (calm_client c) = live c" "gone (calm_client c) = gone c"
  by (simp_all add: calm_client_def)

lemma store_follows: "follows calm (store a v s) (store a v (calm s))"
  by (simp add: store_def)

lemma keep_new_follows: "follows (map_prod id calm) r r' \<Longrightarrow> follows calm_client (keep_new n c r) (keep_new n (calm_client c) r')"
  unfolding keep_new_def by (erule bind_address) (simp add: calm_client_def)

lemma serve_follows: "follows calm_client (serve r c) (serve r (calm_client c))"
proof (cases r)
  case (Realloc k n)
  then show ?thesis by (auto simp: calm_client_def EF_realloc_follows intro!: bind_address)
next
  case (Free k)
  then show ?thesis by (auto simp: calm_client_def EF_free_follows intro!: bind_state)
next
  case (Store k i v)
  then show ?thesis by (auto simp: calm_client_def store_follows intro!: bind_state)
qed (simp_all add: keep_new_follows EF_malloc_follows EF_calloc_follows memalign_follows EF_valloc_follows EF_realloc_follows)

lemma serve_all_follows: "follows calm_client (serve_all rs c) (serve_all rs (calm_client c))"
proof (induction rs arbitrary: c)
  case (Cons r rs)
  have "follows calm_client (and_then (serve r c) (serve_all rs)) (and_then (serve r (calm_client c)) (serve_all rs))"
    by (rule follows_bind [OF serve_follows]) (rule Cons.IH)
  then show ?case by simp
qed simp

lemma program_follows: "follows calm_client (program mm ans env sem P rs) (program mm willing env sem P rs)"
proof -
  have "process mm willing env sem P = calm (process mm ans env sem P)" by (simp add: process_def calm_def)
  then show ?thesis using serve_all_follows [of rs "\<lparr>heap = process mm ans env sem P, live = [], gone = []\<rparr>"]
    by (simp add: program_def calm_client_def)
qed

text \<open>A program ends in \<open>mprotectFailed\<close>, or as it does when the system never refuses.\<close>

lemma program_cases:
  obtains "refused (program mm ans env sem P rs)"
  | e where "program mm ans env sem P rs = Inl e" "program mm willing env sem P rs = Inl e"
  | c where "program mm ans env sem P rs = Inr c" "program mm willing env sem P rs = Inr (calm_client c)"
  using follows_result [OF program_follows] by blast

lemma program_calm: "program mm ans env sem P rs = Inr c \<Longrightarrow> program mm willing env sem P rs = Inr (calm_client c)"
  using program_follows [of mm ans env sem P rs] by (simp add: follows_def)

end
