(* ===== verification/Ef_Promises.thy ===== *)
theory Ef_Promises
  imports Ef_Sim Ef_Refuse
begin

text \<open>
  The promises of Electric Fence to a whole program: what it stores it reads back, the memory next to each buffer and the memory it has given
  back may not be accessed, and a wrong address is refused.
\<close>

text \<open>A reader's view of a buffer at \<open>a\<close>: every byte can be accessed, and has the value that is known.\<close>

definition presents :: "nat \<Rightarrow> fence \<Rightarrow> nat \<Rightarrow> u8 option list \<Rightarrow> bool" where
  "presents P s a bs \<longleftrightarrow> list_all (\<lambda>i. prot s ((a + i) div P) \<and> (bs ! i = None \<or> bs ! i = Some (cells s (a + i)))) [0..<length bs]"

definition faults :: "fence \<Rightarrow> nat \<Rightarrow> nat \<Rightarrow> bool" where
  "faults s a n \<longleftrightarrow> list_all (\<lambda>i. store (a + i) 0 s = Inl Fault) [0..<n]"

definition disjoint_buffers :: "nat \<Rightarrow> nat \<Rightarrow> nat \<Rightarrow> nat \<Rightarrow> bool" where
  "disjoint_buffers a n b m \<longleftrightarrow> a + n \<le> b \<or> b + m \<le> a \<or> n = 0 \<or> m = 0"

lemma faults_iff: "faults s a n \<longleftrightarrow> (\<forall>i < n. \<not> prot s ((a + i) div os_page s))"
  by (auto simp: faults_def store_def list_all_iff split: if_splits)

lemma good_presents:
  assumes "good p c m" "k < length m"
  shows "presents (page p) (heap c) (fst (live c ! k)) (m ! k)"
proof -
  from assms(1) obtain xs where xs: "tracks (heap c) xs (live c) m" and o: "obeys p (heap c)" by (auto simp: good_def)
  note oD = obeysD [OF o] and S = good_slot [OF assms(1) xs assms(2)]
  show ?thesis using S(4,6) user_range(2) [OF oD(3) S(3)] oD(4) by (simp add: presents_def list_all_iff shows_as_def)
qed

lemma good_length: "good p c m \<Longrightarrow> length (live c) = length m"
  by (auto simp: good_def tracks_def dest!: list_all2_lengthD)

lemma guard_pages:
  assumes "good p c m" "k < length m" "i < page p"
  shows "\<not> below p \<Longrightarrow> \<not> prot (heap c) ((fst (live c ! k) + length (m ! k) + i) div page p)"
    and "below p \<Longrightarrow> page p \<le> fst (live c ! k) \<and> \<not> prot (heap c) ((fst (live c ! k) - page p + i) div page p)"
proof -
  from assms(1) obtain xs where xs: "tracks (heap c) xs (live c) m" and o: "obeys p (heap c)" by (auto simp: good_def)
  note oD = obeysD [OF o] and S = good_slot [OF assms(1) xs assms(2)]
  let ?x = "xs ! k" and ?P = "page p"
  note b = buf_ok [OF oD(3) S(3), unfolded oD(4)]
  have bl: "(EF_PROTECT_BELOW (heap c) \<noteq> 0) = below p" using o by (simp add: obeys_def)
  have P: "0 < ?P" using arenaD(1) [OF oD(3)] oD(4) by simp
  have d: "?P dvd internalAddress ?x" "?P dvd internalSize ?x - ?P" using b(2) by (simp_all add: range_ok_def dvd_diff_nat)
  have len: "length (m ! k) = userSize ?x" using S(6) by (simp add: shows_as_def)
  show "\<not> prot (heap c) ((fst (live c ! k) + length (m ! k) + i) div ?P)" if "\<not> below p"
  proof -
    have "fst (live c ! k) + length (m ! k) = internalAddress ?x + (internalSize ?x - ?P)"
      and g: "\<forall>q \<in> pages ?P (internalAddress ?x + (internalSize ?x - ?P)) ?P. \<not> prot (heap c) q"
      using b(1) bl that S(4) len by (simp_all add: buffer_ok_def)
    moreover have "(internalAddress ?x + (internalSize ?x - ?P) + i) div ?P \<in> pages ?P (internalAddress ?x + (internalSize ?x - ?P)) ?P"
      using assms(3) d by (intro in_pages [OF P]) simp_all
    ultimately show ?thesis by simp
  qed
  assume "below p"
  then have e: "fst (live c ! k) = internalAddress ?x + ?P" and g: "\<forall>q \<in> pages ?P (internalAddress ?x) ?P. \<not> prot (heap c) q"
    using b(1) bl S(4) by (simp_all add: buffer_ok_def)
  have "(internalAddress ?x + i) div ?P \<in> pages ?P (internalAddress ?x) ?P" using assms(3) d by (intro in_pages [OF P]) simp_all
  with e g show "?P \<le> fst (live c ! k) \<and> \<not> prot (heap c) ((fst (live c ! k) - ?P + i) div ?P)" by simp
qed

lemma buffers_apart:
  assumes "good p c m" "j < length m" "k < length m" "j \<noteq> k"
  shows "disjoint_buffers (fst (live c ! j)) (length (m ! j)) (fst (live c ! k)) (length (m ! k))"
proof (rule ccontr)
  assume a: "\<not> ?thesis"
  from assms(1) obtain xs where xs: "tracks (heap c) xs (live c) m" and o: "obeys p (heap c)" by (auto simp: good_def)
  note oD = obeysD [OF o] and J = good_slot [OF assms(1) xs assms(2)] and K = good_slot [OF assms(1) xs assms(3)]
  let ?x = "xs ! j" and ?y = "xs ! k"
  have ne: "?x \<noteq> ?y" using xs J(1) K(1) assms(4) by (simp add: tracks_def nth_eq_iff_index_eq)
  have l: "length (m ! j) = userSize ?x" "length (m ! k) = userSize ?y" using J(6) K(6) by (simp_all add: shows_as_def)
  define z where "z = max (userAddress ?x) (userAddress ?y)"
  have "userAddress ?x + (z - userAddress ?x) = z" "z - userAddress ?x < userSize ?x"
    "userAddress ?y + (z - userAddress ?y) = z" "z - userAddress ?y < userSize ?y"
    using a J(4) K(4) l by (auto simp: disjoint_buffers_def z_def)
  then have "z div os_page (heap c) \<in> slot_pages (os_page (heap c)) ?x \<inter> slot_pages (os_page (heap c)) ?y"
    using user_range(1) [OF oD(3) J(3)] user_range(1) [OF oD(3) K(3)] by (metis IntI)
  then show False using held_apart [OF oD(3) buf_ok(3) [OF oD(3) J(3)] buf_ok(3) [OF oD(3) K(3)] ne] by blast
qed

lemma dead_closed: "arena s \<Longrightarrow> q \<in> dead (os_page s) (slots s) \<Longrightarrow> \<not> prot s q"
  by (drule arenaD(5)) (auto simp: dead_iff slots_ok_def slot_ok_def)

lemma buried_faults: "good p c m \<Longrightarrow> forever p \<Longrightarrow> list_all (\<lambda>(a, n). faults (heap c) a n) (gone c)"
  using obeysD(3) [of p "heap c"] dead_closed [of "heap c"] by (auto simp: good_def list_all_iff buried_def faults_iff)

subsection \<open>A small program\<close>

text \<open>The first buffer comes from the memory that the initialization has set aside.\<close>

lemma first_buffer:
  assumes "ready s" "7 \<le> unUsedSlots s" "i < length (slots s)" "fits q (slots s ! i)" "n \<le> 2 ^ 19" "0 < n" "al \<le> 2 ^ 18"
    "padded_size s al n + 2 * os_page s \<le> q"
  shows "\<exists>r. memalign al n s = Inr r"
proof -
  have q: "arena (taken s)" "\<not> noAllocationListProtection s" "\<not> internalUse s" using assms(1) by (simp_all add: ready_def quiet_def)
  note A = arenaD [OF q(1)]
  define m where "m = padded_size s al n"
  have m: "n \<le> m" "m \<le> n + al" using padded_bounds [of al n s] assms(5,7) by (simp_all add: m_def)
  have P: "0 < os_page s" "os_page s < 2 ^ 20" "bytesPerPage (taken s) = os_page s" using A(1,3,4) by (simp_all add: system_ok_def)
  define need where "need = round_pages (os_page s) (m + os_page s)"
  have "m + os_page s + os_page s < 2 ^ 64" using m assms(5,7) P(2) by simp
  note rp = round_pages_result [OF P(1) this, folded need_def]
  define s0 where "s0 = set_list_prot True (taken s)"
  have s0: "arena s0" "list_open s0" "slots s0 = slots s" "unUsedSlots s0 = unUsedSlots s" "os_page s0 = os_page s" "internalUse s0 = internalUse s"
    using set_list_prot_arena [OF q(1)] open_list [OF q(1)] by (simp_all add: s0_def)
  have "add64 m (bytesPerPage (taken s)) = m + os_page s" using P m assms(5,7) by simp
  then have start: "memalign_locked al n (taken s) = memalign_slots need m s0"
    using assms(2,6) q(2,3) list_calls(1) [OF q(1)] P(3) s0(4)
    by (simp add: memalign_locked_def memalign_with_def and_then_def Let_def m_def [symmetric] s0_def [symmetric] need_def)
  obtain full e0 e1 where sc: "scan need (slots s0) 0 None None None = (full, e0, e1)" by (metis prod_cases3)
  have "fits need (slots s ! i)" using assms(4,8) rp(3) by (simp add: fits_def m_def)
  then have "full \<noteq> None" using scan_result [OF sc] assms(3) s0(3) unfolding found_def best_def by (cases full) simp_all
  then obtain j k where "full = Some (j, k)" by (cases full) auto
  then have "\<exists>r. memalign_slots need m s0 = Inr r"
    using memalign_slots_fit [OF s0(1,2), of need m j k e0 e1] sc assms(2,6) s0(4,5) rp(1,2) m(1) by (auto simp: add.commute)
  then obtain a t where "memalign_locked al n (taken s) = Inr (a, t)" using start by auto
  then show ?thesis using ready_start [OF assms(1)] lock_ready [OF assms(1)] by (simp add: memalign_def and_then_def)
qed

text \<open>A system whose \<open>mmap\<close> hands out addresses above the last mapping, when they are free.\<close>

definition sample_mmap :: "nat \<Rightarrow> nat \<Rightarrow> nat \<Rightarrow> (nat \<times> nat) list \<Rightarrow> nat option" where
  "sample_mmap k h n ms =
     (let a = (case ms of [] \<Rightarrow> 65536 | (b, l) # _ \<Rightarrow> b + l)
      in if 4096 dvd a \<and> 0 < a \<and> a + n < 2 ^ 64 \<and> list_all (\<lambda>(b, l). b + l \<le> a) ms then Some a else None)"

abbreviation plain_env :: "string \<Rightarrow> int option" where "plain_env \<equiv> (\<lambda>v. None)"

lemma sample_configured: "configured sample_mmap plain_env 4096" "configured sample_mmap (plain_env(''EF_PROTECT_FREE'' \<mapsto> 1)) 4096"
proof -
  have "mmap_ok 4096 sample_mmap"
    by (auto simp: mmap_ok_def sample_mmap_def Let_def list_all_iff split: if_splits list.splits)
  then show "configured sample_mmap plain_env 4096" "configured sample_mmap (plain_env(''EF_PROTECT_FREE'' \<mapsto> 1)) 4096"
    by (simp_all add: configured_def env_value_def to_size_def)
qed

lemma sample_malloc:
  assumes "env = plain_env \<or> env = plain_env(''EF_PROTECT_FREE'' \<mapsto> 1)"
  shows "\<exists>c. program sample_mmap willing env sem 4096 [Malloc 10] = Inr c"
proof -
  have cf: "configured sample_mmap env 4096" using assms sample_configured by auto
  have "sample_mmap 0 0 (round_pages 4096 (2 ^ 20)) [] \<noteq> None" by (simp add: sample_mmap_def Let_def round_pages_def)
  then obtain s where s: "initialize (process sample_mmap willing env sem 4096) = Inr s" "os_page s = 4096" "initial env s"
    using initialize_result [OF cf, of sem] by auto
  have i: "ready s" "7 \<le> unUsedSlots s" "EF_ALIGNMENT s = 4" using s(3) assms by (auto simp: initial_def env_value_def)
  obtain j where j: "j < length (slots s)" "fits (2 ^ 20 - 4096) (slots s ! j)" using s(2,3) by (auto simp: initial_def)
  have al: "to_size (EF_ALIGNMENT s) = 4" using i(3) by (simp add: to_size_def)
  have "padded_size s 4 10 \<le> 14" using padded_bounds [of 4 10 s] by simp
  then have "\<exists>r. memalign 4 10 s = Inr r" using i(1,2) j s(2) by (intro first_buffer [of s j "2 ^ 20 - 4096"]) simp_all
  then obtain a t where "EF_malloc 10 s = Inr (a, t)" using ready_start [OF i(1)] al by (auto simp: EF_malloc_def and_then_def)
  then have "serve (Malloc 10) \<lparr>heap = s, live = [], gone = []\<rparr> = Inr \<lparr>heap = t, live = [(a, 10)], gone = []\<rparr>"
    by (simp add: keep_new_def and_then_def)
  moreover have "spec (policy_of env 4096) (Malloc 10) [] \<noteq> None" by (simp add: new_buffer_def)
  then obtain m where "spec (policy_of env 4096) (Malloc 10) [] = Some m" by auto
  ultimately show ?thesis using first_request [OF cf, of "policy_of env 4096" "Malloc 10" m sem] s(1)
    by (simp add: program_def and_then_def del: serve.simps)
qed

lemma sample_spec: "spec_all (policy_of env 4096) [Malloc 10] [] = Some [replicate 12 None]" "below (policy_of env 4096) = False"
  "spec_all (policy_of env 4096) [Malloc 10, Free 0] [] = Some []"
  if "env = plain_env \<or> env = plain_env(''EF_PROTECT_FREE'' \<mapsto> 1)" for env
  using that by (auto simp: new_buffer_def rounded_def policy_of_def env_value_def to_size_def drop_nth_def)

lemma sample_bounds: "list_all modest [Malloc 10]" "starts_well [Malloc 10]" "4096 * (length [Malloc 10] + 1) \<le> 2 ^ 29"
  by (simp_all add: starts_well_def)

lemma sample_free:
  assumes "env = plain_env \<or> env = plain_env(''EF_PROTECT_FREE'' \<mapsto> 1)"
  shows "\<exists>c a. program sample_mmap willing env sem 4096 [Malloc 10, Free 0] = Inr c \<and> live c = [] \<and> gone c = [(a, 10)]"
proof -
  obtain c where c: "program sample_mmap willing env sem 4096 [Malloc 10] = Inr c" using sample_malloc [OF assms] by blast
  have cf: "configured sample_mmap env 4096" using assms sample_configured by auto
  from program_good [OF cf sample_bounds sample_spec(1) [OF assms], of sem] c have g: "good (policy_of env 4096) c [replicate 12 None]" by auto
  from c obtain a where "live c = [(a, 10)]" "gone c = []"
    by (auto simp: program_def keep_new_def and_then_def split: sum.splits prod.splits)
  with free_outcome(2) [OF g, of 0] c show ?thesis
    by (auto simp: program_def and_then_def drop_nth_def split: sum.splits)
qed

text \<open>On a system that refuses every \<open>mprotect\<close> the first \<open>malloc\<close> already ends the program.\<close>

lemma sample_refusal: "refused (program sample_mmap (\<lambda>k. False) plain_env False 4096 [Malloc 10])"
  by (simp add: program_def keep_new_def EF_malloc_def ensure_initialized_def process_def initialize_def print_banner_def Let_def
      lock_def setup_arena_def read_settings_def Page_Create_def sample_mmap_def round_pages_def Page_Size_def sizeof_Slot_def MEMORY_CREATION_SIZE_def
      and_then_def arrange_def memset_def accessible_def page_range_def fill_cells_def set_prot_def Page_DenyAccess_def mprotect_def setting_def)

subsection \<open>The properties\<close>

text \<open>What a program can see does not depend on what the system will answer.\<close>

lemma calm_sight [simp]: "presents P (calm s) = presents P s" "faults (calm s) = faults s"
  by (auto simp: fun_eq_iff presents_def faults_iff)

lemma program_calm_good:
  assumes "configured mm env P" "list_all modest rs" "starts_well rs" "P * (length rs + 1) \<le> 2 ^ 29" "spec_all (policy_of env P) rs [] = Some m" "rs \<noteq> []"
    "program mm ans env sem P rs = Inr c"
  shows "good (policy_of env P) (calm_client c) m"
  using program_good [OF assms(1-6), of sem] program_calm [OF assms(7)] by simp


text \<open>
  C1. Refinement: a program that uses the allocator as the abstract memory allows either ends because \<open>mmap\<close> fails, or because the system refuses a
  call of \<open>mprotect\<close> for a range that is mapped (so it does not end in this way on a system that never refuses one), or holds exactly the
  buffers of the abstract memory, each of them accessible and with the contents that the abstract memory gives: what was stored
  last, zeros after \<open>calloc\<close>, and after \<open>realloc\<close> the old contents followed by zeros.
\<close>

theorem allocator_refines:
  assumes "configured mm env P" "list_all modest rs" "starts_well rs" "P * (length rs + 1) \<le> 2 ^ 29" "spec_all (policy_of env P) rs [] = Some m"
  shows "program mm ans env sem P rs = Inl out_of_memory_exit \<or> (refused (program mm ans env sem P rs) \<and> (\<exists>k. \<not> ans k)) \<or>
    (\<exists>c. program mm ans env sem P rs = Inr c \<and> length (live c) = length m \<and> (\<forall>k < length m. presents P (heap c) (fst (live c ! k)) (m ! k)))"
proof (cases "rs = []")
  case True
  then show ?thesis using assms(5) by (simp add: program_def)
next
  case False
  have "page (policy_of env P) = P" by (simp add: policy_of_def)
  with program_good [OF assms False, of sem] good_presents good_length
  consider "program mm willing env sem P rs = Inl out_of_memory_exit"
    | c where "program mm willing env sem P rs = Inr c" "length (live c) = length m" "\<forall>k < length m. presents P (heap c) (fst (live c ! k)) (m ! k)" by metis
  then have calm: "program mm willing env sem P rs = Inl out_of_memory_exit \<or> (\<exists>c. program mm willing env sem P rs = Inr c
      \<and> length (live c) = length m \<and> (\<forall>k < length m. presents P (heap c) (fst (live c ! k)) (m ! k)))" by cases auto
  show ?thesis
  proof (cases "ans = willing")
    case True
    show ?thesis unfolding True using calm by blast
  next
    case False
    then have "\<exists>k. \<not> ans k" by (auto simp: willing_def fun_eq_iff)
    with calm show ?thesis by (cases rule: program_cases [of mm ans env sem P rs]) auto
  qed
qed

theorem allocator_refines_witness:
  "\<exists>c. program sample_mmap willing plain_env False 4096 [Malloc 10, Store 0 3 7] = Inr c
     \<and> presents 4096 (heap c) (fst (live c ! 0)) (replicate 3 None @ [Some 7] @ replicate 8 None)"
proof -
  let ?rs = "[Malloc 10, Store 0 3 7]"
  obtain c where c: "program sample_mmap willing plain_env False 4096 [Malloc 10] = Inr c" using sample_malloc by blast
  from program_good [OF sample_configured(1) sample_bounds sample_spec(1), of False] c
  have g: "good (policy_of plain_env 4096) c [replicate 12 None]" by auto
  have "outcome (policy_of plain_env 4096) c (serve (Store 0 3 7) c) ([replicate 12 None][0 := ([replicate 12 None] ! 0)[3 := Some 7]])"
    using store_outcome [OF g, of 0 3 7] by simp
  moreover have "serve (Store 0 3 7) c \<noteq> Inl out_of_memory_exit"
    by (simp add: store_def and_then_def out_of_memory_exit_def)
  ultimately obtain c' where c': "serve (Store 0 3 7) c = Inr c'" unfolding outcome_def by blast
  have "program sample_mmap willing plain_env False 4096 ([Malloc 10] @ [Store 0 3 7]) = Inr c'"
    unfolding program_def serve_all_append using c [unfolded program_def] c' by (simp add: and_then_def del: serve.simps)
  then have run: "program sample_mmap willing plain_env False 4096 ?rs = Inr c'" by simp
  have sp: "spec_all (policy_of plain_env 4096) ?rs [] = Some [replicate 3 None @ [Some 7] @ replicate 8 None]"
  proof -
    have "(replicate 12 None)[3 := Some 7] = replicate 3 None @ [Some 7] @ replicate 8 (None :: u8 option)" by (simp add: numeral_eq_Suc)
    moreover have "spec_all (policy_of plain_env 4096) ([Malloc 10] @ [Store 0 3 7]) [] = Some [(replicate 12 None)[3 := Some 7]]"
      unfolding spec_all_append using sample_spec(1) [of plain_env] by simp
    ultimately show ?thesis by simp
  qed
  have b: "list_all modest ?rs" "starts_well ?rs" "4096 * (length ?rs + 1) \<le> 2 ^ 29" by (simp_all add: starts_well_def)
  from allocator_refines [OF sample_configured(1) b sp, of willing False] run
  have "\<forall>k < length [replicate 3 None @ [Some 7] @ replicate 8 None].
      presents 4096 (heap c') (fst (live c' ! k)) ([replicate 3 None @ [Some 7] @ replicate 8 None] ! k)" by simp
  from this [rule_format, of 0] run show ?thesis by (auto simp del: replicate.simps)
qed

text \<open>
  C2. Safety: the page after each buffer (the page before it, when \<open>EF_PROTECT_BELOW\<close> is set) may not be accessed, so that the first byte beyond
  the rounded size faults, and no two buffers overlap.
\<close>

theorem allocator_guards:
  assumes "configured mm env P" "list_all modest rs" "starts_well rs" "P * (length rs + 1) \<le> 2 ^ 29" "spec_all (policy_of env P) rs [] = Some m"
    "program mm ans env sem P rs = Inr c" "k < length m"
  shows "faults (heap c) (if below (policy_of env P) then fst (live c ! k) - P else fst (live c ! k) + length (m ! k)) P
    \<and> (\<forall>j < length m. j \<noteq> k \<longrightarrow> disjoint_buffers (fst (live c ! j)) (length (m ! j)) (fst (live c ! k)) (length (m ! k)))"
proof -
  have "rs \<noteq> []" using assms(5,7) by auto
  note g = program_calm_good [OF assms(1-5) this assms(6)]
  have p: "page (policy_of env P) = P" by (simp add: policy_of_def)
  then have os: "os_page (heap c) = P" using g by (auto simp: good_def obeys_def)
  have "faults (heap c) (if below (policy_of env P) then fst (live c ! k) - P else fst (live c ! k) + length (m ! k)) P"
    using guard_pages [OF g assms(7), unfolded p calm_client_fields calm_fields] by (cases "below (policy_of env P)") (simp_all only: faults_iff os if_True if_False, blast+)
  then show ?thesis using buffers_apart [OF g _ assms(7)] by simp
qed

theorem allocator_guards_witness:
  "\<exists>c. program sample_mmap willing plain_env False 4096 [Malloc 10] = Inr c \<and> faults (heap c) (fst (live c ! 0) + 12) 4096"
proof -
  obtain c where c: "program sample_mmap willing plain_env False 4096 [Malloc 10] = Inr c" using sample_malloc by blast
  with allocator_guards [OF sample_configured(1) sample_bounds sample_spec(1) c, of 0] sample_spec(2) show ?thesis by simp
qed

text \<open>
  C5. Safety: memory that was just freed may not be accessed; with \<open>EF_PROTECT_FREE\<close> no memory that was ever given back, by \<open>free\<close> or by
  \<open>realloc\<close>, can be accessed again.
\<close>

theorem freed_memory_faults:
  assumes "configured mm env P" "list_all modest (rs @ [Free k])" "starts_well (rs @ [Free k])" "P * (length (rs @ [Free k]) + 1) \<le> 2 ^ 29"
    "spec_all (policy_of env P) (rs @ [Free k]) [] = Some m" "program mm ans env sem P (rs @ [Free k]) = Inr c"
  shows "(\<exists>a n. hd (gone c) = (a, n) \<and> faults (heap c) a n)
    \<and> (forever (policy_of env P) \<longrightarrow> list_all (\<lambda>(a, n). faults (heap c) a n) (gone c))"
proof -
  let ?p = "policy_of env P"
  from assms(5) obtain m1 where m1: "spec_all ?p rs [] = Some m1" "k < length m1" "m = drop_nth k m1"
    by (auto simp: spec_all_append split: Option.bind_splits if_splits)
  have ne: "rs \<noteq> []" using m1 by auto
  have pre: "list_all modest rs" "starts_well rs" "P * (length rs + 1) \<le> 2 ^ 29"
    using assms(2,3,4) ne by (auto simp: starts_well_def neq_Nil_conv split: request.splits)
  from assms(6) obtain c1 where c1: "program mm ans env sem P rs = Inr c1" "serve (Free k) c1 = Inr c"
    by (auto simp: program_def serve_all_append and_then_def split: sum.splits)
  note g1 = program_calm_good [OF assms(1) pre m1(1) ne c1(1)]
  have p: "page ?p = P" by (simp add: policy_of_def)
  have "rs @ [Free k] \<noteq> []" by simp
  note g = program_calm_good [OF assms(1-5) this assms(6)]
  have c2: "serve (Free k) (calm_client c1) = Inr (calm_client c)" using serve_follows [of "Free k" c1] c1(2) by (simp add: follows_def del: serve.simps)
  have os: "os_page (heap c) = P" using g p by (auto simp: good_def obeys_def)
  obtain a n where an: "live c1 ! k = (a, n)" by (cases "live c1 ! k")
  have "k < length (live c1)" using good_length [OF g1] m1(2) by simp
  then have "hd (gone c) = (a, n)" using c1(2) an by (auto simp: and_then_def split: sum.splits)
  moreover have "faults (heap c) a n" using free_outcome(3) [OF g1 m1(2) c2] an os p by (simp add: faults_iff)
  ultimately show ?thesis using buried_faults [OF g] by simp
qed

theorem freed_memory_faults_witness:
  "\<exists>c a. program sample_mmap willing (plain_env(''EF_PROTECT_FREE'' \<mapsto> 1)) False 4096 [Malloc 10, Free 0] = Inr c \<and> gone c = [(a, 10)] \<and> faults (heap c) a 10"
proof -
  let ?env = "plain_env(''EF_PROTECT_FREE'' \<mapsto> 1)"
  obtain c a where c: "program sample_mmap willing ?env False 4096 ([Malloc 10] @ [Free 0]) = Inr c" "gone c = [(a, 10)]"
    using sample_free [of ?env False] by auto
  have "spec_all (policy_of ?env 4096) ([Malloc 10] @ [Free 0]) [] = Some []"
    using sample_spec(3) [of ?env] by simp
  from freed_memory_faults [OF sample_configured(2) _ _ _ this c(1)] c show ?thesis by (auto simp: starts_well_def)
qed

text \<open>
  C30. Error behaviour: \<open>free\<close> of any address that the program does not hold (one already freed, one inside a buffer, one of another allocator)
  ends the program with one of two messages, or with that of \<open>mprotectFailed\<close> when the system refuses to open the list of slots.
\<close>

theorem free_bad_address_aborts:
  assumes "configured mm env P" "list_all modest rs" "starts_well rs" "P * (length rs + 1) \<le> 2 ^ 29" "spec_all (policy_of env P) rs [] = Some m"
    "program mm ans env sem P rs = Inr c" "rs \<noteq> []" "a \<noteq> 0" "a \<notin> fst ` set (live c)"
  shows "EF_free a (heap c) = Inl (Ended (EF_Abort ''free(%a): address not from malloc().'' [pointer a]))
    \<or> EF_free a (heap c) = Inl (Ended (EF_Abort ''free(%a): freeing free memory.'' [pointer a]))
    \<or> (refused (EF_free a (heap c)) \<and> (\<exists>k. \<not> os_mprotect (heap c) k))"
proof -
  note g = program_calm_good [OF assms(1-5,7,6)]
  then obtain xs where xs: "tracks (calm (heap c)) xs (live c) m" and o: "obeys (policy_of env P) (calm (heap c))" by (auto simp: good_def)
  have sx: "bufs (slots (calm (heap c))) = set xs" using xs by (simp add: tracks_def)
  have "\<forall>x \<in> bufs (slots (calm (heap c))). userAddress x \<noteq> a" unfolding sx
  proof
    fix x assume "x \<in> set xs"
    then obtain i where "i < length xs" "xs ! i = x" by (auto simp: in_set_conv_nth)
    then have "fst (live c ! i) = userAddress x" "i < length (live c)" using xs by (auto simp: tracks_def handed_out_def list_all2_conv_all_nth)
    then show "userAddress x \<noteq> a" using assms(9) by (metis image_eqI nth_mem)
  qed
  note bad = free_refused [OF obeysD(1) [OF o] assms(8) this]
  show ?thesis
  proof (cases "os_mprotect (heap c) = willing")
    case True
    then have e: "calm (heap c) = heap c" by (simp add: calm_def)
    show ?thesis using bad unfolding e by blast
  next
    case False
    then have "\<exists>k. \<not> os_mprotect (heap c) k" by (auto simp: willing_def fun_eq_iff)
    moreover have "refused (EF_free a (heap c)) \<or> (\<exists>e. EF_free a (heap c) = Inl e \<and> EF_free a (calm (heap c)) = Inl e)"
      using follows_result [OF EF_free_follows [of a "heap c"]] bad by auto
    ultimately show ?thesis using bad by auto
  qed
qed

theorem free_bad_address_aborts_witness:
  "\<exists>c. program sample_mmap willing plain_env False 4096 [Malloc 10, Free 0] = Inr c
     \<and> (EF_free 77824 (heap c) = Inl (Ended (EF_Abort ''free(%a): address not from malloc().'' [pointer 77824]))
       \<or> EF_free 77824 (heap c) = Inl (Ended (EF_Abort ''free(%a): freeing free memory.'' [pointer 77824])))"
proof -
  obtain c where c: "program sample_mmap willing plain_env False 4096 [Malloc 10, Free 0] = Inr c" "live c = []" using sample_free by blast
  have "c = calm_client c" using program_calm [OF c(1)] c(1) by simp
  then have "os_mprotect (heap c) = willing" by (metis calm_client_fields(1) calm_fields(29))
  then have "os_mprotect (heap c) k" for k by (simp add: willing_def)
  moreover from free_bad_address_aborts [OF sample_configured(1) _ _ _ sample_spec(3) c(1), of 77824] c
  have "EF_free 77824 (heap c) = Inl (Ended (EF_Abort ''free(%a): address not from malloc().'' [pointer 77824]))
    \<or> EF_free 77824 (heap c) = Inl (Ended (EF_Abort ''free(%a): freeing free memory.'' [pointer 77824]))
    \<or> (refused (EF_free 77824 (heap c)) \<and> (\<exists>k. \<not> os_mprotect (heap c) k))" by (simp add: starts_well_def)
  ultimately show ?thesis using c(1) by blast
qed


end
