(* ===== verification/Cm_Symbols.thy ===== *)
theory Cm_Symbols
  imports Prelude
begin

text \<open>
  The queues of values that the test framework cmocka (\<open>cmocka/cmocka.c\<close>) keeps under the names of functions and parameters.

  A \<open>ListNode\<close> list is a HOL list of its nodes, and a node in it what stands before and behind it. A node holds either a value, with the number of
  times it is to be returned (-1 always, -2 at most once), or a symbol with a list of its own; the code tells them apart only by the depth
  it expects, so a node of the wrong kind is a wrong cast and gives \<open>None\<close>.
\<close>

subsection \<open>Definitions\<close>

datatype 'v node = Value 'v int | Symbol string "'v node list"

definition WILL_RETURN_ALWAYS :: int where "WILL_RETURN_ALWAYS = - 1"
definition WILL_RETURN_ONCE :: int where "WILL_RETURN_ONCE = - 2"

fun refcount :: "'v node \<Rightarrow> int" where
  "refcount (Value v c) = c"
| "refcount (Symbol s cs) = 1"

text \<open>\<open>list_find\<close> with \<open>symbol_names_match\<close>: the inner \<open>None\<close> is the result 0.\<close>

fun list_find :: "string \<Rightarrow> 'v node list \<Rightarrow> ('v node list \<times> 'v node list \<times> 'v node list) option option" where
  "list_find s [] = Some None"
| "list_find s (Value v c # ns) = None"
| "list_find s (Symbol t cs # ns) =
     (if t = s then Some (Some ([], cs, ns))
      else map_option (map_option (\<lambda>(xs, ds, ys). (Symbol t cs # xs, ds, ys))) (list_find s ns))"

fun add_symbol_value :: "string list \<Rightarrow> 'v \<Rightarrow> int \<Rightarrow> 'v node list \<Rightarrow> 'v node list option" where
  "add_symbol_value [] v c ns = None"
| "add_symbol_value (s # names) v c ns =
     (case list_find s ns of
        None \<Rightarrow> None
      | Some found \<Rightarrow>
          (case (case found of None \<Rightarrow> (ns, [], []) | Some place \<Rightarrow> place) of (xs, cs, ys) \<Rightarrow>
             if names = [] then Some (xs @ Symbol s (cs @ [Value v c]) # ys)
             else map_option (\<lambda>cs. xs @ Symbol s cs # ys) (add_symbol_value names v c cs)))"

text \<open>
  The result has the old count (0 when there is no value), the value, the symbols reported as missing, and the list that is left. \<open>None\<close> is also
  the failure of \<open>assert_true\<close> on a symbol with an empty list.
\<close>

fun get_symbol_value :: "string list \<Rightarrow> 'v node list \<Rightarrow> (int \<times> 'v option \<times> string list \<times> 'v node list) option" where
  "get_symbol_value [] ns = None"
| "get_symbol_value (s # names) ns =
     (case list_find s ns of
        None \<Rightarrow> None
      | Some None \<Rightarrow> Some (0, None, [s], ns)
      | Some (Some (xs, cs, ys)) \<Rightarrow>
          (case
            (if names = []
             then (case cs of
                 Value v c # rest \<Rightarrow>
                   Some (c, Some v, [],
                     if c - 1 = 0 then rest else if c > WILL_RETURN_ONCE then Value v (c - 1) # rest else Value v c # rest)
               | _ \<Rightarrow> None)
             else get_symbol_value names cs) of
             None \<Rightarrow> None
           | Some (rc, out, missing, cs) \<Rightarrow> Some (rc, out, missing, xs @ (if cs = [] then [] else [Symbol s cs]) @ ys)))"

fun remove_always_return_values_from_list :: "'v node list \<Rightarrow> 'v node list" where
  "remove_always_return_values_from_list [] = []"
| "remove_always_return_values_from_list (n # ns) =
     (if refcount n < - 1 then remove_always_return_values_from_list ns else n # remove_always_return_values_from_list ns)"

function remove_always_return_values :: "nat \<Rightarrow> 'v node list \<Rightarrow> 'v node list option" where
  "remove_always_return_values 0 ns = None"
| "remove_always_return_values (Suc d) [] = Some []"
| "remove_always_return_values (Suc d) (Value v c # ns) = None"
| "remove_always_return_values (Suc d) (Symbol s cs # ns) = do {
     cs \<leftarrow> (if cs = [] then Some cs
           else if d = 0 then Some (if refcount (hd cs) < - 1 then tl cs else cs)
           else remove_always_return_values d cs);
     ns \<leftarrow> remove_always_return_values (Suc d) ns;
     Some (if cs = [] then ns else Symbol s cs # ns) }"
  by pat_completeness auto

termination
  by (relation "measures [fst, length \<circ> snd]") auto

text \<open>The number of symbols with values left.\<close>

fun check_for_leftover_values :: "'v node list \<Rightarrow> nat option" where
  "check_for_leftover_values [] = Some 0"
| "check_for_leftover_values (Value v c # ns) = None"
| "check_for_leftover_values (Symbol s cs # ns) = map_option ((+) (if cs \<noteq> [] then 1 else 0)) (check_for_leftover_values ns)"

subsection \<open>Typed lists\<close>

text \<open>Lists of a depth: values at depth 0, above them symbols with different names and something below each.\<close>

fun node_name :: "'v node \<Rightarrow> string" where
  "node_name (Value v c) = []"
| "node_name (Symbol s cs) = s"

primrec typed :: "nat \<Rightarrow> 'v node list \<Rightarrow> bool" where
  "typed 0 ns \<longleftrightarrow> list_all (\<lambda>n. case n of Value v c \<Rightarrow> c \<noteq> 0 | Symbol s cs \<Rightarrow> False) ns"
| "typed (Suc d) ns \<longleftrightarrow> list_all (\<lambda>n. case n of Value v c \<Rightarrow> False | Symbol s cs \<Rightarrow> cs \<noteq> [] \<and> typed d cs) ns \<and> distinct (map node_name ns)"

lemma typed_Cons:
  "typed (Suc d) (n # ns) \<longleftrightarrow> (\<exists>s cs. n = Symbol s cs \<and> cs \<noteq> [] \<and> typed d cs \<and> s \<notin> node_name ` set ns) \<and> typed (Suc d) ns"
  by (cases n) auto

lemma typed_append:
  "typed (Suc d) (xs @ ys) \<longleftrightarrow> typed (Suc d) xs \<and> typed (Suc d) ys \<and> node_name ` set xs \<inter> node_name ` set ys = {}"
  by auto

lemma typed_place:
  "typed (Suc d) (xs @ Symbol s cs # ys) \<longleftrightarrow>
     typed (Suc d) (xs @ ys) \<and> cs \<noteq> [] \<and> typed d cs \<and> s \<notin> node_name ` set xs \<and> s \<notin> node_name ` set ys"
  by auto

text \<open>The queue of a path of symbols.\<close>

definition vals :: "'v node list \<Rightarrow> ('v \<times> int) list" where
  "vals ns = concat (map (\<lambda>n. case n of Value v c \<Rightarrow> [(v, c)] | Symbol s cs \<Rightarrow> []) ns)"

fun queue :: "string list \<Rightarrow> 'v node list \<Rightarrow> ('v \<times> int) list" where
  "queue [] ns = vals ns"
| "queue (s # names) ns = (case list_find s ns of Some (Some (xs, cs, ys)) \<Rightarrow> queue names cs | _ \<Rightarrow> [])"

lemma list_find_absent: "typed (Suc d) ns \<Longrightarrow> s \<notin> node_name ` set ns \<Longrightarrow> list_find s ns = Some None"
  by (induction s ns rule: list_find.induct) auto

lemma list_find_place:
  "typed (Suc d) xs \<Longrightarrow> s \<notin> node_name ` set xs \<Longrightarrow> list_find s (xs @ Symbol s cs # ys) = Some (Some (xs, cs, ys))"
  by (induction s xs rule: list_find.induct) auto

lemma typed_Nil [simp]: "typed d []"
  by (cases d) simp_all

declare typed.simps(2) [simp del]

lemma list_find_cases:
  assumes "typed (Suc d) ns"
  obtains (absent) "list_find s ns = Some None" "s \<notin> node_name ` set ns"
  | (found) xs cs ys where "list_find s ns = Some (Some (xs, cs, ys))" "ns = xs @ Symbol s cs # ys" "s \<notin> node_name ` set xs"
      "s \<notin> node_name ` set ys" "cs \<noteq> []" "typed d cs" "typed (Suc d) (xs @ ys)"
proof (cases "s \<in> node_name ` set ns")
  case True
  then obtain n where n: "n \<in> set ns" "node_name n = s" by auto
  then obtain xs ys where ns: "ns = xs @ n # ys" using split_list by fast
  with assms n obtain cs where "n = Symbol s cs" by (cases n) (auto simp: typed.simps(2))
  with ns assms have p: "ns = xs @ Symbol s cs # ys" "typed (Suc d) (xs @ Symbol s cs # ys)" by simp_all
  then have q: "typed (Suc d) (xs @ ys)" "cs \<noteq> []" "typed d cs" "s \<notin> node_name ` set xs" "s \<notin> node_name ` set ys"
    unfolding typed_place by auto
  moreover have "typed (Suc d) xs" using q(1) unfolding typed_append by blast
  ultimately show thesis using found list_find_place p(1) by metis
next
  case False
  then show thesis using absent list_find_absent [OF assms] by blast
qed

text \<open>Another symbol of the list is found in it as before, whatever the list of this one becomes.\<close>

lemma list_find_other:
  assumes "typed (Suc d) (xs @ ys)" "t \<noteq> s"
  shows "(case list_find t (xs @ Symbol s cs # ys) of Some (Some (a, ds, b)) \<Rightarrow> Some ds | _ \<Rightarrow> None) =
    (case list_find t (xs @ ys) of Some (Some (a, ds, b)) \<Rightarrow> Some ds | _ \<Rightarrow> None)"
  using assms by (induction t xs rule: list_find.induct) (auto simp: typed_Cons split: option.splits)

lemma queue_Cons_child: "queue (t # names) ns = (case (case list_find t ns of Some (Some (a, ds, b)) \<Rightarrow> Some ds | _ \<Rightarrow> None) of None \<Rightarrow> [] | Some ds \<Rightarrow> queue names ds)"
  by (simp split: option.splits prod.splits)

lemma queue_other:
  assumes "typed (Suc d) (xs @ ys)" "t \<noteq> s"
  shows "queue (t # names) (xs @ Symbol s cs # ys) = queue (t # names) (xs @ ys)"
  unfolding queue_Cons_child list_find_other [OF assms] ..

lemma queue_same:
  assumes "typed (Suc d) (xs @ ys)" "s \<notin> node_name ` set xs"
  shows "queue (s # names) (xs @ Symbol s cs # ys) = queue names cs"
proof -
  have "typed (Suc d) xs" using assms(1) unfolding typed_append by blast
  then show ?thesis using list_find_place [of d xs s cs ys] assms(2) by simp
qed

lemma queue_absent: "typed (Suc d) ns \<Longrightarrow> s \<notin> node_name ` set ns \<Longrightarrow> queue (s # names) ns = []"
  by (simp add: list_find_absent)

lemma queue_empty_list: "queue names [] = []"
  by (cases names) (simp_all add: vals_def)

lemma vals_append [simp]: "vals (xs @ ys) = vals xs @ vals ys"
  by (simp add: vals_def)

lemma vals_Value [simp]: "vals (Value v c # ns) = (v, c) # vals ns" "vals [] = []"
  by (simp_all add: vals_def)

text \<open>Adding puts the value at the end of its queue and leaves every other queue alone.\<close>

definition same_but :: "string list \<Rightarrow> 'v node list \<Rightarrow> 'v node list \<Rightarrow> bool" where
  "same_but names ns ns' \<longleftrightarrow> (\<forall>m. length m = length names \<longrightarrow> m \<noteq> names \<longrightarrow> queue m ns' = queue m ns)"

lemma same_but_place:
  assumes "typed (Suc d) (xs @ ys)" "s \<notin> node_name ` set xs" "s \<notin> node_name ` set ys"
    "\<And>m. length m = length names \<Longrightarrow> m \<noteq> names \<Longrightarrow> queue m cs' = queue m cs"
  shows "same_but (s # names) (xs @ Symbol s cs # ys) (xs @ Symbol s cs' # ys)"
  unfolding same_but_def
proof (intro allI impI)
  fix m assume m: "length m = length (s # names)" "m \<noteq> s # names"
  then obtain t ms where t: "m = t # ms" by (cases m) auto
  show "queue m (xs @ Symbol s cs' # ys) = queue m (xs @ Symbol s cs # ys)"
  proof (cases "t = s")
    case True
    then show ?thesis using m assms(4) [of ms] unfolding t by (simp only: queue_same [OF assms(1,2)]) simp
  next
    case False
    then show ?thesis by (simp only: t queue_other [OF assms(1) False])
  qed
qed

lemma same_but_gone:
  assumes "typed (Suc d) (xs @ ys)" "s \<notin> node_name ` set xs" "s \<notin> node_name ` set ys"
    "\<And>m. length m = length names \<Longrightarrow> m \<noteq> names \<Longrightarrow> queue m cs = []"
  shows "same_but (s # names) (xs @ Symbol s cs # ys) (xs @ ys)" "same_but (s # names) (xs @ ys) (xs @ Symbol s cs # ys)"
proof -
  have "queue m (xs @ ys) = queue m (xs @ Symbol s cs # ys)" if m: "length m = length (s # names)" "m \<noteq> s # names" for m
  proof -
    from m obtain t ms where t: "m = t # ms" by (cases m) auto
    show ?thesis
    proof (cases "t = s")
      case True
      have "queue (s # ms) (xs @ ys) = []" using assms(2,3) by (intro queue_absent [OF assms(1)]) auto
      moreover have "queue (s # ms) (xs @ Symbol s cs # ys) = queue ms cs" using assms(1,2) by (rule queue_same)
      moreover have "queue ms cs = []" using assms(4) m t True by simp
      ultimately show ?thesis using t True by simp
    next
      case False
      then show ?thesis by (simp only: t queue_other [OF assms(1) False])
    qed
  qed
  then show "same_but (s # names) (xs @ Symbol s cs # ys) (xs @ ys)" "same_but (s # names) (xs @ ys) (xs @ Symbol s cs # ys)"
    unfolding same_but_def by metis+
qed

lemma add_result:
  assumes "names \<noteq> []" "typed (length names) ns" "c \<noteq> 0"
  shows "\<exists>ns'. add_symbol_value names v c ns = Some ns' \<and> typed (length names) ns' \<and> ns' \<noteq> []
    \<and> queue names ns' = queue names ns @ [(v, c)] \<and> same_but names ns ns'"
  using assms
proof (induction names v c ns rule: add_symbol_value.induct)
  case (2 s names v c ns)
  have ty: "typed (Suc (length names)) ns" using "2.prems"(2) by simp
  obtain xs cs ys where p: "(case list_find s ns of Some None \<Rightarrow> (ns, [], []) | Some (Some place) \<Rightarrow> place | None \<Rightarrow> ([], [], [])) = (xs, cs, ys)"
      "list_find s ns \<noteq> None" "typed (Suc (length names)) (xs @ ys)" "s \<notin> node_name ` set xs" "s \<notin> node_name ` set ys" "typed (length names) cs"
    and ns: "ns = (if cs = [] then xs @ ys else xs @ Symbol s cs # ys)"
    using ty
  proof (cases rule: list_find_cases [of _ ns s, case_names absent found])
    case absent
    have "typed (length names) ([] :: 'a node list)" by (cases "length names") simp_all
    then show thesis using that [of ns "[]" "[]"] absent ty by simp
  next
    case (found xs cs ys)
    then show thesis using that [of xs cs ys] by simp
  qed
  have q: "queue (s # names) ns = queue names cs"
  proof (cases "cs = []")
    case True
    then show ?thesis using ns queue_absent [OF p(3), of s names] p(4,5) by (auto simp: queue_empty_list)
  qed (use ns queue_same [OF p(3,4)] in simp)
  have others: "same_but (s # names) ns (xs @ Symbol s cs' # ys)"
    if "\<And>m. length m = length names \<Longrightarrow> m \<noteq> names \<Longrightarrow> queue m cs' = queue m cs" for cs'
  proof (cases "cs = []")
    case True
    then show ?thesis using ns same_but_gone(2) [OF p(3,4,5)] that by (simp add: queue_empty_list)
  qed (use ns same_but_place [OF p(3,4,5) that] in simp)
  have new: "typed (Suc (length names)) (xs @ Symbol s cs' # ys)" if "typed (length names) cs'" "cs' \<noteq> []" for cs'
    unfolding typed_place using p that by blast
  show ?case
  proof (cases "names = []")
    case True
    have "typed (length names) (cs @ [Value v c])" using p(6) "2.prems"(3) True by simp
    moreover have "add_symbol_value (s # names) v c ns = Some (xs @ Symbol s (cs @ [Value v c]) # ys)"
      using p(1,2) True by (auto split: option.splits)
    moreover have "queue (s # names) (xs @ Symbol s (cs @ [Value v c]) # ys) = queue (s # names) ns @ [(v, c)]"
      unfolding q queue_same [OF p(3,4)] using True by simp
    moreover have "same_but (s # names) ns (xs @ Symbol s (cs @ [Value v c]) # ys)" using True by (intro others) simp
    ultimately show ?thesis using new by simp
  next
    case False
    have IH: "\<exists>cs'. add_symbol_value names v c cs = Some cs' \<and> typed (length names) cs' \<and> cs' \<noteq> []
        \<and> queue names cs' = queue names cs @ [(v, c)] \<and> same_but names cs cs'"
    proof (cases "list_find s ns")
      case (Some found)
      then show ?thesis using "2.IH" [OF Some _ _ False False p(6) "2.prems"(3)] p(1) by (cases found) auto
    qed (use p(2) in simp)
    then obtain cs' where cs': "add_symbol_value names v c cs = Some cs'" "typed (length names) cs'" "cs' \<noteq> []"
      "queue names cs' = queue names cs @ [(v, c)]" "same_but names cs cs'" by blast
    have "add_symbol_value (s # names) v c ns = Some (xs @ Symbol s cs' # ys)" using p(1,2) False cs'(1) by (auto split: option.splits)
    moreover have "queue (s # names) (xs @ Symbol s cs' # ys) = queue (s # names) ns @ [(v, c)]"
      unfolding q queue_same [OF p(3,4)] by (rule cs'(4))
    moreover have "same_but (s # names) ns (xs @ Symbol s cs' # ys)" using cs'(5) by (intro others) (simp add: same_but_def)
    ultimately show ?thesis using new [OF cs'(2,3)] by simp
  qed
qed simp

text \<open>Taking the next value.\<close>

fun served :: "('v \<times> int) list \<Rightarrow> ('v \<times> int) list" where
  "served [] = []"
| "served ((v, c) # q) = (if c = 1 then q else if c > - 2 then (v, c - 1) # q else (v, c) # q)"

lemma put_back:
  assumes "typed (Suc (length names)) (xs @ ys)" "s \<notin> node_name ` set xs" "s \<notin> node_name ` set ys"
    "typed (length names) cs'" "same_but names cs cs'"
  shows "typed (Suc (length names)) (xs @ (if cs' = [] then [] else [Symbol s cs']) @ ys)"
    "queue (s # names) (xs @ (if cs' = [] then [] else [Symbol s cs']) @ ys) = queue names cs'"
    "same_but (s # names) (xs @ Symbol s cs # ys) (xs @ (if cs' = [] then [] else [Symbol s cs']) @ ys)"
proof -
  have o: "queue m cs' = queue m cs" if "length m = length names" "m \<noteq> names" for m using assms(5) that by (simp add: same_but_def)
  show "typed (Suc (length names)) (xs @ (if cs' = [] then [] else [Symbol s cs']) @ ys)"
    using assms(1-4) typed_place [of "length names" xs s cs' ys] by simp
  show "queue (s # names) (xs @ (if cs' = [] then [] else [Symbol s cs']) @ ys) = queue names cs'"
    using queue_same [OF assms(1,2), of names cs'] queue_absent [OF assms(1), of s names] assms(2,3) by (auto simp: queue_empty_list)
  show "same_but (s # names) (xs @ Symbol s cs # ys) (xs @ (if cs' = [] then [] else [Symbol s cs']) @ ys)"
  proof (cases "cs' = []")
    case True
    have "queue m cs = []" if "length m = length names" "m \<noteq> names" for m using o [OF that] True by (simp add: queue_empty_list)
    then show ?thesis using same_but_gone(1) [OF assms(1-3), of names cs] True by simp
  qed (use same_but_place [OF assms(1-3) o] in simp)
qed

lemma get_result:
  assumes "names \<noteq> []" "typed (length names) ns"
  shows "case queue names ns of
      [] \<Rightarrow> \<exists>s. get_symbol_value names ns = Some (0, None, [s], ns)
    | (v, c) # q \<Rightarrow> c \<noteq> 0 \<and> (\<exists>ns'. get_symbol_value names ns = Some (c, Some v, [], ns') \<and> typed (length names) ns'
        \<and> queue names ns' = served (queue names ns) \<and> same_but names ns ns')"
  using assms
proof (induction names ns rule: get_symbol_value.induct)
  case (2 s names ns)
  from "2.prems"(2) have ty: "typed (Suc (length names)) ns" by simp
  then show ?case
  proof (cases rule: list_find_cases [of _ ns s, case_names absent found])
    case (found xs cs ys)
    note placed = put_back [OF found(7,3,4), of _ cs]
    show ?thesis
    proof (cases "names = []")
      case True
      then obtain v c rest where cs: "cs = Value v c # rest" "c \<noteq> 0" "typed 0 rest"
        using found(5,6) by (cases cs) (auto split: node.splits)
      let ?cs = "if c - 1 = 0 then rest else if c > - 2 then Value v (c - 1) # rest else Value v c # rest"
      have ty': "typed (length names) ?cs" using cs True by auto
      have "same_but names cs ?cs" using True by (simp add: same_but_def)
      note new = placed [OF ty' this]
      let ?ns = "xs @ (if ?cs = [] then [] else [Symbol s ?cs]) @ ys"
      have "get_symbol_value (s # names) ns = Some (c, Some v, [], ?ns)"
        using True cs(1) found(1) by (simp add: WILL_RETURN_ONCE_def)
      moreover have "queue (s # names) ns = (v, c) # vals rest" using found(1) True cs(1) by simp
      moreover have "queue names ?cs = served ((v, c) # vals rest)" using True by simp
      ultimately show ?thesis using new cs(2) unfolding found(2) [symmetric] by (simp del: queue.simps get_symbol_value.simps served.simps)
    next
      case False
      have q: "queue (s # names) ns = queue names cs" using found(1) by simp
      have IH: "case queue names cs of
          [] \<Rightarrow> \<exists>s. get_symbol_value names cs = Some (0, None, [s], cs)
        | (v, c) # q \<Rightarrow> c \<noteq> 0 \<and> (\<exists>ns'. get_symbol_value names cs = Some (c, Some v, [], ns') \<and> typed (length names) ns'
            \<and> queue names ns' = served (queue names cs) \<and> same_but names cs ns')"
        using "2.IH" [OF found(1)] found(6) False by simp
      show ?thesis
      proof (cases "queue names cs")
        case Nil
        with IH obtain t where "get_symbol_value names cs = Some (0, None, [t], cs)" by auto
        then show ?thesis using q Nil False found(1,2,5) by simp
      next
        case (Cons e r)
        obtain v c where e: "e = (v, c)" by (cases e)
        with IH Cons obtain cs' where c: "c \<noteq> 0" "get_symbol_value names cs = Some (c, Some v, [], cs')" "typed (length names) cs'"
          "queue names cs' = served (queue names cs)" "same_but names cs cs'" by auto
        from placed [OF c(3,5)] show ?thesis using q Cons e False found(1,2) c(1,2,4) by simp
      qed
    qed
  qed simp
qed simp

subsection \<open>What is left at the end\<close>

text \<open>A queue whose values have all been returned as often as they must: nothing is left, or one value that may be returned always and has been.\<close>

definition finished :: "('v \<times> int) list \<Rightarrow> bool" where
  "finished q \<longleftrightarrow> (case q of [] \<Rightarrow> True | (v, c) # r \<Rightarrow> c < - 1 \<and> r = [])"

lemma typed_no_queues:
  "typed (Suc d) ns \<Longrightarrow> ns = [] \<longleftrightarrow> (\<forall>names. length names = Suc d \<longrightarrow> queue names ns = [])"
proof (induction d arbitrary: ns)
  case 0
  show ?case
  proof
    assume all: "\<forall>names. length names = Suc 0 \<longrightarrow> queue names ns = []"
    show "ns = []"
    proof (cases ns)
      case (Cons n ms)
      with 0 obtain s cs where "n = Symbol s cs" "cs \<noteq> []" "typed 0 cs" by (auto simp: typed_Cons)
      then have "queue [s] ns \<noteq> []" using Cons by (cases cs) (auto split: node.splits)
      moreover have "queue [s] ns = []" by (rule all [rule_format]) simp
      ultimately show ?thesis by simp
    qed
  qed (simp add: queue_empty_list)
next
  case (Suc d)
  show ?case
  proof
    assume all: "\<forall>names. length names = Suc (Suc d) \<longrightarrow> queue names ns = []"
    show "ns = []"
    proof (cases ns)
      case (Cons n ms)
      with Suc.prems obtain s cs where n: "n = Symbol s cs" "cs \<noteq> []" "typed (Suc d) cs" by (auto simp: typed_Cons)
      with Suc.IH obtain names where m: "length names = Suc d" "queue names cs \<noteq> []" by blast
      then have "length (s # names) = Suc (Suc d)" by simp
      with all have "queue (s # names) ns = []" by blast
      moreover have "queue (s # names) ns = queue names cs" using Cons n(1) by simp
      ultimately show ?thesis using m(2) by simp
    qed
  qed (simp add: queue_empty_list)
qed

lemma leftover_count: "typed (Suc d) ns \<Longrightarrow> check_for_leftover_values ns = Some (length ns)"
  by (induction ns rule: check_for_leftover_values.induct) (auto simp: typed_Cons)

text \<open>Removing what has been returned once takes such a value from the front of every queue.\<close>

fun cleared :: "('v \<times> int) list \<Rightarrow> ('v \<times> int) list" where
  "cleared [] = []"
| "cleared ((v, c) # q) = (if c < - 1 then q else (v, c) # q)"

lemma cleared_finished: "cleared q = [] \<longleftrightarrow> finished q"
  by (cases q rule: cleared.cases) (simp_all add: finished_def)

lemma remove_result:
  assumes "typed (Suc d) ns"
  shows "\<exists>ns'. remove_always_return_values (Suc d) ns = Some ns' \<and> typed (Suc d) ns' \<and> node_name ` set ns' \<subseteq> node_name ` set ns
    \<and> (\<forall>names. length names = Suc d \<longrightarrow> queue names ns' = cleared (queue names ns))"
  using assms
proof (induction "Suc d" ns arbitrary: d rule: remove_always_return_values.induct)
  case (2 d)
  show ?case by (simp add: queue_empty_list)
next
  case (3 d v c ns)
  then show ?case by (simp add: typed_Cons)
next
  case (4 d s cs ns)
  then have p: "cs \<noteq> []" "typed d cs" "s \<notin> node_name ` set ns" "typed (Suc d) ns" by (auto simp: typed_Cons)
  obtain cs' where cs': "typed d cs'" "\<And>names. length names = d \<Longrightarrow> queue names cs' = cleared (queue names cs)"
    "(if cs = [] then Some cs else if d = 0 then Some (if refcount (hd cs) < - 1 then tl cs else cs) else remove_always_return_values d cs) = Some cs'"
  proof (cases d)
    case 0
    obtain v c rest where cs: "cs = Value v c # rest" "typed 0 rest"
      using p(1,2) 0 by (cases cs) (auto split: node.splits)
    show thesis using that [of "if refcount (hd cs) < - 1 then tl cs else cs"] p(1,2) 0 cs by auto
  next
    case (Suc e)
    from "4.hyps"(1) [OF p(1) _ Suc] p(2) Suc obtain ds where "remove_always_return_values d cs = Some ds" "typed d ds"
      "\<And>names. length names = d \<Longrightarrow> queue names ds = cleared (queue names cs)" by auto
    then show thesis using that p(1) Suc by simp
  qed
  from "4.hyps"(2) [OF cs'(3) p(4)] obtain ns' where ns': "remove_always_return_values (Suc d) ns = Some ns'" "typed (Suc d) ns'"
    "node_name ` set ns' \<subseteq> node_name ` set ns" "\<And>names. length names = Suc d \<Longrightarrow> queue names ns' = cleared (queue names ns)" by auto
  let ?r = "if cs' = [] then ns' else Symbol s cs' # ns'"
  have "remove_always_return_values (Suc d) (Symbol s cs # ns) = Some ?r" using cs'(3) ns'(1) by simp
  moreover have fresh: "s \<notin> node_name ` set ns'" using ns'(3) p(3) by blast
  moreover have "typed (Suc d) ?r" using ns'(2) cs'(1) fresh by (simp add: typed_Cons)
  moreover have "queue names ?r = cleared (queue names (Symbol s cs # ns))" if len: "length names = Suc d" for names
  proof -
    obtain t m where t: "names = t # m" "length m = d" using len by (cases names) auto
    show ?thesis
    proof (cases "t = s")
      case True
      have "queue (s # m) ?r = queue m cs'"
        using queue_absent [OF ns'(2) fresh, of m] by (simp add: queue_empty_list)
      then show ?thesis using True t cs'(2) by simp
    next
      case False
      have "queue (t # m) (Symbol s ds # ms) = queue (t # m) ms" if "typed (Suc d) ms" for ds ms :: "'a node list"
        using queue_other [of d "[]" ms t s m ds] that False by (simp del: queue.simps)
      then show ?thesis using ns'(2,4) p(4) t len by (simp del: queue.simps)
    qed
  qed
  moreover have "node_name ` set ?r \<subseteq> node_name ` set (Symbol s cs # ns)" using ns'(3) by auto
  ultimately show ?case by blast
qed

text \<open>The check at the end of a test counts no symbol exactly when every queue is finished.\<close>

lemma leftover_result:
  assumes "typed (Suc d) ns"
  shows "\<exists>ns' n. remove_always_return_values (Suc d) ns = Some ns' \<and> typed (Suc d) ns' \<and> check_for_leftover_values ns' = Some n
    \<and> (n = 0 \<longleftrightarrow> (\<forall>names. length names = Suc d \<longrightarrow> finished (queue names ns)))"
proof -
  from remove_result [OF assms] obtain ns' where ns': "remove_always_return_values (Suc d) ns = Some ns'" "typed (Suc d) ns'"
    "\<forall>names. length names = Suc d \<longrightarrow> queue names ns' = cleared (queue names ns)" by blast
  then have "ns' = [] \<longleftrightarrow> (\<forall>names. length names = Suc d \<longrightarrow> finished (queue names ns))"
    using typed_no_queues [OF ns'(2)] by (simp add: cleared_finished)
  then show ?thesis using ns'(1,2) leftover_count [OF ns'(2)] by auto
qed

lemma list_cleanup: "remove_always_return_values_from_list ns = filter (\<lambda>n. \<not> refcount n < - 1) ns"
  by (induction ns) auto

end
