(* ===== verification/Cm_State.thy ===== *)
theory Cm_State
  imports Cm_Symbols
begin

text \<open>
  The state of the test framework cmocka and the ways in which a call leaves it.

  The static variables of \<open>cmocka.c\<close> are the fields of a record. A call returns a value, or ends in one of the ways of \<open>failure\<close>; \<open>longjmp\<close> out of a
  test is \<open>Test_Left\<close>. What \<open>cm_print_error\<close> is called with is recorded as a list of messages, one for each call, by the format and its
  arguments.
\<close>

type_synonym location = "string option \<times> int"

text \<open>One constructor for each format that is printed.\<close>

datatype message =
    Not_Equal u64 u64 | Equal u64 u64
  | Set_Error u64 bool "u64 list"
  | Not_In_Range u64 u64 u64 | In_Range u64 u64 u64
  | Strings_Differ string string | Strings_Equal string string
  | Byte_Differs nat u8 u8 | Bytes_Differ nat | Bytes_Same nat
  | No_Entries string
  | No_Mock_Value location string | Previous_Mock_At location | No_Previous_Mock
  | Check_Failed location string string location
  | No_Expected_Value location string string | Previous_Parameter_At location | No_Previous_Parameter
  | No_Matching_Call location string | Wrong_Call location string string | No_Call_Expected location string
  | Non_Returned_Values string | Not_Checked string | Symbol_Prefix string | Not_Called string | Remaining_At location
  | Expression string | Negative string | Negative_Errno string u64
  | Assert_Failed string
  | Guard_Corrupt location nat nat location nat
  | Blocks_Allocated | Block_At location nat | Leaked string nat
  | Failure_At location | Skipped_At location
  | Setup_Failed | Teardown_Failed

datatype failure = Test_Left | Assert_Jump | Exited int | Aborted | Undefined

text \<open>What a parameter is checked against: the \<open>check_value\<close> functions with the data that they are registered with.\<close>

datatype check =
    Check_Any
  | Check_Value u64 | Check_Not_Value u64
  | Check_In_Set "u64 list" | Check_Not_In_Set "u64 list"
  | Check_In_Range u64 u64 | Check_Not_In_Range u64 u64
  | Check_String u64 | Check_Not_String u64
  | Check_Memory bytes | Check_Not_Memory bytes

record symbol_value =
  sv_location :: location
  sv_value :: u64

record check_event =
  ev_location :: location
  parameter_name :: string
  check_value :: check

record ordering_value =
  ord_location :: location
  ord_function :: string

text \<open>A block of \<open>test_malloc\<close>: the address that the user has, and the fields of \<open>MallocBlockInfo\<close>.\<close>

record block_info =
  user_ptr :: nat
  block :: nat
  allocated_size :: nat
  block_size :: nat
  block_location :: location

record cm =
  function_results :: "symbol_value node list"
  last_mock_location :: location
  function_parameters :: "check_event node list"
  last_parameter_location :: location
  call_ordering :: "ordering_value node list"
  last_call_ordering_location :: location
  allocated_blocks :: "block_info list"
  heap :: "nat \<Rightarrow> u8"
  running_test :: bool
  skip_test :: bool
  expecting_assert :: bool
  assert_env :: bool
  last_failed_assert :: "string option"
  test_abort :: bool
  error_message :: "message list"

type_synonym 'a call = "cm \<Rightarrow> (failure + 'a) \<times> cm"

definition return :: "'a \<Rightarrow> 'a call" where
  "return x s = (Inr x, s)"

definition followed_by :: "'a call \<Rightarrow> ('a \<Rightarrow> 'b call) \<Rightarrow> 'b call" where
  "followed_by f g s = (case f s of (Inl e, s) \<Rightarrow> (Inl e, s) | (Inr x, s) \<Rightarrow> g x s)"

definition undefined_call :: "'a call" where
  "undefined_call s = (Inl Undefined, s)"

definition modify :: "(cm \<Rightarrow> cm) \<Rightarrow> unit call" where
  "modify f s = (Inr (), f s)"

definition cm_print_error :: "message \<Rightarrow> unit call" where
  "cm_print_error m = modify (\<lambda>s. s\<lparr>error_message := error_message s @ [m]\<rparr>)"

fun print_all :: "message list \<Rightarrow> unit call" where
  "print_all [] = return ()"
| "print_all (m # ms) = followed_by (cm_print_error m) (\<lambda>_. print_all ms)"

text \<open>The environment has \<open>CMOCKA_TEST_ABORT\<close> set to 1 in \<open>test_abort\<close>.\<close>

definition exit_test :: "bool \<Rightarrow> unit call" where
  "exit_test quit_application s =
     (if test_abort s then (Inl Aborted, s)
      else if running_test s then (Inl Test_Left, s)
      else if quit_application then (Inl (Exited (- 1)), s)
      else (Inr (), s))"

definition fail_at :: "location \<Rightarrow> unit call" where
  "fail_at loc = followed_by (cm_print_error (Failure_At loc)) (\<lambda>_. exit_test True)"

definition skip_at :: "location \<Rightarrow> unit call" where
  "skip_at loc = followed_by (cm_print_error (Skipped_At loc)) (\<lambda>_. followed_by (modify (\<lambda>s. s\<lparr>skip_test := True\<rparr>)) (\<lambda>_. exit_test True))"

definition source_location_is_set :: "location \<Rightarrow> bool" where
  "source_location_is_set loc \<longleftrightarrow> fst loc \<noteq> None \<and> snd loc \<noteq> 0"

definition initialize_source_location :: location where
  "initialize_source_location = (None, 0)"

subsection \<open>Reasoning\<close>

named_theorems call_simps \<open>the steps of a call evaluated\<close>

lemma return_run [call_simps]: "return x s = (Inr x, s)"
  by (simp add: return_def)

lemma followed_by_run [call_simps]:
  "f s = (Inr x, t) \<Longrightarrow> followed_by f g s = g x t"
  "f s = (Inl e, t) \<Longrightarrow> followed_by f g s = (Inl e, t)"
  by (simp_all add: followed_by_def)

lemma modify_run [call_simps]: "modify f s = (Inr (), f s)"
  by (simp add: modify_def)

lemma print_run [call_simps]: "cm_print_error m s = (Inr (), s\<lparr>error_message := error_message s @ [m]\<rparr>)"
  by (simp add: cm_print_error_def modify_def)

lemma print_all_run [call_simps]: "print_all ms s = (Inr (), s\<lparr>error_message := error_message s @ ms\<rparr>)"
  by (induction ms arbitrary: s) (simp_all add: call_simps)

text \<open>In a test \<open>exit_test\<close> leaves it, outside it ends the process; it never comes back when the application is to quit.\<close>

definition leaving :: "cm \<Rightarrow> failure" where
  "leaving s = (if test_abort s then Aborted else if running_test s then Test_Left else Exited (- 1))"

lemma exit_run [call_simps]: "exit_test True s = (Inl (leaving s), s)"
  by (simp add: exit_test_def leaving_def)

lemma leaving_update [simp]: "leaving (s\<lparr>error_message := ms\<rparr>) = leaving s" "leaving (s\<lparr>skip_test := b\<rparr>) = leaving s"
  "leaving (s\<lparr>function_results := rs\<rparr>) = leaving s" "leaving (s\<lparr>function_parameters := ps\<rparr>) = leaving s"
  "leaving (s\<lparr>call_ordering := os\<rparr>) = leaving s" "leaving (s\<lparr>last_mock_location := l\<rparr>) = leaving s"
  "leaving (s\<lparr>last_parameter_location := l\<rparr>) = leaving s" "leaving (s\<lparr>allocated_blocks := bs\<rparr>) = leaving s"
  "leaving (s\<lparr>heap := h\<rparr>) = leaving s"
  by (simp_all add: leaving_def)

lemma fail_run [call_simps]: "fail_at loc s = (Inl (leaving s), s\<lparr>error_message := error_message s @ [Failure_At loc]\<rparr>)"
  by (simp add: fail_at_def call_simps)

lemma skip_run [call_simps]: "skip_at loc s = (Inl (leaving s), s\<lparr>error_message := error_message s @ [Skipped_At loc], skip_test := True\<rparr>)"
  by (simp add: skip_at_def call_simps)

end
