(* ===== verification/Cm_Checks.thy ===== *)
theory Cm_Checks
  imports Cm_State
begin

text \<open>
  The comparisons of \<open>cmocka.c\<close>: the functions that display an error, the checks of parameters that are registered with them, and the assertions.

  A comparison gives its result and what it prints. Values are \<open>uintmax_t\<close>; where one is a pointer, what it points to is given by \<open>view\<close>: the C string
  at an address, and the bytes. \<open>None\<close> is a pointer to nothing of that kind.
\<close>

subsection \<open>Comparisons\<close>

record memory_view =
  text_at :: "u64 \<Rightarrow> string option"
  bytes_at :: "u64 \<Rightarrow> nat \<Rightarrow> bytes option"

definition values_equal_display_error :: "u64 \<Rightarrow> u64 \<Rightarrow> bool \<times> message list" where
  "values_equal_display_error left right = (let eq = (left = right) in (eq, if \<not> eq then [Not_Equal left right] else []))"

definition values_not_equal_display_error :: "u64 \<Rightarrow> u64 \<Rightarrow> bool \<times> message list" where
  "values_not_equal_display_error left right = (let neq = (left \<noteq> right) in (neq, if \<not> neq then [Equal left right] else []))"

fun set_loop :: "u64 \<Rightarrow> u64 list \<Rightarrow> bool \<Rightarrow> bool" where
  "set_loop x [] succeeded = succeeded"
| "set_loop x (y # ys) succeeded = (if y = x then \<not> succeeded else set_loop x ys succeeded)"

definition value_in_set_display_error :: "u64 \<Rightarrow> u64 list \<Rightarrow> bool \<Rightarrow> bool \<times> message list" where
  "value_in_set_display_error x xs invert =
     (if set_loop x xs invert then (True, []) else (False, [Set_Error x invert xs]))"

definition integer_in_range_display_error :: "u64 \<Rightarrow> u64 \<Rightarrow> u64 \<Rightarrow> bool \<times> message list" where
  "integer_in_range_display_error x range_min range_max =
     (if x \<ge> range_min \<and> x \<le> range_max then (True, []) else (False, [Not_In_Range x range_min range_max]))"

definition integer_not_in_range_display_error :: "u64 \<Rightarrow> u64 \<Rightarrow> u64 \<Rightarrow> bool \<times> message list" where
  "integer_not_in_range_display_error x range_min range_max =
     (if x < range_min \<or> x > range_max then (True, []) else (False, [In_Range x range_min range_max]))"

definition string_equal_display_error :: "string \<Rightarrow> string \<Rightarrow> bool \<times> message list" where
  "string_equal_display_error left right = (if left = right then (True, []) else (False, [Strings_Differ left right]))"

definition string_not_equal_display_error :: "string \<Rightarrow> string \<Rightarrow> bool \<times> message list" where
  "string_not_equal_display_error left right = (if left \<noteq> right then (True, []) else (False, [Strings_Equal left right]))"

fun differences_loop :: "bytes \<Rightarrow> bytes \<Rightarrow> nat \<Rightarrow> nat \<Rightarrow> message list" where
  "differences_loop (l # ls) (r # rs) i n =
     (if l \<noteq> r then Byte_Differs i l r # differences_loop ls rs (i + 1) (n + 1) else differences_loop ls rs (i + 1) n)"
| "differences_loop _ _ i n = (if n \<noteq> 0 then [Bytes_Differ n] else [])"

definition memory_equal_display_error :: "bytes \<Rightarrow> bytes \<Rightarrow> bool \<times> message list" where
  "memory_equal_display_error a b = (let ms = differences_loop a b 0 0 in (ms = [], ms))"

fun same_loop :: "bytes \<Rightarrow> bytes \<Rightarrow> nat \<Rightarrow> nat" where
  "same_loop (l # ls) (r # rs) same = same_loop ls rs (if l = r then same + 1 else same)"
| "same_loop _ _ same = same"

definition memory_not_equal_display_error :: "bytes \<Rightarrow> bytes \<Rightarrow> bool \<times> message list" where
  "memory_not_equal_display_error a b =
     (let same = same_loop a b 0 in if same = length a then (False, [Bytes_Same same]) else (True, []))"

subsection \<open>Checks of parameters\<close>

definition run_check :: "memory_view \<Rightarrow> check \<Rightarrow> u64 \<Rightarrow> (bool \<times> message list) option" where
  "run_check view chk x =
     (case chk of
        Check_Any \<Rightarrow> Some (True, [])
      | Check_Value d \<Rightarrow> Some (values_equal_display_error x d)
      | Check_Not_Value d \<Rightarrow> Some (values_not_equal_display_error x d)
      | Check_In_Set xs \<Rightarrow> Some (value_in_set_display_error x xs False)
      | Check_Not_In_Set xs \<Rightarrow> Some (value_in_set_display_error x xs True)
      | Check_In_Range a b \<Rightarrow> Some (integer_in_range_display_error x a b)
      | Check_Not_In_Range a b \<Rightarrow> Some (integer_not_in_range_display_error x a b)
      | Check_String p \<Rightarrow> do { l \<leftarrow> text_at view x; r \<leftarrow> text_at view p; Some (string_equal_display_error l r) }
      | Check_Not_String p \<Rightarrow> do { l \<leftarrow> text_at view x; r \<leftarrow> text_at view p; Some (string_not_equal_display_error l r) }
      | Check_Memory ys \<Rightarrow> do { xs \<leftarrow> bytes_at view x (length ys); Some (memory_equal_display_error xs ys) }
      | Check_Not_Memory ys \<Rightarrow> do { xs \<leftarrow> bytes_at view x (length ys); Some (memory_not_equal_display_error xs ys) })"

subsection \<open>Assertions\<close>

definition assert_result :: "bool \<times> message list \<Rightarrow> location \<Rightarrow> unit call" where
  "assert_result r loc = followed_by (print_all (snd r)) (\<lambda>_. if fst r then return () else fail_at loc)"

definition assert_true :: "u64 \<Rightarrow> string \<Rightarrow> location \<Rightarrow> unit call" where
  "assert_true result expression loc = assert_result (result \<noteq> 0, if result = 0 then [Expression expression] else []) loc"

definition assert_int_equal :: "u64 \<Rightarrow> u64 \<Rightarrow> location \<Rightarrow> unit call" where
  "assert_int_equal a b loc = assert_result (values_equal_display_error a b) loc"

definition assert_int_not_equal :: "u64 \<Rightarrow> u64 \<Rightarrow> location \<Rightarrow> unit call" where
  "assert_int_not_equal a b loc = assert_result (values_not_equal_display_error a b) loc"

definition assert_string_equal :: "string \<Rightarrow> string \<Rightarrow> location \<Rightarrow> unit call" where
  "assert_string_equal a b loc = assert_result (string_equal_display_error a b) loc"

definition assert_string_not_equal :: "string \<Rightarrow> string \<Rightarrow> location \<Rightarrow> unit call" where
  "assert_string_not_equal a b loc = assert_result (string_not_equal_display_error a b) loc"

definition assert_memory_equal :: "bytes \<Rightarrow> bytes \<Rightarrow> location \<Rightarrow> unit call" where
  "assert_memory_equal a b loc = assert_result (memory_equal_display_error a b) loc"

definition assert_memory_not_equal :: "bytes \<Rightarrow> bytes \<Rightarrow> location \<Rightarrow> unit call" where
  "assert_memory_not_equal a b loc = assert_result (memory_not_equal_display_error a b) loc"

definition assert_in_range :: "u64 \<Rightarrow> u64 \<Rightarrow> u64 \<Rightarrow> location \<Rightarrow> unit call" where
  "assert_in_range x a b loc = assert_result (integer_in_range_display_error x a b) loc"

definition assert_not_in_range :: "u64 \<Rightarrow> u64 \<Rightarrow> u64 \<Rightarrow> location \<Rightarrow> unit call" where
  "assert_not_in_range x a b loc = assert_result (integer_not_in_range_display_error x a b) loc"

definition assert_in_set :: "u64 \<Rightarrow> u64 list \<Rightarrow> location \<Rightarrow> unit call" where
  "assert_in_set x xs loc = assert_result (value_in_set_display_error x xs False) loc"

definition assert_not_in_set :: "u64 \<Rightarrow> u64 list \<Rightarrow> location \<Rightarrow> unit call" where
  "assert_not_in_set x xs loc = assert_result (value_in_set_display_error x xs True) loc"

text \<open>\<open>rlen\<close> is the size of the expression; its value has been converted to \<open>uintmax_t\<close>.\<close>

definition return_code_max :: "nat \<Rightarrow> u64" where
  "return_code_max rlen =
     (if rlen = 1 then 255 else if rlen = 2 then 32767 else if rlen = 4 then 2147483647
      else if rlen \<le> 8 then 9223372036854775807 else 2147483647)"

definition assert_return_code :: "u64 \<Rightarrow> nat \<Rightarrow> u64 \<Rightarrow> string \<Rightarrow> location \<Rightarrow> unit call" where
  "assert_return_code result rlen error expression loc =
     (if result > return_code_max rlen - 1
      then followed_by (cm_print_error (if error > 0 then Negative_Errno expression error else Negative expression)) (\<lambda>_. fail_at loc)
      else return ())"

text \<open>\<open>longjmp\<close> goes to the innermost \<open>expect_assert_failure\<close>, which \<open>assert_env\<close> says is still active.\<close>

definition mock_assert :: "bool \<Rightarrow> string \<Rightarrow> location \<Rightarrow> unit call" where
  "mock_assert result expression loc s =
     (if \<not> result
      then if expecting_assert s
        then (if assert_env s then (Inl Assert_Jump, s\<lparr>last_failed_assert := Some expression\<rparr>) else (Inl Undefined, s))
        else followed_by (cm_print_error (Assert_Failed expression)) (\<lambda>_. fail_at loc) s
      else (Inr (), s))"

definition expect_assert_failure :: "unit call \<Rightarrow> location \<Rightarrow> unit call" where
  "expect_assert_failure function_call loc s =
     (case function_call (s\<lparr>expecting_assert := True, assert_env := True\<rparr>) of
        (Inl Assert_Jump, t) \<Rightarrow> (Inr (), t\<lparr>expecting_assert := False, assert_env := assert_env s\<rparr>)
      | (Inl e, t) \<Rightarrow> (Inl e, t\<lparr>assert_env := assert_env s\<rparr>)
      | (Inr _, t) \<Rightarrow> fail_at loc (t\<lparr>expecting_assert := False, assert_env := assert_env s\<rparr>))"

subsection \<open>Correctness of the checks\<close>

lemma set_loop_member: "set_loop x xs b \<longleftrightarrow> (x \<in> set xs) \<noteq> b"
  by (induction x xs b rule: set_loop.induct) auto

lemma differences_none: "length xs = length ys \<Longrightarrow> differences_loop xs ys i n = [] \<longleftrightarrow> n = 0 \<and> xs = ys"
  by (induction xs ys i n rule: differences_loop.induct) auto

lemma same_loop_bound: "length xs = length ys \<Longrightarrow> same_loop xs ys n \<le> n + length xs \<and> (same_loop xs ys n = n + length xs \<longleftrightarrow> xs = ys)"
proof (induction xs ys n rule: same_loop.induct)
  case (1 l ls r rs n)
  then show ?case by (cases "l = r") auto
qed auto

text \<open>What each check asks of a value.\<close>

definition satisfies :: "memory_view \<Rightarrow> check \<Rightarrow> u64 \<Rightarrow> bool" where
  "satisfies view chk x \<longleftrightarrow>
     (case chk of
        Check_Any \<Rightarrow> True
      | Check_Value d \<Rightarrow> x = d
      | Check_Not_Value d \<Rightarrow> x \<noteq> d
      | Check_In_Set xs \<Rightarrow> x \<in> set xs
      | Check_Not_In_Set xs \<Rightarrow> x \<notin> set xs
      | Check_In_Range a b \<Rightarrow> x \<in> {a..b}
      | Check_Not_In_Range a b \<Rightarrow> x \<notin> {a..b}
      | Check_String p \<Rightarrow> text_at view x = text_at view p
      | Check_Not_String p \<Rightarrow> text_at view x \<noteq> text_at view p
      | Check_Memory ys \<Rightarrow> bytes_at view x (length ys) = Some ys
      | Check_Not_Memory ys \<Rightarrow> bytes_at view x (length ys) \<noteq> Some ys)"

definition readable :: "memory_view \<Rightarrow> check \<Rightarrow> u64 \<Rightarrow> bool" where
  "readable view chk x \<longleftrightarrow>
     (case chk of
        Check_String p \<Rightarrow> text_at view x \<noteq> None \<and> text_at view p \<noteq> None
      | Check_Not_String p \<Rightarrow> text_at view x \<noteq> None \<and> text_at view p \<noteq> None
      | Check_Memory ys \<Rightarrow> (\<exists>xs. bytes_at view x (length ys) = Some xs \<and> length xs = length ys)
      | Check_Not_Memory ys \<Rightarrow> (\<exists>xs. bytes_at view x (length ys) = Some xs \<and> length xs = length ys)
      | _ \<Rightarrow> True)"

text \<open>
  Functional behaviour: a check succeeds exactly on the values that it is to accept, and prints exactly when it fails.
\<close>

theorem run_check_correct:
  assumes "readable view chk x"
  shows "\<exists>ms. run_check view chk x = Some (satisfies view chk x, ms) \<and> (ms = [] \<longleftrightarrow> satisfies view chk x)"
proof -
  have mem: "memory_equal_display_error xs ys = (xs = ys, differences_loop xs ys 0 0)" "differences_loop xs ys 0 0 = [] \<longleftrightarrow> xs = ys"
    "memory_not_equal_display_error xs ys = (xs \<noteq> ys, if xs = ys then [Bytes_Same (length xs)] else [])" if "length xs = length ys" for xs ys
    using differences_none [OF that] same_loop_bound [OF that, of 0]
    by (auto simp: memory_equal_display_error_def memory_not_equal_display_error_def Let_def)
  show ?thesis using assms
    by (cases chk)
      (auto simp: run_check_def satisfies_def readable_def values_equal_display_error_def values_not_equal_display_error_def
        value_in_set_display_error_def set_loop_member integer_in_range_display_error_def integer_not_in_range_display_error_def
        string_equal_display_error_def string_not_equal_display_error_def mem Let_def)
qed

theorem run_check_correct_witness:
  "run_check \<lparr>text_at = (\<lambda>p. if p = 16 then Some ''one'' else None), bytes_at = (\<lambda>p n. None)\<rparr> (Check_In_Range 3 7) 9
     = Some (False, [Not_In_Range 9 3 7])"
proof -
  let ?v = "\<lparr>text_at = (\<lambda>p. if p = 16 then Some ''one'' else None), bytes_at = (\<lambda>p n. None)\<rparr>"
  have "readable ?v (Check_In_Range 3 7) 9" by (simp add: readable_def)
  from run_check_correct [OF this] show ?thesis
    by (auto simp: satisfies_def run_check_def integer_in_range_display_error_def)
qed

text \<open>An assertion returns when its condition holds and leaves the test when it does not.\<close>

lemma assert_result_run [call_simps]:
  "assert_result (ok, ms) loc s =
     (if ok then (Inr (), s\<lparr>error_message := error_message s @ ms\<rparr>)
      else (Inl (leaving s), s\<lparr>error_message := error_message s @ ms @ [Failure_At loc]\<rparr>))"
  by (simp add: assert_result_def call_simps)

lemma assertions:
  "fst (assert_int_equal a b loc s) = (if a = b then Inr () else Inl (leaving s))"
  "fst (assert_int_not_equal a b loc s) = (if a \<noteq> b then Inr () else Inl (leaving s))"
  "fst (assert_string_equal t u loc s) = (if t = u then Inr () else Inl (leaving s))"
  "fst (assert_string_not_equal t u loc s) = (if t \<noteq> u then Inr () else Inl (leaving s))"
  "fst (assert_in_range x a b loc s) = (if x \<in> {a..b} then Inr () else Inl (leaving s))"
  "fst (assert_not_in_range x a b loc s) = (if x \<notin> {a..b} then Inr () else Inl (leaving s))"
  "fst (assert_in_set x xs loc s) = (if x \<in> set xs then Inr () else Inl (leaving s))"
  "fst (assert_not_in_set x xs loc s) = (if x \<notin> set xs then Inr () else Inl (leaving s))"
  by (auto simp: assert_int_equal_def assert_int_not_equal_def assert_string_equal_def assert_string_not_equal_def assert_in_range_def
    assert_not_in_range_def assert_in_set_def assert_not_in_set_def values_equal_display_error_def values_not_equal_display_error_def
    string_equal_display_error_def string_not_equal_display_error_def integer_in_range_display_error_def
    integer_not_in_range_display_error_def value_in_set_display_error_def set_loop_member Let_def call_simps)

text \<open>
  Error behaviour: \<open>assert_return_code\<close> is to refuse negative results, but it also refuses the largest one: the bound is decremented and the
  comparison is strict.
\<close>

theorem assert_return_code_refuses_max:
  "fst (assert_return_code (scast (r :: 32 word)) 4 e expr loc s) =
     (if 0 \<le> sint r \<and> sint r < 2147483647 then Inr () else Inl (leaving s))"
proof -
  have range: "- 2147483648 \<le> sint r" "sint r < 2147483648" using sint_greater_eq [of r] sint_less [of r] by simp_all
  have u: "uint (scast r :: u64) = sint r mod 2 ^ 64" by (subst scast_eq, subst uint_word_of_int_eq) (simp add: take_bit_eq_mod)
  have "scast r > (2147483646 :: u64) \<longleftrightarrow> \<not> (0 \<le> sint r \<and> sint r < 2147483647)"
  proof (cases "0 \<le> sint r")
    case True
    then show ?thesis using range u by (auto simp: word_less_def)
  next
    case False
    have "sint r mod 2 ^ 64 = (sint r + 2 ^ 64) mod 2 ^ 64" by simp
    also have "\<dots> = sint r + 2 ^ 64" using False range by (intro mod_pos_pos_trivial) simp_all
    finally have "sint r mod 2 ^ 64 = sint r + 2 ^ 64" .
    then show ?thesis using False range u by (simp add: word_less_def)
  qed
  then show ?thesis by (simp add: assert_return_code_def return_code_max_def call_simps)
qed

text \<open>Error behaviour: a test that fails inside \<open>expect_assert_failure\<close> leaves the flag set, and the next failing \<open>mock_assert\<close> jumps into a frame that is gone.\<close>

lemma stale_expectation:
  assumes "function_call (s\<lparr>expecting_assert := True, assert_env := True\<rparr>) = (Inl Test_Left, t)" "expecting_assert t" "\<not> assert_env s"
  shows "fst (mock_assert False expr loc (snd (expect_assert_failure function_call here s))) = Inl Undefined"
  using assms by (simp add: expect_assert_failure_def mock_assert_def)

end
