(* ===== verification/Cm_Mock.thy ===== *)
theory Cm_Mock
  imports Cm_Checks
begin

text \<open>
  Mocked functions in \<open>cmocka.c\<close>: the values they are to return, the parameters they expect, and the order in which they are to be called.
\<close>

subsection \<open>Definitions\<close>

definition initialize_testing :: "unit call" where
  "initialize_testing = modify (\<lambda>s. s\<lparr>function_results := [], last_mock_location := initialize_source_location,
     function_parameters := [], last_parameter_location := initialize_source_location, call_ordering := []\<rparr>)"

definition teardown_testing :: "unit call" where
  "teardown_testing = modify (\<lambda>s. s\<lparr>function_results := [], last_mock_location := initialize_source_location,
     function_parameters := [], last_parameter_location := initialize_source_location,
     call_ordering := [], last_call_ordering_location := initialize_source_location\<rparr>)"

text \<open>An assertion of \<open>cmocka.c\<close> itself, with its text and its line.\<close>

definition assert_here :: "bool \<Rightarrow> string \<Rightarrow> int \<Rightarrow> unit call" where
  "assert_here b expression line = assert_true (if b then 1 else 0) expression (Some ''cmocka.c'', line)"

definition will_return :: "string \<Rightarrow> location \<Rightarrow> u64 \<Rightarrow> int \<Rightarrow> unit call" where
  "will_return function loc v count =
     followed_by (assert_here (count \<noteq> 0) ''count != 0'' 992) (\<lambda>_ s.
       case add_symbol_value [function] \<lparr>sv_location = loc, sv_value = v\<rparr> count (function_results s) of
         None \<Rightarrow> undefined_call s
       | Some rs \<Rightarrow> (Inr (), s\<lparr>function_results := rs\<rparr>))"

definition mock :: "string \<Rightarrow> location \<Rightarrow> u64 call" where
  "mock function loc s =
     (case get_symbol_value [function] (function_results s) of
        None \<Rightarrow> undefined_call s
      | Some (rc, out, missing, rs) \<Rightarrow>
          followed_by (print_all (map No_Entries missing)) (\<lambda>_ s.
            case out of
              Some symbol \<Rightarrow> (Inr (sv_value symbol), s\<lparr>function_results := rs, last_mock_location := sv_location symbol\<rparr>)
            | None \<Rightarrow>
                followed_by (print_all [No_Mock_Value loc function,
                    if source_location_is_set (last_mock_location s) then Previous_Mock_At (last_mock_location s) else No_Previous_Mock])
                  (\<lambda>_. followed_by (exit_test True) (\<lambda>_. return 0)) s) s)"

definition expect_check :: "string \<Rightarrow> string \<Rightarrow> location \<Rightarrow> check \<Rightarrow> int \<Rightarrow> unit call" where
  "expect_check function parameter loc chk count s =
     (case add_symbol_value [function, parameter] \<lparr>ev_location = loc, parameter_name = parameter, check_value = chk\<rparr> count (function_parameters s) of
        None \<Rightarrow> undefined_call s
      | Some ps \<Rightarrow> (Inr (), s\<lparr>function_parameters := ps\<rparr>))"

definition expect_set :: "string \<Rightarrow> string \<Rightarrow> location \<Rightarrow> u64 list \<Rightarrow> (u64 list \<Rightarrow> check) \<Rightarrow> int \<Rightarrow> unit call" where
  "expect_set function parameter loc xs check_function count =
     followed_by (assert_here (xs \<noteq> []) ''number_of_values'' 1267) (\<lambda>_. expect_check function parameter loc (check_function xs) count)"

definition expect_in_set :: "string \<Rightarrow> string \<Rightarrow> location \<Rightarrow> u64 list \<Rightarrow> int \<Rightarrow> unit call" where
  "expect_in_set function parameter loc xs count = expect_set function parameter loc xs Check_In_Set count"

definition expect_not_in_set :: "string \<Rightarrow> string \<Rightarrow> location \<Rightarrow> u64 list \<Rightarrow> int \<Rightarrow> unit call" where
  "expect_not_in_set function parameter loc xs count = expect_set function parameter loc xs Check_Not_In_Set count"

definition expect_range :: "string \<Rightarrow> string \<Rightarrow> location \<Rightarrow> u64 \<Rightarrow> u64 \<Rightarrow> (u64 \<Rightarrow> u64 \<Rightarrow> check) \<Rightarrow> int \<Rightarrow> unit call" where
  "expect_range function parameter loc minimum maximum check_function count =
     expect_check function parameter loc (check_function minimum maximum) count"

definition expect_in_range :: "string \<Rightarrow> string \<Rightarrow> location \<Rightarrow> u64 \<Rightarrow> u64 \<Rightarrow> int \<Rightarrow> unit call" where
  "expect_in_range function parameter loc minimum maximum count = expect_range function parameter loc minimum maximum Check_In_Range count"

definition expect_not_in_range :: "string \<Rightarrow> string \<Rightarrow> location \<Rightarrow> u64 \<Rightarrow> u64 \<Rightarrow> int \<Rightarrow> unit call" where
  "expect_not_in_range function parameter loc minimum maximum count = expect_range function parameter loc minimum maximum Check_Not_In_Range count"

definition expect_value :: "string \<Rightarrow> string \<Rightarrow> location \<Rightarrow> u64 \<Rightarrow> int \<Rightarrow> unit call" where
  "expect_value function parameter loc v count = expect_check function parameter loc (Check_Value v) count"

definition expect_not_value :: "string \<Rightarrow> string \<Rightarrow> location \<Rightarrow> u64 \<Rightarrow> int \<Rightarrow> unit call" where
  "expect_not_value function parameter loc v count = expect_check function parameter loc (Check_Not_Value v) count"

definition expect_string :: "string \<Rightarrow> string \<Rightarrow> location \<Rightarrow> u64 \<Rightarrow> int \<Rightarrow> unit call" where
  "expect_string function parameter loc p count = expect_check function parameter loc (Check_String p) count"

definition expect_not_string :: "string \<Rightarrow> string \<Rightarrow> location \<Rightarrow> u64 \<Rightarrow> int \<Rightarrow> unit call" where
  "expect_not_string function parameter loc p count = expect_check function parameter loc (Check_Not_String p) count"

text \<open>The memory is copied when the expectation is made.\<close>

definition expect_memory_setup :: "string \<Rightarrow> string \<Rightarrow> location \<Rightarrow> bytes \<Rightarrow> (bytes \<Rightarrow> check) \<Rightarrow> int \<Rightarrow> unit call" where
  "expect_memory_setup function parameter loc mem check_function count =
     followed_by (assert_here (mem \<noteq> []) ''size'' 1465) (\<lambda>_. expect_check function parameter loc (check_function mem) count)"

definition expect_memory :: "string \<Rightarrow> string \<Rightarrow> location \<Rightarrow> bytes \<Rightarrow> int \<Rightarrow> unit call" where
  "expect_memory function parameter loc mem count = expect_memory_setup function parameter loc mem Check_Memory count"

definition expect_not_memory :: "string \<Rightarrow> string \<Rightarrow> location \<Rightarrow> bytes \<Rightarrow> int \<Rightarrow> unit call" where
  "expect_not_memory function parameter loc mem count = expect_memory_setup function parameter loc mem Check_Not_Memory count"

definition expect_any :: "string \<Rightarrow> string \<Rightarrow> location \<Rightarrow> int \<Rightarrow> unit call" where
  "expect_any function parameter loc count = expect_check function parameter loc Check_Any count"

definition check_expected :: "memory_view \<Rightarrow> string \<Rightarrow> string \<Rightarrow> location \<Rightarrow> u64 \<Rightarrow> unit call" where
  "check_expected view function parameter loc v s =
     (case get_symbol_value [function, parameter] (function_parameters s) of
        None \<Rightarrow> undefined_call s
      | Some (rc, out, missing, ps) \<Rightarrow>
          followed_by (print_all (map No_Entries missing)) (\<lambda>_ s.
            case out of
              Some chk \<Rightarrow>
                (let s = s\<lparr>function_parameters := ps, last_parameter_location := ev_location chk\<rparr>
                 in (case run_check view (check_value chk) v of
                      None \<Rightarrow> undefined_call s
                    | Some (ok, ms) \<Rightarrow>
                        followed_by (print_all ms) (\<lambda>_ s.
                          if ok then (Inr (), s)
                          else followed_by (cm_print_error (Check_Failed loc parameter function (last_parameter_location s))) (\<lambda>_. fail_at loc) s) s))
            | None \<Rightarrow>
                followed_by (print_all [No_Expected_Value loc parameter function,
                    if source_location_is_set (last_parameter_location s) then Previous_Parameter_At (last_parameter_location s)
                    else No_Previous_Parameter])
                  (\<lambda>_. exit_test True) s) s)"

definition expect_function_call :: "string \<Rightarrow> location \<Rightarrow> int \<Rightarrow> unit call" where
  "expect_function_call name loc count =
     followed_by (assert_here (count \<noteq> 0) ''count != 0'' 1039) (\<lambda>_.
       modify (\<lambda>s. s\<lparr>call_ordering := call_ordering s @ [Value \<lparr>ord_location = loc, ord_function = name\<rparr> count]\<rparr>))"

text \<open>
  \<open>function_called\<close>: the search for the call behind expectations that may be met any number of times. \<open>ns\<close> is what follows the current node, and
  behind the last node stands the head of the list, whose value is \<open>NULL\<close>. The place found is the nodes passed, the node and the rest.
\<close>

fun search_call :: "string \<Rightarrow> ordering_value node list \<Rightarrow> ordering_value node list \<Rightarrow> (ordering_value node list \<times> ordering_value \<times> int \<times> ordering_value node list) option" where
  "search_call f passed (Value o1 c # ns) =
     (if c < - 1 \<and> ord_function o1 \<noteq> f then search_call f (passed @ [Value o1 c]) ns else Some (passed, o1, c, ns))"
| "search_call f passed _ = None"

definition meet_call :: "string \<Rightarrow> location \<Rightarrow> ordering_value node list \<times> ordering_value \<times> int \<times> ordering_value node list \<Rightarrow> unit call" where
  "meet_call f loc place s =
     (case place of (passed, o1, c, ns) \<Rightarrow>
        if ord_function o1 = f
        then (Inr (), s\<lparr>call_ordering := passed @ (if c > - 2 then (if c - 1 = 0 then [] else [Value o1 (c - 1)]) else [Value o1 c]) @ ns\<rparr>)
        else followed_by (cm_print_error (Wrong_Call loc (ord_function o1) f)) (\<lambda>_. exit_test True) s)"

definition function_called :: "string \<Rightarrow> location \<Rightarrow> unit call" where
  "function_called f loc s =
     (case call_ordering s of
        [] \<Rightarrow> followed_by (cm_print_error (No_Call_Expected loc f)) (\<lambda>_. exit_test True) s
      | Symbol _ _ # _ \<Rightarrow> undefined_call s
      | Value o1 c # ns \<Rightarrow>
          if c < - 1 \<and> ord_function o1 \<noteq> f
          then (if ns = [] then undefined_call s
                else (case search_call f [Value o1 c] ns of
                    None \<Rightarrow> followed_by (cm_print_error (No_Matching_Call loc f)) (\<lambda>_. exit_test True) s
                  | Some place \<Rightarrow> meet_call f loc place s))
          else meet_call f loc ([], o1, c, ns) s)"

text \<open>The messages about what is left.\<close>

fun leftover_list_messages :: "ordering_value node list \<Rightarrow> message list" where
  "leftover_list_messages (Value o1 c # ns) = [Not_Called (ord_function o1), Remaining_At (ord_location o1)] @ leftover_list_messages ns"
| "leftover_list_messages _ = []"

fun leftover_messages :: "(string \<Rightarrow> message) \<Rightarrow> ('v \<Rightarrow> location) \<Rightarrow> nat \<Rightarrow> 'v node list \<Rightarrow> message list" where
  "leftover_messages err loc_of d [] = []"
| "leftover_messages err loc_of d (Value v c # ns) = leftover_messages err loc_of d ns"
| "leftover_messages err loc_of d (Symbol s cs # ns) =
     (if cs = [] then []
      else if d = 0 then err s # map (\<lambda>(v, c). Remaining_At (loc_of v)) (vals cs)
      else Symbol_Prefix s # leftover_messages err loc_of (d - 1) cs) @ leftover_messages err loc_of d ns"

definition fail_if_leftover_values :: "unit call" where
  "fail_if_leftover_values s =
     (case (do {
        rs \<leftarrow> remove_always_return_values 1 (function_results s);
        n \<leftarrow> check_for_leftover_values rs;
        ps \<leftarrow> remove_always_return_values 2 (function_parameters s);
        m \<leftarrow> check_for_leftover_values ps;
        Some (rs, n, ps, m) }) of
        None \<Rightarrow> undefined_call s
      | Some (rs, n, ps, m) \<Rightarrow>
          (let os = remove_always_return_values_from_list (call_ordering s);
               ms = leftover_messages Non_Returned_Values sv_location 0 rs @ leftover_messages Not_Checked ev_location 1 ps @ leftover_list_messages os
           in followed_by (print_all ms) (\<lambda>_. if n \<noteq> 0 \<or> m \<noteq> 0 \<or> os \<noteq> [] then exit_test True else return ())
                (s\<lparr>function_results := rs, function_parameters := ps, call_ordering := os\<rparr>)))"

subsection \<open>Invariant\<close>

text \<open>The lists have the depth that the code takes them to have.\<close>

definition mock_wf :: "cm \<Rightarrow> bool" where
  "mock_wf s \<longleftrightarrow> typed 1 (function_results s) \<and> typed 2 (function_parameters s) \<and> typed 0 (call_ordering s)"

lemma assert_here_run [call_simps]:
  "assert_here True e n s = (Inr (), s)"
  "assert_here False e n s = (Inl (leaving s), s\<lparr>error_message := error_message s @ [Expression e, Failure_At (Some ''cmocka.c'', n)]\<rparr>)"
  by (simp_all add: assert_here_def assert_true_def assert_result_def call_simps)

lemma typed_one: "typed (length [f]) ns = typed 1 ns" "typed (length [f, p]) qs = typed 2 qs"
  by (simp_all add: numeral_2_eq_2)

text \<open>The values set for a function.\<close>

definition returns_of :: "string \<Rightarrow> cm \<Rightarrow> (u64 \<times> int) list" where
  "returns_of f s = map (\<lambda>(v, c). (sv_value v, c)) (queue [f] (function_results s))"

lemma will_return_result:
  assumes "mock_wf s" "c \<noteq> 0"
  shows "\<exists>rs. will_return f loc v c s = (Inr (), s\<lparr>function_results := rs\<rparr>) \<and> mock_wf (s\<lparr>function_results := rs\<rparr>)
    \<and> (\<forall>g. returns_of g (s\<lparr>function_results := rs\<rparr>) = returns_of g s @ (if g = f then [(v, c)] else []))"
proof -
  let ?v = "\<lparr>sv_location = loc, sv_value = v\<rparr>"
  have "typed (length [f]) (function_results s)" using assms(1) unfolding typed_one mock_wf_def by blast
  from add_result [OF _ this assms(2), of ?v] obtain rs where rs: "add_symbol_value [f] ?v c (function_results s) = Some rs"
    "typed (length [f]) rs" "queue [f] rs = queue [f] (function_results s) @ [(?v, c)]" "same_but [f] (function_results s) rs" by blast
  have "returns_of g (s\<lparr>function_results := rs\<rparr>) = returns_of g s @ (if g = f then [(v, c)] else [])" for g
    using rs(3,4) unfolding same_but_def returns_of_def by (cases "g = f") (simp_all del: queue.simps)
  moreover have "mock_wf (s\<lparr>function_results := rs\<rparr>)" using assms(1) rs(2) unfolding typed_one mock_wf_def by simp
  ultimately show ?thesis using rs(1) assms(2) by (intro exI [of _ rs]) (simp add: will_return_def call_simps del: add_symbol_value.simps)
qed

lemma mock_result:
  assumes "mock_wf s"
  shows "case returns_of f s of
      [] \<Rightarrow> fst (mock f loc s) = Inl (leaving s)
    | (v, c) # q \<Rightarrow> \<exists>rs l. mock f loc s = (Inr v, s\<lparr>function_results := rs, last_mock_location := l\<rparr>)
        \<and> mock_wf (s\<lparr>function_results := rs, last_mock_location := l\<rparr>)
        \<and> (\<forall>g. returns_of g (s\<lparr>function_results := rs, last_mock_location := l\<rparr>) = (if g = f then served (returns_of f s) else returns_of g s))"
proof -
  have ty: "typed (length [f]) (function_results s)" using assms unfolding typed_one mock_wf_def by blast
  note get = get_result [OF _ ty]
  show ?thesis
  proof (cases "queue [f] (function_results s)")
    case Nil
    with get obtain t where "get_symbol_value [f] (function_results s) = Some (0, None, [t], function_results s)" by auto
    then show ?thesis using Nil by (simp add: returns_of_def mock_def call_simps del: get_symbol_value.simps queue.simps)
  next
    case (Cons e q)
    obtain sv c where e: "e = (sv, c)" by (cases e)
    with get Cons obtain rs where rs: "get_symbol_value [f] (function_results s) = Some (c, Some sv, [], rs)" "typed (length [f]) rs"
      "queue [f] rs = served ((sv, c) # q)" "same_but [f] (function_results s) rs" by auto
    let ?s = "s\<lparr>function_results := rs, last_mock_location := sv_location sv\<rparr>"
    have served_map: "map (\<lambda>(v, c). (sv_value v, c)) (served r) = served (map (\<lambda>(v, c). (sv_value v, c)) r)" for r
      by (cases r rule: served.cases) auto
    have "returns_of g ?s = (if g = f then served (returns_of f s) else returns_of g s)" for g
    proof (cases "g = f")
      case True
      then show ?thesis using rs(3) Cons e served_map [of "(sv, c) # q"] by (simp add: returns_of_def del: queue.simps served.simps)
    next
      case False
      then show ?thesis using rs(4) unfolding same_but_def returns_of_def by (simp del: queue.simps)
    qed
    moreover have "mock f loc s = (Inr (sv_value sv), ?s)" using rs(1) by (simp add: mock_def call_simps del: get_symbol_value.simps)
    moreover have "mock_wf ?s" using assms rs(2) unfolding typed_one mock_wf_def by simp
    moreover have "returns_of f s = (sv_value sv, c) # map (\<lambda>(v, c). (sv_value v, c)) q" using Cons e by (simp add: returns_of_def del: queue.simps)
    ultimately show ?thesis by (simp only: list.case prod.case) blast
  qed
qed

text \<open>Runs of \<open>will_return\<close> and of the mocked function.\<close>

fun set_returns :: "(u64 \<times> int) list \<Rightarrow> string \<Rightarrow> location \<Rightarrow> unit call" where
  "set_returns [] f loc = return ()"
| "set_returns ((v, c) # vs) f loc = followed_by (will_return f loc v c) (\<lambda>_. set_returns vs f loc)"

fun mock_times :: "nat \<Rightarrow> string \<Rightarrow> location \<Rightarrow> u64 list call" where
  "mock_times 0 f loc = return []"
| "mock_times (Suc n) f loc = followed_by (mock f loc) (\<lambda>v. followed_by (mock_times n f loc) (\<lambda>vs. return (v # vs)))"

definition all_returns :: "(u64 \<times> int) list \<Rightarrow> u64 list" where
  "all_returns vs = concat (map (\<lambda>(v, c). replicate (nat c) v) vs)"

lemma set_returns_result:
  assumes "mock_wf s" "list_all (\<lambda>(v, c). c \<noteq> 0) vs"
  shows "\<exists>t. set_returns vs f loc s = (Inr (), t) \<and> mock_wf t \<and> returns_of f t = returns_of f s @ vs"
  using assms
proof (induction vs arbitrary: s)
  case (Cons e vs)
  obtain v c where e: "e = (v, c)" by (cases e)
  with will_return_result [OF Cons.prems(1), of c f loc v] Cons.prems(2) obtain rs where
    "will_return f loc v c s = (Inr (), s\<lparr>function_results := rs\<rparr>)" "mock_wf (s\<lparr>function_results := rs\<rparr>)"
    "returns_of f (s\<lparr>function_results := rs\<rparr>) = returns_of f s @ [(v, c)]" by auto
  with Cons.IH [of "s\<lparr>function_results := rs\<rparr>"] Cons.prems(2) e show ?case by (auto simp: call_simps)
qed (simp add: call_simps)

lemma mock_times_result:
  assumes "mock_wf s" "list_all (\<lambda>(v, c). 0 < c) (returns_of f s)"
  shows "\<exists>t. mock_times (length (all_returns (returns_of f s))) f loc s = (Inr (all_returns (returns_of f s)), t) \<and> mock_wf t \<and> returns_of f t = []"
  using assms
proof (induction "length (all_returns (returns_of f s))" arbitrary: s)
  case 0
  have "returns_of f s = []"
  proof (cases "returns_of f s")
    case (Cons e q)
    with 0 show ?thesis by (cases e) (simp add: all_returns_def)
  qed
  then show ?case using 0 by (simp add: all_returns_def call_simps)
next
  case (Suc n)
  then obtain v c q where q: "returns_of f s = (v, c) # q" by (cases "returns_of f s") (auto simp: all_returns_def)
  from mock_result [OF Suc.prems(1), of f loc] obtain t where t: "mock f loc s = (Inr v, t)" "mock_wf t" "returns_of f t = served (returns_of f s)"
    unfolding q list.case prod.case by (auto simp del: served.simps)
  have c: "0 < c" using Suc.prems(2) q by simp
  then have all: "all_returns (returns_of f s) = v # all_returns (returns_of f t)"
  proof -
    obtain m where m: "nat c = Suc m" using c by (cases "nat c") auto
    then have "nat (c - 1) = m" "c = 1 \<longleftrightarrow> m = 0" by auto
    then show ?thesis using q t(3) c m by (simp add: all_returns_def)
  qed
  have "list_all (\<lambda>(v, c). 0 < c) (returns_of f t)" using Suc.prems(2) q t(3) c by auto
  from Suc.hyps(1) [OF _ t(2) this] Suc.hyps(2) all obtain u where
    "mock_times (length (all_returns (returns_of f t))) f loc t = (Inr (all_returns (returns_of f t)), u)" "mock_wf u" "returns_of f u = []" by auto
  then show ?case using t(1) all by (simp add: call_simps)
qed

text \<open>
  Functional behaviour: the mocked function returns the values in the order in which they were set, each as often as was asked for, and the next call
  leaves the test.
\<close>

theorem mock_returns_in_order:
  assumes "mock_wf s" "returns_of f s = []" "list_all (\<lambda>(v, c). 0 < c) vs"
  shows "\<exists>t. followed_by (set_returns vs f here) (\<lambda>_. mock_times (length (all_returns vs)) f there) s = (Inr (all_returns vs), t)
    \<and> fst (mock f there t) = Inl (leaving t)"
proof -
  have "list_all (\<lambda>(v, c). c \<noteq> 0) vs" using assms(3) by (auto simp: list_all_iff)
  from set_returns_result [OF assms(1) this, of f here] assms(2) obtain t where t: "set_returns vs f here s = (Inr (), t)" "mock_wf t" "returns_of f t = vs"
    by auto
  from mock_times_result [OF t(2), of f there] assms(3) t(3) obtain u where
    u: "mock_times (length (all_returns vs)) f there t = (Inr (all_returns vs), u)" "mock_wf u" "returns_of f u = []" by auto
  from mock_result [OF u(2), of f there] u(3) have "fst (mock f there u) = Inl (leaving u)" by simp
  then show ?thesis using t(1) u(1) by (auto simp: call_simps)
qed

definition cm0 :: cm where
  "cm0 = \<lparr>function_results = [], last_mock_location = (None, 0), function_parameters = [], last_parameter_location = (None, 0), call_ordering = [],
     last_call_ordering_location = (None, 0), allocated_blocks = [], heap = (\<lambda>_. 0), running_test = True, skip_test = False, expecting_assert = False,
     assert_env = False, last_failed_assert = None, test_abort = False, error_message = []\<rparr>"

lemma cm0_wf: "mock_wf cm0" "returns_of f cm0 = []"
  by (simp_all add: mock_wf_def cm0_def returns_of_def numeral_2_eq_2)

theorem mock_returns_in_order_witness:
  "\<exists>t. followed_by (set_returns [(5, 2), (7, 1)] ''f'' (Some ''t.c'', 3)) (\<lambda>_. mock_times 3 ''f'' (Some ''f.c'', 9)) cm0 = (Inr [5, 5, 7], t)
    \<and> fst (mock ''f'' (Some ''f.c'', 9) t) = Inl (leaving t)"
  using mock_returns_in_order [OF cm0_wf, of "[(5, 2), (7, 1)]" "''f''" "(Some ''t.c'', 3)" "(Some ''f.c'', 9)"]
  by (simp add: all_returns_def numeral_2_eq_2 numeral_3_eq_3)

end
