(* ===== verification/Cm_Order.thy ===== *)
theory Cm_Order
  imports Cm_Mock
begin

text \<open>
  What the expectations of \<open>cmocka.c\<close> enforce: parameters are checked in the order of the expectations, calls come in the expected order, and nothing
  expected is left at the end of a test.
\<close>

subsection \<open>Parameters\<close>

definition expected_of :: "string \<Rightarrow> string \<Rightarrow> cm \<Rightarrow> (check \<times> int) list" where
  "expected_of f p s = map (\<lambda>(e, c). (check_value e, c)) (queue [f, p] (function_parameters s))"

lemma served_map: "map (\<lambda>(v, c). (h v, c)) (served r) = served (map (\<lambda>(v, c). (h v, c)) r)"
  by (cases r rule: served.cases) auto

lemma check_expected_result:
  assumes "mock_wf s"
  shows "case expected_of f p s of
      [] \<Rightarrow> fst (check_expected view f p loc v s) = Inl (leaving s)
    | (chk, c) # q \<Rightarrow>
        (case run_check view chk v of
           None \<Rightarrow> fst (check_expected view f p loc v s) = Inl Undefined
         | Some (ok, ms) \<Rightarrow> fst (check_expected view f p loc v s) = (if ok then Inr () else Inl (leaving s))
             \<and> (\<exists>t. snd (check_expected view f p loc v s) = t \<and> mock_wf t \<and> expected_of f p t = served (expected_of f p s)
                \<and> (\<forall>g r. (g, r) \<noteq> (f, p) \<longrightarrow> expected_of g r t = expected_of g r s)))"
proof -
  have ty: "typed (length [f, p]) (function_parameters s)" using assms unfolding typed_one mock_wf_def by blast
  note get = get_result [OF _ ty]
  show ?thesis
  proof (cases "queue [f, p] (function_parameters s)")
    case Nil
    with get obtain t where "get_symbol_value [f, p] (function_parameters s) = Some (0, None, [t], function_parameters s)" by auto
    then show ?thesis using Nil by (simp add: expected_of_def check_expected_def call_simps del: get_symbol_value.simps queue.simps)
  next
    case (Cons e q)
    obtain ev c where e: "e = (ev, c)" by (cases e)
    with get Cons obtain ps where ps: "get_symbol_value [f, p] (function_parameters s) = Some (c, Some ev, [], ps)" "typed (length [f, p]) ps"
      "queue [f, p] ps = served ((ev, c) # q)" "same_but [f, p] (function_parameters s) ps" by auto
    have ex: "expected_of f p s = (check_value ev, c) # map (\<lambda>(e, c). (check_value e, c)) q" using Cons e by (simp add: expected_of_def del: queue.simps)
    have run: "check_expected view f p loc v s =
        (let s = s\<lparr>function_parameters := ps, last_parameter_location := ev_location ev\<rparr>
         in (case run_check view (check_value ev) v of
              None \<Rightarrow> undefined_call s
            | Some (ok, ms) \<Rightarrow>
                (if ok then (Inr (), s\<lparr>error_message := error_message s @ ms\<rparr>)
                 else (Inl (leaving s), s\<lparr>error_message := error_message s @ ms @ [Check_Failed loc p f (ev_location ev), Failure_At loc]\<rparr>))))"
      using ps(1) by (simp add: check_expected_def call_simps Let_def del: get_symbol_value.simps split: option.split)
    have new: "mock_wf (s\<lparr>function_parameters := ps, last_parameter_location := l, error_message := ms\<rparr>)"
      "expected_of f p (s\<lparr>function_parameters := ps, last_parameter_location := l, error_message := ms\<rparr>) = served (expected_of f p s)" for l ms
      using assms ps(2,3) ex served_map [of check_value "(ev, c) # q"] unfolding typed_one mock_wf_def
      by (simp_all add: expected_of_def del: queue.simps served.simps)
    have other: "expected_of g r (s\<lparr>function_parameters := ps, last_parameter_location := l, error_message := ms\<rparr>) = expected_of g r s"
      if "(g, r) \<noteq> (f, p)" for g r l ms
      using ps(4) that unfolding same_but_def expected_of_def by (simp del: queue.simps)
    show ?thesis
    proof (cases "run_check view (check_value ev) v")
      case None
      then show ?thesis unfolding ex run by (simp add: undefined_call_def)
    next
      case (Some r)
      obtain ok ms where r: "r = (ok, ms)" by (cases r)
      show ?thesis
        unfolding ex list.case prod.case using new other unfolding ex
        by (simp add: run Some r Let_def leaving_def del: served.simps)
    qed
  qed
qed

lemma expect_check_result:
  assumes "mock_wf s" "c \<noteq> 0"
  shows "\<exists>ps. expect_check f p loc chk c s = (Inr (), s\<lparr>function_parameters := ps\<rparr>) \<and> mock_wf (s\<lparr>function_parameters := ps\<rparr>)
    \<and> (\<forall>g r. expected_of g r (s\<lparr>function_parameters := ps\<rparr>) = expected_of g r s @ (if (g, r) = (f, p) then [(chk, c)] else []))"
proof -
  let ?v = "\<lparr>ev_location = loc, parameter_name = p, check_value = chk\<rparr>"
  have "typed (length [f, p]) (function_parameters s)" using assms(1) unfolding typed_one mock_wf_def by blast
  from add_result [OF _ this assms(2), of ?v] obtain ps where ps: "add_symbol_value [f, p] ?v c (function_parameters s) = Some ps"
    "typed (length [f, p]) ps" "queue [f, p] ps = queue [f, p] (function_parameters s) @ [(?v, c)]" "same_but [f, p] (function_parameters s) ps" by blast
  have "expected_of g r (s\<lparr>function_parameters := ps\<rparr>) = expected_of g r s @ (if (g, r) = (f, p) then [(chk, c)] else [])" for g r
    using ps(3,4) unfolding same_but_def expected_of_def by (cases "(g, r) = (f, p)") (auto simp del: queue.simps)
  moreover have "mock_wf (s\<lparr>function_parameters := ps\<rparr>)" using assms(1) ps(2) unfolding typed_one mock_wf_def by simp
  ultimately show ?thesis using ps(1) by (intro exI [of _ ps]) (simp add: expect_check_def del: add_symbol_value.simps)
qed

text \<open>
  Functional behaviour: one expectation of a parameter, met once. The call goes on exactly when the value is one that the check is to accept; the
  expectation is used up either way, and no other is touched.
\<close>

theorem expectation_checked:
  assumes "mock_wf s" "expected_of f p s = []" "readable view chk v"
  shows "\<exists>t. snd (followed_by (expect_check f p here chk 1) (\<lambda>_. check_expected view f p there v) s) = t
    \<and> fst (followed_by (expect_check f p here chk 1) (\<lambda>_. check_expected view f p there v) s) =
        (if satisfies view chk v then Inr () else Inl (leaving s))
    \<and> expected_of f p t = [] \<and> (\<forall>g r. (g, r) \<noteq> (f, p) \<longrightarrow> expected_of g r t = expected_of g r s)"
proof -
  from expect_check_result [OF assms(1), of 1 f p here chk] obtain ps where
    ps: "expect_check f p here chk 1 s = (Inr (), s\<lparr>function_parameters := ps\<rparr>)" "mock_wf (s\<lparr>function_parameters := ps\<rparr>)"
    "\<forall>g r. expected_of g r (s\<lparr>function_parameters := ps\<rparr>) = expected_of g r s @ (if (g, r) = (f, p) then [(chk, 1)] else [])" by auto
  from run_check_correct [OF assms(3)] obtain ms where ms: "run_check view chk v = Some (satisfies view chk v, ms)" by blast
  have ex: "expected_of f p (s\<lparr>function_parameters := ps\<rparr>) = [(chk, 1)]" using ps(3) assms(2) by simp
  have l: "leaving (s\<lparr>function_parameters := ps\<rparr>) = leaving s" by (simp add: leaving_def)
  show ?thesis
    using check_expected_result [OF ps(2), of view f p there v] ps(3)
    unfolding ex list.case prod.case ms option.case l by (simp add: call_simps ps(1))
qed

lemma cm0_expected: "expected_of f p cm0 = []"
  by (simp add: expected_of_def cm0_def)

theorem expectation_checked_witness:
  "fst (followed_by (expect_check ''f'' ''x'' (Some ''t.c'', 3) (Check_In_Set [2, 4]) 1)
      (\<lambda>_. check_expected \<lparr>text_at = (\<lambda>_. None), bytes_at = (\<lambda>_ _. None)\<rparr> ''f'' ''x'' (Some ''f.c'', 9) 4) cm0) = Inr ()"
proof -
  let ?v = "\<lparr>text_at = (\<lambda>_. None), bytes_at = (\<lambda>_ _. None)\<rparr>"
  have "readable ?v (Check_In_Set [2, 4]) 4" by (simp add: readable_def)
  from expectation_checked [OF cm0_wf(1) cm0_expected this, where f = "''f''" and p = "''x''" and here = "(Some ''t.c'', 3)" and there = "(Some ''f.c'', 9)"]
  show ?thesis by (auto simp: satisfies_def)
qed

subsection \<open>The end of a test\<close>

definition all_finished :: "cm \<Rightarrow> bool" where
  "all_finished s \<longleftrightarrow> (\<forall>f. finished (queue [f] (function_results s))) \<and> (\<forall>f p. finished (queue [f, p] (function_parameters s)))
     \<and> list_all (\<lambda>n. refcount n < - 1) (call_ordering s)"

lemma two_names: "(\<forall>names. length names = Suc 0 \<longrightarrow> P names) \<longleftrightarrow> (\<forall>f. P [f])" "(\<forall>names. length names = Suc (Suc 0) \<longrightarrow> P names) \<longleftrightarrow> (\<forall>f p. P [f, p])"
  by (metis length_0_conv length_Suc_conv)+

text \<open>
  Functional behaviour: a test passes its last check exactly when every value set and every parameter expected has been used as often as asked for, a
  value to be returned always at least once, and every call expected has come.
\<close>

theorem leftover_check:
  assumes "mock_wf s"
  shows "fst (fail_if_leftover_values s) = (if all_finished s then Inr () else Inl (leaving s))"
proof -
  have ty: "typed (Suc 0) (function_results s)" "typed (Suc (Suc 0)) (function_parameters s)"
    using assms by (simp_all add: mock_wf_def numeral_2_eq_2)
  from leftover_result [OF ty(1)] obtain rs n where rs: "remove_always_return_values 1 (function_results s) = Some rs"
    "check_for_leftover_values rs = Some n" "n = 0 \<longleftrightarrow> (\<forall>f. finished (queue [f] (function_results s)))" by (auto simp: two_names)
  from leftover_result [OF ty(2)] obtain ps m where ps: "remove_always_return_values 2 (function_parameters s) = Some ps"
    "check_for_leftover_values ps = Some m" "m = 0 \<longleftrightarrow> (\<forall>f p. finished (queue [f, p] (function_parameters s)))"
    by (auto simp: two_names numeral_2_eq_2 simp del: queue.simps)
  have os: "remove_always_return_values_from_list (call_ordering s) = [] \<longleftrightarrow> list_all (\<lambda>n. refcount n < - 1) (call_ordering s)"
    by (auto simp: list_cleanup filter_empty_conv list_all_iff)
  have l: "leaving (s\<lparr>function_results := rs, function_parameters := ps, call_ordering := os, error_message := ms\<rparr>) = leaving s" for os ms
    by (simp add: leaving_def)
  have "all_finished s \<longleftrightarrow> n = 0 \<and> m = 0 \<and> remove_always_return_values_from_list (call_ordering s) = []"
    unfolding all_finished_def rs(3) ps(3) os ..
  then show ?thesis
    by (simp add: fail_if_leftover_values_def rs(1) [unfolded One_nat_def] rs(2) ps(1,2) Let_def call_simps l)
qed

theorem leftover_check_witness:
  "fst (fail_if_leftover_values cm0) = Inr ()"
  using leftover_check [OF cm0_wf(1)] by (simp add: all_finished_def cm0_def finished_def)

subsection \<open>The order of calls\<close>










text \<open>
  Error behaviour: when the only call expected is one that may come any number of times and another function is called, the search starts behind the
  last node, at the head of the list, and reads through its \<open>NULL\<close> value.
\<close>

theorem lone_ignored_call_crashes:
  assumes "call_ordering s = []" "f \<noteq> g"
  shows "fst (followed_by (expect_function_call f here (- 2)) (\<lambda>_. function_called g there) s) = Inl Undefined"
  using assms by (simp add: expect_function_call_def function_called_def undefined_call_def call_simps)

theorem lone_ignored_call_crashes_witness:
  "fst (followed_by (expect_function_call ''log'' (Some ''t.c'', 3) (- 2)) (\<lambda>_. function_called ''open'' (Some ''t.c'', 5)) cm0) = Inl Undefined"
  using lone_ignored_call_crashes [of cm0 "''log''" "''open''"] by (simp add: cm0_def)

end
