(* ===== verification/Cm_Heap.thy ===== *)
theory Cm_Heap
  imports Cm_Checks
begin

text \<open>
  The allocation functions of \<open>cmocka.c\<close>, which put guards around every block and keep a list of the blocks to find leaks.

  Addresses and sizes are \<open>nat\<close> with the wrap-around of \<open>size_t\<close> written out; memory is a function from addresses to bytes. A block has, from its
  beginning, some alignment, the structure \<open>MallocBlockInfo\<close> of 72 bytes, a guard, the bytes of the user, and a guard. The structures themselves are
  the list \<open>allocated_blocks\<close>: a write below the first guard is outside the model. The result of the C library's \<open>malloc\<close> is an argument.
\<close>

subsection \<open>Definitions\<close>

definition MALLOC_GUARD_SIZE :: nat where "MALLOC_GUARD_SIZE = 16"
definition MALLOC_GUARD_PATTERN :: u8 where "MALLOC_GUARD_PATTERN = 0xEF"
definition MALLOC_ALLOC_PATTERN :: u8 where "MALLOC_ALLOC_PATTERN = 0xBA"
definition MALLOC_FREE_PATTERN :: u8 where "MALLOC_FREE_PATTERN = 0xCD"
definition MALLOC_ALIGNMENT :: nat where "MALLOC_ALIGNMENT = 8"
definition sizeof_block_info :: nat where "sizeof_block_info = 72"

definition fill :: "nat \<Rightarrow> u8 \<Rightarrow> nat \<Rightarrow> (nat \<Rightarrow> u8) \<Rightarrow> nat \<Rightarrow> u8" where
  "fill a v n h = (\<lambda>x. if a \<le> x \<and> x < a + n then v else h x)"

text \<open>A write outside the block that \<open>malloc\<close> gave is undefined.\<close>

definition test_malloc :: "nat option \<Rightarrow> nat \<Rightarrow> location \<Rightarrow> nat call" where
  "test_malloc libc size1 loc s =
     (let allocate_size = (size1 + MALLOC_GUARD_SIZE * 2 + sizeof_block_info + MALLOC_ALIGNMENT) mod 2 ^ 64
      in (case libc of
            None \<Rightarrow> followed_by (assert_true 0 ''block'' (Some ''cmocka.c'', 1828)) (\<lambda>_. return 0) s
          | Some b \<Rightarrow>
              (let ptr = (b + MALLOC_GUARD_SIZE + sizeof_block_info + MALLOC_ALIGNMENT) div MALLOC_ALIGNMENT * MALLOC_ALIGNMENT
               in if b + allocate_size < ptr + size1 + MALLOC_GUARD_SIZE then undefined_call s
                  else (Inr ptr, s\<lparr>
                    heap := fill ptr MALLOC_ALLOC_PATTERN size1 (fill (ptr + size1) MALLOC_GUARD_PATTERN MALLOC_GUARD_SIZE
                              (fill (ptr - MALLOC_GUARD_SIZE) MALLOC_GUARD_PATTERN MALLOC_GUARD_SIZE (heap s))),
                    allocated_blocks := allocated_blocks s @
                      [\<lparr>user_ptr = ptr, block = b, allocated_size = allocate_size, block_size = size1, block_location = loc\<rparr>]\<rparr>))))"

definition test_calloc :: "nat option \<Rightarrow> nat \<Rightarrow> nat \<Rightarrow> location \<Rightarrow> nat call" where
  "test_calloc libc number_of_elements size1 loc =
     followed_by (test_malloc libc (number_of_elements * size1 mod 2 ^ 64) loc) (\<lambda>ptr.
       if ptr \<noteq> 0 then followed_by (modify (\<lambda>s. s\<lparr>heap := fill ptr 0 (number_of_elements * size1 mod 2 ^ 64) (heap s)\<rparr>)) (\<lambda>_. return ptr)
       else return ptr)"

definition block_of :: "nat \<Rightarrow> cm \<Rightarrow> block_info option" where
  "block_of ptr s = find (\<lambda>b. user_ptr b = ptr) (allocated_blocks s)"

text \<open>The first byte of the guards that is not as it was written.\<close>

definition corrupt_guard :: "nat \<Rightarrow> nat \<Rightarrow> (nat \<Rightarrow> u8) \<Rightarrow> nat option" where
  "corrupt_guard ptr size1 h =
     find (\<lambda>x. h x - MALLOC_GUARD_PATTERN \<noteq> 0)
       ([ptr - MALLOC_GUARD_SIZE ..< ptr] @ [ptr + size1 ..< ptr + size1 + MALLOC_GUARD_SIZE])"

definition test_free :: "nat \<Rightarrow> location \<Rightarrow> unit call" where
  "test_free ptr loc s =
     (if ptr = 0 then (Inr (), s)
      else (case block_of ptr s of
          None \<Rightarrow> undefined_call s
        | Some b \<Rightarrow>
            (case corrupt_guard ptr (block_size b) (heap s) of
               Some x \<Rightarrow> followed_by (cm_print_error (Guard_Corrupt loc ptr (block_size b) (block_location b) x)) (\<lambda>_. fail_at loc) s
             | None \<Rightarrow> (Inr (), s\<lparr>
                 heap := fill (block b) MALLOC_FREE_PATTERN (allocated_size b) (heap s),
                 allocated_blocks := remove1 b (allocated_blocks s)\<rparr>))))"

definition test_realloc :: "nat option \<Rightarrow> nat \<Rightarrow> nat \<Rightarrow> location \<Rightarrow> nat call" where
  "test_realloc libc ptr size1 loc s =
     (if ptr = 0 then test_malloc libc size1 loc s
      else if size1 = 0 then followed_by (test_free ptr loc) (\<lambda>_. return 0) s
      else followed_by (test_malloc libc size1 loc) (\<lambda>new_block s.
          if new_block = 0 then (Inr 0, s)
          else (case block_of ptr s of
              None \<Rightarrow> undefined_call s
            | Some b \<Rightarrow>
                (let n = (if block_size b < size1 then block_size b else size1)
                 in followed_by (modify (\<lambda>s. s\<lparr>heap := (\<lambda>x. if new_block \<le> x \<and> x < new_block + n then heap s (ptr + (x - new_block)) else heap s x)\<rparr>))
                      (\<lambda>_. followed_by (test_free ptr loc) (\<lambda>_. return new_block)) s))) s)"

text \<open>A check point is the last node of the list; \<open>None\<close> is the head.\<close>

definition check_point_allocated_blocks :: "cm \<Rightarrow> nat option" where
  "check_point_allocated_blocks s = (if allocated_blocks s = [] then None else Some (user_ptr (last (allocated_blocks s))))"

text \<open>What follows a check point; \<open>None\<close> when its node has been freed.\<close>

definition blocks_after :: "nat option \<Rightarrow> block_info list \<Rightarrow> block_info list option" where
  "blocks_after check_point bs =
     (case check_point of
        None \<Rightarrow> Some bs
      | Some p \<Rightarrow> (case dropWhile (\<lambda>b. user_ptr b \<noteq> p) bs of [] \<Rightarrow> None | b # rest \<Rightarrow> Some rest))"

definition display_allocated_blocks :: "nat option \<Rightarrow> nat call" where
  "display_allocated_blocks check_point s =
     (case blocks_after check_point (allocated_blocks s) of
        None \<Rightarrow> undefined_call s
      | Some bs \<Rightarrow> followed_by (print_all (if bs = [] then [] else Blocks_Allocated # map (\<lambda>b. Block_At (block_location b) (block b)) bs))
          (\<lambda>_. return (length bs)) s)"

fun free_all :: "block_info list \<Rightarrow> unit call" where
  "free_all [] = return ()"
| "free_all (b # bs) = followed_by (test_free (user_ptr b) (Some ''cmocka.c'', 1992)) (\<lambda>_. free_all bs)"

definition free_allocated_blocks :: "nat option \<Rightarrow> unit call" where
  "free_allocated_blocks check_point s =
     (case blocks_after check_point (allocated_blocks s) of None \<Rightarrow> undefined_call s | Some bs \<Rightarrow> free_all bs s)"

definition fail_if_blocks_allocated :: "nat option \<Rightarrow> string \<Rightarrow> unit call" where
  "fail_if_blocks_allocated check_point test_name =
     followed_by (display_allocated_blocks check_point) (\<lambda>n.
       if n \<noteq> 0
       then followed_by (free_allocated_blocks check_point)
              (\<lambda>_. followed_by (cm_print_error (Leaked test_name n)) (\<lambda>_. exit_test True))
       else return ())"

subsection \<open>Invariant\<close>

lemmas guard_defs = MALLOC_GUARD_SIZE_def MALLOC_ALIGNMENT_def sizeof_block_info_def

definition blocks_apart :: "block_info \<Rightarrow> block_info \<Rightarrow> bool" where
  "blocks_apart a b \<longleftrightarrow> block a + allocated_size a \<le> block b \<or> block b + allocated_size b \<le> block a"

definition block_ok :: "block_info \<Rightarrow> bool" where
  "block_ok b \<longleftrightarrow> 0 < block b \<and> 8 dvd user_ptr b \<and> block b + 88 \<le> user_ptr b \<and> user_ptr b + block_size b + 16 \<le> block b + allocated_size b"

definition heap_wf :: "cm \<Rightarrow> bool" where
  "heap_wf s \<longleftrightarrow> list_all block_ok (allocated_blocks s) \<and> sorted_wrt blocks_apart (allocated_blocks s)"

text \<open>What \<open>malloc\<close> promises.\<close>

definition malloc_ok :: "cm \<Rightarrow> nat \<Rightarrow> nat \<Rightarrow> bool" where
  "malloc_ok s n b \<longleftrightarrow> 0 < b \<and> b + n < 2 ^ 64 \<and> list_all (\<lambda>c. block c + allocated_size c \<le> b \<or> b + n \<le> block c) (allocated_blocks s)"

lemma aligned_ptr:
  fixes b :: nat
  defines "p \<equiv> (b + 96) div 8 * 8"
  shows "8 dvd p" "b + 88 < p" "p \<le> b + 96"
proof -
  have "(b + 96) mod 8 < 8" "p + (b + 96) mod 8 = b + 96" by (simp_all add: p_def)
  then show "b + 88 < p" "p \<le> b + 96" by linarith+
  show "8 dvd p" by (simp add: p_def)
qed

definition new_block :: "nat \<Rightarrow> nat \<Rightarrow> location \<Rightarrow> block_info" where
  "new_block b n loc = \<lparr>user_ptr = (b + 96) div 8 * 8, block = b, allocated_size = n + 112, block_size = n, block_location = loc\<rparr>"

lemma test_malloc_result:
  assumes "n + 112 < 2 ^ 64"
  shows "test_malloc (Some b) n loc s =
    (let p = (b + 96) div 8 * 8
     in (Inr p, s\<lparr>heap := fill p MALLOC_ALLOC_PATTERN n (fill (p + n) MALLOC_GUARD_PATTERN 16 (fill (p - 16) MALLOC_GUARD_PATTERN 16 (heap s))),
           allocated_blocks := allocated_blocks s @ [new_block b n loc]\<rparr>))"
proof -
  have a: "(n + 16 * 2 + 72 + 8) mod 2 ^ 64 = n + 112" "b + 16 + 72 + 8 = b + 96" using assms by simp_all
  have "\<not> b + (n + 112) < (b + 96) div 8 * 8 + n + 16" using aligned_ptr(3) [of b] by simp
  then show ?thesis by (simp only: test_malloc_def Let_def guard_defs a new_block_def option.case if_False)
qed

lemma new_block_ok: "0 < b \<Longrightarrow> block_ok (new_block b n loc)"
  using aligned_ptr [of b] by (simp add: block_ok_def new_block_def)

lemma heap_wf_new:
  assumes "heap_wf s" "malloc_ok s (n + 112) b"
  shows "heap_wf (s\<lparr>allocated_blocks := allocated_blocks s @ [new_block b n loc]\<rparr>)"
  using assms new_block_ok [of b n loc] by (auto simp: heap_wf_def malloc_ok_def sorted_wrt_append blocks_apart_def new_block_def list_all_iff)

lemma blocks_apart:
  assumes "heap_wf s" "a \<in> set (allocated_blocks s)" "b \<in> set (allocated_blocks s)" "user_ptr a = user_ptr b"
  shows "a = b"
proof (rule ccontr)
  assume "a \<noteq> b"
  obtain i j where ij: "i < length (allocated_blocks s)" "a = allocated_blocks s ! i" "j < length (allocated_blocks s)" "b = allocated_blocks s ! j"
    using assms(2,3) by (auto simp: in_set_conv_nth)
  with \<open>a \<noteq> b\<close> have "i < j \<or> j < i" by (metis linorder_neqE_nat)
  then have "blocks_apart a b \<or> blocks_apart b a" using assms(1) ij by (auto simp: heap_wf_def sorted_wrt_iff_nth_less)
  moreover have "block_ok a" "block_ok b" using assms(1-3) by (auto simp: heap_wf_def list_all_iff)
  ultimately show False using assms(4) by (auto simp: blocks_apart_def block_ok_def)
qed

lemma block_of_mem:
  assumes "heap_wf s" "b \<in> set (allocated_blocks s)"
  shows "block_of (user_ptr b) s = Some b"
proof -
  obtain c where "block_of (user_ptr b) s = Some c" using assms(2) by (cases "block_of (user_ptr b) s") (auto simp: block_of_def find_None_iff)
  then have "c \<in> set (allocated_blocks s)" "user_ptr c = user_ptr b" by (auto simp: block_of_def find_Some_iff)
  then show ?thesis using blocks_apart [OF assms(1)] assms(2) \<open>block_of (user_ptr b) s = Some c\<close> by blast
qed

lemma heap_wf_heap [simp]: "heap_wf (s\<lparr>heap := h\<rparr>) = heap_wf s" "block_of p (s\<lparr>heap := h\<rparr>) = block_of p s"
  by (simp_all add: heap_wf_def block_of_def)

lemma sorted_wrt_remove1: "sorted_wrt P xs \<Longrightarrow> sorted_wrt P (remove1 x xs)"
proof (induction xs)
  case (Cons a xs)
  with set_remove1_subset [of x xs] show ?case by auto
qed simp

lemma heap_wf_remove: "heap_wf s \<Longrightarrow> heap_wf (s\<lparr>allocated_blocks := remove1 b (allocated_blocks s)\<rparr>)"
  using set_remove1_subset [of b "allocated_blocks s"] by (auto simp: heap_wf_def list_all_iff sorted_wrt_remove1)

subsection \<open>Guards\<close>

definition guards_intact :: "nat \<Rightarrow> nat \<Rightarrow> (nat \<Rightarrow> u8) \<Rightarrow> bool" where
  "guards_intact ptr n h \<longleftrightarrow> (\<forall>i < 16. h (ptr - 16 + i) = 0xEF \<and> h (ptr + n + i) = 0xEF)"

lemma corrupt_guard_None: "16 \<le> ptr \<Longrightarrow> corrupt_guard ptr n h = None \<longleftrightarrow> guards_intact ptr n h"
proof -
  assume p: "16 \<le> ptr"
  have up: "(\<forall>x \<in> set [a ..< a + k]. P x) \<longleftrightarrow> (\<forall>i < k. P (a + i))" for a k and P :: "nat \<Rightarrow> bool"
    by (auto simp: le_iff_add)
  have "corrupt_guard ptr n h = None \<longleftrightarrow> (\<forall>x \<in> set [ptr - 16 ..< (ptr - 16) + 16]. h x = 0xEF) \<and> (\<forall>x \<in> set [ptr + n ..< (ptr + n) + 16]. h x = 0xEF)"
    using p by (auto simp: corrupt_guard_def find_None_iff MALLOC_GUARD_SIZE_def MALLOC_GUARD_PATTERN_def)
  then show ?thesis unfolding up guards_intact_def by blast
qed

text \<open>
  Safety: a block of any size that fits is aligned and lies with its guards inside the memory it was made of; nothing outside that is written. Whatever
  the program then does to memory, freeing the block succeeds exactly when both guards are as they were, and otherwise the test is left.
\<close>

theorem guards_detect_overrun:
  assumes "heap_wf s" "malloc_ok s (n + 112) b"
  shows "\<exists>p t. test_malloc (Some b) n here s = (Inr p, t) \<and> heap_wf t \<and> 8 dvd p \<and> b + 88 \<le> p \<and> p + n + 16 \<le> b + n + 112
    \<and> (\<forall>i < n. heap t (p + i) = 0xBA) \<and> guards_intact p n (heap t) \<and> (\<forall>x. x < p - 16 \<or> p + n + 16 \<le> x \<longrightarrow> heap t x = heap s x)
    \<and> (\<forall>h. fst (test_free p there (t\<lparr>heap := h\<rparr>)) = (if guards_intact p n h then Inr () else Inl (leaving s)))"
proof -
  let ?p = "(b + 96) div 8 * 8"
  have small: "n + 112 < 2 ^ 64" using assms(2) by (simp add: malloc_ok_def)
  let ?h = "fill ?p MALLOC_ALLOC_PATTERN n (fill (?p + n) MALLOC_GUARD_PATTERN 16 (fill (?p - 16) MALLOC_GUARD_PATTERN 16 (heap s)))"
  let ?t = "s\<lparr>heap := ?h, allocated_blocks := allocated_blocks s @ [new_block b n here]\<rparr>"
  have run: "test_malloc (Some b) n here s = (Inr ?p, ?t)" using test_malloc_result [OF small] by (simp add: Let_def)
  note p = aligned_ptr [of b]
  have wf: "heap_wf ?t" using heap_wf_new [OF assms, of here] by (simp add: heap_wf_def)
  have bytes: "\<forall>i < n. ?h (?p + i) = 0xBA" "guards_intact ?p n ?h" "\<forall>x. x < ?p - 16 \<or> ?p + n + 16 \<le> x \<longrightarrow> ?h x = heap s x"
    using p(2) by (auto simp: fill_def guards_intact_def MALLOC_ALLOC_PATTERN_def MALLOC_GUARD_PATTERN_def)
  have free: "fst (test_free ?p there (?t\<lparr>heap := h\<rparr>)) = (if guards_intact ?p n h then Inr () else Inl (leaving s))" for h
  proof -
    have "block_of ?p (?t\<lparr>heap := h\<rparr>) = Some (new_block b n here)"
      using block_of_mem [OF wf, of "new_block b n here"] by (simp add: new_block_def block_of_def)
    moreover have "corrupt_guard ?p n h = None \<longleftrightarrow> guards_intact ?p n h" using p(2) by (intro corrupt_guard_None) simp
    ultimately show ?thesis using p(2)
      by (cases "corrupt_guard ?p n h") (auto simp: test_free_def new_block_def call_simps leaving_def)
  qed
  show ?thesis using run wf p bytes free by (intro exI [of _ ?p] exI [of _ ?t] conjI) simp_all
qed

definition cm1 :: cm where
  "cm1 = \<lparr>function_results = [], last_mock_location = (None, 0), function_parameters = [], last_parameter_location = (None, 0), call_ordering = [],
     last_call_ordering_location = (None, 0), allocated_blocks = [], heap = (\<lambda>_. 0), running_test = True, skip_test = False, expecting_assert = False,
     assert_env = False, last_failed_assert = None, test_abort = False, error_message = []\<rparr>"

theorem guards_detect_overrun_witness:
  "fst (test_malloc (Some 4096) 10 (Some ''t.c'', 3) cm1) = Inr 4192
   \<and> fst (test_free 4192 (Some ''t.c'', 9) ((snd (test_malloc (Some 4096) 10 (Some ''t.c'', 3) cm1))\<lparr>heap := (\<lambda>_. 0)\<rparr>)) = Inl Test_Left"
proof -
  have "heap_wf cm1" "malloc_ok cm1 (10 + 112) 4096" by (simp_all add: heap_wf_def malloc_ok_def cm1_def)
  from guards_detect_overrun [OF this, of "(Some ''t.c'', 3)" "(Some ''t.c'', 9)"] obtain p t where
    r: "test_malloc (Some 4096) 10 (Some ''t.c'', 3) cm1 = (Inr p, t)"
      "\<forall>h. fst (test_free p (Some ''t.c'', 9) (t\<lparr>heap := h\<rparr>)) = (if guards_intact p 10 h then Inr () else Inl (leaving cm1))" by blast
  have p: "p = 4192" using r(1) test_malloc_result [of 10 4096 "(Some ''t.c'', 3)" cm1] by (simp add: Let_def)
  have "\<not> guards_intact p 10 (\<lambda>_. 0)" unfolding guards_intact_def by (auto intro: exI [of _ 0])
  then show ?thesis using r p by (simp add: leaving_def cm1_def)
qed

text \<open>
  Functional behaviour: \<open>test_realloc\<close> gives a new block with the bytes of the old one, as many as both have, and the old one is gone.
\<close>

theorem realloc_keeps_contents:
  assumes "heap_wf s" "malloc_ok s (n + 112) b" "c \<in> set (allocated_blocks s)" "0 < n" "guards_intact (user_ptr c) (block_size c) (heap s)"
  shows "\<exists>p t. test_realloc (Some b) (user_ptr c) n loc s = (Inr p, t) \<and> heap_wf t
    \<and> (\<forall>i < min n (block_size c). heap t (p + i) = heap s (user_ptr c + i))
    \<and> allocated_blocks t = remove1 c (allocated_blocks s) @ [new_block b n loc] \<and> guards_intact p n (heap t)"
proof -
  obtain p where p_def: "p = (b + 96) div 8 * 8" by blast
  obtain k where k: "k = min n (block_size c)" by blast
  obtain h where h: "h = fill p MALLOC_ALLOC_PATTERN n (fill (p + n) MALLOC_GUARD_PATTERN 16 (fill (p - 16) MALLOC_GUARD_PATTERN 16 (heap s)))" by blast
  obtain t where t: "t = s\<lparr>heap := h, allocated_blocks := allocated_blocks s @ [new_block b n loc]\<rparr>" by blast
  obtain g where g: "g = (\<lambda>x. if p \<le> x \<and> x < p + k then h (user_ptr c + (x - p)) else h x)" by blast
  obtain u where u: "u = t\<lparr>heap := fill (block c) MALLOC_FREE_PATTERN (allocated_size c) g, allocated_blocks := remove1 c (allocated_blocks t)\<rparr>" by blast
  have small: "n + 112 < 2 ^ 64" using assms(2) by (simp add: malloc_ok_def)
  have p: "b + 88 < p" "p \<le> b + 96" using aligned_ptr [of b] p_def by simp_all
  have "block_ok c" using assms(1,3) by (auto simp: heap_wf_def list_all_iff)
  then have c: "0 < block c" "block c + 88 \<le> user_ptr c" "user_ptr c + block_size c + 16 \<le> block c + allocated_size c" by (simp_all add: block_ok_def)
  have sep: "block c + allocated_size c \<le> b \<or> b + (n + 112) \<le> block c" using assms(2,3) by (auto simp: malloc_ok_def list_all_iff)
  have outside: "\<not> (p - 16 \<le> x \<and> x < p + n + 16)" if "block c \<le> x" "x < block c + allocated_size c" for x using that sep p by auto
  have run: "test_malloc (Some b) n loc s = (Inr p, t)" using test_malloc_result [OF small, of b loc s] by (simp add: Let_def p_def h t)
  have wf: "heap_wf t" using heap_wf_new [OF assms(1,2), of loc] by (simp add: heap_wf_def t)
  have old_h: "h x = heap s x" if "block c \<le> x" "x < block c + allocated_size c" for x
    using outside [OF that] p by (auto simp: fill_def h)
  have old: "g x = heap s x" if "block c \<le> x" "x < block c + allocated_size c" for x
    using outside [OF that] old_h [OF that] by (auto simp: g k)
  have ct: "c \<in> set (allocated_blocks t)" using assms(3) by (simp add: t)
  have find: "block_of (user_ptr c) (t\<lparr>heap := f\<rparr>) = Some c" for f using block_of_mem [OF wf ct] by simp
  have "guards_intact (user_ptr c) (block_size c) g"
    unfolding guards_intact_def
  proof (intro allI impI)
    fix i :: nat assume i: "i < 16"
    then have "g (user_ptr c - 16 + i) = heap s (user_ptr c - 16 + i)" "g (user_ptr c + block_size c + i) = heap s (user_ptr c + block_size c + i)"
      using c by (simp_all add: old)
    then show "g (user_ptr c - 16 + i) = 0xEF \<and> g (user_ptr c + block_size c + i) = 0xEF" using assms(5) i unfolding guards_intact_def by simp
  qed
  then have guard: "corrupt_guard (user_ptr c) (block_size c) g = None" using c by (subst corrupt_guard_None) simp_all
  have free: "test_free (user_ptr c) loc (t\<lparr>heap := g\<rparr>) = (Inr (), u)"
    using find [of g] guard c by (simp add: test_free_def u)
  have nz: "user_ptr c \<noteq> 0" "p \<noteq> 0" using c p by auto
  have th: "t\<lparr>heap := heap t\<rparr> = t" by simp
  have copy: "(\<lambda>x. if p \<le> x \<and> x < p + k then heap t (user_ptr c + (x - p)) else heap t x) = g"
  proof -
    have "heap t = h" by (simp add: t)
    then show ?thesis by (auto simp: g fun_eq_iff)
  qed
  have "(if block_size c < n then block_size c else n) = k" by (simp add: k)
  then have res: "test_realloc (Some b) (user_ptr c) n loc s = (Inr p, u)"
    using run find [of "heap t", unfolded th] free nz assms(4) copy by (simp add: test_realloc_def call_simps Let_def)
  have kept: "heap u x = g x" if "p - 16 \<le> x" "x < p + n + 16" for x using outside [of x] that by (auto simp: u fill_def)
  have copied: "heap u (p + i) = heap s (user_ptr c + i)" if "i < min n (block_size c)" for i
  proof -
    have "heap u (p + i) = g (p + i)" using that by (intro kept) auto
    also have "\<dots> = h (user_ptr c + i)" using that by (simp add: g k)
    also have "\<dots> = heap s (user_ptr c + i)" using that c by (intro old_h) auto
    finally show ?thesis .
  qed
  have g2: "guards_intact p n (heap u)"
    unfolding guards_intact_def
  proof (intro allI impI)
    fix i :: nat assume i: "i < 16"
    have "heap u (p - 16 + i) = g (p - 16 + i)" "heap u (p + n + i) = g (p + n + i)" using i p by (auto intro: kept)
    moreover have "g (p - 16 + i) = h (p - 16 + i)" "g (p + n + i) = h (p + n + i)" using i p by (auto simp: g k)
    moreover have "h (p - 16 + i) = 0xEF" "h (p + n + i) = 0xEF" using i p by (auto simp: h fill_def MALLOC_GUARD_PATTERN_def)
    ultimately show "heap u (p - 16 + i) = 0xEF \<and> heap u (p + n + i) = 0xEF" by simp
  qed
  have "heap_wf u" using heap_wf_remove [OF wf, of c] by (simp add: heap_wf_def u)
  moreover have "allocated_blocks u = remove1 c (allocated_blocks s) @ [new_block b n loc]" using assms(3) by (simp add: u t remove1_append)
  ultimately show ?thesis using res copied g2 by blast
qed

theorem realloc_keeps_contents_witness:
  "\<exists>p t. test_realloc (Some 8192) 4192 20 (Some ''t.c'', 5) (snd (test_malloc (Some 4096) 10 (Some ''t.c'', 3) cm1)) = (Inr p, t) \<and> heap t p = 0xBA"
proof -
  let ?c = "new_block 4096 10 (Some ''t.c'', 3)" and ?s = "snd (test_malloc (Some 4096) 10 (Some ''t.c'', 3) cm1)"
  have s: "heap_wf ?s" "malloc_ok ?s (20 + 112) 8192" "?c \<in> set (allocated_blocks ?s)" "0 < (20 :: nat)"
    and c: "user_ptr ?c = 4192" "block_size ?c = 10" and byte: "heap ?s (4192 + 0) = 0xBA"
    using test_malloc_result [of 10 4096 "(Some ''t.c'', 3)" cm1] new_block_ok [of 4096 10 "(Some ''t.c'', 3)"]
    by (simp_all add: Let_def heap_wf_def cm1_def malloc_ok_def fill_def MALLOC_ALLOC_PATTERN_def) (simp_all add: new_block_def)
  have "guards_intact (user_ptr ?c) (block_size ?c) (heap ?s)"
    unfolding c using test_malloc_result [of 10 4096 "(Some ''t.c'', 3)" cm1]
    by (auto simp: Let_def guards_intact_def fill_def MALLOC_GUARD_PATTERN_def)
  from realloc_keeps_contents [OF s this, of "(Some ''t.c'', 5)"] show ?thesis
    unfolding c using byte by (metis add.right_neutral min_less_iff_conj zero_less_numeral)
qed

subsection \<open>Leaks\<close>

lemma blocks_after_front:
  assumes "heap_wf s" "allocated_blocks s = old @ bs"
  shows "blocks_after (if old = [] then None else Some (user_ptr (last old))) (allocated_blocks s) = Some bs"
proof (cases old rule: rev_cases)
  case (snoc front b)
  have "user_ptr c \<noteq> user_ptr b" if "c \<in> set front" for c
  proof
    assume eq: "user_ptr c = user_ptr b"
    from blocks_apart [OF assms(1) _ _ eq] that assms(2) snoc have "c = b" by simp
    have "sorted_wrt blocks_apart (front @ b # bs)" using assms snoc by (simp add: heap_wf_def)
    then have "blocks_apart b b" using that \<open>c = b\<close> by (auto simp: sorted_wrt_append)
    moreover have "block_ok b" using assms snoc by (simp add: heap_wf_def)
    ultimately show False by (auto simp: blocks_apart_def block_ok_def)
  qed
  then have "dropWhile (\<lambda>c. user_ptr c \<noteq> user_ptr b) (front @ b # bs) = b # bs" by (subst dropWhile_append2) auto
  then show ?thesis using snoc assms(2) by (simp add: blocks_after_def)
qed (use assms in \<open>simp add: blocks_after_def\<close>)

lemma test_free_result:
  assumes "heap_wf s" "b \<in> set (allocated_blocks s)"
  shows "test_free (user_ptr b) loc s =
    (case corrupt_guard (user_ptr b) (block_size b) (heap s) of
       Some x \<Rightarrow> (Inl (leaving s), s\<lparr>error_message := error_message s @ [Guard_Corrupt loc (user_ptr b) (block_size b) (block_location b) x, Failure_At loc]\<rparr>)
     | None \<Rightarrow> (Inr (), s\<lparr>heap := fill (block b) MALLOC_FREE_PATTERN (allocated_size b) (heap s), allocated_blocks := remove1 b (allocated_blocks s)\<rparr>))"
proof -
  have "block_ok b" using assms by (auto simp: heap_wf_def list_all_iff)
  then show ?thesis using block_of_mem [OF assms] by (auto simp: test_free_def block_ok_def call_simps split: option.split)
qed

lemma free_all_leaves: "heap_wf s \<Longrightarrow> allocated_blocks s = old @ bs \<Longrightarrow> fst (free_all bs s) = Inr () \<or> fst (free_all bs s) = Inl (leaving s)"
proof (induction bs arbitrary: s)
  case (Cons b bs)
  let ?loc = "(Some ''cmocka.c'', 1992) :: location"
  have b: "b \<in> set (allocated_blocks s)" using Cons.prems(2) by simp
  show ?case
  proof (cases "corrupt_guard (user_ptr b) (block_size b) (heap s)")
    case None
    let ?t = "s\<lparr>heap := fill (block b) MALLOC_FREE_PATTERN (allocated_size b) (heap s), allocated_blocks := remove1 b (allocated_blocks s)\<rparr>"
    have r: "test_free (user_ptr b) ?loc s = (Inr (), ?t)" using test_free_result [OF Cons.prems(1) b] None by simp
    have "b \<notin> set old"
    proof
      assume "b \<in> set old"
      have "sorted_wrt blocks_apart (old @ b # bs)" using Cons.prems by (simp add: heap_wf_def)
      then have "blocks_apart b b" using \<open>b \<in> set old\<close> by (auto simp: sorted_wrt_append)
      then show False using Cons.prems by (auto simp: heap_wf_def blocks_apart_def block_ok_def)
    qed
    then have "allocated_blocks ?t = old @ bs" using Cons.prems(2) by (simp add: remove1_append)
    moreover have "heap_wf ?t" using heap_wf_remove [OF Cons.prems(1), of b] by (simp add: heap_wf_def)
    ultimately show ?thesis using Cons.IH [of ?t] r by (simp add: call_simps)
  next
    case (Some x)
    then have "fst (test_free (user_ptr b) ?loc s) = Inl (leaving s)" using test_free_result [OF Cons.prems(1) b] by simp
    then show ?thesis by (cases "test_free (user_ptr b) ?loc s") (simp add: followed_by_def)
  qed
qed (simp add: call_simps)

text \<open>
  Functional behaviour: the check for leaks passes exactly when no block is left of those that were made since the check point, as long as the block
  that was last then has not been freed.
\<close>

theorem leak_check:
  assumes "heap_wf s" "allocated_blocks s = old @ bs"
  shows "fst (fail_if_blocks_allocated (if old = [] then None else Some (user_ptr (last old))) name s) = (if bs = [] then Inr () else Inl (leaving s))"
proof -
  let ?cp = "if old = [] then None else Some (user_ptr (last old))"
  let ?m = "if bs = [] then [] else Blocks_Allocated # map (\<lambda>b. Block_At (block_location b) (block b)) bs"
  let ?s = "s\<lparr>error_message := error_message s @ ?m\<rparr>"
  have after: "blocks_after ?cp (allocated_blocks s) = Some bs" using blocks_after_front [OF assms] .
  then have d: "display_allocated_blocks ?cp s = (Inr (length bs), ?s)" by (simp add: display_allocated_blocks_def call_simps)
  have run: "followed_by (display_allocated_blocks ?cp) k s = k (length bs) ?s" for k :: "nat \<Rightarrow> unit call"
    unfolding followed_by_def d by simp
  have wf: "heap_wf ?s" "allocated_blocks ?s = old @ bs" using assms by (simp_all add: heap_wf_def)
  have f: "free_allocated_blocks ?cp ?s = free_all bs ?s" using after by (simp add: free_allocated_blocks_def)
  have leave: "leaving t = leaving s" if "free_all bs ?s = (Inr (), t)" for t
  proof -
    have "free_all cs u = (Inr (), t) \<Longrightarrow> leaving t = leaving u" for cs u
    proof (induction cs arbitrary: u)
      case (Cons c cs)
      then obtain v where v: "test_free (user_ptr c) (Some ''cmocka.c'', 1992) u = (Inr (), v)" "free_all cs v = (Inr (), t)"
        by (auto simp: followed_by_def split: prod.splits sum.splits)
      have "leaving v = leaving u" using v(1) by (auto simp: test_free_def call_simps undefined_call_def split: if_splits option.splits)
      then show ?case using Cons.IH [OF v(2)] by simp
    qed (simp add: call_simps)
    from this [OF that] show ?thesis by simp
  qed
  show ?thesis
  proof (cases "bs = []")
    case False
    from free_all_leaves [OF wf] have "fst (free_all bs ?s) = Inr () \<or> fst (free_all bs ?s) = Inl (leaving s)" by simp
    then show ?thesis using False d f leave
      by (cases "free_all bs ?s") (auto simp: fail_if_blocks_allocated_def run followed_by_def call_simps)
  qed (simp add: fail_if_blocks_allocated_def run call_simps)
qed

theorem leak_check_witness:
  "fst (fail_if_blocks_allocated None ''t'' (snd (test_malloc (Some 4096) 10 (Some ''t.c'', 3) cm1))) = Inl Test_Left"
proof -
  let ?s = "snd (test_malloc (Some 4096) 10 (Some ''t.c'', 3) cm1)"
  have s: "heap_wf ?s" "allocated_blocks ?s = [] @ [new_block 4096 10 (Some ''t.c'', 3)]" "leaving ?s = Test_Left"
    using test_malloc_result [of 10 4096 "(Some ''t.c'', 3)" cm1] new_block_ok [of 4096 10 "(Some ''t.c'', 3)"]
    by (simp_all add: Let_def heap_wf_def cm1_def leaving_def)
  from leak_check [OF s(1,2), of "''t''"] s(3) show ?thesis by simp
qed

text \<open>Error behaviour: when the block that was last at the check point has been freed since, the check reads its node.\<close>

lemma stale_check_point:
  assumes "p \<notin> user_ptr ` set (allocated_blocks s)"
  shows "fst (fail_if_blocks_allocated (Some p) name s) = Inl Undefined"
proof -
  have "dropWhile (\<lambda>b. user_ptr b \<noteq> p) (allocated_blocks s) = []" using assms by (auto simp: dropWhile_eq_Nil_conv)
  then have "blocks_after (Some p) (allocated_blocks s) = None" by (simp only: blocks_after_def option.case list.case)
  then show ?thesis by (simp add: fail_if_blocks_allocated_def display_allocated_blocks_def followed_by_def undefined_call_def)
qed

text \<open>Bounds: a size that wraps around makes \<open>test_malloc\<close> write outside its block, and \<open>test_calloc\<close> gives a block too small for its elements.\<close>

theorem huge_sizes_overrun:
  assumes "2 ^ 64 - 112 \<le> n" "n < 2 ^ 64"
  shows "fst (test_malloc (Some b) n loc s) = Inl Undefined \<and> (\<exists>t. test_calloc (Some b) (2 ^ 32) (2 ^ 32) loc s = (Inr ((b + 96) div 8 * 8), t)
    \<and> map block_size (allocated_blocks t) = map block_size (allocated_blocks s) @ [0])"
proof
  have "n + 16 * 2 + 72 + 8 = (n + 112 - 2 ^ 64) + 1 * 2 ^ 64" using assms by simp
  then have "(n + 16 * 2 + 72 + 8) mod 2 ^ 64 = (n + 112 - 2 ^ 64) mod 2 ^ 64" by (metis mod_mult_self1)
  also have "\<dots> = n + 112 - 2 ^ 64" using assms by (intro mod_less) simp
  finally have a: "(n + 16 * 2 + 72 + 8) mod 2 ^ 64 = n + 112 - 2 ^ 64" "b + 16 + 72 + 8 = b + 96" by simp_all
  have "b + (n + 112 - 2 ^ 64) < (b + 96) div 8 * 8 + n + 16" using aligned_ptr(2) [of b] assms by simp
  then show "fst (test_malloc (Some b) n loc s) = Inl Undefined"
    by (simp only: test_malloc_def Let_def guard_defs a option.case if_True undefined_call_def fst_conv)
  have "(b + 96) div 8 * 8 \<noteq> 0" using aligned_ptr(2) [of b] by simp
  then show "\<exists>t. test_calloc (Some b) (2 ^ 32) (2 ^ 32) loc s = (Inr ((b + 96) div 8 * 8), t)
    \<and> map block_size (allocated_blocks t) = map block_size (allocated_blocks s) @ [0]"
    using test_malloc_result [of 0 b loc s] by (simp add: test_calloc_def Let_def call_simps new_block_def)
qed

theorem huge_sizes_overrun_witness: "fst (test_malloc (Some 4096) (2 ^ 64 - 1) (Some ''t.c'', 3) cm1) = Inl Undefined"
  using huge_sizes_overrun [of "2 ^ 64 - 1" 4096 "(Some ''t.c'', 3)" cm1] by simp

end
