(* ===== verification/Spec2Isabelle.thy ===== *)
theory Spec2Isabelle
  imports Ring_Queue Log_Buffer Crc16 Speck64 Base64 Md5 App_Types Bcd Byte_Bitmap Bitops_Shift Kernel_Hlist Mem_Pool Activity_Timer Event_Flags Tcp_Server Tcp_Client Pt_Sem File_Tree Logging Clocks Split_String Ef_Promises Cm_Order Cm_Heap
begin

text \<open>
  Verification of the C utility library \<open>ctools\<close>.

  The repository is a collection of modules for small embedded and Linux programs: containers and buffers, codecs and checksums, bit
  manipulation, a message-driven thread framework with a TCP server and client on top of it, and three bodies of code taken over from elsewhere,
  the debugging allocator Electric Fence (\<open>efence/\<close>), the protothreads (\<open>protothread/\<close>) and the test framework cmocka (\<open>cmocka/\<close>). Each
  module is translated into HOL definitions that carry its names, and the theorems state what its users may rely on, and where they may not.

  \<^bold>\<open>Conventions.\<close> \<open>Prelude\<close> fixes them. Machine integers are words of their width, wrapping as in C; where the sources use \<open>int\<close> for
  quantities that stay small, \<open>int\<close> or \<open>nat\<close>. Arrays are lists and every access is checked: an operation gives \<open>None\<close> (or its own error value) where C
  has undefined behaviour, so a theorem with a result \<open>Some\<close> shows memory safety. Linked structures are maps from addresses to fields. The target is
  64-bit little-endian Linux. Results of system calls and of code outside \<open>src/\<close> are arguments, with their documented behaviour as a named hypothesis
  where a proof needs it. Everything that models code is executable, and each theorem with a hypothesis has a witness that evaluates an instance.

  \<^bold>\<open>Interfaces.\<close> \<open>Interfaces\<close> holds the contracts as locales: a bounded FIFO (the byte queue), a digest that gives the same result whole or in
  pieces (CRC, MD5), a cipher round that can be undone (Speck), a codec of words in memory (the byte-order macros, both orders and all widths), a
  set of bits (the bitmap of bytes and the long bitmaps), a linked sequence (both kinds of kernel list) and a pool of objects (\<open>pool.c\<close>). Each is
  interpreted on the translated definitions in the theory of its component, and the properties rest on the facts of the interpretations.

  \<^bold>\<open>Parts, theories and sources.\<close>

  \<^item> Byte queue, \<open>queue.c\<close>, with the critical sections of \<open>libcpu/\<close>: \<open>Ring_Buffer\<close> (facts on circular copies), \<open>Ring_Queue\<close>. The state is the
    record of the C structure with the interrupt mask. The operations refine a FIFO of bytes, for every state reachable by operations; the counters
    are 16 bits and every difference of them is taken modulo \<open>2 ^ 16\<close> as in the code.
  \<^item> Log buffer, \<open>logbuffer.c\<close>: \<open>Log_Buffer\<close>. It keeps the last bytes written, for any sequence of writes.
  \<^item> Checksums and codecs: \<open>Crc16\<close> (\<open>crc.c\<close>; the table-driven loop is the bit-serial division, errors it detects), \<open>Speck64\<close> (\<open>speck.c\<close>; encryption and
    decryption are inverse), \<open>Base64\<close> (\<open>b64.c\<close>; the encoder is RFC 4648, the decoder inverts it, over buffers that grow and may fail to), \<open>Md5\<close>
    (\<open>md5.c\<close>; the four variants of the compression function agree, buffering in pieces, the stream reader) with \<open>Md5_Sine\<close> (the table of constants is
    that of RFC 1321, the sines of the first 64 numbers, computed in fixed point with a bound on the error), \<open>Bcd\<close> (\<open>app_utils.c\<close>).
  \<^item> Bits: \<open>App_Types\<close> (the macros of \<open>app_type.h\<close>), \<open>Byte_Bitmap\<close> (\<open>bitmap.h\<close>), \<open>Bitops_Word\<close>, \<open>Bitops_Map\<close> and \<open>Bitops_Shift\<close> (\<open>linux_bitops.h\<close>; a
    bitmap of any length is the set of its bits, and every operation the set operation it is named after).
  \<^item> Lists: \<open>Kernel_List\<close> and \<open>Kernel_Hlist\<close> (\<open>linux_list.h\<close>). One map per pointer field; each operation refines one on HOL lists and leaves
    the rest of memory alone; the iteration macros end, also when the body deletes.
  \<^item> Object pool, \<open>pool.c\<close>: \<open>Mem_Pool\<close>. Elements handed out are distinct, aligned and inside the blocks of the pool, over any run of operations.
  \<^item> Event flags, \<open>event1.c\<close>: \<open>Event_Flags\<close>. One thread with the effect of the others, and a system of waiters and posts as interleaved steps: no
    wake-up is lost, waiters settle, a flag is delivered once.
  \<^item> Active objects, \<open>activity.c\<close>: \<open>Activity\<close>, \<open>Activity_Timer\<close>. They use the list (as the queue of messages) and the pools. Messages are handled once and
    in order, and nothing leaks.
  \<^item> TCP, \<open>sktcpserver.c\<close> and \<open>sktcpclient.c\<close>: \<open>Tcp_Server\<close>, \<open>Tcp_Client\<close>. State machines over the results of the system calls, of \<open>uev\<close> and of the callbacks,
    every one of which may fail: descriptors, buffers and list entries are released exactly once, and the server refines a set of sessions. Where the code
    reads a context that it has freed, the state records it.
  \<^item> Protothreads, \<open>protothread/\<close>: \<open>Protothread\<close>, \<open>Pt_Sem\<close>. A thread body is a statement, the \<open>switch\<close> over line numbers a search for the label; it
    agrees with a coroutine that keeps its place, and a body whose loops leave the call on every pass returns from every call. Semaphores, threads with
    flags.
  \<^item> Debugging allocator, \<open>efence/\<close>: \<open>Ef_Print\<close> (messages), \<open>Ef_Page\<close> (virtual memory), \<open>Ef_Alloc\<close> (all functions of \<open>efence.c\<close>), then the proof:
    \<open>Ef_Arena\<close> the invariant, \<open>Ef_Start\<close> its start, \<open>Ef_Malloc\<close>, \<open>Ef_Scan\<close>, \<open>Ef_Chunk\<close>, \<open>Ef_Slots\<close>, \<open>Ef_Free\<close>, \<open>Ef_Fence\<close>, \<open>Ef_Grow\<close> and \<open>Ef_Ops\<close> its
    preservation step by step, \<open>Ef_Public\<close> the public functions, \<open>Ef_Client\<close> the abstract memory, \<open>Ef_Sim\<close> the simulation, \<open>Ef_Refuse\<close> a
    system that refuses \<open>mprotect\<close>, \<open>Ef_Promises\<close> the theorems on whole programs. \<open>Ef_Arena\<close> to \<open>Ef_Sim\<close> take a system that grants every call of
    \<open>mprotect\<close> on mapped pages; \<open>Ef_Refuse\<close> shows that on any other system each operation does the same or ends in \<open>mprotectFailed\<close>.
  \<^item> Test framework, \<open>cmocka/cmocka.c\<close>: \<open>Cm_Symbols\<close> (values queued under names), \<open>Cm_State\<close> (state, messages and the ways out of a test), \<open>Cm_Checks\<close>
    (checks and assertions), \<open>Cm_Mock\<close> and \<open>Cm_Order\<close> (mocked functions, expected parameters and calls), \<open>Cm_Heap\<close> (guarded allocation, leaks).
  \<^item> Small modules: \<open>File_Tree\<close> (\<open>remove_recursive\<close>, \<open>check_file_exists\<close>), \<open>Logging\<close> (\<open>log.c\<close>), \<open>Clocks\<close> (\<open>sys_tickclk.h\<close>, \<open>g_systick.c\<close>,
    \<open>io_probe.h\<close>), \<open>Split_String\<close> (\<open>split_string.hpp\<close>).

  \<^bold>\<open>Bounds and fuel.\<close> Loops are recursion with a proved measure, except these. The allocator is proved for pages of 360 to \<open>2 ^ 20\<close> bytes, requests up to
  \<open>2 ^ 29\<close> bytes and programs of \<open>n\<close> steps with \<open>page * (n + 1) \<le> 2 ^ 29\<close>, which keeps every size computation below the wrap-around and below the
  growth of the slot table that the code provides for. A protothread call has one unit of fuel per statement, and its theorems hold for every
  fuel; for bodies whose loops leave the call on every pass the fuel that is enough is computed from the body. The splitting
  loop of \<open>split_string.hpp\<close> is a \<open>partial_function\<close>: that it returns, or does not, is proved.

  \<^bold>\<open>Not modelled.\<close> Locks that only serialise whole operations are modelled by the operations being atomic; where a lock is missing or released too
  early, the interleaving is explicit. \<open>getch.h\<close>, \<open>syscmd.c\<close> and \<open>stacktrace.cxx\<close> are thin calls of the terminal, the shell and the unwinder; \<open>event.h\<close>
  only declares; \<open>g_systick_init\<close> starts a thread; \<open>efence/eftest.c\<close> and \<open>efence/tstheap.c\<close> are test programs; the event library \<open>uev\<close> and the allocator
  \<open>wof\<close> are not part of the repository. Of cmocka what runs a group of tests, the signal handlers and the output formats are left out. Non-portable branches (Windows,
  big-endian, compilers without the GNU extensions) are left out.
\<close>

end
